(* ===== verification/Prelude.thy ===== *)
theory Prelude
  imports Main "HOL-Library.Word" "HOL-Library.Monad_Syntax"
begin

text \<open>
  The shared vocabulary of the development: machine integers, byte strings, Go slices and
  the little-endian codec of package \<^verbatim>\<open>encoding/binary\<close>, with the lemmas on them that
  every storage component uses.

  Conventions of all theories.  A Go function that can panic returns an \<open>option\<close>; \<open>None\<close> is
  the panic (the repository never calls \<^verbatim>\<open>recover\<close>, so a panic is final).  A returned Go
  \<^verbatim>\<open>error\<close> is a value of a datatype or an inner \<open>option\<close>.  Machine integers are words of
  their width; \<open>unat\<close> reads an unsigned and \<open>sint\<close> a signed one.
\<close>

unbundle bit_operations_syntax

type_synonym byte = "8 word"
type_synonym u16 = "16 word"
type_synonym i16 = "16 word"
type_synonym u32 = "32 word"
type_synonym i32 = "32 word"
type_synonym bytes = "byte list"
type_synonym go_string = bytes

named_theorems layout \<open>facts about byte layouts: lengths, offsets and disjointness\<close>
named_theorems codec \<open>encode/decode round trips\<close>

subsection \<open>Little-endian numbers\<close>

fun le_bytes :: "nat \<Rightarrow> nat \<Rightarrow> bytes" where
  "le_bytes 0 x = []"
| "le_bytes (Suc n) x = of_nat x # le_bytes n (x div 256)"

fun le_val :: "bytes \<Rightarrow> nat" where
  "le_val [] = 0"
| "le_val (b # bs) = unat b + 256 * le_val bs"

lemma length_le_bytes [simp, layout]: "length (le_bytes n x) = n"
  by (induction n arbitrary: x) auto

lemma le_val_le_bytes [codec]: "le_val (le_bytes n x) = x mod 256 ^ n"
  by (induction n arbitrary: x) (auto simp: unat_of_nat mod_mult2_eq)

lemma le_val_bound: "le_val bs < 256 ^ length bs"
proof (induction bs)
  case (Cons b bs)
  have "unat b < 256"
    using unsigned_less [of b] by simp
  with Cons show ?case by simp
qed simp

lemma le_bytes_le_val [codec]: "le_bytes (length bs) (le_val bs) = bs"
proof (induction bs)
  case (Cons b bs)
  have b: "unat b < 256"
    using unsigned_less [of b] by simp
  have "of_nat (unat b + 256 * le_val bs) = (of_nat (unat b) :: byte) + of_nat 256 * of_nat (le_val bs)"
    by simp
  also have "(of_nat 256 :: byte) = 0"
    by simp
  finally have "of_nat (unat b + 256 * le_val bs) = b" by simp
  moreover have "(unat b + 256 * le_val bs) div 256 = le_val bs"
    using b by simp
  ultimately show ?case using Cons by simp
qed simp

text \<open>
  \<^verbatim>\<open>binary.Read\<close> of an \<open>n\<close>-byte number from a buffer: the value and the rest of the buffer.
  A short buffer is drained and leaves the destination at its zero value.
\<close>

definition read_le :: "nat \<Rightarrow> bytes \<Rightarrow> nat \<times> bytes" where
  "read_le n bs = (if length bs < n then (0, []) else (le_val (take n bs), drop n bs))"

lemma read_le_append [codec]:
  "length xs = n \<Longrightarrow> read_le n (xs @ rest) = (le_val xs, rest)"
  by (simp add: read_le_def)

lemma read_le_exact [codec]: "length xs = n \<Longrightarrow> read_le n xs = (le_val xs, [])"
  by (simp add: read_le_def)

subsection \<open>Go slices\<close>

text \<open>\<^verbatim>\<open>d[lo:]\<close> and \<^verbatim>\<open>d[lo:hi]\<close>, which panic out of range.\<close>

definition slice_from :: "nat \<Rightarrow> 'a list \<Rightarrow> 'a list option" where
  "slice_from lo d = (if lo \<le> length d then Some (drop lo d) else None)"

definition slice_range :: "nat \<Rightarrow> nat \<Rightarrow> 'a list \<Rightarrow> 'a list option" where
  "slice_range lo hi d = (if lo \<le> hi \<and> hi \<le> length d then Some (take (hi - lo) (drop lo d)) else None)"

text \<open>\<^verbatim>\<open>copy(d[off:], src)\<close>: as many bytes as fit, a panic when \<open>off\<close> is past the end.\<close>

definition copy_at :: "nat \<Rightarrow> 'a list \<Rightarrow> 'a list \<Rightarrow> 'a list" where
  "copy_at off src d = take off d @ take (length d - off) src @ drop (off + length src) d"

definition go_copy :: "nat \<Rightarrow> 'a list \<Rightarrow> 'a list \<Rightarrow> 'a list option" where
  "go_copy off src d = (if off \<le> length d then Some (copy_at off src d) else None)"

abbreviation seg :: "nat \<Rightarrow> nat \<Rightarrow> 'a list \<Rightarrow> 'a list" where
  "seg off n d \<equiv> take n (drop off d)"

text \<open>Indexing \<^verbatim>\<open>d[i]\<close>, which panics out of range.\<close>

definition go_nth :: "'a list \<Rightarrow> nat \<Rightarrow> 'a option" where
  "go_nth xs i = (if i < length xs then Some (xs ! i) else None)"

lemma go_nth_simps [simp]:
  "i < length xs \<Longrightarrow> go_nth xs i = Some (xs ! i)"
  "length xs \<le> i \<Longrightarrow> go_nth xs i = None"
  by (auto simp: go_nth_def)

lemma go_nth_Some_iff: "go_nth xs i = Some x \<longleftrightarrow> i < length xs \<and> xs ! i = x"
  by (auto simp: go_nth_def)

lemma slice_from_Some [simp]: "lo \<le> length d \<Longrightarrow> slice_from lo d = Some (drop lo d)"
  by (simp add: slice_from_def)

lemma slice_range_Some [simp]:
  "lo \<le> hi \<Longrightarrow> hi \<le> length d \<Longrightarrow> slice_range lo hi d = Some (seg lo (hi - lo) d)"
  by (simp add: slice_range_def)

lemma go_copy_Some [simp]: "off \<le> length d \<Longrightarrow> go_copy off src d = Some (copy_at off src d)"
  by (simp add: go_copy_def)

lemma length_copy_at [simp, layout]:
  "off \<le> length d \<Longrightarrow> length (copy_at off src d) = length d"
  by (simp add: copy_at_def)

lemma nth_copy_at:
  assumes "off \<le> length d" and "i < length d"
  shows "copy_at off src d ! i = (if off \<le> i \<and> i < off + length src then src ! (i - off) else d ! i)"
proof -
  consider "i < off" | "off \<le> i" "i < off + length src" | "off + length src \<le> i"
    by linarith
  then show ?thesis
    using assms by cases (auto simp: copy_at_def nth_append min_def)
qed

lemma copy_at_Nil [simp]: "off \<le> length d \<Longrightarrow> copy_at off [] d = d"
  by (simp add: copy_at_def)

lemma seg_copy_at_same [layout]:
  "off + length src \<le> length d \<Longrightarrow> seg off (length src) (copy_at off src d) = src"
  by (simp add: copy_at_def)

lemma seg_copy_at_other [layout]:
  assumes "off + length src \<le> length d" and "lo + n \<le> off \<or> off + length src \<le> lo"
  shows "seg lo n (copy_at off src d) = seg lo n d"
proof (rule nth_equalityI)
  show len: "length (seg lo n (copy_at off src d)) = length (seg lo n d)"
    using assms by simp
  fix i assume "i < length (seg lo n (copy_at off src d))"
  then have i: "i < n" "lo + i < length d"
    using assms by auto
  moreover from this assms have "\<not> (off \<le> lo + i \<and> lo + i < off + length src)"
    by auto
  ultimately show "seg lo n (copy_at off src d) ! i = seg lo n d ! i"
    using assms(1) by (auto simp: nth_copy_at)
qed

lemma seg_within: "lo' + n' \<le> n \<Longrightarrow> seg lo' n' (seg lo n d) = seg (lo + lo') n' d"
  by (simp add: drop_take add.commute min_def)

lemma drop_copy_at_same [layout]:
  "off + length src \<le> length d \<Longrightarrow> drop off (copy_at off src d) = src @ drop (off + length src) d"
  by (simp add: copy_at_def)

lemma copy_at_append [layout]:
  assumes "off + length a + length b \<le> length d"
  shows "copy_at (off + length a) b (copy_at off a d) = copy_at off (a @ b) d"
  using assms by (intro nth_equalityI) (auto simp: nth_copy_at nth_append)

lemma copy_at_commute:
  assumes "a + length x \<le> length d" and "b + length y \<le> length d" and "a + length x \<le> b \<or> b + length y \<le> a"
  shows "copy_at a x (copy_at b y d) = copy_at b y (copy_at a x d)"
  using assms by (intro nth_equalityI) (auto simp: nth_copy_at)

lemma copy_at_tail [layout]:
  "off \<le> length d \<Longrightarrow> take off d @ copy_at 0 src (drop off d) = copy_at off src d"
  by (simp add: copy_at_def add.commute)

lemma take_copy_at_end [layout]:
  "off + length src \<le> length d \<Longrightarrow> take (off + length src) (copy_at off src d) = take off d @ src"
  by (simp add: copy_at_def)

lemma take_copy_at_before [layout]:
  "n \<le> off \<Longrightarrow> off \<le> length d \<Longrightarrow> take n (copy_at off src d) = take n d"
  by (simp add: copy_at_def min_def)

subsection \<open>Fixed-width codecs\<close>

text \<open>
  The contract of every fixed-width field of a page or log record: an encoder into \<open>n\<close>
  bytes and a decoder that reads the first \<open>n\<close> bytes of what it is given.  A client that
  keeps such a field at an offset of a byte array gets the laws of a record field: a read
  after a write returns what was written, and a write elsewhere leaves the field alone.
\<close>

locale byte_codec =
  fixes enc :: "'a \<Rightarrow> bytes"
    and dec :: "bytes \<Rightarrow> 'a"
    and width :: nat
  assumes length_enc: "length (enc x) = width"
    and dec_enc: "dec (enc x @ rest) = x"
    and dec_prefix: "width \<le> length bs \<Longrightarrow> dec bs = dec (take width bs)"
begin

lemma dec_enc_exact: "dec (enc x) = x"
  using dec_enc [of x "[]"] by simp

lemma enc_inj: "enc x = enc y \<Longrightarrow> x = y"
  by (metis dec_enc_exact)

lemma field_same:
  "off + width \<le> length d \<Longrightarrow> dec (drop off (copy_at off (enc x) d)) = x"
  by (simp add: drop_copy_at_same length_enc dec_enc)

lemma field_other:
  assumes "off + width \<le> length d" and "o' + length src \<le> length d"
    and "off + width \<le> o' \<or> o' + length src \<le> off"
  shows "dec (drop off (copy_at o' src d)) = dec (drop off d)"
proof -
  have "dec (drop off (copy_at o' src d)) = dec (seg off width (copy_at o' src d))"
    using assms by (intro dec_prefix) simp
  also have "seg off width (copy_at o' src d) = seg off width d"
    using assms by (intro seg_copy_at_other) auto
  also have "dec (seg off width d) = dec (drop off d)"
    using assms by (intro dec_prefix [symmetric]) simp
  finally show ?thesis .
qed

lemma field_seg:
  assumes "off + width \<le> length d" and "seg off width d = seg off' width d'"
    and "off' + width \<le> length d'"
  shows "dec (drop off d) = dec (drop off' d')"
  using assms dec_prefix [of "drop off d"] dec_prefix [of "drop off' d'"] by simp

end

subsection \<open>32-bit words as four bytes\<close>

definition enc32 :: "32 word \<Rightarrow> bytes" where
  "enc32 w = le_bytes 4 (unat w)"

definition dec32 :: "bytes \<Rightarrow> 32 word" where
  "dec32 bs = of_nat (fst (read_le 4 bs))"

definition enc16 :: "16 word \<Rightarrow> bytes" where
  "enc16 w = le_bytes 2 (unat w)"

definition dec16 :: "bytes \<Rightarrow> 16 word" where
  "dec16 bs = of_nat (fst (read_le 2 bs))"

definition enc_bool :: "bool \<Rightarrow> bytes" where
  "enc_bool b = [if b then 1 else 0]"

definition dec_bool :: "bytes \<Rightarrow> bool" where
  "dec_bool bs = (fst (read_le 1 bs) \<noteq> 0)"

lemma length_enc [simp, layout]:
  "length (enc32 w) = 4" "length (enc16 v) = 2" "length (enc_bool b) = 1"
  by (simp_all add: enc32_def enc16_def enc_bool_def)

interpretation c32: byte_codec enc32 dec32 4
proof
  fix x :: "32 word" and rest
  have "unat x < 4294967296"
    using unsigned_less [of x] by simp
  then show "dec32 (enc32 x @ rest) = x"
    by (simp add: dec32_def enc32_def read_le_append le_val_le_bytes)
qed (auto simp: dec32_def read_le_def)

interpretation c16: byte_codec enc16 dec16 2
proof
  fix x :: "16 word" and rest
  have "unat x < 65536"
    using unsigned_less [of x] by simp
  then show "dec16 (enc16 x @ rest) = x"
    by (simp add: dec16_def enc16_def read_le_append le_val_le_bytes)
qed (auto simp: dec16_def read_le_def)

interpretation cbool: byte_codec enc_bool dec_bool 1
  by unfold_locales (auto simp: dec_bool_def enc_bool_def read_le_def)

lemmas dec_enc_simps [simp, codec] =
  c32.dec_enc c32.dec_enc_exact c16.dec_enc c16.dec_enc_exact cbool.dec_enc cbool.dec_enc_exact

lemma dec32_short: "length bs < 4 \<Longrightarrow> dec32 bs = 0"
  by (simp add: dec32_def read_le_def)

lemma enc32_dec32: "length bs = 4 \<Longrightarrow> enc32 (dec32 bs) = bs"
proof -
  assume len: "length bs = 4"
  have "le_val bs < 4294967296"
    using le_val_bound [of bs] len by simp
  then have "unat (of_nat (le_val bs) :: 32 word) = le_val bs"
    by (simp add: unat_of_nat)
  then show ?thesis
    using len le_bytes_le_val [of bs] by (simp add: enc32_def dec32_def read_le_exact)
qed

subsection \<open>Options and words\<close>

lemma bind_Some_iff: "Option.bind m f = Some y \<longleftrightarrow> (\<exists>x. m = Some x \<and> f x = Some y)"
  by (cases m) auto

lemma unat_add_less:
  fixes a b :: "32 word"
  shows "unat a + unat b < 2 ^ 32 \<Longrightarrow> unat (a + b) = unat a + unat b"
  by (simp add: unat_word_ariths)

lemma unat_sub_le:
  fixes a b :: "32 word"
  shows "unat b \<le> unat a \<Longrightarrow> unat (a - b) = unat a - unat b"
  by (simp add: unat_sub word_le_nat_alt)

lemma unat_mult_less:
  fixes a b :: "32 word"
  shows "unat a * unat b < 2 ^ 32 \<Longrightarrow> unat (a * b) = unat a * unat b"
  by (simp add: unat_word_ariths)

lemma unat_shift:
  fixes a b c :: "32 word"
  assumes "unat a + unat b < 2 ^ 32" and "unat c \<le> unat a + unat b"
  shows "unat (a + (b - c)) = unat a + unat b - unat c"
  using assms unat_add_less [of a b] unat_sub_le [of c "a + b"] by (simp add: add_diff_eq)

lemma unat_less_2p32: "unat (a :: 32 word) < 4294967296"
  using unsigned_less [of a] by simp

lemma unat_of_nat32: "n < 4294967296 \<Longrightarrow> unat (of_nat n :: 32 word) = n"
  by (simp add: unat_of_nat)

end
