(* ===== verification/Float32.thy ===== *)
theory Float32
  imports Prelude
begin

text \<open>
  Go's \<^verbatim>\<open>float32\<close>, as its IEEE 754 bit pattern: the comparisons, addition in
  round-to-nearest-even and the serialised form the \<^verbatim>\<open>types\<close> package uses.  Every finite
  single is an integer multiple of \<open>2 ^ -149\<close>, so addition is exact integer addition of those
  multiples followed by one rounding.  The payload of a NaN result, which Go leaves to the
  hardware, is the canonical quiet NaN here.
\<close>

type_synonym f32 = "32 word"

definition f32_mag :: "f32 \<Rightarrow> nat" where
  "f32_mag x = unat x mod 2147483648"

definition f32_neg :: "f32 \<Rightarrow> bool" where
  "f32_neg x \<longleftrightarrow> 2147483648 \<le> unat x"

definition f32_inf_mag :: nat where
  "f32_inf_mag = 2139095040"

definition f32_is_nan :: "f32 \<Rightarrow> bool" where
  "f32_is_nan x \<longleftrightarrow> f32_inf_mag < f32_mag x"

definition f32_is_inf :: "f32 \<Rightarrow> bool" where
  "f32_is_inf x \<longleftrightarrow> f32_mag x = f32_inf_mag"

definition f32_key :: "f32 \<Rightarrow> int" where
  "f32_key x = (if f32_neg x then - int (f32_mag x) else int (f32_mag x))"

definition f32_eq :: "f32 \<Rightarrow> f32 \<Rightarrow> bool" where
  "f32_eq x y \<longleftrightarrow> \<not> f32_is_nan x \<and> \<not> f32_is_nan y \<and> f32_key x = f32_key y"

definition f32_less :: "f32 \<Rightarrow> f32 \<Rightarrow> bool" where
  "f32_less x y \<longleftrightarrow> \<not> f32_is_nan x \<and> \<not> f32_is_nan y \<and> f32_key x < f32_key y"

definition f32_leq :: "f32 \<Rightarrow> f32 \<Rightarrow> bool" where
  "f32_leq x y \<longleftrightarrow> \<not> f32_is_nan x \<and> \<not> f32_is_nan y \<and> f32_key x \<le> f32_key y"

lemma f32_leq_iff: "f32_leq x y \<longleftrightarrow> f32_less x y \<or> f32_eq x y"
  by (auto simp: f32_leq_def f32_less_def f32_eq_def)

lemma f32_less_trans: "f32_less x y \<Longrightarrow> f32_less y z \<Longrightarrow> f32_less x z"
  by (auto simp: f32_less_def)

lemma f32_less_asym: "f32_less x y \<Longrightarrow> \<not> f32_less y x"
  by (auto simp: f32_less_def)

lemma f32_trichotomy:
  "\<not> f32_is_nan x \<Longrightarrow> \<not> f32_is_nan y \<Longrightarrow> f32_less x y \<or> f32_eq x y \<or> f32_less y x"
  by (auto simp: f32_less_def f32_eq_def)

subsection \<open>Addition\<close>

text \<open>The value of a finite single in units of \<open>2 ^ -149\<close>.\<close>

definition f32_units :: "f32 \<Rightarrow> int" where
  "f32_units x =
     (let e = f32_mag x div 8388608; m = f32_mag x mod 8388608;
          n = (if e = 0 then m else (8388608 + m) * 2 ^ (e - 1))
      in if f32_neg x then - int n else int n)"

text \<open>The number of low bits to drop so that 24 significant bits remain.\<close>

fun f32_shift :: "nat \<Rightarrow> nat" where
  "f32_shift n = (if n < 16777216 then 0 else Suc (f32_shift (n div 2)))"

declare f32_shift.simps [simp del]

definition f32_round_mag :: "nat \<Rightarrow> nat" where
  "f32_round_mag n =
     (let k = f32_shift n; q = n div 2 ^ k; r = n mod 2 ^ k;
          up = (k > 0 \<and> (2 * r > 2 ^ k \<or> (2 * r = 2 ^ k \<and> odd q)))
      in min f32_inf_mag (k * 8388608 + (if up then Suc q else q)))"

definition f32_nan :: f32 where
  "f32_nan = 2143289344"

definition f32_make :: "bool \<Rightarrow> nat \<Rightarrow> f32" where
  "f32_make s mag = of_nat (mag + (if s then 2147483648 else 0))"

definition f32_add :: "f32 \<Rightarrow> f32 \<Rightarrow> f32" where
  "f32_add x y =
     (if f32_is_nan x \<or> f32_is_nan y then f32_nan
      else if f32_is_inf x \<and> f32_is_inf y then (if f32_neg x = f32_neg y then x else f32_nan)
      else if f32_is_inf x then x
      else if f32_is_inf y then y
      else (let s = f32_units x + f32_units y
            in if s = 0 then f32_make (f32_neg x \<and> f32_neg y) 0
               else f32_make (s < 0) (f32_round_mag (nat \<bar>s\<bar>))))"

lemma unat_f32: "unat x = f32_mag x + (if f32_neg x then 2147483648 else 0)"
  using unat_less_2p32 [of x] by (simp add: f32_mag_def f32_neg_def le_mod_geq)

lemma f32_make_eq: "f32_mag x = f32_mag y \<Longrightarrow> f32_neg x = f32_neg y \<Longrightarrow> x = y"
  using unat_f32 [of x] unat_f32 [of y] by (simp add: word_unat_eq_iff)

lemma f32_add_commute: "f32_add x y = f32_add y x"
proof (cases "f32_is_inf x \<and> f32_is_inf y")
  case True
  then show ?thesis
    by (auto simp: f32_add_def f32_is_inf_def f32_is_nan_def intro: f32_make_eq)
next
  case False
  then show ?thesis
    by (cases "f32_neg x"; cases "f32_neg y") (auto simp: f32_add_def Let_def add.commute)
qed

lemma f32_round_mag_small: "n < 16777216 \<Longrightarrow> f32_round_mag n = n"
  by (simp add: f32_round_mag_def f32_shift.simps [of n] f32_inf_mag_def)

lemma f32_units_small: "f32_mag x < 16777216 \<Longrightarrow>
    f32_units x = (if f32_neg x then - int (f32_mag x) else int (f32_mag x))"
proof -
  assume "f32_mag x < 16777216"
  then have "f32_mag x div 8388608 = 0 \<or> f32_mag x div 8388608 = 1"
    by auto
  then show ?thesis
  proof
    assume "f32_mag x div 8388608 = 1"
    moreover from this have "8388608 + f32_mag x mod 8388608 = f32_mag x"
      using div_mult_mod_eq [of "f32_mag x" 8388608] by simp
    ultimately show ?thesis by (simp add: f32_units_def Let_def)
  qed (auto simp: f32_units_def Let_def)
qed

lemma f32_add_examples:
  "f32_add 0x3F800000 0x40000000 = 0x40400000" \<comment> \<open>1 + 2 = 3\<close>
  "f32_add 0x3F800000 0xBF800000 = 0" \<comment> \<open>1 + -1 = +0\<close>
  "f32_add 0x7F7FFFFF 0x7F7FFFFF = 0x7F800000" \<comment> \<open>overflow to infinity\<close>
  "f32_add 0x4B800000 0x3F800000 = 0x4B800000" \<comment> \<open>a tie rounds to even: 2^24 + 1 = 2^24\<close>
  by (simp_all add: f32_add_def f32_units_def f32_mag_def f32_neg_def f32_is_nan_def f32_is_inf_def
      f32_inf_mag_def f32_make_def f32_round_mag_def f32_shift.simps Let_def)

end
