(* ===== verification/Sql_Types.thy ===== *)
theory Sql_Types
  imports Float32 "HOL-Library.List_Lexorder"
begin

text \<open>
  Package \<^verbatim>\<open>types\<close>: the identifiers (\<^verbatim>\<open>PageID\<close>, \<^verbatim>\<open>TxnID\<close>, \<^verbatim>\<open>LSN\<close>, \<^verbatim>\<open>UInt32\<close>) with their
  serialised form, and the SQL values with their comparisons, arithmetic and byte encoding.
\<close>

subsection \<open>Identifiers\<close>

type_synonym pageID = i32
type_synonym txnID = i32
type_synonym LSN = i32

definition InvalidPageID :: pageID where
  "InvalidPageID = - 1"

definition PageID_IsValid :: "pageID \<Rightarrow> bool" where
  "PageID_IsValid pid \<longleftrightarrow> pid \<noteq> InvalidPageID \<or> sint pid \<ge> 0"

definition PageID_Serialize :: "pageID \<Rightarrow> bytes" where
  "PageID_Serialize pid = enc32 pid"

definition NewPageIDFromBytes :: "bytes \<Rightarrow> pageID" where
  "NewPageIDFromBytes data = dec32 data"

definition TxnID_Serialize :: "txnID \<Rightarrow> bytes" where
  "TxnID_Serialize tid = enc32 tid"

definition NewTxnIDFromBytes :: "bytes \<Rightarrow> txnID" where
  "NewTxnIDFromBytes data = dec32 data"

definition SizeOfLSN :: nat where
  "SizeOfLSN = 4"

definition LSN_Serialize :: "LSN \<Rightarrow> bytes" where
  "LSN_Serialize lsn = enc32 lsn"

definition NewLSNFromBytes :: "bytes \<Rightarrow> LSN" where
  "NewLSNFromBytes data = dec32 data"

text \<open>
  \<^verbatim>\<open>AtomicAdd\<close> adds through the receiver's address.  \<^verbatim>\<open>TxnID\<close>'s has a pointer receiver, so
  the caller's variable changes; \<^verbatim>\<open>LSN\<close>'s has a value receiver, so it adds to its own copy.
  Both are modelled as the value the caller's variable has afterwards.
\<close>

definition TxnID_AtomicAdd :: "txnID \<Rightarrow> i32 \<Rightarrow> txnID" where
  "TxnID_AtomicAdd tid val = tid + val"

definition LSN_AtomicAdd :: "LSN \<Rightarrow> i32 \<Rightarrow> LSN" where
  "LSN_AtomicAdd lsn val = (let copy = lsn + val in lsn)"

definition UInt32_Serialize :: "u32 \<Rightarrow> bytes" where
  "UInt32_Serialize x = enc32 x"

definition NewUInt32FromBytes :: "bytes \<Rightarrow> u32" where
  "NewUInt32FromBytes data = dec32 data"

lemmas id_codec_defs =
  PageID_Serialize_def NewPageIDFromBytes_def TxnID_Serialize_def NewTxnIDFromBytes_def
  LSN_Serialize_def NewLSNFromBytes_def UInt32_Serialize_def NewUInt32FromBytes_def

interpretation pid_codec: byte_codec PageID_Serialize NewPageIDFromBytes 4
  unfolding id_codec_defs by (rule c32.byte_codec_axioms)

interpretation tid_codec: byte_codec TxnID_Serialize NewTxnIDFromBytes 4
  unfolding id_codec_defs by (rule c32.byte_codec_axioms)

interpretation lsn_codec: byte_codec LSN_Serialize NewLSNFromBytes 4
  unfolding id_codec_defs by (rule c32.byte_codec_axioms)

interpretation u32_codec: byte_codec UInt32_Serialize NewUInt32FromBytes 4
  unfolding id_codec_defs by (rule c32.byte_codec_axioms)

lemma length_Serialize [simp, layout]:
  "length (PageID_Serialize p) = 4" "length (TxnID_Serialize t) = 4"
  "length (LSN_Serialize l) = 4" "length (UInt32_Serialize u) = 4"
  by (simp_all add: id_codec_defs)

lemma PageID_IsValid_iff: "PageID_IsValid pid \<longleftrightarrow> pid \<noteq> InvalidPageID"
  by (auto simp: PageID_IsValid_def InvalidPageID_def)

subsection \<open>Values\<close>

datatype type_id = Invalid | Boolean | Tinyint | Smallint | Integer | BigInt | Decimal
  | Float | Varchar | Timestamp | Null

definition TypeID_Size :: "type_id \<Rightarrow> u32" where
  "TypeID_Size t = (case t of Integer \<Rightarrow> 1 + 4 | Float \<Rightarrow> 1 + 4 | Boolean \<Rightarrow> 1 + 1 | _ \<Rightarrow> 0)"

text \<open>
  The four pointers of a \<^verbatim>\<open>Value\<close> that may be \<^verbatim>\<open>nil\<close> are options; \<open>isNull\<close> is a pointer
  every constructor sets, so it is a plain flag.  Dereferencing \<^verbatim>\<open>nil\<close> panics.
\<close>

record sql_value =
  valueType :: type_id
  isNull :: bool
  v_integer :: "i32 option"
  v_boolean :: "bool option"
  v_varchar :: "go_string option"
  v_float :: "f32 option"

definition NewInteger :: "i32 \<Rightarrow> sql_value" where
  "NewInteger v = \<lparr>valueType = Integer, isNull = False, v_integer = Some v, v_boolean = None,
     v_varchar = None, v_float = None\<rparr>"

definition NewFloat :: "f32 \<Rightarrow> sql_value" where
  "NewFloat v = \<lparr>valueType = Float, isNull = False, v_integer = None, v_boolean = None,
     v_varchar = None, v_float = Some v\<rparr>"

definition NewBoolean :: "bool \<Rightarrow> sql_value" where
  "NewBoolean v = \<lparr>valueType = Boolean, isNull = False, v_integer = None, v_boolean = Some v,
     v_varchar = None, v_float = None\<rparr>"

definition NewVarchar :: "go_string \<Rightarrow> sql_value" where
  "NewVarchar v = \<lparr>valueType = Varchar, isNull = False, v_integer = None, v_boolean = None,
     v_varchar = Some v, v_float = None\<rparr>"

definition NewNull :: sql_value where
  "NewNull = \<lparr>valueType = Integer, isNull = True, v_integer = Some 0, v_boolean = None,
     v_varchar = None, v_float = None\<rparr>"

definition SetNull :: "sql_value \<Rightarrow> sql_value option" where
  "SetNull v =
     (let v = v\<lparr>isNull := True\<rparr> in
      case valueType v of
        Integer \<Rightarrow> (case v_integer v of None \<Rightarrow> None | Some _ \<Rightarrow> Some (v\<lparr>v_integer := Some 0\<rparr>))
      | Float \<Rightarrow> (case v_float v of None \<Rightarrow> None | Some _ \<Rightarrow> Some (v\<lparr>v_float := Some 0\<rparr>))
      | Varchar \<Rightarrow> (case v_varchar v of None \<Rightarrow> None | Some _ \<Rightarrow> Some (v\<lparr>v_varchar := Some []\<rparr>))
      | Boolean \<Rightarrow> (case v_boolean v of None \<Rightarrow> None | Some _ \<Rightarrow> Some (v\<lparr>v_boolean := Some False\<rparr>))
      | _ \<Rightarrow> None)"

definition ToBoolean :: "sql_value \<Rightarrow> bool option" where
  "ToBoolean v = v_boolean v"

definition ToInteger :: "sql_value \<Rightarrow> i32 option" where
  "ToInteger v = v_integer v"

definition ToFloat :: "sql_value \<Rightarrow> f32 option" where
  "ToFloat v = v_float v"

definition ToVarchar :: "sql_value \<Rightarrow> go_string option" where
  "ToVarchar v = v_varchar v"

definition cmp2 :: "('a \<Rightarrow> 'a \<Rightarrow> bool) \<Rightarrow> 'a option \<Rightarrow> 'a option \<Rightarrow> bool option" where
  "cmp2 f a b = do { x \<leftarrow> a; y \<leftarrow> b; Some (f x y) }"

definition CompareEquals :: "sql_value \<Rightarrow> sql_value \<Rightarrow> bool option" where
  "CompareEquals v r =
     (if isNull v \<and> isNull r then Some True
      else if isNull v \<or> isNull r then Some False
      else case valueType v of
        Integer \<Rightarrow> cmp2 (=) (v_integer v) (v_integer r)
      | Float \<Rightarrow> cmp2 f32_eq (v_float v) (v_float r)
      | Varchar \<Rightarrow> cmp2 (=) (v_varchar v) (v_varchar r)
      | Boolean \<Rightarrow> cmp2 (=) (v_boolean v) (v_boolean r)
      | _ \<Rightarrow> Some False)"

definition CompareNotEquals :: "sql_value \<Rightarrow> sql_value \<Rightarrow> bool option" where
  "CompareNotEquals v r =
     (if isNull v \<and> isNull r then Some False
      else if isNull v \<or> isNull r then Some True
      else case valueType v of
        Integer \<Rightarrow> cmp2 (\<noteq>) (v_integer v) (v_integer r)
      | Float \<Rightarrow> cmp2 (\<lambda>x y. \<not> f32_eq x y) (v_float v) (v_float r)
      | Varchar \<Rightarrow> cmp2 (\<noteq>) (v_varchar v) (v_varchar r)
      | Boolean \<Rightarrow> cmp2 (\<noteq>) (v_boolean v) (v_boolean r)
      | _ \<Rightarrow> Some False)"

definition CompareGreaterThan :: "sql_value \<Rightarrow> sql_value \<Rightarrow> bool option" where
  "CompareGreaterThan v r =
     (if isNull v then Some False
      else case valueType v of
        Integer \<Rightarrow> cmp2 (\<lambda>x y. sint x > sint y) (v_integer v) (v_integer r)
      | Float \<Rightarrow> cmp2 (\<lambda>x y. f32_less y x) (v_float v) (v_float r)
      | Varchar \<Rightarrow> cmp2 (\<lambda>x y. x > y) (v_varchar v) (v_varchar r)
      | Boolean \<Rightarrow> Some False
      | _ \<Rightarrow> Some False)"

definition CompareGreaterThanOrEqual :: "sql_value \<Rightarrow> sql_value \<Rightarrow> bool option" where
  "CompareGreaterThanOrEqual v r =
     (if isNull v \<and> isNull r then Some True
      else if isNull v \<or> isNull r then Some False
      else case valueType v of
        Integer \<Rightarrow> cmp2 (\<lambda>x y. sint x \<ge> sint y) (v_integer v) (v_integer r)
      | Float \<Rightarrow> cmp2 (\<lambda>x y. f32_leq y x) (v_float v) (v_float r)
      | Varchar \<Rightarrow> cmp2 (\<lambda>x y. x \<ge> y) (v_varchar v) (v_varchar r)
      | Boolean \<Rightarrow> cmp2 (=) (v_boolean v) (v_boolean r)
      | _ \<Rightarrow> Some False)"

definition CompareLessThan :: "sql_value \<Rightarrow> sql_value \<Rightarrow> bool option" where
  "CompareLessThan v r =
     (if isNull v then Some False
      else case valueType v of
        Integer \<Rightarrow> cmp2 (\<lambda>x y. sint x < sint y) (v_integer v) (v_integer r)
      | Float \<Rightarrow> cmp2 f32_less (v_float v) (v_float r)
      | Varchar \<Rightarrow> cmp2 (<) (v_varchar v) (v_varchar r)
      | Boolean \<Rightarrow> Some False
      | _ \<Rightarrow> Some False)"

definition CompareLessThanOrEqual :: "sql_value \<Rightarrow> sql_value \<Rightarrow> bool option" where
  "CompareLessThanOrEqual v r =
     (if isNull v \<and> isNull r then Some True
      else if isNull v \<or> isNull r then Some False
      else case valueType v of
        Integer \<Rightarrow> cmp2 (\<lambda>x y. sint x \<le> sint y) (v_integer v) (v_integer r)
      | Float \<Rightarrow> cmp2 f32_leq (v_float v) (v_float r)
      | Varchar \<Rightarrow> cmp2 (\<le>) (v_varchar v) (v_varchar r)
      | Boolean \<Rightarrow> cmp2 (=) (v_boolean v) (v_boolean r)
      | _ \<Rightarrow> None)"

definition Value_Serialize :: "sql_value \<Rightarrow> bytes option" where
  "Value_Serialize v =
     (case valueType v of
        Integer \<Rightarrow> do { x \<leftarrow> ToInteger v; Some (enc_bool (isNull v) @ enc32 x) }
      | Float \<Rightarrow> do { x \<leftarrow> ToFloat v; Some (enc_bool (isNull v) @ enc32 x) }
      | Varchar \<Rightarrow> do { x \<leftarrow> ToVarchar v;
                        Some (enc_bool (isNull v) @ enc16 (of_nat (length x)) @ x) }
      | Boolean \<Rightarrow> do { x \<leftarrow> ToBoolean v; Some (enc_bool (isNull v) @ enc_bool x) }
      | _ \<Rightarrow> Some [])"

definition Value_Size :: "sql_value \<Rightarrow> u32 option" where
  "Value_Size v =
     (case valueType v of
        Integer \<Rightarrow> Some (TypeID_Size Integer)
      | Float \<Rightarrow> Some (TypeID_Size Float)
      | Varchar \<Rightarrow> do { x \<leftarrow> v_varchar v; Some (of_nat (length x) + 1 + 2) }
      | Boolean \<Rightarrow> Some (TypeID_Size Boolean)
      | _ \<Rightarrow> None)"

definition mk_null :: "bool \<Rightarrow> sql_value \<Rightarrow> sql_value option" where
  "mk_null n v = (if n then SetNull v else Some v)"

text \<open>
  The length of a varchar is read as an \<^verbatim>\<open>int16\<close> and the upper bound of the slice,
  \<^verbatim>\<open>*length + (1 + 2)\<close>, is computed in \<^verbatim>\<open>int16\<close>: it wraps, and a negative bound panics.
  A slice expression of Go may reach beyond the length of the slice up to its capacity; byte strings here have no
  capacity, so a bound beyond the length is a panic too.  The definition is stricter than the code on a record
  whose varchar length points past its end, and agrees with it on every record that holds its payload.
\<close>

definition NewValueFromBytes :: "bytes \<Rightarrow> type_id \<Rightarrow> sql_value option" where
  "NewValueFromBytes data t =
     (case t of
        Integer \<Rightarrow>
          (let (n, buf) = read_le 1 data; (v, buf) = read_le 4 buf
           in mk_null (n \<noteq> 0) (NewInteger (of_nat v)))
      | Float \<Rightarrow>
          (let (n, buf) = read_le 1 data; (v, buf) = read_le 4 buf
           in mk_null (n \<noteq> 0) (NewFloat (of_nat v)))
      | Varchar \<Rightarrow>
          (let (n, buf) = read_le 1 data; (len, buf) = read_le 2 buf;
               hi = sint ((of_nat len :: i16) + 3)
           in if hi < 0 then None
              else do { s \<leftarrow> slice_range 3 (nat hi) data; mk_null (n \<noteq> 0) (NewVarchar s) })
      | Boolean \<Rightarrow>
          (let (n, buf) = read_le 1 data; (v, buf) = read_le 1 buf
           in mk_null (n \<noteq> 0) (NewBoolean (v \<noteq> 0)))
      | _ \<Rightarrow> None)"

text \<open>The aggregate arithmetic.  Integer addition wraps at 32 bits.\<close>

definition Value_Add :: "sql_value \<Rightarrow> sql_value \<Rightarrow> sql_value option" where
  "Value_Add v other =
     (if isNull other then Some v
      else case valueType v of
        Integer \<Rightarrow> do { x \<leftarrow> v_integer v; y \<leftarrow> v_integer other; Some (NewInteger (x + y)) }
      | Float \<Rightarrow> do { x \<leftarrow> v_float v; y \<leftarrow> v_float other; Some (NewFloat (f32_add x y)) }
      | _ \<Rightarrow> None)"

definition Value_Max :: "sql_value \<Rightarrow> sql_value \<Rightarrow> sql_value option" where
  "Value_Max v other =
     (if isNull other then Some v
      else case valueType v of
        Integer \<Rightarrow> do { x \<leftarrow> v_integer v; y \<leftarrow> v_integer other;
          Some (if sint x \<ge> sint y then NewInteger x else NewInteger y) }
      | Float \<Rightarrow> do { x \<leftarrow> v_float v; y \<leftarrow> v_float other;
          Some (if f32_leq y x then NewFloat x else NewFloat y) }
      | _ \<Rightarrow> None)"

definition Value_Min :: "sql_value \<Rightarrow> sql_value \<Rightarrow> sql_value option" where
  "Value_Min v other =
     (if isNull other then Some v
      else case valueType v of
        Integer \<Rightarrow> do { x \<leftarrow> v_integer v; y \<leftarrow> v_integer other;
          Some (if sint x \<le> sint y then NewInteger x else NewInteger y) }
      | Float \<Rightarrow> do { x \<leftarrow> v_float v; y \<leftarrow> v_float other;
          Some (if f32_leq x y then NewFloat x else NewFloat y) }
      | _ \<Rightarrow> None)"

subsection \<open>Well-formed values\<close>

text \<open>
  What every constructor and operation of the package keeps: the pointer of the value's own
  type is set, the others are \<^verbatim>\<open>nil\<close>, and a NULL carries the default payload of its type.
\<close>

definition wf_value :: "sql_value \<Rightarrow> bool" where
  "wf_value v \<longleftrightarrow>
     (case valueType v of
        Integer \<Rightarrow> v_integer v \<noteq> None \<and> v_boolean v = None \<and> v_varchar v = None \<and> v_float v = None
          \<and> (isNull v \<longrightarrow> v_integer v = Some 0)
      | Float \<Rightarrow> v_float v \<noteq> None \<and> v_integer v = None \<and> v_boolean v = None \<and> v_varchar v = None
          \<and> (isNull v \<longrightarrow> v_float v = Some 0)
      | Varchar \<Rightarrow> v_varchar v \<noteq> None \<and> v_integer v = None \<and> v_boolean v = None \<and> v_float v = None
          \<and> (isNull v \<longrightarrow> v_varchar v = Some [])
      | Boolean \<Rightarrow> v_boolean v \<noteq> None \<and> v_integer v = None \<and> v_varchar v = None \<and> v_float v = None
          \<and> (isNull v \<longrightarrow> v_boolean v = Some False)
      | _ \<Rightarrow> False)"

text \<open>The payload a varchar column can carry and get back (see \<open>Value_roundtrip\<close>).\<close>

definition storable :: "sql_value \<Rightarrow> bool" where
  "storable v \<longleftrightarrow> wf_value v \<and> (\<forall>s. v_varchar v = Some s \<longrightarrow> length s \<le> 32764)"

lemma wf_value_cases [consumes 1, case_names Integer Float Varchar Boolean]:
  assumes "wf_value v"
  obtains x n where "v = (NewInteger x)\<lparr>isNull := n\<rparr>" "n \<longrightarrow> x = 0"
  | x n where "v = (NewFloat x)\<lparr>isNull := n\<rparr>" "n \<longrightarrow> x = 0"
  | x n where "v = (NewVarchar x)\<lparr>isNull := n\<rparr>" "n \<longrightarrow> x = []"
  | x n where "v = (NewBoolean x)\<lparr>isNull := n\<rparr>" "n \<longrightarrow> x = False"
  using assms
  by (cases v; cases "valueType v")
     (auto simp: wf_value_def NewInteger_def NewFloat_def NewVarchar_def NewBoolean_def)

lemmas value_defs = NewInteger_def NewFloat_def NewVarchar_def NewBoolean_def NewNull_def
  SetNull_def mk_null_def ToInteger_def ToFloat_def ToVarchar_def ToBoolean_def

lemmas compare_defs = CompareEquals_def CompareNotEquals_def CompareGreaterThan_def
  CompareGreaterThanOrEqual_def CompareLessThan_def CompareLessThanOrEqual_def cmp2_def

lemma signed_word_eqI: "sint x = sint y \<Longrightarrow> x = y"
  by (simp add: signed_word_eqI)

lemma wf_New [simp]:
  "wf_value (NewInteger x)" "wf_value (NewFloat f)" "wf_value (NewVarchar s)"
  "wf_value (NewBoolean b)" "wf_value NewNull"
  by (simp_all add: wf_value_def value_defs)

lemma wf_SetNull: "wf_value v \<Longrightarrow> \<exists>v'. SetNull v = Some v' \<and> wf_value v' \<and> isNull v' \<and>
    valueType v' = valueType v"
  by (cases rule: wf_value_cases) (auto simp: wf_value_def value_defs)

lemma mk_null_wf: "mk_null n v = Some v' \<Longrightarrow> wf_value v \<Longrightarrow> wf_value v'"
  using wf_SetNull [of v] by (auto simp: mk_null_def split: if_splits)

text \<open>Deserialisation never builds an ill-formed value.\<close>

lemma NewValueFromBytes_wf: "NewValueFromBytes data t = Some v \<Longrightarrow> wf_value v"
  by (auto simp: NewValueFromBytes_def bind_Some_iff Let_def split: type_id.splits prod.splits if_splits
      dest!: mk_null_wf)

lemma sint16_small: "n \<le> 32764 \<Longrightarrow> sint ((of_nat n :: i16) + 3) = int n + 3"
proof -
  assume n: "n \<le> 32764"
  have "(of_nat n :: i16) + 3 = word_of_int (int n + 3)"
    by simp
  also have "sint \<dots> = int n + 3"
    using n by (subst signed_of_int) (simp add: signed_take_bit_int_eq_self)
  finally show ?thesis .
qed

lemma unat16_small: "n \<le> 65535 \<Longrightarrow> unat (of_nat n :: 16 word) = n"
  by (simp add: unat_of_nat)

subsection \<open>Comparable values\<close>

text \<open>Not NULL, no boolean and no NaN: the values on which the comparisons are a total order.  Their rank is a list of integers,
  compared lexicographically: the number, the order key of the float, the bytes of the string.\<close>

definition comparable :: "sql_value \<Rightarrow> bool" where
  "comparable v \<longleftrightarrow> wf_value v \<and> \<not> isNull v \<and> valueType v \<noteq> Boolean \<and> (case v_float v of Some x \<Rightarrow> \<not> f32_is_nan x | None \<Rightarrow> True)"

definition rank :: "sql_value \<Rightarrow> int list" where
  "rank v = (case valueType v of
     Integer \<Rightarrow> [sint (the (v_integer v))]
   | Float \<Rightarrow> [f32_key (the (v_float v))]
   | _ \<Rightarrow> map uint (the (v_varchar v)))"

lemma map_uint_less: "map uint (xs :: byte list) < map uint ys \<longleftrightarrow> xs < ys"
proof (induction xs arbitrary: ys)
  case Nil
  then show ?case by (cases ys) simp_all
next
  case (Cons x xs)
  have u: "(uint (x :: byte) = uint y) = (x = y)" "(uint (x :: byte) < uint y) = (x < y)" for y
    by (simp_all only: word_uint_eq_iff word_less_def)
  show ?case by (cases ys) (simp_all only: list.map Cons_less_Cons Cons.IH u not_less_Nil)
qed

lemma compare_rank:
  assumes "comparable v" "comparable r" "valueType v = valueType r"
  shows "CompareEquals v r = Some (rank v = rank r) \<and> CompareLessThan v r = Some (rank v < rank r)"
proof -
  have w: "wf_value v" "wf_value r" using assms by (simp_all add: comparable_def)
  show ?thesis using w(1)
  proof (cases rule: wf_value_cases)
    case (Integer x n)
    with w(2) assms(3) obtain y m where "r = (NewInteger y)\<lparr>isNull := m\<rparr>" by (cases rule: wf_value_cases) (auto simp: value_defs)
    with Integer assms(1,2) show ?thesis by (auto simp: comparable_def compare_defs value_defs rank_def dest: signed_word_eqI)
  next
    case (Float x n)
    with w(2) assms(3) obtain y m where "r = (NewFloat y)\<lparr>isNull := m\<rparr>" by (cases rule: wf_value_cases) (auto simp: value_defs)
    with Float assms(1,2) show ?thesis by (auto simp: comparable_def compare_defs value_defs rank_def f32_eq_def f32_less_def)
  next
    case (Varchar x n)
    with w(2) assms(3) obtain y m where "r = (NewVarchar y)\<lparr>isNull := m\<rparr>" by (cases rule: wf_value_cases) (auto simp: value_defs)
    with Varchar assms(1,2) show ?thesis by (auto simp: comparable_def compare_defs value_defs rank_def map_uint_less inj_map_eq_map)
  next
    case (Boolean x n)
    with assms(1) show ?thesis by (simp add: comparable_def value_defs)
  qed
qed

lemma compare_derived:
  assumes "comparable v" "comparable r" "valueType v = valueType r"
  shows "CompareGreaterThan v r = Some (rank r < rank v) \<and> CompareNotEquals v r = Some (rank v \<noteq> rank r) \<and>
    CompareLessThanOrEqual v r = Some (rank v \<le> rank r) \<and> CompareGreaterThanOrEqual v r = Some (rank r \<le> rank v)"
proof -
  have w: "wf_value v" "wf_value r" using assms by (simp_all add: comparable_def)
  have eq: "(sint (x :: i32) = sint y) = (x = y)" for x y using signed_word_eqI [of x y] by auto
  show ?thesis using w(1)
  proof (cases rule: wf_value_cases)
    case (Integer x n)
    with w(2) assms(3) obtain y m where "r = (NewInteger y)\<lparr>isNull := m\<rparr>" by (cases rule: wf_value_cases) (auto simp: value_defs)
    with Integer assms(1,2) show ?thesis by (auto simp: comparable_def compare_defs value_defs rank_def eq le_less)
  next
    case (Float x n)
    with w(2) assms(3) obtain y m where "r = (NewFloat y)\<lparr>isNull := m\<rparr>" by (cases rule: wf_value_cases) (auto simp: value_defs)
    with Float assms(1,2) show ?thesis by (auto simp: comparable_def compare_defs value_defs rank_def f32_eq_def f32_less_def f32_leq_def)
  next
    case (Varchar x n)
    with w(2) assms(3) obtain y m where "r = (NewVarchar y)\<lparr>isNull := m\<rparr>" by (cases rule: wf_value_cases) (auto simp: value_defs)
    with Varchar assms(1,2) show ?thesis by (auto simp: comparable_def compare_defs value_defs rank_def map_uint_less inj_map_eq_map le_less)
  next
    case (Boolean x n)
    with assms(1) show ?thesis by (simp add: comparable_def value_defs)
  qed
qed

subsection \<open>Properties\<close>

lemma Value_roundtrip_aux:
  assumes "storable v"
  shows "\<exists>bs. Value_Serialize v = Some bs \<and> Value_Size v = Some (of_nat (length bs)) \<and>
           NewValueFromBytes (bs @ rest) (valueType v) = Some v"
proof -
  have i32: "of_nat (le_val (enc32 x)) = x" for x
    using c32.dec_enc_exact [of x] by (simp add: dec32_def read_le_exact)
  have b1: "read_le (Suc 0) (enc_bool b @ r) = (if b then 1 else 0, r)" for b r
    by (simp add: enc_bool_def read_le_def)
  from assms have "wf_value v" by (simp add: storable_def)
  then show ?thesis
  proof (cases rule: wf_value_cases)
    case (Varchar s n)
    with assms have len: "length s \<le> 32764"
      by (simp add: storable_def NewVarchar_def)
    then have "le_val (enc16 (of_nat (length s))) = length s"
      by (simp add: enc16_def le_val_le_bytes unat16_small)
    moreover have "slice_range 3 (length s + 3) (enc_bool n @ enc16 w @ s @ rest) = Some s" for w
      by (simp add: slice_range_def)
    ultimately show ?thesis using Varchar len
      by (auto simp: Value_Serialize_def Value_Size_def NewValueFromBytes_def value_defs b1
          read_le_append sint16_small nat_add_distrib nat_int_add)
  qed (auto simp: Value_Serialize_def Value_Size_def NewValueFromBytes_def value_defs TypeID_Size_def
        b1 read_le_append read_le_exact i32)
qed

text \<open>C36: Every well-formed value whose varchar payload has at most 32764 bytes survives the byte
  encoding: \<^verbatim>\<open>Serialize\<close> succeeds, produces as many bytes as \<^verbatim>\<open>Size\<close> announces, and
  \<^verbatim>\<open>NewValueFromBytes\<close> at the value's type reads the same value back, whatever bytes follow.\<close>
theorem Value_roundtrip:
  assumes "storable v"
  shows "\<exists>bs. Value_Serialize v = Some bs \<and> Value_Size v = Some (of_nat (length bs)) \<and>
           NewValueFromBytes (bs @ rest) (valueType v) = Some v"
  using assms by (rule Value_roundtrip_aux)

theorem Value_roundtrip_witness:
  "storable (NewVarchar [104, 105]) \<and>
   (\<exists>bs. Value_Serialize (NewVarchar [104, 105]) = Some bs \<and>
      Value_Size (NewVarchar [104, 105]) = Some (of_nat (length bs)) \<and>
      NewValueFromBytes (bs @ [7]) (valueType (NewVarchar [104, 105])) = Some (NewVarchar [104, 105]))"
proof -
  have h: "storable (NewVarchar [104, 105])"
    by (simp add: storable_def NewVarchar_def wf_value_def)
  show ?thesis using h Value_roundtrip [OF h, of "[7]"] by simp
qed

text \<open>A varchar of 32765 to 65535 bytes is serialised without complaint, but its length field is
  read back as an \<^verbatim>\<open>int16\<close> and the slice bound wraps: deserialising it panics.\<close>
theorem Varchar_long_panics:
  assumes "32765 \<le> length s" and "length s \<le> 65535"
  shows "\<exists>bs. Value_Serialize (NewVarchar s) = Some bs \<and> NewValueFromBytes (bs @ rest) Varchar = None"
proof -
  have len: "le_val (enc16 (of_nat (length s))) = length s"
    using assms by (simp add: enc16_def le_val_le_bytes unat16_small)
  have "(of_nat (length s) :: i16) + 3 = word_of_int (int (length s) + 3)"
    by simp
  also have "sint \<dots> = (32771 + int (length s)) mod 65536 - 32768"
    by (subst signed_of_int) (simp add: signed_take_bit_eq_take_bit_shift take_bit_eq_mod)
  also have "(32771 + int (length s)) mod 65536 = (32771 + int (length s) - 65536) mod 65536"
    by (simp only: minus_mod_self2)
  also have "\<dots> = 32771 + int (length s) - 65536"
    using assms by (intro mod_pos_pos_trivial) auto
  finally have hi: "sint ((of_nat (length s) :: i16) + 3) = int (length s) + 3 - 65536"
    by simp
  have b1: "read_le (Suc 0) (enc_bool b @ r) = (if b then 1 else 0, r)" for b r
    by (simp add: enc_bool_def read_le_def)
  show ?thesis
    using assms
    by (auto simp: Value_Serialize_def NewValueFromBytes_def value_defs b1 read_le_append len hi slice_range_def)
qed

theorem Varchar_long_panics_witness:
  "\<exists>bs. Value_Serialize (NewVarchar (replicate 40000 97)) = Some bs \<and>
        NewValueFromBytes (bs @ []) Varchar = None"
  using Varchar_long_panics [of "replicate 40000 97" "[]"] by simp

text \<open>C37: On non-NULL Integer, Varchar and non-NaN Float values of one type the six comparison methods never
  panic and are those of one total order, that of the \<open>rank\<close> of the values (the number, the order key of the float, the
  bytes of the string): exactly one of \<open><\<close>, \<open>=\<close>, \<open>>\<close> holds, \<open><=\<close>, \<open>>=\<close> and \<open>!=\<close> are derived from them, \<open><\<close> and \<open>=\<close> are
  transitive and equal values compare alike with every third value.  Booleans (never smaller or greater than one
  another, \<^verbatim>\<open>Compare_boolean_unordered\<close>), NaN and NULL are excluded.\<close>
theorem Compare_total_order:
  assumes "comparable v" and "comparable r" and "comparable w" and "valueType v = valueType r" and "valueType r = valueType w"
  shows "(\<exists>lt eq gt. CompareLessThan v r = Some lt \<and> CompareEquals v r = Some eq \<and>
           CompareGreaterThan v r = Some gt \<and> CompareLessThanOrEqual v r = Some (lt \<or> eq) \<and>
           CompareGreaterThanOrEqual v r = Some (gt \<or> eq) \<and> CompareNotEquals v r = Some (\<not> eq) \<and>
           ((lt \<and> \<not> eq \<and> \<not> gt) \<or> (\<not> lt \<and> eq \<and> \<not> gt) \<or> (\<not> lt \<and> \<not> eq \<and> gt)) \<and>
           lt = (rank v < rank r) \<and> eq = (rank v = rank r) \<and> gt = (rank r < rank v)) \<and>
    (CompareLessThan v r = Some True \<longrightarrow> CompareLessThan r w = Some True \<longrightarrow> CompareLessThan v w = Some True) \<and>
    (CompareEquals v r = Some True \<longrightarrow> CompareEquals r w = Some True \<longrightarrow> CompareEquals v w = Some True) \<and>
    (CompareEquals v r = Some True \<longrightarrow> CompareLessThan v w = CompareLessThan r w \<and> CompareLessThan w v = CompareLessThan w r)"
proof -
  have c: "comparable v" "comparable r" "comparable w" "valueType v = valueType w" "valueType w = valueType v" "valueType w = valueType r"
    using assms by simp_all
  note vr = compare_rank [OF c(1,2) assms(4)] and rw = compare_rank [OF c(2,3) assms(5)]
    and vw = compare_rank [OF c(1,3,4)] and wv = compare_rank [OF c(3,1,5)] and wr = compare_rank [OF c(3,2,6)]
  show ?thesis
    using compare_derived [OF c(1,2) assms(4)] vr rw vw wv wr by auto
qed

theorem Compare_total_order_witness:
  "rank (NewVarchar [1]) < rank (NewVarchar [1, 7]) \<and> CompareLessThan (NewVarchar [1]) (NewVarchar [1, 7]) = Some True \<and>
   CompareLessThan (NewVarchar [1, 7]) (NewVarchar [2]) = Some True \<and> CompareLessThan (NewVarchar [1]) (NewVarchar [2]) = Some True \<and>
   CompareGreaterThan (NewVarchar [1]) (NewVarchar [1, 7]) = Some False \<and>
   CompareLessThanOrEqual (NewInteger (-3)) (NewInteger 7) = Some True"
  using Compare_total_order [of "NewVarchar [1]" "NewVarchar [1, 7]" "NewVarchar [2]"]
    Compare_total_order [of "NewInteger (-3)" "NewInteger 7" "NewInteger 7"]
  by (simp add: comparable_def wf_value_def value_defs rank_def compare_defs)

text \<open>Two different booleans are neither smaller, nor greater, nor equal: no order on them.\<close>

lemma Compare_boolean_unordered:
  "CompareLessThan (NewBoolean a) (NewBoolean (\<not> a)) = Some False \<and> CompareGreaterThan (NewBoolean a) (NewBoolean (\<not> a)) = Some False \<and>
   CompareEquals (NewBoolean a) (NewBoolean (\<not> a)) = Some False"
  by (simp add: compare_defs value_defs)

text \<open>A positive integer compared with NULL: \<^verbatim>\<open>CompareGreaterThan\<close> tests only its receiver for
  NULL and compares with the default payload 0, so it answers true, while
  \<^verbatim>\<open>CompareGreaterThanOrEqual\<close> and \<^verbatim>\<open>CompareEquals\<close> answer false on the same operands.\<close>
theorem Compare_null_right_inconsistent:
  assumes "0 < sint x"
  shows "CompareGreaterThan (NewInteger x) NewNull = Some True \<and>
         CompareGreaterThanOrEqual (NewInteger x) NewNull = Some False \<and>
         CompareEquals (NewInteger x) NewNull = Some False"
  using assms by (simp add: compare_defs value_defs)

theorem Compare_null_right_inconsistent_witness:
  "CompareGreaterThan (NewInteger 5) NewNull = Some True \<and>
   CompareGreaterThanOrEqual (NewInteger 5) NewNull = Some False \<and>
   CompareEquals (NewInteger 5) NewNull = Some False"
  by (rule Compare_null_right_inconsistent) simp

end
