(* ===== verification/Page.thy ===== *)
theory Page
  imports Sql_Types
begin

text \<open>
  Package \<^verbatim>\<open>storage/page\<close>: record identifiers and the page frame with its book-keeping (pin
  count, dirty flag) and its 4096 bytes.  The page latch is left out: the development models
  each operation as one atomic step.
\<close>

definition PageSize :: nat where
  "PageSize = 4096"

lemma PageSize_eq [simp]: "PageSize = 4096"
  by (simp add: PageSize_def)

record rid =
  PageId :: pageID
  SlotNum :: u32

definition RID_Set :: "rid \<Rightarrow> pageID \<Rightarrow> u32 \<Rightarrow> rid" where
  "RID_Set r pageId slot = r\<lparr>PageId := pageId, SlotNum := slot\<rparr>"

definition GetPageId :: "rid \<Rightarrow> pageID" where
  "GetPageId r = PageId r"

definition GetSlotNum :: "rid \<Rightarrow> u32" where
  "GetSlotNum r = SlotNum r"

text \<open>The zero value \<^verbatim>\<open>page.RID{}\<close>, and \<^verbatim>\<open>binary.Write\<close>/\<^verbatim>\<open>binary.Read\<close> of the struct.\<close>

definition RID_zero :: rid where
  "RID_zero = \<lparr>PageId = 0, SlotNum = 0\<rparr>"

definition RID_bytes :: "rid \<Rightarrow> bytes" where
  "RID_bytes r = enc32 (PageId r) @ enc32 (SlotNum r)"

definition RID_of_bytes :: "bytes \<Rightarrow> rid" where
  "RID_of_bytes bs = (if length bs < 8 then RID_zero
     else \<lparr>PageId = dec32 bs, SlotNum = dec32 (drop 4 bs)\<rparr>)"

interpretation rid_codec: byte_codec RID_bytes RID_of_bytes 8
proof
  fix bs :: bytes
  assume "8 \<le> length bs"
  then have "dec32 (drop 0 (take 8 bs)) = dec32 (drop 0 bs)"
    by (intro c32.field_seg) (simp_all add: min_def)
  moreover have "dec32 (drop 4 (take 8 bs)) = dec32 (drop 4 bs)"
    using \<open>8 \<le> length bs\<close> by (intro c32.field_seg) (simp_all add: min_def drop_take)
  ultimately show "RID_of_bytes bs = RID_of_bytes (take 8 bs)"
    by (auto simp: RID_of_bytes_def)
qed (simp_all add: RID_bytes_def RID_of_bytes_def)

lemma length_RID_bytes [simp, layout]: "length (RID_bytes r) = 8"
  by (rule rid_codec.length_enc)

subsection \<open>Page frames\<close>

definition OffsetLSN :: nat where
  "OffsetLSN = 4"

record page =
  pg_id :: pageID
  pinCount :: u32
  isDirty :: bool
  pg_data :: bytes

definition IncPinCount :: "page \<Rightarrow> page" where
  "IncPinCount p = p\<lparr>pinCount := pinCount p + 1\<rparr>"

definition DecPinCount :: "page \<Rightarrow> page" where
  "DecPinCount p = (if pinCount p > 0 then p\<lparr>pinCount := pinCount p - 1\<rparr> else p)"

definition SetIsDirty :: "page \<Rightarrow> bool \<Rightarrow> page" where
  "SetIsDirty p d = p\<lparr>isDirty := d\<rparr>"

definition page_Copy :: "page \<Rightarrow> u32 \<Rightarrow> bytes \<Rightarrow> page option" where
  "page_Copy p offset data = do { d \<leftarrow> go_copy (unat offset) data (pg_data p); Some (p\<lparr>pg_data := d\<rparr>) }"

definition page_New :: "pageID \<Rightarrow> bool \<Rightarrow> bytes \<Rightarrow> page" where
  "page_New pid dirty data = \<lparr>pg_id = pid, pinCount = 1, isDirty = dirty, pg_data = data\<rparr>"

definition page_NewEmpty :: "pageID \<Rightarrow> page" where
  "page_NewEmpty pid = \<lparr>pg_id = pid, pinCount = 1, isDirty = False, pg_data = replicate PageSize 0\<rparr>"

text \<open>The page LSN, on the page's bytes.\<close>

definition GetLSN :: "bytes \<Rightarrow> LSN" where
  "GetLSN d = NewLSNFromBytes (seg OffsetLSN SizeOfLSN d)"

definition SetLSN :: "LSN \<Rightarrow> bytes \<Rightarrow> bytes" where
  "SetLSN lsn d = copy_at OffsetLSN (LSN_Serialize lsn) d"

lemma GetLSN_SetLSN: "length d = PageSize \<Longrightarrow> GetLSN (SetLSN lsn d) = lsn"
  using seg_copy_at_same [of 4 "LSN_Serialize lsn" d]
  by (simp add: GetLSN_def SetLSN_def OffsetLSN_def SizeOfLSN_def lsn_codec.dec_enc_exact)

lemma length_SetLSN [simp, layout]: "length d = 4096 \<Longrightarrow> length (SetLSN lsn d) = 4096"
  by (simp add: SetLSN_def OffsetLSN_def)

lemma seg_SetLSN [layout]:
  "length d = 4096 \<Longrightarrow> 8 \<le> lo \<or> lo + n \<le> 4 \<Longrightarrow> seg lo n (SetLSN lsn d) = seg lo n d"
  unfolding SetLSN_def OffsetLSN_def by (rule seg_copy_at_other) auto

lemma DecPinCount_zero: "pinCount (DecPinCount p) = 0 \<longleftrightarrow> pinCount p = 0 \<or> pinCount p = 1"
  by (auto simp: DecPinCount_def word_gt_0)

end
