(* ===== verification/Tuple_Schema.thy ===== *)
theory Tuple_Schema
  imports Page
begin

text \<open>
  Packages \<^verbatim>\<open>storage/table/column\<close>, \<^verbatim>\<open>storage/table/schema\<close> and \<^verbatim>\<open>storage/tuple\<close>: the layout of
  a row.  A tuple is a fixed area with one cell per column (the value itself, or a 4-byte
  offset for a varchar) followed by the varchar payloads.  The main result is the round trip
  \<open>Tuple_roundtrip\<close>: every column of a tuple built from a row of values reads back as the
  value that was put in.
\<close>

subsection \<open>Columns\<close>

text \<open>\<open>col_expr\<close> is a pointer to an expression object, or \<^verbatim>\<open>nil\<close>; only its identity is kept.\<close>

record column =
  columnName :: go_string
  columnType :: type_id
  fixedLength :: u32
  variableLength :: u32
  columnOffset :: u32
  hasIndex :: bool
  isLeft :: bool
  col_expr :: "nat option"

definition NewColumn :: "go_string \<Rightarrow> type_id \<Rightarrow> bool \<Rightarrow> nat option \<Rightarrow> column" where
  "NewColumn name t idx expr =
     (if t \<noteq> Varchar
      then \<lparr>columnName = name, columnType = t, fixedLength = TypeID_Size t, variableLength = 0,
            columnOffset = 0, hasIndex = idx, isLeft = True, col_expr = expr\<rparr>
      else \<lparr>columnName = name, columnType = Varchar, fixedLength = 4, variableLength = 255,
            columnOffset = 0, hasIndex = idx, isLeft = True, col_expr = expr\<rparr>)"

definition IsInlined :: "column \<Rightarrow> bool" where
  "IsInlined c \<longleftrightarrow> columnType c \<noteq> Varchar"

definition SetOffset :: "column \<Rightarrow> u32 \<Rightarrow> column" where
  "SetOffset c off = c\<lparr>columnOffset := off\<rparr>"

subsection \<open>Schemas\<close>

record schema =
  sch_length :: u32
  columns :: "column list"
  tupleIsInlined :: bool
  uninlinedColumns :: "u32 list"

fun NewSchema_loop :: "u32 \<Rightarrow> u32 \<Rightarrow> schema \<Rightarrow> column list \<Rightarrow> schema" where
  "NewSchema_loop i currentOffset s [] = s\<lparr>sch_length := currentOffset\<rparr>"
| "NewSchema_loop i currentOffset s (c # cs) =
     (let s = (if \<not> IsInlined c
               then s\<lparr>tupleIsInlined := False, uninlinedColumns := uninlinedColumns s @ [i]\<rparr> else s);
          c = SetOffset c currentOffset
      in NewSchema_loop (i + 1) (currentOffset + fixedLength c) (s\<lparr>columns := columns s @ [c]\<rparr>) cs)"

definition NewSchema :: "column list \<Rightarrow> schema" where
  "NewSchema cs = NewSchema_loop 0 0
     \<lparr>sch_length = 0, columns = [], tupleIsInlined = True, uninlinedColumns = []\<rparr> cs"

definition GetColumn :: "schema \<Rightarrow> u32 \<Rightarrow> column option" where
  "GetColumn s i = go_nth (columns s) (unat i)"

definition GetColumnCount :: "schema \<Rightarrow> u32" where
  "GetColumnCount s = of_nat (length (columns s))"

fun GetColIndex_loop :: "u32 \<Rightarrow> column list \<Rightarrow> go_string \<Rightarrow> u32 option" where
  "GetColIndex_loop i [] name = None"
| "GetColIndex_loop i (c # cs) name =
     (if columnName c = name then Some i else GetColIndex_loop (i + 1) cs name)"

definition GetColIndex :: "schema \<Rightarrow> go_string \<Rightarrow> u32 option" where
  "GetColIndex s name = GetColIndex_loop 0 (columns s) name"

text \<open>
  \<^verbatim>\<open>CopySchema\<close> collects \<^verbatim>\<open>&col\<close> of its loop variable.  With the \<^verbatim>\<open>go 1.14\<close> language version
  of \<^verbatim>\<open>go.mod\<close> there is one variable for the whole loop, so every pointer is to the copy of
  the last column; length and the other fields keep their zero values.
\<close>

definition CopySchema :: "schema \<Rightarrow> u32 list \<Rightarrow> schema" where
  "CopySchema from attrs =
     \<lparr>sch_length = 0,
      columns = (if columns from = [] then [] else replicate (length (columns from)) (last (columns from))),
      tupleIsInlined = False, uninlinedColumns = []\<rparr>"

subsection \<open>Tuples\<close>

record tuple =
  t_rid :: "rid option"
  t_size :: u32
  t_data :: bytes

definition NewTuple :: "rid option \<Rightarrow> u32 \<Rightarrow> bytes \<Rightarrow> tuple" where
  "NewTuple r sz data = \<lparr>t_rid = r, t_size = sz, t_data = data\<rparr>"

definition tuple_zero :: tuple where
  "tuple_zero = \<lparr>t_rid = None, t_size = 0, t_data = []\<rparr>"

fun tupleSize_loop :: "sql_value list \<Rightarrow> u32 list \<Rightarrow> u32 \<Rightarrow> u32 option" where
  "tupleSize_loop vs [] sz = Some sz"
| "tupleSize_loop vs (i # is) sz =
     do { v \<leftarrow> go_nth vs (unat i); n \<leftarrow> Value_Size v; tupleSize_loop vs is (sz + n) }"

fun fill_loop :: "sql_value list \<Rightarrow> nat \<Rightarrow> column list \<Rightarrow> u32 \<Rightarrow> bytes \<Rightarrow> bytes option" where
  "fill_loop vs i [] tupleEndOffset d = Some d"
| "fill_loop vs i (c # cs) tupleEndOffset d =
     (if IsInlined c then do {
        v \<leftarrow> go_nth vs i; bs \<leftarrow> Value_Serialize v;
        d \<leftarrow> go_copy (unat (columnOffset c)) bs d;
        fill_loop vs (Suc i) cs tupleEndOffset d }
      else do {
        d \<leftarrow> go_copy (unat (columnOffset c)) (UInt32_Serialize tupleEndOffset) d;
        v \<leftarrow> go_nth vs i; bs \<leftarrow> Value_Serialize v;
        d \<leftarrow> go_copy (unat tupleEndOffset) bs d;
        n \<leftarrow> Value_Size v;
        fill_loop vs (Suc i) cs (tupleEndOffset + n) d })"

definition NewTupleFromSchema :: "sql_value list \<Rightarrow> schema \<Rightarrow> tuple option" where
  "NewTupleFromSchema vs s = do {
     size \<leftarrow> tupleSize_loop vs (uninlinedColumns s) (sch_length s);
     d \<leftarrow> fill_loop vs 0 (columns s) (sch_length s) (replicate (unat size) 0);
     Some \<lparr>t_rid = None, t_size = size, t_data = d\<rparr> }"

fun search_values :: "nat \<Rightarrow> column list \<Rightarrow> nat \<Rightarrow> sql_value \<Rightarrow> sql_value list" where
  "search_values idx [] colIndex keyVal = []"
| "search_values idx (c # cs) colIndex keyVal =
     (case columnType c of
        Integer \<Rightarrow> [if idx = colIndex then keyVal else NewInteger 0]
      | Float \<Rightarrow> [if idx = colIndex then keyVal else NewFloat 0]
      | Varchar \<Rightarrow> [if idx = colIndex then keyVal else NewVarchar []]
      | _ \<Rightarrow> []) @ search_values (Suc idx) cs colIndex keyVal"

definition GenTupleForHashIndexSearch :: "schema \<Rightarrow> u32 \<Rightarrow> sql_value \<Rightarrow> tuple option" where
  "GenTupleForHashIndexSearch s colIndex keyVal =
     NewTupleFromSchema (search_values 0 (columns s) (unat colIndex) keyVal) s"

text \<open>The offset of a column's value: the cell itself, or what the cell points to.\<close>

definition value_offset :: "tuple \<Rightarrow> column \<Rightarrow> u32 option" where
  "value_offset t c =
     (if \<not> IsInlined c
      then do { cell \<leftarrow> slice_range (unat (columnOffset c)) (unat (columnOffset c + fixedLength c)) (t_data t);
                Some (NewUInt32FromBytes cell) }
      else Some (columnOffset c))"

definition GetValue :: "tuple \<Rightarrow> schema \<Rightarrow> u32 \<Rightarrow> sql_value option" where
  "GetValue t s colIndex = do {
     c \<leftarrow> GetColumn s colIndex;
     off \<leftarrow> value_offset t c;
     data \<leftarrow> slice_from (unat off) (t_data t);
     NewValueFromBytes data (columnType c) }"

definition GetValueInBytes :: "tuple \<Rightarrow> schema \<Rightarrow> u32 \<Rightarrow> bytes option" where
  "GetValueInBytes t s colIndex = do {
     c \<leftarrow> GetColumn s colIndex;
     off \<leftarrow> value_offset t c;
     (case columnType c of
        Integer \<Rightarrow> do { data \<leftarrow> slice_from (unat off) (t_data t);
          let (n, buf) = read_le 1 data; let (v, buf) = read_le 4 buf;
          Some (enc_bool (n \<noteq> 0) @ enc32 (of_nat v)) }
      | Float \<Rightarrow> do { data \<leftarrow> slice_from (unat off) (t_data t);
          let (n, buf) = read_le 1 data; let (v, buf) = read_le 4 buf;
          Some (enc_bool (n \<noteq> 0) @ enc32 (of_nat v)) }
      | Boolean \<Rightarrow> do { data \<leftarrow> slice_from (unat off) (t_data t);
          let (n, buf) = read_le 1 data; let (v, buf) = read_le 1 buf;
          Some (enc_bool (n \<noteq> 0) @ enc_bool (v \<noteq> 0)) }
      | Varchar \<Rightarrow> do { data \<leftarrow> slice_from (unat off) (t_data t);
          let (n, buf) = read_le 1 data; let (len, buf) = read_le 2 buf;
          payload \<leftarrow> slice_range (unat (off + 3))
                       (unat (off + (word_of_int (sint (of_nat len :: i16)) + 3))) (t_data t);
          Some (enc_bool (n \<noteq> 0) @ enc16 (of_nat len) @ payload) }
      | _ \<Rightarrow> None) }"

text \<open>
  \<^verbatim>\<open>SerializeTo\<close> and \<^verbatim>\<open>DeserializeFrom\<close>, the form a tuple has in a log record or a temporary
  page: its size, then its data.  \<open>storage\<close> is the slice passed in; when it ends before its
  underlying array does, the rest of the array is \<open>spare\<close>: reading the size stops at the
  slice's length, but re-slicing may go on up to its capacity.
\<close>

definition SerializeTo :: "tuple \<Rightarrow> bytes \<Rightarrow> bytes option" where
  "SerializeTo t storage =
     (let storage = copy_at 0 (enc32 (t_size t)) storage in
      if 4 + unat (t_size t) \<le> length storage
      then Some (copy_at 4 (take (unat (t_size t)) (t_data t)) storage) else None)"

definition DeserializeFrom :: "tuple \<Rightarrow> bytes \<Rightarrow> bytes \<Rightarrow> tuple option" where
  "DeserializeFrom t storage spare =
     (let sz = (if length storage < 4 then t_size t else dec32 storage) in
      do { d \<leftarrow> slice_range 4 (4 + unat sz) (storage @ spare);
           Some (t\<lparr>t_size := sz, t_data := d\<rparr>) })"

definition GetDeepCopy :: "tuple \<Rightarrow> tuple option" where
  "GetDeepCopy t = do {
     r \<leftarrow> t_rid t;
     Some \<lparr>t_rid = Some \<lparr>PageId = PageId r, SlotNum = SlotNum r\<rparr>, t_size = t_size t, t_data = []\<rparr> }"

subsection \<open>Layout of a schema\<close>

text \<open>A column as \<^verbatim>\<open>NewColumn\<close> makes it: its cell is as wide as its type needs.\<close>

definition wf_column :: "column \<Rightarrow> bool" where
  "wf_column c \<longleftrightarrow> columnType c \<in> {Integer, Float, Boolean, Varchar} \<and>
     fixedLength c = (if columnType c = Varchar then 4 else TypeID_Size (columnType c))"

definition cells :: "column list \<Rightarrow> nat" where
  "cells cs = sum_list (map (unat \<circ> fixedLength) cs)"

definition var_size :: "column \<Rightarrow> sql_value \<Rightarrow> nat" where
  "var_size c v = (if IsInlined c then 0 else case v_varchar v of None \<Rightarrow> 0 | Some s \<Rightarrow> length s + 3)"

definition vars :: "column list \<Rightarrow> sql_value list \<Rightarrow> nat" where
  "vars cs vs = sum_list (map2 var_size cs vs)"

fun offsets_from :: "u32 \<Rightarrow> column list \<Rightarrow> column list" where
  "offsets_from off [] = []"
| "offsets_from off (c # cs) = SetOffset c off # offsets_from (off + fixedLength c) cs"

fun uninlined_from :: "u32 \<Rightarrow> column list \<Rightarrow> u32 list" where
  "uninlined_from i [] = []"
| "uninlined_from i (c # cs) = (if IsInlined c then [] else [i]) @ uninlined_from (i + 1) cs"

lemma cells_simps [simp]: "cells [] = 0" "cells (c # cs) = unat (fixedLength c) + cells cs"
  by (simp_all add: cells_def)

lemma vars_simps [simp]: "vars [] vs = 0" "vars (c # cs) (v # vs) = var_size c v + vars cs vs"
  by (simp_all add: vars_def)

lemma length_offsets_from [simp]: "length (offsets_from off cs) = length cs"
  by (induction cs arbitrary: off) auto

lemma offsets_from_type [simp]:
  "i < length cs \<Longrightarrow> columnType (offsets_from off cs ! i) = columnType (cs ! i)"
  by (induction cs arbitrary: off i) (auto simp: SetOffset_def nth_Cons split: nat.splits)

lemma NewSchema_loop_eq:
  "NewSchema_loop i off s cs =
     \<lparr>sch_length = off + of_nat (cells cs),
      columns = columns s @ offsets_from off cs,
      tupleIsInlined = (tupleIsInlined s \<and> list_all IsInlined cs),
      uninlinedColumns = uninlinedColumns s @ uninlined_from i cs\<rparr>"
  by (induction cs arbitrary: i off s) (auto simp: Let_def SetOffset_def algebra_simps)

lemma NewSchema_eq:
  "NewSchema cs = \<lparr>sch_length = of_nat (cells cs), columns = offsets_from 0 cs,
     tupleIsInlined = list_all IsInlined cs, uninlinedColumns = uninlined_from 0 cs\<rparr>"
  by (simp add: NewSchema_def NewSchema_loop_eq)

subsection \<open>Building and reading a tuple\<close>

text \<open>A row that fits the columns: one storable value of the right type per column.\<close>

definition row_ok :: "column list \<Rightarrow> sql_value list \<Rightarrow> bool" where
  "row_ok cs vs \<longleftrightarrow> list_all2 (\<lambda>c v. wf_column c \<and> valueType v = columnType c \<and> storable v) cs vs"

text \<open>Column \<open>c\<close> of the bytes \<open>d\<close> holds the value \<open>v\<close>.\<close>

definition holds_value :: "bytes \<Rightarrow> column \<Rightarrow> sql_value \<Rightarrow> bool" where
  "holds_value d c v \<longleftrightarrow>
     (\<exists>bs off. Value_Serialize v = Some bs \<and> seg (unat off) (length bs) d = bs \<and>
        (if IsInlined c then off = columnOffset c
         else unat (columnOffset c) + 4 \<le> length d \<and> seg (unat (columnOffset c)) 4 d = enc32 off))"

lemma storable_serialize:
  assumes "storable v"
  obtains bs where "Value_Serialize v = Some bs" "Value_Size v = Some (of_nat (length bs))"
    "\<And>rest. NewValueFromBytes (bs @ rest) (valueType v) = Some v" "bs \<noteq> []"
proof -
  from assms obtain bs where *: "Value_Serialize v = Some bs" "Value_Size v = Some (of_nat (length bs))"
    using Value_roundtrip_aux by blast
  moreover have "NewValueFromBytes (bs @ rest) (valueType v) = Some v" for rest
    using Value_roundtrip_aux [OF assms, of rest] * by auto
  moreover have "bs \<noteq> []"
    using assms * unfolding storable_def
    by (auto simp: Value_Serialize_def value_defs enc_bool_def elim!: wf_value_cases)
  ultimately show ?thesis using that by blast
qed

lemma serialized_length:
  assumes "wf_column c" and "valueType v = columnType c" and "storable v"
    and "Value_Serialize v = Some bs"
  shows "IsInlined c \<Longrightarrow> length bs = unat (fixedLength c)"
    and "\<not> IsInlined c \<Longrightarrow> length bs = var_size c v \<and> unat (fixedLength c) = 4"
  using assms
  by (auto simp: wf_column_def storable_def IsInlined_def var_size_def Value_Serialize_def
      TypeID_Size_def value_defs elim!: wf_value_cases)

lemma fill_loop_spec:
  assumes "row_ok cs (drop i vs)" and "unat off + cells cs \<le> unat e"
    and "unat e + vars cs (drop i vs) = length d" and "length d < 2 ^ 32"
  shows "\<exists>d'. fill_loop vs i (offsets_from off cs) e d = Some d' \<and> length d' = length d \<and>
     (\<forall>lo n. lo + n \<le> unat off \<or> (unat off + cells cs \<le> lo \<and> lo + n \<le> unat e) \<longrightarrow>
        seg lo n d' = seg lo n d) \<and>
     (\<forall>k < length cs. holds_value d' (offsets_from off cs ! k) (vs ! (i + k)))"
  using assms
proof (induction cs arbitrary: i off e d)
  case Nil
  then show ?case by simp
next
  case (Cons c cs)
  let ?fl = "unat (fixedLength c)"
  from Cons.prems(1) obtain v vs' where dv: "drop i vs = v # vs'"
    and c: "wf_column c" "valueType v = columnType c" "storable v" and row: "row_ok cs vs'"
    by (auto simp: row_ok_def list_all2_Cons1)
  then have i: "i < length vs" "vs ! i = v" and dS: "drop (Suc i) vs = vs'"
    by (auto simp: nth_via_drop drop_Suc tl_drop dest: arg_cong [of _ _ length] arg_cong [of _ _ tl])
  from c(3) obtain bs where bs: "Value_Serialize v = Some bs" "Value_Size v = Some (of_nat (length bs))"
    by (rule storable_serialize)
  have off': "unat (off + fixedLength c) = unat off + ?fl"
    using Cons.prems(2) unat_less_2p32 [of e] by (intro unat_add_less) simp
  show ?case
  proof (cases "IsInlined c")
    case True
    then have lbs: "length bs = ?fl" and var0: "var_size c v = 0"
      using serialized_length(1) [OF c bs(1)] by (auto simp: var_size_def)
    define d1 where "d1 = copy_at (unat off) bs d"
    have fit: "unat off + length bs \<le> length d"
      using Cons.prems(2,3) lbs by simp
    have l1: "length d1 = length d"
      using fit by (simp add: d1_def)
    obtain d' where d': "fill_loop vs (Suc i) (offsets_from (off + fixedLength c) cs) e d1 = Some d'"
      "length d' = length d1"
      and fr: "\<And>lo n. lo + n \<le> unat off + ?fl \<or> (unat off + ?fl + cells cs \<le> lo \<and> lo + n \<le> unat e)
            \<Longrightarrow> seg lo n d' = seg lo n d1"
      and h: "\<And>k. k < length cs \<Longrightarrow> holds_value d' (offsets_from (off + fixedLength c) cs ! k) (vs ! (Suc i + k))"
      using Cons.IH [of "Suc i" "off + fixedLength c" e d1] Cons.prems row dS dv var0 l1
      by (auto simp: off' add.assoc)
    have "seg (unat off) (length bs) d' = bs"
      using fr [of "unat off" "length bs"] seg_copy_at_same [OF fit] lbs by (simp add: d1_def)
    then have "holds_value d' (SetOffset c off) v"
      using bs True by (auto simp: holds_value_def SetOffset_def IsInlined_def)
    moreover have "seg lo n d' = seg lo n d"
      if "lo + n \<le> unat off \<or> (unat off + cells (c # cs) \<le> lo \<and> lo + n \<le> unat e)" for lo n
      using fr [of lo n] seg_copy_at_other [OF fit, of lo n] that lbs by (auto simp: d1_def)
    ultimately show ?thesis
      using d' l1 h i bs True fit
      by (auto simp: d1_def SetOffset_def IsInlined_def nth_Cons split: nat.splits)
  next
    case False
    then have lbs: "var_size c v = length bs" and fl4: "?fl = 4"
      using serialized_length(2) [OF c bs(1)] by auto
    define d1 where "d1 = copy_at (unat off) (enc32 e) d"
    define d2 where "d2 = copy_at (unat e) bs d1"
    have fit1: "unat off + length (enc32 e) \<le> length d"
      using Cons.prems(2,3) fl4 by simp
    then have l1: "length d1 = length d"
      by (simp add: d1_def)
    have fit2: "unat e + length bs \<le> length d1"
      using Cons.prems(3) dv lbs l1 by simp
    then have l2: "length d2 = length d"
      using l1 by (simp add: d2_def)
    define end' where "end' = e + of_nat (length bs)"
    have e': "unat end' = unat e + length bs"
      using fit2 l1 Cons.prems(4) unat_of_nat32 [of "length bs"]
      unfolding end'_def by (subst unat_add_less) auto
    obtain d' where d': "fill_loop vs (Suc i) (offsets_from (off + fixedLength c) cs) end' d2 = Some d'"
      "length d' = length d2"
      and fr: "\<And>lo n. lo + n \<le> unat off + ?fl \<or> (unat off + ?fl + cells cs \<le> lo \<and> lo + n \<le> unat e + length bs)
            \<Longrightarrow> seg lo n d' = seg lo n d2"
      and h: "\<And>k. k < length cs \<Longrightarrow> holds_value d' (offsets_from (off + fixedLength c) cs ! k) (vs ! (Suc i + k))"
      using Cons.IH [of "Suc i" "off + fixedLength c" end' d2] Cons.prems row dS dv lbs l2
      by (auto simp: off' e' add.assoc)
    have offe: "unat off + 4 \<le> unat e"
      using Cons.prems(2) fl4 by simp
    have "seg (unat e) (length bs) d' = bs"
      using fr [of "unat e" "length bs"] seg_copy_at_same [OF fit2] Cons.prems(2) by (simp add: d2_def)
    moreover have "seg (unat off) 4 d' = enc32 e"
      using fr [of "unat off" 4] seg_copy_at_other [OF fit2, of "unat off" 4] seg_copy_at_same [OF fit1]
        fl4 offe by (simp add: d1_def d2_def)
    ultimately have "holds_value d' (SetOffset c off) v"
      using bs False d'(2) l2 fit1 by (auto simp: holds_value_def SetOffset_def IsInlined_def)
    moreover have "seg lo n d' = seg lo n d"
      if "lo + n \<le> unat off \<or> (unat off + cells (c # cs) \<le> lo \<and> lo + n \<le> unat e)" for lo n
      using fr [of lo n] seg_copy_at_other [OF fit1, of lo n] seg_copy_at_other [OF fit2, of lo n] that fl4 offe
      by (auto simp: d1_def d2_def)
    ultimately show ?thesis
      using d' l1 l2 h i bs False fit1 fit2
      by (auto simp: d1_def d2_def end'_def SetOffset_def IsInlined_def UInt32_Serialize_def nth_Cons
          split: nat.splits)
  qed
qed

lemma cells_ge_length: "list_all wf_column cs \<Longrightarrow> length cs \<le> cells cs"
  by (induction cs) (auto simp: wf_column_def TypeID_Size_def)

lemma tupleSize_loop_spec:
  assumes "row_ok cs (drop i vs)" and "i + length cs < 2 ^ 32"
  shows "tupleSize_loop vs (uninlined_from (of_nat i) cs) sz = Some (sz + of_nat (vars cs (drop i vs)))"
  using assms
proof (induction cs arbitrary: i sz)
  case (Cons c cs)
  from Cons.prems(1) obtain v vs' where dv: "drop i vs = v # vs'"
    and c: "wf_column c" "valueType v = columnType c" "storable v" and row: "row_ok cs vs'"
    by (auto simp: row_ok_def list_all2_Cons1)
  then have i: "i < length vs" "vs ! i = v" and dS: "drop (Suc i) vs = vs'"
    by (auto simp: nth_via_drop drop_Suc tl_drop dest: arg_cong [of _ _ length] arg_cong [of _ _ tl])
  from c(3) obtain bs where bs: "Value_Serialize v = Some bs" "Value_Size v = Some (of_nat (length bs))"
    by (rule storable_serialize)
  have u: "unat (of_nat i :: u32) = i"
    using Cons.prems(2) by (intro unat_of_nat32) simp
  have IH: "tupleSize_loop vs (uninlined_from (of_nat i + 1) cs) sz' = Some (sz' + of_nat (vars cs vs'))" for sz'
    using Cons.IH [of "Suc i" sz'] Cons.prems(2) row dS by (simp add: add.commute)
  show ?case
    using i u dv bs IH serialized_length(2) [OF c bs(1)]
    by (auto simp: var_size_def algebra_simps)
qed simp

lemma holds_value_drop:
  assumes "seg off (length bs) d = bs" and "bs \<noteq> []"
  shows "off \<le> length d \<and> drop off d = bs @ drop (off + length bs) d"
proof
  show "off \<le> length d"
    using assms by (metis drop_all nat_le_linear take_Nil)
  have "drop off d = seg off (length bs) d @ drop (length bs) (drop off d)"
    by (rule append_take_drop_id [symmetric])
  then show "drop off d = bs @ drop (off + length bs) d"
    using assms(1) by (simp add: add.commute)
qed

lemma holds_value_offset:
  assumes "holds_value (t_data t) c v" and "storable v" and "length (t_data t) < 2 ^ 32"
    and "IsInlined c \<or> fixedLength c = 4"
  obtains bs off where "Value_Serialize v = Some bs" "value_offset t c = Some off"
    "unat off \<le> length (t_data t)"
    "drop (unat off) (t_data t) = bs @ drop (unat off + length bs) (t_data t)" "length bs \<le> length (t_data t)"
proof -
  from assms(2) obtain bs where bs: "Value_Serialize v = Some bs" "bs \<noteq> []"
    by (rule storable_serialize)
  with assms(1) obtain off where off: "seg (unat off) (length bs) (t_data t) = bs"
    "if IsInlined c then off = columnOffset c
     else unat (columnOffset c) + 4 \<le> length (t_data t) \<and> seg (unat (columnOffset c)) 4 (t_data t) = enc32 off"
    by (auto simp: holds_value_def)
  have "value_offset t c = Some off"
  proof (cases "IsInlined c")
    case False
    then have fl: "fixedLength c = 4" using assms(4) by simp
    have "unat (columnOffset c + 4) = unat (columnOffset c) + 4"
      using off(2) False assms(3) unat_add_less [of "columnOffset c" 4] by simp
    with False off(2) fl show ?thesis
      by (simp add: value_offset_def NewUInt32FromBytes_def)
  qed (use off in \<open>simp add: value_offset_def\<close>)
  moreover have "length bs \<le> length (t_data t)"
    using off(1) by (metis length_drop length_take min.cobounded1 diff_le_self le_trans)
  ultimately show ?thesis
    using that bs(1) holds_value_drop [OF off(1) bs(2)] by blast
qed

lemma GetValue_holds:
  assumes "holds_value (t_data t) c v" and "storable v" and "length (t_data t) < 2 ^ 32"
    and "IsInlined c \<or> fixedLength c = 4" and "valueType v = columnType c" and "GetColumn s i = Some c"
  shows "GetValue t s i = Some v"
proof -
  obtain bs off where o: "Value_Serialize v = Some bs" "value_offset t c = Some off"
    "unat off \<le> length (t_data t)"
    "drop (unat off) (t_data t) = bs @ drop (unat off + length bs) (t_data t)"
    using assms(1-4) by (rule holds_value_offset)
  have "NewValueFromBytes (bs @ drop (unat off + length bs) (t_data t)) (columnType c) = Some v"
    using Value_roundtrip_aux [OF assms(2)] o(1) assms(5) by auto
  then show ?thesis
    using o assms(6) by (simp add: GetValue_def)
qed

lemma Tuple_roundtrip_aux:
  assumes "row_ok cs vs" and "cells cs + vars cs vs < 2 ^ 32"
  shows "\<exists>t. NewTupleFromSchema vs (NewSchema cs) = Some t \<and> unat (t_size t) = length (t_data t) \<and>
     length (t_data t) = cells cs + vars cs vs \<and>
     (\<forall>i < length cs. GetValue t (NewSchema cs) (of_nat i) = Some (vs ! i))"
proof -
  let ?n = "cells cs + vars cs vs"
  let ?e = "of_nat (cells cs) :: u32"
  have wf: "list_all wf_column cs" and len: "length vs = length cs"
    using assms(1) by (auto simp: row_ok_def list_all2_conv_all_nth list_all_length)
  have e: "unat ?e = cells cs"
    using assms(2) by (intro unat_of_nat32) simp
  have n: "unat (of_nat ?n :: u32) = ?n"
    using assms(2) by (intro unat_of_nat32) simp
  have small: "length cs < 2 ^ 32"
    using cells_ge_length [OF wf] assms(2) by simp
  have sz: "tupleSize_loop vs (uninlined_from 0 cs) ?e = Some (of_nat ?n)"
    using tupleSize_loop_spec [of cs 0 vs ?e] assms(1) small by simp
  obtain d where d: "fill_loop vs 0 (offsets_from 0 cs) ?e (replicate ?n 0) = Some d" "length d = ?n"
    and h: "\<And>k. k < length cs \<Longrightarrow> holds_value d (offsets_from 0 cs ! k) (vs ! k)"
    using fill_loop_spec [of cs 0 vs 0 ?e "replicate ?n 0"] assms e by auto
  define t where "t = \<lparr>t_rid = None, t_size = of_nat ?n, t_data = d\<rparr>"
  have "GetValue t (NewSchema cs) (of_nat i) = Some (vs ! i)" if "i < length cs" for i
  proof (rule GetValue_holds [where c = "offsets_from 0 cs ! i"])
    have "wf_column (cs ! i)" "valueType (vs ! i) = columnType (cs ! i)" "storable (vs ! i)"
      using assms(1) that by (auto simp: row_ok_def list_all2_conv_all_nth)
    moreover have "fixedLength (offsets_from off cs ! i) = fixedLength (cs ! i)" for off
      using that by (induction cs arbitrary: off i) (auto simp: SetOffset_def nth_Cons split: nat.splits)
    ultimately show "IsInlined (offsets_from 0 cs ! i) \<or> fixedLength (offsets_from 0 cs ! i) = 4"
      and "valueType (vs ! i) = columnType (offsets_from 0 cs ! i)" and "storable (vs ! i)"
      using that by (auto simp: wf_column_def IsInlined_def)
  qed (use that h d assms(2) small in \<open>auto simp: t_def NewSchema_eq GetColumn_def unat_of_nat32\<close>)
  moreover have "NewTupleFromSchema vs (NewSchema cs) = Some t"
    using sz d by (simp add: NewTupleFromSchema_def NewSchema_eq t_def n del: of_nat_add)
  ultimately show ?thesis
    using d n by (auto simp: t_def simp del: of_nat_add)
qed

subsection \<open>Properties\<close>

text \<open>C24: A tuple built by \<^verbatim>\<open>NewTupleFromSchema\<close> from a row that fits the schema (values of the column
  types, varchars of at most 32764 bytes, less than \<open>2 ^ 32\<close> bytes in all) never panics, has a
  size field equal to its data's length, and \<^verbatim>\<open>GetValue\<close> returns every column's value.\<close>
theorem Tuple_roundtrip:
  assumes "row_ok cs vs" and "cells cs + vars cs vs < 2 ^ 32"
  shows "\<exists>t. NewTupleFromSchema vs (NewSchema cs) = Some t \<and> unat (t_size t) = length (t_data t) \<and>
     length (t_data t) = cells cs + vars cs vs \<and>
     (\<forall>i < length cs. GetValue t (NewSchema cs) (of_nat i) = Some (vs ! i))"
  using assms by (rule Tuple_roundtrip_aux)

definition example_columns :: "column list" where
  "example_columns = [NewColumn [97] Integer False None, NewColumn [98] Varchar True None]"

theorem Tuple_roundtrip_witness:
  "row_ok example_columns [NewInteger 7, NewVarchar [1, 2, 3]] \<and>
   (\<exists>t. NewTupleFromSchema [NewInteger 7, NewVarchar [1, 2, 3]] (NewSchema example_columns) = Some t \<and>
      unat (t_size t) = length (t_data t) \<and>
      length (t_data t) = cells example_columns + vars example_columns [NewInteger 7, NewVarchar [1, 2, 3]] \<and>
      (\<forall>i < length example_columns. GetValue t (NewSchema example_columns) (of_nat i) =
         Some ([NewInteger 7, NewVarchar [1, 2, 3]] ! i)))"
proof -
  have h: "row_ok example_columns [NewInteger 7, NewVarchar [1, 2, 3]]"
    by (simp add: example_columns_def row_ok_def wf_column_def NewColumn_def TypeID_Size_def
        storable_def wf_value_def value_defs)
  have "cells example_columns + vars example_columns [NewInteger 7, NewVarchar [1, 2, 3]] < 2 ^ 32"
    by (simp add: example_columns_def NewColumn_def TypeID_Size_def var_size_def IsInlined_def value_defs)
  with h show ?thesis using Tuple_roundtrip [OF h] by blast
qed

end
