(* ===== verification/Disk_Manager.thy ===== *)
theory Disk_Manager
  imports Page
begin

text \<open>
  Package \<^verbatim>\<open>storage/disk\<close>: \<^verbatim>\<open>DiskManagerImpl\<close> over two files.  An \<^verbatim>\<open>*os.File\<close> is its bytes and
  its current position; the operating system is ideal (no I/O error other than reading at
  the end of the file), writes past the end fill the gap with zeros, and a seek to a negative
  offset fails and leaves the position alone.  The locale \<open>page_store\<close> is what the buffer pool
  relies on; the disk manager is its instance.
\<close>

subsection \<open>Files\<close>

record os_file =
  f_bytes :: bytes
  f_pos :: nat

definition f_seek :: "int \<Rightarrow> os_file \<Rightarrow> os_file" where
  "f_seek off f = (if off < 0 then f else f\<lparr>f_pos := nat off\<rparr>)"

definition f_write :: "bytes \<Rightarrow> os_file \<Rightarrow> os_file" where
  "f_write bs f =
     (let d = f_bytes f @ replicate (f_pos f - length (f_bytes f)) 0
      in \<lparr>f_bytes = take (f_pos f) d @ bs @ drop (f_pos f + length bs) d, f_pos = f_pos f + length bs\<rparr>)"

text \<open>\<^verbatim>\<open>File.Read\<close> into a buffer of \<open>n\<close> bytes: what was read, or \<open>None\<close> at the end of the file.\<close>

definition f_read :: "nat \<Rightarrow> os_file \<Rightarrow> bytes option \<times> os_file" where
  "f_read n f =
     (let bs = seg (f_pos f) n (f_bytes f)
      in if 0 < n \<and> length (f_bytes f) \<le> f_pos f then (None, f)
         else (Some bs, f\<lparr>f_pos := f_pos f + length bs\<rparr>))"

subsection \<open>The disk manager\<close>

record disk =
  dm_db :: os_file
  dm_fileName :: go_string
  dm_log :: os_file
  dm_fileName_log :: go_string
  nextPageID :: pageID
  numWrites :: "64 word"
  dm_size :: int
  flush_log :: bool
  numFlushes :: "64 word"

text \<open>\<^verbatim>\<open>strings.LastIndex(name, ".")\<close>: \<open>None\<close> stands for \<open>-1\<close>, which panics as a slice bound.\<close>

fun last_dot :: "nat \<Rightarrow> go_string \<Rightarrow> nat option" where
  "last_dot i [] = None"
| "last_dot i (b # bs) =
     (case last_dot (Suc i) bs of Some j \<Rightarrow> Some j | None \<Rightarrow> if b = 46 then Some i else None)"

text \<open>\<open>files\<close> is the file system before the call; a missing file is created empty.\<close>

definition NewDiskManagerImpl :: "(go_string \<Rightarrow> bytes option) \<Rightarrow> go_string \<Rightarrow> disk option" where
  "NewDiskManagerImpl files dbFilename = do {
     let content = (\<lambda>name. case files name of None \<Rightarrow> [] | Some bs \<Rightarrow> bs);
     period_idx \<leftarrow> last_dot 0 dbFilename;
     let logfname = take period_idx dbFilename @ [46, 108, 111, 103];
     let fileSize = length (content dbFilename);
     let nPages = fileSize div PageSize;
     Some \<lparr>dm_db = \<lparr>f_bytes = content dbFilename, f_pos = 0\<rparr>, dm_fileName = dbFilename,
           dm_log = \<lparr>f_bytes = content logfname, f_pos = length (content logfname)\<rparr>,
           dm_fileName_log = logfname,
           nextPageID = (if nPages > 0 then of_nat (nPages + 1) else 0),
           numWrites = 0, dm_size = int fileSize, flush_log = False, numFlushes = 0\<rparr> }"

text \<open>\<^verbatim>\<open>int64(pageId * common.PageSize)\<close>: the product is taken in \<^verbatim>\<open>int32\<close>.\<close>

definition page_offset :: "pageID \<Rightarrow> int" where
  "page_offset pid = sint (pid * of_nat PageSize)"

text \<open>The first component is whether \<^verbatim>\<open>nil\<close> is returned (no error).\<close>

definition WritePage :: "pageID \<Rightarrow> bytes \<Rightarrow> disk \<Rightarrow> bool \<times> disk" where
  "WritePage pid pageData d =
     (let offset = page_offset pid;
          d = d\<lparr>dm_db := f_write pageData (f_seek offset (dm_db d))\<rparr>;
          bytesWritten = length pageData
      in if bytesWritten \<noteq> PageSize then (False, d)
         else (True, if offset \<ge> dm_size d then d\<lparr>dm_size := offset + int bytesWritten\<rparr> else d))"

text \<open>The bytes a successful \<^verbatim>\<open>ReadPage\<close> leaves in the page buffer, \<open>None\<close> for a returned error.\<close>

definition ReadPage :: "pageID \<Rightarrow> disk \<Rightarrow> bytes option \<times> disk" where
  "ReadPage pid d =
     (let offset = page_offset pid in
      if offset > int (length (f_bytes (dm_db d))) then (None, d)
      else case f_read PageSize (f_seek offset (dm_db d)) of
        (None, f) \<Rightarrow> (None, d\<lparr>dm_db := f\<rparr>)
      | (Some bs, f) \<Rightarrow>
          (Some (if length bs < PageSize then replicate PageSize 0 else bs), d\<lparr>dm_db := f\<rparr>))"

definition AllocatePage :: "disk \<Rightarrow> pageID \<times> disk" where
  "AllocatePage d = (nextPageID d, d\<lparr>nextPageID := nextPageID d + 1\<rparr>)"

definition DeallocatePage :: "pageID \<Rightarrow> disk \<Rightarrow> disk" where
  "DeallocatePage pid d = d"

definition GetLogFileSize :: "disk \<Rightarrow> int" where
  "GetLogFileSize d = int (length (f_bytes (dm_log d)))"

definition WriteLog :: "bytes \<Rightarrow> disk \<Rightarrow> disk" where
  "WriteLog log_data d =
     (let d = d\<lparr>flush_log := True, numFlushes := numFlushes d + 1\<rparr>;
          d = d\<lparr>dm_log := f_write log_data (dm_log d)\<rparr>
      in d\<lparr>flush_log := False\<rparr>)"

text \<open>Result: whether a read happened, the buffer afterwards, the number of bytes read.\<close>

definition ReadLog :: "bytes \<Rightarrow> i32 \<Rightarrow> u32 \<Rightarrow> disk \<Rightarrow> bool \<times> bytes \<times> u32 \<times> disk" where
  "ReadLog log_data offset readBytes d =
     (if sint offset \<ge> GetLogFileSize d then (False, log_data, readBytes, d)
      else case f_read (length log_data) (f_seek (sint offset) (dm_log d)) of
        (None, f) \<Rightarrow> (False, log_data, 0, d\<lparr>dm_log := f\<rparr>)
      | (Some bs, f) \<Rightarrow> (True, copy_at 0 bs log_data, of_nat (length bs), d\<lparr>dm_log := f\<rparr>))"

subsection \<open>What a client of page storage relies on\<close>

locale page_store =
  fixes rd :: "'d \<Rightarrow> pageID \<Rightarrow> bytes option"
    and wr :: "pageID \<Rightarrow> bytes \<Rightarrow> 'd \<Rightarrow> 'd"
    and valid :: "pageID \<Rightarrow> bool"
    and invar :: "'d \<Rightarrow> bool"
  assumes invar_wr: "invar d \<Longrightarrow> valid p \<Longrightarrow> length bs = PageSize \<Longrightarrow> invar (wr p bs d)"
    and rd_wr_same: "invar d \<Longrightarrow> valid p \<Longrightarrow> length bs = PageSize \<Longrightarrow> rd (wr p bs d) p = Some bs"
    and rd_wr_other: "invar d \<Longrightarrow> valid p \<Longrightarrow> valid q \<Longrightarrow> p \<noteq> q \<Longrightarrow> length bs = PageSize \<Longrightarrow>
          rd d q \<noteq> None \<Longrightarrow> rd (wr p bs d) q = rd d q"
    and rd_length: "invar d \<Longrightarrow> valid p \<Longrightarrow> rd d p = Some bs \<Longrightarrow> length bs = PageSize"
begin

primrec wr_all :: "(pageID \<times> bytes) list \<Rightarrow> 'd \<Rightarrow> 'd" where
  "wr_all [] d = d"
| "wr_all (x # xs) d = wr_all xs (wr (fst x) (snd x) d)"

lemma wr_all_read:
  assumes "invar d" and "\<forall>(p, bs) \<in> set xs. valid p \<and> length bs = PageSize"
    and "distinct (map fst xs)" and "valid q" and "rd d q \<noteq> None \<or> q \<in> fst ` set xs"
  shows "invar (wr_all xs d) \<and>
         rd (wr_all xs d) q = (case map_of xs q of Some bs \<Rightarrow> Some bs | None \<Rightarrow> rd d q)"
  using assms
proof (induction xs arbitrary: d)
  case (Cons x xs)
  obtain p bs where x: "x = (p, bs)" by (cases x)
  let ?d = "wr p bs d"
  have p: "valid p" "length bs = PageSize" and i: "invar ?d"
    using Cons.prems x by (auto intro: invar_wr)
  have "rd ?d q \<noteq> None \<or> q \<in> fst ` set xs"
    using Cons.prems p rd_wr_same [of d p bs] rd_wr_other [of d p q bs] x by (cases "q = p") auto
  then have IH: "invar (wr_all xs ?d) \<and>
      rd (wr_all xs ?d) q = (case map_of xs q of Some bs \<Rightarrow> Some bs | None \<Rightarrow> rd ?d q)"
    using Cons.IH [OF i] Cons.prems by auto
  show ?case
  proof (cases "q = p")
    case True
    then have "map_of xs q = None"
      using Cons.prems(3) x by (simp add: map_of_eq_None_iff)
    with True IH x p Cons.prems(1) show ?thesis by (simp add: rd_wr_same)
  next
    case False
    then have "map_of xs q = None \<Longrightarrow> rd ?d q = rd d q"
      using Cons.prems p x by (intro rd_wr_other) (auto simp: map_of_eq_None_iff)
    with False IH x show ?thesis by (auto split: option.splits)
  qed
qed simp

end

subsection \<open>The disk manager is a page store\<close>

text \<open>Page numbers whose byte offset does not overflow an \<^verbatim>\<open>int32\<close>.\<close>

definition disk_page :: "pageID \<Rightarrow> bool" where
  "disk_page pid \<longleftrightarrow> unat pid < 524288"

definition disk_inv :: "disk \<Rightarrow> bool" where
  "disk_inv d \<longleftrightarrow> PageSize dvd length (f_bytes (dm_db d))"

lemma page_offset_uint: "disk_page pid \<Longrightarrow> page_offset pid = 4096 * uint pid"
proof -
  assume "disk_page pid"
  then have "int (unat pid) < int 524288"
    unfolding disk_page_def by (simp only: of_nat_less_iff)
  moreover have "uint pid = int (unat pid)"
    by simp
  ultimately have b: "0 \<le> uint pid" "uint pid < 524288"
    by linarith+
  have "pid * of_nat PageSize = (word_of_int (uint pid * 4096) :: i32)"
    by simp
  also have "sint \<dots> = signed_take_bit 31 (uint pid * 4096)"
    by (subst signed_of_int) simp
  also have "\<dots> = uint pid * 4096"
  proof (rule signed_take_bit_int_eq_self)
    show "- (2 ^ 31) \<le> uint pid * 4096"
      by (rule order_trans [of _ 0]) simp_all
  qed (use b in simp)
  finally show ?thesis by (simp add: page_offset_def)
qed

lemma page_offset_ok:
  assumes "disk_page pid"
  shows "\<not> page_offset pid < 0" "nat (page_offset pid) = 4096 * unat pid"
    "int n < page_offset pid \<longleftrightarrow> n < 4096 * unat pid"
proof -
  have e: "page_offset pid = int (4096 * unat pid)"
    using page_offset_uint [OF assms] by simp
  show "\<not> page_offset pid < 0" "nat (page_offset pid) = 4096 * unat pid"
    unfolding e by (simp_all only: nat_int of_nat_less_0_iff not_False_eq_True)
  show "int n < page_offset pid \<longleftrightarrow> n < 4096 * unat pid"
    unfolding e by (simp only: of_nat_less_iff)
qed

lemma f_write_seg_same:
  "seg (f_pos f) (length bs) (f_bytes (f_write bs f)) = bs"
  by (simp add: f_write_def Let_def)

lemma length_f_write:
  "length (f_bytes (f_write bs f)) = max (length (f_bytes f)) (f_pos f + length bs)"
  by (simp add: f_write_def Let_def)

lemma f_write_seg_other:
  assumes "lo + n \<le> length (f_bytes f)" and "lo + n \<le> f_pos f \<or> f_pos f + length bs \<le> lo"
  shows "seg lo n (f_bytes (f_write bs f)) = seg lo n (f_bytes f)"
proof -
  let ?d = "f_bytes f @ replicate (f_pos f - length (f_bytes f)) 0 @ replicate (length bs) 0"
  have "f_bytes (f_write bs f) = take (max (length (f_bytes f)) (f_pos f + length bs)) (copy_at (f_pos f) bs ?d)"
    by (auto simp: f_write_def Let_def copy_at_def max_def min_def)
  moreover have "seg lo n (copy_at (f_pos f) bs ?d) = seg lo n ?d"
    using assms by (intro seg_copy_at_other) auto
  ultimately show ?thesis
    using assms(1) by (simp add: drop_take min_def)
qed

lemma dvd_page_before: "PageSize dvd n \<Longrightarrow> 4096 * k < n \<Longrightarrow> 4096 * k + 4096 \<le> n"
  by (auto simp: dvd_def)

lemma ReadPage_eq:
  assumes "disk_page pid" and "disk_inv d"
  shows "fst (ReadPage pid d) =
     (if 4096 * unat pid < length (f_bytes (dm_db d))
      then Some (seg (4096 * unat pid) 4096 (f_bytes (dm_db d))) else None)"
  using assms dvd_page_before [of "length (f_bytes (dm_db d))" "unat pid"]
  by (auto simp: ReadPage_def page_offset_ok f_read_def f_seek_def disk_inv_def Let_def)

lemma WritePage_db:
  "disk_page pid \<Longrightarrow> dm_db (snd (WritePage pid bs d)) =
     f_write bs ((dm_db d)\<lparr>f_pos := 4096 * unat pid\<rparr>)"
  by (auto simp: WritePage_def page_offset_ok f_seek_def Let_def)

lemma disk_inv_WritePage:
  assumes "disk_inv d" and "disk_page p" and "length bs = PageSize"
  shows "disk_inv (snd (WritePage p bs d))"
proof -
  have "length (f_bytes (dm_db (snd (WritePage p bs d)))) =
        max (length (f_bytes (dm_db d))) (4096 * unat p + 4096)"
    using assms by (simp add: WritePage_db length_f_write)
  then show ?thesis
    using assms(1) by (auto simp: disk_inv_def max_def)
qed

interpretation dm: page_store "\<lambda>d p. fst (ReadPage p d)" "\<lambda>p bs d. snd (WritePage p bs d)"
  disk_page disk_inv
proof
  fix d p bs
  assume *: "disk_inv d" "disk_page p" "length (bs :: bytes) = PageSize"
  show inv: "disk_inv (snd (WritePage p bs d))"
    using * by (rule disk_inv_WritePage)
  show "fst (ReadPage p (snd (WritePage p bs d))) = Some bs"
    using * f_write_seg_same [of bs "(dm_db d)\<lparr>f_pos := 4096 * unat p\<rparr>"]
    by (auto simp: ReadPage_eq inv WritePage_db length_f_write)
next
  fix d p q bs
  assume *: "disk_inv d" "disk_page p" "disk_page q" "p \<noteq> q" "length (bs :: bytes) = PageSize"
    "fst (ReadPage q d) \<noteq> None"
  from * have "unat p \<noteq> unat q" by (simp add: word_unat_eq_iff)
  then have "4096 * unat q + 4096 \<le> 4096 * unat p \<or> 4096 * unat p + 4096 \<le> 4096 * unat q"
    by linarith
  moreover have "4096 * unat q + 4096 \<le> length (f_bytes (dm_db d))"
    using * dvd_page_before by (simp add: ReadPage_eq disk_inv_def split: if_splits)
  ultimately show "fst (ReadPage q (snd (WritePage p bs d))) = fst (ReadPage q d)"
    using * f_write_seg_other [of "4096 * unat q" 4096 "(dm_db d)\<lparr>f_pos := 4096 * unat p\<rparr>" bs]
    by (auto simp: ReadPage_eq disk_inv_WritePage WritePage_db length_f_write)
next
  fix d p bs
  assume *: "disk_inv d" "disk_page p" "fst (ReadPage p d) = Some bs"
  then show "length bs = PageSize"
    using dvd_page_before [of "length (f_bytes (dm_db d))" "unat p"]
    by (auto simp: ReadPage_eq disk_inv_def split: if_splits)
qed

text \<open>The disk states that the theorems below start from.\<close>

definition empty_disk :: disk where
  "empty_disk = \<lparr>dm_db = \<lparr>f_bytes = [], f_pos = 0\<rparr>, dm_fileName = [], dm_log = \<lparr>f_bytes = [], f_pos = 0\<rparr>,
     dm_fileName_log = [], nextPageID = 0, numWrites = 0, dm_size = 0, flush_log = False, numFlushes = 0\<rparr>"

text \<open>C26: a page that was written is read back as it was written, and writing it leaves every
  other page of the file as it was (for page numbers below 2^19, whose byte offset fits an \<^verbatim>\<open>int32\<close>).\<close>

theorem ReadPage_WritePage:
  assumes "disk_inv d" and "disk_page p" and "disk_page q" and "length bs = PageSize"
    and "q = p \<or> fst (ReadPage q d) \<noteq> None"
  shows "fst (WritePage p bs d) \<and> disk_inv (snd (WritePage p bs d)) \<and>
         fst (ReadPage q (snd (WritePage p bs d))) = (if q = p then Some bs else fst (ReadPage q d))"
  using assms dm.rd_wr_same [of d p bs] dm.rd_wr_other [of d p q bs] disk_inv_WritePage [of d p bs]
  by (auto simp: WritePage_def Let_def)

theorem ReadPage_WritePage_witness:
  "fst (ReadPage 3 (snd (WritePage 3 (replicate 4096 7) empty_disk))) = Some (replicate 4096 7)"
  using ReadPage_WritePage [of empty_disk 3 3 "replicate 4096 7"]
  by (simp add: disk_inv_def disk_page_def empty_disk_def)

text \<open>The byte offset is computed in 32 bits, so page numbers 2^20 apart share their bytes: writing
  page \<open>p + 2^20\<close> is writing page \<open>p\<close>, and reading it is reading page \<open>p\<close>.\<close>

theorem page_number_wraps:
  "WritePage (p + 1048576) bs d = WritePage p bs d \<and> ReadPage (p + 1048576) d = ReadPage p d"
proof -
  have zero: "(4294967296 :: i32) = 0"
    by simp
  have "(p + 1048576) * of_nat PageSize = p * of_nat PageSize + 4294967296"
    by (simp add: distrib_right)
  then have "page_offset (p + 1048576) = page_offset p"
    by (simp only: page_offset_def zero add_0_right)
  then show ?thesis
    by (simp add: WritePage_def ReadPage_def)
qed

subsection \<open>The log file\<close>

definition log_at_end :: "disk \<Rightarrow> bool" where
  "log_at_end d \<longleftrightarrow> f_pos (dm_log d) = length (f_bytes (dm_log d))"

lemma WriteLog_at_end:
  "log_at_end d \<Longrightarrow> f_bytes (dm_log (WriteLog bs d)) = f_bytes (dm_log d) @ bs \<and> log_at_end (WriteLog bs d)"
  by (simp add: log_at_end_def WriteLog_def f_write_def Let_def)

lemma NewDiskManagerImpl_at_end: "NewDiskManagerImpl files name = Some d \<Longrightarrow> log_at_end d"
  by (auto simp: NewDiskManagerImpl_def log_at_end_def bind_Some_iff Let_def)

lemma WriteLog_keeps [simp]: "dm_db (WriteLog bs d) = dm_db d" "nextPageID (WriteLog bs d) = nextPageID d"
  by (simp_all add: WriteLog_def Let_def)

lemma WritePage_keeps [simp]:
  "dm_log (snd (WritePage p bs d)) = dm_log d" "nextPageID (snd (WritePage p bs d)) = nextPageID d"
  by (simp_all add: WritePage_def Let_def)

lemma ReadPage_keeps [simp]:
  "dm_log (snd (ReadPage p d)) = dm_log d" "nextPageID (snd (ReadPage p d)) = nextPageID d"
  "f_bytes (dm_db (snd (ReadPage p d))) = f_bytes (dm_db d)"
  by (simp_all add: ReadPage_def Let_def f_read_def f_seek_def)

text \<open>A log read leaves the file position behind the bytes it read, so the next log write overwrites
  what follows them instead of extending the log.\<close>

theorem WriteLog_after_ReadLog:
  assumes "0 \<le> sint offset" and "sint offset < GetLogFileSize d"
    and "ReadLog buf offset n d = (ok, buf', n', d')"
  defines "log \<equiv> f_bytes (dm_log d)"
  defines "k \<equiv> min (nat (sint offset) + length buf) (length log)"
  shows "ok \<and> f_bytes (dm_log (WriteLog bs d')) = take k log @ bs @ drop (k + length bs) log"
proof -
  let ?o = "nat (sint offset)"
  have o: "?o < length log" and "\<not> sint offset < 0"
    using assms(1,2) by (auto simp: GetLogFileSize_def log_def)
  then have "ok \<and> dm_log d' = \<lparr>f_bytes = log, f_pos = k\<rparr>"
    using assms(2,3) by (auto simp: ReadLog_def f_read_def f_seek_def log_def k_def)
  then show ?thesis
    using o by (simp add: WriteLog_def f_write_def Let_def k_def)
qed

definition log_of :: "bytes \<Rightarrow> disk" where
  "log_of bs = empty_disk\<lparr>dm_log := \<lparr>f_bytes = bs, f_pos = length bs\<rparr>\<rparr>"

theorem WriteLog_after_ReadLog_witness:
  "f_bytes (dm_log (WriteLog [9, 9] (snd (snd (snd (ReadLog [0, 0] 0 0 (log_of [1, 2, 3, 4, 5]))))))) = [1, 2, 9, 9, 5]"
proof -
  obtain ok buf n d where r: "ReadLog [0, 0] 0 0 (log_of [1, 2, 3, 4, 5]) = (ok, buf, n, d)"
    by (metis prod_cases4)
  show ?thesis
    using WriteLog_after_ReadLog [OF _ _ r, of "[9, 9]"] r
    by (simp add: GetLogFileSize_def log_of_def)
qed

end
