(* ===== verification/Log_Manager.thy ===== *)
theory Log_Manager
  imports Tuple_Schema Disk_Manager
begin

text \<open>
  Package \<^verbatim>\<open>recovery\<close>: log records and the log manager with its two swapped buffers.  The
  operations thread the log manager and the disk it writes to.  The abstraction is the \<open>log_stream\<close>:
  the log file followed by the filled part of the log buffer; appending a record extends it by
  the record's bytes, whether or not the buffer had to be flushed on the way.
\<close>

subsection \<open>Log records\<close>

text \<open>\<^verbatim>\<open>LogRecordType\<close> is an \<^verbatim>\<open>int32\<close> with named constants; a log file may hold any other number.\<close>

datatype LogRecordType = INVALID | INSERT | MARKDELETE | APPLYDELETE | ROLLBACKDELETE | UPDATE
  | BEGIN | COMMIT | ABORT | NEWPAGE | OtherType i32

fun type_code :: "LogRecordType \<Rightarrow> i32" where
  "type_code INVALID = 0"
| "type_code INSERT = 1"
| "type_code MARKDELETE = 2"
| "type_code APPLYDELETE = 3"
| "type_code ROLLBACKDELETE = 4"
| "type_code UPDATE = 5"
| "type_code BEGIN = 6"
| "type_code COMMIT = 7"
| "type_code ABORT = 8"
| "type_code NEWPAGE = 9"
| "type_code (OtherType c) = c"

definition code_type :: "i32 \<Rightarrow> LogRecordType" where
  "code_type c =
     (if unat c < 10
      then [INVALID, INSERT, MARKDELETE, APPLYDELETE, ROLLBACKDELETE, UPDATE, BEGIN, COMMIT, ABORT, NEWPAGE] ! unat c
      else OtherType c)"

lemma code_type_code: "(\<forall>c. t \<noteq> OtherType c) \<Longrightarrow> code_type (type_code t) = t"
  by (cases t) (simp_all add: code_type_def)

abbreviation HEADER_SIZE :: u32 where "HEADER_SIZE \<equiv> 20"
abbreviation LogBufferSize :: u32 where "LogBufferSize \<equiv> 45056"
abbreviation InvalidLSN :: LSN where "InvalidLSN \<equiv> - 1"

record LogRecord =
  Size :: u32
  Lsn :: LSN
  Txn_id :: txnID
  Prev_lsn :: LSN
  Log_record_type :: LogRecordType
  Delete_rid :: rid
  Delete_tuple :: tuple
  Insert_rid :: rid
  Insert_tuple :: tuple
  Update_rid :: rid
  Old_tuple :: tuple
  New_tuple :: tuple
  Prev_page_id :: pageID

definition LogRecord_zero :: LogRecord where
  "LogRecord_zero = \<lparr>Size = 0, Lsn = 0, Txn_id = 0, Prev_lsn = 0, Log_record_type = INVALID,
     Delete_rid = RID_zero, Delete_tuple = tuple_zero, Insert_rid = RID_zero, Insert_tuple = tuple_zero,
     Update_rid = RID_zero, Old_tuple = tuple_zero, New_tuple = tuple_zero, Prev_page_id = 0\<rparr>"

definition NewLogRecordTxn :: "txnID \<Rightarrow> LSN \<Rightarrow> LogRecordType \<Rightarrow> LogRecord" where
  "NewLogRecordTxn txn_id prev_lsn ty = LogRecord_zero
     \<lparr>Size := HEADER_SIZE, Txn_id := txn_id, Prev_lsn := prev_lsn, Log_record_type := ty\<rparr>"

definition NewLogRecordInsertDelete :: "txnID \<Rightarrow> LSN \<Rightarrow> LogRecordType \<Rightarrow> rid \<Rightarrow> tuple \<Rightarrow> LogRecord" where
  "NewLogRecordInsertDelete txn_id prev_lsn ty r t =
     (let ret = LogRecord_zero\<lparr>Txn_id := txn_id, Prev_lsn := prev_lsn, Log_record_type := ty\<rparr>;
          ret = (if ty = INSERT then ret\<lparr>Insert_rid := r, Insert_tuple := t\<rparr>
                 else ret\<lparr>Delete_rid := r, Delete_tuple := t\<rparr>)
      in ret\<lparr>Size := HEADER_SIZE + 8 + 4 + t_size t\<rparr>)"

definition NewLogRecordUpdate :: "txnID \<Rightarrow> LSN \<Rightarrow> LogRecordType \<Rightarrow> rid \<Rightarrow> tuple \<Rightarrow> tuple \<Rightarrow> LogRecord" where
  "NewLogRecordUpdate txn_id prev_lsn ty r old_tuple new_tuple = LogRecord_zero
     \<lparr>Txn_id := txn_id, Prev_lsn := prev_lsn, Log_record_type := ty, Update_rid := r,
      Old_tuple := old_tuple, New_tuple := new_tuple,
      Size := HEADER_SIZE + 8 + t_size old_tuple + t_size new_tuple + 2 * 4\<rparr>"

definition NewLogRecordNewPage :: "txnID \<Rightarrow> LSN \<Rightarrow> LogRecordType \<Rightarrow> pageID \<Rightarrow> LogRecord" where
  "NewLogRecordNewPage txn_id prev_lsn ty page_id = LogRecord_zero
     \<lparr>Txn_id := txn_id, Prev_lsn := prev_lsn, Log_record_type := ty, Prev_page_id := page_id,
      Size := HEADER_SIZE + 4\<rparr>"

definition GetLogHeaderData :: "LogRecord \<Rightarrow> bytes" where
  "GetLogHeaderData lr = enc32 (Size lr) @ enc32 (Lsn lr) @ enc32 (Txn_id lr) @ enc32 (Prev_lsn lr) @
     enc32 (type_code (Log_record_type lr))"

subsection \<open>The log manager\<close>

record LogManager =
  lm_offset :: u32
  log_buffer_lsn :: LSN
  next_lsn :: LSN
  persistent_lsn :: LSN
  log_buffer :: bytes
  flush_buffer :: bytes

definition NewLogManager :: LogManager where
  "NewLogManager = \<lparr>lm_offset = 0, log_buffer_lsn = 0, next_lsn = 0, persistent_lsn = InvalidLSN,
     log_buffer = replicate 45056 0, flush_buffer = replicate 45056 0\<rparr>"

definition Flush :: "LogManager \<Rightarrow> disk \<Rightarrow> (LogManager \<times> disk) option" where
  "Flush lm d = do {
     let lsn = log_buffer_lsn lm;
     let off = lm_offset lm;
     let lm = lm\<lparr>lm_offset := 0\<rparr>;
     let tmp_p = flush_buffer lm;
     let lm = lm\<lparr>flush_buffer := log_buffer lm\<rparr>;
     let lm = lm\<lparr>log_buffer := tmp_p\<rparr>;
     data \<leftarrow> slice_range 0 (unat off) (flush_buffer lm);
     Some (lm\<lparr>persistent_lsn := lsn\<rparr>, WriteLog data d) }"

text \<open>The part of \<^verbatim>\<open>AppendLogRecord\<close> after the header: \<open>ser_tuple pos t buf\<close> is
  \<^verbatim>\<open>t.SerializeTo(buf[pos:])\<close>.\<close>

definition ser_tuple :: "u32 \<Rightarrow> tuple \<Rightarrow> bytes \<Rightarrow> bytes option" where
  "ser_tuple pos t buf = do {
     storage \<leftarrow> slice_from (unat pos) buf;
     storage \<leftarrow> SerializeTo t storage;
     Some (take (unat pos) buf @ storage) }"

definition append_body :: "LogRecord \<Rightarrow> u32 \<Rightarrow> bytes \<Rightarrow> bytes option" where
  "append_body lr pos buf =
     (if Log_record_type lr = INSERT then do {
        buf \<leftarrow> go_copy (unat pos) (RID_bytes (Insert_rid lr)) buf;
        ser_tuple (pos + 8) (Insert_tuple lr) buf }
      else if Log_record_type lr = APPLYDELETE \<or> Log_record_type lr = MARKDELETE \<or>
              Log_record_type lr = ROLLBACKDELETE then do {
        buf \<leftarrow> go_copy (unat pos) (RID_bytes (Delete_rid lr)) buf;
        ser_tuple (pos + 8) (Delete_tuple lr) buf }
      else if Log_record_type lr = UPDATE then do {
        buf \<leftarrow> go_copy (unat pos) (RID_bytes (Update_rid lr)) buf;
        let pos = pos + 8;
        buf \<leftarrow> ser_tuple pos (Old_tuple lr) buf;
        let pos = pos + (t_size (Old_tuple lr) + 4);
        ser_tuple pos (New_tuple lr) buf }
      else if Log_record_type lr = NEWPAGE then
        go_copy (unat pos) (enc32 (Prev_page_id lr)) buf
      else Some buf)"

text \<open>Result: the record with its LSN (which is what the call returns), the log manager, the disk.\<close>

definition AppendLogRecord :: "LogRecord \<Rightarrow> LogManager \<Rightarrow> disk \<Rightarrow> (LogRecord \<times> LogManager \<times> disk) option" where
  "AppendLogRecord lr lm d = do {
     (lm, d) \<leftarrow> (if LogBufferSize - lm_offset lm < HEADER_SIZE then Flush lm d else Some (lm, d));
     let lr = lr\<lparr>Lsn := next_lsn lm\<rparr>;
     let lm = lm\<lparr>next_lsn := next_lsn lm + 1\<rparr>;
     buf \<leftarrow> go_copy (unat (lm_offset lm)) (GetLogHeaderData lr) (log_buffer lm);
     let lm = lm\<lparr>log_buffer := buf\<rparr>;
     (lm, d) \<leftarrow> (if LogBufferSize - lm_offset lm < Size lr then do {
                   (lm, d) \<leftarrow> Flush lm d;
                   buf \<leftarrow> go_copy (unat (lm_offset lm)) (GetLogHeaderData lr) (log_buffer lm);
                   Some (lm\<lparr>log_buffer := buf\<rparr>, d) }
                 else Some (lm, d));
     let lm = lm\<lparr>log_buffer_lsn := Lsn lr\<rparr>;
     let pos = lm_offset lm + HEADER_SIZE;
     let lm = lm\<lparr>lm_offset := lm_offset lm + Size lr\<rparr>;
     buf \<leftarrow> append_body lr pos (log_buffer lm);
     Some (lr, lm\<lparr>log_buffer := buf\<rparr>, d) }"

subsection \<open>The byte format of a record\<close>

definition tuple_bytes :: "tuple \<Rightarrow> bytes" where
  "tuple_bytes t = enc32 (t_size t) @ t_data t"

definition wf_tuple :: "tuple \<Rightarrow> bool" where
  "wf_tuple t \<longleftrightarrow> length (t_data t) = unat (t_size t)"

definition record_body :: "LogRecord \<Rightarrow> bytes" where
  "record_body lr =
     (if Log_record_type lr = INSERT then RID_bytes (Insert_rid lr) @ tuple_bytes (Insert_tuple lr)
      else if Log_record_type lr \<in> {APPLYDELETE, MARKDELETE, ROLLBACKDELETE}
        then RID_bytes (Delete_rid lr) @ tuple_bytes (Delete_tuple lr)
      else if Log_record_type lr = UPDATE
        then RID_bytes (Update_rid lr) @ tuple_bytes (Old_tuple lr) @ tuple_bytes (New_tuple lr)
      else if Log_record_type lr = NEWPAGE then enc32 (Prev_page_id lr)
      else [])"

definition record_bytes :: "LogRecord \<Rightarrow> bytes" where
  "record_bytes lr = GetLogHeaderData lr @ record_body lr"

text \<open>A record as the constructors make it: its size is that of its encoding and fits the buffer.\<close>

definition wf_record :: "LogRecord \<Rightarrow> bool" where
  "wf_record lr \<longleftrightarrow> code_type (type_code (Log_record_type lr)) = Log_record_type lr \<and> unat (Size lr) = length (record_bytes lr) \<and> unat (Size lr) \<le> 45056 \<and>
     wf_tuple (Insert_tuple lr) \<and> wf_tuple (Delete_tuple lr) \<and> wf_tuple (Old_tuple lr) \<and> wf_tuple (New_tuple lr)"

lemma length_header [simp, layout]: "length (GetLogHeaderData lr) = 20"
  by (simp add: GetLogHeaderData_def)

lemma length_tuple_bytes: "wf_tuple t \<Longrightarrow> length (tuple_bytes t) = 4 + unat (t_size t)"
  by (simp add: tuple_bytes_def wf_tuple_def)

lemma SerializeTo_eq:
  assumes "wf_tuple t" and "length (tuple_bytes t) \<le> length storage"
  shows "SerializeTo t storage = Some (copy_at 0 (tuple_bytes t) storage)"
  using assms copy_at_append [of 0 "enc32 (t_size t)" "t_data t" storage]
  by (simp add: SerializeTo_def Let_def tuple_bytes_def wf_tuple_def)

lemma ser_tuple_eq:
  assumes "wf_tuple t" and "unat pos + length (tuple_bytes t) \<le> length buf"
  shows "ser_tuple pos t buf = Some (copy_at (unat pos) (tuple_bytes t) buf)"
  using assms by (simp add: ser_tuple_def SerializeTo_eq copy_at_tail)

lemma append_body_eq:
  assumes "wf_tuple (Insert_tuple lr)" "wf_tuple (Delete_tuple lr)" "wf_tuple (Old_tuple lr)" "wf_tuple (New_tuple lr)"
    and "unat pos + length (record_body lr) \<le> length buf" and "length buf < 4294967296"
  shows "append_body lr pos buf = Some (copy_at (unat pos) (record_body lr) buf)"
proof -
  have p8: "unat pos + 8 < 4294967296 \<Longrightarrow> unat (pos + 8) = unat pos + 8"
    using unat_add_less [of pos 8] by simp
  have po: "unat pos + 8 + (unat (t_size (Old_tuple lr)) + 4) < 4294967296 \<Longrightarrow>
      unat (pos + 8 + (t_size (Old_tuple lr) + 4)) = unat pos + 8 + (unat (t_size (Old_tuple lr)) + 4)"
    using p8 unat_add_less [of "t_size (Old_tuple lr)" 4] unat_add_less [of "pos + 8" "t_size (Old_tuple lr) + 4"]
    by simp
  have two: "copy_at (unat pos + 8) bs (copy_at (unat pos) (RID_bytes r) buf) = copy_at (unat pos) (RID_bytes r @ bs) buf"
    if "unat pos + 8 + length bs \<le> length buf" for r bs
    using copy_at_append [of "unat pos" "RID_bytes r" bs buf] that by simp
  have three: "copy_at (unat pos + 8 + length as) bs (copy_at (unat pos) (RID_bytes r @ as) buf) =
      copy_at (unat pos) (RID_bytes r @ as @ bs) buf"
    if "unat pos + 8 + length as + length bs \<le> length buf" for r as bs
    using copy_at_append [of "unat pos" "RID_bytes r @ as" bs buf] that by (simp add: add.assoc)
  show ?thesis
    using assms p8 po three [of "tuple_bytes (Old_tuple lr)" "tuple_bytes (New_tuple lr)"]
    by (auto simp: append_body_def record_body_def ser_tuple_eq two length_tuple_bytes add.commute add.left_commute)
qed

subsection \<open>The log stream\<close>

definition log_inv :: "LogManager \<Rightarrow> disk \<Rightarrow> bool" where
  "log_inv lm d \<longleftrightarrow> length (log_buffer lm) = 45056 \<and> length (flush_buffer lm) = 45056 \<and>
     unat (lm_offset lm) \<le> 45056 \<and> log_at_end d"

definition log_stream :: "LogManager \<Rightarrow> disk \<Rightarrow> bytes" where
  "log_stream lm d = f_bytes (dm_log d) @ take (unat (lm_offset lm)) (log_buffer lm)"

lemma log_inv_NewLogManager: "log_at_end d \<Longrightarrow> log_inv NewLogManager d"
  by (simp add: log_inv_def NewLogManager_def)

lemma Flush_spec:
  assumes "log_inv lm d"
  shows "\<exists>d'. Flush lm d = Some (lm\<lparr>lm_offset := 0, flush_buffer := log_buffer lm, log_buffer := flush_buffer lm,
             persistent_lsn := log_buffer_lsn lm\<rparr>, d') \<and> log_at_end d' \<and>
           f_bytes (dm_log d') = log_stream lm d \<and> dm_db d' = dm_db d \<and> nextPageID d' = nextPageID d"
  using assms by (simp add: Flush_def log_inv_def log_stream_def WriteLog_at_end)

lemma append_finish:
  assumes "wf_record lr" and "unat off + unat (Size lr) \<le> 45056" and "length buf = 45056"
  shows "append_body lr (off + HEADER_SIZE) (copy_at (unat off) (GetLogHeaderData lr) buf) =
         Some (copy_at (unat off) (record_bytes lr) buf)"
proof -
  have len: "unat (Size lr) = 20 + length (record_body lr)"
    using assms(1) by (simp add: wf_record_def record_bytes_def)
  then have "unat (off + HEADER_SIZE) = unat off + 20"
    using assms(2) unat_add_less [of off 20] by simp
  then show ?thesis
    using assms len copy_at_append [of "unat off" "GetLogHeaderData lr" "record_body lr" buf]
    by (subst append_body_eq) (auto simp: wf_record_def record_bytes_def)
qed

lemma wf_record_Lsn [simp]: "wf_record (lr\<lparr>Lsn := l\<rparr>) \<longleftrightarrow> wf_record lr"
  by (simp add: wf_record_def record_bytes_def record_body_def)

lemma room_less: "unat off \<le> 45056 \<Longrightarrow> LogBufferSize - off < n \<longleftrightarrow> 45056 < unat off + unat n" for off n :: u32
  using unat_sub_le [of off 45056] by (auto simp: word_less_nat_alt)

lemma unat_new_offset: "unat off + unat n \<le> 45056 \<Longrightarrow> unat (off + n) = unat off + unat n" for off n :: u32
  using unat_add_less [of off n] by simp

lemma AppendLogRecord_spec:
  assumes inv: "log_inv lm d" and wf: "wf_record lr"
  defines "lr' \<equiv> lr\<lparr>Lsn := next_lsn lm\<rparr>"
  shows "\<exists>lm' d'. AppendLogRecord lr lm d = Some (lr', lm', d') \<and> log_inv lm' d' \<and>
           log_stream lm' d' = log_stream lm d @ record_bytes lr' \<and>
           next_lsn lm' = next_lsn lm + 1 \<and> log_buffer_lsn lm' = next_lsn lm \<and>
           dm_db d' = dm_db d \<and> nextPageID d' = nextPageID d"
proof -
  let ?off = "unat (lm_offset lm)"
  have sz: "unat (Size lr) \<le> 45056" "length (record_bytes lr') = unat (Size lr)" "20 \<le> unat (Size lr)"
    using wf by (auto simp: wf_record_def lr'_def record_bytes_def record_body_def)
  have fin: "append_body lr' (off + HEADER_SIZE) (copy_at (unat off) (GetLogHeaderData lr') buf) =
      Some (copy_at (unat off) (record_bytes lr') buf)"
    if "unat off + unat (Size lr) \<le> 45056" "length buf = 45056" for off buf
    using append_finish [of lr' off buf] that wf by (simp add: lr'_def)
  have len: "length (log_buffer lm) = 45056" "length (flush_buffer lm) = 45056" and off: "?off \<le> 45056"
    and ae: "log_at_end d"
    using inv by (auto simp: log_inv_def)
  let ?lm2 = "lm\<lparr>next_lsn := next_lsn lm + 1, log_buffer := copy_at ?off (GetLogHeaderData lr') (log_buffer lm)\<rparr>"
  have inv2: "log_inv ?lm2 d" and st2: "log_stream ?lm2 d = log_stream lm d"
    using inv by (auto simp: log_inv_def log_stream_def take_copy_at_before)
  have ns: "\<not> LogBufferSize < Size lr"
    using sz(1) by (simp add: word_less_nat_alt)
  consider (full) "45056 < ?off + 20" | (big) "?off + 20 \<le> 45056" "45056 < ?off + unat (Size lr)"
    | (fits) "?off + unat (Size lr) \<le> 45056"
    using sz(3) by linarith
  then show ?thesis
  proof cases
    case full
    obtain d' where F: "Flush lm d = Some (lm\<lparr>lm_offset := 0, flush_buffer := log_buffer lm, log_buffer := flush_buffer lm,
        persistent_lsn := log_buffer_lsn lm\<rparr>, d')" "log_at_end d'" "f_bytes (dm_log d') = log_stream lm d"
        "dm_db d' = dm_db d" "nextPageID d' = nextPageID d"
      using Flush_spec [OF inv] by blast
    show ?thesis
      using full sz len off F fin [of 0 "flush_buffer lm"] take_copy_at_end [of 0 "record_bytes lr'" "flush_buffer lm"]
      by (simp add: AppendLogRecord_def Let_def ns room_less lr'_def [symmetric]) (simp add: lr'_def log_inv_def log_stream_def)
  next
    case big
    obtain d' where F: "Flush ?lm2 d = Some (?lm2\<lparr>lm_offset := 0, flush_buffer := log_buffer ?lm2, log_buffer := flush_buffer lm,
        persistent_lsn := log_buffer_lsn lm\<rparr>, d')" "log_at_end d'" "f_bytes (dm_log d') = log_stream lm d"
        "dm_db d' = dm_db d" "nextPageID d' = nextPageID d"
      using Flush_spec [OF inv2] st2 by auto
    show ?thesis
      using big sz len off F fin [of 0 "flush_buffer lm"] take_copy_at_end [of 0 "record_bytes lr'" "flush_buffer lm"]
      by (simp add: AppendLogRecord_def Let_def ns room_less lr'_def [symmetric]) (simp add: lr'_def log_inv_def log_stream_def)
  next
    case fits
    then show ?thesis
      using sz len off ae fin [of "lm_offset lm" "log_buffer lm"] take_copy_at_end [of ?off "record_bytes lr'" "log_buffer lm"]
      by (simp add: AppendLogRecord_def Let_def ns room_less lr'_def [symmetric])
        (simp add: lr'_def log_inv_def log_stream_def unat_new_offset)
  qed
qed

lemma wf_record_Txn:
  "ty \<in> {BEGIN, COMMIT, ABORT} \<Longrightarrow> wf_record (NewLogRecordTxn t l ty)"
  by (auto simp: wf_record_def record_bytes_def record_body_def NewLogRecordTxn_def LogRecord_zero_def
      wf_tuple_def tuple_zero_def code_type_def)

lemma wf_record_InsertDelete:
  assumes "ty \<in> {INSERT, MARKDELETE, APPLYDELETE, ROLLBACKDELETE}" and "wf_tuple t" and "unat (t_size t) \<le> 45024"
  shows "wf_record (NewLogRecordInsertDelete x l ty r t)"
proof -
  have "unat (32 + t_size t) = 32 + unat (t_size t)"
    using assms(3) unat_add_less [of 32 "t_size t"] by simp
  then show ?thesis
    using assms by (auto simp: wf_record_def record_bytes_def record_body_def NewLogRecordInsertDelete_def
        LogRecord_zero_def wf_tuple_def tuple_zero_def tuple_bytes_def code_type_def Let_def)
qed

lemma wf_record_Update:
  assumes "wf_tuple t" and "wf_tuple u" and "unat (t_size t) + unat (t_size u) \<le> 45020"
  shows "wf_record (NewLogRecordUpdate x l UPDATE r t u)"
proof -
  have "unat (t_size t + t_size u) = unat (t_size t) + unat (t_size u)"
    using assms(3) unat_add_less [of "t_size t" "t_size u"] by simp
  then have "unat (36 + (t_size t + t_size u)) = 36 + unat (t_size t) + unat (t_size u)"
    using assms(3) unat_add_less [of 36 "t_size t + t_size u"] by simp
  moreover have "HEADER_SIZE + 8 + t_size t + t_size u + 2 * 4 = 36 + (t_size t + t_size u)"
    by simp
  ultimately have "unat (HEADER_SIZE + 8 + t_size t + t_size u + 2 * 4) = 36 + unat (t_size t) + unat (t_size u)"
    by metis
  then show ?thesis
    using assms by (simp add: wf_record_def record_bytes_def record_body_def NewLogRecordUpdate_def
        LogRecord_zero_def wf_tuple_def tuple_zero_def tuple_bytes_def code_type_def)
qed

lemma wf_record_NewPage: "wf_record (NewLogRecordNewPage x l NEWPAGE p)"
  by (simp add: wf_record_def record_bytes_def record_body_def NewLogRecordNewPage_def LogRecord_zero_def
      wf_tuple_def tuple_zero_def code_type_def)

subsection \<open>Write-ahead logs\<close>

text \<open>
  What the transaction manager and the buffer pool rely on: appending extends the stream by
  the encoded record, flushing makes the whole stream durable, and neither loses anything.
\<close>

locale write_ahead_log =
  fixes invar :: "'s \<Rightarrow> bool"
    and stream :: "'s \<Rightarrow> bytes"
    and durable :: "'s \<Rightarrow> bytes"
    and append :: "'r \<Rightarrow> 's \<Rightarrow> 's option"
    and flush :: "'s \<Rightarrow> 's option"
    and encode :: "'s \<Rightarrow> 'r \<Rightarrow> bytes"
    and wf :: "'r \<Rightarrow> bool"
  assumes append_ok: "invar s \<Longrightarrow> wf r \<Longrightarrow>
      \<exists>s'. append r s = Some s' \<and> invar s' \<and> stream s' = stream s @ encode s r"
    and flush_ok: "invar s \<Longrightarrow> \<exists>s'. flush s = Some s' \<and> invar s' \<and> stream s' = stream s \<and> durable s' = stream s"
begin

fun append_all :: "'r list \<Rightarrow> 's \<Rightarrow> 's option" where
  "append_all [] s = Some s"
| "append_all (r # rs) s = Option.bind (append r s) (append_all rs)"

fun encode_all :: "'s \<Rightarrow> 'r list \<Rightarrow> bytes" where
  "encode_all s [] = []"
| "encode_all s (r # rs) = encode s r @ (case append r s of Some s' \<Rightarrow> encode_all s' rs | None \<Rightarrow> [])"

lemma append_all_stream:
  "invar s \<Longrightarrow> list_all wf rs \<Longrightarrow>
   \<exists>s'. append_all rs s = Some s' \<and> invar s' \<and> stream s' = stream s @ encode_all s rs"
proof (induction rs arbitrary: s)
  case (Cons r rs)
  then obtain s1 where "append r s = Some s1" "invar s1" "stream s1 = stream s @ encode s r"
    using append_ok [of s r] by auto
  with Cons.IH [of s1] Cons.prems show ?case by auto
qed simp

lemma append_all_durable:
  assumes "invar s" and "list_all wf rs"
  shows "\<exists>s'. Option.bind (append_all rs s) flush = Some s' \<and> durable s' = stream s @ encode_all s rs"
proof -
  obtain s1 where "append_all rs s = Some s1" "invar s1" "stream s1 = stream s @ encode_all s rs"
    using append_all_stream [OF assms] by blast
  with flush_ok [of s1] show ?thesis by auto
qed

end

interpretation wal: write_ahead_log "\<lambda>(lm, d). log_inv lm d" "\<lambda>(lm, d). log_stream lm d"
  "\<lambda>(lm, d). f_bytes (dm_log d)" "\<lambda>lr (lm, d). map_option snd (AppendLogRecord lr lm d)" "\<lambda>(lm, d). Flush lm d"
  "\<lambda>(lm, d) lr. record_bytes (lr\<lparr>Lsn := next_lsn lm\<rparr>)" wf_record
proof
  fix s :: "LogManager \<times> disk" and lr
  assume "case s of (lm, d) \<Rightarrow> log_inv lm d" and "wf_record lr"
  then show "\<exists>s'. (case s of (lm, d) \<Rightarrow> map_option snd (AppendLogRecord lr lm d)) = Some s' \<and>
      (case s' of (lm, d) \<Rightarrow> log_inv lm d) \<and> (case s' of (lm, d) \<Rightarrow> log_stream lm d) =
      (case s of (lm, d) \<Rightarrow> log_stream lm d) @ (case s of (lm, d) \<Rightarrow> \<lambda>lr. record_bytes (lr\<lparr>Lsn := next_lsn lm\<rparr>)) lr"
    using AppendLogRecord_spec by (cases s) fastforce
next
  fix s :: "LogManager \<times> disk"
  assume "case s of (lm, d) \<Rightarrow> log_inv lm d"
  then show "\<exists>s'. (case s of (lm, d) \<Rightarrow> Flush lm d) = Some s' \<and> (case s' of (lm, d) \<Rightarrow> log_inv lm d) \<and>
      (case s' of (lm, d) \<Rightarrow> log_stream lm d) = (case s of (lm, d) \<Rightarrow> log_stream lm d) \<and>
      (case s' of (lm, d) \<Rightarrow> f_bytes (dm_log d)) = (case s of (lm, d) \<Rightarrow> log_stream lm d)"
    using Flush_spec [of "fst s" "snd s"] by (cases s) (auto simp: log_inv_def log_stream_def)
qed

text \<open>A sequence of calls, and the records it writes.\<close>

fun AppendAll :: "LogRecord list \<Rightarrow> LogManager \<Rightarrow> disk \<Rightarrow> (LogManager \<times> disk) option" where
  "AppendAll [] lm d = Some (lm, d)"
| "AppendAll (lr # lrs) lm d = do { (_, lm, d) \<leftarrow> AppendLogRecord lr lm d; AppendAll lrs lm d }"

fun numbered :: "LSN \<Rightarrow> LogRecord list \<Rightarrow> LogRecord list" where
  "numbered l [] = []"
| "numbered l (lr # lrs) = lr\<lparr>Lsn := l\<rparr> # numbered (l + 1) lrs"

text \<open>Appending a well-formed record never fails; whatever flushes it needs on the way, the log (the
  file followed by the filled part of the buffer) grows by exactly the record's bytes, numbered with
  the next LSN.\<close>

theorem AppendLogRecord_extends_log:
  assumes "log_inv lm d" and "wf_record lr"
  shows "\<exists>lm' d'. AppendLogRecord lr lm d = Some (lr\<lparr>Lsn := next_lsn lm\<rparr>, lm', d') \<and> log_inv lm' d' \<and>
           log_stream lm' d' = log_stream lm d @ record_bytes (lr\<lparr>Lsn := next_lsn lm\<rparr>) \<and>
           next_lsn lm' = next_lsn lm + 1 \<and> dm_db d' = dm_db d"
  using AppendLogRecord_spec [OF assms] by blast

theorem AppendLogRecord_extends_log_witness:
  "\<exists>lm' d'. AppendLogRecord (NewLogRecordTxn 1 InvalidLSN BEGIN) NewLogManager empty_disk =
       Some ((NewLogRecordTxn 1 InvalidLSN BEGIN)\<lparr>Lsn := 0\<rparr>, lm', d') \<and>
     log_stream lm' d' = record_bytes ((NewLogRecordTxn 1 InvalidLSN BEGIN)\<lparr>Lsn := 0\<rparr>)"
  using AppendLogRecord_extends_log [of NewLogManager empty_disk "NewLogRecordTxn 1 InvalidLSN BEGIN"]
    log_inv_NewLogManager [of empty_disk] wf_record_Txn [of BEGIN 1 InvalidLSN]
  by (auto simp: log_at_end_def empty_disk_def NewLogManager_def log_stream_def)

lemma AppendAll_wal: "AppendAll lrs lm d = wal.append_all lrs (lm, d)"
proof (induction lrs arbitrary: lm d)
  case (Cons lr lrs)
  then show ?case by (cases "AppendLogRecord lr lm d") auto
qed simp

lemma encode_all_numbered:
  "log_inv lm d \<Longrightarrow> list_all wf_record lrs \<Longrightarrow>
   wal.encode_all (lm, d) lrs = concat (map record_bytes (numbered (next_lsn lm) lrs))"
proof (induction lrs arbitrary: lm d)
  case (Cons lr lrs)
  then obtain lm' d' where "AppendLogRecord lr lm d = Some (lr\<lparr>Lsn := next_lsn lm\<rparr>, lm', d')"
      "log_inv lm' d'" "next_lsn lm' = next_lsn lm + 1"
    using AppendLogRecord_spec [of lm d lr] by auto
  with Cons show ?case by simp
qed simp

text \<open>C20: once a sequence of records has been appended and the log flushed, the log file holds what it held
  (and what was buffered) before, followed by exactly these records in order with consecutive LSNs.\<close>

theorem log_durable_after_flush:
  assumes "log_inv lm d" and "list_all wf_record lrs"
  shows "\<exists>lm1 d1 lm' d'. AppendAll lrs lm d = Some (lm1, d1) \<and> Flush lm1 d1 = Some (lm', d') \<and>
           f_bytes (dm_log d') = log_stream lm d @ concat (map record_bytes (numbered (next_lsn lm) lrs)) \<and>
           persistent_lsn lm' = log_buffer_lsn lm1"
proof -
  obtain lm1 d1 where 1: "AppendAll lrs lm d = Some (lm1, d1)" "log_inv lm1 d1"
      "log_stream lm1 d1 = log_stream lm d @ wal.encode_all (lm, d) lrs"
    using wal.append_all_stream [of "(lm, d)" lrs] assms by (auto simp: AppendAll_wal)
  then show ?thesis
    using Flush_spec [OF 1(2)] encode_all_numbered [OF assms] by auto
qed

theorem log_durable_after_flush_witness:
  "\<exists>lm1 d1 lm' d'. AppendAll [NewLogRecordTxn 1 InvalidLSN BEGIN, NewLogRecordTxn 1 0 COMMIT] NewLogManager empty_disk =
       Some (lm1, d1) \<and> Flush lm1 d1 = Some (lm', d') \<and>
     f_bytes (dm_log d') = record_bytes ((NewLogRecordTxn 1 InvalidLSN BEGIN)\<lparr>Lsn := 0\<rparr>) @
       record_bytes ((NewLogRecordTxn 1 0 COMMIT)\<lparr>Lsn := 1\<rparr>)"
  using log_durable_after_flush [of NewLogManager empty_disk "[NewLogRecordTxn 1 InvalidLSN BEGIN, NewLogRecordTxn 1 0 COMMIT]"]
    log_inv_NewLogManager [of empty_disk] wf_record_Txn [of BEGIN 1 InvalidLSN] wf_record_Txn [of COMMIT 1 0]
  by (auto simp: log_at_end_def empty_disk_def NewLogManager_def log_stream_def)

text \<open>flushing a log manager that has written nothing yet moves the persistent LSN from invalid to 0,
  the number of the first record, although no record has reached the disk.\<close>

theorem Flush_empty_claims_lsn_0:
  "persistent_lsn NewLogManager = InvalidLSN \<and> next_lsn NewLogManager = 0 \<and>
   (case Flush NewLogManager d of
      Some (lm', d') \<Rightarrow> persistent_lsn lm' = 0 \<and> next_lsn lm' = 0 \<and> dm_log d' = f_write [] (dm_log d)
    | None \<Rightarrow> False)"
  by (simp add: Flush_def NewLogManager_def WriteLog_def)

end
