(* ===== verification/Lock_Manager.thy ===== *)
theory Lock_Manager
  imports Log_Manager
begin

text \<open>
  \<^verbatim>\<open>storage/access/transaction.go\<close> and \<^verbatim>\<open>lock_manager.go\<close>: transactions with their lock sets and write
  set, and the two lock tables.  No call waits: a request is granted or refused at once (a refused
  transaction aborts).  The safety property is that an exclusively locked record is shared by nobody
  else; every call but \<^verbatim>\<open>LockUpgrade\<close> keeps it, and \<^verbatim>\<open>LockUpgrade\<close> does when nobody else shares the record, which it
  does not check.  Over runs of calls, such upgrades are the only way to a conflict.
\<close>

subsection \<open>Transactions\<close>

datatype TransactionState = GROWING | SHRINKING | COMMITTED | ABORTED

datatype WType = W_INSERT | W_DELETE | W_UPDATE

text \<open>A \<^verbatim>\<open>*TableHeap\<close> is named by its first page.\<close>

record WriteRecord =
  wr_rid :: rid
  wr_wtype :: WType
  wr_tuple :: tuple
  wr_table :: pageID

record Transaction =
  tx_state :: TransactionState
  txn_id :: txnID
  write_set :: "WriteRecord list"
  prev_lsn :: LSN
  shared_lock_set :: "rid list"
  exclusive_lock_set :: "rid list"

definition NewTransaction :: "txnID \<Rightarrow> Transaction" where
  "NewTransaction tid = \<lparr>tx_state = GROWING, txn_id = tid, write_set = [], prev_lsn = InvalidLSN,
     shared_lock_set = [], exclusive_lock_set = []\<rparr>"

definition AddIntoWriteSet :: "WriteRecord \<Rightarrow> Transaction \<Rightarrow> Transaction" where
  "AddIntoWriteSet w txn = txn\<lparr>write_set := write_set txn @ [w]\<rparr>"

definition IsSharedLocked :: "Transaction \<Rightarrow> rid \<Rightarrow> bool" where
  "IsSharedLocked txn r \<longleftrightarrow> r \<in> set (shared_lock_set txn)"

definition IsExclusiveLocked :: "Transaction \<Rightarrow> rid \<Rightarrow> bool" where
  "IsExclusiveLocked txn r \<longleftrightarrow> r \<in> set (exclusive_lock_set txn)"

definition SetState :: "TransactionState \<Rightarrow> Transaction \<Rightarrow> Transaction" where
  "SetState s txn = txn\<lparr>tx_state := s\<rparr>"

subsection \<open>The lock manager\<close>

record LockManager =
  shared_lock_table :: "rid \<Rightarrow> txnID list option"
  exclusive_lock_table :: "rid \<Rightarrow> txnID option"

definition NewLockManager :: LockManager where
  "NewLockManager = \<lparr>shared_lock_table = (\<lambda>_. None), exclusive_lock_table = (\<lambda>_. None)\<rparr>"

text \<open>\<^verbatim>\<open>removeRID\<close> and \<^verbatim>\<open>removeTxnID\<close> take out the first occurrence: \<open>remove1\<close>.\<close>

definition LockShared :: "Transaction \<Rightarrow> rid \<Rightarrow> LockManager \<Rightarrow> bool \<times> Transaction \<times> LockManager" where
  "LockShared txn r lk = (case exclusive_lock_table lk r of
     Some t \<Rightarrow> (t = txn_id txn, txn, lk)
   | None \<Rightarrow> (case shared_lock_table lk r of
       Some arr \<Rightarrow>
         if txn_id txn \<in> set arr then (True, txn, lk)
         else (True, txn\<lparr>shared_lock_set := shared_lock_set txn @ [r]\<rparr>,
               lk\<lparr>shared_lock_table := (shared_lock_table lk)(r \<mapsto> arr @ [txn_id txn])\<rparr>)
     | None \<Rightarrow> (True, txn\<lparr>shared_lock_set := shared_lock_set txn @ [r]\<rparr>,
                 lk\<lparr>shared_lock_table := (shared_lock_table lk)(r \<mapsto> [txn_id txn])\<rparr>)))"

definition LockExclusive :: "Transaction \<Rightarrow> rid \<Rightarrow> LockManager \<Rightarrow> bool \<times> Transaction \<times> LockManager" where
  "LockExclusive txn r lk = (case exclusive_lock_table lk r of
     Some t \<Rightarrow> (t = txn_id txn, txn, lk)
   | None \<Rightarrow>
       if (case shared_lock_table lk r of Some arr \<Rightarrow> arr \<noteq> [] | None \<Rightarrow> False) then (False, txn, lk)
       else (True, txn\<lparr>exclusive_lock_set := exclusive_lock_set txn @ [r]\<rparr>,
             lk\<lparr>exclusive_lock_table := (exclusive_lock_table lk)(r \<mapsto> txn_id txn)\<rparr>))"

definition LockUpgrade :: "Transaction \<Rightarrow> rid \<Rightarrow> LockManager \<Rightarrow> (bool \<times> Transaction \<times> LockManager) option" where
  "LockUpgrade txn r lk =
     (if IsSharedLocked txn r then
        (case exclusive_lock_table lk r of
           Some t \<Rightarrow> Some (t = txn_id txn, txn, lk)
         | None \<Rightarrow> Some (True,
             txn\<lparr>exclusive_lock_set := exclusive_lock_set txn @ [r], shared_lock_set := remove1 r (shared_lock_set txn)\<rparr>,
             lk\<lparr>exclusive_lock_table := (exclusive_lock_table lk)(r \<mapsto> txn_id txn)\<rparr>))
      else None)"

definition unlock_one :: "Transaction \<Rightarrow> rid \<Rightarrow> LockManager \<Rightarrow> LockManager" where
  "unlock_one txn r lk =
     (let lk = (if exclusive_lock_table lk r = Some (txn_id txn)
                then lk\<lparr>exclusive_lock_table := (exclusive_lock_table lk)(r := None)\<rparr> else lk)
      in case shared_lock_table lk r of
           Some arr \<Rightarrow> if txn_id txn \<in> set arr
             then lk\<lparr>shared_lock_table := (shared_lock_table lk)(r \<mapsto> remove1 (txn_id txn) arr)\<rparr> else lk
         | None \<Rightarrow> lk)"

definition Unlock :: "Transaction \<Rightarrow> rid list \<Rightarrow> LockManager \<Rightarrow> bool \<times> LockManager" where
  "Unlock txn rids lk = (True, fold (unlock_one txn) rids lk)"

subsection \<open>Who holds what\<close>

definition holds_shared :: "LockManager \<Rightarrow> rid \<Rightarrow> txnID \<Rightarrow> bool" where
  "holds_shared lk r t \<longleftrightarrow> (\<exists>arr. shared_lock_table lk r = Some arr \<and> t \<in> set arr)"

definition holds_exclusive :: "LockManager \<Rightarrow> rid \<Rightarrow> txnID \<Rightarrow> bool" where
  "holds_exclusive lk r t \<longleftrightarrow> exclusive_lock_table lk r = Some t"

text \<open>At most one sharer entry per transaction, and no sharer beside an exclusive holder.\<close>

definition lock_inv :: "LockManager \<Rightarrow> bool" where
  "lock_inv lk \<longleftrightarrow> (\<forall>r arr. shared_lock_table lk r = Some arr \<longrightarrow> distinct arr) \<and>
     (\<forall>r t u. holds_exclusive lk r t \<longrightarrow> holds_shared lk r u \<longrightarrow> u = t)"

lemmas lock_defs = holds_shared_def holds_exclusive_def

lemma lock_inv_New: "lock_inv NewLockManager"
  by (simp add: lock_inv_def NewLockManager_def lock_defs)

lemma LockShared_spec:
  assumes "lock_inv lk" and "LockShared txn r lk = (ok, txn', lk')"
  shows "lock_inv lk'" and "ok \<longleftrightarrow> (\<forall>t. holds_exclusive lk r t \<longrightarrow> t = txn_id txn)"
    and "txn_id txn' = txn_id txn" and "holds_exclusive lk' = holds_exclusive lk"
    and "holds_shared lk' = (\<lambda>q t. holds_shared lk q t \<or>
      (ok \<and> exclusive_lock_table lk r = None \<and> q = r \<and> t = txn_id txn))"
  using assms
  by (auto simp: LockShared_def lock_inv_def lock_defs fun_eq_iff split: option.splits if_splits prod.splits)

lemma LockExclusive_spec:
  assumes "lock_inv lk" and "LockExclusive txn r lk = (ok, txn', lk')"
  shows "lock_inv lk'"
    and "ok \<longleftrightarrow> holds_exclusive lk r (txn_id txn) \<or>
      (\<forall>t. \<not> holds_exclusive lk r t) \<and> (\<forall>t. \<not> holds_shared lk r t)"
    and "txn_id txn' = txn_id txn" and "holds_shared lk' = holds_shared lk"
    and "holds_exclusive lk' = (\<lambda>q t. holds_exclusive lk q t \<or> (ok \<and> q = r \<and> t = txn_id txn))"
  using assms
  by (auto simp: LockExclusive_def lock_inv_def lock_defs fun_eq_iff dest: hd_in_set split: option.splits if_splits prod.splits)

lemma unlock_one_spec:
  assumes "lock_inv lk"
  shows "lock_inv (unlock_one txn r lk)"
    and "holds_exclusive (unlock_one txn r lk) = (\<lambda>q t. holds_exclusive lk q t \<and> \<not> (q = r \<and> t = txn_id txn))"
    and "holds_shared (unlock_one txn r lk) = (\<lambda>q t. holds_shared lk q t \<and> \<not> (q = r \<and> t = txn_id txn))"
  using assms
  by (auto simp: unlock_one_def lock_inv_def lock_defs fun_eq_iff Let_def split: option.splits if_splits)

lemma Unlock_spec:
  assumes "lock_inv lk"
  shows "lock_inv (snd (Unlock txn rs lk))"
    and "holds_exclusive (snd (Unlock txn rs lk)) = (\<lambda>q t. holds_exclusive lk q t \<and> \<not> (q \<in> set rs \<and> t = txn_id txn))"
    and "holds_shared (snd (Unlock txn rs lk)) = (\<lambda>q t. holds_shared lk q t \<and> \<not> (q \<in> set rs \<and> t = txn_id txn))"
proof -
  have "lock_inv (fold (unlock_one txn) rs lk) \<and>
      holds_exclusive (fold (unlock_one txn) rs lk) = (\<lambda>q t. holds_exclusive lk q t \<and> \<not> (q \<in> set rs \<and> t = txn_id txn)) \<and>
      holds_shared (fold (unlock_one txn) rs lk) = (\<lambda>q t. holds_shared lk q t \<and> \<not> (q \<in> set rs \<and> t = txn_id txn))"
    using assms
  proof (induction rs arbitrary: lk)
    case (Cons r rs)
    note u = unlock_one_spec [OF Cons.prems, of txn r]
    show ?case using Cons.IH [OF u(1)] u(2,3) by (auto simp: fun_eq_iff)
  qed simp
  then show "lock_inv (snd (Unlock txn rs lk))"
    and "holds_exclusive (snd (Unlock txn rs lk)) = (\<lambda>q t. holds_exclusive lk q t \<and> \<not> (q \<in> set rs \<and> t = txn_id txn))"
    and "holds_shared (snd (Unlock txn rs lk)) = (\<lambda>q t. holds_shared lk q t \<and> \<not> (q \<in> set rs \<and> t = txn_id txn))"
    by (simp_all add: Unlock_def)
qed

lemma LockUpgrade_spec:
  assumes "lock_inv lk" and "LockUpgrade txn r lk = Some (ok, txn', lk')"
    and "\<And>t. holds_shared lk r t \<Longrightarrow> t = txn_id txn"
  shows "lock_inv lk'" and "holds_shared lk' = holds_shared lk" and "txn_id txn' = txn_id txn"
    and "holds_exclusive lk' = (\<lambda>q t. holds_exclusive lk q t \<or> (ok \<and> q = r \<and> t = txn_id txn))"
  using assms
  by (auto simp: LockUpgrade_def lock_inv_def lock_defs fun_eq_iff split: option.splits if_splits prod.splits)

subsection \<open>Runs of the lock manager\<close>

text \<open>Any calls by any transactions, in any order; the transaction is passed as the caller has it.  \<^verbatim>\<open>LockUpgrade\<close> panics
  when the transaction has no shared lock on the record.\<close>

datatype lock_call = Share Transaction rid | Exclusive Transaction rid | Upgrade Transaction rid | Release Transaction "rid list"

fun lock_apply :: "lock_call \<Rightarrow> LockManager \<Rightarrow> LockManager option" where
  "lock_apply (Share txn r) lk = Some (snd (snd (LockShared txn r lk)))"
| "lock_apply (Exclusive txn r) lk = Some (snd (snd (LockExclusive txn r lk)))"
| "lock_apply (Upgrade txn r) lk = map_option (\<lambda>res. snd (snd res)) (LockUpgrade txn r lk)"
| "lock_apply (Release txn rs) lk = Some (snd (Unlock txn rs lk))"

fun lock_run :: "lock_call list \<Rightarrow> LockManager \<Rightarrow> LockManager option" where
  "lock_run [] lk = Some lk"
| "lock_run (c # cs) lk = do { lk' \<leftarrow> lock_apply c lk; lock_run cs lk' }"

lemma lock_run_snoc: "lock_run (cs @ [c]) lk = do { mid \<leftarrow> lock_run cs lk; lock_apply c mid }"
  by (induction cs arbitrary: lk) (simp_all split: Option.bind_split)

lemma unlock_fold_holds:
  "holds_exclusive (fold (unlock_one txn) rs lk) r t \<Longrightarrow> holds_exclusive lk r t"
  "holds_shared (fold (unlock_one txn) rs lk) r u \<Longrightarrow> holds_shared lk r u"
proof -
  have step: "holds_exclusive (unlock_one txn q lk) r t \<longrightarrow> holds_exclusive lk r t"
      "holds_shared (unlock_one txn q lk) r u \<longrightarrow> holds_shared lk r u" for q lk
    by (auto simp: unlock_one_def lock_defs Let_def dest: set_remove1_subset [THEN subsetD] split: if_splits option.splits)
  have "(holds_exclusive (fold (unlock_one txn) rs lk) r t \<longrightarrow> holds_exclusive lk r t) \<and>
      (holds_shared (fold (unlock_one txn) rs lk) r u \<longrightarrow> holds_shared lk r u)"
  proof (induction rs arbitrary: lk)
    case (Cons q rs)
    show ?case using Cons.IH [of "unlock_one txn q lk"] step [where q = q and lk = lk] by simp
  qed simp
  then show "holds_exclusive (fold (unlock_one txn) rs lk) r t \<Longrightarrow> holds_exclusive lk r t"
    "holds_shared (fold (unlock_one txn) rs lk) r u \<Longrightarrow> holds_shared lk r u" by blast+
qed

text \<open>The only call after which a record is shared beside its exclusive holder, when it was not before, is an upgrade
  by that holder of a record the other transaction shares.\<close>

lemma lock_apply_conflict:
  assumes "lock_apply c lk = Some lk'" and "holds_exclusive lk' r t" and "holds_shared lk' r u" and "u \<noteq> t"
  shows "holds_exclusive lk r t \<and> holds_shared lk r u \<or>
    (\<exists>txn. c = Upgrade txn r \<and> txn_id txn = t \<and> exclusive_lock_table lk r = None \<and> holds_shared lk r u)"
proof (cases c)
  case (Release txn rs)
  then show ?thesis using assms(1-3) unlock_fold_holds [of txn rs lk r] by (auto simp: Unlock_def)
next
  case (Exclusive txn q)
  then show ?thesis using assms by (auto simp: LockExclusive_def lock_defs split: option.splits if_splits)
next
  case (Share txn q)
  then show ?thesis using assms by (auto simp: LockShared_def lock_defs split: option.splits if_splits)
next
  case (Upgrade txn q)
  then show ?thesis using assms by (auto simp: LockUpgrade_def lock_defs split: option.splits if_splits)
qed

lemma lock_run_conflict:
  assumes "lock_run cs NewLockManager = Some lk" and "holds_exclusive lk r t" and "holds_shared lk r u" and "u \<noteq> t"
  shows "\<exists>pre txn post mid. cs = pre @ Upgrade txn r # post \<and> txn_id txn = t \<and>
    lock_run pre NewLockManager = Some mid \<and> exclusive_lock_table mid r = None \<and> holds_shared mid r u"
  using assms
proof (induction cs arbitrary: lk rule: rev_induct)
  case Nil
  then show ?case by (auto simp: NewLockManager_def lock_defs)
next
  case (snoc c cs)
  obtain mid where m: "lock_run cs NewLockManager = Some mid" "lock_apply c mid = Some lk"
    using snoc.prems(1) by (auto simp: lock_run_snoc bind_Some_iff)
  from lock_apply_conflict [OF m(2) snoc.prems(2-4)] show ?case
  proof
    assume "holds_exclusive mid r t \<and> holds_shared mid r u"
    then obtain pre txn post mid' where "cs = pre @ Upgrade txn r # post" "txn_id txn = t"
        "lock_run pre NewLockManager = Some mid'" "exclusive_lock_table mid' r = None" "holds_shared mid' r u"
      using snoc.IH [OF m(1)] snoc.prems(4) by blast
    then show ?thesis by (intro exI [of _ pre] exI [of _ txn] exI [of _ "post @ [c]"] exI [of _ mid']) simp
  next
    assume "\<exists>txn. c = Upgrade txn r \<and> txn_id txn = t \<and> exclusive_lock_table mid r = None \<and> holds_shared mid r u"
    then show ?thesis using m(1) by blast
  qed
qed

text \<open>C33: after any calls of any transactions on a new lock manager, every lock request by another transaction on an
  exclusively locked record is refused and changes nothing; and if another transaction \<open>u\<close> shares the record beside its
  exclusive holder \<open>t\<close>, then \<open>t\<close> got the record by an earlier \<^verbatim>\<open>LockUpgrade\<close> that was granted although \<open>u\<close> shared it.
  So an exclusive lock excludes sharers, except those that \<^verbatim>\<open>LockUpgrade\<close> ignores (\<^verbatim>\<open>LockUpgrade_ignores_sharers\<close>
  shows that it does); without such an upgrade there are none.\<close>

theorem exclusive_excludes_shared:
  assumes "lock_run cs NewLockManager = Some lk" and "holds_exclusive lk r t"
  shows "(\<forall>txn. txn_id txn \<noteq> t \<longrightarrow> LockShared txn r lk = (False, txn, lk) \<and> LockExclusive txn r lk = (False, txn, lk)) \<and>
    (\<forall>u. holds_shared lk r u \<longrightarrow> u \<noteq> t \<longrightarrow> (\<exists>pre txn post mid. cs = pre @ Upgrade txn r # post \<and> txn_id txn = t \<and>
       lock_run pre NewLockManager = Some mid \<and> exclusive_lock_table mid r = None \<and> holds_shared mid r u))"
  using assms(2) lock_run_conflict [OF assms] by (auto simp: LockShared_def LockExclusive_def lock_defs)

text \<open>Transaction 1 shares and upgrades a record, then 2 asks for it; and a run in which the conflict does occur.\<close>

theorem exclusive_excludes_shared_witness:
  "let t1 = NewTransaction 1; t2 = NewTransaction 2; s1 = t1\<lparr>shared_lock_set := [RID_zero]\<rparr> in
   (\<exists>lk. lock_run [Share t1 RID_zero, Upgrade s1 RID_zero, Share t2 RID_zero] NewLockManager = Some lk \<and>
      holds_exclusive lk RID_zero 1 \<and> LockShared t2 RID_zero lk = (False, t2, lk) \<and> \<not> holds_shared lk RID_zero 2) \<and>
   (\<exists>lk. lock_run [Share t1 RID_zero, Share t2 RID_zero, Upgrade s1 RID_zero] NewLockManager = Some lk \<and>
      holds_exclusive lk RID_zero 1 \<and> holds_shared lk RID_zero 2 \<and>
      (\<exists>pre txn post mid. [Share t1 RID_zero, Share t2 RID_zero, Upgrade s1 RID_zero] = pre @ Upgrade txn RID_zero # post \<and>
         txn_id txn = 1 \<and> lock_run pre NewLockManager = Some mid \<and> holds_shared mid RID_zero 2))"
proof -
  let ?t1 = "NewTransaction 1" and ?t2 = "NewTransaction 2" and ?r = "RID_zero"
  let ?s1 = "?t1\<lparr>shared_lock_set := [?r]\<rparr>"
  let ?a = "[Share ?t1 ?r, Upgrade ?s1 ?r, Share ?t2 ?r]" and ?b = "[Share ?t1 ?r, Share ?t2 ?r, Upgrade ?s1 ?r]"
  let ?l = "\<lparr>shared_lock_table = [?r \<mapsto> [1]], exclusive_lock_table = [?r \<mapsto> 1]\<rparr>"
  let ?m = "\<lparr>shared_lock_table = [?r \<mapsto> [1, 2]], exclusive_lock_table = [?r \<mapsto> 1]\<rparr>"
  note defs = LockShared_def LockUpgrade_def NewLockManager_def NewTransaction_def IsSharedLocked_def lock_defs
  have a: "lock_run ?a NewLockManager = Some ?l" "holds_exclusive ?l ?r 1" "\<not> holds_shared ?l ?r 2"
    and b: "lock_run ?b NewLockManager = Some ?m" "holds_exclusive ?m ?r 1" "holds_shared ?m ?r 2"
    by (simp_all add: defs)
  have "LockShared ?t2 ?r ?l = (False, ?t2, ?l)"
    using exclusive_excludes_shared [OF a(1,2)] by (simp add: NewTransaction_def)
  moreover have "\<exists>pre txn post mid. ?b = pre @ Upgrade txn ?r # post \<and> txn_id txn = 1 \<and>
      lock_run pre NewLockManager = Some mid \<and> holds_shared mid ?r 2"
    using exclusive_excludes_shared [OF b(1,2)] b(3) by fastforce
  ultimately show ?thesis using a b unfolding Let_def by blast
qed

text \<open>\<^verbatim>\<open>LockExclusive\<close> is granted exactly when the transaction already has the exclusive lock or nobody holds
  any lock on the record; a granted request makes it the holder, a refused one changes nothing.\<close>

theorem LockExclusive_grant:
  assumes "lock_inv lk" and "LockExclusive txn r lk = (ok, txn', lk')"
  shows "(ok \<longleftrightarrow> holds_exclusive lk r (txn_id txn) \<or>
      (\<forall>t. \<not> holds_exclusive lk r t) \<and> (\<forall>t. \<not> holds_shared lk r t)) \<and>
    (ok \<longrightarrow> holds_exclusive lk' r (txn_id txn)) \<and> (\<not> ok \<longrightarrow> txn' = txn \<and> lk' = lk) \<and> lock_inv lk'"
proof (intro conjI)
  note spec = LockExclusive_spec [OF assms]
  show "ok \<longleftrightarrow> holds_exclusive lk r (txn_id txn) \<or>
      (\<forall>t. \<not> holds_exclusive lk r t) \<and> (\<forall>t. \<not> holds_shared lk r t)" "lock_inv lk'"
    using spec(1,2) by blast+
  show "ok \<longrightarrow> holds_exclusive lk' r (txn_id txn)"
    using spec(5) by (simp add: fun_eq_iff)
  show "\<not> ok \<longrightarrow> txn' = txn \<and> lk' = lk"
    using assms(2) by (auto simp: LockExclusive_def split: option.splits if_splits)
qed

theorem LockExclusive_grant_witness:
  "\<exists>txn' lk'. LockExclusive (NewTransaction 1) RID_zero NewLockManager = (True, txn', lk') \<and> holds_exclusive lk' RID_zero 1"
  using LockExclusive_grant [OF lock_inv_New, of "NewTransaction 1" RID_zero]
  by (auto simp: NewTransaction_def LockExclusive_def NewLockManager_def)

text \<open>C34: \<^verbatim>\<open>LockUpgrade\<close> does not look at the other sharers: it grants the exclusive lock while another
  transaction still shares the record.\<close>

theorem LockUpgrade_ignores_sharers:
  assumes "IsSharedLocked txn r" and "exclusive_lock_table lk r = None" and "holds_shared lk r u" and "u \<noteq> txn_id txn"
  shows "\<exists>txn' lk'. LockUpgrade txn r lk = Some (True, txn', lk') \<and> holds_exclusive lk' r (txn_id txn) \<and>
    holds_shared lk' r u \<and> \<not> lock_inv lk'"
proof -
  let ?lk = "lk\<lparr>exclusive_lock_table := (exclusive_lock_table lk)(r \<mapsto> txn_id txn)\<rparr>"
  have "holds_exclusive ?lk r (txn_id txn)" "holds_shared ?lk r u"
    using assms by (simp_all add: lock_defs)
  with assms show ?thesis
    unfolding LockUpgrade_def lock_inv_def by auto
qed

theorem LockUpgrade_ignores_sharers_witness:
  "\<exists>txn' lk'. LockUpgrade ((NewTransaction 1)\<lparr>shared_lock_set := [RID_zero]\<rparr>) RID_zero
       (NewLockManager\<lparr>shared_lock_table := [RID_zero \<mapsto> [1, 2]]\<rparr>) = Some (True, txn', lk') \<and> \<not> lock_inv lk'"
  using LockUpgrade_ignores_sharers [of "(NewTransaction 1)\<lparr>shared_lock_set := [RID_zero]\<rparr>" RID_zero
      "NewLockManager\<lparr>shared_lock_table := [RID_zero \<mapsto> [1, 2]]\<rparr>" 2]
  by (auto simp: IsSharedLocked_def NewTransaction_def NewLockManager_def lock_defs)

end
