(* ===== verification/Table_Page.thy ===== *)
theory Table_Page
  imports Lock_Manager
begin

text \<open>
  \<^verbatim>\<open>storage/access/table_page.go\<close>: the slotted page, on its 4096 bytes.  Offsets and sizes are
  \<^verbatim>\<open>uint32\<close> words; slicing out of range panics.  An operation is given the value of \<^verbatim>\<open>common.EnableLogging\<close>
  and a context with the transaction, the lock manager and the log manager (and its disk); the recovery code passes
  \<^verbatim>\<open>nil\<close> for all three, which is \<open>None\<close>.  The abstraction is \<open>tp_view\<close>: what each slot holds.
\<close>

record ctx =
  x_txn :: Transaction
  x_locks :: LockManager
  x_log :: LogManager
  x_disk :: disk

datatype tp_error = ErrEmptyTuple | ErrNotEnoughSpace | ErrNoFreeSlot | ErrLock

abbreviation deleteMask :: u32 where "deleteMask \<equiv> 2147483648"
abbreviation sizeTablePageHeader :: u32 where "sizeTablePageHeader \<equiv> 24"
abbreviation sizeTuple :: u32 where "sizeTuple \<equiv> 8"
abbreviation offsetTupleOffset :: u32 where "offsetTupleOffset \<equiv> 24"
abbreviation offsetTupleSize :: u32 where "offsetTupleSize \<equiv> 28"

subsection \<open>Header and slots\<close>

definition IsDeleted :: "u32 \<Rightarrow> bool" where
  "IsDeleted tuple_size \<longleftrightarrow> tuple_size AND deleteMask = deleteMask \<or> tuple_size = 0"

definition SetDeletedFlag :: "u32 \<Rightarrow> u32" where
  "SetDeletedFlag tuple_size = tuple_size OR deleteMask"

definition UnsetDeletedFlag :: "u32 \<Rightarrow> u32" where
  "UnsetDeletedFlag tuple_size = tuple_size AND NOT deleteMask"

definition SetPageId :: "pageID \<Rightarrow> bytes \<Rightarrow> bytes" where
  "SetPageId pid d = copy_at 0 (PageID_Serialize pid) d"

definition SetPrevPageId :: "pageID \<Rightarrow> bytes \<Rightarrow> bytes" where
  "SetPrevPageId pid d = copy_at 8 (PageID_Serialize pid) d"

definition SetNextPageId :: "pageID \<Rightarrow> bytes \<Rightarrow> bytes" where
  "SetNextPageId pid d = copy_at 12 (PageID_Serialize pid) d"

definition SetFreeSpacePointer :: "u32 \<Rightarrow> bytes \<Rightarrow> bytes" where
  "SetFreeSpacePointer fsp d = copy_at 16 (UInt32_Serialize fsp) d"

definition SetTupleCount :: "u32 \<Rightarrow> bytes \<Rightarrow> bytes" where
  "SetTupleCount n d = copy_at 20 (UInt32_Serialize n) d"

definition GetTablePageId :: "bytes \<Rightarrow> pageID" where
  "GetTablePageId d = NewPageIDFromBytes d"

definition GetNextPageId :: "bytes \<Rightarrow> pageID" where
  "GetNextPageId d = NewPageIDFromBytes (drop 12 d)"

definition GetFreeSpacePointer :: "bytes \<Rightarrow> u32" where
  "GetFreeSpacePointer d = NewUInt32FromBytes (drop 16 d)"

definition GetTupleCount :: "bytes \<Rightarrow> u32" where
  "GetTupleCount d = NewUInt32FromBytes (drop 20 d)"

definition GetTupleOffsetAtSlot :: "u32 \<Rightarrow> bytes \<Rightarrow> u32 option" where
  "GetTupleOffsetAtSlot slot d = do { s \<leftarrow> slice_from (unat (offsetTupleOffset + sizeTuple * slot)) d; Some (NewUInt32FromBytes s) }"

definition SetTupleOffsetAtSlot :: "u32 \<Rightarrow> u32 \<Rightarrow> bytes \<Rightarrow> bytes option" where
  "SetTupleOffsetAtSlot slot off d = go_copy (unat (offsetTupleOffset + sizeTuple * slot)) (enc32 off) d"

definition GetTupleSize :: "u32 \<Rightarrow> bytes \<Rightarrow> u32 option" where
  "GetTupleSize slot d = do { s \<leftarrow> slice_from (unat (offsetTupleSize + sizeTuple * slot)) d; Some (NewUInt32FromBytes s) }"

definition SetTupleSize :: "u32 \<Rightarrow> u32 \<Rightarrow> bytes \<Rightarrow> bytes option" where
  "SetTupleSize slot sz d = go_copy (unat (offsetTupleSize + sizeTuple * slot)) (enc32 sz) d"

definition getFreeSpaceRemaining :: "bytes \<Rightarrow> u32" where
  "getFreeSpaceRemaining d = GetFreeSpacePointer d - sizeTablePageHeader - sizeTuple * GetTupleCount d"

definition setTuple :: "u32 \<Rightarrow> tuple \<Rightarrow> bytes \<Rightarrow> bytes option" where
  "setTuple slot t d = do {
     let fsp = GetFreeSpacePointer d;
     d \<leftarrow> go_copy (unat fsp) (t_data t) d;
     d \<leftarrow> go_copy (unat (offsetTupleOffset + sizeTuple * slot)) (UInt32_Serialize fsp) d;
     go_copy (unat (offsetTupleSize + sizeTuple * slot)) (UInt32_Serialize (t_size t)) d }"

subsection \<open>Logging and locking\<close>

text \<open>Append a record made from the transaction, put its LSN into the page and the transaction.\<close>

definition log_write :: "bool \<Rightarrow> (Transaction \<Rightarrow> LogRecord) \<Rightarrow> bytes \<Rightarrow> ctx option \<Rightarrow> (bytes \<times> ctx option) option" where
  "log_write logging mk d x =
     (if logging then do {
        c \<leftarrow> x;
        (lr, lm, dk) \<leftarrow> AppendLogRecord (mk (x_txn c)) (x_log c) (x_disk c);
        Some (SetLSN (Lsn lr) d,
              Some (c\<lparr>x_log := lm, x_disk := dk, x_txn := (x_txn c)\<lparr>prev_lsn := Lsn lr\<rparr>\<rparr>)) }
      else Some (d, x))"

text \<open>\<^verbatim>\<open>if common.EnableLogging { txn.SetState(ABORTED) }\<close>\<close>

definition abort_txn :: "bool \<Rightarrow> ctx option \<Rightarrow> ctx option option" where
  "abort_txn logging x =
     (if logging then do { c \<leftarrow> x; Some (Some (c\<lparr>x_txn := SetState ABORTED (x_txn c)\<rparr>)) } else Some x)"

definition with_lock :: "bool \<times> Transaction \<times> LockManager \<Rightarrow> ctx \<Rightarrow> bool \<times> ctx option" where
  "with_lock res c = (case res of (ok, txn, lk) \<Rightarrow>
     (ok, Some (c\<lparr>x_txn := (if ok then txn else SetState ABORTED txn), x_locks := lk\<rparr>)))"

text \<open>Acquire an exclusive lock on the new tuple (\<^verbatim>\<open>InsertTuple\<close>).\<close>

definition lock_new :: "bool \<Rightarrow> rid \<Rightarrow> ctx option \<Rightarrow> (bool \<times> ctx option) option" where
  "lock_new logging r x =
     (if logging then do { c \<leftarrow> x; Some (with_lock (LockExclusive (x_txn c) r (x_locks c)) c) }
      else Some (True, x))"

text \<open>Acquire an exclusive lock, upgrading from shared if necessary (\<^verbatim>\<open>UpdateTuple\<close>, \<^verbatim>\<open>MarkDelete\<close>).\<close>

definition lock_for_write :: "bool \<Rightarrow> rid \<Rightarrow> ctx option \<Rightarrow> (bool \<times> ctx option) option" where
  "lock_for_write logging r x =
     (if logging then do {
        c \<leftarrow> x;
        if IsSharedLocked (x_txn c) r then do {
          res \<leftarrow> LockUpgrade (x_txn c) r (x_locks c);
          Some (with_lock res c) }
        else if IsExclusiveLocked (x_txn c) r then Some (True, Some c)
        else Some (with_lock (LockExclusive (x_txn c) r (x_locks c)) c) }
      else Some (True, x))"

text \<open>Acquire at least a shared lock (\<^verbatim>\<open>GetTuple\<close>).\<close>

definition lock_for_read :: "bool \<Rightarrow> rid \<Rightarrow> ctx option \<Rightarrow> (bool \<times> ctx option) option" where
  "lock_for_read logging r x =
     (if logging then do {
        c \<leftarrow> x;
        if IsSharedLocked (x_txn c) r \<or> IsExclusiveLocked (x_txn c) r then Some (True, Some c)
        else Some (with_lock (LockShared (x_txn c) r (x_locks c)) c) }
      else Some (True, x))"

subsection \<open>Insert\<close>

text \<open>The first empty slot from \<open>slot\<close> on, looking at \<open>k\<close> slots; the tuple count when there is none.\<close>

fun free_slot :: "nat \<Rightarrow> u32 \<Rightarrow> bytes \<Rightarrow> u32 option" where
  "free_slot 0 slot d = Some slot"
| "free_slot (Suc k) slot d = do {
     sz \<leftarrow> GetTupleSize slot d;
     if sz = 0 then Some slot else free_slot k (slot + 1) d }"

definition InsertTuple :: "bool \<Rightarrow> tuple \<Rightarrow> bytes \<Rightarrow> ctx option \<Rightarrow> ((tp_error + rid \<times> tuple) \<times> bytes \<times> ctx option) option" where
  "InsertTuple logging t d x =
     (if t_size t = 0 then Some (Inl ErrEmptyTuple, d, x)
      else if getFreeSpaceRemaining d < t_size t + sizeTuple then Some (Inl ErrNotEnoughSpace, d, x)
      else do {
        slot \<leftarrow> free_slot (unat (GetTupleCount d)) 0 d;
        if GetTupleCount d = slot \<and> t_size t + sizeTuple > getFreeSpaceRemaining d
        then Some (Inl ErrNoFreeSlot, d, x)
        else do {
          let r = RID_Set RID_zero (GetTablePageId d) slot;
          (locked, x) \<leftarrow> lock_new logging r x;
          if \<not> locked then Some (Inl ErrLock, d, x)
          else do {
            let t = t\<lparr>t_rid := Some r\<rparr>;
            let d = SetFreeSpacePointer (GetFreeSpacePointer d - t_size t) d;
            d \<leftarrow> setTuple slot t d;
            let d = (if slot = GetTupleCount d then SetTupleCount (GetTupleCount d + 1) d else d);
            (d, x) \<leftarrow> log_write logging (\<lambda>txn. NewLogRecordInsertDelete (txn_id txn) (prev_lsn txn) INSERT r t) d x;
            Some (Inr (r, t), d, x) } } })"

subsection \<open>Update\<close>

text \<open>The values of the updated row: the listed columns from the new tuple, the others from the old one.\<close>

fun merge_values :: "nat \<Rightarrow> int list \<Rightarrow> column list \<Rightarrow> schema \<Rightarrow> tuple \<Rightarrow> tuple \<Rightarrow> sql_value list option" where
  "merge_values idx idxs [] s new old = Some []"
| "merge_values idx idxs (c # cs) s new old =
     (if idxs \<noteq> [] \<and> int idx = hd idxs then do {
        v \<leftarrow> GetValue new s (of_nat idx);
        vs \<leftarrow> merge_values (Suc idx) (tl idxs) cs s new old;
        Some (v # vs) }
      else do {
        v \<leftarrow> GetValue old s (of_nat idx);
        vs \<leftarrow> merge_values (Suc idx) idxs cs s new old;
        Some (v # vs) })"

definition update_row :: "int list option \<Rightarrow> schema option \<Rightarrow> tuple \<Rightarrow> tuple \<Rightarrow> tuple option" where
  "update_row update_col_idxs sch new_tuple old_tuple = (case (update_col_idxs, sch) of
     (Some idxs, Some s) \<Rightarrow> do {
       vs \<leftarrow> merge_values 0 idxs (columns s) s new_tuple old_tuple;
       NewTupleFromSchema vs s }
   | _ \<Rightarrow> Some new_tuple)"

text \<open>The loops over all slots at the end of \<^verbatim>\<open>UpdateTuple\<close> and \<^verbatim>\<open>ApplyDelete\<close>: a tuple stored below \<open>bound\<close> moves by \<open>delta\<close>.\<close>

fun shift_offsets :: "u32 list \<Rightarrow> u32 \<Rightarrow> u32 \<Rightarrow> bytes \<Rightarrow> bytes option" where
  "shift_offsets [] bound delta d = Some d"
| "shift_offsets (ii # iis) bound delta d = do {
     off \<leftarrow> GetTupleOffsetAtSlot ii d;
     sz \<leftarrow> GetTupleSize ii d;
     d \<leftarrow> (if sz > 0 \<and> off < bound then SetTupleOffsetAtSlot ii (off + delta) d else Some d);
     shift_offsets iis bound delta d }"

definition all_slots :: "bytes \<Rightarrow> u32 list" where
  "all_slots d = map of_nat [0..<unat (GetTupleCount d)]"

text \<open>Moving the bytes: the update proper, after the checks.\<close>

definition replace_tuple :: "u32 \<Rightarrow> u32 \<Rightarrow> u32 \<Rightarrow> tuple \<Rightarrow> bytes \<Rightarrow> bytes option" where
  "replace_tuple slot tuple_offset tuple_size u d = do {
     let fsp = GetFreeSpacePointer d;
     if \<not> tuple_offset \<ge> fsp then None
     else do {
       src \<leftarrow> slice_range (unat fsp) (unat tuple_offset) d;
       d \<leftarrow> go_copy (unat (fsp + tuple_size - t_size u)) src d;
       let d = SetFreeSpacePointer (fsp + tuple_size - t_size u) d;
       src \<leftarrow> slice_range 0 (unat (t_size u)) (t_data u);
       d \<leftarrow> go_copy (unat (tuple_offset + tuple_size - t_size u)) src d;
       d \<leftarrow> SetTupleSize slot (t_size u) d;
       shift_offsets (all_slots d) (tuple_offset + tuple_size) (tuple_size - t_size u) d } }"

text \<open>Result: success, the error, the tuple to be moved to another page, the old tuple.\<close>

definition UpdateTuple :: "bool \<Rightarrow> tuple \<Rightarrow> int list option \<Rightarrow> schema option \<Rightarrow> tuple \<Rightarrow> rid \<Rightarrow> bytes \<Rightarrow> ctx option \<Rightarrow>
    ((bool \<times> tp_error option \<times> tuple option) \<times> tuple \<times> bytes \<times> ctx option) option" where
  "UpdateTuple logging new_tuple update_col_idxs sch old_tuple r d x =
     (if \<not> t_size new_tuple > 0 then None
      else let slot_num = GetSlotNum r in
        if slot_num \<ge> GetTupleCount d
        then do { x \<leftarrow> abort_txn logging x; Some ((False, None, None), old_tuple, d, x) }
        else do {
          tuple_size \<leftarrow> GetTupleSize slot_num d;
          if IsDeleted tuple_size
          then do { x \<leftarrow> abort_txn logging x; Some ((False, None, None), old_tuple, d, x) }
          else do {
            tuple_offset \<leftarrow> GetTupleOffsetAtSlot slot_num d;
            old_data \<leftarrow> slice_range (unat tuple_offset) (unat (tuple_offset + tuple_size)) d;
            let old_tuple = \<lparr>t_rid = Some r, t_size = tuple_size, t_data = old_data\<rparr>;
            update_tuple \<leftarrow> update_row update_col_idxs sch new_tuple old_tuple;
            if getFreeSpaceRemaining d + tuple_size < t_size update_tuple
            then Some ((False, Some ErrNotEnoughSpace, Some update_tuple), old_tuple, d, x)
            else do {
              (locked, x) \<leftarrow> lock_for_write logging r x;
              if \<not> locked then Some ((False, None, None), old_tuple, d, x)
              else do {
                (d, x) \<leftarrow> log_write logging
                  (\<lambda>txn. NewLogRecordUpdate (txn_id txn) (prev_lsn txn) UPDATE r old_tuple update_tuple) d x;
                d \<leftarrow> replace_tuple slot_num tuple_offset tuple_size update_tuple d;
                Some ((True, None, None), old_tuple, d, x) } } } })"

subsection \<open>Delete\<close>

definition MarkDelete :: "bool \<Rightarrow> rid \<Rightarrow> bytes \<Rightarrow> ctx option \<Rightarrow> (bool \<times> bytes \<times> ctx option) option" where
  "MarkDelete logging r d x =
     (let slot_num = GetSlotNum r in
      if slot_num \<ge> GetTupleCount d
      then do { x \<leftarrow> abort_txn logging x; Some (False, d, x) }
      else do {
        tuple_size \<leftarrow> GetTupleSize slot_num d;
        if IsDeleted tuple_size then do { x \<leftarrow> abort_txn logging x; Some (False, d, x) }
        else do {
          (locked, x) \<leftarrow> lock_for_write logging r x;
          if \<not> locked then Some (False, d, x)
          else do {
            (d, x) \<leftarrow> log_write logging
              (\<lambda>txn. NewLogRecordInsertDelete (txn_id txn) (prev_lsn txn) MARKDELETE r tuple_zero) d x;
            d \<leftarrow> (if tuple_size > 0 then SetTupleSize slot_num (SetDeletedFlag tuple_size) d else Some d);
            Some (True, d, x) } } })"

text \<open>\<^verbatim>\<open>common.SH_Assert(txn.IsExclusiveLocked(rid), ...)\<close> under logging\<close>

definition assert_exclusive :: "bool \<Rightarrow> rid \<Rightarrow> ctx option \<Rightarrow> unit option" where
  "assert_exclusive logging r x =
     (if logging then do { c \<leftarrow> x; if IsExclusiveLocked (x_txn c) r then Some () else None } else Some ())"

text \<open>Taking the bytes of a tuple out of the page.\<close>

definition compact :: "u32 \<Rightarrow> u32 \<Rightarrow> u32 \<Rightarrow> bytes \<Rightarrow> bytes option" where
  "compact slot tuple_offset tuple_size d = do {
     let fsp = GetFreeSpacePointer d;
     if \<not> tuple_offset \<ge> fsp then None
     else do {
       src \<leftarrow> slice_range (unat fsp) (unat tuple_offset) d;
       d \<leftarrow> go_copy (unat (fsp + tuple_size)) src d;
       let d = SetFreeSpacePointer (fsp + tuple_size) d;
       d \<leftarrow> SetTupleSize slot 0 d;
       d \<leftarrow> SetTupleOffsetAtSlot slot 0 d;
       shift_offsets (all_slots d) tuple_offset tuple_size d } }"

definition ApplyDelete :: "bool \<Rightarrow> rid \<Rightarrow> bytes \<Rightarrow> ctx option \<Rightarrow> (bytes \<times> ctx option) option" where
  "ApplyDelete logging r d x =
     (let slot_num = GetSlotNum r in
      if \<not> slot_num < GetTupleCount d then None
      else do {
        tuple_offset \<leftarrow> GetTupleOffsetAtSlot slot_num d;
        tuple_size \<leftarrow> GetTupleSize slot_num d;
        let tuple_size = (if IsDeleted tuple_size then UnsetDeletedFlag tuple_size else tuple_size);
        del_data \<leftarrow> slice_range (unat tuple_offset) (unat (tuple_offset + tuple_size)) d;
        let delete_tuple = \<lparr>t_rid = Some r, t_size = tuple_size, t_data = del_data\<rparr>;
        _ \<leftarrow> assert_exclusive logging r x;
        (d, x) \<leftarrow> log_write logging
          (\<lambda>txn. NewLogRecordInsertDelete (txn_id txn) (prev_lsn txn) APPLYDELETE r delete_tuple) d x;
        d \<leftarrow> compact slot_num tuple_offset tuple_size d;
        Some (d, x) })"

definition RollbackDelete :: "bool \<Rightarrow> rid \<Rightarrow> bytes \<Rightarrow> ctx option \<Rightarrow> (bytes \<times> ctx option) option" where
  "RollbackDelete logging r d x = do {
     _ \<leftarrow> assert_exclusive logging r x;
     (d, x) \<leftarrow> log_write logging
       (\<lambda>txn. NewLogRecordInsertDelete (txn_id txn) (prev_lsn txn) ROLLBACKDELETE r tuple_zero) d x;
     let slot_num = GetSlotNum r;
     if \<not> slot_num < GetTupleCount d then None
     else do {
       tuple_size \<leftarrow> GetTupleSize slot_num d;
       d \<leftarrow> (if IsDeleted tuple_size then SetTupleSize slot_num (UnsetDeletedFlag tuple_size) d else Some d);
       Some (d, x) } }"

subsection \<open>New page, reading\<close>

definition Init :: "bool \<Rightarrow> pageID \<Rightarrow> pageID \<Rightarrow> bytes \<Rightarrow> ctx option \<Rightarrow> (bytes \<times> ctx option) option" where
  "Init logging pageId prevPageId d x = do {
     (d, x) \<leftarrow> log_write logging (\<lambda>txn. NewLogRecordNewPage (txn_id txn) (prev_lsn txn) NEWPAGE prevPageId) d x;
     let d = SetPageId pageId d;
     let d = SetPrevPageId prevPageId d;
     let d = SetNextPageId InvalidPageID d;
     let d = SetTupleCount 0 d;
     let d = SetFreeSpacePointer (of_nat PageSize) d;
     Some (d, x) }"

definition TP_GetTuple :: "bool \<Rightarrow> rid \<Rightarrow> bytes \<Rightarrow> ctx option \<Rightarrow> (tuple option \<times> ctx option) option" where
  "TP_GetTuple logging r d x =
     (if GetSlotNum r \<ge> GetTupleCount d then do { x \<leftarrow> abort_txn logging x; Some (None, x) }
      else do {
        let slot = GetSlotNum r;
        tupleOffset \<leftarrow> GetTupleOffsetAtSlot slot d;
        tupleSize \<leftarrow> GetTupleSize slot d;
        if IsDeleted tupleSize then do { x \<leftarrow> abort_txn logging x; Some (None, x) }
        else do {
          (locked, x) \<leftarrow> lock_for_read logging r x;
          if \<not> locked then Some (None, x)
          else do {
            src \<leftarrow> slice_from (unat tupleOffset) d;
            let tupleData = copy_at 0 src (replicate (unat tupleSize) 0);
            Some (Some (NewTuple (Some r) tupleSize tupleData), x) } } })"

text \<open>The first slot from \<open>ii\<close> on, among \<open>k\<close> slots, whose size is not 0.\<close>

fun next_used :: "nat \<Rightarrow> u32 \<Rightarrow> bytes \<Rightarrow> u32 option option" where
  "next_used 0 ii d = Some None"
| "next_used (Suc k) ii d = do {
     sz \<leftarrow> GetTupleSize ii d;
     if sz > 0 then Some (Some ii) else next_used k (ii + 1) d }"

definition GetTupleFirstRID :: "bytes \<Rightarrow> rid option option" where
  "GetTupleFirstRID d = do {
     s \<leftarrow> next_used (unat (GetTupleCount d)) 0 d;
     Some (map_option (RID_Set RID_zero (GetTablePageId d)) s) }"

definition GetNextTupleRID :: "rid \<Rightarrow> bool \<Rightarrow> bytes \<Rightarrow> rid option option" where
  "GetNextTupleRID curRID isNextPage d = do {
     let init_val = (if isNextPage then 0 else GetSlotNum curRID + 1);
     s \<leftarrow> next_used (unat (GetTupleCount d) - unat init_val) init_val d;
     Some (map_option (RID_Set RID_zero (GetTablePageId d)) s) }"

end
