(* ===== verification/Table_Page_Laws.thy ===== *)
theory Table_Page_Laws
  imports Table_Page
begin

text \<open>
  The slotted page keeps its invariant (tuples lie in the used part of the page and do not overlap), and
  every operation has the effect on \<open>tp_view\<close> that its name says: it changes one slot and no other.
\<close>

subsection \<open>The deleted flag\<close>

lemma mask_eq: "deleteMask = push_bit 31 1"
  by simp

lemma bit_mask: "bit (push_bit 31 (1 :: u32)) n \<longleftrightarrow> n = 31"
  by (simp only: bit_push_bit_iff bit_1_iff possible_bit_word) auto

lemma bit_SetDeletedFlag: "bit (SetDeletedFlag w) n \<longleftrightarrow> bit w n \<or> n = 31"
  unfolding SetDeletedFlag_def mask_eq by (simp only: bit_or_iff bit_mask)

lemma bit_UnsetDeletedFlag: "bit (UnsetDeletedFlag w) n \<longleftrightarrow> bit w n \<and> n \<noteq> 31"
  unfolding UnsetDeletedFlag_def mask_eq
  by (simp only: bit_and_iff bit_not_iff bit_mask possible_bit_word) (auto dest: bit_imp_le_length)

lemma IsDeleted_iff: "IsDeleted w \<longleftrightarrow> bit w 31 \<or> w = 0"
proof -
  have "w AND push_bit 31 1 = push_bit 31 1 \<longleftrightarrow> bit w 31"
    by (auto intro!: bit_word_eqI simp only: bit_and_iff bit_mask) (metis bit_and_iff bit_mask)
  then show ?thesis unfolding IsDeleted_def mask_eq by simp
qed

lemma Unset_noflag: "\<not> bit w 31 \<Longrightarrow> UnsetDeletedFlag w = w"
  by (rule bit_word_eqI) (auto simp only: bit_UnsetDeletedFlag)

lemma Unset_Set: "UnsetDeletedFlag (SetDeletedFlag w) = UnsetDeletedFlag w"
  by (rule bit_word_eqI) (auto simp only: bit_UnsetDeletedFlag bit_SetDeletedFlag)

lemma flag_bits: "\<not> bit (UnsetDeletedFlag w) 31" "bit (SetDeletedFlag w) 31"
  by (simp_all only: bit_UnsetDeletedFlag bit_SetDeletedFlag) auto

lemma Set_nonzero: "SetDeletedFlag w \<noteq> 0"
  using flag_bits(2) [of w] by auto

lemma small_noflag: "unat w < 2147483648 \<Longrightarrow> \<not> bit w 31" for w :: u32
proof
  assume *: "unat w < 2147483648" "bit w 31"
  then have "bit (unat w) 31"
    by (simp add: bit_unsigned_iff)
  with *(1) show False by (simp add: bit_nat_def)
qed

subsection \<open>Fields of the page as numbers\<close>

definition so :: "bytes \<Rightarrow> nat \<Rightarrow> u32" where
  "so d i = dec32 (drop (24 + 8 * i) d)"

definition sz :: "bytes \<Rightarrow> nat \<Rightarrow> u32" where
  "sz d i = dec32 (drop (28 + 8 * i) d)"

abbreviation cnt :: "bytes \<Rightarrow> nat" where "cnt d \<equiv> unat (GetTupleCount d)"
abbreviation fsp :: "bytes \<Rightarrow> nat" where "fsp d \<equiv> unat (GetFreeSpacePointer d)"

definition len :: "u32 \<Rightarrow> nat" where
  "len w = unat (UnsetDeletedFlag w)"

lemma slot_offsets:
  assumes "24 + 8 * unat slot < 4096"
  shows "unat (offsetTupleOffset + sizeTuple * slot) = 24 + 8 * unat slot"
    and "unat (offsetTupleSize + sizeTuple * slot) = 28 + 8 * unat slot"
  using assms unat_mult_less [of 8 slot] unat_add_less [of 24 "8 * slot"] unat_add_less [of 28 "8 * slot"] by simp_all

lemma slot_get:
  assumes "length d = 4096" and "32 + 8 * unat slot \<le> 4096"
  shows "GetTupleOffsetAtSlot slot d = Some (so d (unat slot))" and "GetTupleSize slot d = Some (sz d (unat slot))"
  using assms slot_offsets [of slot]
  by (simp_all add: GetTupleOffsetAtSlot_def GetTupleSize_def so_def sz_def NewUInt32FromBytes_def)

lemma slot_set:
  assumes "length d = 4096" and "32 + 8 * unat slot \<le> 4096"
  shows "SetTupleOffsetAtSlot slot v d = Some (copy_at (24 + 8 * unat slot) (enc32 v) d)"
    and "SetTupleSize slot v d = Some (copy_at (28 + 8 * unat slot) (enc32 v) d)"
  using assms slot_offsets [of slot] by (simp_all add: SetTupleOffsetAtSlot_def SetTupleSize_def)

lemmas header_defs = GetTupleCount_def GetFreeSpacePointer_def GetNextPageId_def GetTablePageId_def
  SetTupleCount_def SetFreeSpacePointer_def SetNextPageId_def SetPageId_def SetPrevPageId_def id_codec_defs

text \<open>A write leaves the fields it does not touch alone.\<close>

lemma copy_keeps:
  assumes "length d = 4096" and "off + length src \<le> 4096"
  shows "off + length src \<le> 20 \<or> 24 \<le> off \<Longrightarrow> GetTupleCount (copy_at off src d) = GetTupleCount d"
    and "off + length src \<le> 16 \<or> 20 \<le> off \<Longrightarrow> GetFreeSpacePointer (copy_at off src d) = GetFreeSpacePointer d"
    and "off + length src \<le> 12 \<or> 16 \<le> off \<Longrightarrow> GetNextPageId (copy_at off src d) = GetNextPageId d"
    and "4 \<le> off \<Longrightarrow> GetTablePageId (copy_at off src d) = GetTablePageId d"
    and "28 + 8 * i \<le> 4096 \<Longrightarrow> off + length src \<le> 24 + 8 * i \<or> 28 + 8 * i \<le> off \<Longrightarrow> so (copy_at off src d) i = so d i"
    and "32 + 8 * i \<le> 4096 \<Longrightarrow> off + length src \<le> 28 + 8 * i \<or> 32 + 8 * i \<le> off \<Longrightarrow> sz (copy_at off src d) i = sz d i"
  using assms c32.field_other [of 20 d off src] c32.field_other [of 16 d off src] c32.field_other [of 12 d off src]
    c32.field_other [of 0 d off src] c32.field_other [of "24 + 8 * i" d off src] c32.field_other [of "28 + 8 * i" d off src]
  by (auto simp: header_defs so_def sz_def)

lemma copy_sets:
  assumes "length d = 4096"
  shows "GetTupleCount (copy_at 20 (enc32 v) d) = v" and "GetFreeSpacePointer (copy_at 16 (enc32 v) d) = v"
    and "GetNextPageId (copy_at 12 (enc32 v) d) = v" and "GetTablePageId (copy_at 0 (enc32 v) d) = v"
    and "28 + 8 * i \<le> 4096 \<Longrightarrow> so (copy_at (24 + 8 * i) (enc32 v) d) i = v"
    and "32 + 8 * i \<le> 4096 \<Longrightarrow> sz (copy_at (28 + 8 * i) (enc32 v) d) i = v"
  using assms c32.field_same [of 20 d v] c32.field_same [of 16 d v] c32.field_same [of 12 d v] c32.field_same [of 0 d v]
    c32.field_same [of "24 + 8 * i" d v] c32.field_same [of "28 + 8 * i" d v]
  by (simp_all add: header_defs so_def sz_def)

text \<open>Writing one of the two words of slot \<open>s\<close>.\<close>

lemma slot_write:
  assumes "length d = 4096" and "32 + 8 * s \<le> 4096" and "32 + 8 * i \<le> 4096"
  shows "so (copy_at (24 + 8 * s) (enc32 v) d) i = (if i = s then v else so d i)"
    and "sz (copy_at (24 + 8 * s) (enc32 v) d) i = sz d i"
    and "so (copy_at (28 + 8 * s) (enc32 v) d) i = so d i"
    and "sz (copy_at (28 + 8 * s) (enc32 v) d) i = (if i = s then v else sz d i)"
proof -
  consider "i < s" | "i = s" | "s < i" by linarith
  note c = this
  show "so (copy_at (24 + 8 * s) (enc32 v) d) i = (if i = s then v else so d i)"
    using c assms copy_sets(5) [of d s v] copy_keeps(5) [of d "24 + 8 * s" "enc32 v" i] by cases auto
  show "sz (copy_at (24 + 8 * s) (enc32 v) d) i = sz d i"
    using c assms copy_keeps(6) [of d "24 + 8 * s" "enc32 v" i] by cases auto
  show "so (copy_at (28 + 8 * s) (enc32 v) d) i = so d i"
    using c assms copy_keeps(5) [of d "28 + 8 * s" "enc32 v" i] by cases auto
  show "sz (copy_at (28 + 8 * s) (enc32 v) d) i = (if i = s then v else sz d i)"
    using c assms copy_sets(6) [of d s v] copy_keeps(6) [of d "28 + 8 * s" "enc32 v" i] by cases auto
qed

subsection \<open>Invariant and view\<close>

definition used :: "bytes \<Rightarrow> nat \<Rightarrow> bool" where
  "used d i \<longleftrightarrow> i < cnt d \<and> sz d i \<noteq> 0"

abbreviation lo :: "bytes \<Rightarrow> nat \<Rightarrow> nat" where "lo d i \<equiv> unat (so d i)"
abbreviation ln :: "bytes \<Rightarrow> nat \<Rightarrow> nat" where "ln d i \<equiv> len (sz d i)"

definition tp_inv :: "bytes \<Rightarrow> bool" where
  "tp_inv d \<longleftrightarrow> length d = 4096 \<and> 24 + 8 * cnt d \<le> fsp d \<and> fsp d \<le> 4096 \<and>
     (\<forall>i. used d i \<longrightarrow> 0 < ln d i \<and> fsp d \<le> lo d i \<and> lo d i + ln d i \<le> 4096) \<and>
     (\<forall>i j. used d i \<longrightarrow> used d j \<longrightarrow> i \<noteq> j \<longrightarrow> lo d i + ln d i \<le> lo d j \<or> lo d j + ln d j \<le> lo d i)"

text \<open>What slot \<open>i\<close> holds: nothing, or whether it is marked deleted and the bytes of its tuple.\<close>

definition tp_view :: "bytes \<Rightarrow> nat \<Rightarrow> (bool \<times> bytes) option" where
  "tp_view d i = (if used d i then Some (bit (sz d i) 31, seg (lo d i) (ln d i) d) else None)"

lemma tp_invD:
  assumes "tp_inv d"
  shows "length d = 4096" "24 + 8 * cnt d \<le> fsp d" "fsp d \<le> 4096"
    and "used d i \<Longrightarrow> 0 < ln d i" "used d i \<Longrightarrow> fsp d \<le> lo d i" "used d i \<Longrightarrow> lo d i + ln d i \<le> 4096"
    and "used d i \<Longrightarrow> used d j \<Longrightarrow> i \<noteq> j \<Longrightarrow> lo d i + ln d i \<le> lo d j \<or> lo d j + ln d j \<le> lo d i"
  using assms by (auto simp: tp_inv_def)

text \<open>Two pages with the same count whose slots agree, where the bytes may have moved.\<close>

lemma tp_view_cong:
  assumes "used d' i = used d i" and "used d i \<Longrightarrow> sz d' i = sz d i"
    and "used d i \<Longrightarrow> seg (lo d' i) (ln d i) d' = seg (lo d i) (ln d i) d"
  shows "tp_view d' i = tp_view d i"
  using assms by (auto simp: tp_view_def)

subsection \<open>Logging does not touch the slots\<close>

lemma SetLSN_keeps:
  assumes "length d = 4096"
  shows "GetTupleCount (SetLSN l d) = GetTupleCount d" "GetFreeSpacePointer (SetLSN l d) = GetFreeSpacePointer d"
    "GetNextPageId (SetLSN l d) = GetNextPageId d" "GetTablePageId (SetLSN l d) = GetTablePageId d"
    "28 + 8 * i \<le> 4096 \<Longrightarrow> so (SetLSN l d) i = so d i" "32 + 8 * i \<le> 4096 \<Longrightarrow> sz (SetLSN l d) i = sz d i"
  using assms copy_keeps [OF assms, of 4 "LSN_Serialize l"] by (simp_all add: SetLSN_def OffsetLSN_def)

definition lsn_only :: "bytes \<Rightarrow> bytes \<Rightarrow> bool" where
  "lsn_only d d' \<longleftrightarrow> d' = d \<or> (\<exists>l. d' = SetLSN l d)"

lemma slot_in_page: "tp_inv d \<Longrightarrow> i < cnt d \<Longrightarrow> 32 + 8 * i \<le> fsp d \<and> 32 + 8 * i \<le> 4096"
  using tp_invD(2,3) [of d] by simp

lemma lsn_only_fields:
  assumes "lsn_only d d'" and "length d = 4096"
  shows "length d' = 4096" "GetTupleCount d' = GetTupleCount d" "GetFreeSpacePointer d' = GetFreeSpacePointer d"
    "GetNextPageId d' = GetNextPageId d" "GetTablePageId d' = GetTablePageId d"
    "28 + 8 * i \<le> 4096 \<Longrightarrow> so d' i = so d i" "32 + 8 * i \<le> 4096 \<Longrightarrow> sz d' i = sz d i"
    "8 \<le> k \<Longrightarrow> seg k n d' = seg k n d"
  using assms SetLSN_keeps by (auto simp: lsn_only_def seg_SetLSN)

lemma tp_inv_transfer:
  assumes inv: "tp_inv d" and "length d' = 4096" "GetTupleCount d' = GetTupleCount d" "GetFreeSpacePointer d' = GetFreeSpacePointer d"
    and "\<And>i. i < cnt d \<Longrightarrow> so d' i = so d i \<and> sz d' i = sz d i" and "\<And>k n. fsp d \<le> k \<Longrightarrow> seg k n d' = seg k n d"
  shows "tp_inv d'" and "tp_view d' = tp_view d"
proof -
  have u: "used d' i = used d i" for i
    using assms by (auto simp: used_def)
  have "used d i \<Longrightarrow> so d' i = so d i \<and> sz d' i = sz d i" for i
    using assms(5) by (auto simp: used_def)
  with inv assms u show "tp_inv d'" and "tp_view d' = tp_view d"
    by (auto simp: tp_inv_def fun_eq_iff tp_view_def)
qed

lemma lsn_only_view:
  assumes "tp_inv d" and "lsn_only d d'"
  shows "tp_inv d'" and "tp_view d' = tp_view d"
proof -
  note f = lsn_only_fields [OF assms(2) tp_invD(1) [OF assms(1)]]
  have "so d' i = so d i \<and> sz d' i = sz d i" if "i < cnt d" for i
    using slot_in_page [OF assms(1) that] f(6,7) [of i] by simp
  moreover have "fsp d \<le> k \<Longrightarrow> seg k n d' = seg k n d" for k n
    using tp_invD(2) [OF assms(1)] f(8) by simp
  ultimately show "tp_inv d'" and "tp_view d' = tp_view d"
    using tp_inv_transfer [OF assms(1) f(1-3)] by blast+
qed

definition ctx_ok :: "bool \<Rightarrow> ctx option \<Rightarrow> bool" where
  "ctx_ok logging x \<longleftrightarrow> (logging \<longrightarrow> (\<exists>c. x = Some c \<and> log_inv (x_log c) (x_disk c)))"

lemma log_write_ok:
  assumes "ctx_ok logging x" and "\<And>txn. wf_record (mk txn)"
  shows "\<exists>d' x'. log_write logging mk d x = Some (d', x') \<and> lsn_only d d' \<and> ctx_ok logging x' \<and> (\<not> logging \<longrightarrow> d' = d \<and> x' = x)"
proof (cases logging)
  case True
  then obtain c where c: "x = Some c" "log_inv (x_log c) (x_disk c)"
    using assms(1) by (auto simp: ctx_ok_def)
  then show ?thesis
    using AppendLogRecord_spec [OF c(2) assms(2), of "x_txn c"] True
    by (fastforce simp: log_write_def lsn_only_def ctx_ok_def)
qed (simp add: log_write_def lsn_only_def ctx_ok_def)

subsection \<open>Insert\<close>

lemma free_slot_spec:
  assumes "tp_inv d" and "unat slot + k = cnt d"
  shows "\<exists>s. free_slot k slot d = Some s \<and> unat s \<le> cnt d \<and> \<not> used d (unat s)"
  using assms(2)
proof (induction k arbitrary: slot)
  case 0
  then show ?case by (auto simp: used_def)
next
  case (Suc k)
  then have g: "GetTupleSize slot d = Some (sz d (unat slot))"
    using slot_get(2) [of d slot] slot_in_page [OF assms(1), of "unat slot"] tp_invD(1) [OF assms(1)] by simp
  have "unat (slot + 1) = unat slot + 1"
    using Suc.prems unat_add_less [of slot 1] unat_less_2p32 [of "GetTupleCount d"] by simp
  with Suc g show ?case by (auto simp: used_def)
qed

text \<open>The bytes \<^verbatim>\<open>InsertTuple\<close> writes: free space pointer, data, slot offset, slot size, tuple count.\<close>

definition put_bytes :: "nat \<Rightarrow> bytes \<Rightarrow> bytes \<Rightarrow> bytes" where
  "put_bytes s bs d =
     (let F = GetFreeSpacePointer d - of_nat (length bs);
          d1 = copy_at 16 (enc32 F) d;
          d2 = copy_at (unat F) bs d1;
          d3 = copy_at (24 + 8 * s) (enc32 F) d2;
          d4 = copy_at (28 + 8 * s) (enc32 (of_nat (length bs))) d3
      in if s = cnt d then copy_at 20 (enc32 (GetTupleCount d + 1)) d4 else d4)"

lemma put_bytes_fields:
  assumes inv: "tp_inv d" and s: "s \<le> cnt d" and room: "24 + 8 * cnt d + 8 + length bs \<le> fsp d"
  defines "d' \<equiv> put_bytes s bs d"
  shows "length d' = 4096" "fsp d' = fsp d - length bs" "cnt d' = (if s = cnt d then cnt d + 1 else cnt d)"
    "i < cnt d \<or> i = s \<Longrightarrow> so d' i = (if i = s then GetFreeSpacePointer d - of_nat (length bs) else so d i)"
    "i < cnt d \<or> i = s \<Longrightarrow> sz d' i = (if i = s then of_nat (length bs) else sz d i)"
    "fsp d \<le> k \<Longrightarrow> seg k n d' = seg k n d" "seg (fsp d - length bs) (length bs) d' = bs"
    "GetNextPageId d' = GetNextPageId d" "GetTablePageId d' = GetTablePageId d"
proof -
  have l: "length d = 4096" "fsp d \<le> 4096"
    using tp_invD [OF inv] by auto
  define F :: u32 where "F = GetFreeSpacePointer d - of_nat (length bs)"
  have N: "unat (of_nat (length bs) :: u32) = length bs"
    using room l by (intro unat_of_nat32) simp
  then have F: "unat F = fsp d - length bs"
    using room unat_sub_le [of "of_nat (length bs)" "GetFreeSpacePointer d"] by (simp add: F_def)
  define d1 where "d1 = copy_at 16 (enc32 F) d"
  define d2 where "d2 = copy_at (unat F) bs d1"
  define d3 where "d3 = copy_at (24 + 8 * s) (enc32 F) d2"
  define d4 where "d4 = copy_at (28 + 8 * s) (enc32 (of_nat (length bs))) d3"
  have d': "d' = (if s = cnt d then copy_at 20 (enc32 (GetTupleCount d + 1)) d4 else d4)"
    by (simp add: d'_def put_bytes_def Let_def d1_def d2_def d3_def d4_def F_def)
  have len: "length d1 = 4096" "length d2 = 4096" "length d3 = 4096" "length d4 = 4096"
    using l F room s by (simp_all add: d1_def d2_def d3_def d4_def)
  then show "length d' = 4096" by (simp add: d')
  have Fr: "32 + 8 * s \<le> unat F" "unat F + length bs \<le> 4096" "unat F + length bs = fsp d"
    using F room s l by auto
  note k1 = copy_keeps [OF l(1), of 16 "enc32 F", folded d1_def]
  note k2 = copy_keeps [OF len(1), of "unat F" bs, folded d2_def]
  note k3 = copy_keeps [OF len(2), of "24 + 8 * s" "enc32 F", folded d3_def]
  note k4 = copy_keeps [OF len(3), of "28 + 8 * s" "enc32 (of_nat (length bs))", folded d4_def]
  note k5 = copy_keeps [OF len(4), of 20 "enc32 (GetTupleCount d + 1)"]
  show "fsp d' = fsp d - length bs"
    using copy_sets(2) [OF l(1), of F] k2 k3 k4 k5 Fr F l by (simp add: d' d1_def)
  have c4: "GetTupleCount d4 = GetTupleCount d"
    using k1 k2 k3 k4 Fr l by simp
  have "unat (GetTupleCount d + 1) = cnt d + 1"
    using room l unat_add_less [of "GetTupleCount d" 1] by simp
  then show "cnt d' = (if s = cnt d then cnt d + 1 else cnt d)"
    using copy_sets(1) [OF len(4)] c4 by (simp add: d')
  show "so d' i = (if i = s then GetFreeSpacePointer d - of_nat (length bs) else so d i)" if "i < cnt d \<or> i = s"
  proof -
    have i: "32 + 8 * i \<le> unat F" using that room F s by auto
    have "so d' i = so d4 i" using k5(5) [of i] i Fr by (simp add: d')
    also have "\<dots> = (if i = s then F else so d2 i)"
      using slot_write(3) [OF len(3), of s i] slot_write(1) [OF len(2), of s i] i Fr by (simp add: d4_def d3_def)
    also have "so d2 i = so d i" using k1(5) [of i] k2(5) [of i] i Fr by simp
    finally show ?thesis by (simp add: F_def)
  qed
  show "sz d' i = (if i = s then of_nat (length bs) else sz d i)" if "i < cnt d \<or> i = s"
  proof -
    have i: "32 + 8 * i \<le> unat F" using that room F s by auto
    have "sz d' i = sz d4 i" using k5(6) [of i] i Fr by (simp add: d')
    also have "\<dots> = (if i = s then of_nat (length bs) else sz d2 i)"
      using slot_write(4) [OF len(3), of s i] slot_write(2) [OF len(2), of s i] i Fr by (simp add: d4_def d3_def)
    also have "sz d2 i = sz d i" using k1(6) [of i] k2(6) [of i] i Fr by simp
    finally show ?thesis .
  qed
  have hi: "unat F \<le> k \<Longrightarrow> seg k n d' = seg k n d2" for k n
    using seg_copy_at_other [of 20 "enc32 (GetTupleCount d + 1)" d4 k n]
      seg_copy_at_other [of "28 + 8 * s" "enc32 (of_nat (length bs))" d3 k n]
      seg_copy_at_other [of "24 + 8 * s" "enc32 F" d2 k n] len Fr
    by (cases "s = cnt d") (simp_all add: d' d4_def d3_def)
  show "seg k n d' = seg k n d" if "fsp d \<le> k"
    using hi [of k n] seg_copy_at_other [of "unat F" bs d1 k n] seg_copy_at_other [of 16 "enc32 F" d k n] that Fr len l
    by (simp add: d2_def d1_def)
  show "seg (fsp d - length bs) (length bs) d' = bs"
    using hi [of "unat F" "length bs"] seg_copy_at_same [of "unat F" bs d1] Fr len F by (simp add: d2_def)
  show "GetNextPageId d' = GetNextPageId d" "GetTablePageId d' = GetTablePageId d"
    using k1 k2 k3 k4 k5 Fr l by (simp_all add: d')
qed

lemma put_bytes_view:
  assumes inv: "tp_inv d" and s: "s \<le> cnt d" "\<not> used d s" and bs: "bs \<noteq> []"
    and room: "24 + 8 * cnt d + 8 + length bs \<le> fsp d"
  defines "d' \<equiv> put_bytes s bs d"
  shows "tp_inv d'" and "tp_view d' = (tp_view d)(s \<mapsto> (False, bs))"
proof -
  note f = put_bytes_fields [OF inv s(1) room, folded d'_def]
  note I = tp_invD [OF inv]
  have N: "unat (of_nat (length bs) :: u32) = length bs"
    using room I by (intro unat_of_nat32) simp
  then have small: "unat (of_nat (length bs) :: u32) < 2147483648" "of_nat (length bs) \<noteq> (0 :: u32)"
    using room I(3) bs by (auto simp: word_unat_eq_iff)
  have F: "unat (GetFreeSpacePointer d - of_nat (length bs)) = fsp d - length bs"
    using N room unat_sub_le [of "of_nat (length bs)" "GetFreeSpacePointer d"] by simp
  have ln_s: "ln d' s = length bs" "sz d' s = of_nat (length bs)" "lo d' s = fsp d - length bs"
    using f(4,5) [of s] small_noflag [OF small(1)] N F by (simp_all add: len_def Unset_noflag)
  have old: "so d' i = so d i" "sz d' i = sz d i" if "i < cnt d" "i \<noteq> s" for i
    using f(4,5) [of i] that by auto
  have u: "used d' i \<longleftrightarrow> used d i \<or> i = s" for i
  proof (cases "i = s")
    case True
    then show ?thesis using f(3) ln_s(2) small(2) s by (auto simp: used_def)
  next
    case False
    then have "i < cnt d' \<longleftrightarrow> i < cnt d"
      using f(3) by auto
    with False old(2) [of i] show ?thesis by (auto simp: used_def)
  qed
  have old_u: "so d' i = so d i" "sz d' i = sz d i" "i \<noteq> s" if "used d i" for i
    using that old [of i] s(2) by (auto simp: used_def)
  show "tp_inv d'"
    unfolding tp_inv_def
  proof (intro conjI allI impI)
    fix i assume "used d' i"
    then show "0 < ln d' i" "fsp d' \<le> lo d' i" "lo d' i + ln d' i \<le> 4096"
      using ln_s I(3) I(4-6) [of i] room f(2) bs old_u [of i] by (auto simp: u)
  next
    fix i j assume "used d' i" "used d' j" "i \<noteq> j"
    then show "lo d' i + ln d' i \<le> lo d' j \<or> lo d' j + ln d' j \<le> lo d' i"
      using ln_s I(5) [of i] I(5) [of j] I(7) [of i j] room old_u [of i] old_u [of j] by (auto simp: u)
  qed (use f I room s in auto)
  show "tp_view d' = (tp_view d)(s \<mapsto> (False, bs))"
  proof
    fix i
    show "tp_view d' i = ((tp_view d)(s \<mapsto> (False, bs))) i"
      using ln_s f(7) small_noflag [OF small(1)] old_u [of i] f(6) [of "lo d i" "ln d i"] I(5) [of i]
      by (auto simp: tp_view_def u)
  qed
qed

lemma setTuple_eq:
  assumes inv: "tp_inv d" and s: "unat s \<le> cnt d" and t: "wf_tuple t" and room: "24 + 8 * cnt d + 8 + length (t_data t) \<le> fsp d"
  shows "\<exists>d4. setTuple s t (SetFreeSpacePointer (GetFreeSpacePointer d - t_size t) d) = Some d4 \<and>
    (if s = GetTupleCount d4 then SetTupleCount (GetTupleCount d4 + 1) d4 else d4) = put_bytes (unat s) (t_data t) d"
proof -
  have sz: "t_size t = of_nat (length (t_data t))"
    using t by (simp add: wf_tuple_def)
  note I = tp_invD [OF inv]
  define F where "F = GetFreeSpacePointer d - t_size t"
  have F: "unat F = fsp d - length (t_data t)"
    using t room unat_sub_le [of "t_size t" "GetFreeSpacePointer d"] by (simp add: F_def wf_tuple_def)
  let ?d1 = "copy_at 16 (enc32 F) d"
  let ?d2 = "copy_at (unat F) (t_data t) ?d1"
  let ?d3 = "copy_at (24 + 8 * unat s) (enc32 F) ?d2"
  define d4 where "d4 = copy_at (28 + 8 * unat s) (enc32 (t_size t)) ?d3"
  have l: "length ?d1 = 4096" "length ?d2 = 4096" "length ?d3 = 4096"
    using I F room s by simp_all
  have so: "32 + 8 * unat s \<le> unat F"
    using F room s by simp
  then have st: "setTuple s t ?d1 = Some d4"
    using l copy_sets(2) [OF I(1), of F] slot_offsets [of s] F room I
    by (simp add: setTuple_def UInt32_Serialize_def d4_def)
  have c4: "GetTupleCount d4 = GetTupleCount d"
    using copy_keeps(1) [OF I(1), of 16 "enc32 F"] copy_keeps(1) [OF l(1), of "unat F" "t_data t"]
      copy_keeps(1) [OF l(2), of "24 + 8 * unat s" "enc32 F"] copy_keeps(1) [OF l(3), of "28 + 8 * unat s" "enc32 (t_size t)"]
      so F room I by (simp add: d4_def)
  have pb: "put_bytes (unat s) (t_data t) d = (if unat s = cnt d then copy_at 20 (enc32 (GetTupleCount d + 1)) d4 else d4)"
    by (simp add: put_bytes_def Let_def F_def sz [symmetric] d4_def)
  have "s = GetTupleCount d \<longleftrightarrow> unat s = cnt d"
    by (rule word_unat_eq_iff)
  with st c4 pb show ?thesis
    by (simp add: SetFreeSpacePointer_def SetTupleCount_def UInt32_Serialize_def F_def)
qed

lemma room_eq: "tp_inv d \<Longrightarrow> unat (getFreeSpaceRemaining d) = fsp d - 24 - 8 * cnt d"
proof -
  assume "tp_inv d"
  note I = tp_invD(1-3) [OF this]
  have "unat (8 * GetTupleCount d) = 8 * cnt d"
    using I unat_mult_less [of 8 "GetTupleCount d"] by simp
  moreover have "unat (GetFreeSpacePointer d - 24) = fsp d - 24"
    using I unat_sub_le [of 24 "GetFreeSpacePointer d"] by simp
  ultimately show ?thesis
    using I unat_sub_le [of "8 * GetTupleCount d" "GetFreeSpacePointer d - 24"] by (simp add: getFreeSpaceRemaining_def)
qed

lemma no_room_iff:
  assumes "tp_inv d" and "unat n < 4294967288"
  shows "getFreeSpaceRemaining d < n + sizeTuple \<longleftrightarrow> fsp d < 24 + 8 * cnt d + 8 + unat n"
  using assms room_eq [OF assms(1)] tp_invD(2) [OF assms(1)] unat_add_less [of n 8] by (auto simp: word_less_nat_alt)

lemma view_unused: "tp_view d i = None \<longleftrightarrow> \<not> used d i"
  by (simp add: tp_view_def)

lemma insert_body:
  assumes inv: "tp_inv d" and t: "wf_tuple t" "t_size t \<noteq> 0" and room: "24 + 8 * cnt d + 8 + unat (t_size t) \<le> fsp d"
    and s: "unat slot \<le> cnt d" "\<not> used d (unat slot)" and x: "ctx_ok logging x"
  defines "r \<equiv> RID_Set RID_zero (GetTablePageId d) slot"
  shows "\<exists>d4 d' x'. setTuple slot (t\<lparr>t_rid := Some r\<rparr>) (SetFreeSpacePointer (GetFreeSpacePointer d - t_size t) d) = Some d4 \<and>
     log_write logging (\<lambda>txn. NewLogRecordInsertDelete (txn_id txn) (prev_lsn txn) INSERT r (t\<lparr>t_rid := Some r\<rparr>))
       (if slot = GetTupleCount d4 then SetTupleCount (GetTupleCount d4 + 1) d4 else d4) x = Some (d', x') \<and>
     tp_inv d' \<and> ctx_ok logging x' \<and> tp_view d' = (tp_view d)(unat slot \<mapsto> (False, t_data t)) \<and>
     GetNextPageId d' = GetNextPageId d \<and> GetTablePageId d' = GetTablePageId d \<and> lsn_only (put_bytes (unat slot) (t_data t) d) d' \<and>
     (\<not> logging \<longrightarrow> x' = x)"
proof -
  have len: "length (t_data t) = unat (t_size t)"
    using t by (simp add: wf_tuple_def)
  then have ne: "t_data t \<noteq> []" and room': "24 + 8 * cnt d + 8 + length (t_data t) \<le> fsp d"
    using t(2) room by (auto simp: unat_eq_zero)
  let ?t = "t\<lparr>t_rid := Some r\<rparr>" and ?p = "put_bytes (unat slot) (t_data t) d"
  have wf: "wf_tuple ?t"
    using t by (simp add: wf_tuple_def)
  obtain d4 where d4: "setTuple slot ?t (SetFreeSpacePointer (GetFreeSpacePointer d - t_size t) d) = Some d4"
      "(if slot = GetTupleCount d4 then SetTupleCount (GetTupleCount d4 + 1) d4 else d4) = ?p"
    using setTuple_eq [OF inv s(1) wf] room' by auto
  have "wf_record (NewLogRecordInsertDelete (txn_id txn) (prev_lsn txn) INSERT r ?t)" for txn
    using wf room tp_invD(3) [OF inv] by (intro wf_record_InsertDelete) auto
  then obtain d' x' where l: "log_write logging (\<lambda>txn. NewLogRecordInsertDelete (txn_id txn) (prev_lsn txn) INSERT r ?t) ?p x = Some (d', x')"
      "lsn_only ?p d'" "ctx_ok logging x'" "\<not> logging \<longrightarrow> x' = x"
    using log_write_ok [OF x, of "\<lambda>txn. NewLogRecordInsertDelete (txn_id txn) (prev_lsn txn) INSERT r ?t" ?p] by blast
  note p = put_bytes_view [OF inv s ne room'] and f = put_bytes_fields [OF inv s(1) room']
  show ?thesis
    using d4 l p lsn_only_view [OF p(1) l(2)] lsn_only_fields [OF l(2) f(1)] f(8,9) by (auto intro!: exI [of _ d4])
qed

lemma lock_new_ok:
  "ctx_ok logging x \<Longrightarrow> \<exists>ok x'. lock_new logging r x = Some (ok, x') \<and> ctx_ok logging x' \<and> (\<not> logging \<longrightarrow> ok \<and> x' = x)"
  by (auto simp: lock_new_def ctx_ok_def with_lock_def split: prod.splits)

lemma lock_for_read_ok:
  "ctx_ok logging x \<Longrightarrow> \<exists>ok x'. lock_for_read logging r x = Some (ok, x') \<and> ctx_ok logging x' \<and> (\<not> logging \<longrightarrow> ok \<and> x' = x)"
  by (auto simp: lock_for_read_def ctx_ok_def with_lock_def split: prod.splits)

lemma InsertTuple_spec:
  assumes inv: "tp_inv d" and t: "wf_tuple t" "unat (t_size t) < 4294967288" and x: "ctx_ok logging x"
  shows "\<exists>res d' x'. InsertTuple logging t d x = Some (res, d', x') \<and> tp_inv d' \<and> ctx_ok logging x' \<and>
    GetNextPageId d' = GetNextPageId d \<and> GetTablePageId d' = GetTablePageId d \<and>
    (case res of
       Inl e \<Rightarrow> d' = d \<and> (case e of ErrEmptyTuple \<Rightarrow> t_size t = 0
         | ErrNotEnoughSpace \<Rightarrow> fsp d < 24 + 8 * cnt d + 8 + unat (t_size t) | ErrNoFreeSlot \<Rightarrow> False | ErrLock \<Rightarrow> logging)
     | Inr (r, t') \<Rightarrow> t_size t \<noteq> 0 \<and> PageId r = GetTablePageId d \<and> t' = t\<lparr>t_rid := Some r\<rparr> \<and>
         tp_view d (unat (SlotNum r)) = None \<and> tp_view d' = (tp_view d)(unat (SlotNum r) \<mapsto> (False, t_data t)))"
proof -
  note nr = no_room_iff [OF inv t(2)]
  consider (empty) "t_size t = 0" | (full) "t_size t \<noteq> 0" "getFreeSpaceRemaining d < t_size t + sizeTuple"
    | (ok) "t_size t \<noteq> 0" "\<not> getFreeSpaceRemaining d < t_size t + sizeTuple" by blast
  then show ?thesis
  proof cases
    case empty
    then show ?thesis using inv x by (simp add: InsertTuple_def)
  next
    case full
    then show ?thesis using inv x nr by (simp add: InsertTuple_def)
  next
    case ok
    obtain slot where s: "free_slot (cnt d) 0 d = Some slot" "unat slot \<le> cnt d" "\<not> used d (unat slot)"
      using free_slot_spec [OF inv, of 0 "cnt d"] by auto
    have slot: "free_slot (cnt d) 0 d = Some slot" "\<not> (GetTupleCount d = slot \<and> t_size t + sizeTuple > getFreeSpaceRemaining d)"
      using s ok by auto
    have room: "24 + 8 * cnt d + 8 + unat (t_size t) \<le> fsp d"
      using ok nr by simp
    define r where "r = RID_Set RID_zero (GetTablePageId d) slot"
    note body = insert_body [OF inv t(1) ok(1) room s(2,3), folded r_def]
    have r: "PageId r = GetTablePageId d" "SlotNum r = slot"
      by (simp_all add: r_def RID_Set_def)
    obtain locked x1 where l: "lock_new logging r x = Some (locked, x1)" "ctx_ok logging x1" "\<not> logging \<longrightarrow> locked \<and> x1 = x"
      using lock_new_ok [OF x] by blast
    show ?thesis
    proof (cases locked)
      case True
      with body [OF l(2)] l slot ok r s(3) show ?thesis
        by (auto simp: InsertTuple_def view_unused r_def [symmetric] Let_def)
    next
      case False
      with l slot ok inv show ?thesis
        by (auto simp: InsertTuple_def r_def [symmetric] Let_def)
    qed
  qed
qed

subsection \<open>Marking and unmarking\<close>

lemma set_size_view:
  assumes inv: "tp_inv d" and s: "used d s" and v: "v \<noteq> 0" "len v = ln d s"
  defines "d' \<equiv> copy_at (28 + 8 * s) (enc32 v) d"
  shows "tp_inv d'" and "tp_view d' = (tp_view d)(s \<mapsto> (bit v 31, seg (lo d s) (ln d s) d))"
    and "GetNextPageId d' = GetNextPageId d" and "GetTablePageId d' = GetTablePageId d"
proof -
  note I = tp_invD [OF inv]
  have s4: "32 + 8 * s \<le> 4096" "32 + 8 * s \<le> fsp d"
    using slot_in_page [OF inv] s by (auto simp: used_def)
  note k = copy_keeps [OF I(1), of "28 + 8 * s" "enc32 v", folded d'_def]
  have c: "GetTupleCount d' = GetTupleCount d" "GetFreeSpacePointer d' = GetFreeSpacePointer d" "length d' = 4096"
    using k s4 I(1) by (simp_all add: d'_def)
  show "GetNextPageId d' = GetNextPageId d" "GetTablePageId d' = GetTablePageId d"
    using k s4 by simp_all
  have f: "so d' i = so d i" "sz d' i = (if i = s then v else sz d i)" if "i < cnt d" for i
    using slot_write [OF I(1) s4(1), of i v] slot_in_page [OF inv that] by (simp_all add: d'_def)
  have u: "used d' i = used d i" for i
    using f(2) [of i] c v s by (cases "i = s") (auto simp: used_def)
  have ln: "used d i \<Longrightarrow> ln d' i = ln d i" "used d i \<Longrightarrow> so d' i = so d i" for i
    using f [of i] v by (auto simp: used_def)
  have sg: "seg q n d' = seg q n d" if "fsp d \<le> q" for q n
    using seg_copy_at_other [of "28 + 8 * s" "enc32 v" d q n] that s4 I by (simp add: d'_def)
  show "tp_inv d'"
    using inv c u ln by (simp add: tp_inv_def)
  show "tp_view d' = (tp_view d)(s \<mapsto> (bit v 31, seg (lo d s) (ln d s) d))"
  proof
    fix i
    show "tp_view d' i = ((tp_view d)(s \<mapsto> (bit v 31, seg (lo d s) (ln d s) d))) i"
      using u [of i] ln [of i] f(2) [of i] sg [of "lo d i" "ln d i"] I(5) [of i] s by (auto simp: tp_view_def used_def)
  qed
qed

lemma lock_for_write_ok:
  "ctx_ok logging x \<Longrightarrow> \<exists>ok x'. lock_for_write logging r x = Some (ok, x') \<and> ctx_ok logging x' \<and> (\<not> logging \<longrightarrow> ok \<and> x' = x)"
  by (auto simp: lock_for_write_def ctx_ok_def with_lock_def LockUpgrade_def split: prod.splits option.splits)

lemma abort_txn_ok: "ctx_ok logging x \<Longrightarrow> \<exists>x'. abort_txn logging x = Some x' \<and> ctx_ok logging x'"
  by (auto simp: abort_txn_def ctx_ok_def)

lemma slot_read:
  assumes "tp_inv d" and "unat slot < cnt d"
  shows "GetTupleSize slot d = Some (sz d (unat slot))" "GetTupleOffsetAtSlot slot d = Some (so d (unat slot))"
  using slot_get [of d slot] slot_in_page [OF assms] tp_invD(1) [OF assms(1)] by auto

lemma len_noflag: "\<not> bit w 31 \<Longrightarrow> len w = unat w"
  by (simp add: len_def Unset_noflag)

lemma wf_record_dummy:
  "ty \<in> {MARKDELETE, ROLLBACKDELETE} \<Longrightarrow> wf_record (NewLogRecordInsertDelete a l ty r tuple_zero)"
  by (rule wf_record_InsertDelete) (auto simp: wf_tuple_def tuple_zero_def)

lemma MarkDelete_spec:
  assumes inv: "tp_inv d" and x: "ctx_ok logging x"
  shows "\<exists>ok d' x'. MarkDelete logging r d x = Some (ok, d', x') \<and> tp_inv d' \<and> ctx_ok logging x' \<and>
    GetNextPageId d' = GetNextPageId d \<and> GetTablePageId d' = GetTablePageId d \<and>
    (if ok then \<exists>bs. tp_view d (unat (SlotNum r)) = Some (False, bs) \<and> tp_view d' = (tp_view d)(unat (SlotNum r) \<mapsto> (True, bs))
     else d' = d \<and> (logging \<or> (\<forall>bs. tp_view d (unat (SlotNum r)) \<noteq> Some (False, bs))))"
proof -
  let ?s = "unat (SlotNum r)" and ?w = "sz d (unat (SlotNum r))"
  obtain xa where xa: "abort_txn logging x = Some xa" "ctx_ok logging xa"
    using abort_txn_ok [OF x] by blast
  have lt: "SlotNum r \<ge> GetTupleCount d \<longleftrightarrow> \<not> ?s < cnt d"
    by (simp add: word_le_nat_alt not_less)
  consider (out) "\<not> ?s < cnt d" | (del) "?s < cnt d" "IsDeleted ?w" | (live) "?s < cnt d" "\<not> IsDeleted ?w" by blast
  then show ?thesis
  proof cases
    case out
    then show ?thesis using xa inv lt by (auto simp: MarkDelete_def GetSlotNum_def tp_view_def used_def)
  next
    case del
    then show ?thesis
      using xa inv lt slot_read [OF inv del(1)]
      by (auto simp: MarkDelete_def GetSlotNum_def Let_def tp_view_def used_def IsDeleted_iff)
  next
    case live
    obtain ok x1 where l: "lock_for_write logging r x = Some (ok, x1)" "ctx_ok logging x1" "\<not> logging \<longrightarrow> ok \<and> x1 = x"
      using lock_for_write_ok [OF x] by blast
    show ?thesis
    proof (cases ok)
      case False
      then show ?thesis
        using live l inv lt slot_read [OF inv live(1)] by (auto simp: MarkDelete_def GetSlotNum_def Let_def)
    next
      case True
      let ?mk = "\<lambda>txn. NewLogRecordInsertDelete (txn_id txn) (prev_lsn txn) MARKDELETE r tuple_zero"
      obtain d1 x2 where w: "log_write logging ?mk d x1 = Some (d1, x2)" "lsn_only d d1" "ctx_ok logging x2"
        using log_write_ok [OF l(2), of ?mk d] wf_record_dummy by blast
      note lv = lsn_only_view [OF inv w(2)] and lf = lsn_only_fields [OF w(2) tp_invD(1) [OF inv]]
      have s4: "32 + 8 * ?s \<le> 4096" using slot_in_page [OF inv live(1)] by simp
      have u: "used d ?s" "?w > 0"
        using live by (auto simp: used_def IsDeleted_iff word_gt_0)
      then have u1: "used d1 ?s" "sz d1 ?s = ?w" "so d1 ?s = so d ?s"
        using lf(2,6,7) s4 by (auto simp: used_def)
      have "ln d1 ?s = len (SetDeletedFlag ?w)"
        using u1 by (simp add: len_def Unset_Set)
      note sv = set_size_view [OF lv(1) u1(1), of "SetDeletedFlag ?w", OF Set_nonzero this [symmetric]]
      have "tp_view d ?s = Some (False, seg (lo d1 ?s) (ln d1 ?s) d1)"
        using u1 u live lv(2) by (metis IsDeleted_iff tp_view_def)
      moreover have "MarkDelete logging r d x = Some (True, copy_at (28 + 8 * ?s) (enc32 (SetDeletedFlag ?w)) d1, x2)"
        using live True l w lt slot_read [OF inv live(1)] u(2) slot_set(2) [OF lf(1) s4]
        by (simp add: MarkDelete_def GetSlotNum_def Let_def)
      ultimately show ?thesis
        using sv lv(2) lf(4,5) w(3) flag_bits(2) [of ?w] by auto
    qed
  qed
qed

lemma assert_exclusive_ok:
  "assert_exclusive logging r x = Some () \<longleftrightarrow> (logging \<longrightarrow> (\<exists>c. x = Some c \<and> IsExclusiveLocked (x_txn c) r))"
  by (auto simp: assert_exclusive_def bind_Some_iff)

lemma RollbackDelete_spec:
  assumes inv: "tp_inv d" and x: "ctx_ok logging x" and s: "tp_view d (unat (SlotNum r)) = Some (b, bs)"
    and lk: "assert_exclusive logging r x = Some ()"
  shows "\<exists>d' x'. RollbackDelete logging r d x = Some (d', x') \<and> tp_inv d' \<and> ctx_ok logging x' \<and>
    GetNextPageId d' = GetNextPageId d \<and> GetTablePageId d' = GetTablePageId d \<and>
    tp_view d' = (tp_view d)(unat (SlotNum r) \<mapsto> (False, bs))"
proof -
  let ?s = "unat (SlotNum r)" and ?w = "sz d (unat (SlotNum r))"
  let ?mk = "\<lambda>txn. NewLogRecordInsertDelete (txn_id txn) (prev_lsn txn) ROLLBACKDELETE r tuple_zero"
  obtain d1 x2 where w: "log_write logging ?mk d x = Some (d1, x2)" "lsn_only d d1" "ctx_ok logging x2"
    using log_write_ok [OF x, of ?mk d] wf_record_dummy by blast
  note lv = lsn_only_view [OF inv w(2)] and lf = lsn_only_fields [OF w(2) tp_invD(1) [OF inv]]
  have u: "used d ?s" "b = bit ?w 31" using s by (auto simp: tp_view_def split: if_splits)
  then have s4: "32 + 8 * ?s \<le> 4096" and lt: "SlotNum r < GetTupleCount d"
    using slot_in_page [OF inv, of ?s] by (auto simp: used_def word_less_nat_alt)
  have u1: "used d1 ?s" "sz d1 ?s = ?w"
    using lf(2,7) s4 u by (auto simp: used_def)
  have rd: "GetTupleSize (SlotNum r) d1 = Some ?w"
    using slot_read(1) [OF lv(1), of "SlotNum r"] u1 by (simp add: used_def)
  have v1: "tp_view d1 ?s = Some (b, bs)" using lv(2) s by simp
  then have bs: "bs = seg (lo d1 ?s) (ln d1 ?s) d1"
    using u1 by (simp add: tp_view_def)
  show ?thesis
  proof (cases b)
    case True
    then have del: "IsDeleted ?w" using u by (simp add: IsDeleted_iff)
    have L: "len (UnsetDeletedFlag ?w) = ln d1 ?s"
      using u1 flag_bits(1) [of ?w] by (simp add: len_def Unset_noflag)
    moreover have "UnsetDeletedFlag ?w \<noteq> 0"
      using tp_invD(4) [OF inv u(1)] by (auto simp: len_def)
    ultimately have sv: "tp_inv (copy_at (28 + 8 * ?s) (enc32 (UnsetDeletedFlag ?w)) d1)"
        "tp_view (copy_at (28 + 8 * ?s) (enc32 (UnsetDeletedFlag ?w)) d1) = (tp_view d1)(?s \<mapsto> (False, bs))"
        "GetNextPageId (copy_at (28 + 8 * ?s) (enc32 (UnsetDeletedFlag ?w)) d1) = GetNextPageId d1"
        "GetTablePageId (copy_at (28 + 8 * ?s) (enc32 (UnsetDeletedFlag ?w)) d1) = GetTablePageId d1"
      using set_size_view [OF lv(1) u1(1), of "UnsetDeletedFlag ?w"] flag_bits(1) [of ?w] bs by auto
    have "RollbackDelete logging r d x = Some (copy_at (28 + 8 * ?s) (enc32 (UnsetDeletedFlag ?w)) d1, x2)"
      using lk w lt rd del slot_set(2) [OF lf(1) s4] lf(2) by (simp add: RollbackDelete_def GetSlotNum_def Let_def)
    with sv lv lf(4,5) w(3) show ?thesis by auto
  next
    case False
    then have "\<not> IsDeleted ?w" using u by (auto simp: IsDeleted_iff used_def)
    then have "RollbackDelete logging r d x = Some (d1, x2)"
      using lk w lt rd lf(2) by (simp add: RollbackDelete_def GetSlotNum_def Let_def)
    with lv lf(4,5) w(3) s False show ?thesis by (auto simp: fun_upd_idem)
  qed
qed

subsection \<open>Moving tuples\<close>

lemma shift_offsets_spec:
  assumes "length d = 4096" and "24 + 8 * n \<le> 4096" and "\<forall>s \<in> set iis. unat s < n" and "distinct iis"
  shows "\<exists>d'. shift_offsets iis bound delta d = Some d' \<and> length d' = 4096 \<and>
    (\<forall>i. 32 + 8 * i \<le> 4096 \<longrightarrow> sz d' i = sz d i \<and>
       so d' i = (if i \<in> unat ` set iis \<and> sz d i \<noteq> 0 \<and> so d i < bound then so d i + delta else so d i)) \<and>
    GetTupleCount d' = GetTupleCount d \<and> GetFreeSpacePointer d' = GetFreeSpacePointer d \<and>
    GetNextPageId d' = GetNextPageId d \<and> GetTablePageId d' = GetTablePageId d \<and>
    (\<forall>q m. 24 + 8 * n \<le> q \<longrightarrow> seg q m d' = seg q m d)"
  using assms
proof (induction iis arbitrary: d)
  case (Cons s iis)
  have s: "unat s < n" "32 + 8 * unat s \<le> 4096"
    using Cons.prems by auto
  let ?c = "sz d (unat s) \<noteq> 0 \<and> so d (unat s) < bound"
  define d1 where "d1 = (if ?c then copy_at (24 + 8 * unat s) (enc32 (so d (unat s) + delta)) d else d)"
  note k = copy_keeps [OF Cons.prems(1), of "24 + 8 * unat s" "enc32 (so d (unat s) + delta)"]
  have d1: "length d1 = 4096" "GetTupleCount d1 = GetTupleCount d" "GetFreeSpacePointer d1 = GetFreeSpacePointer d"
      "GetNextPageId d1 = GetNextPageId d" "GetTablePageId d1 = GetTablePageId d"
    using k s Cons.prems by (auto simp: d1_def)
  have sg: "seg q m d1 = seg q m d" if "24 + 8 * n \<le> q" for q m
    using seg_copy_at_other [of "24 + 8 * unat s" "enc32 (so d (unat s) + delta)" d q m] that s Cons.prems(1)
    by (auto simp: d1_def)
  have f: "sz d1 i = sz d i" "so d1 i = (if i = unat s \<and> ?c then so d i + delta else so d i)" if "32 + 8 * i \<le> 4096" for i
    using slot_write [OF Cons.prems(1) s(2) that] by (auto simp: d1_def)
  have step: "shift_offsets (s # iis) bound delta d = shift_offsets iis bound delta d1"
    using slot_get [OF Cons.prems(1) s(2)] slot_set [OF Cons.prems(1) s(2)]
    by (simp add: d1_def word_gt_0)
  obtain d' where d': "shift_offsets iis bound delta d1 = Some d'" "length d' = 4096"
      "\<forall>i. 32 + 8 * i \<le> 4096 \<longrightarrow> sz d' i = sz d1 i \<and>
       so d' i = (if i \<in> unat ` set iis \<and> sz d1 i \<noteq> 0 \<and> so d1 i < bound then so d1 i + delta else so d1 i)"
      "GetTupleCount d' = GetTupleCount d1 \<and> GetFreeSpacePointer d' = GetFreeSpacePointer d1 \<and>
       GetNextPageId d' = GetNextPageId d1 \<and> GetTablePageId d' = GetTablePageId d1"
      "\<forall>q m. 24 + 8 * n \<le> q \<longrightarrow> seg q m d' = seg q m d1"
    using Cons.IH [OF d1(1) Cons.prems(2)] Cons.prems(3,4) by auto
  have ns: "unat s \<notin> unat ` set iis"
    using Cons.prems(4) by (auto simp: word_unat_eq_iff [symmetric])
  have "sz d' i = sz d i \<and>
       so d' i = (if i \<in> unat ` set (s # iis) \<and> sz d i \<noteq> 0 \<and> so d i < bound then so d i + delta else so d i)"
    if "32 + 8 * i \<le> 4096" for i
    using d'(3) f [OF that] that ns by (cases "i = unat s") auto
  with d' d1 sg step show ?case by auto
qed simp

lemma all_slots_ok:
  assumes "24 + 8 * cnt d \<le> 4096"
  shows "\<forall>s \<in> set (all_slots d). unat s < cnt d" "distinct (all_slots d)" "unat ` set (all_slots d) = {..<cnt d}"
proof -
  have u: "unat (of_nat i :: u32) = i" if "i < cnt d" for i
    using that assms by (intro unat_of_nat32) simp
  then show "\<forall>s \<in> set (all_slots d). unat s < cnt d"
    by (auto simp: all_slots_def)
  have "inj_on (of_nat :: nat \<Rightarrow> u32) {0..<cnt d}"
    using u by (metis atLeastLessThan_iff inj_onI)
  then show "distinct (all_slots d)"
    by (simp add: all_slots_def distinct_map)
  show "unat ` set (all_slots d) = {..<cnt d}"
    using u by (force simp: all_slots_def)
qed

text \<open>Replacing the tuple of slot \<open>s\<close> by \<open>bs\<close> (by nothing if \<open>bs\<close> is empty): the tuples below it have moved
  by the difference of the sizes.\<close>

definition moved :: "nat \<Rightarrow> bytes \<Rightarrow> bytes \<Rightarrow> bytes \<Rightarrow> bool" where
  "moved s bs d d' \<longleftrightarrow> length d' = 4096 \<and> cnt d' = cnt d \<and> fsp d' = fsp d + ln d s - length bs \<and>
     (\<forall>i < cnt d. i \<noteq> s \<longrightarrow> sz d' i = sz d i \<and>
        (sz d i \<noteq> 0 \<longrightarrow> lo d' i = (if lo d i < lo d s then lo d i + ln d s - length bs else lo d i))) \<and>
     (if bs = [] then sz d' s = 0
      else sz d' s = of_nat (length bs) \<and> lo d' s = lo d s + ln d s - length bs \<and>
        seg (lo d s + ln d s - length bs) (length bs) d' = bs) \<and>
     (\<forall>q m. fsp d \<le> q \<longrightarrow> q + m \<le> lo d s \<longrightarrow> seg (q + ln d s - length bs) m d' = seg q m d) \<and>
     (\<forall>q m. lo d s + ln d s \<le> q \<longrightarrow> seg q m d' = seg q m d)"

lemma moved_view:
  assumes inv: "tp_inv d" and s: "used d s" and room: "24 + 8 * cnt d + length bs \<le> fsp d + ln d s"
    and m: "moved s bs d d'"
  shows "tp_inv d'" and "tp_view d' = (tp_view d)(s := if bs = [] then None else Some (False, bs))"
proof -
  note I = tp_invD [OF inv]
  have m1: "length d' = 4096" "cnt d' = cnt d" "fsp d' = fsp d + ln d s - length bs"
    and mo: "\<And>i. i < cnt d \<Longrightarrow> i \<noteq> s \<Longrightarrow> sz d' i = sz d i"
      "\<And>i. i < cnt d \<Longrightarrow> i \<noteq> s \<Longrightarrow> sz d i \<noteq> 0 \<Longrightarrow> lo d' i = (if lo d i < lo d s then lo d i + ln d s - length bs else lo d i)"
    and ms: "bs = [] \<Longrightarrow> sz d' s = 0" "bs \<noteq> [] \<Longrightarrow> sz d' s = of_nat (length bs)"
      "bs \<noteq> [] \<Longrightarrow> lo d' s = lo d s + ln d s - length bs" "bs \<noteq> [] \<Longrightarrow> seg (lo d s + ln d s - length bs) (length bs) d' = bs"
    and mb: "\<And>q m. fsp d \<le> q \<Longrightarrow> q + m \<le> lo d s \<Longrightarrow> seg (q + ln d s - length bs) m d' = seg q m d"
      "\<And>q m. lo d s + ln d s \<le> q \<Longrightarrow> seg q m d' = seg q m d"
    using m by (auto simp: moved_def split: if_splits)
  note S = I(4-6) [OF s]
  have N: "unat (of_nat (length bs) :: u32) = length bs"
    using room S I(3) by (intro unat_of_nat32) simp
  have small: "\<not> bit (of_nat (length bs) :: u32) 31"
    using N room S I(3) by (intro small_noflag) simp
  have ls: "bs \<noteq> [] \<Longrightarrow> ln d' s = length bs"
    using ms(2) N small by (simp add: len_noflag)
  have us: "used d' s \<longleftrightarrow> bs \<noteq> []"
    using ms(1,2) N s m1(2) by (cases "bs = []") (auto simp: used_def word_unat_eq_iff)
  have uo: "used d' i \<longleftrightarrow> used d i" if "i \<noteq> s" for i
    using mo(1) that m1(2) by (auto simp: used_def)
  have lo: "lo d' i = (if lo d i < lo d s then lo d i + ln d s - length bs else lo d i)" "ln d' i = ln d i"
    "lo d i + ln d i \<le> lo d s \<and> lo d i < lo d s \<or> lo d s + ln d s \<le> lo d i \<and> \<not> lo d i < lo d s"
    "fsp d \<le> lo d i" "lo d i + ln d i \<le> 4096" "0 < ln d i" if "i \<noteq> s" "used d i" for i
    using mo [of i] that I(7) [OF that(2) s that(1)] I(4-6) [OF that(2)] S by (auto simp: used_def)
  show "tp_inv d'"
    unfolding tp_inv_def
  proof (intro conjI allI impI)
    fix i assume i: "used d' i"
    show "0 < ln d' i" "fsp d' \<le> lo d' i" "lo d' i + ln d' i \<le> 4096"
      using i us ls ms(3) m1 S room lo(1,2,4,5,6) [of i] lo(3) [of i] uo [of i] by (cases "i = s"; force split: if_splits)+
  next
    fix i j assume ij: "used d' i" "used d' j" "i \<noteq> j"
    show "lo d' i + ln d' i \<le> lo d' j \<or> lo d' j + ln d' j \<le> lo d' i"
    proof (cases "i = s \<or> j = s")
      case True
      then show ?thesis
        using ij us ls ms(3) room S lo(1,2,4) [of i] lo(3) [of i] lo(1,2,4) [of j] lo(3) [of j] uo [of i] uo [of j]
        by (auto split: if_splits)
    next
      case False
      then show ?thesis
        using ij I(7) [of i j] lo(1,2) [of i] lo(3) [of i] lo(1,2) [of j] lo(3) [of j] uo [of i] uo [of j] room
          lo(4) [of i] lo(4) [of j]
        by (auto split: if_splits)
    qed
  qed (use m1 I S room in auto)
  show "tp_view d' = (tp_view d)(s := if bs = [] then None else Some (False, bs))"
  proof
    fix i
    show "tp_view d' i = ((tp_view d)(s := if bs = [] then None else Some (False, bs))) i"
    proof (cases "i = s")
      case True
      then show ?thesis using us ms ls small by (auto simp: tp_view_def)
    next
      case False
      show ?thesis
      proof (cases "used d i")
        case u: True
        have "seg (lo d' i) (ln d i) d' = seg (lo d i) (ln d i) d"
          using lo(1) [OF False u] lo(3) [OF False u] lo(4) [OF False u] mb(1) [of "lo d i" "ln d i"] mb(2) [of "lo d i" "ln d i"]
          by auto
        then show ?thesis
          using False u uo [OF False] lo(2) [OF False u] mo(1) [of i] by (simp add: tp_view_def used_def)
      qed (use uo [OF False] False in \<open>simp add: tp_view_def\<close>)
    qed
  qed
qed

text \<open>The bytes after the two copies of \<^verbatim>\<open>UpdateTuple\<close> (with \<open>bs = []\<close>, the one of \<^verbatim>\<open>ApplyDelete\<close>).\<close>

lemma move_bytes:
  assumes inv: "tp_inv d" and s: "used d s" and room: "24 + 8 * cnt d + length bs \<le> fsp d + ln d s"
  defines "f' \<equiv> fsp d + ln d s - length bs"
  defines "d1 \<equiv> copy_at f' (seg (fsp d) (lo d s - fsp d) d) d"
  defines "d2 \<equiv> copy_at (lo d s + ln d s - length bs) bs d1"
  shows "length d1 = 4096" "length d2 = 4096"
    and "fsp d \<le> q \<Longrightarrow> q + m \<le> lo d s \<Longrightarrow> seg (q + ln d s - length bs) m d2 = seg q m d"
    and "lo d s + ln d s \<le> q \<Longrightarrow> seg q m d2 = seg q m d"
    and "seg (lo d s + ln d s - length bs) (length bs) d2 = bs"
    and "q + m \<le> 24 + 8 * cnt d \<Longrightarrow> seg q m d1 = seg q m d" and "q + m \<le> 24 + 8 * cnt d \<Longrightarrow> seg q m d2 = seg q m d"
proof -
  note I = tp_invD [OF inv] and S = tp_invD(4-6) [OF inv s]
  let ?src = "seg (fsp d) (lo d s - fsp d) d"
  have ls: "length ?src = lo d s - fsp d"
    using I S by simp
  have e: "f' + length ?src = lo d s + ln d s - length bs" "lo d s + ln d s - length bs + length bs = lo d s + ln d s"
      "24 + 8 * cnt d \<le> f'" "f' + length ?src \<le> 4096" "f' + length ?src \<le> length d"
    unfolding ls f'_def using S room I by auto
  show l1: "length d1 = 4096"
    unfolding d1_def using e(5) I(1) by simp
  show l2: "length d2 = 4096"
    unfolding d2_def using l1 S e by simp
  have w2: "seg q m d2 = seg q m d1" if "q + m \<le> lo d s + ln d s - length bs \<or> lo d s + ln d s \<le> q" for q m
    unfolding d2_def using that l1 e S by (intro seg_copy_at_other) auto
  have w1: "seg q m d1 = seg q m d" if "q + m \<le> f' \<or> lo d s + ln d s - length bs \<le> q" for q m
    unfolding d1_def using that e by (intro seg_copy_at_other) auto
  show "seg q m d1 = seg q m d" if "q + m \<le> 24 + 8 * cnt d"
    using that e w1 [of q m] by auto
  show "seg q m d2 = seg q m d" if "q + m \<le> 24 + 8 * cnt d"
    using that e w1 [of q m] w2 [of q m] by auto
  show "seg q m d2 = seg q m d" if "lo d s + ln d s \<le> q"
  proof -
    have "lo d s + ln d s - length bs \<le> q" using that by linarith
    with that w1 [of q m] w2 [of q m] show ?thesis by simp
  qed
  show "seg (lo d s + ln d s - length bs) (length bs) d2 = bs"
    unfolding d2_def using l1 e S by (intro seg_copy_at_same) auto
  show "seg (q + ln d s - length bs) m d2 = seg q m d" if "fsp d \<le> q" "q + m \<le> lo d s"
  proof -
    have "q + ln d s - length bs + m \<le> lo d s + ln d s - length bs"
      using that room S by auto
    moreover have eq: "q + ln d s - length bs = f' + (q - fsp d)"
      using that room by (auto simp: f'_def)
    ultimately have "seg (f' + (q - fsp d)) m d2 = seg (f' + (q - fsp d)) m d1"
      using w2 by metis
    also have "seg (f' + (q - fsp d)) m d1 = seg (q - fsp d) m (seg f' (length ?src) d1)"
      using that ls by (intro seg_within [symmetric]) auto
    also have "seg f' (length ?src) d1 = ?src"
      unfolding d1_def using e by (intro seg_copy_at_same) simp
    also have "seg (q - fsp d) m ?src = seg (fsp d + (q - fsp d)) m d"
      using that by (intro seg_within) auto
    finally show ?thesis using that eq by simp
  qed
qed

lemma fields_of_seg:
  assumes "length d = 4096" "length d' = 4096" "24 + 8 * n \<le> 4096" and "\<forall>q m. q + m \<le> 24 + 8 * n \<longrightarrow> seg q m d' = seg q m d"
  shows "GetTupleCount d' = GetTupleCount d" "GetNextPageId d' = GetNextPageId d" "GetTablePageId d' = GetTablePageId d"
    "GetFreeSpacePointer d' = GetFreeSpacePointer d" "i < n \<Longrightarrow> so d' i = so d i" "i < n \<Longrightarrow> sz d' i = sz d i"
proof -
  have e: "dec32 (drop k d') = dec32 (drop k d)" if "k + 4 \<le> 24 + 8 * n" for k
    using assms that by (intro c32.field_seg) auto
  show "GetTupleCount d' = GetTupleCount d" "GetNextPageId d' = GetNextPageId d" "GetTablePageId d' = GetTablePageId d"
    "GetFreeSpacePointer d' = GetFreeSpacePointer d"
    using e [of 20] e [of 12] e [of 0] e [of 16] by (simp_all add: header_defs)
  show "i < n \<Longrightarrow> so d' i = so d i" "i < n \<Longrightarrow> sz d' i = sz d i"
    using e [of "24 + 8 * i"] e [of "28 + 8 * i"] by (simp_all add: so_def sz_def)
qed

lemma finish_move:
  assumes inv: "tp_inv d" and s: "used d s" and room: "24 + 8 * cnt d + length bs \<le> fsp d + ln d s"
    and len: "length d3 = 4096" and c: "GetTupleCount d3 = GetTupleCount d" and f: "fsp d3 = fsp d + ln d s - length bs"
    and o: "\<And>i. i < cnt d \<Longrightarrow> i \<noteq> s \<Longrightarrow> so d3 i = so d i \<and> sz d3 i = sz d i"
    and sl: "if bs = [] then sz d3 s = 0 else sz d3 s = of_nat (length bs) \<and> so d3 s = so d s"
    and sg: "\<And>q m. fsp d \<le> q \<Longrightarrow> q + m \<le> lo d s \<Longrightarrow> seg (q + ln d s - length bs) m d3 = seg q m d"
      "\<And>q m. lo d s + ln d s \<le> q \<Longrightarrow> seg q m d3 = seg q m d" "seg (lo d s + ln d s - length bs) (length bs) d3 = bs"
    and ts: "unat ts = ln d s"
    and bd: "\<And>i. i < cnt d \<Longrightarrow> sz d3 i \<noteq> 0 \<Longrightarrow> so d3 i < bound \<longleftrightarrow> i = s \<or> lo d i < lo d s"
  shows "\<exists>d'. shift_offsets (all_slots d3) bound (ts - of_nat (length bs)) d3 = Some d' \<and> moved s bs d d' \<and>
    GetNextPageId d' = GetNextPageId d3 \<and> GetTablePageId d' = GetTablePageId d3"
proof -
  note I = tp_invD [OF inv] and S = tp_invD(4-6) [OF inv s]
  let ?D = "ts - of_nat (length bs)"
  have n: "24 + 8 * cnt d \<le> 4096" "24 + 8 * cnt d3 \<le> 4096" "s < cnt d"
    using I c s by (auto simp: used_def)
  note as = all_slots_ok [OF n(2)]
  obtain d' where d': "shift_offsets (all_slots d3) bound ?D d3 = Some d'" "length d' = 4096"
      "\<forall>i. 32 + 8 * i \<le> 4096 \<longrightarrow> sz d' i = sz d3 i \<and>
       so d' i = (if i \<in> unat ` set (all_slots d3) \<and> sz d3 i \<noteq> 0 \<and> so d3 i < bound then so d3 i + ?D else so d3 i)"
      "GetTupleCount d' = GetTupleCount d3 \<and> GetFreeSpacePointer d' = GetFreeSpacePointer d3 \<and>
       GetNextPageId d' = GetNextPageId d3 \<and> GetTablePageId d' = GetTablePageId d3"
      "\<forall>q m. 24 + 8 * cnt d3 \<le> q \<longrightarrow> seg q m d' = seg q m d3"
    using shift_offsets_spec [OF len n(2) as(1,2), of bound ?D] by blast
  have fld: "sz d' i = sz d3 i" "so d' i = (if sz d3 i \<noteq> 0 \<and> (i = s \<or> lo d i < lo d s) then so d3 i + ?D else so d3 i)" if "i < cnt d" for i
    using d'(3) bd [OF that] that n(1) as(3) c by auto
  have N: "unat (of_nat (length bs) :: u32) = length bs"
    using room S I(3) by (intro unat_of_nat32) simp
  have shift: "unat (so d i + ?D) = lo d i + ln d s - length bs" if "used d i" for i
    using unat_shift [of "so d i" ts "of_nat (length bs)"] ts N I(5,6) [OF that] I(3) S room by simp
  have seg': "seg q m d' = seg q m d3" if "24 + 8 * cnt d \<le> q" for q m
    using d'(5) that c by simp
  have bs: "24 + 8 * cnt d \<le> lo d s + ln d s - length bs"
    using room S by linarith
  have "moved s bs d d'"
    unfolding moved_def
  proof (intro conjI allI impI)
    fix i assume i: "i < cnt d" "i \<noteq> s"
    show "sz d' i = sz d i" using fld(1) [OF i(1)] o [OF i] by simp
    assume "sz d i \<noteq> 0"
    then show "lo d' i = (if lo d i < lo d s then lo d i + ln d s - length bs else lo d i)"
      using fld(2) [OF i(1)] o [OF i] i shift [of i] by (auto simp: used_def)
  next
    show "if bs = [] then sz d' s = 0 else sz d' s = of_nat (length bs) \<and> lo d' s = lo d s + ln d s - length bs \<and>
        seg (lo d s + ln d s - length bs) (length bs) d' = bs"
    proof (cases "bs = []")
      case False
      then have "of_nat (length bs) \<noteq> (0 :: u32)"
        using N by (auto simp: word_unat_eq_iff)
      then show ?thesis
        using False sl fld [OF n(3)] shift [OF s] sg(3) seg' [OF bs, of "length bs"] by simp
    qed (use sl fld [OF n(3)] in simp)
  next
    fix q m assume q: "fsp d \<le> q" "q + m \<le> lo d s"
    have "24 + 8 * cnt d \<le> q + ln d s - length bs"
      using q room by linarith
    then show "seg (q + ln d s - length bs) m d' = seg q m d"
      using seg' sg(1) [OF q] by simp
  next
    fix q m assume "lo d s + ln d s \<le> q"
    then show "seg q m d' = seg q m d"
      using seg' [of q m] sg(2) [of q m] I S by simp
  qed (use d' c f in auto)
  with d' show ?thesis by blast
qed

lemma replace_tuple_spec:
  assumes inv: "tp_inv d" and s: "used d s" "unat slot = s" and nf: "\<not> bit (sz d s) 31" and u: "wf_tuple u" "t_size u \<noteq> 0"
    and room: "24 + 8 * cnt d + unat (t_size u) \<le> fsp d + ln d s"
  shows "\<exists>d'. replace_tuple slot (so d s) (sz d s) u d = Some d' \<and> tp_inv d' \<and> tp_view d' = (tp_view d)(s \<mapsto> (False, t_data u)) \<and>
    GetNextPageId d' = GetNextPageId d \<and> GetTablePageId d' = GetTablePageId d"
proof -
  note I = tp_invD [OF inv] and S = tp_invD(4-6) [OF inv s(1)]
  let ?bs = "t_data u"
  have bs: "length ?bs = unat (t_size u)" "?bs \<noteq> []" "of_nat (length ?bs) = t_size u"
    using u by (auto simp: wf_tuple_def unat_eq_zero)
  have room': "24 + 8 * cnt d + length ?bs \<le> fsp d + ln d s" using room bs by simp
  have ts: "unat (sz d s) = ln d s" using nf by (simp add: len_noflag)
  define F where "F = GetFreeSpacePointer d + sz d s - t_size u"
  have F: "unat F = fsp d + ln d s - length ?bs"
    using unat_shift [of "GetFreeSpacePointer d" "sz d s" "t_size u"] ts bs room S I by (simp add: F_def add_diff_eq)
  have P: "unat (so d s + sz d s - t_size u) = lo d s + ln d s - length ?bs"
    using unat_shift [of "so d s" "sz d s" "t_size u"] ts bs room S I by (simp add: add_diff_eq)
  have B: "unat (so d s + sz d s) = lo d s + ln d s"
    using unat_add_less [of "so d s" "sz d s"] ts S by simp
  let ?d1 = "copy_at (unat F) (seg (fsp d) (lo d s - fsp d) d) d"
  let ?d2 = "copy_at (lo d s + ln d s - length ?bs) ?bs ?d1"
  note M = move_bytes [OF inv s(1) room', folded F]
  define dF where "dF = copy_at 16 (enc32 F) ?d2"
  have s4: "32 + 8 * s \<le> 4096" "28 + 8 * s + 4 \<le> 24 + 8 * cnt d" "s < cnt d"
    using slot_in_page [OF inv, of s] s by (auto simp: used_def)
  have lF: "length dF = 4096" using M(2) by (simp add: dF_def)
  define d3 where "d3 = copy_at (28 + 8 * s) (enc32 (t_size u)) dF"
  have l3: "length d3 = 4096" using lF s4 by (simp add: d3_def)
  have n4: "24 + 8 * cnt d \<le> 4096" using I by simp
  have "\<forall>q m. q + m \<le> 24 + 8 * cnt d \<longrightarrow> seg q m ?d2 = seg q m d"
    using M(7) by blast
  note f2 = fields_of_seg [OF I(1) M(2) n4 this]
  note kF = copy_keeps [OF M(2), of 16 "enc32 F", folded dF_def] and k3 = copy_keeps [OF lF, of "28 + 8 * s" "enc32 (t_size u)", folded d3_def]
  have c3: "GetTupleCount d3 = GetTupleCount d" "GetNextPageId d3 = GetNextPageId d" "GetTablePageId d3 = GetTablePageId d"
    using kF k3 f2(1-3) s4 by simp_all
  have fs3: "GetFreeSpacePointer d3 = F"
    using k3 copy_sets(2) [OF M(2), of F] s4 by (simp add: dF_def)
  have sl3: "so d3 i = so d i" "sz d3 i = (if i = s then t_size u else sz d i)" if "i < cnt d" for i
    using slot_write(3,4) [OF lF s4(1), of i "t_size u"] kF(5,6) [of i] f2(5,6) [OF that] that n4 by (auto simp: d3_def)
  have sg3: "seg q m d3 = seg q m ?d2" if "24 + 8 * cnt d \<le> q" for q m
    using seg_copy_at_other [of "28 + 8 * s" "enc32 (t_size u)" dF q m] seg_copy_at_other [of 16 "enc32 F" ?d2 q m] that s4 lF M(2)
    by (simp add: d3_def dF_def)
  have "\<exists>d'. shift_offsets (all_slots d3) (so d s + sz d s) (sz d s - of_nat (length ?bs)) d3 = Some d' \<and> moved s ?bs d d' \<and>
      GetNextPageId d' = GetNextPageId d3 \<and> GetTablePageId d' = GetTablePageId d3"
  proof (rule finish_move [OF inv s(1) room' l3 c3(1)])
    show "fsp d3 = fsp d + ln d s - length ?bs" using fs3 F by simp
    show "if ?bs = [] then sz d3 s = 0 else sz d3 s = of_nat (length ?bs) \<and> so d3 s = so d s"
      using bs sl3 [OF s4(3)] by simp
    show "so d3 i < so d s + sz d s \<longleftrightarrow> i = s \<or> lo d i < lo d s" if "i < cnt d" "sz d3 i \<noteq> 0" for i
    proof (cases "i = s")
      case False
      then have "used d i" using that sl3 [OF that(1)] by (auto simp: used_def)
      with False I(7) [OF _ s(1), of i] I(4) [of i] S B sl3 [OF that(1)] show ?thesis by (auto simp: word_less_nat_alt)
    qed (use sl3 [OF s4(3)] B S in \<open>simp add: word_less_nat_alt\<close>)
    show "seg (q + ln d s - length ?bs) m d3 = seg q m d" if q: "fsp d \<le> q" "q + m \<le> lo d s" for q m
    proof -
      have "24 + 8 * cnt d \<le> q + ln d s - length ?bs" using q room' by linarith
      then show ?thesis using sg3 M(3) [OF q] by simp
    qed
    have "24 + 8 * cnt d \<le> lo d s + ln d s - length ?bs" using room' S by linarith
    then show "seg (lo d s + ln d s - length ?bs) (length ?bs) d3 = ?bs" using sg3 M(5) by simp
    show "seg q m d3 = seg q m d" if "lo d s + ln d s \<le> q" for q m
      using sg3 [of q m] M(4) [OF that] that S I by simp
  qed (use sl3 ts in auto)
  then obtain d' where d': "shift_offsets (all_slots d3) (so d s + sz d s) (sz d s - t_size u) d3 = Some d'" "moved s ?bs d d'"
      "GetNextPageId d' = GetNextPageId d3" "GetTablePageId d' = GetTablePageId d3"
    using bs(3) by auto
  have cm: "copy_at (lo d s + ln d s - length ?bs) ?bs (copy_at 16 (enc32 F) ?d1) = dF"
    unfolding dF_def using M(1) S room' by (intro copy_at_commute) auto
  have "replace_tuple slot (so d s) (sz d s) u d = Some d'"
    using S I F P bs M(1) cm d'(1) slot_set(2) [OF lF, of slot "t_size u"] s(2) s4 lF room'
    by (simp add: replace_tuple_def Let_def F_def [symmetric] SetFreeSpacePointer_def UInt32_Serialize_def word_le_nat_alt d3_def)
  then show ?thesis
    using moved_view [OF inv s(1) room' d'(2)] bs(2) d'(3,4) c3 by simp
qed

lemma compact_spec:
  assumes inv: "tp_inv d" and s: "used d s" "unat slot = s"
  shows "\<exists>d'. compact slot (so d s) (UnsetDeletedFlag (sz d s)) d = Some d' \<and> tp_inv d' \<and> tp_view d' = (tp_view d)(s := None) \<and>
    GetNextPageId d' = GetNextPageId d \<and> GetTablePageId d' = GetTablePageId d"
proof -
  note I = tp_invD [OF inv] and S = tp_invD(4-6) [OF inv s(1)]
  define ts where "ts = UnsetDeletedFlag (sz d s)"
  have ts: "unat ts = ln d s" by (simp add: ts_def len_def)
  have room: "24 + 8 * cnt d + length ([] :: bytes) \<le> fsp d + ln d s" using I by simp
  define F where "F = GetFreeSpacePointer d + ts"
  have F: "unat F = fsp d + ln d s - length ([] :: bytes)" "unat F = fsp d + ln d s"
    using unat_add_less [of "GetFreeSpacePointer d" ts] ts S I by (simp_all add: F_def)
  let ?d1 = "copy_at (unat F) (seg (fsp d) (lo d s - fsp d) d) d"
  note M = move_bytes [OF inv s(1) room, folded F(1)]
  have e: "copy_at (lo d s + ln d s - length ([] :: bytes)) [] ?d1 = ?d1"
    using M(1) S by simp
  note M = M [unfolded e]
  have n4: "24 + 8 * cnt d \<le> 4096" using I by simp
  have "\<forall>q m. q + m \<le> 24 + 8 * cnt d \<longrightarrow> seg q m ?d1 = seg q m d"
    using M(7) by blast
  note f1 = fields_of_seg [OF I(1) M(1) n4 this]
  define dF where "dF = copy_at 16 (enc32 F) ?d1"
  define dS where "dS = copy_at (28 + 8 * s) (enc32 0) dF"
  define d3 where "d3 = copy_at (24 + 8 * s) (enc32 0) dS"
  have s4: "32 + 8 * s \<le> 4096" "32 + 8 * s \<le> 24 + 8 * cnt d" "s < cnt d"
    using slot_in_page [OF inv, of s] s by (auto simp: used_def)
  have l: "length dF = 4096" "length dS = 4096" "length d3 = 4096"
    using M(1) s4 by (simp_all add: dF_def dS_def d3_def)
  note kF = copy_keeps [OF M(1), of 16 "enc32 F", folded dF_def] and kS = copy_keeps [OF l(1), of "28 + 8 * s" "enc32 0", folded dS_def]
    and k3 = copy_keeps [OF l(2), of "24 + 8 * s" "enc32 0", folded d3_def]
  have c3: "GetTupleCount d3 = GetTupleCount d" "GetNextPageId d3 = GetNextPageId d" "GetTablePageId d3 = GetTablePageId d"
    using kF kS k3 f1(1-3) s4 by simp_all
  have sl3: "so d3 i = (if i = s then 0 else so d i)" "sz d3 i = (if i = s then 0 else sz d i)" if "i < cnt d" for i
    using slot_write(1,2) [OF l(2) s4(1), of i 0] slot_write(3,4) [OF l(1) s4(1), of i 0] kF(5,6) [of i] f1(5,6) [OF that] that n4
    by (auto simp: d3_def dS_def)
  have sg3: "seg q m d3 = seg q m ?d1" if "24 + 8 * cnt d \<le> q" for q m
    using seg_copy_at_other [of "24 + 8 * s" "enc32 0" dS q m] seg_copy_at_other [of "28 + 8 * s" "enc32 0" dF q m]
      seg_copy_at_other [of 16 "enc32 F" ?d1 q m] that s4 l M(1) by (simp add: d3_def dS_def dF_def)
  have "\<exists>d'. shift_offsets (all_slots d3) (so d s) (ts - of_nat (length ([] :: bytes))) d3 = Some d' \<and> moved s [] d d' \<and>
      GetNextPageId d' = GetNextPageId d3 \<and> GetTablePageId d' = GetTablePageId d3"
  proof (rule finish_move [OF inv s(1) room l(3) c3(1) _ _ _ _ _ _ ts])
    show "fsp d3 = fsp d + ln d s - length ([] :: bytes)"
      using k3 kS copy_sets(2) [OF M(1), of F] s4 F by (simp add: dF_def)
    show "so d3 i < so d s \<longleftrightarrow> i = s \<or> lo d i < lo d s" if "i < cnt d" "sz d3 i \<noteq> 0" for i
      using sl3 [OF that(1)] that by (auto simp: word_less_nat_alt split: if_splits)
    show "seg (q + ln d s - length ([] :: bytes)) m d3 = seg q m d" if q: "fsp d \<le> q" "q + m \<le> lo d s" for q m
      using sg3 [of "q + ln d s" m] M(3) [OF q] q I by simp
    show "seg q m d3 = seg q m d" if "lo d s + ln d s \<le> q" for q m
      using sg3 [of q m] M(4) [OF that] that S I by simp
  qed (use sl3 s4 in auto)
  then obtain d' where d': "shift_offsets (all_slots d3) (so d s) ts d3 = Some d'" "moved s [] d d'"
      "GetNextPageId d' = GetNextPageId d3" "GetTablePageId d' = GetTablePageId d3"
    by auto
  have dF: "copy_at 16 (enc32 F) (copy_at (fsp d + ln d s) (seg (fsp d) (lo d s - fsp d) d) d) = dF"
    using F(2) by (simp add: dF_def)
  have "compact slot (so d s) ts d = Some d'"
    using S I F(2) M(1) d'(1) slot_set(2) [OF l(1), of slot 0] slot_set(1) [OF l(2), of slot 0] s(2) s4
    by (simp add: compact_def Let_def F_def [symmetric] SetFreeSpacePointer_def UInt32_Serialize_def word_le_nat_alt
        dF dS_def [symmetric] d3_def [symmetric])
  then show ?thesis
    using moved_view [OF inv s(1) room d'(2)] d'(3,4) c3 by (simp add: ts_def)
qed

subsection \<open>Delete and update\<close>

lemma ApplyDelete_spec:
  assumes inv: "tp_inv d" and x: "ctx_ok logging x" and u: "used d (unat (SlotNum r))"
    and lk: "assert_exclusive logging r x = Some ()"
  shows "\<exists>d' x'. ApplyDelete logging r d x = Some (d', x') \<and> tp_inv d' \<and> ctx_ok logging x' \<and>
    tp_view d' = (tp_view d)(unat (SlotNum r) := None) \<and>
    GetNextPageId d' = GetNextPageId d \<and> GetTablePageId d' = GetTablePageId d"
proof -
  let ?s = "unat (SlotNum r)"
  note S = tp_invD(4-6) [OF inv u] and I = tp_invD [OF inv]
  have lt: "SlotNum r < GetTupleCount d" "?s < cnt d"
    using u by (auto simp: used_def word_less_nat_alt)
  define ts where "ts = UnsetDeletedFlag (sz d ?s)"
  have ts: "(if IsDeleted (sz d ?s) then UnsetDeletedFlag (sz d ?s) else sz d ?s) = ts" "unat ts = ln d ?s"
    using u Unset_noflag [of "sz d ?s"] by (auto simp: ts_def len_def IsDeleted_iff used_def)
  have sum: "unat (so d ?s + ts) = lo d ?s + ln d ?s"
    using unat_add_less [of "so d ?s" ts] ts S by simp
  let ?t = "\<lparr>t_rid = Some r, t_size = ts, t_data = seg (lo d ?s) (ln d ?s) d\<rparr>"
  let ?mk = "\<lambda>txn. NewLogRecordInsertDelete (txn_id txn) (prev_lsn txn) APPLYDELETE r ?t"
  have "wf_record (?mk txn)" for txn
    using S I ts by (intro wf_record_InsertDelete) (auto simp: wf_tuple_def)
  then obtain d1 x1 where w: "log_write logging ?mk d x = Some (d1, x1)" "lsn_only d d1" "ctx_ok logging x1"
    using log_write_ok [OF x, of ?mk d] by blast
  note lv = lsn_only_view [OF inv w(2)] and lf = lsn_only_fields [OF w(2) I(1)]
  have s4: "32 + 8 * ?s \<le> 4096" using slot_in_page [OF inv lt(2)] by simp
  then have u1: "used d1 ?s" "sz d1 ?s = sz d ?s" "so d1 ?s = so d ?s"
    using u lf(2,6,7) by (auto simp: used_def)
  obtain d' where c: "compact (SlotNum r) (so d ?s) ts d1 = Some d'" "tp_inv d'" "tp_view d' = (tp_view d1)(?s := None)"
      "GetNextPageId d' = GetNextPageId d1" "GetTablePageId d' = GetTablePageId d1"
    using compact_spec [OF lv(1) u1(1), of "SlotNum r"] u1 by (auto simp: ts_def)
  have "ApplyDelete logging r d x = Some (d', x1)"
    using lt slot_read [OF inv lt(2)] ts(1) sum S I lk w(1) c(1)
    by (simp add: ApplyDelete_def GetSlotNum_def Let_def)
  with c w(3) lv(2) lf(4,5) show ?thesis by auto
qed

lemma UpdateTuple_spec:
  assumes inv: "tp_inv d" and x: "ctx_ok logging x" and new: "t_size new \<noteq> 0"
    and v: "tp_view d (unat (SlotNum r)) = Some (False, bs)"
    and upd: "update_row idxs sch new (NewTuple (Some r) (of_nat (length bs)) bs) = Some u"
    and u: "wf_tuple u" "t_size u \<noteq> 0"
  shows "\<exists>ok err follow d' x'. UpdateTuple logging new idxs sch old r d x =
      Some ((ok, err, follow), NewTuple (Some r) (of_nat (length bs)) bs, d', x') \<and> tp_inv d' \<and> ctx_ok logging x' \<and>
    GetNextPageId d' = GetNextPageId d \<and> GetTablePageId d' = GetTablePageId d \<and>
    (if ok then err = None \<and> tp_view d' = (tp_view d)(unat (SlotNum r) \<mapsto> (False, t_data u))
     else d' = d \<and> (err = Some ErrNotEnoughSpace \<and> follow = Some u \<and> fsp d + length bs < 24 + 8 * cnt d + unat (t_size u) \<or>
       err = None \<and> logging))"
proof -
  let ?s = "unat (SlotNum r)"
  have us: "used d ?s" and nf: "\<not> bit (sz d ?s) 31" and bs: "bs = seg (lo d ?s) (ln d ?s) d"
    using v by (auto simp: tp_view_def split: if_splits)
  note S = tp_invD(4-6) [OF inv us] and I = tp_invD [OF inv]
  have lt: "\<not> SlotNum r \<ge> GetTupleCount d" "?s < cnt d"
    using us by (auto simp: used_def word_le_nat_alt)
  have ts: "unat (sz d ?s) = ln d ?s" using nf by (simp add: len_noflag)
  have lb: "length bs = ln d ?s" using bs S I by simp
  have tw: "of_nat (length bs) = sz d ?s" using lb ts [symmetric] by simp
  have nd: "\<not> IsDeleted (sz d ?s)" using nf us by (simp add: IsDeleted_iff used_def)
  have sum: "unat (so d ?s + sz d ?s) = lo d ?s + ln d ?s"
    using unat_add_less [of "so d ?s" "sz d ?s"] ts S by simp
  have old: "slice_range (lo d ?s) (unat (so d ?s + sz d ?s)) d = Some bs"
    using sum S I bs by simp
  have free: "getFreeSpaceRemaining d + sz d ?s < t_size u \<longleftrightarrow> fsp d + length bs < 24 + 8 * cnt d + unat (t_size u)"
    using unat_add_less [of "getFreeSpaceRemaining d" "sz d ?s"] room_eq [OF inv] ts lb S I by (auto simp: word_less_nat_alt)
  let ?ot = "\<lparr>t_rid = Some r, t_size = sz d ?s, t_data = bs\<rparr>"
  have ot: "NewTuple (Some r) (of_nat (length bs)) bs = ?ot" "wf_tuple ?ot"
    using tw ts lb by (simp_all add: NewTuple_def wf_tuple_def)
  have run: "UpdateTuple logging new idxs sch old r d x =
      (if getFreeSpaceRemaining d + sz d ?s < t_size u
       then Some ((False, Some ErrNotEnoughSpace, Some u), ?ot, d, x)
       else do {
         (locked, x) \<leftarrow> lock_for_write logging r x;
         if \<not> locked then Some ((False, None, None), ?ot, d, x)
         else do {
           (d', x) \<leftarrow> log_write logging (\<lambda>txn. NewLogRecordUpdate (txn_id txn) (prev_lsn txn) UPDATE r ?ot u) d x;
           d' \<leftarrow> replace_tuple (SlotNum r) (so d ?s) (sz d ?s) u d';
           Some ((True, None, None), ?ot, d', x) } })"
    using new lt(1) slot_read [OF inv lt(2)] nd old upd [unfolded ot(1)]
    by (simp add: UpdateTuple_def GetSlotNum_def word_gt_0 Let_def)
  show ?thesis
  proof (cases "getFreeSpaceRemaining d + sz d ?s < t_size u")
    case True
    then show ?thesis using run free inv x by (auto simp: ot(1))
  next
    case room: False
    obtain ok x1 where l: "lock_for_write logging r x = Some (ok, x1)" "ctx_ok logging x1" "\<not> logging \<longrightarrow> ok \<and> x1 = x"
      using lock_for_write_ok [OF x] by blast
    show ?thesis
    proof (cases ok)
      case False
      then show ?thesis using run room l inv by (auto simp: ot(1))
    next
      case True
      let ?mk = "\<lambda>txn. NewLogRecordUpdate (txn_id txn) (prev_lsn txn) UPDATE r ?ot u"
      have "wf_record (?mk txn)" for txn
        using u ot(2) ts room free I S lb by (intro wf_record_Update) auto
      then obtain d1 x2 where w: "log_write logging ?mk d x1 = Some (d1, x2)" "lsn_only d d1" "ctx_ok logging x2"
        using log_write_ok [OF l(2), of ?mk d] by blast
      note lv = lsn_only_view [OF inv w(2)] and lf = lsn_only_fields [OF w(2) I(1)]
      have s4: "32 + 8 * ?s \<le> 4096" using slot_in_page [OF inv lt(2)] by simp
      then have u1: "used d1 ?s" "sz d1 ?s = sz d ?s" "so d1 ?s = so d ?s"
        using us lf(2,6,7) by (auto simp: used_def)
      obtain d' where c: "replace_tuple (SlotNum r) (so d ?s) (sz d ?s) u d1 = Some d'" "tp_inv d'"
          "tp_view d' = (tp_view d1)(?s \<mapsto> (False, t_data u))" "GetNextPageId d' = GetNextPageId d1" "GetTablePageId d' = GetTablePageId d1"
        using replace_tuple_spec [OF lv(1) u1(1) refl, of u] u1 nf u room free lf(2,3) lb by auto
      then show ?thesis
        using run room l True w lv(2) lf(4,5) by (auto simp: ot(1))
    qed
  qed
qed

end
