(* ===== verification/Table_Page_Spec.thy ===== *)
theory Table_Page_Spec
  imports Table_Page_Laws
begin

text \<open>
  The contract of the slotted page: new pages, reading, iterating, and what makes a transaction's writes
  undoable.  The interface \<open>slot_store\<close> states what a client of the page relies on; the rollback arguments are
  carried out on the interface, and the code of \<^verbatim>\<open>table_page.go\<close> is shown to provide it, with and without logging.
\<close>

subsection \<open>A new page\<close>

lemma init_fields:
  fixes pid prev :: pageID
  assumes "length d = 4096"
  defines "d' \<equiv> SetFreeSpacePointer 4096 (SetTupleCount 0 (SetNextPageId InvalidPageID (SetPrevPageId prev (SetPageId pid d))))"
  shows "length d' = 4096" "GetTupleCount d' = 0" "GetFreeSpacePointer d' = 4096" "GetNextPageId d' = InvalidPageID" "GetTablePageId d' = pid"
proof -
  define d1 where "d1 = SetPageId pid d"
  define d2 where "d2 = SetPrevPageId prev d1"
  define d3 where "d3 = SetNextPageId InvalidPageID d2"
  define d4 where "d4 = SetTupleCount 0 d3"
  have L: "length d1 = 4096" "length d2 = 4096" "length d3 = 4096" "length d4 = 4096"
    using assms(1) by (simp_all add: d1_def d2_def d3_def d4_def header_defs)
  have d': "d' = SetFreeSpacePointer 4096 d4"
    by (simp add: d'_def d1_def d2_def d3_def d4_def)
  show "length d' = 4096" using L by (simp add: d' header_defs)
  show "GetTupleCount d' = 0"
    using L copy_keeps [OF L(4), of 16] copy_sets [OF L(3)] by (simp add: d' d4_def header_defs)
  show "GetFreeSpacePointer d' = 4096"
    using copy_sets [OF L(4)] by (simp add: d' header_defs)
  show "GetNextPageId d' = InvalidPageID"
    using copy_keeps [OF L(4), of 16] copy_keeps [OF L(3), of 20] copy_sets [OF L(2)] by (simp add: d' d4_def d3_def header_defs)
  show "GetTablePageId d' = pid"
    using copy_keeps [OF L(4), of 16] copy_keeps [OF L(3), of 20] copy_keeps [OF L(2), of 12] copy_keeps [OF L(1), of 8] copy_sets [OF assms(1)]
    by (simp add: d' d4_def d3_def d2_def d1_def header_defs)
qed

lemma Init_spec:
  assumes "length d = 4096" and x: "ctx_ok logging x"
  shows "\<exists>d' x'. Init logging pid prev d x = Some (d', x') \<and> tp_inv d' \<and> ctx_ok logging x' \<and> tp_view d' = Map.empty \<and>
    cnt d' = 0 \<and> fsp d' = 4096 \<and> GetNextPageId d' = InvalidPageID \<and> GetTablePageId d' = pid \<and> (\<not> logging \<longrightarrow> x' = x)"
proof -
  let ?mk = "\<lambda>txn. NewLogRecordNewPage (txn_id txn) (prev_lsn txn) NEWPAGE prev"
  obtain d1 x1 where w: "log_write logging ?mk d x = Some (d1, x1)" "lsn_only d d1" "ctx_ok logging x1" "\<not> logging \<longrightarrow> x1 = x"
    using log_write_ok [OF x, of ?mk d] wf_record_NewPage by blast
  have "length d1 = 4096" using w(2) assms(1) lsn_only_fields(1) by blast
  note f = init_fields [OF this, of prev pid]
  have "tp_inv (SetFreeSpacePointer 4096 (SetTupleCount 0 (SetNextPageId InvalidPageID (SetPrevPageId prev (SetPageId pid d1)))))"
    using f by (simp add: tp_inv_def used_def)
  then show ?thesis
    using w f by (auto simp: Init_def Let_def tp_view_def used_def fun_eq_iff)
qed

subsection \<open>Reading\<close>

lemma TP_GetTuple_spec:
  assumes inv: "tp_inv d" and x: "ctx_ok logging x"
  shows "\<exists>res x'. TP_GetTuple logging r d x = Some (res, x') \<and> ctx_ok logging x' \<and>
    (case res of
       Some t \<Rightarrow> \<exists>bs. tp_view d (unat (SlotNum r)) = Some (False, bs) \<and> t = NewTuple (Some r) (of_nat (length bs)) bs
     | None \<Rightarrow> logging \<or> (\<forall>bs. tp_view d (unat (SlotNum r)) \<noteq> Some (False, bs)))"
proof -
  let ?s = "unat (SlotNum r)" and ?w = "sz d (unat (SlotNum r))"
  obtain xa where xa: "abort_txn logging x = Some xa" "ctx_ok logging xa"
    using abort_txn_ok [OF x] by blast
  have lt: "SlotNum r \<ge> GetTupleCount d \<longleftrightarrow> \<not> ?s < cnt d"
    by (simp add: word_le_nat_alt not_less)
  consider (out) "\<not> ?s < cnt d" | (del) "?s < cnt d" "IsDeleted ?w" | (live) "?s < cnt d" "\<not> IsDeleted ?w" by blast
  then show ?thesis
  proof cases
    case out
    then show ?thesis using xa lt by (auto simp: TP_GetTuple_def GetSlotNum_def tp_view_def used_def)
  next
    case del
    then show ?thesis
      using xa lt slot_read [OF inv del(1)] by (auto simp: TP_GetTuple_def GetSlotNum_def tp_view_def used_def IsDeleted_iff)
  next
    case live
    then have u: "used d ?s" "\<not> bit ?w 31" by (auto simp: used_def IsDeleted_iff)
    note S = tp_invD(4-6) [OF inv u(1)] and L = tp_invD(1) [OF inv]
    have ts: "unat ?w = ln d ?s" using u by (simp add: len_noflag)
    let ?bs = "seg (lo d ?s) (ln d ?s) d"
    have v: "tp_view d ?s = Some (False, ?bs)" "length ?bs = ln d ?s"
      using u S L by (simp_all add: tp_view_def)
    have w: "?w = of_nat (length ?bs)" using ts [symmetric] v(2) by simp
    have data: "copy_at 0 (drop (lo d ?s) d) (replicate (unat ?w) 0) = ?bs" "slice_from (lo d ?s) d = Some (drop (lo d ?s) d)"
      using ts S L by (simp_all add: copy_at_def)
    obtain ok x1 where l: "lock_for_read logging r x = Some (ok, x1)" "ctx_ok logging x1" "\<not> logging \<longrightarrow> ok"
      using lock_for_read_ok [OF x] by blast
    have "TP_GetTuple logging r d x = Some (if ok then Some (NewTuple (Some r) ?w ?bs) else None, x1)"
      using live lt slot_read [OF inv live(1)] data l(1) by (simp add: TP_GetTuple_def GetSlotNum_def Let_def)
    then show ?thesis using l v w by (cases ok) auto
  qed
qed

subsection \<open>Iterating over the slots\<close>

text \<open>\<open>res\<close> is the first slot from \<open>i\<close> on that is in use.\<close>

definition next_ok :: "bytes \<Rightarrow> nat \<Rightarrow> nat option \<Rightarrow> bool" where
  "next_ok d i res \<longleftrightarrow> (case res of
      None \<Rightarrow> \<forall>j \<ge> i. tp_view d j = None
    | Some s \<Rightarrow> i \<le> s \<and> tp_view d s \<noteq> None \<and> (\<forall>j. i \<le> j \<longrightarrow> j < s \<longrightarrow> tp_view d j = None))"

lemma next_ok_skip: "tp_view d i = None \<Longrightarrow> next_ok d (Suc i) res \<Longrightarrow> next_ok d i res"
  unfolding next_ok_def by (cases res; simp) (metis Suc_leI le_neq_implies_less Suc_leD)+

lemma next_used_spec:
  assumes "tp_inv d" and "unat i + k = cnt d"
  shows "\<exists>res. next_used k i d = Some res \<and> next_ok d (unat i) (map_option unat res)"
  using assms(2)
proof (induction k arbitrary: i)
  case 0
  then show ?case by (auto simp: view_unused used_def next_ok_def)
next
  case (Suc k)
  have i: "unat i < cnt d" using Suc.prems by simp
  show ?case
  proof (cases "sz d (unat i) = 0")
    case True
    have i1: "unat (i + 1) = Suc (unat i)"
      using i unat_add_less [of i 1] tp_invD(2,3) [OF assms(1)] by simp
    have "tp_view d (unat i) = None" using True by (simp add: view_unused used_def)
    moreover obtain res where "next_used k (i + 1) d = Some res" "next_ok d (Suc (unat i)) (map_option unat res)"
      using Suc.IH [of "i + 1"] Suc.prems i1 by auto
    ultimately show ?thesis
      using slot_read(1) [OF assms(1) i] True next_ok_skip by simp
  next
    case False
    then show ?thesis
      using slot_read(1) [OF assms(1) i] i by (auto simp: word_gt_0 view_unused used_def next_ok_def)
  qed
qed

lemma GetTupleFirstRID_spec:
  assumes "tp_inv d"
  shows "\<exists>res. GetTupleFirstRID d = Some res \<and> next_ok d 0 (map_option (\<lambda>r. unat (SlotNum r)) res) \<and>
    (\<forall>r. res = Some r \<longrightarrow> PageId r = GetTablePageId d)"
proof -
  obtain res where n: "next_used (cnt d) 0 d = Some res" "next_ok d 0 (map_option unat res)"
    using next_used_spec [OF assms, of 0 "cnt d"] by auto
  then show ?thesis
    by (cases res) (auto simp: GetTupleFirstRID_def RID_Set_def)
qed

lemma GetNextTupleRID_spec:
  assumes "tp_inv d" and "\<not> isNextPage \<Longrightarrow> unat (SlotNum cur) < cnt d"
  shows "\<exists>res. GetNextTupleRID cur isNextPage d = Some res \<and>
    next_ok d (if isNextPage then 0 else Suc (unat (SlotNum cur))) (map_option (\<lambda>r. unat (SlotNum r)) res) \<and>
    (\<forall>r. res = Some r \<longrightarrow> PageId r = GetTablePageId d)"
proof -
  define i where "i = (if isNextPage then 0 else GetSlotNum cur + 1)"
  have i: "unat i = (if isNextPage then 0 else Suc (unat (SlotNum cur)))" "unat i \<le> cnt d"
    using assms(2) unat_add_less [of "SlotNum cur" 1] tp_invD(2,3) [OF assms(1)] by (auto simp: i_def GetSlotNum_def)
  obtain res where n: "next_used (cnt d - unat i) i d = Some res" "next_ok d (unat i) (map_option unat res)"
    using next_used_spec [OF assms(1), of i "cnt d - unat i"] i(2) by auto
  then show ?thesis
    unfolding i(1) [symmetric]
    by (cases res) (auto simp: GetNextTupleRID_def i_def [symmetric] RID_Set_def)
qed

subsection \<open>The interface of the page\<close>

text \<open>
  What the table heap and the transaction manager rely on: \<open>view\<close> is the contents, \<open>owns\<close> that the running
  transaction may finish (undo or apply) its write to a record.
\<close>

locale slot_store =
  fixes inv :: "'s \<Rightarrow> bool" and view :: "'s \<Rightarrow> nat \<Rightarrow> (bool \<times> bytes) option" and owns :: "rid \<Rightarrow> 's \<Rightarrow> bool"
    and ins :: "tuple \<Rightarrow> 's \<Rightarrow> ((tp_error + rid \<times> tuple) \<times> 's) option"
    and mark :: "rid \<Rightarrow> 's \<Rightarrow> (bool \<times> 's) option"
    and rollback :: "rid \<Rightarrow> 's \<Rightarrow> 's option" and apply_del :: "rid \<Rightarrow> 's \<Rightarrow> 's option"
  assumes ins_law: "inv s \<Longrightarrow> wf_tuple t \<Longrightarrow> unat (t_size t) < 4294967288 \<Longrightarrow> ins t s = Some (Inr (r, t'), s') \<Longrightarrow>
      inv s' \<and> owns r s' \<and> view s (unat (SlotNum r)) = None \<and> view s' = (view s)(unat (SlotNum r) \<mapsto> (False, t_data t))"
    and mark_law: "inv s \<Longrightarrow> mark r s = Some (True, s') \<Longrightarrow>
      inv s' \<and> owns r s' \<and> (\<exists>bs. view s (unat (SlotNum r)) = Some (False, bs) \<and> view s' = (view s)(unat (SlotNum r) \<mapsto> (True, bs)))"
    and rollback_law: "inv s \<Longrightarrow> owns r s \<Longrightarrow> view s (unat (SlotNum r)) = Some (b, bs) \<Longrightarrow>
      \<exists>s'. rollback r s = Some s' \<and> inv s' \<and> view s' = (view s)(unat (SlotNum r) \<mapsto> (False, bs))"
    and apply_law: "inv s \<Longrightarrow> owns r s \<Longrightarrow> view s (unat (SlotNum r)) \<noteq> None \<Longrightarrow>
      \<exists>s'. apply_del r s = Some s' \<and> inv s' \<and> view s' = (view s)(unat (SlotNum r) := None)"
begin

lemma mark_rollback:
  assumes "inv s" and "mark r s = Some (True, s')"
  shows "\<exists>s''. rollback r s' = Some s'' \<and> inv s'' \<and> view s'' = view s"
proof -
  obtain bs where m: "inv s'" "owns r s'" "view s (unat (SlotNum r)) = Some (False, bs)"
      "view s' = (view s)(unat (SlotNum r) \<mapsto> (True, bs))"
    using mark_law [OF assms] by blast
  then show ?thesis
    using rollback_law [OF m(1,2), of True bs] by (auto simp: fun_upd_idem)
qed

lemma mark_apply:
  assumes "inv s" and "mark r s = Some (True, s')"
  shows "\<exists>s''. apply_del r s' = Some s'' \<and> inv s'' \<and> view s'' = (view s)(unat (SlotNum r) := None)"
proof -
  obtain bs where m: "inv s'" "owns r s'" "view s' = (view s)(unat (SlotNum r) \<mapsto> (True, bs))"
    using mark_law [OF assms] by blast
  then show ?thesis using apply_law [OF m(1,2)] by auto
qed

lemma insert_undone:
  assumes "inv s" and "wf_tuple t" and "unat (t_size t) < 4294967288" and "ins t s = Some (Inr (r, t'), s')"
  shows "\<exists>s''. apply_del r s' = Some s'' \<and> inv s'' \<and> view s'' = view s"
proof -
  have i: "inv s'" "owns r s'" "view s (unat (SlotNum r)) = None" "view s' = (view s)(unat (SlotNum r) \<mapsto> (False, t_data t))"
    using ins_law [OF assms] by blast+
  then show ?thesis using apply_law [OF i(1,2)] by (auto simp: fun_upd_idem)
qed

end

text \<open>The lock table and the transaction agree: the records locked for it are in its exclusive lock set.\<close>

definition locks_in_sync :: "ctx option \<Rightarrow> bool" where
  "locks_in_sync x \<longleftrightarrow> (\<forall>c r. x = Some c \<longrightarrow> (exclusive_lock_table (x_locks c) r = Some (txn_id (x_txn c)) \<longleftrightarrow> IsExclusiveLocked (x_txn c) r))"

lemmas sync_defs = locks_in_sync_def IsExclusiveLocked_def IsSharedLocked_def SetState_def

lemma with_lock_sync:
  assumes "locks_in_sync (Some c)" and "res = LockExclusive (x_txn c) r (x_locks c) \<or> LockUpgrade (x_txn c) r (x_locks c) = Some res"
    and "with_lock res c = (ok, x')"
  shows "locks_in_sync x' \<and> (ok \<longrightarrow> assert_exclusive logging r x' = Some ())"
  using assms
  by (auto simp: sync_defs with_lock_def assert_exclusive_def LockExclusive_def LockUpgrade_def split: option.splits if_splits)

lemma lock_new_sync:
  assumes "locks_in_sync x" and "lock_new logging r x = Some (ok, x')"
  shows "locks_in_sync x'" and "ok \<Longrightarrow> assert_exclusive logging r x' = Some ()"
proof -
  have "locks_in_sync x' \<and> (ok \<longrightarrow> assert_exclusive logging r x' = Some ())"
  proof (cases logging)
    case False
    then show ?thesis using assms by (simp add: lock_new_def assert_exclusive_def)
  next
    case True
    then obtain c where "x = Some c" "with_lock (LockExclusive (x_txn c) r (x_locks c)) c = (ok, x')"
      using assms(2) by (auto simp: lock_new_def bind_Some_iff)
    then show ?thesis using with_lock_sync assms(1) by blast
  qed
  then show "locks_in_sync x'" and "ok \<Longrightarrow> assert_exclusive logging r x' = Some ()" by blast+
qed

lemma lock_for_write_sync:
  assumes "locks_in_sync x" and "lock_for_write logging r x = Some (ok, x')"
  shows "locks_in_sync x'" and "ok \<Longrightarrow> assert_exclusive logging r x' = Some ()"
proof -
  have "locks_in_sync x' \<and> (ok \<longrightarrow> assert_exclusive logging r x' = Some ())"
  proof (cases logging)
    case False
    then show ?thesis using assms by (simp add: lock_for_write_def assert_exclusive_def)
  next
    case True
    then obtain c where c: "x = Some c" using assms(2) by (cases x) (auto simp: lock_for_write_def)
    show ?thesis
      using assms True c with_lock_sync [of c "LockExclusive (x_txn c) r (x_locks c)" r ok x' logging]
        with_lock_sync [of c "the (LockUpgrade (x_txn c) r (x_locks c))" r ok x' logging]
      by (cases "LockUpgrade (x_txn c) r (x_locks c)") (auto simp: lock_for_write_def assert_exclusive_ok split: if_splits)
  qed
  then show "locks_in_sync x'" and "ok \<Longrightarrow> assert_exclusive logging r x' = Some ()" by blast+
qed

lemma log_write_sync:
  assumes "log_write logging mk d x = Some (d', x')"
  shows "locks_in_sync x \<Longrightarrow> locks_in_sync x'" and "assert_exclusive logging r x = Some () \<Longrightarrow> assert_exclusive logging r x' = Some ()"
  using assms by (auto simp: log_write_def sync_defs assert_exclusive_def bind_Some_iff split: if_splits prod.splits)

lemma MarkDelete_owns:
  assumes "locks_in_sync x" and "MarkDelete logging r d x = Some (True, d', x')"
  shows "locks_in_sync x'" and "assert_exclusive logging r x' = Some ()"
proof -
  obtain x1 d1 where l: "lock_for_write logging r x = Some (True, x1)"
      and w: "log_write logging (\<lambda>txn. NewLogRecordInsertDelete (txn_id txn) (prev_lsn txn) MARKDELETE r tuple_zero) d x1 = Some (d1, x')"
    using assms(2) by (auto simp: MarkDelete_def Let_def bind_Some_iff split: if_splits)
  show "locks_in_sync x'" and "assert_exclusive logging r x' = Some ()"
    using log_write_sync [OF w] lock_for_write_sync [OF assms(1) l] by blast+
qed

lemma InsertTuple_owns:
  assumes "locks_in_sync x" and "InsertTuple logging t d x = Some (Inr (r, t'), d', x')"
  shows "locks_in_sync x'" and "assert_exclusive logging r x' = Some ()"
proof -
  obtain x1 d4 where l: "lock_new logging r x = Some (True, x1)"
      and w: "log_write logging (\<lambda>txn. NewLogRecordInsertDelete (txn_id txn) (prev_lsn txn) INSERT r t') d4 x1 = Some (d', x')"
    using assms(2) by (auto simp: InsertTuple_def Let_def bind_Some_iff split: if_splits)
  show "locks_in_sync x'" and "assert_exclusive logging r x' = Some ()"
    using log_write_sync [OF w] lock_new_sync [OF assms(1) l] by blast+
qed

lemma RollbackDelete_sync: "RollbackDelete logging r d x = Some (d', x') \<Longrightarrow> locks_in_sync x \<Longrightarrow> locks_in_sync x'"
  by (auto simp: RollbackDelete_def Let_def bind_Some_iff split: if_splits dest: log_write_sync(1))

lemma ApplyDelete_sync: "ApplyDelete logging r d x = Some (d', x') \<Longrightarrow> locks_in_sync x \<Longrightarrow> locks_in_sync x'"
  by (auto simp: ApplyDelete_def Let_def bind_Some_iff split: if_splits dest: log_write_sync(1))

lemma InsertTuple_Inr:
  assumes "tp_inv d" "wf_tuple t" "unat (t_size t) < 4294967288" "ctx_ok logging x"
    and "InsertTuple logging t d x = Some (Inr (r, t'), d', x')"
  shows "tp_inv d'" "ctx_ok logging x'" "PageId r = GetTablePageId d" "t' = t\<lparr>t_rid := Some r\<rparr>" "t_size t \<noteq> 0"
    "tp_view d (unat (SlotNum r)) = None" "tp_view d' = (tp_view d)(unat (SlotNum r) \<mapsto> (False, t_data t))"
    "GetNextPageId d' = GetNextPageId d" "GetTablePageId d' = GetTablePageId d"
  using InsertTuple_spec [OF assms(1-4)] assms(5) by simp_all

lemma InsertTuple_Inl:
  assumes "tp_inv d" "wf_tuple t" "unat (t_size t) < 4294967288" "ctx_ok logging x"
    and "InsertTuple logging t d x = Some (Inl e, d', x')"
  shows "d' = d" "ctx_ok logging x'" "e = ErrEmptyTuple \<Longrightarrow> t_size t = 0"
    "e = ErrNotEnoughSpace \<Longrightarrow> fsp d < 24 + 8 * cnt d + 8 + unat (t_size t)" "e \<noteq> ErrNoFreeSlot" "e = ErrLock \<Longrightarrow> logging"
  using InsertTuple_spec [OF assms(1-4)] assms(5) by (cases e; simp)+

lemma InsertTuple_runs:
  assumes "tp_inv d" "wf_tuple t" "unat (t_size t) < 4294967288" "ctx_ok logging x"
  obtains (err) e x' where "InsertTuple logging t d x = Some (Inl e, d, x')"
  | (inserted) r t' d' x' where "InsertTuple logging t d x = Some (Inr (r, t'), d', x')"
proof -
  obtain res d' x' where i: "InsertTuple logging t d x = Some (res, d', x')"
    using InsertTuple_spec [OF assms] by blast
  show thesis
  proof (cases res)
    case (Inl e)
    then show ?thesis using InsertTuple_Inl(1) [OF assms] i err by metis
  next
    case (Inr q)
    then show ?thesis using i inserted by (cases q) simp
  qed
qed

text \<open>A page together with its context, as one state.\<close>

definition page_ok :: "bool \<Rightarrow> bytes \<times> ctx option \<Rightarrow> bool" where
  "page_ok logging s \<longleftrightarrow> tp_inv (fst s) \<and> ctx_ok logging (snd s) \<and> locks_in_sync (snd s)"

interpretation tp: slot_store "page_ok logging" "\<lambda>s. tp_view (fst s)" "\<lambda>r s. assert_exclusive logging r (snd s) = Some ()"
  "\<lambda>t s. InsertTuple logging t (fst s) (snd s)" "\<lambda>r s. MarkDelete logging r (fst s) (snd s)"
  "\<lambda>r s. RollbackDelete logging r (fst s) (snd s)" "\<lambda>r s. ApplyDelete logging r (fst s) (snd s)"
  for logging
proof unfold_locales
  fix s s' t t' r
  assume p: "page_ok logging s" "wf_tuple t" "unat (t_size t) < 4294967288" and i: "InsertTuple logging t (fst s) (snd s) = Some (Inr (r, t'), s')"
  have "InsertTuple logging t (fst s) (snd s) = Some (Inr (r, t'), fst s', snd s')" using i by simp
  with p show "page_ok logging s' \<and> assert_exclusive logging r (snd s') = Some () \<and> tp_view (fst s) (unat (SlotNum r)) = None \<and>
      tp_view (fst s') = (tp_view (fst s))(unat (SlotNum r) \<mapsto> (False, t_data t))"
    using InsertTuple_Inr(1,2,6,7) [of "fst s" t logging "snd s" r t' "fst s'" "snd s'"]
      InsertTuple_owns [of "snd s" logging t "fst s" r t' "fst s'" "snd s'"] by (simp add: page_ok_def)
next
  fix s s' r
  assume p: "page_ok logging s" and m: "MarkDelete logging r (fst s) (snd s) = Some (True, s')"
  have e: "MarkDelete logging r (fst s) (snd s) = Some (True, fst s', snd s')" using m by simp
  have "tp_inv (fst s')" "ctx_ok logging (snd s')"
      "\<exists>bs. tp_view (fst s) (unat (SlotNum r)) = Some (False, bs) \<and> tp_view (fst s') = (tp_view (fst s))(unat (SlotNum r) \<mapsto> (True, bs))"
    using MarkDelete_spec [of "fst s" logging "snd s" r] p e by (auto simp: page_ok_def)
  then show "page_ok logging s' \<and> assert_exclusive logging r (snd s') = Some () \<and>
      (\<exists>bs. tp_view (fst s) (unat (SlotNum r)) = Some (False, bs) \<and> tp_view (fst s') = (tp_view (fst s))(unat (SlotNum r) \<mapsto> (True, bs)))"
    using MarkDelete_owns [OF _ e] p by (simp add: page_ok_def)
next
  fix s r b bs
  assume p: "page_ok logging s" "assert_exclusive logging r (snd s) = Some ()" "tp_view (fst s) (unat (SlotNum r)) = Some (b, bs)"
  then obtain d' x' where "RollbackDelete logging r (fst s) (snd s) = Some (d', x')" "tp_inv d'" "ctx_ok logging x'"
      "tp_view d' = (tp_view (fst s))(unat (SlotNum r) \<mapsto> (False, bs))"
    using RollbackDelete_spec [of "fst s" logging "snd s" r b bs] unfolding page_ok_def by blast
  with p(1) show "\<exists>s'. RollbackDelete logging r (fst s) (snd s) = Some s' \<and> page_ok logging s' \<and>
      tp_view (fst s') = (tp_view (fst s))(unat (SlotNum r) \<mapsto> (False, bs))"
    using RollbackDelete_sync by (intro exI [of _ "(d', x')"]) (simp add: page_ok_def)
next
  fix s r
  assume p: "page_ok logging s" "assert_exclusive logging r (snd s) = Some ()" "tp_view (fst s) (unat (SlotNum r)) \<noteq> None"
  then obtain d' x' where "ApplyDelete logging r (fst s) (snd s) = Some (d', x')" "tp_inv d'" "ctx_ok logging x'"
      "tp_view d' = (tp_view (fst s))(unat (SlotNum r) := None)"
    using ApplyDelete_spec [of "fst s" logging "snd s" r] unfolding page_ok_def view_unused by blast
  with p(1) show "\<exists>s'. ApplyDelete logging r (fst s) (snd s) = Some s' \<and> page_ok logging s' \<and>
      tp_view (fst s') = (tp_view (fst s))(unat (SlotNum r) := None)"
    using ApplyDelete_sync by (intro exI [of _ "(d', x')"]) (simp add: page_ok_def)
qed

subsection \<open>Properties\<close>

definition example_page :: bytes where
  "example_page = fst (the (Init False 5 InvalidPageID (replicate 4096 0) None))"

definition example_tuple :: tuple where
  "example_tuple = NewTuple None 3 [1, 2, 3]"

lemma example_page_ok:
  "tp_inv example_page" "tp_view example_page = Map.empty" "cnt example_page = 0" "fsp example_page = 4096" "GetTablePageId example_page = 5"
  using Init_spec [of "replicate 4096 0" False None 5 InvalidPageID] by (auto simp: example_page_def ctx_ok_def)

lemma example_tuple_ok: "wf_tuple example_tuple" "t_size example_tuple = 3" "t_data example_tuple = [1, 2, 3]"
  by (simp_all add: example_tuple_def NewTuple_def wf_tuple_def)

lemma no_ctx_ok: "ctx_ok False x" "locks_in_sync None"
  by (simp_all add: ctx_ok_def locks_in_sync_def)

lemma insert_example:
  obtains r t' d' x' where "InsertTuple False example_tuple example_page None = Some (Inr (r, t'), d', x')" "page_ok False (d', x')"
    "tp_view d' = [unat (SlotNum r) \<mapsto> (False, [1, 2, 3])]"
proof -
  have ex: "tp_inv example_page" "wf_tuple example_tuple" "unat (t_size example_tuple) < 4294967288" "ctx_ok False None"
    by (simp_all add: example_page_ok example_tuple_ok no_ctx_ok)
  show thesis
  proof (rule InsertTuple_runs [OF ex])
    fix e x' assume "InsertTuple False example_tuple example_page None = Some (Inl e, example_page, x')"
    then show ?thesis
      using InsertTuple_Inl [OF ex] example_page_ok example_tuple_ok by (cases e) fastforce+
  next
    fix r t' d' x' assume i: "InsertTuple False example_tuple example_page None = Some (Inr (r, t'), d', x')"
    show ?thesis
      using that [OF i] InsertTuple_Inr [OF ex i] InsertTuple_owns(1) [OF no_ctx_ok(2) i] example_page_ok(2) example_tuple_ok(3)
      by (simp add: page_ok_def no_ctx_ok)
  qed
qed

lemma lock_for_read_owner:
  assumes "ctx_ok logging x" and "assert_exclusive logging r x = Some ()"
  shows "lock_for_read logging r x = Some (True, x)"
  using assms by (auto simp: lock_for_read_def assert_exclusive_ok ctx_ok_def)

lemma TP_GetTuple_granted:
  assumes inv: "tp_inv d" and x: "ctx_ok logging x" and lk: "lock_for_read logging r x = Some (True, x1)"
    and v: "tp_view d (unat (SlotNum r)) = Some (False, bs)"
  shows "TP_GetTuple logging r d x = Some (Some (NewTuple (Some r) (of_nat (length bs)) bs), x1)"
proof -
  obtain res x' where g: "TP_GetTuple logging r d x = Some (res, x')" "case res of
       Some t \<Rightarrow> \<exists>bs. tp_view d (unat (SlotNum r)) = Some (False, bs) \<and> t = NewTuple (Some r) (of_nat (length bs)) bs
     | None \<Rightarrow> logging \<or> (\<forall>bs. tp_view d (unat (SlotNum r)) \<noteq> Some (False, bs))"
    using TP_GetTuple_spec [OF inv x] by blast
  have "unat (SlotNum r) < cnt d" "\<not> IsDeleted (sz d (unat (SlotNum r)))"
    using v by (auto simp: tp_view_def used_def IsDeleted_iff split: if_splits)
  then have "res \<noteq> None" "x' = x1"
    using g(1) lk slot_read [OF inv, of "SlotNum r"]
    by (auto simp: TP_GetTuple_def GetSlotNum_def Let_def word_le_nat_alt bind_Some_iff)
  then show ?thesis using g v by auto
qed

lemmas TP_GetTuple_owner = TP_GetTuple_granted [OF _ _ lock_for_read_owner]

lemma page_okD: "page_ok logging (d, x) \<Longrightarrow> tp_inv d \<and> ctx_ok logging x \<and> locks_in_sync x"
  by (simp add: page_ok_def)

lemma example_ok: "page_ok False (example_page, None)"
  by (simp add: page_ok_def example_page_ok no_ctx_ok)

text \<open>C27: insert and get on a slotted page: the tuple inserted by \<^verbatim>\<open>InsertTuple\<close> is read back under the RID it
  returned, with and without locking, and no other slot changed.\<close>

theorem page_insert_get:
  assumes "page_ok logging (d, x)" and "wf_tuple t" and "unat (t_size t) < 4294967288"
    and "InsertTuple logging t d x = Some (Inr (r, t'), d', x')"
  shows "TP_GetTuple logging r d' x' = Some (Some (NewTuple (Some r) (t_size t) (t_data t)), x') \<and>
    PageId r = GetTablePageId d \<and> tp_view d (unat (SlotNum r)) = None \<and>
    (\<forall>i. i \<noteq> unat (SlotNum r) \<longrightarrow> tp_view d' i = tp_view d i) \<and> page_ok logging (d', x')"
proof -
  have p: "tp_inv d" "ctx_ok logging x" "locks_in_sync x" using page_okD [OF assms(1)] by blast+
  note i = InsertTuple_Inr [OF p(1) assms(2,3) p(2) assms(4)] and o = InsertTuple_owns [OF p(3) assms(4)]
  have "of_nat (length (t_data t)) = t_size t" using assms(2) by (simp add: wf_tuple_def)
  moreover have "tp_view d' (unat (SlotNum r)) = Some (False, t_data t)" using i(7) by simp
  ultimately show ?thesis
    using TP_GetTuple_owner [OF i(1,2,2) o(2)] i o(1) by (simp add: page_ok_def)
qed

theorem page_insert_get_witness:
  "\<exists>r t' d' x'. InsertTuple False example_tuple example_page None = Some (Inr (r, t'), d', x') \<and>
     TP_GetTuple False r d' x' = Some (Some (NewTuple (Some r) 3 [1, 2, 3]), x')"
  by (rule insert_example) (use page_insert_get [OF example_ok example_tuple_ok(1)] example_tuple_ok in fastforce)

text \<open>C28: deletion on a slotted page is two-phased: a tuple marked by \<^verbatim>\<open>MarkDelete\<close> comes back unchanged under
  \<^verbatim>\<open>RollbackDelete\<close>, and \<^verbatim>\<open>ApplyDelete\<close> removes exactly that tuple; neither panics, since the marking
  transaction holds the exclusive lock.\<close>

theorem page_delete_two_phase:
  assumes "page_ok logging (d, x)" and "MarkDelete logging r d x = Some (True, d', x')"
  shows "(\<exists>d'' x''. RollbackDelete logging r d' x' = Some (d'', x'') \<and> page_ok logging (d'', x'') \<and> tp_view d'' = tp_view d) \<and>
    (\<exists>d'' x''. ApplyDelete logging r d' x' = Some (d'', x'') \<and> page_ok logging (d'', x'') \<and>
       tp_view d'' = (tp_view d)(unat (SlotNum r) := None))"
  using tp.mark_rollback [OF assms(1), of r "(d', x')"] tp.mark_apply [OF assms(1), of r "(d', x')"] assms(2) by simp

theorem page_delete_two_phase_witness:
  "\<exists>r d x d' x' d'' x''. MarkDelete False r d x = Some (True, d', x') \<and> RollbackDelete False r d' x' = Some (d'', x'') \<and>
     tp_view d'' = tp_view d \<and> tp_view d (unat (SlotNum r)) = Some (False, [1, 2, 3])"
proof (rule insert_example)
  fix r :: rid and t' d x assume p: "page_ok False (d, x)" and v: "tp_view d = [unat (SlotNum r) \<mapsto> (False, [1, 2, 3])]"
  obtain ok d' x' where m: "MarkDelete False r d x = Some (ok, d', x')" "ok"
    using MarkDelete_spec [of d False x r] page_okD [OF p] v by (auto split: if_splits)
  then have "MarkDelete False r d x = Some (True, d', x')" by simp
  with page_delete_two_phase [OF p this] v show ?thesis
    by (metis fun_upd_same)
qed

text \<open>Undoing an insertion: \<^verbatim>\<open>ApplyDelete\<close> on a freshly inserted tuple, as \<^verbatim>\<open>Abort\<close> does, gives back
  the contents of the page from before.\<close>

theorem page_insert_undo:
  assumes "page_ok logging (d, x)" and "wf_tuple t" and "unat (t_size t) < 4294967288"
    and "InsertTuple logging t d x = Some (Inr (r, t'), d', x')"
  shows "\<exists>d'' x''. ApplyDelete logging r d' x' = Some (d'', x'') \<and> page_ok logging (d'', x'') \<and> tp_view d'' = tp_view d"
  using tp.insert_undone [OF assms(1-3), of r t' "(d', x')"] assms(4) by simp

theorem page_insert_undo_witness:
  "\<exists>r t' d' x' d'' x''. InsertTuple False example_tuple example_page None = Some (Inr (r, t'), d', x') \<and>
     ApplyDelete False r d' x' = Some (d'', x'') \<and> tp_view d'' = Map.empty"
  by (rule insert_example) (use page_insert_undo [OF example_ok example_tuple_ok(1)] example_tuple_ok(2) example_page_ok(2) in fastforce)

lemma update_row_all: "update_row None None new old = Some new"
  by (simp add: update_row_def)

text \<open>C30: an update in place replaces the bytes of that tuple only and reports the old tuple (which \<^verbatim>\<open>Abort\<close> writes back).
  When the new tuple does not fit, the page is unchanged and the merged tuple is handed back to be moved.\<close>

theorem page_update:
  assumes "page_ok logging (d, x)" and "t_size new \<noteq> 0" and "tp_view d (unat (SlotNum r)) = Some (False, bs)"
    and "update_row idxs sch new (NewTuple (Some r) (of_nat (length bs)) bs) = Some u" and "wf_tuple u" and "t_size u \<noteq> 0"
  shows "\<exists>ok err follow d' x'. UpdateTuple logging new idxs sch old r d x =
      Some ((ok, err, follow), NewTuple (Some r) (of_nat (length bs)) bs, d', x') \<and> tp_inv d' \<and>
    (if ok then err = None \<and> tp_view d' = (tp_view d)(unat (SlotNum r) \<mapsto> (False, t_data u))
     else d' = d \<and> (err = Some ErrNotEnoughSpace \<and> follow = Some u \<and> fsp d + length bs < 24 + 8 * cnt d + unat (t_size u) \<or>
       err = None \<and> logging))"
  using UpdateTuple_spec [OF _ _ assms(2-6), of logging x old] page_okD [OF assms(1)] by blast

theorem page_update_witness:
  "\<exists>r d x d' x' t. UpdateTuple False (NewTuple None 2 [7, 8]) None None tuple_zero r d x = Some ((True, None, None), t, d', x') \<and>
     tp_view d (unat (SlotNum r)) = Some (False, [1, 2, 3]) \<and> tp_view d' (unat (SlotNum r)) = Some (False, [7, 8]) \<and> t_data t = [1, 2, 3]"
proof (rule insert_example)
  fix r :: rid and t' d x assume p: "page_ok False (d, x)" and v: "tp_view d = [unat (SlotNum r) \<mapsto> (False, [1, 2, 3])]"
  let ?new = "NewTuple None 2 [7, 8]"
  have n: "t_size ?new \<noteq> 0" "wf_tuple ?new" "t_size ?new = 2" "t_data ?new = [7, 8]" by (simp_all add: NewTuple_def wf_tuple_def)
  have f: "24 + 8 * cnt d \<le> fsp d" using page_okD [OF p] tp_invD(2) by blast
  obtain ok err follow d' x' where u: "UpdateTuple False ?new None None tuple_zero r d x =
        Some ((ok, err, follow), NewTuple (Some r) (of_nat (length [1, 2, 3 :: 8 word])) [1, 2, 3], d', x')"
      "if ok then tp_view d' = (tp_view d)(unat (SlotNum r) \<mapsto> (False, t_data ?new))
       else fsp d + length [1, 2, 3 :: 8 word] < 24 + 8 * cnt d + unat (t_size ?new)"
    using page_update [OF p n(1), of r "[1, 2, 3]" None None ?new tuple_zero] v n update_row_all by (auto split: if_splits)
  have "ok" using u(2) f n(3) by (cases ok) simp_all
  with u n have e: "tp_view d' (unat (SlotNum r)) = Some (False, [7, 8])" by simp
  have "err = None \<and> follow = None"
    using u(1) \<open>ok\<close> by (auto simp: UpdateTuple_def Let_def bind_Some_iff split: if_splits)
  with u(1) e \<open>ok\<close> v show ?thesis by (fastforce simp: NewTuple_def)
qed

subsection \<open>Every page the code can produce\<close>

inductive tp_reach :: "bool \<Rightarrow> bytes \<Rightarrow> ctx option \<Rightarrow> bool" for logging where
  tp_init: "length d = 4096 \<Longrightarrow> ctx_ok logging x \<Longrightarrow> Init logging pid prev d x = Some (d', x') \<Longrightarrow> tp_reach logging d' x'"
| tp_ins: "tp_reach logging d x \<Longrightarrow> wf_tuple t \<Longrightarrow> unat (t_size t) < 4294967288 \<Longrightarrow>
    InsertTuple logging t d x = Some (res, d', x') \<Longrightarrow> tp_reach logging d' x'"
| tp_mark: "tp_reach logging d x \<Longrightarrow> MarkDelete logging r d x = Some (ok, d', x') \<Longrightarrow> tp_reach logging d' x'"
| tp_rollback: "tp_reach logging d x \<Longrightarrow> tp_view d (unat (SlotNum r)) \<noteq> None \<Longrightarrow>
    RollbackDelete logging r d x = Some (d', x') \<Longrightarrow> tp_reach logging d' x'"
| tp_apply: "tp_reach logging d x \<Longrightarrow> tp_view d (unat (SlotNum r)) \<noteq> None \<Longrightarrow>
    ApplyDelete logging r d x = Some (d', x') \<Longrightarrow> tp_reach logging d' x'"
| tp_update: "tp_reach logging d x \<Longrightarrow> tp_view d (unat (SlotNum r)) = Some (False, bs) \<Longrightarrow>
    update_row idxs sch new (NewTuple (Some r) (of_nat (length bs)) bs) = Some u \<Longrightarrow> wf_tuple u \<Longrightarrow> t_size u \<noteq> 0 \<Longrightarrow>
    UpdateTuple logging new idxs sch old r d x = Some (res, old', d', x') \<Longrightarrow> tp_reach logging d' x'"
| tp_get: "tp_reach logging d x \<Longrightarrow> TP_GetTuple logging r d x = Some (res, x') \<Longrightarrow> tp_reach logging d x'"

lemma RollbackDelete_asserts: "RollbackDelete logging r d x = Some z \<Longrightarrow> assert_exclusive logging r x = Some ()"
  by (auto simp: RollbackDelete_def bind_Some_iff)

lemma ApplyDelete_asserts: "ApplyDelete logging r d x = Some z \<Longrightarrow> assert_exclusive logging r x = Some ()"
  by (auto simp: ApplyDelete_def bind_Some_iff Let_def split: if_splits)

lemma tp_reach_inv: "tp_reach logging d x \<Longrightarrow> tp_inv d \<and> ctx_ok logging x"
proof (induction rule: tp_reach.induct)
  case (tp_init d x pid prev d' x')
  then show ?case using Init_spec [OF tp_init(1,2), of pid prev] by auto
next
  case (tp_ins d x t res d' x')
  then show ?case using InsertTuple_spec [of d t logging x] by auto
next
  case (tp_mark d x r ok d' x')
  then show ?case using MarkDelete_spec [of d logging x r] by auto
next
  case (tp_rollback d x r d' x')
  then show ?case using RollbackDelete_spec [of d logging x r] RollbackDelete_asserts [OF tp_rollback(3)] by auto
next
  case (tp_apply d x r d' x')
  then show ?case using ApplyDelete_spec [of d logging x r] ApplyDelete_asserts [OF tp_apply(3)] view_unused by force
next
  case (tp_update d x r bs idxs sch new u old res old' d' x')
  have "t_size new \<noteq> 0" using tp_update.hyps(6) by (cases "t_size new = 0") (simp_all add: UpdateTuple_def)
  then show ?case using UpdateTuple_spec [of d logging x new r bs idxs sch u old] tp_update by auto
next
  case (tp_get d x r res x')
  then show ?case using TP_GetTuple_spec [of d logging x r] by auto
qed

text \<open>C29: in every page produced by any sequence of operations, the slot array ends before the tuple area, the
  stored tuples lie between the free space pointer and the end of the page, and no two of them overlap.\<close>

theorem table_page_layout:
  assumes "tp_reach logging d x" and "used d i" and "used d j"
  shows "length d = 4096 \<and> 24 + 8 * cnt d \<le> fsp d \<and> fsp d \<le> lo d i \<and> lo d i + ln d i \<le> 4096 \<and> 0 < ln d i \<and>
    (i \<noteq> j \<longrightarrow> {lo d i ..< lo d i + ln d i} \<inter> {lo d j ..< lo d j + ln d j} = {})"
proof -
  have inv: "tp_inv d" using tp_reach_inv [OF assms(1)] by blast
  show ?thesis
    using tp_invD(1,2) [OF inv] tp_invD(4-6) [OF inv assms(2)] tp_invD(7) [OF inv assms(2,3)] by auto
qed

theorem table_page_layout_witness:
  "\<exists>d x i. tp_reach False d x \<and> used d i \<and> fsp d \<le> lo d i \<and> lo d i + ln d i \<le> 4096"
proof (rule insert_example)
  fix r :: rid and t' d x assume i: "InsertTuple False example_tuple example_page None = Some (Inr (r, t'), d, x)"
    and v: "tp_view d = [unat (SlotNum r) \<mapsto> (False, [1, 2, 3])]"
  obtain d0 x0 where "Init False 5 InvalidPageID (replicate 4096 0) None = Some (d0, x0)" "x0 = None"
    using Init_spec [of "replicate 4096 0" False None 5 InvalidPageID] no_ctx_ok by auto
  then have "tp_reach False example_page None"
    using tp_init [of "replicate 4096 0" False None 5 InvalidPageID d0 None] no_ctx_ok by (simp add: example_page_def)
  then have r: "tp_reach False d x"
    by (rule tp_ins [OF _ example_tuple_ok(1) _ i]) (simp add: example_tuple_ok)
  have u: "used d (unat (SlotNum r))" using v by (metis view_unused fun_upd_same option.distinct(1))
  show ?thesis using table_page_layout [OF r u u] r u by blast
qed

subsection \<open>Scanning a page\<close>

text \<open>What the iterator does inside a page: from a record on, the records \<^verbatim>\<open>GetNextTupleRID\<close> gives.\<close>

fun page_scan :: "nat \<Rightarrow> rid option \<Rightarrow> bytes \<Rightarrow> rid list option" where
  "page_scan 0 cur d = None"
| "page_scan (Suc k) None d = Some []"
| "page_scan (Suc k) (Some r) d = do {
     nxt \<leftarrow> GetNextTupleRID r False d;
     rest \<leftarrow> page_scan k nxt d;
     Some (r # rest) }"

lemma next_ok_filter:
  assumes "next_ok d i res"
  shows "filter (used d) [i..<cnt d] = (case res of None \<Rightarrow> [] | Some s \<Rightarrow> s # filter (used d) [Suc s..<cnt d])"
proof (cases res)
  case None
  then show ?thesis using assms by (auto simp: next_ok_def view_unused filter_empty_conv)
next
  case (Some s)
  then have s: "i \<le> s" "used d s" "s < cnt d" "\<forall>j. i \<le> j \<longrightarrow> j < s \<longrightarrow> \<not> used d j"
    using assms by (auto simp: next_ok_def view_unused [symmetric]) (auto simp: tp_view_def used_def split: if_splits)
  have "[i..<cnt d] = [i..<s] @ s # [Suc s..<cnt d]"
    using s by (metis less_imp_le_nat upt_add_eq_append upt_conv_Cons le_Suc_ex)
  moreover have "filter (used d) [i..<s] = []" using s by (auto simp: filter_empty_conv)
  ultimately show ?thesis using Some s(2) by simp
qed

lemma page_scan_spec:
  assumes inv: "tp_inv d"
  shows "\<forall>c. cur = Some c \<longrightarrow> unat (SlotNum c) < cnt d \<Longrightarrow>
    next_ok d i (map_option (\<lambda>r. unat (SlotNum r)) cur) \<Longrightarrow> cnt d - i < k \<Longrightarrow>
    \<exists>rs. page_scan k cur d = Some rs \<and> map (\<lambda>r. unat (SlotNum r)) rs = filter (used d) [i..<cnt d]"
proof (induction k arbitrary: i cur)
  case (Suc k)
  show ?case
  proof (cases cur)
    case None
    then show ?thesis using next_ok_filter [OF Suc.prems(2)] by simp
  next
    case (Some r)
    have r: "unat (SlotNum r) < cnt d" using Suc.prems(1) Some by simp
    have ir: "i \<le> unat (SlotNum r)" using Suc.prems(2) Some by (simp add: next_ok_def)
    obtain nxt where n: "GetNextTupleRID r False d = Some nxt" "next_ok d (Suc (unat (SlotNum r))) (map_option (\<lambda>r. unat (SlotNum r)) nxt)"
      using GetNextTupleRID_spec [OF inv, of False r] r by auto
    have "\<forall>c. nxt = Some c \<longrightarrow> unat (SlotNum c) < cnt d"
      using n(2) by (auto simp: next_ok_def tp_view_def used_def split: if_splits)
    then obtain rs where "page_scan k nxt d = Some rs" "map (\<lambda>r. unat (SlotNum r)) rs = filter (used d) [Suc (unat (SlotNum r))..<cnt d]"
      using Suc.IH [OF _ n(2)] Suc.prems(3) ir r by fastforce
    then show ?thesis using next_ok_filter [OF Suc.prems(2)] Some n(1) by simp
  qed
qed simp

text \<open>C31: starting from \<^verbatim>\<open>GetTupleFirstRID\<close> and following \<^verbatim>\<open>GetNextTupleRID\<close>, a page is scanned in slot order,
  every slot in use exactly once.  The slots of applied deletions (size 0) are skipped, but those only marked for
  deletion are visited: the code tests the size for 0 and not \<^verbatim>\<open>IsDeleted\<close>, so what its comments call the first
  valid tuple may be a deleted one.\<close>

theorem page_scan_complete:
  assumes "tp_inv d"
  shows "\<exists>first rs. GetTupleFirstRID d = Some first \<and> page_scan (cnt d + 1) first d = Some rs \<and>
    map (\<lambda>r. unat (SlotNum r)) rs = filter (\<lambda>i. tp_view d i \<noteq> None) [0..<cnt d]"
proof -
  obtain first where f: "GetTupleFirstRID d = Some first" "next_ok d 0 (map_option (\<lambda>r. unat (SlotNum r)) first)"
    using GetTupleFirstRID_spec [OF assms] by blast
  have "\<forall>c. first = Some c \<longrightarrow> unat (SlotNum c) < cnt d"
    using f(2) by (auto simp: next_ok_def tp_view_def used_def split: if_splits)
  moreover have "(\<lambda>i. tp_view d i \<noteq> None) = used d" by (auto simp: view_unused fun_eq_iff)
  ultimately show ?thesis using page_scan_spec [OF assms _ f(2), of "cnt d + 1"] f(1) by auto
qed

text \<open>An insertion without logging into a page with every slot in use and with room takes the next slot.\<close>

lemma InsertTuple_appends:
  assumes inv: "tp_inv d" and t: "wf_tuple t" "t_size t \<noteq> 0" "unat (t_size t) < 4294967288" and full: "\<And>i. i < cnt d \<Longrightarrow> used d i"
    and room: "24 + 8 * cnt d + 8 + unat (t_size t) \<le> fsp d"
  shows "\<exists>r d'. InsertTuple False t d None = Some (Inr (r, t\<lparr>t_rid := Some r\<rparr>), d', None) \<and> tp_inv d' \<and> unat (SlotNum r) = cnt d \<and>
    tp_view d' = (tp_view d)(cnt d \<mapsto> (False, t_data t)) \<and> cnt d' = Suc (cnt d) \<and> fsp d' = fsp d - unat (t_size t)"
proof -
  obtain slot where s: "free_slot (cnt d) 0 d = Some slot" "unat slot \<le> cnt d" "\<not> used d (unat slot)"
    using free_slot_spec [OF inv, of 0 "cnt d"] by auto
  then have slot: "unat slot = cnt d" using full [of "unat slot"] by linarith
  have len: "length (t_data t) = unat (t_size t)" using t(1) by (simp add: wf_tuple_def)
  have fits: "\<not> getFreeSpaceRemaining d < t_size t + sizeTuple" using no_room_iff [OF inv t(3)] room by simp
  note body = insert_body [OF inv t(1,2) room s(2,3) no_ctx_ok(1) [of None]]
  define r where "r = RID_Set RID_zero (GetTablePageId d) slot"
  obtain d4 d' x' where b: "setTuple slot (t\<lparr>t_rid := Some r\<rparr>) (SetFreeSpacePointer (GetFreeSpacePointer d - t_size t) d) = Some d4"
      "log_write False (\<lambda>txn. NewLogRecordInsertDelete (txn_id txn) (prev_lsn txn) INSERT r (t\<lparr>t_rid := Some r\<rparr>))
         (if slot = GetTupleCount d4 then SetTupleCount (GetTupleCount d4 + 1) d4 else d4) None = Some (d', x')"
      "tp_inv d'" "tp_view d' = (tp_view d)(cnt d \<mapsto> (False, t_data t))" "lsn_only (put_bytes (cnt d) (t_data t) d) d'" "x' = None"
    using body unfolding r_def slot by blast
  note f = put_bytes_fields [OF inv order_refl, of "t_data t"]
  have "cnt d' = Suc (cnt d)" "fsp d' = fsp d - unat (t_size t)"
    using f(1,2,3) lsn_only_fields(2,3) [OF b(5)] room len by simp_all
  moreover have "InsertTuple False t d None = Some (Inr (r, t\<lparr>t_rid := Some r\<rparr>), d', None)"
    using t(2) fits s(1) b(1,2,6) by (simp add: InsertTuple_def lock_new_def r_def [symmetric] Let_def)
  moreover have "unat (SlotNum r) = cnt d" by (simp add: r_def RID_Set_def slot)
  ultimately show ?thesis using b(3,4) by blast
qed

text \<open>A page with two tuples, the first of them marked deleted: both are visited.\<close>

lemma marked_example:
  obtains d1 d2 d r1 r2 t1 t2 x where "InsertTuple False example_tuple example_page None = Some (Inr (r1, t1), d1, None)"
    "InsertTuple False example_tuple d1 None = Some (Inr (r2, t2), d2, None)" "MarkDelete False r1 d2 None = Some (True, d, x)"
    "tp_inv d" "tp_view d = [0 \<mapsto> (True, [1, 2, 3]), 1 \<mapsto> (False, [1, 2, 3])]"
proof -
  note t = example_tuple_ok(1) and e = example_page_ok example_tuple_ok
  obtain r1 d1 where 1: "InsertTuple False example_tuple example_page None = Some (Inr (r1, example_tuple\<lparr>t_rid := Some r1\<rparr>), d1, None)"
      "tp_inv d1" "unat (SlotNum r1) = 0" "tp_view d1 = [0 \<mapsto> (False, [1, 2, 3])]" "cnt d1 = 1" "fsp d1 = 4093"
    using InsertTuple_appends [OF e(1) t] e by auto
  have "used d1 i" if "i < cnt d1" for i using that 1(4,5) view_unused [of d1 i] by auto
  then obtain r2 d2 where 2: "InsertTuple False example_tuple d1 None = Some (Inr (r2, example_tuple\<lparr>t_rid := Some r2\<rparr>), d2, None)"
      "tp_inv d2" "tp_view d2 = [0 \<mapsto> (False, [1, 2, 3]), 1 \<mapsto> (False, [1, 2, 3])]"
    using InsertTuple_appends [OF 1(2) t] 1(4-6) e by auto
  obtain ok d x where m: "MarkDelete False r1 d2 None = Some (ok, d, x)" "tp_inv d"
      "if ok then \<exists>bs. tp_view d2 0 = Some (False, bs) \<and> tp_view d = (tp_view d2)(0 \<mapsto> (True, bs))
       else \<forall>bs. tp_view d2 0 \<noteq> Some (False, bs)"
    using MarkDelete_spec [OF 2(2) no_ctx_ok(1), of r1 None] unfolding 1(3) by (metis (full_types))
  have "ok" "tp_view d = [0 \<mapsto> (True, [1, 2, 3]), 1 \<mapsto> (False, [1, 2, 3])]"
    using m(3) 2(3) by (auto split: if_splits)
  with m 1(1) 2(1) show thesis by (intro that) simp_all
qed

theorem page_scan_complete_witness:
  "\<exists>d1 d2 d r1 r2 t1 t2 x first rs. InsertTuple False example_tuple example_page None = Some (Inr (r1, t1), d1, None) \<and>
     InsertTuple False example_tuple d1 None = Some (Inr (r2, t2), d2, None) \<and> MarkDelete False r1 d2 None = Some (True, d, x) \<and>
     GetTupleFirstRID d = Some first \<and> page_scan (cnt d + 1) first d = Some rs \<and> map (\<lambda>r. unat (SlotNum r)) rs = [0, 1]"
proof (rule marked_example)
  fix d1 d2 d :: bytes and r1 r2 t1 t2 x
  assume i: "InsertTuple False example_tuple example_page None = Some (Inr (r1, t1), d1, None)"
      "InsertTuple False example_tuple d1 None = Some (Inr (r2, t2), d2, None)" "MarkDelete False r1 d2 None = Some (True, d, x)"
    and d: "tp_inv d" "tp_view d = [0 \<mapsto> (True, [1, 2, 3]), 1 \<mapsto> (False, [1, 2, 3])]"
  have "1 < cnt d" using d(2) view_unused [of d 1] by (auto simp: used_def)
  then have "[0..<cnt d] = 0 # 1 # [2..<cnt d]" by (simp add: upt_conv_Cons numeral_2_eq_2)
  then have "filter (\<lambda>i. tp_view d i \<noteq> None) [0..<cnt d] = [0, 1]"
    using d(2) filter_False [of "[2..<cnt d]" "\<lambda>i. tp_view d i \<noteq> None"] by auto
  then show ?thesis using page_scan_complete [OF d(1)] i by metis
qed

end
