(* ===== verification/Circular_List.thy ===== *)
theory Circular_List
  imports Prelude
begin

text \<open>
  \<^verbatim>\<open>storage/buffer/circular_list.go\<close>: a doubly linked ring of nodes.  Nodes live in an explicit heap
  (an address stands for a \<^verbatim>\<open>*node\<close>, the absence of one for \<^verbatim>\<open>nil\<close>), because the clock replacer
  keeps a pointer into a node's \<^verbatim>\<open>next\<close> field.  Keys are the replacer's frame ids, values its
  reference bits.  The invariant \<open>ring\<close> ties the heap to the list of addresses from head to tail.
\<close>

type_synonym FrameID = u32
type_synonym addr = nat

record node =
  n_key :: FrameID
  n_value :: bool
  n_next :: "addr option"
  n_prev :: "addr option"

type_synonym heap = "addr \<Rightarrow> node option"

record circularList =
  c_heap :: heap
  c_fresh :: addr
  c_head :: "addr option"
  c_tail :: "addr option"
  c_size :: u32
  c_capacity :: u32

definition newCircularList :: "u32 \<Rightarrow> circularList" where
  "newCircularList maxSize =
     \<lparr>c_heap = (\<lambda>_. None), c_fresh = 0, c_head = None, c_tail = None, c_size = 0, c_capacity = maxSize\<rparr>"

text \<open>Reading and writing a field through a pointer; \<^verbatim>\<open>nil\<close> panics.\<close>

definition deref :: "circularList \<Rightarrow> addr option \<Rightarrow> (addr \<times> node) option" where
  "deref c p = do { a \<leftarrow> p; n \<leftarrow> c_heap c a; Some (a, n) }"

definition upd_node :: "(node \<Rightarrow> node) \<Rightarrow> addr option \<Rightarrow> circularList \<Rightarrow> circularList option" where
  "upd_node f p c = do { (a, n) \<leftarrow> deref c p; Some (c\<lparr>c_heap := (c_heap c)(a \<mapsto> f n)\<rparr>) }"

text \<open>\<^verbatim>\<open>find\<close>: the outer option is the panic, the inner one a \<^verbatim>\<open>nil\<close> result.\<close>

fun find_loop :: "nat \<Rightarrow> circularList \<Rightarrow> FrameID \<Rightarrow> addr option \<Rightarrow> addr option option" where
  "find_loop 0 c key ptr = Some None"
| "find_loop (Suc i) c key ptr = do {
     (a, n) \<leftarrow> deref c ptr;
     if n_key n = key then Some (Some a) else find_loop i c key (n_next n) }"

definition cl_find :: "circularList \<Rightarrow> FrameID \<Rightarrow> addr option option" where
  "cl_find c key = find_loop (unat (c_size c)) c key (c_head c)"

definition hasKey :: "circularList \<Rightarrow> FrameID \<Rightarrow> bool option" where
  "hasKey c key = do { p \<leftarrow> cl_find c key; Some (p \<noteq> None) }"

text \<open>The first component tells whether \<^verbatim>\<open>nil\<close> is returned (no error).\<close>

definition cl_insert :: "FrameID \<Rightarrow> bool \<Rightarrow> circularList \<Rightarrow> (bool \<times> circularList) option" where
  "cl_insert key val c =
     (if c_size c = c_capacity c then Some (False, c)
      else
        let new = c_fresh c;
            c = c\<lparr>c_fresh := new + 1,
                  c_heap := (c_heap c)(new \<mapsto> \<lparr>n_key = key, n_value = val, n_next = None, n_prev = None\<rparr>)\<rparr>
        in if c_size c = 0 then do {
             c \<leftarrow> upd_node (\<lambda>n. n\<lparr>n_next := Some new\<rparr>) (Some new) c;
             c \<leftarrow> upd_node (\<lambda>n. n\<lparr>n_prev := Some new\<rparr>) (Some new) c;
             Some (True, c\<lparr>c_head := Some new, c_tail := Some new, c_size := c_size c + 1\<rparr>) }
           else do {
             found \<leftarrow> cl_find c key;
             case found of
               Some a \<Rightarrow> do { c \<leftarrow> upd_node (\<lambda>n. n\<lparr>n_value := val\<rparr>) (Some a) c; Some (True, c) }
             | None \<Rightarrow> do {
                 c \<leftarrow> upd_node (\<lambda>n. n\<lparr>n_next := c_head c\<rparr>) (Some new) c;
                 c \<leftarrow> upd_node (\<lambda>n. n\<lparr>n_prev := c_tail c\<rparr>) (Some new) c;
                 c \<leftarrow> upd_node (\<lambda>n. n\<lparr>n_next := Some new\<rparr>) (c_tail c) c;
                 c \<leftarrow> (if c_head c = c_tail c then upd_node (\<lambda>n. n\<lparr>n_next := Some new\<rparr>) (c_head c) c else Some c);
                 let c = c\<lparr>c_tail := Some new\<rparr>;
                 c \<leftarrow> upd_node (\<lambda>n. n\<lparr>n_prev := c_tail c\<rparr>) (c_head c) c;
                 Some (True, c\<lparr>c_size := c_size c + 1\<rparr>) } })"

definition cl_remove :: "FrameID \<Rightarrow> circularList \<Rightarrow> circularList option" where
  "cl_remove key c = do {
     found \<leftarrow> cl_find c key;
     case found of None \<Rightarrow> Some c
     | Some node \<Rightarrow>
       if c_size c = 1 then Some (c\<lparr>c_head := None, c_tail := None, c_size := c_size c - 1\<rparr>)
       else do {
         c \<leftarrow> (if c_head c = Some node
               then do { (_, h) \<leftarrow> deref c (c_head c); Some (c\<lparr>c_head := n_next h\<rparr>) } else Some c);
         c \<leftarrow> (if c_tail c = Some node
               then do { (_, t) \<leftarrow> deref c (c_tail c); Some (c\<lparr>c_tail := n_prev t\<rparr>) } else Some c);
         (_, n) \<leftarrow> deref c (Some node);
         c \<leftarrow> upd_node (\<lambda>m. m\<lparr>n_prev := n_prev n\<rparr>) (n_next n) c;
         (_, n) \<leftarrow> deref c (Some node);
         c \<leftarrow> upd_node (\<lambda>m. m\<lparr>n_next := n_next n\<rparr>) (n_prev n) c;
         Some (c\<lparr>c_size := c_size c - 1\<rparr>) } }"

definition isFull :: "circularList \<Rightarrow> bool" where
  "isFull c \<longleftrightarrow> c_size c = c_capacity c"

subsection \<open>Chains and rings in the heap\<close>

fun chain :: "heap \<Rightarrow> addr list \<Rightarrow> bool" where
  "chain h [] = True"
| "chain h [a] = (h a \<noteq> None)"
| "chain h (a # b # as) = ((\<exists>m n. h a = Some m \<and> h b = Some n \<and> n_next m = Some b \<and> n_prev n = Some a) \<and> chain h (b # as))"

text \<open>The nodes \<open>as\<close>, head first, form a ring: the last is followed by the first.\<close>

definition ring :: "heap \<Rightarrow> addr list \<Rightarrow> bool" where
  "ring h as \<longleftrightarrow> as \<noteq> [] \<longrightarrow> chain h (as @ [hd as])"

lemma chain_append: "chain h (as @ b # bs) \<longleftrightarrow> chain h (as @ [b]) \<and> chain h (b # bs)"
proof (induction as)
  case Nil
  then show ?case by (cases bs) auto
next
  case (Cons a as)
  then show ?case by (cases as) auto
qed

lemma chain_alloc: "chain h as \<Longrightarrow> a \<in> set as \<Longrightarrow> h a \<noteq> None"
  by (induction h as rule: chain.induct) auto

lemma ring_rotate: "ring h (as @ bs) \<Longrightarrow> ring h (bs @ as)"
proof (cases "as = [] \<or> bs = []")
  case False
  then obtain a as' b bs' where "as = a # as'" "bs = b # bs'"
    by (meson neq_Nil_conv)
  moreover assume "ring h (as @ bs)"
  ultimately show ?thesis
    using chain_append [of h "a # as'" b "bs' @ [a]"] chain_append [of h "b # bs'" a "as' @ [b]"]
    by (simp add: ring_def)
qed auto

text \<open>A chain does not depend on the links that leave it.\<close>

lemma chain_cong:
  assumes "chain h as"
    and "\<And>a n. a \<in> set as \<Longrightarrow> h a = Some n \<Longrightarrow>
      \<exists>n'. h' a = Some n' \<and> (a \<in> set (butlast as) \<longrightarrow> n_next n' = n_next n) \<and> (a \<in> set (tl as) \<longrightarrow> n_prev n' = n_prev n)"
  shows "chain h' as"
  using assms
proof (induction h as rule: chain.induct)
  case (3 h a b as)
  obtain m n where mn: "h a = Some m" "h b = Some n" "n_next m = Some b" "n_prev n = Some a"
    using "3.prems"(1) by auto
  have "chain h' (b # as)"
  proof (rule "3.IH")
    show "chain h (b # as)" using "3.prems"(1) by simp
    fix c x assume "c \<in> set (b # as)" "h c = Some x"
    then show "\<exists>n'. h' c = Some n' \<and> (c \<in> set (butlast (b # as)) \<longrightarrow> n_next n' = n_next x) \<and>
        (c \<in> set (tl (b # as)) \<longrightarrow> n_prev n' = n_prev x)"
      using "3.prems"(2) [of c x] by (auto split: if_splits)
  qed
  moreover obtain m' where "h' a = Some m'" "n_next m' = Some b"
    using "3.prems"(2) [of a m] mn by auto
  moreover obtain n' where "h' b = Some n'" "n_prev n' = Some a"
    using "3.prems"(2) [of b n] mn by auto
  ultimately show ?case by simp
qed auto

lemma chain_snoc:
  "chain h as \<Longrightarrow> as \<noteq> [] \<Longrightarrow> h (last as) = Some m \<Longrightarrow> h b = Some n \<Longrightarrow> n_next m = Some b \<Longrightarrow>
   n_prev n = Some (last as) \<Longrightarrow> chain h (as @ [b])"
  by (cases as rule: rev_cases) (auto simp: chain_append [of h _ _ "[b]"])

lemma ring_close:
  "chain h as \<Longrightarrow> as \<noteq> [] \<Longrightarrow> h (last as) = Some m \<Longrightarrow> h (hd as) = Some n \<Longrightarrow> n_next m = Some (hd as) \<Longrightarrow>
   n_prev n = Some (last as) \<Longrightarrow> ring h as"
  by (auto simp: ring_def intro: chain_snoc)

lemma chain_link:
  "chain h (as @ a # b # bs) \<Longrightarrow> \<exists>m n. h a = Some m \<and> h b = Some n \<and> n_next m = Some b \<and> n_prev n = Some a"
  using chain_append [of h as a "b # bs"] by simp

lemma ring_first:
  assumes "ring h (a # as)" and "as \<noteq> []"
  shows "\<exists>n. h a = Some n \<and> n_next n = Some (hd as) \<and> n_prev n = Some (last as)" and "chain h as"
proof -
  obtain b bs where as: "as = b # bs" using assms(2) by (cases as) auto
  have c: "chain h ((a # as) @ [a])"
    using assms(1) by (simp add: ring_def)
  have "chain h ((a # butlast as) @ last as # a # [])"
    using c assms(2) by (cases as rule: rev_cases) auto
  then have "\<exists>m n. h (last as) = Some m \<and> h a = Some n \<and> n_next m = Some a \<and> n_prev n = Some (last as)"
    by (rule chain_link)
  then show "\<exists>n. h a = Some n \<and> n_next n = Some (hd as) \<and> n_prev n = Some (last as)"
    using c as by auto
  have "chain h (as @ a # [])"
    using c as by simp
  then show "chain h as"
    using assms(2)
  proof (induction as rule: rev_induct)
    case (snoc x xs)
    then show ?case using chain_append [of h xs x "[a]"] by simp
  qed simp
qed

lemma ring_single: "ring h [a] \<Longrightarrow> \<exists>n. h a = Some n \<and> n_next n = Some a \<and> n_prev n = Some a"
  by (auto simp: ring_def)

subsection \<open>The invariant\<close>

definition key_at :: "circularList \<Rightarrow> addr \<Rightarrow> FrameID" where
  "key_at c a = n_key (the (c_heap c a))"

definition value_at :: "circularList \<Rightarrow> addr \<Rightarrow> bool" where
  "value_at c a = n_value (the (c_heap c a))"

definition cl_inv :: "circularList \<Rightarrow> addr list \<Rightarrow> bool" where
  "cl_inv c as \<longleftrightarrow> ring (c_heap c) as \<and> distinct as \<and> distinct (map (key_at c) as) \<and>
     c_head c = (if as = [] then None else Some (hd as)) \<and>
     c_tail c = (if as = [] then None else Some (last as)) \<and>
     unat (c_size c) = length as \<and> length as \<le> unat (c_capacity c) \<and>
     (\<forall>a. c_heap c a \<noteq> None \<longrightarrow> a < c_fresh c)"

text \<open>What an operation that changes only links keeps: every node with its key and value, and
  every field of the nodes outside the list.\<close>

definition same_nodes :: "circularList \<Rightarrow> circularList \<Rightarrow> bool" where
  "same_nodes c c' \<longleftrightarrow> (\<forall>a n. c_heap c a = Some n \<longrightarrow>
     (\<exists>n'. c_heap c' a = Some n' \<and> n_key n' = n_key n \<and> n_value n' = n_value n))"

lemma cl_inv_new: "cl_inv (newCircularList n) []"
  by (simp add: cl_inv_def newCircularList_def ring_def)

lemma ring_alloc: "ring h as \<Longrightarrow> a \<in> set as \<Longrightarrow> \<exists>n. h a = Some n"
  using chain_alloc [of h "as @ [hd as]" a] by (auto simp: ring_def)

lemma cl_inv_alloc: "cl_inv c as \<Longrightarrow> a \<in> set as \<Longrightarrow> \<exists>n. c_heap c a = Some n \<and> a < c_fresh c"
  using ring_alloc [of "c_heap c" as a] by (auto simp: cl_inv_def)

lemma same_nodes_at:
  "same_nodes c c' \<Longrightarrow> c_heap c a \<noteq> None \<Longrightarrow> key_at c' a = key_at c a \<and> value_at c' a = value_at c a"
  by (fastforce simp: same_nodes_def key_at_def value_at_def)

lemma same_nodes_map:
  assumes "same_nodes c c'" and "\<And>a. a \<in> set as \<Longrightarrow> c_heap c a \<noteq> None"
  shows "map (key_at c') as = map (key_at c) as" and "map (value_at c') as = map (value_at c) as"
  using assms same_nodes_at by auto

lemma find_loop_chain:
  "chain (c_heap c) (as @ [z]) \<Longrightarrow>
   find_loop (length as) c key (Some (hd (as @ [z]))) = Some (List.find (\<lambda>a. key_at c a = key) as)"
proof (induction as)
  case (Cons a as)
  obtain n where "c_heap c a = Some n" "n_next n = Some (hd (as @ [z]))"
    using Cons.prems by (cases as) auto
  moreover have "chain (c_heap c) (as @ [z])"
    using Cons.prems by (cases as) auto
  ultimately show ?case
    using Cons.IH by (auto simp: deref_def key_at_def)
qed simp

lemma cl_find_eq: "cl_inv c as \<Longrightarrow> cl_find c key = Some (List.find (\<lambda>a. key_at c a = key) as)"
  using find_loop_chain [of c as "hd as" key]
  by (cases as) (auto simp: cl_find_def cl_inv_def ring_def)

lemma hasKey_eq: "cl_inv c as \<Longrightarrow> hasKey c key = Some (key \<in> key_at c ` set as)"
  by (cases "List.find (\<lambda>a. key_at c a = key) as")
    (auto simp: hasKey_def cl_find_eq find_None_iff find_Some_iff)

lemma ring_cong: "ring h as \<Longrightarrow> (\<And>a. a \<in> set as \<Longrightarrow> h' a = h a) \<Longrightarrow> ring h' as"
  unfolding ring_def by (auto intro!: chain_cong [of h "as @ [hd as]" h'])

lemma cl_inv_fresh_node:
  assumes "cl_inv c as"
  shows "cl_inv (c\<lparr>c_fresh := c_fresh c + 1, c_heap := (c_heap c)(c_fresh c \<mapsto> n)\<rparr>) as"
proof -
  let ?c = "c\<lparr>c_fresh := c_fresh c + 1, c_heap := (c_heap c)(c_fresh c \<mapsto> n)\<rparr>"
  have "a \<in> set as \<Longrightarrow> a \<noteq> c_fresh c" for a
    using cl_inv_alloc [OF assms] by fastforce
  then have r: "ring (c_heap ?c) as" and k: "map (key_at ?c) as = map (key_at c) as"
    using assms by (auto simp: cl_inv_def key_at_def intro: ring_cong)
  have "distinct (map (key_at ?c) as)"
    using assms unfolding k by (simp add: cl_inv_def)
  with assms r show ?thesis by (auto simp: cl_inv_def less_Suc_eq)
qed

text \<open>Appending a new node behind the last one.\<close>

definition link_last :: "heap \<Rightarrow> addr list \<Rightarrow> addr \<Rightarrow> node \<Rightarrow> heap" where
  "link_last h as new n =
     (let h1 = h(new \<mapsto> n\<lparr>n_next := Some (hd as), n_prev := Some (last as)\<rparr>);
          h2 = h1(last as \<mapsto> (the (h1 (last as)))\<lparr>n_next := Some new\<rparr>)
      in h2(hd as \<mapsto> (the (h2 (hd as)))\<lparr>n_prev := Some new\<rparr>))"

lemma ring_link_last:
  assumes r: "ring h as" and ne: "as \<noteq> []" and d: "distinct as" and new: "new \<notin> set as"
  shows "ring (link_last h as new n) (as @ [new])"
proof -
  let ?h = "link_last h as new n"
  have ch: "chain h as"
  proof (cases as rule: rev_cases)
    case (snoc bs b)
    then show ?thesis
      using r chain_append [of h bs b "[hd as]"] by (auto simp: ring_def)
  qed (simp add: ne)
  have in_as: "hd as \<in> set as" "last as \<in> set as"
    using ne by auto
  have last_bl: "last as \<notin> set (butlast as)"
    using d by (cases as rule: rev_cases) auto
  have hd_tl: "hd as \<notin> set (tl as)"
    using d by (cases as) auto
  have ch': "chain ?h as"
    using ch new in_as last_bl hd_tl
    by (intro chain_cong [OF ch]) (auto simp: link_last_def Let_def)
  have "new \<noteq> last as" "new \<noteq> hd as"
    using in_as new by auto
  then obtain m k where links: "?h (last as) = Some m" "n_next m = Some new" "?h (hd as) = Some k" "n_prev k = Some new"
      "?h new = Some (n\<lparr>n_next := Some (hd as), n_prev := Some (last as)\<rparr>)"
    by (cases "last as = hd as") (auto simp: link_last_def Let_def)
  then have "chain ?h (as @ [new])"
    by (intro chain_snoc [OF ch' ne]) auto
  then show ?thesis
    using links ne by (rule_tac ring_close) auto
qed

lemma cl_insert_eq:
  assumes inv: "cl_inv c as" and "c_size c \<noteq> c_capacity c" and "key \<notin> key_at c ` set as" and ne: "as \<noteq> []"
  shows "cl_insert key val c = Some (True, c\<lparr>c_fresh := c_fresh c + 1, c_size := c_size c + 1, c_tail := Some (c_fresh c),
      c_heap := link_last (c_heap c) as (c_fresh c) \<lparr>n_key = key, n_value = val, n_next = None, n_prev = None\<rparr>\<rparr>)"
proof -
  let ?n = "\<lparr>n_key = key, n_value = val, n_next = None, n_prev = None\<rparr>"
  let ?c = "c\<lparr>c_fresh := c_fresh c + 1, c_heap := (c_heap c)(c_fresh c \<mapsto> ?n)\<rparr>"
  have in_as: "hd as \<in> set as" "last as \<in> set as"
    using ne by auto
  then obtain m k where mk: "c_heap c (hd as) = Some m" "c_heap c (last as) = Some k"
      "hd as \<noteq> c_fresh c" "last as \<noteq> c_fresh c"
    using cl_inv_alloc [OF inv] by (metis less_irrefl)
  have "key_at ?c a = key_at c a" if "a \<in> set as" for a
    using that cl_inv_alloc [OF inv] by (fastforce simp: key_at_def)
  then have "List.find (\<lambda>a. key_at ?c a = key) as = None"
    using assms(3) by (auto simp: find_None_iff)
  then have "cl_find ?c key = Some None"
    using cl_find_eq [OF cl_inv_fresh_node [OF inv]] by simp
  moreover have "c_size c \<noteq> 0" "c_head c = Some (hd as)" "c_tail c = Some (last as)"
    using inv ne by (auto simp: cl_inv_def)
  ultimately show ?thesis
    using assms(2) mk by (auto simp: cl_insert_def Let_def upd_node_def deref_def link_last_def fun_upd_twist)
qed

lemma cl_insert_spec:
  assumes inv: "cl_inv c as" and room: "c_size c \<noteq> c_capacity c" and new: "key \<notin> key_at c ` set as"
  shows "\<exists>c'. cl_insert key val c = Some (True, c') \<and> cl_inv c' (as @ [c_fresh c]) \<and> same_nodes c c' \<and>
      key_at c' (c_fresh c) = key \<and> value_at c' (c_fresh c) = val \<and> c_capacity c' = c_capacity c \<and>
      (\<forall>a. a \<notin> set as \<longrightarrow> a \<noteq> c_fresh c \<longrightarrow> c_heap c' a = c_heap c a)"
proof -
  let ?n = "\<lparr>n_key = key, n_value = val, n_next = None, n_prev = None\<rparr>"
  let ?new = "c_fresh c"
  have lt: "length as < unat (c_capacity c)" and sz: "unat (c_size c) = length as"
    using inv room by (auto simp: cl_inv_def word_unat_eq_iff)
  then have sz': "unat (c_size c + 1) = Suc (length as)"
    using unat_add_less [of "c_size c" 1] unat_less_2p32 [of "c_capacity c"] by simp
  have fresh: "?new \<notin> set as" "c_heap c ?new = None"
    using cl_inv_alloc [OF inv] inv by (auto simp: cl_inv_def)
  show ?thesis
  proof (cases "as = []")
    case True
    with assms sz lt fresh show ?thesis
      by (auto simp: cl_insert_def Let_def upd_node_def deref_def cl_inv_def ring_def same_nodes_def key_at_def
          value_at_def unat_eq_zero less_Suc_eq)
  next
    case False
    let ?h = "link_last (c_heap c) as ?new ?n"
    let ?c = "c\<lparr>c_fresh := Suc (c_fresh c), c_size := c_size c + 1, c_tail := Some ?new, c_heap := ?h\<rparr>"
    have in_as: "hd as \<in> set as" "last as \<in> set as"
      using False by auto
    then obtain m k where "c_heap c (hd as) = Some m" "c_heap c (last as) = Some k" "?new \<noteq> hd as" "?new \<noteq> last as"
      using cl_inv_alloc [OF inv] by (metis less_irrefl)
    then have same: "same_nodes c ?c" and kv: "key_at ?c ?new = key" "value_at ?c ?new = val"
      and frame: "\<forall>a. a \<notin> set as \<longrightarrow> a \<noteq> ?new \<longrightarrow> c_heap ?c a = c_heap c a"
      and dom: "c_heap ?c a \<noteq> None \<longleftrightarrow> c_heap c a \<noteq> None \<or> a = ?new" for a
      using in_as fresh by (auto simp: same_nodes_def key_at_def value_at_def link_last_def Let_def)
    have keys: "map (key_at ?c) as = map (key_at c) as"
      using cl_inv_alloc [OF inv] by (intro same_nodes_map [OF same]) auto
    have "ring ?h (as @ [?new])"
      using inv False fresh by (intro ring_link_last) (auto simp: cl_inv_def)
    moreover have "distinct (map (key_at ?c) (as @ [?new]))"
      using inv new by (simp only: map_append keys) (auto simp: cl_inv_def kv)
    ultimately have "cl_inv ?c (as @ [?new])"
      using inv lt False sz' fresh dom by (auto simp: cl_inv_def less_Suc_eq)
    then show ?thesis
      using cl_insert_eq [OF inv room new False, of val] same kv frame by auto
  qed
qed

text \<open>Taking a node out: its neighbours, the last and the first of the other nodes, are linked.\<close>

definition unlink :: "heap \<Rightarrow> addr list \<Rightarrow> heap" where
  "unlink h zs =
     (let h1 = h(hd zs \<mapsto> (the (h (hd zs)))\<lparr>n_prev := Some (last zs)\<rparr>)
      in h1(last zs \<mapsto> (the (h1 (last zs)))\<lparr>n_next := Some (hd zs)\<rparr>))"

lemma ring_unlink:
  assumes r: "ring h (a # zs)" and ne: "zs \<noteq> []" and d: "distinct (a # zs)"
  shows "ring (unlink h zs) zs"
proof -
  let ?h = "unlink h zs"
  have last_bl: "last zs \<notin> set (butlast zs)"
    using d by (cases zs rule: rev_cases) auto
  have hd_tl: "hd zs \<notin> set (tl zs)"
    using d by (cases zs) auto
  have "chain ?h zs"
    using last_bl hd_tl by (intro chain_cong [OF ring_first(2) [OF r ne]]) (auto simp: unlink_def Let_def)
  moreover obtain m k where "?h (last zs) = Some m" "n_next m = Some (hd zs)" "?h (hd zs) = Some k" "n_prev k = Some (last zs)"
    by (cases "last zs = hd zs") (auto simp: unlink_def Let_def)
  ultimately show ?thesis
    using ne by (rule_tac ring_close) auto
qed

lemma find_by_key: "distinct (map f as) \<Longrightarrow> a \<in> set as \<Longrightarrow> List.find (\<lambda>b. f b = f a) as = Some a"
  by (induction as) (auto simp: image_iff)

lemma cl_find_member: "cl_inv c as \<Longrightarrow> a \<in> set as \<Longrightarrow> cl_find c (key_at c a) = Some (Some a)"
  using find_by_key [of "key_at c" as a] by (simp add: cl_find_eq) (simp add: cl_inv_def)

lemma cl_remove_eq:
  assumes inv: "cl_inv c (xs @ a # ys)" and ne: "xs @ ys \<noteq> []"
  shows "cl_remove (key_at c a) c = Some (c\<lparr>c_heap := unlink (c_heap c) (ys @ xs), c_size := c_size c - 1,
      c_head := Some (hd (xs @ ys)), c_tail := Some (last (xs @ ys))\<rparr>)"
proof -
  let ?zs = "ys @ xs"
  have ne': "?zs \<noteq> []" using ne by auto
  have r: "ring (c_heap c) (a # ?zs)"
    using inv ring_rotate [of "c_heap c" xs "a # ys"] by (simp add: cl_inv_def)
  obtain n where n: "c_heap c a = Some n" "n_next n = Some (hd ?zs)" "n_prev n = Some (last ?zs)"
    using ring_first(1) [OF r ne'] by blast
  have "hd ?zs \<in> set ?zs" "last ?zs \<in> set ?zs"
    using ne' by (auto simp del: set_append)
  then have "hd ?zs \<in> set (xs @ a # ys)" "last ?zs \<in> set (xs @ a # ys)" "hd ?zs \<noteq> a" "last ?zs \<noteq> a"
    using inv by (auto simp: cl_inv_def)
  then obtain m k where mk: "c_heap c (hd ?zs) = Some m" "c_heap c (last ?zs) = Some k" "hd ?zs \<noteq> a" "last ?zs \<noteq> a"
    using cl_inv_alloc [OF inv] by blast
  have find: "cl_find c (key_at c a) = Some (Some a)"
    using cl_find_member [OF inv] by simp
  have sz: "c_size c \<noteq> 1"
    using inv ne by (auto simp: cl_inv_def)
  have h: "(if c_head c = Some a then n_next n else c_head c) = Some (hd (xs @ ys))"
    using inv n by (cases xs) (auto simp: cl_inv_def)
  have t: "(if c_tail c = Some a then n_prev n else c_tail c) = Some (last (xs @ ys))"
    using inv n by (cases ys rule: rev_cases) (auto simp: cl_inv_def)
  show ?thesis
    using find sz n mk h t
    by (auto simp: cl_remove_def upd_node_def deref_def unlink_def Let_def split: if_splits)
qed

lemma cl_remove_spec:
  assumes inv: "cl_inv c (xs @ a # ys)"
  shows "\<exists>c'. cl_remove (key_at c a) c = Some c' \<and> cl_inv c' (xs @ ys) \<and> same_nodes c c' \<and>
      c_capacity c' = c_capacity c \<and> c_fresh c' = c_fresh c \<and>
      (\<forall>b. b \<notin> set (xs @ ys) \<longrightarrow> c_heap c' b = c_heap c b)"
proof (cases "xs @ ys = []")
  case True
  then have "cl_find c (key_at c a) = Some (Some a)" "c_size c = 1"
    using cl_find_member [OF inv, of a] inv by (auto simp: cl_inv_def word_unat_eq_iff)
  with True inv show ?thesis
    by (auto simp: cl_remove_def cl_inv_def ring_def same_nodes_def)
next
  case False
  let ?h = "unlink (c_heap c) (ys @ xs)"
  let ?c = "c\<lparr>c_heap := ?h, c_size := c_size c - 1, c_head := Some (hd (xs @ ys)), c_tail := Some (last (xs @ ys))\<rparr>"
  have ne: "ys @ xs \<noteq> []" using False by auto
  have "hd (ys @ xs) \<in> set (ys @ xs)" "last (ys @ xs) \<in> set (ys @ xs)"
    using ne by (auto simp del: set_append)
  then have in_xy: "hd (ys @ xs) \<in> set (xs @ ys)" "last (ys @ xs) \<in> set (xs @ ys)"
    by auto
  then obtain m k where "c_heap c (hd (ys @ xs)) = Some m" "c_heap c (last (ys @ xs)) = Some k"
    using cl_inv_alloc [OF inv] by (metis Un_iff list.set_intros(2) set_append)
  then have same: "same_nodes c ?c" and frame: "\<forall>b. b \<notin> set (xs @ ys) \<longrightarrow> c_heap ?c b = c_heap c b"
    and dom: "c_heap ?c b \<noteq> None \<longleftrightarrow> c_heap c b \<noteq> None" for b
    using in_xy by (auto simp: same_nodes_def unlink_def Let_def)
  have keys: "map (key_at ?c) (xs @ ys) = map (key_at c) (xs @ ys)"
    using cl_inv_alloc [OF inv] by (intro same_nodes_map [OF same]) auto
  have "ring (c_heap c) (a # ys @ xs)" "distinct (a # ys @ xs)"
    using inv ring_rotate [of "c_heap c" xs "a # ys"] by (auto simp: cl_inv_def)
  then have "ring ?h (xs @ ys)"
    using ring_unlink [of "c_heap c" a "ys @ xs"] ne ring_rotate by blast
  moreover have "distinct (map (key_at ?c) (xs @ ys))"
    unfolding keys using inv by (simp add: cl_inv_def)
  moreover have "unat (c_size c - 1) = length (xs @ ys)"
    using inv unat_sub_le [of 1 "c_size c"] by (simp add: cl_inv_def)
  ultimately have "cl_inv ?c (xs @ ys)"
    using inv False dom by (auto simp: cl_inv_def)
  then show ?thesis
    using cl_remove_eq [OF inv False] same frame by auto
qed

lemma cl_remove_absent: "cl_inv c as \<Longrightarrow> key \<notin> key_at c ` set as \<Longrightarrow> cl_remove key c = Some c"
proof -
  assume inv: "cl_inv c as" and "key \<notin> key_at c ` set as"
  then have "List.find (\<lambda>a. key_at c a = key) as = None"
    by (auto simp: find_None_iff)
  with cl_find_eq [OF inv] show ?thesis by (simp add: cl_remove_def)
qed

text \<open>On a ring that represents the nodes \<open>as\<close>, inserting a new key appends one node and removing a key
  unlinks exactly its node; both keep the ring well-formed (in both directions), the keys of the other
  nodes, and never follow a \<^verbatim>\<open>nil\<close> pointer.\<close>

theorem circularList_refines_list:
  assumes "cl_inv c as"
  shows "(c_size c \<noteq> c_capacity c \<and> key \<notin> key_at c ` set as \<longrightarrow>
      (\<exists>c'. cl_insert key val c = Some (True, c') \<and> cl_inv c' (as @ [c_fresh c]) \<and>
        map (key_at c') (as @ [c_fresh c]) = map (key_at c) as @ [key])) \<and>
    (\<forall>xs a ys. as = xs @ a # ys \<longrightarrow>
      (\<exists>c'. cl_remove (key_at c a) c = Some c' \<and> cl_inv c' (xs @ ys) \<and>
        map (key_at c') (xs @ ys) = map (key_at c) (xs @ ys))) \<and>
    (key \<notin> key_at c ` set as \<longrightarrow> cl_remove key c = Some c)"
proof (intro conjI allI impI)
  assume "c_size c \<noteq> c_capacity c \<and> key \<notin> key_at c ` set as"
  then obtain c' where "cl_insert key val c = Some (True, c')" "cl_inv c' (as @ [c_fresh c])" "same_nodes c c'"
      "key_at c' (c_fresh c) = key"
    using cl_insert_spec [OF assms, of key val] by blast
  moreover have "map (key_at c') as = map (key_at c) as"
    using cl_inv_alloc [OF assms] by (intro same_nodes_map [OF \<open>same_nodes c c'\<close>]) auto
  ultimately show "\<exists>c'. cl_insert key val c = Some (True, c') \<and> cl_inv c' (as @ [c_fresh c]) \<and>
      map (key_at c') (as @ [c_fresh c]) = map (key_at c) as @ [key]" by auto
next
  fix xs a ys
  assume as: "as = xs @ a # ys"
  with assms obtain c' where "cl_remove (key_at c a) c = Some c'" "cl_inv c' (xs @ ys)" "same_nodes c c'"
    using cl_remove_spec [of c xs a ys] by blast
  moreover have "map (key_at c') (xs @ ys) = map (key_at c) (xs @ ys)"
    using cl_inv_alloc [OF assms] as by (intro same_nodes_map [OF \<open>same_nodes c c'\<close>]) auto
  ultimately show "\<exists>c'. cl_remove (key_at c a) c = Some c' \<and> cl_inv c' (xs @ ys) \<and>
      map (key_at c') (xs @ ys) = map (key_at c) (xs @ ys)" by blast
qed (use cl_remove_absent [OF assms] in blast)

theorem circularList_refines_list_witness:
  "\<exists>c'. cl_insert 5 True (newCircularList 2) = Some (True, c') \<and> cl_inv c' [0] \<and> map (key_at c') [0] = [5]"
  using circularList_refines_list [OF cl_inv_new [of 2], of 5 True] by (simp add: newCircularList_def)

end
