(* ===== verification/Clock_Replacer.thy ===== *)
theory Clock_Replacer
  imports Circular_List
begin

text \<open>
  \<^verbatim>\<open>storage/buffer/clock_replacer.go\<close>.  The clock hand is a pointer to a pointer: to the list's
  \<^verbatim>\<open>head\<close> field or to the \<^verbatim>\<open>next\<close> field of a node (which may have left the list).  The locale
  \<open>replacer\<close> is the contract the buffer pool relies on; the clock replacer meets it with
  first-in first-out order.
\<close>

subsection \<open>Model\<close>

datatype hand = HeadField | NextField addr

record ClockReplacer =
  cList :: circularList
  clockHand :: hand

definition NewClockReplacer :: "u32 \<Rightarrow> ClockReplacer" where
  "NewClockReplacer poolSize = \<lparr>cList = newCircularList poolSize, clockHand = HeadField\<rparr>"

text \<open>\<^verbatim>\<open>*c.clockHand\<close>\<close>

definition load_hand :: "ClockReplacer \<Rightarrow> addr option option" where
  "load_hand r = (case clockHand r of
     HeadField \<Rightarrow> Some (c_head (cList r))
   | NextField a \<Rightarrow> map_option n_next (c_heap (cList r) a))"

text \<open>The loop of \<^verbatim>\<open>Victim\<close>; \<open>cur\<close> is \<^verbatim>\<open>currentNode\<close>, which no iteration changes.\<close>

definition node_value :: "addr \<Rightarrow> ClockReplacer \<Rightarrow> bool option" where
  "node_value cur r = map_option n_value (c_heap (cList r) cur)"

function victim_loop :: "addr \<Rightarrow> ClockReplacer \<Rightarrow> (FrameID \<times> ClockReplacer) option" where
  "victim_loop cur r = (case c_heap (cList r) cur of None \<Rightarrow> None | Some n \<Rightarrow>
     if n_value n then
       victim_loop cur (r\<lparr>cList := (cList r)\<lparr>c_heap := (c_heap (cList r))(cur \<mapsto> n\<lparr>n_value := False\<rparr>)\<rparr>,
                          clockHand := NextField cur\<rparr>)
     else do {
       c \<leftarrow> cl_remove (n_key n) (cList r);
       Some (n_key n, r\<lparr>clockHand := NextField cur, cList := c\<rparr>) })"
  by pat_completeness auto
termination
  by (relation "measure (\<lambda>(cur, r). if node_value cur r = Some True then 1 else 0)")
    (auto simp: node_value_def)

definition Victim :: "ClockReplacer \<Rightarrow> (FrameID option \<times> ClockReplacer) option" where
  "Victim r =
     (if c_size (cList r) = 0 then Some (None, r)
      else do {
        p \<leftarrow> load_hand r;
        currentNode \<leftarrow> p;
        (f, r) \<leftarrow> victim_loop currentNode r;
        Some (Some f, r) })"

definition Unpin :: "FrameID \<Rightarrow> ClockReplacer \<Rightarrow> ClockReplacer option" where
  "Unpin f r = do {
     present \<leftarrow> hasKey (cList r) f;
     if present then Some r
     else do {
       (_, c) \<leftarrow> cl_insert f True (cList r);
       let r = r\<lparr>cList := c\<rparr>;
       Some (if c_size (cList r) = 1 then r\<lparr>clockHand := HeadField\<rparr> else r) } }"

definition Pin :: "FrameID \<Rightarrow> ClockReplacer \<Rightarrow> ClockReplacer option" where
  "Pin f r = do {
     found \<leftarrow> cl_find (cList r) f;
     case found of None \<Rightarrow> Some r
     | Some node \<Rightarrow> do {
         p \<leftarrow> load_hand r;
         let r = (if p = Some node then r\<lparr>clockHand := NextField node\<rparr> else r);
         c \<leftarrow> cl_remove f (cList r);
         Some (r\<lparr>cList := c\<rparr>) } }"

definition Replacer_Size :: "ClockReplacer \<Rightarrow> u32" where
  "Replacer_Size r = c_size (cList r)"

subsection \<open>The contract\<close>

locale replacer =
  fixes invar :: "'s \<Rightarrow> bool"
    and frames :: "'s \<Rightarrow> FrameID list"
    and cap :: "'s \<Rightarrow> nat"
    and victim :: "'s \<Rightarrow> (FrameID option \<times> 's) option"
    and pin :: "FrameID \<Rightarrow> 's \<Rightarrow> 's option"
    and unpin :: "FrameID \<Rightarrow> 's \<Rightarrow> 's option"
  assumes frames_ok: "invar s \<Longrightarrow> distinct (frames s) \<and> length (frames s) \<le> cap s"
    and victim_none: "invar s \<Longrightarrow> frames s = [] \<Longrightarrow> victim s = Some (None, s)"
    and victim_some: "invar s \<Longrightarrow> frames s = f # fs \<Longrightarrow>
      \<exists>s'. victim s = Some (Some f, s') \<and> invar s' \<and> frames s' = fs \<and> cap s' = cap s"
    and pin_ok: "invar s \<Longrightarrow>
      \<exists>s'. pin f s = Some s' \<and> invar s' \<and> frames s' = filter (\<lambda>g. g \<noteq> f) (frames s) \<and> cap s' = cap s"
    and unpin_ok: "invar s \<Longrightarrow>
      \<exists>s'. unpin f s = Some s' \<and> invar s' \<and> cap s' = cap s \<and>
        frames s' = (if f \<in> set (frames s) \<or> length (frames s) = cap s then frames s else frames s @ [f])"
begin

lemma victim_total:
  assumes "invar s"
  shows "\<exists>f s'. victim s = Some (f, s') \<and> invar s' \<and> cap s' = cap s \<and>
    (f = None \<longleftrightarrow> frames s = []) \<and> frames s' = tl (frames s) \<and> (\<forall>g. f = Some g \<longrightarrow> g = hd (frames s) \<and> g \<notin> set (frames s'))"
proof (cases "frames s")
  case Nil
  with assms victim_none show ?thesis by auto
next
  case (Cons g gs)
  with victim_some [OF assms this] frames_ok [OF assms] show ?thesis by auto
qed

text \<open>Unpinned frames leave in the order in which they came.\<close>

fun victims :: "nat \<Rightarrow> 's \<Rightarrow> FrameID list option" where
  "victims 0 s = Some []"
| "victims (Suc n) s = (case victim s of
     Some (Some f, s') \<Rightarrow> map_option ((#) f) (victims n s')
   | _ \<Rightarrow> None)"

fun unpins :: "FrameID list \<Rightarrow> 's \<Rightarrow> 's option" where
  "unpins [] s = Some s"
| "unpins (f # fs) s = Option.bind (unpin f s) (unpins fs)"

lemma victims_frames: "invar s \<Longrightarrow> n = length (frames s) \<Longrightarrow> victims n s = Some (frames s)"
proof (induction n arbitrary: s)
  case (Suc n)
  then obtain f fs where ff: "frames s = f # fs" by (cases "frames s") auto
  then obtain s' where "victim s = Some (Some f, s')" "invar s'" "frames s' = fs"
    using victim_some Suc.prems by blast
  with Suc ff show ?case by auto
qed simp

lemma unpins_frames:
  "invar s \<Longrightarrow> distinct (frames s @ fs) \<Longrightarrow> length (frames s @ fs) \<le> cap s \<Longrightarrow>
   \<exists>s'. unpins fs s = Some s' \<and> invar s' \<and> frames s' = frames s @ fs"
proof (induction fs arbitrary: s)
  case (Cons f fs)
  then obtain s1 where "unpin f s = Some s1" "invar s1" "cap s1 = cap s" "frames s1 = frames s @ [f]"
    using unpin_ok [of s f] by auto
  with Cons.IH [of s1] Cons.prems show ?case by auto
qed simp

lemma fifo:
  assumes "invar s" and "frames s = []" and "distinct fs" and "length fs \<le> cap s"
  shows "\<exists>s'. unpins fs s = Some s' \<and> victims (length fs) s' = Some fs"
  using unpins_frames [of s fs] victims_frames assms by auto

end

subsection \<open>The clock replacer meets the contract\<close>

fun cl_walk :: "nat \<Rightarrow> heap \<Rightarrow> addr option \<Rightarrow> addr list" where
  "cl_walk 0 h p = []"
| "cl_walk (Suc i) h None = []"
| "cl_walk (Suc i) h (Some a) = a # cl_walk i h (Option.bind (h a) n_next)"

definition cl_nodes :: "circularList \<Rightarrow> addr list" where
  "cl_nodes c = cl_walk (unat (c_size c)) (c_heap c) (c_head c)"

lemma cl_walk_chain: "chain h (as @ [z]) \<Longrightarrow> cl_walk (length as) h (Some (hd (as @ [z]))) = as"
proof (induction as)
  case (Cons a as)
  obtain n where "h a = Some n" "n_next n = Some (hd (as @ [z]))"
    using Cons.prems by (cases as) auto
  moreover have "chain h (as @ [z])"
    using Cons.prems by (cases as) auto
  ultimately show ?case using Cons.IH by simp
qed simp

lemma cl_nodes_eq: "cl_inv c as \<Longrightarrow> cl_nodes c = as"
  using cl_walk_chain [of "c_heap c" as "hd as"]
  by (cases as) (auto simp: cl_nodes_def cl_inv_def ring_def)

definition hand_ok :: "circularList \<Rightarrow> hand \<Rightarrow> addr list \<Rightarrow> bool" where
  "hand_ok c p as = (case p of HeadField \<Rightarrow> True
     | NextField a \<Rightarrow> a \<notin> set as \<and> (\<exists>n. c_heap c a = Some n \<and> (as \<noteq> [] \<longrightarrow> n_next n = Some (hd as))))"

definition cr_rep :: "ClockReplacer \<Rightarrow> addr list \<Rightarrow> bool" where
  "cr_rep r as \<longleftrightarrow> cl_inv (cList r) as \<and> hand_ok (cList r) (clockHand r) as"

definition cr_inv :: "ClockReplacer \<Rightarrow> bool" where
  "cr_inv r \<longleftrightarrow> cr_rep r (cl_nodes (cList r))"

definition cr_frames :: "ClockReplacer \<Rightarrow> FrameID list" where
  "cr_frames r = map (key_at (cList r)) (cl_nodes (cList r))"

definition cr_cap :: "ClockReplacer \<Rightarrow> nat" where
  "cr_cap r = unat (c_capacity (cList r))"

lemma cr_rep_nodes: "cr_rep r as \<Longrightarrow> cl_nodes (cList r) = as"
  by (simp add: cr_rep_def cl_nodes_eq)

lemma cr_rep_inv: "cr_rep r as \<Longrightarrow> cr_inv r \<and> cr_frames r = map (key_at (cList r)) as"
  using cr_rep_nodes [of r as] by (simp add: cr_inv_def cr_frames_def)

lemma load_hand_eq: "cr_rep r as \<Longrightarrow> as \<noteq> [] \<Longrightarrow> load_hand r = Some (Some (hd as))"
  by (auto simp: cr_rep_def hand_ok_def load_hand_def cl_inv_def split: hand.splits)

lemma cl_inv_set_value:
  fixes v :: bool
  assumes inv: "cl_inv c as" and n: "c_heap c a = Some n"
  defines "c' \<equiv> c\<lparr>c_heap := (c_heap c)(a \<mapsto> n\<lparr>n_value := v\<rparr>)\<rparr>"
  shows "cl_inv c' as" and "map (key_at c') as = map (key_at c) as"
proof -
  show keys: "map (key_at c') as = map (key_at c) as"
    using n by (auto simp: c'_def key_at_def)
  have "ring (c_heap c') as"
    using inv n unfolding cl_inv_def ring_def
    by (auto simp: c'_def intro!: chain_cong [of "c_heap c" "as @ [hd as]"])
  moreover have "distinct (map (key_at c') as)"
    unfolding keys using inv by (simp add: cl_inv_def)
  ultimately show "cl_inv c' as"
    using inv n by (auto simp: cl_inv_def c'_def)
qed

lemma remove_first:
  assumes inv: "cl_inv c (a # as)"
  shows "\<exists>c'. cl_remove (key_at c a) c = Some c' \<and> cl_inv c' as \<and> hand_ok c' (NextField a) as \<and>
    map (key_at c') as = map (key_at c) as \<and> c_capacity c' = c_capacity c"
proof -
  obtain c' where c': "cl_remove (key_at c a) c = Some c'" "cl_inv c' as" "same_nodes c c'"
      "c_capacity c' = c_capacity c" "\<forall>b. b \<notin> set as \<longrightarrow> c_heap c' b = c_heap c b"
    using cl_remove_spec [of c "[]" a as] inv by auto
  have "a \<notin> set as"
    using inv by (simp add: cl_inv_def)
  moreover have "as \<noteq> [] \<Longrightarrow> \<exists>n. c_heap c a = Some n \<and> n_next n = Some (hd as)"
    using ring_first(1) [of "c_heap c" a as] inv by (auto simp: cl_inv_def)
  moreover have "\<exists>n. c_heap c a = Some n"
    using cl_inv_alloc [OF inv] by auto
  ultimately have "hand_ok c' (NextField a) as"
    using c'(5) by (auto simp: hand_ok_def)
  moreover have "map (key_at c') as = map (key_at c) as"
    using cl_inv_alloc [OF inv] by (intro same_nodes_map [OF c'(3)]) auto
  ultimately show ?thesis using c' by auto
qed

lemma victim_loop_false:
  assumes rep: "cr_rep r (a # as)" and "\<not> value_at (cList r) a"
  shows "\<exists>r'. victim_loop a r = Some (key_at (cList r) a, r') \<and> cr_rep r' as \<and> cr_cap r' = cr_cap r \<and>
    map (key_at (cList r')) as = map (key_at (cList r)) as"
proof -
  have inv: "cl_inv (cList r) (a # as)"
    using rep by (simp add: cr_rep_def)
  obtain n where n: "c_heap (cList r) a = Some n"
    using cl_inv_alloc [OF inv] by auto
  then have "\<not> n_value n" and k: "n_key n = key_at (cList r) a"
    using assms(2) by (simp_all add: value_at_def key_at_def)
  with remove_first [OF inv] n show ?thesis
    by (auto simp: cr_rep_def cr_cap_def)
qed

lemma victim_loop_spec:
  assumes rep: "cr_rep r (a # as)"
  shows "\<exists>r'. victim_loop a r = Some (key_at (cList r) a, r') \<and> cr_rep r' as \<and> cr_cap r' = cr_cap r \<and>
    map (key_at (cList r')) as = map (key_at (cList r)) as"
proof (cases "value_at (cList r) a")
  case True
  have inv: "cl_inv (cList r) (a # as)"
    using rep by (simp add: cr_rep_def)
  then obtain n where n: "c_heap (cList r) a = Some n"
    using cl_inv_alloc by fastforce
  let ?c = "(cList r)\<lparr>c_heap := (c_heap (cList r))(a \<mapsto> n\<lparr>n_value := False\<rparr>)\<rparr>"
  have c: "cl_inv ?c (a # as)" "map (key_at ?c) (a # as) = map (key_at (cList r)) (a # as)"
    using cl_inv_set_value [OF inv n, of False] by auto
  have "victim_loop a r = victim_loop a (r\<lparr>cList := ?c, clockHand := NextField a\<rparr>)"
    using n True by (subst victim_loop.simps) (simp add: value_at_def del: victim_loop.simps)
  also have "\<dots> = victim_loop a (r\<lparr>cList := ?c, clockHand := HeadField\<rparr>)"
    by (subst (1 2) victim_loop.simps) (simp del: victim_loop.simps)
  finally show ?thesis
    using c victim_loop_false [of "r\<lparr>cList := ?c, clockHand := HeadField\<rparr>" a as]
    by (auto simp: cr_rep_def hand_ok_def value_at_def cr_cap_def simp del: victim_loop.simps)
next
  case False
  with victim_loop_false [OF rep] show ?thesis .
qed

declare victim_loop.simps [simp del]

lemma cr_rep_exists: "cr_inv r \<Longrightarrow> \<exists>as. cr_rep r as \<and> cr_frames r = map (key_at (cList r)) as"
  using cr_rep_inv by (auto simp: cr_inv_def)

lemma cr_rep_cons:
  assumes "cr_inv r" and "cr_frames r = f # fs"
  shows "\<exists>a as. cr_rep r (a # as) \<and> f = key_at (cList r) a \<and> fs = map (key_at (cList r)) as"
  using cr_rep_exists [OF assms(1)] assms(2) by fastforce

lemma Victim_some:
  assumes "cr_inv r" and "cr_frames r = f # fs"
  shows "\<exists>r'. Victim r = Some (Some f, r') \<and> cr_inv r' \<and> cr_frames r' = fs \<and> cr_cap r' = cr_cap r"
proof -
  obtain a as where rep: "cr_rep r (a # as)" and f: "f = key_at (cList r) a" "fs = map (key_at (cList r)) as"
    using cr_rep_cons [OF assms] by blast
  have "c_size (cList r) \<noteq> 0"
    using rep by (auto simp: cr_rep_def cl_inv_def)
  with victim_loop_spec [OF rep] load_hand_eq [OF rep] f show ?thesis
    by (auto simp: Victim_def dest: cr_rep_inv)
qed

lemma Victim_none: "cr_inv r \<Longrightarrow> cr_frames r = [] \<Longrightarrow> Victim r = Some (None, r)"
  by (auto simp: Victim_def cr_inv_def cr_rep_def cr_frames_def cl_inv_def unat_eq_zero)

lemma filter_key: "distinct (map k (xs @ a # ys)) \<Longrightarrow> filter (\<lambda>g. g \<noteq> k a) (map k (xs @ a # ys)) = map k (xs @ ys)"
proof -
  assume d: "distinct (map k (xs @ a # ys))"
  have "filter (\<lambda>g. g \<noteq> k a) (map k zs) = map k zs" if "k a \<notin> k ` set zs" for zs
    using that by (induction zs) auto
  with d show ?thesis by simp
qed

lemma Pin_member:
  assumes rep: "cr_rep r (xs @ a # ys)"
  shows "\<exists>r'. Pin (key_at (cList r) a) r = Some r' \<and> cr_rep r' (xs @ ys) \<and> cr_cap r' = cr_cap r \<and>
    map (key_at (cList r')) (xs @ ys) = map (key_at (cList r)) (xs @ ys)"
proof -
  have inv: "cl_inv (cList r) (xs @ a # ys)"
    using rep by (simp add: cr_rep_def)
  note fnd = cl_find_member [OF inv, of a, simplified] and hand = load_hand_eq [OF rep, simplified]
  show ?thesis
  proof (cases xs)
    case Nil
    with remove_first [of "cList r" a ys] inv fnd hand show ?thesis
      by (auto simp: Pin_def cr_rep_def cr_cap_def)
  next
    case (Cons x xs')
    obtain c' where c': "cl_remove (key_at (cList r) a) (cList r) = Some c'" "cl_inv c' (xs @ ys)" "same_nodes (cList r) c'"
        "c_capacity c' = c_capacity (cList r)" "\<forall>b. b \<notin> set (xs @ ys) \<longrightarrow> c_heap c' b = c_heap (cList r) b"
      using cl_remove_spec [OF inv] by auto
    have "hd (xs @ a # ys) = x" "x \<noteq> a"
      using Cons inv by (auto simp: cl_inv_def)
    then have "Pin (key_at (cList r) a) r = Some (r\<lparr>cList := c'\<rparr>)"
      using fnd hand c'(1) by (simp add: Pin_def)
    moreover have "hand_ok c' (clockHand r) (xs @ ys)"
      using rep c'(5) Cons by (auto simp: cr_rep_def hand_ok_def split: hand.splits)
    moreover have "map (key_at c') (xs @ ys) = map (key_at (cList r)) (xs @ ys)"
      using cl_inv_alloc [OF inv] by (intro same_nodes_map [OF c'(3)]) auto
    ultimately show ?thesis
      using c' by (auto simp: cr_rep_def cr_cap_def)
  qed
qed

lemma Pin_spec:
  assumes "cr_inv r"
  shows "\<exists>r'. Pin f r = Some r' \<and> cr_inv r' \<and> cr_frames r' = filter (\<lambda>g. g \<noteq> f) (cr_frames r) \<and> cr_cap r' = cr_cap r"
proof -
  obtain as where rep: "cr_rep r as" and fr: "cr_frames r = map (key_at (cList r)) as"
    using cr_rep_exists [OF assms] by blast
  then have inv: "cl_inv (cList r) as" by (simp add: cr_rep_def)
  show ?thesis
  proof (cases "f \<in> key_at (cList r) ` set as")
    case True
    then obtain xs a ys where as: "as = xs @ a # ys" and f: "f = key_at (cList r) a"
      by (metis imageE split_list)
    have "filter (\<lambda>g. g \<noteq> f) (cr_frames r) = map (key_at (cList r)) (xs @ ys)"
      unfolding fr as f using inv by (intro filter_key) (simp add: cl_inv_def as)
    with Pin_member [of r xs a ys] rep as f show ?thesis
      by (auto dest: cr_rep_inv)
  next
    case False
    then have "List.find (\<lambda>a. key_at (cList r) a = f) as = None"
      by (auto simp: find_None_iff)
    moreover have "filter (\<lambda>g. g \<noteq> f) (cr_frames r) = cr_frames r"
      using False by (auto simp: fr filter_id_conv)
    ultimately show ?thesis
      using assms cl_find_eq [OF inv] by (simp add: Pin_def)
  qed
qed

lemma Unpin_spec:
  assumes "cr_inv r"
  shows "\<exists>r'. Unpin f r = Some r' \<and> cr_inv r' \<and> cr_cap r' = cr_cap r \<and>
    cr_frames r' = (if f \<in> set (cr_frames r) \<or> length (cr_frames r) = cr_cap r then cr_frames r else cr_frames r @ [f])"
proof -
  obtain as where rep: "cr_rep r as" and fr: "cr_frames r = map (key_at (cList r)) as"
    using cr_rep_exists [OF assms] by blast
  then have inv: "cl_inv (cList r) as" by (simp add: cr_rep_def)
  have full: "c_size (cList r) = c_capacity (cList r) \<longleftrightarrow> length (cr_frames r) = cr_cap r"
    using inv by (simp add: cl_inv_def fr cr_cap_def word_unat_eq_iff)
  consider "f \<in> set (cr_frames r)" | "f \<notin> set (cr_frames r)" "length (cr_frames r) = cr_cap r"
    | "f \<notin> set (cr_frames r)" "length (cr_frames r) \<noteq> cr_cap r" by blast
  then show ?thesis
  proof cases
    case 1
    with assms hasKey_eq [OF inv, of f] show ?thesis by (simp add: Unpin_def fr)
  next
    case 2
    then have "cl_insert f True (cList r) = Some (False, cList r)"
      using full by (simp add: cl_insert_def)
    moreover have "cr_rep (r\<lparr>clockHand := HeadField\<rparr>) as"
      using rep by (simp add: cr_rep_def hand_ok_def)
    ultimately show ?thesis
      using 2 assms hasKey_eq [OF inv, of f] cr_rep_inv [of "r\<lparr>clockHand := HeadField\<rparr>" as]
      by (auto simp: Unpin_def fr cr_cap_def)
  next
    case 3
    let ?new = "c_fresh (cList r)"
    obtain c' where c': "cl_insert f True (cList r) = Some (True, c')" "cl_inv c' (as @ [?new])" "same_nodes (cList r) c'"
        "key_at c' ?new = f" "c_capacity c' = c_capacity (cList r)"
        "\<forall>a. a \<notin> set as \<longrightarrow> a \<noteq> ?new \<longrightarrow> c_heap c' a = c_heap (cList r) a"
      using cl_insert_spec [OF inv, of f True] 3 full by (auto simp: fr)
    have keys: "map (key_at c') as = map (key_at (cList r)) as"
      using cl_inv_alloc [OF inv] by (intro same_nodes_map [OF c'(3)]) auto
    have "as \<noteq> [] \<Longrightarrow> hand_ok c' (clockHand r) (as @ [?new])"
      using rep c'(6) inv by (auto simp: cr_rep_def hand_ok_def cl_inv_def split: hand.splits)
    moreover have "c_size c' = 1 \<longleftrightarrow> as = []"
      using c'(2) by (auto simp: cl_inv_def word_unat_eq_iff)
    ultimately have "cr_rep (if c_size c' = 1 then r\<lparr>cList := c', clockHand := HeadField\<rparr> else r\<lparr>cList := c'\<rparr>) (as @ [?new])"
      using c'(2) by (cases "as = []") (auto simp: cr_rep_def hand_ok_def split: hand.splits)
    then show ?thesis
      using 3 c' keys hasKey_eq [OF inv, of f] by (auto simp: Unpin_def fr cr_cap_def split: if_splits dest: cr_rep_inv)
  qed
qed

interpretation cr: replacer cr_inv cr_frames cr_cap Victim Pin Unpin
proof
  fix r :: ClockReplacer
  show "cr_inv r \<Longrightarrow> distinct (cr_frames r) \<and> length (cr_frames r) \<le> cr_cap r"
    by (auto simp: cr_inv_def cr_rep_def cr_frames_def cl_inv_def cr_cap_def)
qed (use Victim_none Victim_some Pin_spec Unpin_spec in auto)

lemma cr_inv_New: "cr_inv (NewClockReplacer n) \<and> cr_frames (NewClockReplacer n) = [] \<and> cr_cap (NewClockReplacer n) = unat n"
  using cr_rep_inv [of "NewClockReplacer n" "[]"] cl_inv_new [of n]
  by (simp add: cr_rep_def hand_ok_def NewClockReplacer_def cr_cap_def) (simp add: newCircularList_def)

text \<open>C25: the clock replacer is a first-in first-out queue of unpinned frames. \<^verbatim>\<open>Victim\<close> terminates, never
  dereferences \<^verbatim>\<open>nil\<close>, and returns the frame unpinned longest ago (nothing when there is none); \<^verbatim>\<open>Pin\<close> takes
  a frame out; \<^verbatim>\<open>Unpin\<close> appends it unless it is present or the list is full.  The reference bit gives no
  second chance.\<close>

theorem ClockReplacer_refines_fifo:
  assumes "cr_inv r"
  shows "(case cr_frames r of [] \<Rightarrow> Victim r = Some (None, r)
      | g # gs \<Rightarrow> \<exists>r'. Victim r = Some (Some g, r') \<and> cr_inv r' \<and> cr_frames r' = gs) \<and>
    (\<exists>r'. Pin f r = Some r' \<and> cr_inv r' \<and> cr_frames r' = filter (\<lambda>g. g \<noteq> f) (cr_frames r)) \<and>
    (\<exists>r'. Unpin f r = Some r' \<and> cr_inv r' \<and> cr_frames r' =
      (if f \<in> set (cr_frames r) \<or> length (cr_frames r) = cr_cap r then cr_frames r else cr_frames r @ [f]))"
proof (intro conjI)
  show "case cr_frames r of [] \<Rightarrow> Victim r = Some (None, r)
      | g # gs \<Rightarrow> \<exists>r'. Victim r = Some (Some g, r') \<and> cr_inv r' \<and> cr_frames r' = gs"
    using cr.victim_none [OF assms] cr.victim_some [OF assms] by (auto split: list.splits)
qed (use cr.pin_ok [OF assms] cr.unpin_ok [OF assms] in blast)+

theorem ClockReplacer_refines_fifo_witness:
  "\<exists>r'. Unpin 7 (NewClockReplacer 3) = Some r' \<and> cr_inv r' \<and> cr_frames r' = [7]"
  using ClockReplacer_refines_fifo [of "NewClockReplacer 3" 7] cr_inv_New [of 3] by auto

text \<open>Frames unpinned one after the other are chosen as victims in the same order.\<close>

theorem replacer_victims_in_unpin_order:
  assumes "distinct fs" and "length fs \<le> unat n"
  shows "\<exists>r. cr.unpins fs (NewClockReplacer n) = Some r \<and> cr.victims (length fs) r = Some fs"
  using cr.fifo [of "NewClockReplacer n" fs] cr_inv_New [of n] assms by simp

theorem replacer_victims_in_unpin_order_witness:
  "\<exists>r. cr.unpins [4, 2, 9] (NewClockReplacer 3) = Some r \<and> cr.victims (Suc (Suc (Suc 0))) r = Some [4, 2, 9]"
  using replacer_victims_in_unpin_order [of "[4, 2, 9]" 3] by simp

end
