(* ===== verification/Buffer_Pool.thy ===== *)
theory Buffer_Pool
  imports Clock_Replacer Log_Manager
begin

text \<open>
  \<^verbatim>\<open>storage/buffer/buffer_pool_manager.go\<close>.  The state holds the disk, the log manager (which shares
  the disk), the page frames, the replacer, the free list and the page table.  A \<^verbatim>\<open>*page.Page\<close> result is the
  frame it lives in; the caller reads and writes the page through it (\<open>frame_page\<close>, \<open>set_frame\<close>).
  The abstraction is \<open>bp_view\<close>, the contents a page has for a client: the frame if it is resident,
  the disk otherwise.
\<close>

subsection \<open>Model\<close>

record BufferPool =
  diskManager :: disk
  bp_pages :: "page option list"
  bp_replacer :: ClockReplacer
  freeList :: "FrameID list"
  pageTable :: "pageID \<Rightarrow> FrameID option"
  log_manager :: LogManager

definition NewBufferPoolManager :: "u32 \<Rightarrow> disk \<Rightarrow> LogManager \<Rightarrow> BufferPool" where
  "NewBufferPoolManager poolSize d lm =
     \<lparr>diskManager = d, bp_pages = replicate (unat poolSize) None, bp_replacer = NewClockReplacer poolSize,
      freeList = map of_nat [0..<unat poolSize], pageTable = (\<lambda>_. None), log_manager = lm\<rparr>"

text \<open>Access to a page through the pointer a call returned.\<close>

definition frame_page :: "BufferPool \<Rightarrow> FrameID \<Rightarrow> page option" where
  "frame_page bp f = Option.bind (go_nth (bp_pages bp) (unat f)) id"

definition set_frame :: "FrameID \<Rightarrow> page \<Rightarrow> BufferPool \<Rightarrow> BufferPool" where
  "set_frame f pg bp = bp\<lparr>bp_pages := (bp_pages bp)[unat f := Some pg]\<rparr>"

definition getFrameID :: "BufferPool \<Rightarrow> (FrameID option \<times> bool \<times> BufferPool) option" where
  "getFrameID bp = (case freeList bp of
     f # newFreeList \<Rightarrow> Some (Some f, True, bp\<lparr>freeList := newFreeList\<rparr>)
   | [] \<Rightarrow> do { (f, r) \<leftarrow> Victim (bp_replacer bp); Some (f, False, bp\<lparr>bp_replacer := r\<rparr>) })"

text \<open>The branch \<^verbatim>\<open>!isFromFreeList\<close> of \<^verbatim>\<open>FetchPage\<close> and \<^verbatim>\<open>NewPage\<close>: remove the page from its frame.\<close>

definition evict :: "FrameID \<Rightarrow> BufferPool \<Rightarrow> BufferPool option" where
  "evict f bp = do {
     slot \<leftarrow> go_nth (bp_pages bp) (unat f);
     case slot of None \<Rightarrow> Some bp
     | Some currentPage \<Rightarrow> do {
         bp \<leftarrow> (if isDirty currentPage then do {
                  (lm, d) \<leftarrow> Flush (log_manager bp) (diskManager bp);
                  let d = snd (WritePage (pg_id currentPage) (pg_data currentPage) d);
                  Some (bp\<lparr>log_manager := lm, diskManager := d\<rparr>) }
                else Some bp);
         Some (bp\<lparr>pageTable := (pageTable bp)(pg_id currentPage := None)\<rparr>) } }"

definition install :: "FrameID \<Rightarrow> page \<Rightarrow> BufferPool \<Rightarrow> BufferPool option" where
  "install f pg bp =
     (if unat f < length (bp_pages bp)
      then Some (bp\<lparr>pageTable := (pageTable bp)(pg_id pg \<mapsto> f), bp_pages := (bp_pages bp)[unat f := Some pg]\<rparr>)
      else None)"

definition FetchPage :: "pageID \<Rightarrow> BufferPool \<Rightarrow> (FrameID option \<times> BufferPool) option" where
  "FetchPage pid bp = (case pageTable bp pid of
     Some f \<Rightarrow> do {
       pg \<leftarrow> frame_page bp f;
       let bp = set_frame f (IncPinCount pg) bp;
       r \<leftarrow> Pin f (bp_replacer bp);
       Some (Some f, bp\<lparr>bp_replacer := r\<rparr>) }
   | None \<Rightarrow> do {
       (frame, isFromFreeList, bp) \<leftarrow> getFrameID bp;
       case frame of None \<Rightarrow> Some (None, bp)
       | Some f \<Rightarrow> do {
           bp \<leftarrow> (if isFromFreeList then Some bp else evict f bp);
           let (content, d) = ReadPage pid (diskManager bp);
           let bp = bp\<lparr>diskManager := d\<rparr>;
           case content of None \<Rightarrow> Some (None, bp)
           | Some data \<Rightarrow> do {
               bp \<leftarrow> install f (page_New pid False data) bp;
               Some (Some f, bp) } } })"

definition NewPage :: "BufferPool \<Rightarrow> (FrameID option \<times> BufferPool) option" where
  "NewPage bp = do {
     (frame, isFromFreeList, bp) \<leftarrow> getFrameID bp;
     case frame of None \<Rightarrow> Some (None, bp)
     | Some f \<Rightarrow> do {
         bp \<leftarrow> (if isFromFreeList then Some bp else evict f bp);
         let (pid, d) = AllocatePage (diskManager bp);
         let bp = bp\<lparr>diskManager := d\<rparr>;
         bp \<leftarrow> install f (page_NewEmpty pid) bp;
         Some (Some f, bp) } }"

text \<open>The first component of the results below: whether \<^verbatim>\<open>nil\<close> (or \<^verbatim>\<open>true\<close>) is returned.\<close>

definition UnpinPage :: "pageID \<Rightarrow> bool \<Rightarrow> BufferPool \<Rightarrow> (bool \<times> BufferPool) option" where
  "UnpinPage pid dirty bp = (case pageTable bp pid of
     None \<Rightarrow> Some (False, bp)
   | Some f \<Rightarrow> do {
       pg \<leftarrow> frame_page bp f;
       let pg = DecPinCount pg;
       r \<leftarrow> (if pinCount pg \<le> 0 then Unpin f (bp_replacer bp) else Some (bp_replacer bp));
       let pg = SetIsDirty pg (isDirty pg \<or> dirty);
       Some (True, set_frame f pg (bp\<lparr>bp_replacer := r\<rparr>)) })"

definition FlushPage :: "pageID \<Rightarrow> BufferPool \<Rightarrow> (bool \<times> BufferPool) option" where
  "FlushPage pid bp = (case pageTable bp pid of
     None \<Rightarrow> Some (False, bp)
   | Some f \<Rightarrow> do {
       pg \<leftarrow> frame_page bp f;
       let pg = DecPinCount pg;
       let d = snd (WritePage pid (pg_data pg) (diskManager bp));
       let pg = SetIsDirty pg False;
       Some (True, set_frame f pg (bp\<lparr>diskManager := d\<rparr>)) })"

definition DeletePage :: "pageID \<Rightarrow> BufferPool \<Rightarrow> (bool \<times> BufferPool) option" where
  "DeletePage pid bp = (case pageTable bp pid of
     None \<Rightarrow> Some (True, bp)
   | Some f \<Rightarrow> do {
       pg \<leftarrow> frame_page bp f;
       if pinCount pg > 0 then Some (False, bp)
       else do {
         let bp = bp\<lparr>pageTable := (pageTable bp)(pg_id pg := None)\<rparr>;
         r \<leftarrow> Pin f (bp_replacer bp);
         let bp = bp\<lparr>bp_replacer := r, diskManager := DeallocatePage pid (diskManager bp)\<rparr>;
         Some (True, bp\<lparr>freeList := freeList bp @ [f]\<rparr>) } })"

text \<open>A Go map is ranged over in no particular order: \<open>pageIDs\<close> is the order of this run.\<close>

fun FlushAllPages :: "pageID list \<Rightarrow> BufferPool \<Rightarrow> BufferPool option" where
  "FlushAllPages [] bp = Some bp"
| "FlushAllPages (pid # pageIDs) bp = do { (_, bp) \<leftarrow> FlushPage pid bp; FlushAllPages pageIDs bp }"

subsection \<open>Invariant and view\<close>

definition resident :: "BufferPool \<Rightarrow> pageID \<Rightarrow> FrameID \<Rightarrow> page \<Rightarrow> bool" where
  "resident bp p f pg \<longleftrightarrow> pageTable bp p = Some f \<and> frame_page bp f = Some pg"

definition bp_view :: "BufferPool \<Rightarrow> pageID \<Rightarrow> bytes option" where
  "bp_view bp p = (case pageTable bp p of
     Some f \<Rightarrow> map_option pg_data (frame_page bp f)
   | None \<Rightarrow> fst (ReadPage p (diskManager bp)))"

definition disk_ok :: "disk \<Rightarrow> LogManager \<Rightarrow> bool" where
  "disk_ok d lm \<longleftrightarrow> disk_inv d \<and> log_inv lm d \<and> unat (nextPageID d) \<le> 524288 \<and>
     length (f_bytes (dm_db d)) \<le> 4096 * unat (nextPageID d)"

definition frames_inv :: "BufferPool \<Rightarrow> bool" where
  "frames_inv bp \<longleftrightarrow> cr_inv (bp_replacer bp) \<and> cr_cap (bp_replacer bp) = length (bp_pages bp) \<and>
     distinct (freeList bp) \<and>
     (\<forall>f \<in> set (freeList bp). unat f < length (bp_pages bp) \<and> f \<notin> set (cr_frames (bp_replacer bp)) \<and>
        (\<forall>p. pageTable bp p \<noteq> Some f)) \<and>
     (\<forall>p f. pageTable bp p = Some f \<longrightarrow> (\<exists>pg. frame_page bp f = Some pg \<and> pg_id pg = p \<and>
        length (pg_data pg) = 4096 \<and> unat p < unat (nextPageID (diskManager bp)))) \<and>
     (\<forall>f \<in> set (cr_frames (bp_replacer bp)). \<exists>p pg. resident bp p f pg \<and> pinCount pg = 0)"

text \<open>A frame that may be evicted without being written holds what the disk has.\<close>

definition coherent :: "BufferPool \<Rightarrow> bool" where
  "coherent bp \<longleftrightarrow> (\<forall>p f pg. resident bp p f pg \<longrightarrow> f \<in> set (cr_frames (bp_replacer bp)) \<longrightarrow> \<not> isDirty pg \<longrightarrow>
     fst (ReadPage p (diskManager bp)) = Some (pg_data pg))"

definition bp_inv :: "BufferPool \<Rightarrow> bool" where
  "bp_inv bp \<longleftrightarrow> disk_ok (diskManager bp) (log_manager bp) \<and> frames_inv bp \<and> coherent bp"

subsection \<open>Disk facts\<close>

lemma disk_ok_page: "disk_ok d lm \<Longrightarrow> unat p < unat (nextPageID d) \<Longrightarrow> disk_page p"
  by (simp add: disk_ok_def disk_page_def)

lemma ReadPage_same_bytes:
  "disk_inv d \<Longrightarrow> disk_inv d' \<Longrightarrow> f_bytes (dm_db d') = f_bytes (dm_db d) \<Longrightarrow> disk_page p \<Longrightarrow>
   fst (ReadPage p d') = fst (ReadPage p d)"
  by (simp add: ReadPage_eq)

lemma disk_ok_write:
  assumes "disk_ok d lm" and "unat p < unat (nextPageID d)" and "length bs = 4096"
  defines "d' \<equiv> snd (WritePage p bs d)"
  shows "disk_ok d' lm" and "fst (ReadPage p d') = Some bs"
    and "q \<noteq> p \<Longrightarrow> disk_page q \<Longrightarrow> fst (ReadPage q d) \<noteq> None \<Longrightarrow> fst (ReadPage q d') = fst (ReadPage q d)"
proof -
  have p: "disk_page p" and d: "disk_inv d"
    using assms disk_ok_page by (auto simp: disk_ok_def)
  then show "fst (ReadPage p d') = Some bs"
    unfolding d'_def using assms by (intro dm.rd_wr_same) auto
  show "q \<noteq> p \<Longrightarrow> disk_page q \<Longrightarrow> fst (ReadPage q d) \<noteq> None \<Longrightarrow> fst (ReadPage q d') = fst (ReadPage q d)"
    unfolding d'_def using p d assms by (intro dm.rd_wr_other) auto
  have "length (f_bytes (dm_db d')) = max (length (f_bytes (dm_db d))) (4096 * unat p + 4096)"
    using p assms by (simp add: d'_def WritePage_db length_f_write)
  with assms p d show "disk_ok d' lm"
    by (auto simp: disk_ok_def d'_def log_inv_def log_at_end_def disk_inv_WritePage)
qed

lemma disk_ok_read: "disk_ok d lm \<Longrightarrow> disk_ok (snd (ReadPage p d)) lm"
  by (auto simp: disk_ok_def log_inv_def log_at_end_def disk_inv_def)

lemma disk_ok_flush:
  assumes "disk_ok d lm"
  shows "\<exists>lm' d'. Flush lm d = Some (lm', d') \<and> disk_ok d' lm' \<and> dm_db d' = dm_db d \<and> nextPageID d' = nextPageID d"
  using assms Flush_spec [of lm d] by (auto simp: disk_ok_def log_inv_def disk_inv_def)

subsection \<open>Frames\<close>

lemma frame_page_bound: "frame_page bp f = Some pg \<Longrightarrow> unat f < length (bp_pages bp)"
  by (auto simp: frame_page_def bind_Some_iff go_nth_Some_iff)

lemma frame_page_set_frame [simp]:
  "unat f < length (bp_pages bp) \<Longrightarrow> frame_page (set_frame f pg bp) g = (if g = f then Some pg else frame_page bp g)"
  by (auto simp: frame_page_def set_frame_def go_nth_def nth_list_update word_unat_eq_iff)

lemma set_frame_keeps [simp]:
  "pageTable (set_frame f pg bp) = pageTable bp" "diskManager (set_frame f pg bp) = diskManager bp"
  "bp_replacer (set_frame f pg bp) = bp_replacer bp" "freeList (set_frame f pg bp) = freeList bp"
  "log_manager (set_frame f pg bp) = log_manager bp" "length (bp_pages (set_frame f pg bp)) = length (bp_pages bp)"
  by (simp_all add: set_frame_def)

lemma frame_page_cong [simp]:
  "frame_page (bp\<lparr>bp_replacer := r\<rparr>) f = frame_page bp f" "frame_page (bp\<lparr>freeList := fl\<rparr>) f = frame_page bp f"
  "frame_page (bp\<lparr>diskManager := d\<rparr>) f = frame_page bp f" "frame_page (bp\<lparr>log_manager := lm\<rparr>) f = frame_page bp f"
  "frame_page (bp\<lparr>pageTable := t\<rparr>) f = frame_page bp f"
  by (simp_all add: frame_page_def)

lemma frames_inv_table:
  "frames_inv bp \<Longrightarrow> pageTable bp p = Some f \<Longrightarrow>
   \<exists>pg. frame_page bp f = Some pg \<and> pg_id pg = p \<and> length (pg_data pg) = 4096 \<and>
     unat p < unat (nextPageID (diskManager bp)) \<and> unat f < length (bp_pages bp)"
  unfolding frames_inv_def using frame_page_bound [of bp f] by blast

lemma frames_inv_inj: "frames_inv bp \<Longrightarrow> pageTable bp p = Some f \<Longrightarrow> pageTable bp q = Some f \<Longrightarrow> p = q"
  using frames_inv_table [of bp p f] frames_inv_table [of bp q f] by auto

lemma frames_inv_replacer:
  "frames_inv bp \<Longrightarrow> f \<in> set (cr_frames (bp_replacer bp)) \<Longrightarrow>
   \<exists>pg. pageTable bp (pg_id pg) = Some f \<and> frame_page bp f = Some pg \<and> pinCount pg = 0"
  unfolding frames_inv_def resident_def by (metis option.inject)

text \<open>A frame taken out of the free list or the replacer, and out of the page table.\<close>

definition claimed :: "FrameID \<Rightarrow> BufferPool \<Rightarrow> bool" where
  "claimed f bp \<longleftrightarrow> unat f < length (bp_pages bp) \<and> f \<notin> set (freeList bp) \<and>
     f \<notin> set (cr_frames (bp_replacer bp)) \<and> (\<forall>p. pageTable bp p \<noteq> Some f)"

definition view_kept :: "BufferPool \<Rightarrow> BufferPool \<Rightarrow> bool" where
  "view_kept bp bp' \<longleftrightarrow> (\<forall>p. disk_page p \<longrightarrow> bp_view bp p \<noteq> None \<longrightarrow> bp_view bp' p = bp_view bp p)"

lemma view_kept_refl [simp]: "view_kept bp bp"
  by (simp add: view_kept_def)

lemma view_kept_trans: "view_kept a b \<Longrightarrow> view_kept b c \<Longrightarrow> view_kept a c"
  by (auto simp: view_kept_def)

lemma view_keptI:
  "bp_view bp p = Some x \<Longrightarrow> bp_view bp' p = Some x \<Longrightarrow>
   (\<forall>q. q \<noteq> p \<longrightarrow> disk_page q \<longrightarrow> bp_view bp q \<noteq> None \<longrightarrow> bp_view bp' q = bp_view bp q) \<Longrightarrow> view_kept bp bp'"
  unfolding view_kept_def by metis

lemma claim_free:
  assumes "bp_inv bp" and "freeList bp = f # fs"
  shows "bp_inv (bp\<lparr>freeList := fs\<rparr>)" "claimed f (bp\<lparr>freeList := fs\<rparr>)" "view_kept bp (bp\<lparr>freeList := fs\<rparr>)"
  using assms
  by (auto simp: bp_inv_def frames_inv_def coherent_def claimed_def view_kept_def bp_view_def resident_def split: option.splits)

lemma drop_page:
  assumes inv: "bp_inv bp" and tab: "pageTable bp p = Some f" and pg: "frame_page bp f = Some pg"
    and fr: "cr_frames (bp_replacer bp) = f # fs" and r: "cr_inv r" "cr_frames r = fs" "cr_cap r = cr_cap (bp_replacer bp)"
    and d: "disk_ok d lm" "nextPageID d = nextPageID (diskManager bp)" "fst (ReadPage p d) = Some (pg_data pg)"
    and other: "\<And>q. q \<noteq> p \<Longrightarrow> disk_page q \<Longrightarrow> fst (ReadPage q (diskManager bp)) \<noteq> None \<Longrightarrow>
      fst (ReadPage q d) = fst (ReadPage q (diskManager bp))"
  defines "bp' \<equiv> bp\<lparr>bp_replacer := r, log_manager := lm, diskManager := d, pageTable := (pageTable bp)(p := None)\<rparr>"
  shows "bp_inv bp'" "claimed f bp'" "view_kept bp bp'"
proof -
  have fi: "frames_inv bp" and co: "coherent bp"
    using inv by (auto simp: bp_inv_def)
  note inj = frames_inv_inj [OF fi]
  have d_fs: "f \<notin> set fs" "distinct fs"
    using fi fr cr.frames_ok [of "bp_replacer bp"] by (auto simp: frames_inv_def)
  have free: "f \<notin> set (freeList bp)"
    using fi tab by (auto simp: frames_inv_def)
  have resid: "resident bp' q g pg' \<longleftrightarrow> resident bp q g pg' \<and> q \<noteq> p" for q g pg'
    by (auto simp: bp'_def resident_def)
  have keep: "resident bp' q g pg'" if "resident bp q g pg'" "g \<in> set fs" for q g pg'
    using that d_fs tab unfolding resid by (auto simp: resident_def)
  show "claimed f bp'"
    using frames_inv_table [OF fi tab] r d_fs free inj [OF tab] by (auto simp: claimed_def bp'_def)
  show "view_kept bp bp'"
    using tab pg d other by (auto simp: view_kept_def bp_view_def bp'_def split: option.splits)
  have "frames_inv bp'"
    unfolding frames_inv_def
  proof (intro conjI ballI allI impI)
    fix g assume "g \<in> set (cr_frames (bp_replacer bp'))"
    then have "g \<in> set fs" "g \<in> set (cr_frames (bp_replacer bp))"
      using r fr by (auto simp: bp'_def)
    then show "\<exists>q pg. resident bp' q g pg \<and> pinCount pg = 0"
      using fi keep unfolding frames_inv_def by blast
  next
    fix q g assume "pageTable bp' q = Some g"
    then show "\<exists>pg. frame_page bp' g = Some pg \<and> pg_id pg = q \<and> length (pg_data pg) = 4096 \<and>
        unat q < unat (nextPageID (diskManager bp'))"
      using frames_inv_table [OF fi, of q g] d by (auto simp: bp'_def split: if_splits)
  qed (use fi r fr d_fs in \<open>auto simp: frames_inv_def bp'_def split: if_splits\<close>)
  moreover have "coherent bp'"
    unfolding coherent_def
  proof (intro allI impI)
    fix q g pg'
    assume *: "resident bp' q g pg'" "g \<in> set (cr_frames (bp_replacer bp'))" "\<not> isDirty pg'"
    then have res: "resident bp q g pg'" and ne: "q \<noteq> p"
      unfolding resid by auto
    have "g \<in> set (cr_frames (bp_replacer bp))"
      using * r fr by (simp add: bp'_def)
    then have "fst (ReadPage q (diskManager bp)) = Some (pg_data pg')"
      using co res * by (auto simp: coherent_def)
    moreover have "disk_page q"
      using res frames_inv_table [OF fi, of q g] disk_ok_page [of "diskManager bp" "log_manager bp" q] inv
      by (auto simp: resident_def bp_inv_def)
    ultimately show "fst (ReadPage q (diskManager bp')) = Some (pg_data pg')"
      using other [of q] ne by (simp add: bp'_def)
  qed
  ultimately show "bp_inv bp'"
    using d by (simp add: bp_inv_def bp'_def)
qed

lemma claim_victim:
  assumes inv: "bp_inv bp" and fr: "cr_frames (bp_replacer bp) = f # fs"
  shows "\<exists>r bp'. Victim (bp_replacer bp) = Some (Some f, r) \<and> evict f (bp\<lparr>bp_replacer := r\<rparr>) = Some bp' \<and>
    bp_inv bp' \<and> claimed f bp' \<and> view_kept bp bp' \<and> nextPageID (diskManager bp') = nextPageID (diskManager bp) \<and>
    (\<forall>p. pageTable bp p = None \<longrightarrow> pageTable bp' p = None)"
proof -
  have fi: "frames_inv bp" and co: "coherent bp" and dk: "disk_ok (diskManager bp) (log_manager bp)"
    using inv by (auto simp: bp_inv_def)
  obtain r where r: "Victim (bp_replacer bp) = Some (Some f, r)" "cr_inv r" "cr_frames r = fs"
      "cr_cap r = cr_cap (bp_replacer bp)"
    using cr.victim_some [OF _ fr] fi by (auto simp: frames_inv_def)
  obtain pg where pg: "pageTable bp (pg_id pg) = Some f" "frame_page bp f = Some pg" "pinCount pg = 0"
    using frames_inv_replacer [OF fi, of f] fr by auto
  then have len: "length (pg_data pg) = 4096" "unat (pg_id pg) < unat (nextPageID (diskManager bp))"
    using frames_inv_table [OF fi pg(1)] by auto
  have slot: "go_nth (bp_pages bp) (unat f) = Some (Some pg)"
    using pg(2) by (auto simp: frame_page_def bind_Some_iff)
  show ?thesis
  proof (cases "isDirty pg")
    case True
    obtain lm d where L: "Flush (log_manager bp) (diskManager bp) = Some (lm, d)" "disk_ok d lm"
        "dm_db d = dm_db (diskManager bp)" "nextPageID d = nextPageID (diskManager bp)"
      using disk_ok_flush [OF dk] by blast
    let ?d = "snd (WritePage (pg_id pg) (pg_data pg) d)"
    have same: "disk_page q \<Longrightarrow> fst (ReadPage q d) = fst (ReadPage q (diskManager bp))" for q
      using L dk by (intro ReadPage_same_bytes) (auto simp: disk_ok_def)
    note W = disk_ok_write [OF L(2), of "pg_id pg" "pg_data pg", unfolded L(4), OF len(2,1)]
    have "evict f (bp\<lparr>bp_replacer := r\<rparr>) = Some (bp\<lparr>bp_replacer := r, log_manager := lm, diskManager := ?d,
        pageTable := (pageTable bp)(pg_id pg := None)\<rparr>)"
      using slot True L(1) by (simp add: evict_def)
    moreover note drop_page [OF inv pg(1,2) fr r(2-4) W(1) _ W(2)]
    ultimately show ?thesis
      using r L W same by auto
  next
    case False
    have rd: "fst (ReadPage (pg_id pg) (diskManager bp)) = Some (pg_data pg)"
      using co pg fr False by (auto simp: coherent_def resident_def)
    have "evict f (bp\<lparr>bp_replacer := r\<rparr>) = Some (bp\<lparr>bp_replacer := r, log_manager := log_manager bp,
        diskManager := diskManager bp, pageTable := (pageTable bp)(pg_id pg := None)\<rparr>)"
      using slot False by (simp add: evict_def)
    moreover note drop_page [OF inv pg(1,2) fr r(2-4) dk _ rd]
    ultimately show ?thesis
      using r by auto
  qed
qed

lemma claim_frame:
  assumes inv: "bp_inv bp"
  shows "(freeList bp = [] \<and> cr_frames (bp_replacer bp) = [] \<and> getFrameID bp = Some (None, False, bp)) \<or>
    (\<exists>f fl bp1 bp2. getFrameID bp = Some (Some f, fl, bp1) \<and> (if fl then Some bp1 else evict f bp1) = Some bp2 \<and>
      bp_inv bp2 \<and> claimed f bp2 \<and> view_kept bp bp2 \<and> nextPageID (diskManager bp2) = nextPageID (diskManager bp) \<and>
      (\<forall>p. pageTable bp p = None \<longrightarrow> pageTable bp2 p = None))"
proof (cases "freeList bp")
  case (Cons f fs)
  then show ?thesis
    using claim_free [OF inv Cons] by (auto simp: getFrameID_def)
next
  case Nil
  have ci: "cr_inv (bp_replacer bp)"
    using inv by (simp add: bp_inv_def frames_inv_def)
  show ?thesis
  proof (cases "cr_frames (bp_replacer bp)")
    case Nil2: Nil
    then show ?thesis
      using Nil cr.victim_none [OF ci] by (simp add: getFrameID_def)
  next
    case (Cons f fs)
    then show ?thesis
      using Nil claim_victim [OF inv Cons]
      by (intro disjI2 exI [of _ f] exI [of _ False]) (auto simp: getFrameID_def)
  qed
qed

text \<open>Putting a page into a claimed frame.\<close>

lemma install_page:
  assumes inv: "bp_inv bp" and cl: "claimed f bp" and new: "pageTable bp (pg_id pg) = None"
    and pg: "length (pg_data pg) = 4096" "unat (pg_id pg) < unat (nextPageID d)"
    and d: "disk_ok d (log_manager bp)" "unat (nextPageID (diskManager bp)) \<le> unat (nextPageID d)"
    and same: "f_bytes (dm_db d) = f_bytes (dm_db (diskManager bp))"
  shows "\<exists>bp'. install f pg (bp\<lparr>diskManager := d\<rparr>) = Some bp' \<and> bp_inv bp' \<and> resident bp' (pg_id pg) f pg \<and>
    bp_view bp' (pg_id pg) = Some (pg_data pg) \<and>
    (\<forall>p. disk_page p \<longrightarrow> p \<noteq> pg_id pg \<longrightarrow> bp_view bp' p = bp_view bp p)"
proof -
  let ?bp = "bp\<lparr>diskManager := d, pageTable := (pageTable bp)(pg_id pg \<mapsto> f), bp_pages := (bp_pages bp)[unat f := Some pg]\<rparr>"
  have fi: "frames_inv bp" and co: "coherent bp" and dk: "disk_ok (diskManager bp) (log_manager bp)"
    using inv by (auto simp: bp_inv_def)
  have lt: "unat f < length (bp_pages bp)" and nf: "f \<notin> set (cr_frames (bp_replacer bp))" "f \<notin> set (freeList bp)"
      and nt: "pageTable bp p \<noteq> Some f" for p
    using cl by (auto simp: claimed_def)
  have fp: "frame_page ?bp g = (if g = f then Some pg else frame_page bp g)" for g
    using lt by (auto simp: frame_page_def go_nth_def nth_list_update word_unat_eq_iff)
  have rd: "disk_page p \<Longrightarrow> fst (ReadPage p d) = fst (ReadPage p (diskManager bp))" for p
    using d dk same by (intro ReadPage_same_bytes) (auto simp: disk_ok_def)
  have resid: "resident ?bp q g pg' \<longleftrightarrow> (q = pg_id pg \<and> g = f \<and> pg' = pg) \<or> (q \<noteq> pg_id pg \<and> resident bp q g pg')" for q g pg'
    using nt by (auto simp: resident_def fp split: if_splits)
  have old: "resident bp q g pg' \<Longrightarrow> q \<noteq> pg_id pg" for q g pg'
    using new by (auto simp: resident_def)
  have "frames_inv ?bp"
    unfolding frames_inv_def
  proof (intro conjI ballI allI impI)
    fix g assume "g \<in> set (cr_frames (bp_replacer ?bp))"
    then obtain q pg' where "resident bp q g pg'" "pinCount pg' = 0"
      using fi unfolding frames_inv_def by auto
    then show "\<exists>q pg. resident ?bp q g pg \<and> pinCount pg = 0"
      using old resid by blast
  next
    fix q g assume "pageTable ?bp q = Some g"
    then show "\<exists>pg. frame_page ?bp g = Some pg \<and> pg_id pg = q \<and> length (pg_data pg) = 4096 \<and>
        unat q < unat (nextPageID (diskManager ?bp))"
      using frames_inv_table [OF fi, of q g] d pg nt [of q] unfolding fp by (auto split: if_splits)
  qed (use fi nf in \<open>auto simp: frames_inv_def split: if_splits\<close>)
  moreover have "coherent ?bp"
    unfolding coherent_def
  proof (intro allI impI)
    fix q g pg'
    assume *: "resident ?bp q g pg'" "g \<in> set (cr_frames (bp_replacer ?bp))" "\<not> isDirty pg'"
    then have r: "resident bp q g pg'" and "fst (ReadPage q (diskManager bp)) = Some (pg_data pg')"
      using co nf unfolding resid by (auto simp: coherent_def)
    moreover have "disk_page q"
      using r frames_inv_table [OF fi, of q g] disk_ok_page [OF dk, of q] by (auto simp: resident_def)
    ultimately show "fst (ReadPage q (diskManager ?bp)) = Some (pg_data pg')"
      using rd by simp
  qed
  ultimately have "bp_inv ?bp"
    using d by (simp add: bp_inv_def)
  moreover have "bp_view ?bp p = bp_view bp p" if "disk_page p" "p \<noteq> pg_id pg" for p
    using that rd nt by (auto simp: bp_view_def fp split: option.splits)
  moreover have "install f pg (bp\<lparr>diskManager := d\<rparr>) = Some ?bp"
    using lt by (simp add: install_def)
  moreover have "resident ?bp (pg_id pg) f pg" "bp_view ?bp (pg_id pg) = Some (pg_data pg)"
    using lt by (auto simp: resident_def bp_view_def fp)
  ultimately show ?thesis by blast
qed

text \<open>Changing a resident page in its frame, the replacer and the disk along with it.\<close>

lemma touch_frame:
  assumes inv: "bp_inv bp" and tab: "pageTable bp p = Some f"
    and pg': "pg_id pg' = p" "length (pg_data pg') = 4096"
    and r: "cr_inv r" "cr_cap r = cr_cap (bp_replacer bp)" "set (cr_frames r) \<subseteq> insert f (set (cr_frames (bp_replacer bp)))"
    and f: "f \<in> set (cr_frames r) \<Longrightarrow> pinCount pg' = 0"
      "f \<in> set (cr_frames r) \<Longrightarrow> \<not> isDirty pg' \<Longrightarrow> fst (ReadPage p d) = Some (pg_data pg')"
    and d: "disk_ok d (log_manager bp)" "nextPageID d = nextPageID (diskManager bp)"
    and other: "\<And>q. q \<noteq> p \<Longrightarrow> disk_page q \<Longrightarrow> fst (ReadPage q (diskManager bp)) \<noteq> None \<Longrightarrow>
      fst (ReadPage q d) = fst (ReadPage q (diskManager bp))"
  defines "bp' \<equiv> set_frame f pg' (bp\<lparr>bp_replacer := r, diskManager := d\<rparr>)"
  shows "bp_inv bp' \<and> resident bp' p f pg' \<and> bp_view bp' p = Some (pg_data pg') \<and>
    (\<forall>q. q \<noteq> p \<longrightarrow> disk_page q \<longrightarrow> bp_view bp q \<noteq> None \<longrightarrow> bp_view bp' q = bp_view bp q)"
proof -
  have fi: "frames_inv bp" and co: "coherent bp" and dk: "disk_ok (diskManager bp) (log_manager bp)"
    using inv by (auto simp: bp_inv_def)
  obtain pg where pg: "frame_page bp f = Some pg" "pg_id pg = p" "unat p < unat (nextPageID (diskManager bp))"
      "unat f < length (bp_pages bp)"
    using frames_inv_table [OF fi tab] by blast
  have fp: "frame_page bp' g = (if g = f then Some pg' else frame_page bp g)" for g
    using pg by (simp add: bp'_def)
  have pt: "pageTable bp' = pageTable bp"
    by (simp add: bp'_def)
  have uniq: "pageTable bp q = Some f \<longleftrightarrow> q = p" for q
    using frames_inv_inj [OF fi tab] tab by blast
  have resid: "resident bp' q g x \<longleftrightarrow> (if q = p then g = f \<and> x = pg' else resident bp q g x)" for q g x
  proof (cases "q = p")
    case True
    then show ?thesis by (auto simp: resident_def pt fp tab)
  next
    case False
    then have "pageTable bp q \<noteq> Some f" using uniq by simp
    with False show ?thesis by (auto simp: resident_def pt fp)
  qed
  have "frames_inv bp'"
    unfolding frames_inv_def
  proof (intro conjI ballI allI impI)
    fix g assume g: "g \<in> set (cr_frames (bp_replacer bp'))"
    show "\<exists>q x. resident bp' q g x \<and> pinCount x = 0"
    proof (cases "g = f")
      case True
      then show ?thesis using g f(1) resid by (auto simp: bp'_def)
    next
      case False
      then have "g \<in> set (cr_frames (bp_replacer bp))"
        using g r(3) by (auto simp: bp'_def)
      then obtain q x where "resident bp q g x" "pinCount x = 0"
        using fi unfolding frames_inv_def by blast
      moreover have "q \<noteq> p"
        using \<open>resident bp q g x\<close> False tab by (auto simp: resident_def)
      ultimately show ?thesis using resid by metis
    qed
  next
    fix q g assume "pageTable bp' q = Some g"
    then show "\<exists>pg. frame_page bp' g = Some pg \<and> pg_id pg = q \<and> length (pg_data pg) = 4096 \<and>
        unat q < unat (nextPageID (diskManager bp'))"
      using frames_inv_table [OF fi, of q g] d pg' pg uniq [of q] unfolding fp by (auto simp: bp'_def)
  qed (use fi r d tab in \<open>auto simp: frames_inv_def bp'_def\<close>)
  moreover have "coherent bp'"
    unfolding coherent_def
  proof (intro allI impI)
    fix q g x
    assume *: "resident bp' q g x" "g \<in> set (cr_frames (bp_replacer bp'))" "\<not> isDirty x"
    show "fst (ReadPage q (diskManager bp')) = Some (pg_data x)"
    proof (cases "q = p")
      case True
      then show ?thesis using * f(2) unfolding resid by (auto simp: bp'_def)
    next
      case False
      then have res: "resident bp q g x" and "g \<noteq> f"
        using * uniq [of q] unfolding resid by (auto simp: resident_def)
      then have "g \<in> set (cr_frames (bp_replacer bp))"
        using * r(3) by (auto simp: bp'_def)
      then have "fst (ReadPage q (diskManager bp)) = Some (pg_data x)"
        using * res co unfolding coherent_def by blast
      moreover have "disk_page q"
        using res frames_inv_table [OF fi, of q g] disk_ok_page [OF dk, of q] by (auto simp: resident_def)
      ultimately show ?thesis using other [of q] False by (simp add: bp'_def)
    qed
  qed
  ultimately have "bp_inv bp'"
    using d by (simp add: bp_inv_def bp'_def)
  moreover have "bp_view bp' q = bp_view bp q" if "q \<noteq> p" "disk_page q" "bp_view bp q \<noteq> None" for q
    using that other [of q] uniq [of q] by (auto simp: bp_view_def fp bp'_def pg split: option.splits)
  ultimately show ?thesis
    using resid [of p f pg'] by (auto simp: bp_view_def resident_def bp'_def)
qed

lemma touch_frame_keep:
  assumes inv: "bp_inv bp" and tab: "pageTable bp p = Some f"
    and pg': "pg_id pg' = p" "length (pg_data pg') = 4096"
    and r: "cr_inv r" "cr_cap r = cr_cap (bp_replacer bp)" "set (cr_frames r) \<subseteq> insert f (set (cr_frames (bp_replacer bp)))"
    and f: "f \<in> set (cr_frames r) \<Longrightarrow> pinCount pg' = 0"
      "f \<in> set (cr_frames r) \<Longrightarrow> \<not> isDirty pg' \<Longrightarrow> fst (ReadPage p (diskManager bp)) = Some (pg_data pg')"
  defines "bp' \<equiv> set_frame f pg' (bp\<lparr>bp_replacer := r\<rparr>)"
  shows "bp_inv bp' \<and> resident bp' p f pg' \<and> bp_view bp' p = Some (pg_data pg') \<and>
    (\<forall>q. q \<noteq> p \<longrightarrow> disk_page q \<longrightarrow> bp_view bp q \<noteq> None \<longrightarrow> bp_view bp' q = bp_view bp q)"
  using touch_frame [of bp p f pg' r "diskManager bp"] assms by (simp add: bp_inv_def)

lemma FetchPage_hit:
  assumes inv: "bp_inv bp" and tab: "pageTable bp pid = Some f"
  shows "\<exists>bp' pg. FetchPage pid bp = Some (Some f, bp') \<and> bp_inv bp' \<and> view_kept bp bp' \<and>
    frame_page bp f = Some pg \<and> resident bp' pid f (IncPinCount pg) \<and> bp_view bp pid = Some (pg_data pg) \<and>
    f \<notin> set (cr_frames (bp_replacer bp')) \<and> nextPageID (diskManager bp') = nextPageID (diskManager bp)"
proof -
  have fi: "frames_inv bp"
    using inv by (simp add: bp_inv_def)
  obtain pg where pg: "frame_page bp f = Some pg" "pg_id pg = pid" "length (pg_data pg) = 4096"
    using frames_inv_table [OF fi tab] by blast
  obtain r where r: "Pin f (bp_replacer bp) = Some r" "cr_inv r" "cr_cap r = cr_cap (bp_replacer bp)"
      "cr_frames r = filter (\<lambda>g. g \<noteq> f) (cr_frames (bp_replacer bp))"
    using cr.pin_ok [of "bp_replacer bp" f] fi by (auto simp: frames_inv_def)
  have inc: "pg_id (IncPinCount pg) = pid" "pg_data (IncPinCount pg) = pg_data pg"
    using pg by (simp_all add: IncPinCount_def)
  let ?bp = "set_frame f (IncPinCount pg) (bp\<lparr>bp_replacer := r\<rparr>)"
  have t: "bp_inv ?bp \<and> resident ?bp pid f (IncPinCount pg) \<and> bp_view ?bp pid = Some (pg_data (IncPinCount pg)) \<and>
      (\<forall>q. q \<noteq> pid \<longrightarrow> disk_page q \<longrightarrow> bp_view bp q \<noteq> None \<longrightarrow> bp_view ?bp q = bp_view bp q)"
    using r pg inc by (intro touch_frame_keep [OF inv tab]) auto
  moreover have "FetchPage pid bp = Some (Some f, ?bp)"
    using tab pg r by (simp add: FetchPage_def set_frame_def)
  moreover have v: "bp_view bp pid = Some (pg_data pg)"
    using tab pg by (simp add: bp_view_def)
  moreover have "view_kept bp ?bp"
    using t v inc by (intro view_keptI [of bp pid "pg_data pg"]) simp_all
  ultimately show ?thesis
    using pg r by auto
qed

subsection \<open>The operations\<close>

lemma swap_disk:
  assumes inv: "bp_inv bp" and d: "disk_ok d (log_manager bp)" "nextPageID d = nextPageID (diskManager bp)"
    "f_bytes (dm_db d) = f_bytes (dm_db (diskManager bp))"
  shows "bp_inv (bp\<lparr>diskManager := d\<rparr>) \<and> (\<forall>q. disk_page q \<longrightarrow> bp_view (bp\<lparr>diskManager := d\<rparr>) q = bp_view bp q)"
proof -
  have dk: "disk_ok (diskManager bp) (log_manager bp)" and fi: "frames_inv bp"
    using inv by (auto simp: bp_inv_def)
  have rd: "fst (ReadPage q d) = fst (ReadPage q (diskManager bp))" if "disk_page q" for q
    using that dk d by (intro ReadPage_same_bytes) (auto simp: disk_ok_def)
  have "resident bp q g x \<Longrightarrow> disk_page q" for q g x
    using frames_inv_table [OF fi, of q g] disk_ok_page [OF dk, of q] by (auto simp: resident_def)
  then have "coherent (bp\<lparr>diskManager := d\<rparr>)"
    using inv rd by (auto simp: bp_inv_def coherent_def resident_def)
  moreover have "frames_inv (bp\<lparr>diskManager := d\<rparr>)"
    using fi d by (simp add: frames_inv_def resident_def)
  ultimately show ?thesis
    using d rd by (auto simp: bp_inv_def bp_view_def split: option.splits)
qed

lemma FetchPage_miss:
  assumes inv: "bp_inv bp" and tab: "pageTable bp pid = None" and pid: "disk_page pid"
  shows "\<exists>res bp'. FetchPage pid bp = Some (res, bp') \<and> bp_inv bp' \<and> view_kept bp bp' \<and>
    nextPageID (diskManager bp') = nextPageID (diskManager bp) \<and>
    (case res of
       Some f \<Rightarrow> \<exists>pg. resident bp' pid f pg \<and> pinCount pg = 1 \<and> \<not> isDirty pg \<and>
         (bp_view bp pid \<noteq> None \<longrightarrow> bp_view bp pid = Some (pg_data pg))
     | None \<Rightarrow> bp_view bp pid = None \<or> (freeList bp = [] \<and> cr_frames (bp_replacer bp) = []))"
  using claim_frame [OF inv]
proof (elim disjE exE conjE)
  assume "getFrameID bp = Some (None, False, bp)" "freeList bp = []" "cr_frames (bp_replacer bp) = []"
  then show ?thesis
    using tab inv by (simp add: FetchPage_def)
next
  fix f fl bp1 bp2
  assume g: "getFrameID bp = Some (Some f, fl, bp1)" "(if fl then Some bp1 else evict f bp1) = Some bp2"
    and b2: "bp_inv bp2" "claimed f bp2" "view_kept bp bp2" and np: "nextPageID (diskManager bp2) = nextPageID (diskManager bp)"
    and pt: "\<forall>p. pageTable bp p = None \<longrightarrow> pageTable bp2 p = None"
  have t2: "pageTable bp2 pid = None"
    using pt tab by simp
  have dk: "disk_ok (diskManager bp2) (log_manager bp2)"
    using b2 by (simp add: bp_inv_def)
  let ?d = "snd (ReadPage pid (diskManager bp2))"
  have dk': "disk_ok ?d (log_manager bp2)"
    using disk_ok_read [OF dk] .
  show ?thesis
  proof (cases "fst (ReadPage pid (diskManager bp2))")
    case None
    have "FetchPage pid bp = Some (None, bp2\<lparr>diskManager := ?d\<rparr>)"
      using tab g None by (auto simp: FetchPage_def split: prod.split)
    moreover note swap_disk [OF b2(1) dk']
    moreover have "bp_view bp2 pid = None"
      using t2 None by (simp add: bp_view_def)
    ultimately show ?thesis
      using b2 np pid by (auto simp: view_kept_def)
  next
    case (Some data)
    have len: "length data = 4096" "4096 * unat pid < length (f_bytes (dm_db (diskManager bp2)))"
      using Some dm.rd_length [of "diskManager bp2" pid data] ReadPage_eq [OF pid, of "diskManager bp2"] dk pid
      by (auto simp: disk_ok_def split: if_splits)
    let ?pg = "page_New pid False data"
    have id: "pg_id ?pg = pid" "pg_data ?pg = data"
      by (simp_all add: page_New_def)
    obtain bp' where i: "install f ?pg (bp2\<lparr>diskManager := ?d\<rparr>) = Some bp'" "bp_inv bp'" "resident bp' pid f ?pg"
        "bp_view bp' pid = Some data" "\<forall>p. disk_page p \<longrightarrow> p \<noteq> pid \<longrightarrow> bp_view bp' p = bp_view bp2 p"
      using install_page [OF b2(1,2), of ?pg ?d] len dk dk' t2 id by (auto simp: disk_ok_def)
    have dm': "diskManager bp' = ?d"
      using i(1) by (auto simp: install_def split: if_splits)
    have "FetchPage pid bp = Some (Some f, bp')"
      using tab g Some i(1) by (auto simp: FetchPage_def split: prod.split)
    moreover have "bp_view bp2 pid = Some data"
      using t2 Some by (simp add: bp_view_def)
    then have v2: "view_kept bp2 bp'" and "bp_view bp pid \<noteq> None \<longrightarrow> bp_view bp pid = Some data"
      using i b2(3) pid by (auto simp: view_kept_def)
    moreover have "view_kept bp bp'"
      using view_kept_trans [OF b2(3) v2] .
    ultimately show ?thesis
      using i np dm' by (auto simp: page_New_def)
  qed
qed

lemma NewPage_spec:
  assumes inv: "bp_inv bp" and np: "unat (nextPageID (diskManager bp)) < 524288"
  defines "pid \<equiv> nextPageID (diskManager bp)"
  shows "\<exists>res bp'. NewPage bp = Some (res, bp') \<and>
    (case res of
       Some f \<Rightarrow> bp_inv bp' \<and> resident bp' pid f (page_NewEmpty pid) \<and> pageTable bp pid = None \<and>
         nextPageID (diskManager bp') = pid + 1 \<and>
         (\<forall>p. disk_page p \<longrightarrow> p \<noteq> pid \<longrightarrow> bp_view bp p \<noteq> None \<longrightarrow> bp_view bp' p = bp_view bp p)
     | None \<Rightarrow> bp' = bp \<and> freeList bp = [] \<and> cr_frames (bp_replacer bp) = [])"
  using claim_frame [OF inv]
proof (elim disjE exE conjE)
  assume "getFrameID bp = Some (None, False, bp)" "freeList bp = []" "cr_frames (bp_replacer bp) = []"
  then show ?thesis by (simp add: NewPage_def)
next
  fix f fl bp1 bp2
  assume g: "getFrameID bp = Some (Some f, fl, bp1)" "(if fl then Some bp1 else evict f bp1) = Some bp2"
    and b2: "bp_inv bp2" "claimed f bp2" "view_kept bp bp2" and np2: "nextPageID (diskManager bp2) = nextPageID (diskManager bp)"
    and pt: "\<forall>p. pageTable bp p = None \<longrightarrow> pageTable bp2 p = None"
  have t: "pageTable bp pid = None"
    using inv frames_inv_table [of bp pid] by (cases "pageTable bp pid") (auto simp: bp_inv_def pid_def)
  then have t2: "pageTable bp2 pid = None" using pt by simp
  have dk: "disk_ok (diskManager bp2) (log_manager bp2)"
    using b2 by (simp add: bp_inv_def)
  let ?d = "snd (AllocatePage (diskManager bp2))" and ?pg = "page_NewEmpty pid"
  have s: "unat (pid + 1) = unat pid + 1"
    using np unat_add_less [of pid 1] by (simp add: pid_def)
  have d: "disk_ok ?d (log_manager bp2)" "nextPageID ?d = pid + 1" "f_bytes (dm_db ?d) = f_bytes (dm_db (diskManager bp2))"
    using dk np s np2 by (auto simp: AllocatePage_def disk_ok_def disk_inv_def log_inv_def log_at_end_def pid_def)
  have id: "pg_id ?pg = pid" "pg_data ?pg = replicate 4096 0"
    by (simp_all add: page_NewEmpty_def)
  obtain bp' where i: "install f ?pg (bp2\<lparr>diskManager := ?d\<rparr>) = Some bp'" "bp_inv bp'" "resident bp' pid f ?pg"
      "\<forall>p. disk_page p \<longrightarrow> p \<noteq> pid \<longrightarrow> bp_view bp' p = bp_view bp2 p"
    using install_page [OF b2(1,2), of ?pg ?d] d s t2 id np2 by (auto simp: pid_def)
  have "diskManager bp' = ?d"
    using i(1) by (auto simp: install_def split: if_splits)
  moreover have "NewPage bp = Some (Some f, bp')"
    using g i(1) np2 by (simp add: NewPage_def AllocatePage_def pid_def)
  ultimately show ?thesis
    using i b2(3) d t by (auto simp: view_kept_def)
qed

text \<open>\<open>clean p bp\<close>: the disk has what the frame of \<open>p\<close> holds.\<close>

definition clean :: "pageID \<Rightarrow> BufferPool \<Rightarrow> bool" where
  "clean p bp \<longleftrightarrow> fst (ReadPage p (diskManager bp)) = bp_view bp p"

text \<open>The list of the replacer is never full for a frame that is not in it.\<close>

lemma full_replacer:
  assumes fi: "frames_inv bp" and f: "unat f < length (bp_pages bp)"
    and full: "length (cr_frames (bp_replacer bp)) = length (bp_pages bp)"
  shows "f \<in> set (cr_frames (bp_replacer bp))"
proof -
  let ?fs = "cr_frames (bp_replacer bp)"
  have "distinct ?fs"
    using fi cr.frames_ok by (auto simp: frames_inv_def)
  then have "card (unat ` set ?fs) = length (bp_pages bp)"
    using full by (subst card_image) (auto simp: inj_on_def distinct_card word_unat_eq_iff)
  moreover have "unat ` set ?fs \<subseteq> {..<length (bp_pages bp)}"
    using frames_inv_replacer [OF fi] frame_page_bound by fastforce
  ultimately have "unat ` set ?fs = {..<length (bp_pages bp)}"
    by (intro card_subset_eq) auto
  with f have "unat f \<in> unat ` set ?fs" by auto
  then show ?thesis by (auto simp: word_unat_eq_iff [symmetric])
qed

lemma unpin_if:
  assumes fi: "frames_inv bp" and tab: "pageTable bp p = Some f"
  shows "\<exists>r. (if b then Unpin f (bp_replacer bp) else Some (bp_replacer bp)) = Some r \<and> cr_inv r \<and>
    cr_cap r = cr_cap (bp_replacer bp) \<and> set (cr_frames r) \<subseteq> insert f (set (cr_frames (bp_replacer bp))) \<and>
    (b \<longrightarrow> f \<in> set (cr_frames r)) \<and> (\<not> b \<longrightarrow> r = bp_replacer bp)"
proof (cases b)
  case True
  have "cr_inv (bp_replacer bp)" "cr_cap (bp_replacer bp) = length (bp_pages bp)"
    using fi by (simp_all add: frames_inv_def)
  with True cr.unpin_ok [of "bp_replacer bp" f] full_replacer [OF fi, of f] frames_inv_table [OF fi tab]
  show ?thesis by auto
qed (use fi in \<open>auto simp: frames_inv_def\<close>)

lemma UnpinPage_spec:
  assumes inv: "bp_inv bp" and tab: "pageTable bp pid = Some f" and pg: "frame_page bp f = Some pg"
    and ok: "pinCount (DecPinCount pg) = 0 \<Longrightarrow> dirty \<or> isDirty pg \<or> clean pid bp"
  shows "\<exists>bp' pg'. UnpinPage pid dirty bp = Some (True, bp') \<and> bp_inv bp' \<and> view_kept bp bp' \<and> resident bp' pid f pg' \<and>
    pg_data pg' = pg_data pg \<and> isDirty pg' = (isDirty pg \<or> dirty) \<and> pinCount pg' = pinCount (DecPinCount pg) \<and>
    (pinCount pg' = 0 \<longrightarrow> f \<in> set (cr_frames (bp_replacer bp'))) \<and>
    diskManager bp' = diskManager bp"
proof -
  have fi: "frames_inv bp"
    using inv by (simp add: bp_inv_def)
  have p: "pg_id pg = pid" "length (pg_data pg) = 4096"
    using frames_inv_table [OF fi tab] pg by auto
  let ?pg = "SetIsDirty (DecPinCount pg) (isDirty (DecPinCount pg) \<or> dirty)"
  have P: "pg_id ?pg = pid" "pg_data ?pg = pg_data pg" "isDirty ?pg = (isDirty pg \<or> dirty)"
      "pinCount ?pg = pinCount (DecPinCount pg)" "pinCount pg = 0 \<Longrightarrow> pinCount ?pg = 0"
    using p by (auto simp: SetIsDirty_def DecPinCount_def)
  obtain r where r: "(if pinCount (DecPinCount pg) \<le> 0 then Unpin f (bp_replacer bp) else Some (bp_replacer bp)) = Some r"
      "cr_inv r" "cr_cap r = cr_cap (bp_replacer bp)" "set (cr_frames r) \<subseteq> insert f (set (cr_frames (bp_replacer bp)))"
      "pinCount (DecPinCount pg) = 0 \<Longrightarrow> f \<in> set (cr_frames r)"
      "pinCount (DecPinCount pg) \<noteq> 0 \<Longrightarrow> r = bp_replacer bp"
    using unpin_if [OF fi tab, of "pinCount (DecPinCount pg) \<le> 0"] by auto
  have old0: "f \<in> set (cr_frames (bp_replacer bp)) \<Longrightarrow> pinCount pg = 0"
    using frames_inv_replacer [OF fi, of f] pg by auto
  have v: "bp_view bp pid = Some (pg_data pg)"
    using tab pg by (simp add: bp_view_def)
  let ?bp = "set_frame f ?pg (bp\<lparr>bp_replacer := r\<rparr>)"
  have "bp_inv ?bp \<and> resident ?bp pid f ?pg \<and> bp_view ?bp pid = Some (pg_data ?pg) \<and>
      (\<forall>q. q \<noteq> pid \<longrightarrow> disk_page q \<longrightarrow> bp_view bp q \<noteq> None \<longrightarrow> bp_view ?bp q = bp_view bp q)"
  proof (rule touch_frame_keep [OF inv tab P(1) _ r(2-4)])
    show "f \<in> set (cr_frames r) \<Longrightarrow> pinCount ?pg = 0"
      using r(6) old0 P by auto
    show "fst (ReadPage pid (diskManager bp)) = Some (pg_data ?pg)" if "f \<in> set (cr_frames r)" "\<not> isDirty ?pg"
    proof -
      have "pinCount (DecPinCount pg) = 0"
        using that(1) r(6) old0 P(4,5) by (cases "pinCount (DecPinCount pg) = 0") auto
      then show ?thesis using that ok v P by (simp add: clean_def)
    qed
  qed (use p P in auto)
  moreover have "UnpinPage pid dirty bp = Some (True, ?bp)"
    using tab pg r(1) by (simp add: UnpinPage_def Let_def)
  moreover from calculation have "view_kept bp ?bp"
    using v P by (intro view_keptI [of bp pid "pg_data pg"]) simp_all
  ultimately show ?thesis
    using r(5) P by auto
qed

lemma client_write:
  assumes inv: "bp_inv bp" and res: "resident bp p f pg" and pin: "f \<notin> set (cr_frames (bp_replacer bp))"
    and len: "length bs = 4096"
  defines "bp' \<equiv> set_frame f (pg\<lparr>pg_data := bs\<rparr>) bp"
  shows "bp_inv bp' \<and> resident bp' p f (pg\<lparr>pg_data := bs\<rparr>) \<and> bp_view bp' p = Some bs \<and>
    (\<forall>q. q \<noteq> p \<longrightarrow> disk_page q \<longrightarrow> bp_view bp q \<noteq> None \<longrightarrow> bp_view bp' q = bp_view bp q)"
proof -
  have fi: "frames_inv bp" and tab: "pageTable bp p = Some f"
    using inv res by (simp_all add: bp_inv_def resident_def)
  have "pg_id pg = p"
    using frames_inv_table [OF fi tab] res by (auto simp: resident_def)
  then show ?thesis
    using touch_frame_keep [OF inv tab, of "pg\<lparr>pg_data := bs\<rparr>" "bp_replacer bp"] pin len fi
    by (auto simp: bp'_def frames_inv_def)
qed

lemma FlushPage_spec:
  assumes inv: "bp_inv bp" and tab: "pageTable bp pid = Some f"
  shows "\<exists>bp'. FlushPage pid bp = Some (True, bp') \<and> bp_inv bp' \<and> view_kept bp bp' \<and> clean pid bp' \<and>
    pageTable bp' = pageTable bp \<and>
    (\<forall>q. q \<noteq> pid \<longrightarrow> disk_page q \<longrightarrow> fst (ReadPage q (diskManager bp)) \<noteq> None \<longrightarrow>
      fst (ReadPage q (diskManager bp')) = fst (ReadPage q (diskManager bp)))"
proof -
  have fi: "frames_inv bp" and dk: "disk_ok (diskManager bp) (log_manager bp)"
    using inv by (simp_all add: bp_inv_def)
  obtain pg where pg: "frame_page bp f = Some pg" "pg_id pg = pid" "length (pg_data pg) = 4096"
      "unat pid < unat (nextPageID (diskManager bp))"
    using frames_inv_table [OF fi tab] by blast
  let ?pg = "SetIsDirty (DecPinCount pg) False" and ?d = "snd (WritePage pid (pg_data pg) (diskManager bp))"
  let ?bp = "set_frame f ?pg (bp\<lparr>bp_replacer := bp_replacer bp, diskManager := ?d\<rparr>)"
  have P: "pg_id ?pg = pid" "pg_data ?pg = pg_data pg" "pg_data (DecPinCount pg) = pg_data pg"
      "pinCount pg = 0 \<Longrightarrow> pinCount ?pg = 0"
    using pg by (auto simp: SetIsDirty_def DecPinCount_def)
  note W = disk_ok_write [OF dk pg(4,3)]
  have "bp_inv ?bp \<and> resident ?bp pid f ?pg \<and> bp_view ?bp pid = Some (pg_data ?pg) \<and>
      (\<forall>q. q \<noteq> pid \<longrightarrow> disk_page q \<longrightarrow> bp_view bp q \<noteq> None \<longrightarrow> bp_view ?bp q = bp_view bp q)"
    using pg P W fi frames_inv_replacer [OF fi, of f]
    by (intro touch_frame [OF inv tab]) (auto simp: frames_inv_def)
  moreover have "FlushPage pid bp = Some (True, ?bp)"
    using tab pg P by (simp add: FlushPage_def Let_def)
  moreover have "bp_view bp pid = Some (pg_data pg)"
    using tab pg by (simp add: bp_view_def)
  moreover from calculation have "view_kept bp ?bp"
    using P by (intro view_keptI [of bp pid "pg_data pg"]) simp_all
  ultimately show ?thesis
    using W P by (auto simp: clean_def)
qed

lemma FlushAllPages_spec:
  assumes "bp_inv bp" and "set pids \<subseteq> dom (pageTable bp)"
  shows "\<exists>bp'. FlushAllPages pids bp = Some bp' \<and> bp_inv bp' \<and> view_kept bp bp' \<and> pageTable bp' = pageTable bp \<and>
    (\<forall>p \<in> set pids. clean p bp') \<and>
    (\<forall>p. disk_page p \<longrightarrow> clean p bp \<longrightarrow> bp_view bp p \<noteq> None \<longrightarrow> clean p bp')"
  using assms
proof (induction pids arbitrary: bp)
  case (Cons pid pids)
  then obtain f where tab: "pageTable bp pid = Some f" by auto
  obtain bp1 where 1: "FlushPage pid bp = Some (True, bp1)" "bp_inv bp1" "view_kept bp bp1" "clean pid bp1"
      "pageTable bp1 = pageTable bp"
      "\<forall>q. q \<noteq> pid \<longrightarrow> disk_page q \<longrightarrow> fst (ReadPage q (diskManager bp)) \<noteq> None \<longrightarrow>
        fst (ReadPage q (diskManager bp1)) = fst (ReadPage q (diskManager bp))"
    using FlushPage_spec [OF Cons.prems(1) tab] by blast
  obtain bp' where 2: "FlushAllPages pids bp1 = Some bp'" "bp_inv bp'" "view_kept bp1 bp'" "pageTable bp' = pageTable bp1"
      "\<forall>p \<in> set pids. clean p bp'" "\<forall>p. disk_page p \<longrightarrow> clean p bp1 \<longrightarrow> bp_view bp1 p \<noteq> None \<longrightarrow> clean p bp'"
    using Cons.IH [of bp1] 1 Cons.prems(2) by auto
  have keep: "clean p bp1 \<and> bp_view bp1 p \<noteq> None" if "disk_page p" "clean p bp" "bp_view bp p \<noteq> None" for p
    using that 1 by (cases "p = pid") (auto simp: clean_def view_kept_def)
  have "frames_inv bp" "disk_ok (diskManager bp) (log_manager bp)"
    using Cons.prems(1) by (simp_all add: bp_inv_def)
  then have "disk_page pid" "bp_view bp pid \<noteq> None"
    using frames_inv_table [of bp pid f] tab disk_ok_page by (auto simp: bp_view_def)
  then have "clean pid bp'"
    using 1 2(6) by (auto simp: view_kept_def)
  then show ?case
    using 1 2 keep view_kept_trans [OF 1(3) 2(3)] by auto
qed simp

lemma DeletePage_spec:
  assumes inv: "bp_inv bp" and tab: "pageTable bp pid = Some f" and pg: "frame_page bp f = Some pg" "pinCount pg = 0"
  shows "\<exists>bp'. DeletePage pid bp = Some (True, bp') \<and> bp_inv bp' \<and> pageTable bp' = (pageTable bp)(pid := None) \<and>
    freeList bp' = freeList bp @ [f] \<and> (\<forall>q. q \<noteq> pid \<longrightarrow> bp_view bp' q = bp_view bp q)"
proof -
  have fi: "frames_inv bp"
    using inv by (simp add: bp_inv_def)
  have t: "pg_id pg = pid" "unat f < length (bp_pages bp)"
    using frames_inv_table [OF fi tab] pg by auto
  obtain r where r: "Pin f (bp_replacer bp) = Some r" "cr_inv r" "cr_cap r = cr_cap (bp_replacer bp)"
      "cr_frames r = filter (\<lambda>g. g \<noteq> f) (cr_frames (bp_replacer bp))"
    using cr.pin_ok [of "bp_replacer bp" f] fi by (auto simp: frames_inv_def)
  let ?bp = "bp\<lparr>pageTable := (pageTable bp)(pid := None), bp_replacer := r, freeList := freeList bp @ [f]\<rparr>"
  have resid: "resident ?bp q g x \<longleftrightarrow> q \<noteq> pid \<and> resident bp q g x" for q g x
    by (auto simp: resident_def)
  have nf: "f \<notin> set (freeList bp)"
    using fi tab by (auto simp: frames_inv_def)
  have "frames_inv ?bp"
    unfolding frames_inv_def
  proof (intro conjI ballI allI impI)
    fix g assume g: "g \<in> set (cr_frames (bp_replacer ?bp))"
    then have "g \<in> set (cr_frames (bp_replacer bp))" "g \<noteq> f"
      using r by auto
    then obtain q x where x: "resident bp q g x" "pinCount x = 0"
      using fi unfolding frames_inv_def by blast
    then have "q \<noteq> pid"
      using \<open>g \<noteq> f\<close> tab by (auto simp: resident_def)
    then show "\<exists>q x. resident ?bp q g x \<and> pinCount x = 0"
      using x resid by blast
  next
    fix g q assume "g \<in> set (freeList ?bp)"
    then show "pageTable ?bp q \<noteq> Some g"
      using fi frames_inv_inj [OF fi tab, of q] by (auto simp: frames_inv_def)
  qed (use fi r nf t in \<open>auto simp: frames_inv_def split: if_splits\<close>)
  moreover have "coherent ?bp"
    using inv resid r by (auto simp: bp_inv_def coherent_def)
  ultimately have "bp_inv ?bp"
    using inv by (simp add: bp_inv_def)
  moreover have "DeletePage pid bp = Some (True, ?bp)"
    using tab pg r t by (simp add: DeletePage_def DeallocatePage_def Let_def)
  ultimately show ?thesis
    by (auto simp: bp_view_def split: option.split)
qed

lemma bp_inv_New: "disk_ok d lm \<Longrightarrow> bp_inv (NewBufferPoolManager n d lm)"
proof -
  assume d: "disk_ok d lm"
  have "unat (of_nat i :: u32) = i" if "i < unat n" for i
    using that unat_less_2p32 [of n] by (simp add: unat_of_nat32)
  then have "inj_on (of_nat :: nat \<Rightarrow> u32) {0..<unat n}" and "\<forall>i < unat n. unat (of_nat i :: u32) < unat n"
    by (auto simp: inj_on_def) metis
  then show ?thesis
    using d cr_inv_New [of n]
    by (auto simp: bp_inv_def frames_inv_def coherent_def resident_def NewBufferPoolManager_def distinct_map)
qed

subsection \<open>Properties\<close>

text \<open>C19: \<^verbatim>\<open>FetchPage\<close> never panics, keeps the buffer pool well-formed and changes no page's contents, whatever it
  evicts; a returned frame holds the current contents of the page, is pinned and is not evictable; \<^verbatim>\<open>nil\<close> is
  returned only when the page does not exist or every frame is in use.\<close>

theorem FetchPage_current_contents:
  assumes inv: "bp_inv bp" and pid: "disk_page pid" and "bp_view bp pid = Some bs"
  shows "\<exists>res bp'. FetchPage pid bp = Some (res, bp') \<and> bp_inv bp' \<and>
    (\<forall>p. disk_page p \<longrightarrow> bp_view bp p \<noteq> None \<longrightarrow> bp_view bp' p = bp_view bp p) \<and>
    (case res of
       Some f \<Rightarrow> \<exists>pg. resident bp' pid f pg \<and> pg_data pg = bs \<and>
         pinCount pg = (case pageTable bp pid of None \<Rightarrow> 1 | Some g \<Rightarrow> pinCount (the (frame_page bp g)) + 1)
     | None \<Rightarrow> freeList bp = [] \<and> cr_frames (bp_replacer bp) = [])"
proof (cases "pageTable bp pid")
  case (Some f)
  then show ?thesis
    using FetchPage_hit [OF inv Some] assms(3)
    by (auto simp: view_kept_def IncPinCount_def intro!: exI [of _ "IncPinCount _"])
next
  case None
  obtain res bp' where "FetchPage pid bp = Some (res, bp')" "bp_inv bp'" "view_kept bp bp'"
      "case res of
       Some f \<Rightarrow> \<exists>pg. resident bp' pid f pg \<and> pinCount pg = 1 \<and> \<not> isDirty pg \<and>
         (bp_view bp pid \<noteq> None \<longrightarrow> bp_view bp pid = Some (pg_data pg))
     | None \<Rightarrow> bp_view bp pid = None \<or> (freeList bp = [] \<and> cr_frames (bp_replacer bp) = [])"
    using FetchPage_miss [OF inv None pid] by blast
  then show ?thesis
    using None assms(3) by (cases res) (auto simp: view_kept_def)
qed

definition one_page_disk :: disk where
  "one_page_disk = empty_disk\<lparr>dm_db := \<lparr>f_bytes = replicate 4096 7, f_pos = 0\<rparr>, nextPageID := 1\<rparr>"

definition example_pool :: BufferPool where
  "example_pool = NewBufferPoolManager 2 one_page_disk NewLogManager"

lemma example_pool_inv: "bp_inv example_pool" "bp_view example_pool 0 = Some (replicate 4096 7)" "disk_page 0"
proof -
  have d: "disk_ok one_page_disk NewLogManager"
    using log_inv_NewLogManager
    by (simp add: disk_ok_def one_page_disk_def empty_disk_def disk_inv_def log_at_end_def)
  then show "bp_inv example_pool" by (simp add: example_pool_def bp_inv_New)
  show p: "disk_page 0" by (simp add: disk_page_def)
  show "bp_view example_pool 0 = Some (replicate 4096 7)"
    using ReadPage_eq [OF p, of one_page_disk] d
    by (simp add: bp_view_def example_pool_def NewBufferPoolManager_def disk_ok_def one_page_disk_def)
qed

theorem FetchPage_current_contents_witness:
  "\<exists>f bp' pg. FetchPage 0 example_pool = Some (Some f, bp') \<and> bp_inv bp' \<and>
     resident bp' 0 f pg \<and> pg_data pg = replicate 4096 7 \<and> pinCount pg = 1"
  using FetchPage_current_contents [OF example_pool_inv(1,3,2)]
  by (auto simp: example_pool_def NewBufferPoolManager_def split: option.splits)

text \<open>\<^verbatim>\<open>NewPage\<close> returns an all-zero, pinned page under a page number that no resident page has, and changes
  the contents of no other page; it fails only when every frame is in use.\<close>

theorem NewPage_fresh:
  assumes "bp_inv bp" and "unat (nextPageID (diskManager bp)) < 524288"
  defines "pid \<equiv> nextPageID (diskManager bp)"
  shows "\<exists>res bp'. NewPage bp = Some (res, bp') \<and> bp_inv bp' \<and>
    (case res of
       Some f \<Rightarrow> pageTable bp pid = None \<and> nextPageID (diskManager bp') = pid + 1 \<and>
         (\<exists>pg. resident bp' pid f pg \<and> pg_data pg = replicate PageSize 0 \<and> pinCount pg = 1) \<and>
         (\<forall>p. disk_page p \<longrightarrow> p \<noteq> pid \<longrightarrow> bp_view bp p \<noteq> None \<longrightarrow> bp_view bp' p = bp_view bp p)
     | None \<Rightarrow> bp' = bp \<and> freeList bp = [] \<and> cr_frames (bp_replacer bp) = [])"
proof -
  obtain res bp' where "NewPage bp = Some (res, bp')"
    "case res of
       Some f \<Rightarrow> bp_inv bp' \<and> resident bp' pid f (page_NewEmpty pid) \<and> pageTable bp pid = None \<and>
         nextPageID (diskManager bp') = pid + 1 \<and>
         (\<forall>p. disk_page p \<longrightarrow> p \<noteq> pid \<longrightarrow> bp_view bp p \<noteq> None \<longrightarrow> bp_view bp' p = bp_view bp p)
     | None \<Rightarrow> bp' = bp \<and> freeList bp = [] \<and> cr_frames (bp_replacer bp) = []"
    unfolding pid_def using NewPage_spec [OF assms(1,2)] by blast
  then show ?thesis
    using assms(1) by (cases res) (auto simp: page_NewEmpty_def)
qed

theorem NewPage_fresh_witness:
  "\<exists>f bp' pg. NewPage example_pool = Some (Some f, bp') \<and> resident bp' 1 f pg \<and> pg_data pg = replicate PageSize 0"
  using NewPage_fresh [OF example_pool_inv(1)]
  by (auto simp: example_pool_def NewBufferPoolManager_def one_page_disk_def split: option.splits)

lemma flush_all_clean:
  assumes "bp_inv bp" and "set pids = dom (pageTable bp)"
  shows "\<exists>bp'. FlushAllPages pids bp = Some bp' \<and> bp_inv bp' \<and>
    (\<forall>p. disk_page p \<longrightarrow> bp_view bp p \<noteq> None \<longrightarrow> fst (ReadPage p (diskManager bp')) = bp_view bp p)"
proof -
  obtain bp' where bp': "FlushAllPages pids bp = Some bp'" "bp_inv bp'" "view_kept bp bp'" "pageTable bp' = pageTable bp"
      "\<forall>p \<in> set pids. clean p bp'"
    using FlushAllPages_spec [of bp pids] assms by auto
  have "fst (ReadPage p (diskManager bp')) = bp_view bp p" if "disk_page p" "bp_view bp p \<noteq> None" for p
  proof (cases "p \<in> set pids")
    case True
    then show ?thesis using that bp' by (auto simp: clean_def view_kept_def)
  next
    case False
    then have "bp_view bp' p = fst (ReadPage p (diskManager bp'))"
      using assms(2) bp'(4) by (auto simp: bp_view_def split: option.splits)
    then show ?thesis using that bp'(3) by (simp add: view_kept_def)
  qed
  with bp' show ?thesis by blast
qed

text \<open>C35: flushing the resident pages, in whatever order the page table is ranged over, leaves on disk the
  contents every page has for its clients, and changes none of them.\<close>

theorem FlushAllPages_persists:
  assumes "bp_inv bp" and "set pids = dom (pageTable bp)"
  shows "\<exists>bp'. FlushAllPages pids bp = Some bp' \<and> bp_inv bp' \<and>
    (\<forall>p. disk_page p \<longrightarrow> bp_view bp p \<noteq> None \<longrightarrow> fst (ReadPage p (diskManager bp')) = bp_view bp p)"
  by (rule flush_all_clean [OF assms])

text \<open>A client that fetched a page, changed its bytes through the frame and unpinned it as dirty has changed
  the contents of that page and of no other; at pin count 0 the frame becomes evictable.\<close>

theorem write_then_unpin:
  assumes inv: "bp_inv bp" and res: "resident bp pid f pg" and pin: "pinCount pg \<noteq> 0" and len: "length bs = PageSize"
  shows "\<exists>bp'. UnpinPage pid True (set_frame f (pg\<lparr>pg_data := bs\<rparr>) bp) = Some (True, bp') \<and> bp_inv bp' \<and>
    bp_view bp' pid = Some bs \<and>
    (\<forall>q. q \<noteq> pid \<longrightarrow> disk_page q \<longrightarrow> bp_view bp q \<noteq> None \<longrightarrow> bp_view bp' q = bp_view bp q) \<and>
    (pinCount pg = 1 \<longrightarrow> f \<in> set (cr_frames (bp_replacer bp')))"
proof -
  let ?bp = "set_frame f (pg\<lparr>pg_data := bs\<rparr>) bp"
  have fi: "frames_inv bp" and dk: "disk_ok (diskManager bp) (log_manager bp)"
    using inv by (simp_all add: bp_inv_def)
  have "f \<notin> set (cr_frames (bp_replacer bp))"
    using frames_inv_replacer [OF fi, of f] res pin by (auto simp: resident_def)
  then have w: "bp_inv ?bp" "resident ?bp pid f (pg\<lparr>pg_data := bs\<rparr>)" "bp_view ?bp pid = Some bs"
      "\<forall>q. q \<noteq> pid \<longrightarrow> disk_page q \<longrightarrow> bp_view bp q \<noteq> None \<longrightarrow> bp_view ?bp q = bp_view bp q"
    using client_write [OF inv res, of bs] len by auto
  have t: "pageTable ?bp pid = Some f" "frame_page ?bp f = Some (pg\<lparr>pg_data := bs\<rparr>)"
    using w(2) by (simp_all add: resident_def)
  obtain bp' where u: "UnpinPage pid True ?bp = Some (True, bp')" "bp_inv bp'" "view_kept ?bp bp'"
      "pinCount (DecPinCount (pg\<lparr>pg_data := bs\<rparr>)) = 0 \<longrightarrow> f \<in> set (cr_frames (bp_replacer bp'))"
    using UnpinPage_spec [OF w(1) t disjI1 [OF TrueI]] by metis
  have "disk_page pid"
    using frames_inv_table [OF fi, of pid f] disk_ok_page [OF dk] res by (auto simp: resident_def)
  then show ?thesis
    using u w by (auto simp: view_kept_def DecPinCount_def)
qed

definition pinned_pool :: "BufferPool \<times> page" where
  "pinned_pool = (let pg = page_New 0 False (replicate 4096 7) in
     (example_pool\<lparr>freeList := [1], pageTable := [0 \<mapsto> 0], bp_pages := [Some pg, None]\<rparr>, pg))"

lemma pinned_pool_inv: "bp_inv (fst pinned_pool)" "resident (fst pinned_pool) 0 0 (snd pinned_pool)"
    "pinCount (snd pinned_pool) = 1"
proof -
  have d: "disk_ok one_page_disk NewLogManager"
    using example_pool_inv(1) by (simp add: bp_inv_def example_pool_def NewBufferPoolManager_def)
  have "frame_page (fst pinned_pool) 0 = Some (snd pinned_pool)"
    by (simp add: pinned_pool_def Let_def frame_page_def)
  then show "bp_inv (fst pinned_pool)" "resident (fst pinned_pool) 0 0 (snd pinned_pool)"
    using d cr_inv_New [of 2]
    by (auto simp: bp_inv_def frames_inv_def coherent_def resident_def pinned_pool_def Let_def example_pool_def
        NewBufferPoolManager_def page_New_def one_page_disk_def split: if_splits)
  show "pinCount (snd pinned_pool) = 1"
    by (simp add: pinned_pool_def Let_def page_New_def)
qed

theorem write_then_unpin_witness:
  "\<exists>bp'. UnpinPage 0 True (set_frame 0 ((snd pinned_pool)\<lparr>pg_data := replicate 4096 9\<rparr>) (fst pinned_pool)) = Some (True, bp') \<and>
     bp_view bp' 0 = Some (replicate 4096 9)"
  using write_then_unpin [OF pinned_pool_inv(1,2), of "replicate 4096 9"] pinned_pool_inv(3) by auto

text \<open>Flushing for real: page 0 is resident, its client wrote over it and unpinned it as dirty; the disk still has the
  old bytes, and after the flush the new ones.\<close>

definition written_pool :: BufferPool where
  "written_pool = set_frame 0 ((snd pinned_pool)\<lparr>pg_data := replicate 4096 9\<rparr>) (fst pinned_pool)"

lemma UnpinPage_keeps: "UnpinPage pid dirty bp = Some (True, bp') \<Longrightarrow> pageTable bp' = pageTable bp \<and> diskManager bp' = diskManager bp"
  by (auto simp: UnpinPage_def Let_def bind_Some_iff set_frame_def split: option.splits)

lemma dirty_pool:
  obtains bp where "UnpinPage 0 True written_pool = Some (True, bp)" "bp_inv bp" "bp_view bp 0 = Some (replicate 4096 9)"
    "set [0] = dom (pageTable bp)" "fst (ReadPage 0 (diskManager bp)) = Some (replicate 4096 7)"
proof -
  obtain bp1 where u: "UnpinPage 0 True written_pool = Some (True, bp1)" "bp_inv bp1" "bp_view bp1 0 = Some (replicate 4096 9)"
    using write_then_unpin [OF pinned_pool_inv(1,2), of "replicate 4096 9"] pinned_pool_inv(3) unfolding written_pool_def by auto
  have "pageTable (fst pinned_pool) = [0 \<mapsto> 0]" "diskManager (fst pinned_pool) = diskManager example_pool" "pageTable example_pool 0 = None"
    by (simp_all add: pinned_pool_def Let_def example_pool_def NewBufferPoolManager_def)
  then have "set [0] = dom (pageTable bp1)" "fst (ReadPage 0 (diskManager bp1)) = Some (replicate 4096 7)"
    using UnpinPage_keeps [OF u(1)] example_pool_inv(2) by (simp_all add: written_pool_def set_frame_def bp_view_def)
  with u show thesis by (rule that)
qed

theorem FlushAllPages_persists_witness:
  "\<exists>bp1 bp2. UnpinPage 0 True written_pool = Some (True, bp1) \<and> fst (ReadPage 0 (diskManager bp1)) = Some (replicate 4096 7) \<and>
     bp_view bp1 0 = Some (replicate 4096 9) \<and>
     FlushAllPages [0] bp1 = Some bp2 \<and> fst (ReadPage 0 (diskManager bp2)) = Some (replicate 4096 9)"
proof (rule dirty_pool)
  fix bp1
  assume u: "UnpinPage 0 True written_pool = Some (True, bp1)" "bp_inv bp1" "bp_view bp1 0 = Some (replicate 4096 9)"
    "set [0] = dom (pageTable bp1)" "fst (ReadPage 0 (diskManager bp1)) = Some (replicate 4096 7)"
  obtain bp2 where "FlushAllPages [0] bp1 = Some bp2" "fst (ReadPage 0 (diskManager bp2)) = Some (replicate 4096 9)"
    using FlushAllPages_persists [OF u(2,4)] example_pool_inv(3) u(3) by auto
  then show ?thesis using u by blast
qed

text \<open>C38: \<^verbatim>\<open>FlushPage\<close> also drops one pin.  When two clients hold a page, one flush and one unpin make the frame
  evictable while the other client still holds it.\<close>

theorem FlushPage_steals_pin:
  assumes inv: "bp_inv bp" and res: "resident bp pid f pg" and two: "pinCount pg = 2"
  shows "\<exists>bp1 bp2. FlushPage pid bp = Some (True, bp1) \<and> UnpinPage pid False bp1 = Some (True, bp2) \<and>
    f \<in> set (cr_frames (bp_replacer bp2))"
proof -
  have tab: "pageTable bp pid = Some f" and fp: "frame_page bp f = Some pg"
    using res by (simp_all add: resident_def)
  obtain bp1 where 1: "FlushPage pid bp = Some (True, bp1)" "bp_inv bp1" "clean pid bp1" "pageTable bp1 = pageTable bp"
    using FlushPage_spec [OF inv tab] by blast
  have "bp1 = set_frame f (SetIsDirty (DecPinCount pg) False)
      (bp\<lparr>diskManager := snd (WritePage pid (pg_data (DecPinCount pg)) (diskManager bp))\<rparr>)"
    using 1(1) tab fp by (simp add: FlushPage_def Let_def)
  then have fp1: "frame_page bp1 f = Some (SetIsDirty (DecPinCount pg) False)"
    using frame_page_bound [OF fp] by simp
  have "pinCount (DecPinCount (SetIsDirty (DecPinCount pg) False)) = 0"
    using two by (simp add: DecPinCount_def SetIsDirty_def)
  then show ?thesis
    using UnpinPage_spec [OF 1(2), of pid f _ False, OF _ fp1] 1 tab by fastforce
qed

definition shared_pool :: "BufferPool \<times> page" where
  "shared_pool = (let pg = IncPinCount (snd pinned_pool) in (set_frame 0 pg (fst pinned_pool), pg))"

theorem FlushPage_steals_pin_witness:
  "\<exists>bp1 bp2. FlushPage 0 (fst shared_pool) = Some (True, bp1) \<and> UnpinPage 0 False bp1 = Some (True, bp2) \<and>
     0 \<in> set (cr_frames (bp_replacer bp2))"
proof (rule FlushPage_steals_pin)
  let ?pg = "snd shared_pool"
  have r: "cr_frames (bp_replacer (fst pinned_pool)) = []" "cr_inv (bp_replacer (fst pinned_pool))"
    using cr_inv_New [of 2] by (simp_all add: pinned_pool_def Let_def example_pool_def NewBufferPoolManager_def)
  have t: "pageTable (fst pinned_pool) 0 = Some 0"
    by (simp add: pinned_pool_def Let_def)
  have p: "pg_id ?pg = 0" "length (pg_data ?pg) = 4096"
    by (simp_all add: shared_pool_def pinned_pool_def Let_def IncPinCount_def page_New_def)
  have "fst shared_pool = set_frame 0 ?pg (fst pinned_pool)"
    by (simp add: shared_pool_def Let_def)
  then show "bp_inv (fst shared_pool)" "resident (fst shared_pool) 0 0 ?pg"
    using touch_frame_keep [OF pinned_pool_inv(1) t p, of "bp_replacer (fst pinned_pool)"] r by auto
  show "pinCount ?pg = 2"
    using pinned_pool_inv(3) by (simp add: shared_pool_def Let_def IncPinCount_def)
qed

end
