(* ===== verification/Pool_Client.thy ===== *)
theory Pool_Client
  imports Buffer_Pool
begin

text \<open>
  What a client of the buffer pool that pins, uses and unpins pages relies on.  \<open>pool_ok H n bp\<close>: the pages in
  \<open>H\<close> are held by the client, at least \<open>n\<close> frames can still be claimed, and every page nobody has pinned is with
  the replacer.  \<open>fetch_held\<close>, \<open>new_held\<close>, \<open>write_held\<close> and \<open>unpin_held\<close> are the four steps of every access
  in \<^verbatim>\<open>storage/access\<close>.
\<close>

subsection \<open>Frames that can be claimed\<close>

definition avail :: "BufferPool \<Rightarrow> nat" where
  "avail bp = length (freeList bp) + length (cr_frames (bp_replacer bp))"

definition others_kept :: "pageID \<Rightarrow> BufferPool \<Rightarrow> BufferPool \<Rightarrow> bool" where
  "others_kept p bp bp' \<longleftrightarrow> (\<forall>q g x. q \<noteq> p \<longrightarrow> resident bp' q g x \<longrightarrow> resident bp q g x \<and>
     (g \<in> set (cr_frames (bp_replacer bp)) \<longrightarrow> g \<in> set (cr_frames (bp_replacer bp')))) \<and>
   (\<forall>q g x. q \<noteq> p \<longrightarrow> resident bp q g x \<longrightarrow> g \<notin> set (cr_frames (bp_replacer bp)) \<longrightarrow> resident bp' q g x)"

lemma bp_inv_frames: "bp_inv bp \<Longrightarrow> frames_inv bp" "bp_inv bp \<Longrightarrow> cr_inv (bp_replacer bp)"
  "bp_inv bp \<Longrightarrow> disk_ok (diskManager bp) (log_manager bp)"
  by (simp_all add: bp_inv_def frames_inv_def)

lemma evict_keeps:
  assumes "evict f bp = Some bp'"
  shows "bp_pages bp' = bp_pages bp" "bp_replacer bp' = bp_replacer bp" "freeList bp' = freeList bp"
    "pageTable bp' q = Some g \<Longrightarrow> pageTable bp q = Some g"
  using assms by (auto simp: evict_def Let_def bind_Some_iff split: option.splits if_splits prod.splits)

lemma claim_keeps:
  assumes inv: "bp_inv bp" and g: "getFrameID bp = Some (Some f, fl, bp1)" and e: "(if fl then Some bp1 else evict f bp1) = Some bp2"
  shows "bp_pages bp2 = bp_pages bp" "pageTable bp2 q = Some h \<Longrightarrow> pageTable bp q = Some h" "avail bp = Suc (avail bp2)"
    "set (cr_frames (bp_replacer bp)) \<subseteq> insert f (set (cr_frames (bp_replacer bp2)))"
proof -
  have "bp_pages bp1 = bp_pages bp" "pageTable bp1 = pageTable bp"
    using g by (auto simp: getFrameID_def bind_Some_iff split: list.splits)
  then show "bp_pages bp2 = bp_pages bp" "pageTable bp2 q = Some h \<Longrightarrow> pageTable bp q = Some h"
    using e evict_keeps [of f bp1 bp2] by (auto split: if_splits)
  show "avail bp = Suc (avail bp2)" "set (cr_frames (bp_replacer bp)) \<subseteq> insert f (set (cr_frames (bp_replacer bp2)))"
  proof (atomize (full), cases "freeList bp")
    case (Cons h fs)
    then show "avail bp = Suc (avail bp2) \<and> set (cr_frames (bp_replacer bp)) \<subseteq> insert f (set (cr_frames (bp_replacer bp2)))"
      using g e by (auto simp: getFrameID_def avail_def)
  next
    case Nil
    then obtain r where v: "Victim (bp_replacer bp) = Some (Some f, r)" "fl = False" "bp1 = bp\<lparr>bp_replacer := r\<rparr>"
      using g by (auto simp: getFrameID_def bind_Some_iff)
    obtain fs where fs: "cr_frames (bp_replacer bp) = f # fs" "cr_frames r = fs"
      using cr.victim_total [OF bp_inv_frames(2) [OF inv]] v(1) by (cases "cr_frames (bp_replacer bp)") auto
    show "avail bp = Suc (avail bp2) \<and> set (cr_frames (bp_replacer bp)) \<subseteq> insert f (set (cr_frames (bp_replacer bp2)))"
      using fs v e Nil evict_keeps [of f bp1 bp2] by (auto simp: avail_def)
  qed
qed

lemma claim_pinned:
  assumes inv: "bp_inv bp" and g: "getFrameID bp = Some (Some f, fl, bp1)" and e: "(if fl then Some bp1 else evict f bp1) = Some bp2"
    and r: "resident bp q h x" "h \<notin> set (cr_frames (bp_replacer bp))"
  shows "pageTable bp2 q = Some h"
proof (cases "freeList bp")
  case (Cons k fs)
  then show ?thesis using g e r by (auto simp: getFrameID_def resident_def)
next
  case Nil
  then obtain r' where v: "Victim (bp_replacer bp) = Some (Some f, r')" "fl = False" "bp1 = bp\<lparr>bp_replacer := r'\<rparr>"
    using g by (auto simp: getFrameID_def bind_Some_iff)
  have "f \<in> set (cr_frames (bp_replacer bp))"
    using cr.victim_total [OF bp_inv_frames(2) [OF inv]] v(1) by (cases "cr_frames (bp_replacer bp)") auto
  then obtain pg where pg: "frame_page bp f = Some pg" "pageTable bp (pg_id pg) = Some f" "f \<noteq> h"
    using frames_inv_replacer [OF bp_inv_frames(1) [OF inv]] r(2) by blast
  then have "pg_id pg \<noteq> q" using r(1) by (auto simp: resident_def)
  moreover have "go_nth (bp_pages bp) (unat f) = Some (Some pg)" using pg(1) by (auto simp: frame_page_def bind_Some_iff)
  ultimately show ?thesis
    using e v r(1) by (auto simp: evict_def Let_def bind_Some_iff resident_def split: if_splits prod.splits)
qed

lemma install_keeps:
  assumes "install f pg bp = Some bp'"
  shows "bp_pages bp' = (bp_pages bp)[unat f := Some pg]" "bp_replacer bp' = bp_replacer bp" "freeList bp' = freeList bp"
    "pageTable bp' = (pageTable bp)(pg_id pg \<mapsto> f)" "unat f < length (bp_pages bp)"
  using assms by (auto simp: install_def split: if_splits)

lemma claim_install:
  assumes inv: "bp_inv bp" and g: "getFrameID bp = Some (Some f, fl, bp1)" "(if fl then Some bp1 else evict f bp1) = Some bp2"
    and i: "install f pg (bp2\<lparr>diskManager := d\<rparr>) = Some bp'"
  shows "others_kept (pg_id pg) bp bp' \<and> avail bp = Suc (avail bp')"
proof -
  note k = claim_keeps [OF inv g] and n = install_keeps [OF i]
  have cl: "claimed f bp2"
    using claim_frame [OF inv] g by auto
  have fp: "h \<noteq> f \<Longrightarrow> frame_page bp' h = frame_page bp h" for h
    using n(1) k(1) by (auto simp: frame_page_def go_nth_def nth_list_update word_unat_eq_iff)
  have "resident bp q h x \<and> (h \<in> set (cr_frames (bp_replacer bp)) \<longrightarrow> h \<in> set (cr_frames (bp_replacer bp')))"
    if "q \<noteq> pg_id pg" "resident bp' q h x" for q h x
  proof -
    have t: "pageTable bp2 q = Some h" using that n(4) by (simp add: resident_def)
    then have "h \<noteq> f" using cl by (auto simp: claimed_def)
    then show ?thesis
      using t that(2) fp k(2,4) n(2) by (auto simp: resident_def)
  qed
  moreover have "resident bp' q h x" if "q \<noteq> pg_id pg" "resident bp q h x" "h \<notin> set (cr_frames (bp_replacer bp))" for q h x
  proof -
    have t: "pageTable bp2 q = Some h" by (rule claim_pinned [OF inv g that(2,3)])
    then have "h \<noteq> f" using cl by (auto simp: claimed_def)
    then show ?thesis using t that fp n(4) by (simp add: resident_def)
  qed
  ultimately show ?thesis using k(3) n(2,3) by (simp add: others_kept_def avail_def)
qed

lemma length_filter_other: "distinct xs \<Longrightarrow> length xs \<le> Suc (length (filter (\<lambda>y. y \<noteq> x) xs))"
proof (induction xs)
  case (Cons a xs)
  have "a = x \<Longrightarrow> filter (\<lambda>y. y \<noteq> x) xs = xs" using Cons.prems by (intro filter_True) auto
  with Cons show ?case by auto
qed simp

lemma FetchPage_miss_run:
  assumes "FetchPage pid bp = Some (Some f, bp')" and "pageTable bp pid = None"
  obtains fl bp1 bp2 data where "getFrameID bp = Some (Some f, fl, bp1)" "(if fl then Some bp1 else evict f bp1) = Some bp2"
    "fst (ReadPage pid (diskManager bp2)) = Some data"
    "install f (page_New pid False data) (bp2\<lparr>diskManager := snd (ReadPage pid (diskManager bp2))\<rparr>) = Some bp'"
  using assms by (auto simp: FetchPage_def Let_def bind_Some_iff split_beta cong: if_cong split: option.splits)

lemma FetchPage_others:
  assumes inv: "bp_inv bp" and f: "FetchPage pid bp = Some (Some f, bp')"
  shows "others_kept pid bp bp' \<and> avail bp \<le> Suc (avail bp') \<and>
    (pageTable bp pid \<noteq> None \<longrightarrow> f \<notin> set (cr_frames (bp_replacer bp)) \<longrightarrow> avail bp' = avail bp)"
proof (cases "pageTable bp pid")
  case None
  obtain fl bp1 bp2 data where g: "getFrameID bp = Some (Some f, fl, bp1)" "(if fl then Some bp1 else evict f bp1) = Some bp2"
      "install f (page_New pid False data) (bp2\<lparr>diskManager := snd (ReadPage pid (diskManager bp2))\<rparr>) = Some bp'"
    by (rule FetchPage_miss_run [OF f None])
  then show ?thesis using claim_install [OF inv g] None by (simp add: page_New_def)
next
  case (Some g)
  then obtain pg r where h: "frame_page bp f = Some pg" "Pin f (bp_replacer bp) = Some r" "g = f"
      "bp' = (set_frame f (IncPinCount pg) bp)\<lparr>bp_replacer := r\<rparr>"
    using f by (auto simp: FetchPage_def Let_def bind_Some_iff)
  have r: "cr_frames r = filter (\<lambda>g. g \<noteq> f) (cr_frames (bp_replacer bp))" and dist: "distinct (cr_frames (bp_replacer bp))"
    using cr.pin_ok [OF bp_inv_frames(2) [OF inv], of f] h(2) cr.frames_ok [OF bp_inv_frames(2) [OF inv]] by auto
  have park: "length (filter (\<lambda>g. g \<noteq> f) (cr_frames (bp_replacer bp))) = length (cr_frames (bp_replacer bp))"
    if "f \<notin> set (cr_frames (bp_replacer bp))"
    using that by (intro arg_cong [where f = length] filter_True) auto
  have lt: "unat f < length (bp_pages bp)" using frame_page_bound h(1) .
  have "length (cr_frames (bp_replacer bp)) \<le> Suc (length (cr_frames r))"
    unfolding r using length_filter_other [OF dist] .
  moreover have "q \<noteq> pid \<Longrightarrow> resident bp' q k x \<longleftrightarrow> resident bp q k x" "q \<noteq> pid \<Longrightarrow> resident bp q k x \<Longrightarrow> k \<noteq> f" for q k x
    using lt h frames_inv_inj [OF bp_inv_frames(1) [OF inv]] Some by (auto simp: resident_def split: if_splits)
  ultimately show ?thesis
    using h r park by (auto simp: others_kept_def avail_def set_frame_def)
qed

lemma NewPage_others:
  assumes inv: "bp_inv bp" and f: "NewPage bp = Some (Some f, bp')"
  shows "others_kept (nextPageID (diskManager bp)) bp bp' \<and> avail bp = Suc (avail bp')"
proof -
  obtain fl bp1 bp2 d where g: "getFrameID bp = Some (Some f, fl, bp1)" "(if fl then Some bp1 else evict f bp1) = Some bp2"
      "install f (page_NewEmpty (nextPageID (diskManager bp2))) (bp2\<lparr>diskManager := d\<rparr>) = Some bp'"
    using f by (auto simp: NewPage_def AllocatePage_def Let_def bind_Some_iff split: option.splits prod.splits)
  moreover have "nextPageID (diskManager bp2) = nextPageID (diskManager bp)"
    using claim_frame [OF inv] g(1,2) by auto
  ultimately show ?thesis using claim_install [OF inv g] by (simp add: page_NewEmpty_def)
qed

lemma UnpinPage_others:
  assumes inv: "bp_inv bp" and u: "UnpinPage pid dirty bp = Some (ok, bp')" and pg: "resident bp pid f pg" "pinCount pg \<noteq> 0"
  shows "others_kept pid bp bp' \<and> avail bp' = (if pinCount pg = 1 then Suc (avail bp) else avail bp)"
proof -
  have t: "pageTable bp pid = Some f" "frame_page bp f = Some pg" using pg by (simp_all add: resident_def)
  note fi = bp_inv_frames(1) [OF inv]
  have nf: "f \<notin> set (cr_frames (bp_replacer bp))"
    using frames_inv_replacer [OF fi, of f] pg by (auto simp: resident_def)
  have dec: "pinCount (DecPinCount pg) = pinCount pg - 1" "pinCount pg - 1 \<le> 0 \<longleftrightarrow> pinCount pg = 1"
    using pg(2) by (auto simp: DecPinCount_def word_gt_0)
  obtain r where r: "(if pinCount (DecPinCount pg) \<le> 0 then Unpin f (bp_replacer bp) else Some (bp_replacer bp)) = Some r"
      and b: "bp' = set_frame f (SetIsDirty (DecPinCount pg) (isDirty (DecPinCount pg) \<or> dirty)) (bp\<lparr>bp_replacer := r\<rparr>)"
    using u t by (auto simp: UnpinPage_def Let_def bind_Some_iff)
  have ci: "cr_inv (bp_replacer bp)" "cr_cap (bp_replacer bp) = length (bp_pages bp)"
    using fi by (simp_all add: frames_inv_def)
  have lt: "unat f < length (bp_pages bp)" using frame_page_bound t(2) .
  have fr: "cr_frames r = (if pinCount pg = 1 then cr_frames (bp_replacer bp) @ [f] else cr_frames (bp_replacer bp))"
    using r dec nf cr.unpin_ok [OF ci(1), of f] full_replacer [OF fi lt] ci(2) by (auto split: if_splits)
  have "q \<noteq> pid \<Longrightarrow> resident bp' q k x \<longleftrightarrow> resident bp q k x" for q k x
    using lt b frames_inv_inj [OF fi] t by (auto simp: resident_def split: if_splits)
  then show ?thesis
    using b fr by (auto simp: others_kept_def avail_def)
qed

subsection \<open>The steps of an access\<close>

definition pinned1 :: "pageID set \<Rightarrow> BufferPool \<Rightarrow> pageID set" where
  "pinned1 H bp = {p \<in> H. \<exists>f pg. resident bp p f pg \<and> pinCount pg = 1}"

definition pool_ok :: "pageID set \<Rightarrow> nat \<Rightarrow> BufferPool \<Rightarrow> bool" where
  "pool_ok H n bp \<longleftrightarrow> bp_inv bp \<and> finite H \<and> n < 2147483648 \<and> n \<le> avail bp + card (pinned1 H bp) \<and>
     (\<forall>p f pg. resident bp p f pg \<longrightarrow> (pinCount pg = 0 \<longrightarrow> f \<in> set (cr_frames (bp_replacer bp))) \<and>
        unat (pinCount pg) + n < 2147483648 + (if p \<in> H then 1 else 0))"

text \<open>The client holds page \<open>p\<close> in frame \<open>f\<close>; its contents are \<open>d\<close>.  \<open>fresh\<close>: they have not been changed.\<close>

definition held :: "pageID \<Rightarrow> FrameID \<Rightarrow> bytes \<Rightarrow> bool \<Rightarrow> BufferPool \<Rightarrow> bool" where
  "held p f d fresh bp \<longleftrightarrow> (\<exists>pg. resident bp p f pg \<and> pg_data pg = d \<and> pinCount pg \<noteq> 0 \<and>
     (fresh \<longrightarrow> pinCount pg = 1 \<longrightarrow> isDirty pg \<or> clean p bp))"

text \<open>Every page that has contents, except \<open>P\<close>, still has them.\<close>

definition kept_but :: "pageID set \<Rightarrow> BufferPool \<Rightarrow> BufferPool \<Rightarrow> bool" where
  "kept_but P bp bp' \<longleftrightarrow> (\<forall>q. q \<notin> P \<longrightarrow> disk_page q \<longrightarrow> bp_view bp q \<noteq> None \<longrightarrow> bp_view bp' q = bp_view bp q)"

lemma kept_but_refl [simp]: "kept_but P bp bp"
  by (simp add: kept_but_def)

lemma kept_but_trans: "kept_but P a b \<Longrightarrow> kept_but Q b c \<Longrightarrow> kept_but (P \<union> Q) a c"
  by (auto simp: kept_but_def)

lemma kept_but_empty: "kept_but {} bp bp' \<longleftrightarrow> view_kept bp bp'"
  by (simp add: kept_but_def view_kept_def)

lemma kept_but_mono: "kept_but P a b \<Longrightarrow> P \<subseteq> Q \<Longrightarrow> kept_but Q a b"
  by (auto simp: kept_but_def)

lemma pool_okD:
  assumes "pool_ok H n bp"
  shows "bp_inv bp" "finite H" "resident bp p f pg \<Longrightarrow> pinCount pg = 0 \<Longrightarrow> f \<in> set (cr_frames (bp_replacer bp))"
    "resident bp p f pg \<Longrightarrow> unat (pinCount pg) + n < 2147483648 + (if p \<in> H then 1 else 0)"
    "n \<le> avail bp + card (pinned1 H bp)" "n < 2147483648"
  using assms by (auto simp: pool_ok_def)

lemma pool_avail:
  assumes "pool_ok H n bp" and "card H < n"
  shows "\<not> (freeList bp = [] \<and> cr_frames (bp_replacer bp) = [])"
proof -
  have "card (pinned1 H bp) \<le> card H"
    using pool_okD(2) [OF assms(1)] by (intro card_mono) (auto simp: pinned1_def)
  then show ?thesis using pool_okD(5) [OF assms(1)] assms(2) by (auto simp: avail_def)
qed

lemma pinned_not_parked:
  "bp_inv bp \<Longrightarrow> resident bp q g x \<Longrightarrow> pinCount x \<noteq> 0 \<Longrightarrow> g \<notin> set (cr_frames (bp_replacer bp))"
  using frames_inv_replacer [OF bp_inv_frames(1), of bp g] by (auto simp: resident_def)

lemma pinned1_step:
  assumes inv: "bp_inv bp" and fin: "finite H" "finite H'" and o: "others_kept p bp bp'" and H: "H - {p} \<subseteq> H'"
  shows "card (pinned1 H bp) + (if p \<in> pinned1 H' bp' then 1 else 0) \<le> card (pinned1 H' bp') + (if p \<in> pinned1 H bp then 1 else 0)"
proof -
  let ?A = "pinned1 H bp - {p}" and ?B = "pinned1 H' bp' - {p}"
  have "?A \<subseteq> ?B"
  proof
    fix q assume "q \<in> ?A"
    then obtain g x where "q \<in> H" "q \<noteq> p" "resident bp q g x" "pinCount x = 1" by (auto simp: pinned1_def)
    moreover from this have "g \<notin> set (cr_frames (bp_replacer bp))" using pinned_not_parked [OF inv] by simp
    ultimately have "resident bp' q g x" "q \<in> H'" using o H by (auto simp: others_kept_def)
    then show "q \<in> ?B" using \<open>q \<noteq> p\<close> \<open>pinCount x = 1\<close> by (auto simp: pinned1_def)
  qed
  moreover have f: "finite (pinned1 H bp)" "finite (pinned1 H' bp')" using fin by (auto simp: pinned1_def)
  ultimately have "card ?A \<le> card ?B" by (intro card_mono) auto
  moreover have "card (pinned1 H bp) = card ?A + (if p \<in> pinned1 H bp then 1 else 0)"
    using f(1) card.remove [of _ p] by (cases "p \<in> pinned1 H bp") auto
  moreover have "card (pinned1 H' bp') = card ?B + (if p \<in> pinned1 H' bp' then 1 else 0)"
    using f(2) card.remove [of _ p] by (cases "p \<in> pinned1 H' bp'") auto
  ultimately show ?thesis by simp
qed

lemma pool_ok_step:
  assumes ok: "pool_ok H n bp" and o: "others_kept p bp bp'" and inv: "bp_inv bp'" and H: "finite H'" "H - {p} \<subseteq> H'"
    and r: "resident bp' p f pg" "pinCount pg = 0 \<longrightarrow> f \<in> set (cr_frames (bp_replacer bp'))"
      "unat (pinCount pg) + n < 2147483648 + (if p \<in> H' then 1 else 0)"
    and av: "avail bp + (if p \<in> pinned1 H bp then 1 else 0) \<le> avail bp' + (if p \<in> H' \<and> pinCount pg = 1 then 1 else 0)"
  shows "pool_ok H' n bp'"
  unfolding pool_ok_def
proof (intro conjI allI impI)
  have "p \<in> pinned1 H' bp' \<longleftrightarrow> p \<in> H' \<and> pinCount pg = 1"
    using r(1) by (auto simp: pinned1_def resident_def)
  then show "n \<le> avail bp' + card (pinned1 H' bp')"
    using pinned1_step [OF pool_okD(1,2) [OF ok] H(1) o H(2)] pool_okD(5) [OF ok] av by auto
  fix q g x assume q: "resident bp' q g x"
  show "g \<in> set (cr_frames (bp_replacer bp'))" if "pinCount x = 0"
  proof (cases "q = p")
    case True
    then show ?thesis using q r that by (auto simp: resident_def)
  next
    case False
    then show ?thesis using o q that pool_okD(3) [OF ok] unfolding others_kept_def by blast
  qed
  show "unat (pinCount x) + n < 2147483648 + (if q \<in> H' then 1 else 0)"
  proof (cases "q = p")
    case True
    then show ?thesis using q r by (auto simp: resident_def)
  next
    case False
    then have "resident bp q g x" using o q by (auto simp: others_kept_def)
    then show ?thesis using pool_okD(4) [OF ok, of q g x] H(2) False by (auto split: if_splits)
  qed
qed (use assms pool_okD(6) [OF ok] in auto)

text \<open>A pin that is never given back costs one frame for good.\<close>

lemma pool_leak:
  assumes ok: "pool_ok (insert p H) (Suc n) bp"
  shows "pool_ok H n bp"
proof -
  have f: "finite H" and s: "pinned1 (insert p H) bp \<subseteq> insert p (pinned1 H bp)" using pool_okD(2) [OF ok] by (auto simp: pinned1_def)
  have f1: "finite (pinned1 H bp)" using f by (auto simp: pinned1_def)
  have "card (pinned1 (insert p H) bp) \<le> card (insert p (pinned1 H bp))" using f1 s by (intro card_mono) auto
  also have "\<dots> \<le> Suc (card (pinned1 H bp))" using f1 by (simp add: card_insert_if)
  finally have c: "card (pinned1 (insert p H) bp) \<le> Suc (card (pinned1 H bp))" .
  have "unat (pinCount pg) + n < 2147483648 + (if q \<in> H then 1 else 0)" if "resident bp q g pg" for q g pg
    using pool_okD(4) [OF ok that] by (cases "q \<in> H"; cases "q = p") auto
  then show ?thesis
    using c f pool_okD(1,3,5,6) [OF ok] by (auto simp: pool_ok_def)
qed

lemma fetch_held:
  assumes ok: "pool_ok H n bp" and p: "disk_page p" "p \<notin> H" "bp_view bp p = Some d" and n: "card H < n"
  shows "\<exists>f bp'. FetchPage p bp = Some (Some f, bp') \<and> pool_ok (insert p H) n bp' \<and> held p f d True bp' \<and> kept_but {} bp bp' \<and>
    others_kept p bp bp' \<and> nextPageID (diskManager bp') = nextPageID (diskManager bp)"
proof (cases "pageTable bp p")
  case None
  note inv = pool_okD(1) [OF ok]
  note ne = pool_avail [OF ok n]
  obtain f bp' pg where f: "FetchPage p bp = Some (Some f, bp')" "bp_inv bp'" "view_kept bp bp'"
      "nextPageID (diskManager bp') = nextPageID (diskManager bp)" "resident bp' p f pg" "pinCount pg = 1" "\<not> isDirty pg" "pg_data pg = d"
  proof -
    obtain res bp' where m: "FetchPage p bp = Some (res, bp')" "bp_inv bp'" "view_kept bp bp'"
        "nextPageID (diskManager bp') = nextPageID (diskManager bp)"
        "case res of
           Some f \<Rightarrow> \<exists>pg. resident bp' p f pg \<and> pinCount pg = 1 \<and> \<not> isDirty pg \<and> (bp_view bp p \<noteq> None \<longrightarrow> bp_view bp p = Some (pg_data pg))
         | None \<Rightarrow> bp_view bp p = None \<or> (freeList bp = [] \<and> cr_frames (bp_replacer bp) = [])"
      using FetchPage_miss [OF inv None p(1)] by blast
    then show ?thesis using that ne p(3) by (cases res) auto
  qed
  note o = FetchPage_others [OF inv f(1)]
  have "clean p bp'"
  proof -
    obtain fl bp1 bp2 data where g: "getFrameID bp = Some (Some f, fl, bp1)" "(if fl then Some bp1 else evict f bp1) = Some bp2"
        "fst (ReadPage p (diskManager bp2)) = Some data"
        "install f (page_New p False data) (bp2\<lparr>diskManager := snd (ReadPage p (diskManager bp2))\<rparr>) = Some bp'"
      by (rule FetchPage_miss_run [OF f(1) None])
    have "diskManager bp' = snd (ReadPage p (diskManager bp2))"
      using g(4) by (auto simp: install_def split: if_splits)
    moreover have dk: "disk_inv (diskManager bp2)"
      using claim_frame [OF inv] g(1,2) by (auto simp: bp_inv_def disk_ok_def)
    ultimately have "fst (ReadPage p (diskManager bp')) = Some data"
      using g(3) p(1) ReadPage_same_bytes [OF dk, of "snd (ReadPage p (diskManager bp2))" p] by (simp add: disk_inv_def)
    moreover have "frame_page bp' f = Some (page_New p False data)"
      using install_keeps(1,5) [OF g(4)] by (auto simp: frame_page_def go_nth_def)
    ultimately show ?thesis using f(5) by (auto simp: clean_def bp_view_def resident_def page_New_def)
  qed
  moreover have "pool_ok (insert p H) n bp'"
    by (rule pool_ok_step [OF ok, of p bp' _ f pg]) (use o f pool_okD(2,6) [OF ok] p(2) in \<open>auto simp: pinned1_def\<close>)
  ultimately show ?thesis using f o by (auto simp: held_def kept_but_empty)
next
  case (Some f)
  note inv = pool_okD(1) [OF ok]
  obtain bp' pg where f: "FetchPage p bp = Some (Some f, bp')" "bp_inv bp'" "view_kept bp bp'" "frame_page bp f = Some pg"
      "resident bp' p f (IncPinCount pg)" "bp_view bp p = Some (pg_data pg)" "nextPageID (diskManager bp') = nextPageID (diskManager bp)"
    using FetchPage_hit [OF inv Some] by blast
  have r: "resident bp p f pg" using Some f(4) by (simp add: resident_def)
  note o = FetchPage_others [OF inv f(1)]
  have pin: "unat (pinCount (IncPinCount pg)) = Suc (unat (pinCount pg))"
    using pool_okD(4) [OF ok r] p(2) unat_add_less [of "pinCount pg" 1] by (simp add: IncPinCount_def)
  then have nz: "pinCount (IncPinCount pg) \<noteq> 0" by auto
  have "isDirty pg \<or> clean p bp'" if "pinCount (IncPinCount pg) = 1"
  proof -
    have "pinCount pg = 0" using that pin by (simp add: unat_eq_zero [symmetric])
    then have "f \<in> set (cr_frames (bp_replacer bp))" using pool_okD(3) [OF ok r] by simp
    then have "isDirty pg \<or> fst (ReadPage p (diskManager bp)) = Some (pg_data pg)"
      using inv r by (auto simp: bp_inv_def coherent_def)
    moreover have "diskManager bp' = diskManager bp"
      using f(1) Some by (auto simp: FetchPage_def Let_def bind_Some_iff)
    ultimately show ?thesis using f(5) by (auto simp: clean_def bp_view_def resident_def IncPinCount_def)
  qed
  moreover have "pool_ok (insert p H) n bp'"
  proof (rule pool_ok_step [OF ok, of p bp' _ f "IncPinCount pg"])
    show "avail bp + (if p \<in> pinned1 H bp then 1 else 0) \<le> avail bp' + (if p \<in> insert p H \<and> pinCount (IncPinCount pg) = 1 then 1 else 0)"
    proof (cases "pinCount pg = 0")
      case True
      then show ?thesis using o p(2) by (simp add: pinned1_def IncPinCount_def)
    next
      case False
      then show ?thesis using o p(2) pinned_not_parked [OF inv r] Some by (simp add: pinned1_def)
    qed
  qed (use o f pool_okD(2) [OF ok] nz pin pool_okD(4) [OF ok r] p(2) in auto)
  ultimately show ?thesis
    using f o nz p(3) by (auto simp: held_def kept_but_empty IncPinCount_def)
qed

lemma new_held:
  assumes ok: "pool_ok H n bp" and n: "card H < n" and np: "unat (nextPageID (diskManager bp)) < 524288"
  defines "p \<equiv> nextPageID (diskManager bp)"
  shows "\<exists>f bp' . NewPage bp = Some (Some f, bp') \<and> pool_ok (insert p H) n bp' \<and> held p f (replicate 4096 0) False bp' \<and>
    frame_page bp' f = Some (page_NewEmpty p) \<and> kept_but {p} bp bp' \<and> others_kept p bp bp' \<and> pageTable bp p = None \<and>
    nextPageID (diskManager bp') = p + 1"
proof -
  note inv = pool_okD(1) [OF ok]
  note ne = pool_avail [OF ok n]
  obtain res bp' where m: "NewPage bp = Some (res, bp')" "case res of
       Some f \<Rightarrow> bp_inv bp' \<and> resident bp' p f (page_NewEmpty p) \<and> pageTable bp p = None \<and>
         nextPageID (diskManager bp') = p + 1 \<and>
         (\<forall>q. disk_page q \<longrightarrow> q \<noteq> p \<longrightarrow> bp_view bp q \<noteq> None \<longrightarrow> bp_view bp' q = bp_view bp q)
     | None \<Rightarrow> bp' = bp \<and> freeList bp = [] \<and> cr_frames (bp_replacer bp) = []"
    using NewPage_spec [OF inv np] unfolding p_def by blast
  then obtain f where f: "NewPage bp = Some (Some f, bp')" "bp_inv bp'" "resident bp' p f (page_NewEmpty p)" "pageTable bp p = None"
      "nextPageID (diskManager bp') = p + 1"
      "\<forall>q. disk_page q \<longrightarrow> q \<noteq> p \<longrightarrow> bp_view bp q \<noteq> None \<longrightarrow> bp_view bp' q = bp_view bp q"
    using ne by (cases res) auto
  note o = NewPage_others [OF inv f(1), folded p_def]
  have pg: "pinCount (page_NewEmpty p) = 1" "pg_data (page_NewEmpty p) = replicate 4096 0"
    by (simp_all add: page_NewEmpty_def)
  have "pool_ok (insert p H) n bp'"
    by (rule pool_ok_step [OF ok, of p bp' _ f "page_NewEmpty p"]) (use o f pg pool_okD(2,6) [OF ok] in \<open>auto simp: pinned1_def resident_def\<close>)
  then show ?thesis using f o pg by (auto simp: held_def kept_but_def resident_def)
qed

text \<open>The log and the disk may change under the pool, when the pages stay.\<close>

definition log_only :: "BufferPool \<Rightarrow> LogManager \<Rightarrow> disk \<Rightarrow> bool" where
  "log_only bp lm dk \<longleftrightarrow> log_inv lm dk \<and> dm_db dk = dm_db (diskManager bp) \<and> nextPageID dk = nextPageID (diskManager bp)"

lemma log_only_self: "bp_inv bp \<Longrightarrow> log_only bp (log_manager bp) (diskManager bp)"
  by (simp add: log_only_def bp_inv_def disk_ok_def)

lemma log_only_ok:
  assumes inv: "bp_inv bp" and l: "log_only bp lm dk"
  defines "bp' \<equiv> bp\<lparr>log_manager := lm, diskManager := dk\<rparr>"
  shows "bp_inv bp'" "disk_page q \<Longrightarrow> bp_view bp' q = bp_view bp q" "resident bp' = resident bp" "disk_page q \<Longrightarrow> clean q bp' = clean q bp"
    "avail bp' = avail bp" "bp_replacer bp' = bp_replacer bp"
proof -
  note dk = bp_inv_frames(3) [OF inv] and fi = bp_inv_frames(1) [OF inv]
  have ok: "disk_ok dk lm" using dk l by (auto simp: disk_ok_def log_only_def disk_inv_def)
  show R: "resident bp' = resident bp" by (auto simp: bp'_def resident_def fun_eq_iff)
  have rd: "disk_page q \<Longrightarrow> fst (ReadPage q dk) = fst (ReadPage q (diskManager bp))" for q
    using dk ok l by (intro ReadPage_same_bytes) (auto simp: disk_ok_def log_only_def)
  show V: "disk_page q \<Longrightarrow> bp_view bp' q = bp_view bp q"
    using rd by (auto simp: bp'_def bp_view_def split: option.splits)
  show "disk_page q \<Longrightarrow> clean q bp' = clean q bp"
    using rd V by (simp add: clean_def bp'_def)
  have dp: "resident bp q g x \<Longrightarrow> disk_page q" for q g x
    using frames_inv_table [OF fi, of q g] disk_ok_page [OF dk, of q] by (auto simp: resident_def)
  have "frames_inv bp'" using fi R l by (auto simp: frames_inv_def bp'_def log_only_def)
  moreover have "coherent bp'"
    unfolding coherent_def R using inv rd dp by (auto simp: bp_inv_def coherent_def bp'_def)
  ultimately show "bp_inv bp'" using ok by (simp add: bp_inv_def bp'_def)
qed (simp_all add: avail_def bp'_def)

lemma held_page: "held p f d fr bp \<Longrightarrow> bp_inv bp \<Longrightarrow> disk_page p \<and> length d = 4096 \<and> bp_view bp p = Some d \<and>
    unat p < unat (nextPageID (diskManager bp)) \<and> unat f < length (bp_pages bp)"
  using frames_inv_table [of bp p f] disk_ok_page [OF bp_inv_frames(3), of bp p]
  by (auto simp: held_def resident_def bp_inv_def bp_view_def)

lemma write_held:
  assumes ok: "pool_ok H n bp" and h: "held p f d fr bp" and len: "length d' = 4096" and l: "log_only bp lm dk"
    and pg: "frame_page bp f = Some pg"
  defines "bp' \<equiv> set_frame f (pg\<lparr>pg_data := d'\<rparr>) (bp\<lparr>log_manager := lm, diskManager := dk\<rparr>)"
  shows "pool_ok H n bp' \<and> held p f d' (fr \<and> d' = d) bp' \<and> kept_but {p} bp bp' \<and> nextPageID (diskManager bp') = nextPageID (diskManager bp)"
proof -
  let ?bp = "bp\<lparr>log_manager := lm, diskManager := dk\<rparr>" and ?pg = "pg\<lparr>pg_data := d'\<rparr>"
  note inv = pool_okD(1) [OF ok]
  note L = log_only_ok [OF inv l]
  have r: "resident bp p f pg" "pg_data pg = d" "pinCount pg \<noteq> 0" "fr \<longrightarrow> pinCount pg = 1 \<longrightarrow> isDirty pg \<or> clean p bp"
    using h pg by (auto simp: held_def resident_def)
  have nf: "f \<notin> set (cr_frames (bp_replacer ?bp))"
    using frames_inv_replacer [OF bp_inv_frames(1) [OF inv], of f] r by (auto simp: resident_def)
  have w: "bp_inv bp'" "resident bp' p f ?pg" "bp_view bp' p = Some d'"
      "\<forall>q. q \<noteq> p \<longrightarrow> disk_page q \<longrightarrow> bp_view ?bp q \<noteq> None \<longrightarrow> bp_view bp' q = bp_view ?bp q"
    using client_write [OF L(1) _ nf len, of p pg] r(1) L(3) by (simp_all add: bp'_def)
  have dp: "disk_page p" using held_page [OF h inv] by blast
  have av: "avail bp' = avail bp" "bp_replacer bp' = bp_replacer bp" by (simp_all add: bp'_def avail_def)
  have o: "others_kept p bp bp'"
    using L(3) frames_inv_inj [OF bp_inv_frames(1) [OF inv]] r(1) frame_page_bound [OF pg] av
    by (auto simp: others_kept_def bp'_def resident_def fun_eq_iff split: if_splits)
  have "pool_ok H n bp'"
    by (rule pool_ok_step [OF ok o w(1) _ _ w(2)]) (use av pool_okD(2) [OF ok] pool_okD(4) [OF ok r(1)] r in \<open>auto simp: pinned1_def resident_def\<close>)
  moreover have "kept_but {p} bp bp'" using w(4) L(2) by (simp add: kept_but_def)
  moreover have "fr \<Longrightarrow> d' = d \<Longrightarrow> pinCount pg = 1 \<Longrightarrow> isDirty pg \<or> clean p bp'"
    using r w(3) L(4) [OF dp] L(2) [OF dp] held_page [OF h inv] by (auto simp: clean_def bp'_def)
  ultimately show ?thesis using w(2) r l by (auto simp: held_def bp'_def log_only_def)
qed

lemma unpin_held:
  assumes ok: "pool_ok H n bp" and h: "held p f d fr bp" and d: "dirty \<or> fr" and p: "p \<in> H"
  shows "\<exists>bp'. UnpinPage p dirty bp = Some (True, bp') \<and> pool_ok (H - {p}) n bp' \<and> kept_but {} bp bp' \<and> bp_view bp' p = Some d \<and>
    others_kept p bp bp' \<and> diskManager bp' = diskManager bp"
proof -
  note inv = pool_okD(1) [OF ok]
  obtain pg where r: "resident bp p f pg" "pg_data pg = d" "pinCount pg \<noteq> 0" "fr \<longrightarrow> pinCount pg = 1 \<longrightarrow> isDirty pg \<or> clean p bp"
    using h by (auto simp: held_def)
  have t: "pageTable bp p = Some f" "frame_page bp f = Some pg" using r(1) by (simp_all add: resident_def)
  have dec: "pinCount (DecPinCount pg) = pinCount pg - 1" "pinCount pg - 1 = 0 \<longleftrightarrow> pinCount pg = 1"
    using r(3) by (auto simp: DecPinCount_def word_gt_0)
  obtain bp' pg' where u: "UnpinPage p dirty bp = Some (True, bp')" "bp_inv bp'" "view_kept bp bp'" "resident bp' p f pg'"
      "pg_data pg' = pg_data pg" "pinCount pg' = pinCount (DecPinCount pg)" "pinCount pg' = 0 \<longrightarrow> f \<in> set (cr_frames (bp_replacer bp'))"
      "diskManager bp' = diskManager bp"
  proof -
    have "pinCount (DecPinCount pg) = 0 \<Longrightarrow> dirty \<or> isDirty pg \<or> clean p bp" using r d dec by auto
    then show ?thesis using UnpinPage_spec [OF inv t, of dirty] that by blast
  qed
  note o = UnpinPage_others [OF inv u(1) r(1,3)]
  have un: "unat (pinCount pg') + n < 2147483648"
    using pool_okD(4) [OF ok r(1)] p u(6) dec(1) r(3) unat_eq_zero [of "pinCount pg"] by (simp add: unat_minus_one)
  have "pool_ok (H - {p}) n bp'"
    by (rule pool_ok_step [OF ok _ u(2) _ _ u(4)]) (use o u un pool_okD(2) [OF ok] p r in \<open>auto simp: pinned1_def resident_def\<close>)
  then show ?thesis using u o r by (auto simp: kept_but_empty bp_view_def resident_def)
qed

text \<open>Fetching another page leaves a held page as it is, on disk too.\<close>

lemma claim_disk:
  assumes inv: "bp_inv bp" and g: "getFrameID bp = Some (Some f, fl, bp1)" and e: "(if fl then Some bp1 else evict f bp1) = Some bp2"
    and r: "resident bp p h x" "h \<notin> set (cr_frames (bp_replacer bp))" and rd: "fst (ReadPage p (diskManager bp)) = Some y"
  shows "fst (ReadPage p (diskManager bp2)) = Some y"
proof (cases "freeList bp")
  case (Cons k fs)
  then show ?thesis using g e rd by (auto simp: getFrameID_def)
next
  case Nil
  note fi = bp_inv_frames(1) [OF inv] and dk = bp_inv_frames(3) [OF inv]
  obtain r' where v: "Victim (bp_replacer bp) = Some (Some f, r')" "fl = False" "bp1 = bp\<lparr>bp_replacer := r'\<rparr>"
    using g Nil by (auto simp: getFrameID_def bind_Some_iff)
  have "f \<in> set (cr_frames (bp_replacer bp))"
    using cr.victim_total [OF bp_inv_frames(2) [OF inv]] v(1) by (cases "cr_frames (bp_replacer bp)") auto
  then obtain pg where pg: "frame_page bp f = Some pg" "pageTable bp (pg_id pg) = Some f" "f \<noteq> h"
    using frames_inv_replacer [OF fi] r(2) by blast
  then have np: "p \<noteq> pg_id pg" using r(1) by (auto simp: resident_def)
  have slot: "go_nth (bp_pages bp) (unat f) = Some (Some pg)" using pg(1) by (auto simp: frame_page_def bind_Some_iff)
  have dp: "disk_page p" using frames_inv_table [OF fi, of p h] disk_ok_page [OF dk, of p] r(1) by (auto simp: resident_def)
  show ?thesis
  proof (cases "isDirty pg")
    case False
    then show ?thesis using e v slot rd by (auto simp: evict_def)
  next
    case True
    obtain lm d where L: "Flush (log_manager bp) (diskManager bp) = Some (lm, d)" "disk_ok d lm" "dm_db d = dm_db (diskManager bp)"
        "nextPageID d = nextPageID (diskManager bp)"
      using disk_ok_flush [OF dk] by blast
    have "fst (ReadPage p d) = Some y"
      using rd ReadPage_same_bytes [of "diskManager bp" d p] L dk dp by (simp add: disk_ok_def)
    then have "fst (ReadPage p (snd (WritePage (pg_id pg) (pg_data pg) d))) = Some y"
      using disk_ok_write(3) [OF L(2), of "pg_id pg" "pg_data pg" p] frames_inv_table [OF fi pg(2)] pg(1) L(4) np dp by auto
    then show ?thesis using e v slot True L(1) by (auto simp: evict_def)
  qed
qed

lemma fetch_disk:
  assumes inv: "bp_inv bp" and f: "FetchPage q bp = Some (Some g, bp')" and r: "resident bp p h x" "h \<notin> set (cr_frames (bp_replacer bp))"
    and rd: "fst (ReadPage p (diskManager bp)) = Some y"
  shows "fst (ReadPage p (diskManager bp')) = Some y"
proof (cases "pageTable bp q")
  case None
  obtain fl bp1 bp2 data where c: "getFrameID bp = Some (Some g, fl, bp1)" "(if fl then Some bp1 else evict g bp1) = Some bp2"
      "install g (page_New q False data) (bp2\<lparr>diskManager := snd (ReadPage q (diskManager bp2))\<rparr>) = Some bp'"
    by (rule FetchPage_miss_run [OF f None])
  have rd2: "fst (ReadPage p (diskManager bp2)) = Some y" by (rule claim_disk [OF inv c(1,2) r rd])
  have dp: "disk_page p"
    using frames_inv_table [OF bp_inv_frames(1) [OF inv], of p h] disk_ok_page [OF bp_inv_frames(3) [OF inv], of p] r(1) by (auto simp: resident_def)
  have dk: "disk_inv (diskManager bp2)"
    using claim_frame [OF inv] c(1,2) by (auto simp: bp_inv_def disk_ok_def)
  have "diskManager bp' = snd (ReadPage q (diskManager bp2))" using c(3) by (auto simp: install_def split: if_splits)
  then show ?thesis using rd2 ReadPage_same_bytes [OF dk, of "snd (ReadPage q (diskManager bp2))" p] dp dk by (simp add: disk_inv_def)
next
  case (Some k)
  then have "diskManager bp' = diskManager bp" using f by (auto simp: FetchPage_def Let_def bind_Some_iff)
  then show ?thesis using rd by simp
qed

lemma held_fetch:
  assumes h: "held p f d fr bp" and inv: "bp_inv bp" and g: "FetchPage q bp = Some (Some g, bp')" and "q \<noteq> p"
  shows "held p f d fr bp'"
proof -
  obtain pg where r: "resident bp p f pg" "pg_data pg = d" "pinCount pg \<noteq> 0" "fr \<longrightarrow> pinCount pg = 1 \<longrightarrow> isDirty pg \<or> clean p bp"
    using h by (auto simp: held_def)
  note np = pinned_not_parked [OF inv r(1,3)]
  have r': "resident bp' p f pg" using FetchPage_others [OF inv g] r(1) np assms(4) [symmetric] by (simp add: others_kept_def)
  have "clean p bp \<Longrightarrow> clean p bp'"
    using fetch_disk [OF inv g r(1) np, of d] r r' by (auto simp: clean_def bp_view_def resident_def)
  then show ?thesis using r r' by (auto simp: held_def)
qed

lemma held_other:
  "held q g e fr bp \<Longrightarrow> others_kept p bp bp' \<Longrightarrow> q \<noteq> p \<Longrightarrow> bp_inv bp \<Longrightarrow> held q g e False bp'"
  using pinned_not_parked [of bp q g] unfolding held_def others_kept_def by blast

lemma held_kept:
  assumes h: "held q g e fr bp" and k: "others_kept p bp bp'" "q \<noteq> p" and inv: "bp_inv bp" and d: "diskManager bp' = diskManager bp"
  shows "held q g e fr bp'"
proof -
  obtain pg where r: "resident bp q g pg" "pg_data pg = e" "pinCount pg \<noteq> 0" "fr \<longrightarrow> pinCount pg = 1 \<longrightarrow> isDirty pg \<or> clean q bp"
    using h by (auto simp: held_def)
  have r': "resident bp' q g pg" using pinned_not_parked [OF inv r(1,3)] k r(1) by (auto simp: others_kept_def)
  then have "clean q bp' = clean q bp" using d r(1) by (simp add: clean_def bp_view_def resident_def)
  then show ?thesis using r r' by (auto simp: held_def)
qed

lemma held_set_frame:
  assumes h: "held q g e fr bp" "held p f d fr' bp" and ne: "q \<noteq> p" and inv: "bp_inv bp"
  shows "held q g e fr (set_frame f x bp)"
proof -
  obtain pg where r: "resident bp q g pg" "pg_data pg = e" "pinCount pg \<noteq> 0" "fr \<longrightarrow> pinCount pg = 1 \<longrightarrow> isDirty pg \<or> clean q bp"
    using h(1) by (auto simp: held_def)
  have t: "pageTable bp p = Some f" "pageTable bp q = Some g" using h by (auto simp: held_def resident_def)
  then have fg: "f \<noteq> g" using frames_inv_inj [OF bp_inv_frames(1) [OF inv]] ne by blast
  have lt: "unat f < length (bp_pages bp)" using h(2) by (auto simp: held_def resident_def intro: frame_page_bound)
  have r': "resident (set_frame f x bp) q g pg" using r(1) fg frame_page_set_frame [OF lt, of x g]
    by (simp add: resident_def set_frame_keeps)
  have "clean q (set_frame f x bp) = clean q bp"
    using r(1) r' by (simp add: clean_def bp_view_def resident_def set_frame_keeps)
  then show ?thesis using r r' by (auto simp: held_def)
qed

text \<open>A held page may be fetched and released again: nothing changes.\<close>

lemma refetch:
  assumes ok: "pool_ok H n bp" and h: "held p f d fr bp" and pg: "frame_page bp f = Some pg"
  shows "\<exists>r. FetchPage p bp = Some (Some f, set_frame f (IncPinCount pg) (bp\<lparr>bp_replacer := r\<rparr>)) \<and>
    UnpinPage p False (set_frame f (IncPinCount pg) (bp\<lparr>bp_replacer := r\<rparr>)) = Some (True, bp\<lparr>bp_replacer := r\<rparr>) \<and>
    pool_ok H n (bp\<lparr>bp_replacer := r\<rparr>) \<and> held p f d fr (bp\<lparr>bp_replacer := r\<rparr>) \<and> bp_view (bp\<lparr>bp_replacer := r\<rparr>) = bp_view bp"
proof -
  note inv = pool_okD(1) [OF ok]
  have r: "resident bp p f pg" "pinCount pg \<noteq> 0" using h pg by (auto simp: held_def resident_def)
  note np = pinned_not_parked [OF inv r] and fi = bp_inv_frames(1) [OF inv]
  obtain R where R: "Pin f (bp_replacer bp) = Some R" "cr_inv R" "cr_frames R = filter (\<lambda>g. g \<noteq> f) (cr_frames (bp_replacer bp))"
      "cr_cap R = cr_cap (bp_replacer bp)"
    using cr.pin_ok [OF bp_inv_frames(2) [OF inv], of f] by blast
  have same: "cr_frames R = cr_frames (bp_replacer bp)" unfolding R(3) using np by (intro filter_True) auto
  have lt: "unat f < length (bp_pages bp)" using frame_page_bound [OF pg] .
  let ?bp = "bp\<lparr>bp_replacer := R\<rparr>"
  have F: "FetchPage p bp = Some (Some f, set_frame f (IncPinCount pg) ?bp)"
    using r(1) R(1) by (simp add: FetchPage_def resident_def set_frame_def)
  have ub: "unat (pinCount pg) \<le> 2147483648" using pool_okD(4) [OF ok r(1)] by (auto split: if_splits)
  have inc: "unat (pinCount pg + 1) = Suc (unat (pinCount pg))"
    using ub unat_add_less [of "pinCount pg" 1] by simp
  have gt: "pinCount pg + 1 > 0" "\<not> pinCount pg \<le> 0" "pinCount pg + 1 \<noteq> 0"
    using inc r(2) by (auto simp: word_gt_0)
  have dec: "DecPinCount (IncPinCount pg) = pg" using gt by (simp add: DecPinCount_def IncPinCount_def)
  have "SetIsDirty pg (isDirty pg \<or> False) = pg" by (simp add: SetIsDirty_def)
  moreover have "set_frame f pg (set_frame f (IncPinCount pg) ?bp) = ?bp"
    using pg lt by (simp add: set_frame_def frame_page_def bind_Some_iff go_nth_def list_update_same_conv)
  ultimately have U: "UnpinPage p False (set_frame f (IncPinCount pg) ?bp) = Some (True, ?bp)"
    using r lt dec gt by (simp add: UnpinPage_def resident_def Let_def) (simp add: set_frame_def)
  have res: "resident ?bp = resident bp" by (auto simp: resident_def fun_eq_iff)
  have bi: "bp_inv ?bp"
    using inv same R res by (auto simp: bp_inv_def frames_inv_def coherent_def)
  have v: "bp_view ?bp = bp_view bp" by (auto simp: bp_view_def fun_eq_iff split: option.splits)
  have "pool_ok H n ?bp"
    using ok bi same res by (auto simp: pool_ok_def avail_def pinned1_def)
  moreover have "held p f d fr ?bp" using h res v by (auto simp: held_def clean_def)
  ultimately show ?thesis using F U v by auto
qed

subsection \<open>A new pool\<close>

lemma pool_ok_New:
  assumes "disk_ok d lm" and "n \<le> unat k" and "n < 2147483648"
  shows "pool_ok {} n (NewBufferPoolManager k d lm)"
  using assms bp_inv_New [OF assms(1)] by (auto simp: pool_ok_def avail_def resident_def NewBufferPoolManager_def)

lemma empty_disk_ok: "disk_ok empty_disk NewLogManager"
proof -
  have "log_at_end empty_disk" by (simp add: log_at_end_def empty_disk_def)
  then show ?thesis using log_inv_NewLogManager [of empty_disk] by (simp add: disk_ok_def disk_inv_def empty_disk_def)
qed

end
