(* ===== verification/Page_Access.thy ===== *)
theory Page_Access
  imports Table_Page_Spec Pool_Client
begin

text \<open>
  The state the access layer works on, and running an operation of \<^verbatim>\<open>table_page.go\<close> on a page held in the
  buffer pool.  The pool, the log manager and the disk manager are shared: a page operation that logs changes
  the log manager and the disk of the pool.  No page operation touches the database file.
\<close>

record db =
  db_bpm :: BufferPool
  db_locks :: LockManager
  db_txn :: Transaction

definition db_ctx :: "db \<Rightarrow> ctx" where
  "db_ctx s = \<lparr>x_txn = db_txn s, x_locks = db_locks s, x_log = log_manager (db_bpm s), x_disk = diskManager (db_bpm s)\<rparr>"

definition put_ctx :: "ctx \<Rightarrow> db \<Rightarrow> db" where
  "put_ctx c s = s\<lparr>db_txn := x_txn c, db_locks := x_locks c,
     db_bpm := (db_bpm s)\<lparr>log_manager := x_log c, diskManager := x_disk c\<rparr>\<rparr>"

text \<open>Run \<open>op\<close> on the page in frame \<open>f\<close>.\<close>

definition on_page :: "FrameID \<Rightarrow> (bytes \<Rightarrow> ctx option \<Rightarrow> ('a \<times> bytes \<times> ctx option) option) \<Rightarrow> db \<Rightarrow> ('a \<times> db) option" where
  "on_page f op s = do {
     pg \<leftarrow> frame_page (db_bpm s) f;
     (a, d, x) \<leftarrow> op (pg_data pg) (Some (db_ctx s));
     c \<leftarrow> x;
     let s = put_ctx c s;
     Some (a, s\<lparr>db_bpm := set_frame f (pg\<lparr>pg_data := d\<rparr>) (db_bpm s)\<rparr>) }"

definition page_bytes :: "FrameID \<Rightarrow> db \<Rightarrow> bytes option" where
  "page_bytes f s = map_option pg_data (frame_page (db_bpm s) f)"

subsection \<open>What page operations do to the context\<close>

text \<open>The transaction as an operation leaves it: the records \<open>ws\<close> are added to its write set, no exclusive lock is lost.\<close>

definition txn_adds :: "WriteRecord list \<Rightarrow> Transaction \<Rightarrow> Transaction \<Rightarrow> bool" where
  "txn_adds ws t t' \<longleftrightarrow> write_set t' = write_set t @ ws \<and> txn_id t' = txn_id t \<and> set (exclusive_lock_set t) \<subseteq> set (exclusive_lock_set t')"

lemma txn_adds_refl [simp]: "txn_adds [] t t"
  by (simp add: txn_adds_def)

lemma txn_adds_trans: "txn_adds a t u \<Longrightarrow> txn_adds b u v \<Longrightarrow> txn_adds (a @ b) t v"
  by (auto simp: txn_adds_def)

lemma txn_adds_trans1: "txn_adds [] t u \<Longrightarrow> txn_adds b u v \<Longrightarrow> txn_adds b t v"
  by (auto simp: txn_adds_def)

definition ctx_step :: "bool \<Rightarrow> ctx option \<Rightarrow> ctx option \<Rightarrow> bool" where
  "ctx_step logging x x' \<longleftrightarrow> (\<forall>c. x = Some c \<longrightarrow> (\<exists>c'. x' = Some c' \<and> dm_db (x_disk c') = dm_db (x_disk c) \<and>
     nextPageID (x_disk c') = nextPageID (x_disk c) \<and> txn_adds [] (x_txn c) (x_txn c') \<and>
     (\<not> logging \<longrightarrow> x_log c' = x_log c \<and> x_disk c' = x_disk c)))"

lemma ctx_step_refl [simp]: "ctx_step logging x x"
  by (simp add: ctx_step_def)

lemma ctx_step_trans: "ctx_step logging x y \<Longrightarrow> ctx_step logging y z \<Longrightarrow> ctx_step logging x z"
  by (fastforce simp: ctx_step_def intro: txn_adds_trans1)

lemma Flush_db: "Flush lm d = Some (lm', d') \<Longrightarrow> dm_db d' = dm_db d \<and> nextPageID d' = nextPageID d"
  by (auto simp: Flush_def Let_def bind_Some_iff WriteLog_def split: if_splits prod.splits)

lemma AppendLogRecord_db: "AppendLogRecord lr lm d = Some (lr', lm', d') \<Longrightarrow> dm_db d' = dm_db d \<and> nextPageID d' = nextPageID d"
  using Flush_db by (auto simp: AppendLogRecord_def Let_def bind_Some_iff split: if_splits prod.splits)

lemma log_write_step: "log_write logging mk d x = Some (d', x') \<Longrightarrow> ctx_step logging x x'"
  by (auto simp: log_write_def ctx_step_def txn_adds_def bind_Some_iff split: if_splits prod.splits dest: AppendLogRecord_db)

lemma abort_txn_step: "abort_txn logging x = Some x' \<Longrightarrow> ctx_step logging x x'"
  by (auto simp: abort_txn_def ctx_step_def txn_adds_def bind_Some_iff SetState_def split: if_splits)

lemma lock_step_txn:
  "txn_adds [] txn (fst (snd (LockShared txn r lk)))" "txn_adds [] txn (fst (snd (LockExclusive txn r lk)))"
  by (auto simp: LockShared_def LockExclusive_def txn_adds_def split: option.splits if_splits)

lemma LockUpgrade_txn: "LockUpgrade txn r lk = Some res \<Longrightarrow> txn_adds [] txn (fst (snd res))"
  by (auto simp: LockUpgrade_def txn_adds_def split: option.splits if_splits)

lemma with_lock_step:
  assumes "with_lock res c = (ok, x')" "txn_adds [] (x_txn c) (fst (snd res))"
  shows "ctx_step logging (Some c) x'"
  using assms by (cases res) (auto simp: with_lock_def ctx_step_def txn_adds_def SetState_def)

lemma lock_new_step: "lock_new logging r x = Some (ok, x') \<Longrightarrow> ctx_step logging x x'"
  by (auto simp: lock_new_def bind_Some_iff split: if_splits intro: lock_step_txn elim!: with_lock_step)

lemma lock_for_read_step: "lock_for_read logging r x = Some (ok, x') \<Longrightarrow> ctx_step logging x x'"
  by (auto simp: lock_for_read_def bind_Some_iff split: if_splits intro: lock_step_txn elim!: with_lock_step)

lemma lock_for_write_step:
  assumes "lock_for_write logging r x = Some (ok, x')"
  shows "ctx_step logging x x'"
proof (cases logging)
  case True
  then obtain c where c: "x = Some c" using assms by (cases x) (auto simp: lock_for_write_def)
  show ?thesis
    using assms True c LockUpgrade_txn [of "x_txn c" r "x_locks c"]
    by (cases "LockUpgrade (x_txn c) r (x_locks c)") (auto simp: lock_for_write_def split: if_splits intro: lock_step_txn elim!: with_lock_step)
qed (use assms in \<open>simp add: lock_for_write_def\<close>)

lemmas ctx_steps = log_write_step abort_txn_step lock_new_step lock_for_read_step lock_for_write_step

lemma InsertTuple_step: "InsertTuple logging t d x = Some (res, d', x') \<Longrightarrow> ctx_step logging x x'"
  by (auto simp: InsertTuple_def Let_def bind_Some_iff split: if_splits dest!: ctx_steps elim: ctx_step_trans)

lemma MarkDelete_step: "MarkDelete logging r d x = Some (ok, d', x') \<Longrightarrow> ctx_step logging x x'"
  by (auto simp: MarkDelete_def Let_def bind_Some_iff split: if_splits dest!: ctx_steps elim: ctx_step_trans)

lemma RollbackDelete_step: "RollbackDelete logging r d x = Some (d', x') \<Longrightarrow> ctx_step logging x x'"
  by (auto simp: RollbackDelete_def Let_def bind_Some_iff split: if_splits dest!: ctx_steps elim: ctx_step_trans)

lemma ApplyDelete_step: "ApplyDelete logging r d x = Some (d', x') \<Longrightarrow> ctx_step logging x x'"
  by (auto simp: ApplyDelete_def Let_def bind_Some_iff split: if_splits dest!: ctx_steps elim: ctx_step_trans)

lemma UpdateTuple_step: "UpdateTuple logging new idxs sch old r d x = Some (res, old', d', x') \<Longrightarrow> ctx_step logging x x'"
  by (auto simp: UpdateTuple_def Let_def bind_Some_iff split: if_splits dest!: ctx_steps elim: ctx_step_trans)

lemma Init_step: "Init logging pid prev d x = Some (d', x') \<Longrightarrow> ctx_step logging x x'"
  by (auto simp: Init_def Let_def bind_Some_iff dest!: ctx_steps)

lemma TP_GetTuple_step: "TP_GetTuple logging r d x = Some (res, x') \<Longrightarrow> ctx_step logging x x'"
  by (auto simp: TP_GetTuple_def Let_def bind_Some_iff split: if_splits dest!: ctx_steps elim: ctx_step_trans)

lemmas page_op_steps = InsertTuple_step MarkDelete_step RollbackDelete_step ApplyDelete_step UpdateTuple_step Init_step TP_GetTuple_step

subsection \<open>Running a page operation\<close>

text \<open>The context of the state is fit for a page operation.\<close>

lemma db_ctx_ok: "bp_inv (db_bpm s) \<Longrightarrow> ctx_ok logging (Some (db_ctx s))"
  by (simp add: ctx_ok_def db_ctx_def bp_inv_def disk_ok_def)

lemma ctx_step_log_only:
  assumes inv: "bp_inv (db_bpm s)" and st: "ctx_step logging (Some (db_ctx s)) x'" and ok: "ctx_ok logging x'"
  shows "\<exists>c. x' = Some c \<and> log_only (db_bpm s) (x_log c) (x_disk c)"
proof -
  obtain c where c: "x' = Some c" "dm_db (x_disk c) = dm_db (diskManager (db_bpm s))" "nextPageID (x_disk c) = nextPageID (diskManager (db_bpm s))"
      "\<not> logging \<longrightarrow> x_log c = log_manager (db_bpm s) \<and> x_disk c = diskManager (db_bpm s)"
    using st by (auto simp: ctx_step_def db_ctx_def)
  moreover have "log_inv (x_log c) (x_disk c)"
    using ok c inv by (cases logging) (auto simp: ctx_ok_def bp_inv_def disk_ok_def)
  ultimately show ?thesis by (simp add: log_only_def)
qed

lemma on_page_spec:
  assumes ok: "pool_ok H n (db_bpm s)" and h: "held p f d fr (db_bpm s)"
    and op: "op d (Some (db_ctx s)) = Some (a, d', x')" "length d' = 4096" "ctx_step logging (Some (db_ctx s)) x'" "ctx_ok logging x'"
  shows "\<exists>c s'. x' = Some c \<and> on_page f op s = Some (a, s') \<and> pool_ok H n (db_bpm s') \<and> held p f d' (fr \<and> d' = d) (db_bpm s') \<and>
    kept_but {p} (db_bpm s) (db_bpm s') \<and> nextPageID (diskManager (db_bpm s')) = nextPageID (diskManager (db_bpm s)) \<and>
    db_txn s' = x_txn c \<and> db_locks s' = x_locks c \<and> db_ctx s' = c \<and>
    (\<forall>q g e fr'. q \<noteq> p \<longrightarrow> held q g e fr' (db_bpm s) \<longrightarrow> held q g e fr' (db_bpm s'))"
proof -
  note inv = pool_okD(1) [OF ok]
  obtain c where c: "x' = Some c" "log_only (db_bpm s) (x_log c) (x_disk c)"
    using ctx_step_log_only [OF inv op(3,4)] by blast
  obtain pg where pg: "frame_page (db_bpm s) f = Some pg" "pg_data pg = d" "resident (db_bpm s) p f pg"
    using h by (auto simp: held_def resident_def)
  define bp' where "bp' = set_frame f (pg\<lparr>pg_data := d'\<rparr>) ((db_bpm s)\<lparr>log_manager := x_log c, diskManager := x_disk c\<rparr>)"
  have w: "pool_ok H n bp' \<and> held p f d' (fr \<and> d' = d) bp' \<and> kept_but {p} (db_bpm s) bp' \<and>
      nextPageID (diskManager bp') = nextPageID (diskManager (db_bpm s))"
    using write_held [OF ok h op(2) c(2) pg(1)] by (simp add: bp'_def)
  have run: "on_page f op s = Some (a, (put_ctx c s)\<lparr>db_bpm := bp'\<rparr>)"
    using pg op(1) c(1) by (simp add: on_page_def put_ctx_def bp'_def)
  have "held q g e fr' bp'" if qp: "q \<noteq> p" and hq: "held q g e fr' (db_bpm s)" for q g e fr'
  proof -
    obtain x where x: "resident (db_bpm s) q g x" "pg_data x = e" "pinCount x \<noteq> 0" "fr' \<longrightarrow> pinCount x = 1 \<longrightarrow> isDirty x \<or> clean q (db_bpm s)"
      using hq by (auto simp: held_def)
    have "g \<noteq> f" using qp x(1) pg(3) frames_inv_inj [OF bp_inv_frames(1) [OF inv]] by (auto simp: resident_def)
    then have r: "resident bp' q g x" using x(1) frame_page_bound [OF pg(1)] by (simp add: resident_def bp'_def)
    have dp: "disk_page q" using held_page [OF hq inv] by blast
    have "fst (ReadPage q (diskManager bp')) = fst (ReadPage q (diskManager (db_bpm s)))"
      using log_only_ok(1) [OF inv c(2)] inv dp c(2)
      by (intro ReadPage_same_bytes) (auto simp: bp_inv_def disk_ok_def log_only_def bp'_def)
    then have "clean q bp' = clean q (db_bpm s)"
      using r x(1) by (simp add: clean_def bp_view_def resident_def)
    then show ?thesis using r x by (auto simp: held_def)
  qed
  then show ?thesis
    using run w c(1) by (auto simp: put_ctx_def db_ctx_def bp'_def)
qed

lemma held_bytes: "held p f d fr (db_bpm s) \<Longrightarrow> page_bytes f s = Some d"
  by (auto simp: held_def page_bytes_def resident_def)

subsection \<open>Locks stay in sync\<close>

lemma abort_txn_sync: "abort_txn logging x = Some x' \<Longrightarrow> locks_in_sync x \<Longrightarrow> locks_in_sync x'"
  by (auto simp: abort_txn_def sync_defs bind_Some_iff split: if_splits)

lemma lock_for_read_sync: "lock_for_read logging r x = Some (ok, x') \<Longrightarrow> locks_in_sync x \<Longrightarrow> locks_in_sync x'"
  by (auto simp: lock_for_read_def LockShared_def with_lock_def sync_defs bind_Some_iff split: if_splits option.splits)

lemma lock_for_write_sync1: "lock_for_write logging r x = Some (ok, x') \<Longrightarrow> locks_in_sync x \<Longrightarrow> locks_in_sync x'"
  using lock_for_write_sync(1) by blast

lemma lock_new_sync1: "lock_new logging r x = Some (ok, x') \<Longrightarrow> locks_in_sync x \<Longrightarrow> locks_in_sync x'"
  using lock_new_sync(1) by blast

lemmas syncs = abort_txn_sync lock_for_read_sync lock_for_write_sync1 lock_new_sync1 log_write_sync(1)

lemma InsertTuple_sync: "InsertTuple logging t d x = Some (res, d', x') \<Longrightarrow> locks_in_sync x \<Longrightarrow> locks_in_sync x'"
  by (auto simp: InsertTuple_def Let_def bind_Some_iff split: if_splits dest: syncs)

lemma MarkDelete_sync: "MarkDelete logging r d x = Some (ok, d', x') \<Longrightarrow> locks_in_sync x \<Longrightarrow> locks_in_sync x'"
  by (auto simp: MarkDelete_def Let_def bind_Some_iff split: if_splits dest: syncs)

lemma UpdateTuple_sync: "UpdateTuple logging new idxs sch old r d x = Some (res, old', d', x') \<Longrightarrow> locks_in_sync x \<Longrightarrow> locks_in_sync x'"
  by (auto simp: UpdateTuple_def Let_def bind_Some_iff split: if_splits dest: syncs)

lemma Init_sync: "Init logging pid prev d x = Some (d', x') \<Longrightarrow> locks_in_sync x \<Longrightarrow> locks_in_sync x'"
  by (auto simp: Init_def Let_def bind_Some_iff dest: syncs)

lemma TP_GetTuple_sync: "TP_GetTuple logging r d x = Some (res, x') \<Longrightarrow> locks_in_sync x \<Longrightarrow> locks_in_sync x'"
  by (auto simp: TP_GetTuple_def Let_def bind_Some_iff split: if_splits dest: syncs)

end
