(* ===== verification/Table_Heap.thy ===== *)
theory Table_Heap
  imports Page_Access
begin

text \<open>
  \<^verbatim>\<open>storage/access/table_heap.go\<close> and \<^verbatim>\<open>table_heap_iterator.go\<close>: a table as a list of table pages linked by
  their next-page field, named by its first page.  A loop that may not end is a \<open>partial_function (option)\<close>:
  \<open>None\<close> is a panic or no result.  \<^verbatim>\<open>CastPageAsTablePage(nil)\<close> is \<^verbatim>\<open>nil\<close>, and using it panics.
\<close>

subsection \<open>Model\<close>

definition get_frame :: "(FrameID option \<times> BufferPool) option \<Rightarrow> db \<Rightarrow> (FrameID \<times> db) option" where
  "get_frame res s = do { (f, bp) \<leftarrow> res; f \<leftarrow> f; Some (f, s\<lparr>db_bpm := bp\<rparr>) }"

definition unpin :: "pageID \<Rightarrow> bool \<Rightarrow> db \<Rightarrow> db option" where
  "unpin pid dirty s = do { (_, bp) \<leftarrow> UnpinPage pid dirty (db_bpm s); Some (s\<lparr>db_bpm := bp\<rparr>) }"

definition init_page :: "bool \<Rightarrow> pageID \<Rightarrow> pageID \<Rightarrow> bytes \<Rightarrow> ctx option \<Rightarrow> (unit \<times> bytes \<times> ctx option) option" where
  "init_page logging pid prev d x = do { (d, x) \<leftarrow> Init logging pid prev d x; Some ((), d, x) }"

definition NewTableHeap :: "bool \<Rightarrow> db \<Rightarrow> (pageID \<times> db) option" where
  "NewTableHeap logging s = do {
     (p, s) \<leftarrow> get_frame (NewPage (db_bpm s)) s;
     pg \<leftarrow> frame_page (db_bpm s) p;
     (_, s) \<leftarrow> on_page p (init_page logging (pg_id pg) InvalidPageID) s;
     s \<leftarrow> unpin (pg_id pg) True s;
     Some (pg_id pg, s) }"

text \<open>The case of a page with no successor: a new page is appended to the table.\<close>

definition append_page :: "bool \<Rightarrow> FrameID \<Rightarrow> db \<Rightarrow> (FrameID \<times> db) option" where
  "append_page logging currentPage s = do {
     (p, s) \<leftarrow> get_frame (NewPage (db_bpm s)) s;
     pg \<leftarrow> frame_page (db_bpm s) p;
     (_, s) \<leftarrow> on_page currentPage (\<lambda>d x. Some ((), SetNextPageId (pg_id pg) d, x)) s;
     d \<leftarrow> page_bytes currentPage s;
     (_, s) \<leftarrow> on_page p (init_page logging (pg_id pg) (GetTablePageId d)) s;
     s \<leftarrow> unpin (GetTablePageId d) True s;
     Some (p, s) }"

text \<open>Result: the result of the last \<^verbatim>\<open>TablePage.InsertTuple\<close>, and the page it was on.\<close>

partial_function (option) insert_loop :: "bool \<Rightarrow> tuple \<Rightarrow> FrameID \<Rightarrow> db \<Rightarrow> ((tp_error + rid \<times> tuple) \<times> FrameID \<times> db) option" where
  "insert_loop logging t currentPage s = do {
     (res, s) \<leftarrow> on_page currentPage (InsertTuple logging t) s;
     if res = Inl ErrNotEnoughSpace then do {
       d \<leftarrow> page_bytes currentPage s;
       let nextPageId = GetNextPageId d;
       if PageID_IsValid nextPageId then do {
         s \<leftarrow> unpin (GetTablePageId d) False s;
         (nxt, s) \<leftarrow> get_frame (FetchPage nextPageId (db_bpm s)) s;
         insert_loop logging t nxt s }
       else do {
         (nxt, s) \<leftarrow> append_page logging currentPage s;
         insert_loop logging t nxt s } }
     else Some (res, currentPage, s) }"

definition add_write :: "rid \<Rightarrow> WType \<Rightarrow> tuple \<Rightarrow> pageID \<Rightarrow> db \<Rightarrow> db" where
  "add_write r w t tbl s = s\<lparr>db_txn := AddIntoWriteSet \<lparr>wr_rid = r, wr_wtype = w, wr_tuple = t, wr_table = tbl\<rparr> (db_txn s)\<rparr>"

definition TH_InsertTuple :: "bool \<Rightarrow> pageID \<Rightarrow> tuple \<Rightarrow> db \<Rightarrow> ((tp_error + rid \<times> tuple) \<times> db) option" where
  "TH_InsertTuple logging firstPageId t s = do {
     (f, s) \<leftarrow> get_frame (FetchPage firstPageId (db_bpm s)) s;
     (res, f, s) \<leftarrow> insert_loop logging t f s;
     case res of
       Inl ErrEmptyTuple \<Rightarrow> None
     | Inl e \<Rightarrow> Some (Inl e, s)
     | Inr (r, t) \<Rightarrow> do {
         d \<leftarrow> page_bytes f s;
         s \<leftarrow> unpin (GetTablePageId d) True s;
         Some (Inr (r, t), add_write r W_INSERT tuple_zero firstPageId s) } }"

definition set_state :: "TransactionState \<Rightarrow> db \<Rightarrow> db" where
  "set_state st s = s\<lparr>db_txn := SetState st (db_txn s)\<rparr>"

definition TH_MarkDelete :: "bool \<Rightarrow> pageID \<Rightarrow> rid \<Rightarrow> db \<Rightarrow> (bool \<times> db) option" where
  "TH_MarkDelete logging firstPageId r s = do {
     (f, bp) \<leftarrow> FetchPage (GetPageId r) (db_bpm s);
     let s = s\<lparr>db_bpm := bp\<rparr>;
     case f of None \<Rightarrow> Some (False, set_state ABORTED s)
     | Some f \<Rightarrow> do {
         (is_marked, s) \<leftarrow> on_page f (MarkDelete logging r) s;
         d \<leftarrow> page_bytes f s;
         s \<leftarrow> unpin (GetTablePageId d) True s;
         Some (is_marked, if is_marked then add_write r W_DELETE tuple_zero firstPageId s else s) } }"

definition update_page :: "bool \<Rightarrow> tuple \<Rightarrow> int list option \<Rightarrow> schema option \<Rightarrow> rid \<Rightarrow> bytes \<Rightarrow> ctx option \<Rightarrow>
    (((bool \<times> tp_error option \<times> tuple option) \<times> tuple) \<times> bytes \<times> ctx option) option" where
  "update_page logging t idxs sch r d x = do {
     (res, old_tuple, d, x) \<leftarrow> UpdateTuple logging t idxs sch (tuple_zero\<lparr>t_rid := Some RID_zero\<rparr>) r d x;
     Some ((res, old_tuple), d, x) }"

definition TH_UpdateTuple :: "bool \<Rightarrow> pageID \<Rightarrow> tuple \<Rightarrow> int list option \<Rightarrow> schema option \<Rightarrow> rid \<Rightarrow> db \<Rightarrow> ((bool \<times> rid option) \<times> db) option" where
  "TH_UpdateTuple logging firstPageId t idxs sch r s = do {
     (f, bp) \<leftarrow> FetchPage (GetPageId r) (db_bpm s);
     let s = s\<lparr>db_bpm := bp\<rparr>;
     case f of None \<Rightarrow> Some ((False, None), set_state ABORTED s)
     | Some f \<Rightarrow> do {
         (((is_updated, err, need_follow_tuple), old_tuple), s) \<leftarrow> on_page f (update_page logging t idxs sch r) s;
         d \<leftarrow> page_bytes f s;
         s \<leftarrow> unpin (GetTablePageId d) is_updated s;
         if \<not> is_updated \<and> err = Some ErrNotEnoughSpace then do {
           (is_deleted, s) \<leftarrow> TH_MarkDelete logging firstPageId r s;
           if \<not> is_deleted then Some ((False, None), set_state ABORTED s)
           else do {
             follow \<leftarrow> need_follow_tuple;
             (res, s) \<leftarrow> TH_InsertTuple logging firstPageId follow s;
             case res of
               Inl e \<Rightarrow> Some ((False, None), set_state ABORTED s)
             | Inr (new_rid, _) \<Rightarrow> Some ((True, Some new_rid),
                 if tx_state (db_txn s) \<noteq> ABORTED then add_write r W_UPDATE old_tuple firstPageId s else s) } }
         else Some ((is_updated, None),
           if is_updated \<and> tx_state (db_txn s) \<noteq> ABORTED then add_write r W_UPDATE old_tuple firstPageId s else s) } }"

definition unit_op :: "(bytes \<Rightarrow> ctx option \<Rightarrow> (bytes \<times> ctx option) option) \<Rightarrow> bytes \<Rightarrow> ctx option \<Rightarrow> (unit \<times> bytes \<times> ctx option) option" where
  "unit_op op d x = map_option (Pair ()) (op d x)"

definition TH_ApplyDelete :: "bool \<Rightarrow> rid \<Rightarrow> db \<Rightarrow> db option" where
  "TH_ApplyDelete logging r s = do {
     (f, s) \<leftarrow> get_frame (FetchPage (GetPageId r) (db_bpm s)) s;
     (_, s) \<leftarrow> on_page f (unit_op (ApplyDelete logging r)) s;
     d \<leftarrow> page_bytes f s;
     unpin (GetTablePageId d) True s }"

definition TH_RollbackDelete :: "bool \<Rightarrow> rid \<Rightarrow> db \<Rightarrow> db option" where
  "TH_RollbackDelete logging r s = do {
     (f, s) \<leftarrow> get_frame (FetchPage (GetPageId r) (db_bpm s)) s;
     (_, s) \<leftarrow> on_page f (unit_op (RollbackDelete logging r)) s;
     d \<leftarrow> page_bytes f s;
     unpin (GetTablePageId d) True s }"

text \<open>\<^verbatim>\<open>TableHeap.GetTuple\<close> takes a shared lock even when logging (and so locking in the pages) is off; the page is
  released under its number.\<close>

definition heap_lock :: "rid \<Rightarrow> db \<Rightarrow> bool \<times> db" where
  "heap_lock r s =
     (if IsSharedLocked (db_txn s) r \<or> IsExclusiveLocked (db_txn s) r then (True, s)
      else let (ok, txn, lk) = LockShared (db_txn s) r (db_locks s) in (ok, s\<lparr>db_txn := txn, db_locks := lk\<rparr>))"

definition TH_GetTuple :: "bool \<Rightarrow> rid \<Rightarrow> db \<Rightarrow> (tuple option \<times> db) option" where
  "TH_GetTuple logging r s = do {
     let (locked, s) = heap_lock r s;
     if \<not> locked then Some (None, set_state ABORTED s)
     else do {
       (f, s) \<leftarrow> get_frame (FetchPage (GetPageId r) (db_bpm s)) s;
       pg \<leftarrow> frame_page (db_bpm s) f;
       (ret, s) \<leftarrow> on_page f (\<lambda>d x. do { (res, x) \<leftarrow> TP_GetTuple logging r d x; Some (res, d, x) }) s;
       s \<leftarrow> unpin (pg_id pg) False s;
       Some (ret, s) } }"

partial_function (option) first_rid_loop :: "pageID \<Rightarrow> db \<Rightarrow> (rid option \<times> db) option" where
  "first_rid_loop pageId s =
     (if \<not> PageID_IsValid pageId then Some (None, s)
      else do {
        (f, s) \<leftarrow> get_frame (FetchPage pageId (db_bpm s)) s;
        d \<leftarrow> page_bytes f s;
        r \<leftarrow> GetTupleFirstRID d;
        s \<leftarrow> unpin pageId False s;
        if r \<noteq> None then Some (r, s) else first_rid_loop (GetNextPageId d) s })"

definition GetFirstTuple :: "bool \<Rightarrow> pageID \<Rightarrow> db \<Rightarrow> (tuple option \<times> db) option" where
  "GetFirstTuple logging firstPageId s = do {
     (r, s) \<leftarrow> first_rid_loop firstPageId s;
     case r of None \<Rightarrow> Some (None, s) | Some r \<Rightarrow> TH_GetTuple logging r s }"

subsection \<open>The iterator\<close>

partial_function (option) next_page_loop :: "rid \<Rightarrow> FrameID \<Rightarrow> db \<Rightarrow> (rid option \<times> FrameID \<times> db) option" where
  "next_page_loop cur currentPage s = do {
     d \<leftarrow> page_bytes currentPage s;
     if \<not> PageID_IsValid (GetNextPageId d) then Some (None, currentPage, s)
     else do {
       (nextPage, s) \<leftarrow> get_frame (FetchPage (GetNextPageId d) (db_bpm s)) s;
       s \<leftarrow> unpin (GetTablePageId d) False s;
       d \<leftarrow> page_bytes nextPage s;
       r \<leftarrow> GetNextTupleRID cur True d;
       if r \<noteq> None then Some (r, nextPage, s) else next_page_loop cur nextPage s } }"

definition it_Next :: "bool \<Rightarrow> tuple \<Rightarrow> db \<Rightarrow> (tuple option \<times> db) option" where
  "it_Next logging cur s = do {
     r \<leftarrow> t_rid cur;
     (currentPage, s) \<leftarrow> get_frame (FetchPage (GetPageId r) (db_bpm s)) s;
     d \<leftarrow> page_bytes currentPage s;
     nxt \<leftarrow> GetNextTupleRID r False d;
     (nxt, currentPage, s) \<leftarrow> (if nxt = None then next_page_loop r currentPage s else Some (nxt, currentPage, s));
     (t, s) \<leftarrow> (case nxt of
         Some q \<Rightarrow> if PageID_IsValid (GetPageId q) then TH_GetTuple logging q s else Some (None, s)
       | None \<Rightarrow> Some (None, s));
     d \<leftarrow> page_bytes currentPage s;
     s \<leftarrow> unpin (GetTablePageId d) False s;
     Some (t, s) }"

end
