(* ===== verification/Table_Heap_Laws.thy ===== *)
theory Table_Heap_Laws
  imports Table_Heap
begin

text \<open>
  The table heap as a map from record ids to tuples.  \<open>page_chain\<close> is the linked list of the table's pages as the
  buffer pool shows them, \<open>heap_view\<close> what the table holds, \<open>heap_ok\<close> the invariant every call relies on and restores.
\<close>

subsection \<open>The table in the pool\<close>

abbreviation npid :: "db \<Rightarrow> pageID" where "npid s \<equiv> nextPageID (diskManager (db_bpm s))"

abbreviation db_view :: "db \<Rightarrow> pageID \<Rightarrow> bytes option" where "db_view s \<equiv> bp_view (db_bpm s)"

definition page_at :: "(pageID \<Rightarrow> bytes option) \<Rightarrow> pageID \<Rightarrow> pageID \<Rightarrow> bool" where
  "page_at v p nxt \<longleftrightarrow> disk_page p \<and> (\<exists>d. v p = Some d \<and> tp_inv d \<and> GetTablePageId d = p \<and> GetNextPageId d = nxt)"

definition next_in :: "pageID list \<Rightarrow> nat \<Rightarrow> pageID" where
  "next_in ps i = (if Suc i < length ps then ps ! Suc i else InvalidPageID)"

definition page_chain :: "(pageID \<Rightarrow> bytes option) \<Rightarrow> pageID list \<Rightarrow> bool" where
  "page_chain v ps \<longleftrightarrow> ps \<noteq> [] \<and> distinct ps \<and> (\<forall>i < length ps. page_at v (ps ! i) (next_in ps i))"

definition heap_view :: "(pageID \<Rightarrow> bytes option) \<Rightarrow> pageID list \<Rightarrow> rid \<Rightarrow> (bool \<times> bytes) option" where
  "heap_view v ps r = (if PageId r \<in> set ps then case v (PageId r) of Some d \<Rightarrow> tp_view d (unat (SlotNum r)) | None \<Rightarrow> None else None)"

definition heap_ok :: "nat \<Rightarrow> pageID list \<Rightarrow> db \<Rightarrow> bool" where
  "heap_ok nf ps s \<longleftrightarrow> 2 \<le> nf \<and> page_chain (db_view s) ps \<and> pool_ok {} nf (db_bpm s) \<and> locks_in_sync (Some (db_ctx s))"

lemma chain_page:
  assumes "page_chain v ps" and "p \<in> set ps"
  obtains d where "v p = Some d" "tp_inv d" "GetTablePageId d = p" "disk_page p"
  using assms by (auto simp: page_chain_def page_at_def in_set_conv_nth)

lemma disk_page_valid: "disk_page p \<Longrightarrow> PageID_IsValid p"
  by (auto simp: disk_page_def PageID_IsValid_iff InvalidPageID_def unsigned_minus_1_eq_mask mask_eq_exp_minus_1)

lemma not_valid: "\<not> PageID_IsValid InvalidPageID"
  by (simp add: PageID_IsValid_iff)

lemma rid_eq: "PageId r = PageId q \<Longrightarrow> unat (SlotNum r) = unat (SlotNum q) \<Longrightarrow> r = q" for r q :: rid
  by (cases r; cases q) (simp add: word_unat_eq_iff)

text \<open>Replacing the contents of one page.\<close>

definition put_page :: "pageID \<Rightarrow> bytes \<Rightarrow> (pageID \<Rightarrow> bytes option) \<Rightarrow> (pageID \<Rightarrow> bytes option) \<Rightarrow> bool" where
  "put_page p d v v' \<longleftrightarrow> v' p = Some d \<and> (\<forall>q. q \<noteq> p \<longrightarrow> disk_page q \<longrightarrow> v q \<noteq> None \<longrightarrow> v' q = v q)"

lemma chain_put:
  assumes c: "page_chain v ps" and p: "p \<in> set ps" "v p = Some d" and w: "put_page p d' v v'"
    and d': "tp_inv d'" "GetTablePageId d' = GetTablePageId d" "GetNextPageId d' = GetNextPageId d"
  shows "page_chain v' ps"
  using assms unfolding page_chain_def page_at_def put_page_def by fastforce

lemma heap_view_put:
  assumes c: "page_chain v ps" and p: "PageId r \<in> set ps" "v (PageId r) = Some d" and w: "put_page (PageId r) d' v v'"
    and d': "tp_view d' = (tp_view d)(unat (SlotNum r) := x)"
  shows "heap_view v' ps = (heap_view v ps)(r := x)"
proof
  fix q
  show "heap_view v' ps q = ((heap_view v ps)(r := x)) q"
  proof (cases "PageId q = PageId r")
    case True
    then show ?thesis using p w d' rid_eq [of q r] by (auto simp: heap_view_def put_page_def)
  next
    case False
    then have "PageId q \<in> set ps \<Longrightarrow> v' (PageId q) = v (PageId q)"
      using w chain_page [OF c, of "PageId q"] unfolding put_page_def by (metis option.distinct(1))
    then show ?thesis using False by (auto simp: heap_view_def)
  qed
qed

lemma heap_view_same:
  assumes "page_chain v ps" and "p \<in> set ps" "v p = Some d" and "put_page p d' v v'" and "tp_view d' = tp_view d"
  shows "heap_view v' ps = heap_view v ps"
proof
  fix q
  show "heap_view v' ps q = heap_view v ps q"
  proof (cases "PageId q = p")
    case True
    then show ?thesis using assms by (auto simp: heap_view_def put_page_def)
  next
    case False
    then have "PageId q \<in> set ps \<Longrightarrow> v' (PageId q) = v (PageId q)"
      using assms(4) chain_page [OF assms(1), of "PageId q"] unfolding put_page_def by (metis option.distinct(1))
    then show ?thesis by (auto simp: heap_view_def)
  qed
qed

text \<open>Every page that had contents still has them.\<close>

definition same_view :: "(pageID \<Rightarrow> bytes option) \<Rightarrow> (pageID \<Rightarrow> bytes option) \<Rightarrow> bool" where
  "same_view v v' \<longleftrightarrow> (\<forall>q. disk_page q \<longrightarrow> v q \<noteq> None \<longrightarrow> v' q = v q)"

lemma chain_same:
  assumes "page_chain v ps" and "same_view v v'"
  shows "page_chain v' ps" and "heap_view v' ps = heap_view v ps" and "p \<in> set ps \<Longrightarrow> v' p = v p"
proof -
  have e: "v' p = v p" if "p \<in> set ps" for p
    using chain_page [OF assms(1) that] assms(2) unfolding same_view_def by (metis option.distinct(1))
  show "page_chain v' ps" using assms(1) e by (auto simp: page_chain_def page_at_def)
  show "heap_view v' ps = heap_view v ps" using e by (auto simp: heap_view_def fun_eq_iff)
  show "p \<in> set ps \<Longrightarrow> v' p = v p" by (rule e)
qed

lemma same_view_trans: "same_view u v \<Longrightarrow> same_view v w \<Longrightarrow> same_view u w"
  by (auto simp: same_view_def)

lemma same_view_refl [simp]: "same_view v v"
  by (simp add: same_view_def)

subsection \<open>Accessing one page\<close>

lemma frame_of_fetch: "get_frame (Some (Some f, bp)) s = Some (f, s\<lparr>db_bpm := bp\<rparr>)"
  by (simp add: get_frame_def)

lemma fetch_page:
  assumes ok: "heap_ok nf ps s" and p: "p \<in> set ps" "db_view s p = Some d"
  shows "\<exists>f bp. FetchPage p (db_bpm s) = Some (Some f, bp) \<and> pool_ok {p} nf bp \<and> held p f d True bp \<and> view_kept (db_bpm s) bp \<and>
    ctx_ok logging (Some (db_ctx (s\<lparr>db_bpm := bp\<rparr>))) \<and> locks_in_sync (Some (db_ctx (s\<lparr>db_bpm := bp\<rparr>))) \<and>
    nextPageID (diskManager bp) = npid s"
proof -
  have "disk_page p" using ok p(1) chain_page by (metis heap_ok_def)
  then obtain f bp where f: "FetchPage p (db_bpm s) = Some (Some f, bp)" "pool_ok {p} nf bp" "held p f d True bp" "kept_but {} (db_bpm s) bp"
      "nextPageID (diskManager bp) = npid s"
    using fetch_held [of "{}" nf "db_bpm s" p d] ok p(2) by (auto simp: heap_ok_def)
  have "locks_in_sync (Some (db_ctx (s\<lparr>db_bpm := bp\<rparr>)))" using ok by (simp add: heap_ok_def locks_in_sync_def db_ctx_def)
  then show ?thesis
    using f db_ctx_ok [of "s\<lparr>db_bpm := bp\<rparr>"] pool_okD(1) [OF f(2)] by (auto simp: kept_but_empty)
qed

text \<open>Fetch, run, unpin: the shape of every access to a record.\<close>

lemma access:
  assumes ok: "heap_ok nf ps s" and p: "p \<in> set ps" "db_view s p = Some d"
    and f: "FetchPage p (db_bpm s) = Some (Some f, bp)" "pool_ok {p} nf bp" "held p f d True bp" "view_kept (db_bpm s) bp"
    and op: "op d (Some (db_ctx (s\<lparr>db_bpm := bp\<rparr>))) = Some (a, d', x')" "ctx_step logging (Some (db_ctx (s\<lparr>db_bpm := bp\<rparr>))) x'"
      "ctx_ok logging x'" "locks_in_sync x'"
    and d': "tp_inv d'" "GetTablePageId d' = GetTablePageId d" "GetNextPageId d' = GetNextPageId d" and dirty: "dirty \<or> d' = d"
  shows "\<exists>s1 s2 c. on_page f op (s\<lparr>db_bpm := bp\<rparr>) = Some (a, s1) \<and> page_bytes f s1 = Some d' \<and> GetTablePageId d' = p \<and>
    unpin p dirty s1 = Some s2 \<and> heap_ok nf ps s2 \<and> put_page p d' (db_view s) (db_view s2) \<and> x' = Some c \<and>
    db_txn s2 = x_txn c \<and> db_locks s2 = x_locks c \<and> db_txn s1 = x_txn c \<and> db_locks s1 = x_locks c \<and> npid s2 = nextPageID (diskManager bp)"
proof -
  have ch: "page_chain (db_view s) ps" using ok by (simp add: heap_ok_def)
  have id: "GetTablePageId d' = p" using chain_page [OF ch p(1)] p(2) d'(2) by auto
  obtain c s1 where s1: "x' = Some c" "on_page f op (s\<lparr>db_bpm := bp\<rparr>) = Some (a, s1)" "pool_ok {p} nf (db_bpm s1)"
      "held p f d' (True \<and> d' = d) (db_bpm s1)" "kept_but {p} bp (db_bpm s1)" "db_txn s1 = x_txn c" "db_locks s1 = x_locks c"
      "npid s1 = nextPageID (diskManager bp)"
    using on_page_spec [of "{p}" nf "s\<lparr>db_bpm := bp\<rparr>" p f d True op a d' x' logging] f op tp_invD(1) [OF d'(1)] by auto
  obtain bp2 where u: "UnpinPage p dirty (db_bpm s1) = Some (True, bp2)" "pool_ok {} nf bp2" "kept_but {} (db_bpm s1) bp2" "bp_view bp2 p = Some d'"
      "diskManager bp2 = diskManager (db_bpm s1)"
    using unpin_held [OF s1(3,4), of dirty] dirty by auto
  let ?s2 = "s1\<lparr>db_bpm := bp2\<rparr>"
  have v: "put_page p d' (db_view s) (db_view ?s2)"
    using u(3,4) s1(5) f(4) by (auto simp: put_page_def kept_but_def view_kept_def)
  have "heap_ok nf ps ?s2"
    using chain_put [OF ch p v d'] u(2) op(4) s1(1,6,7) ok by (simp add: heap_ok_def locks_in_sync_def db_ctx_def)
  then show ?thesis
    using s1 u v id held_bytes [OF s1(4)] by (auto simp: unpin_def intro!: exI [of _ s1])
qed

subsection \<open>Marking, applying and rolling back deletions\<close>

abbreviation tbl :: "pageID list \<Rightarrow> db \<Rightarrow> rid \<Rightarrow> (bool \<times> bytes) option" where
  "tbl ps s \<equiv> heap_view (db_view s) ps"

lemma page_of:
  assumes "heap_ok nf ps s" and "PageId r \<in> set ps"
  obtains d where "db_view s (PageId r) = Some d" "tp_inv d" "GetTablePageId d = PageId r" "tbl ps s r = tp_view d (unat (SlotNum r))"
    "page_chain (db_view s) ps"
  using assms chain_page [of "db_view s" ps "PageId r"] by (auto simp: heap_ok_def heap_view_def)

lemma heap_ok_txn [simp]: "heap_ok nf ps (add_write r w t p s) \<longleftrightarrow> heap_ok nf ps s" "heap_ok nf ps (set_state st s) \<longleftrightarrow> heap_ok nf ps s"
  by (simp_all add: heap_ok_def add_write_def set_state_def AddIntoWriteSet_def SetState_def locks_in_sync_def db_ctx_def IsExclusiveLocked_def)

lemma db_view_txn [simp]: "db_bpm (add_write r w t p s) = db_bpm s" "db_bpm (set_state st s) = db_bpm s"
  by (simp_all add: add_write_def set_state_def)

lemma txn_adds_write [simp]:
  "txn_adds [\<lparr>wr_rid = r, wr_wtype = w, wr_tuple = t, wr_table = p\<rparr>] tx (db_txn (add_write r w t p s)) \<longleftrightarrow> txn_adds [] tx (db_txn s)"
  "txn_adds ws tx (db_txn (set_state st s)) \<longleftrightarrow> txn_adds ws tx (db_txn s)"
  by (auto simp: txn_adds_def add_write_def AddIntoWriteSet_def set_state_def SetState_def)

lemma TH_MarkDelete_spec:
  assumes ok: "heap_ok nf ps s" and r: "PageId r \<in> set ps"
  shows "\<exists>m s'. TH_MarkDelete logging first r s = Some (m, s') \<and> heap_ok nf ps s' \<and> npid s' = npid s \<and>
    (if m then \<exists>bs. tbl ps s r = Some (False, bs) \<and> tbl ps s' = (tbl ps s)(r \<mapsto> (True, bs)) \<and>
        txn_adds [\<lparr>wr_rid = r, wr_wtype = W_DELETE, wr_tuple = tuple_zero, wr_table = first\<rparr>] (db_txn s) (db_txn s') \<and>
        assert_exclusive logging r (Some (db_ctx s')) = Some ()
     else tbl ps s' = tbl ps s \<and> txn_adds [] (db_txn s) (db_txn s') \<and> (logging \<or> (\<forall>bs. tbl ps s r \<noteq> Some (False, bs))))"
proof -
  obtain d where d: "db_view s (PageId r) = Some d" "tp_inv d" "GetTablePageId d = PageId r" "tbl ps s r = tp_view d (unat (SlotNum r))"
      "page_chain (db_view s) ps" by (rule page_of [OF ok r])
  obtain f bp where f: "FetchPage (PageId r) (db_bpm s) = Some (Some f, bp)" "pool_ok {PageId r} nf bp" "held (PageId r) f d True bp"
      "view_kept (db_bpm s) bp" "ctx_ok logging (Some (db_ctx (s\<lparr>db_bpm := bp\<rparr>)))" "locks_in_sync (Some (db_ctx (s\<lparr>db_bpm := bp\<rparr>)))"
      "nextPageID (diskManager bp) = npid s"
    using fetch_page [OF ok r d(1)] by blast
  let ?x = "Some (db_ctx (s\<lparr>db_bpm := bp\<rparr>))" and ?s = "unat (SlotNum r)"
  obtain m d' x' where m: "MarkDelete logging r d ?x = Some (m, d', x')" "tp_inv d'" "ctx_ok logging x'"
      "GetNextPageId d' = GetNextPageId d" "GetTablePageId d' = GetTablePageId d"
      "if m then \<exists>bs. tp_view d ?s = Some (False, bs) \<and> tp_view d' = (tp_view d)(?s \<mapsto> (True, bs))
       else d' = d \<and> (logging \<or> (\<forall>bs. tp_view d ?s \<noteq> Some (False, bs)))"
    using MarkDelete_spec [OF d(2) f(5), of r] by blast
  note st = MarkDelete_step [OF m(1)] and sy = MarkDelete_sync [OF m(1) f(6)]
  obtain s1 s2 c where a: "on_page f (MarkDelete logging r) (s\<lparr>db_bpm := bp\<rparr>) = Some (m, s1)" "page_bytes f s1 = Some d'" "GetTablePageId d' = PageId r"
      "unpin (PageId r) True s1 = Some s2" "heap_ok nf ps s2" "put_page (PageId r) d' (db_view s) (db_view s2)" "x' = Some c" "db_txn s2 = x_txn c"
      "npid s2 = nextPageID (diskManager bp)"
    using access [where op = "MarkDelete logging r", OF ok r d(1) f(1-4) m(1) st m(3) sy m(2,5,4), of True] by blast
  have ws: "txn_adds [] (db_txn s) (db_txn s2)"
    using st a(7,8) by (auto simp: ctx_step_def db_ctx_def)
  have run: "TH_MarkDelete logging first r s = Some (m, if m then add_write r W_DELETE tuple_zero first s2 else s2)"
    using f(1) a(1-4) by (simp add: TH_MarkDelete_def GetPageId_def Let_def)
  show ?thesis
  proof (cases m)
    case True
    then obtain bs where bs: "tp_view d ?s = Some (False, bs)" "tp_view d' = (tp_view d)(?s \<mapsto> (True, bs))" using m(6) by auto
    have own: "assert_exclusive logging r x' = Some ()" using MarkDelete_owns(2) [OF f(6)] m(1) True by simp
    have "assert_exclusive logging r (Some (db_ctx (add_write r W_DELETE tuple_zero first s2))) = Some ()"
      using own a(7,8) by (auto simp: assert_exclusive_ok db_ctx_def add_write_def AddIntoWriteSet_def IsExclusiveLocked_def)
    moreover have "tbl ps s2 = (tbl ps s)(r \<mapsto> (True, bs))" by (rule heap_view_put [OF d(5) r d(1) a(6) bs(2)])
    moreover have "tbl ps s r = Some (False, bs)" using bs(1) d(4) by simp
    ultimately show ?thesis
      using True run a(5,9) f(7) ws by auto
  next
    case False
    then have "d' = d" "logging \<or> (\<forall>bs. tp_view d ?s \<noteq> Some (False, bs))" using m(6) by auto
    moreover from this have "tbl ps s2 = tbl ps s" using heap_view_same [OF d(5) r d(1) a(6)] by simp
    ultimately show ?thesis
      using False run a(5,9) f(7) d(4) ws by auto
  qed
qed

text \<open>\<^verbatim>\<open>ApplyDelete\<close> and \<^verbatim>\<open>RollbackDelete\<close> differ in the page operation only.\<close>

lemma finish_delete:
  assumes ok: "heap_ok nf ps s" and r: "PageId r \<in> set ps" and own: "assert_exclusive logging r (Some (db_ctx s)) = Some ()"
    and op: "\<And>d x. tp_inv d \<Longrightarrow> ctx_ok logging x \<Longrightarrow> tp_view d (unat (SlotNum r)) = tbl ps s r \<Longrightarrow> assert_exclusive logging r x = Some () \<Longrightarrow>
       \<exists>d' x'. op d x = Some (d', x') \<and> tp_inv d' \<and> ctx_ok logging x' \<and> tp_view d' = (tp_view d)(unat (SlotNum r) := y) \<and>
         GetNextPageId d' = GetNextPageId d \<and> GetTablePageId d' = GetTablePageId d"
    and st: "\<And>d x d' x'. op d x = Some (d', x') \<Longrightarrow> ctx_step logging x x'" "\<And>d x d' x'. op d x = Some (d', x') \<Longrightarrow> locks_in_sync x \<Longrightarrow> locks_in_sync x'"
  shows "\<exists>s'. do {
     (f, s) \<leftarrow> get_frame (FetchPage (GetPageId r) (db_bpm s)) s;
     (_, s) \<leftarrow> on_page f (unit_op op) s;
     d \<leftarrow> page_bytes f s;
     unpin (GetTablePageId d) True s } = Some s' \<and> heap_ok nf ps s' \<and> tbl ps s' = (tbl ps s)(r := y) \<and> txn_adds [] (db_txn s) (db_txn s')"
proof -
  obtain d where d: "db_view s (PageId r) = Some d" "tp_inv d" "GetTablePageId d = PageId r" "tbl ps s r = tp_view d (unat (SlotNum r))"
      "page_chain (db_view s) ps" by (rule page_of [OF ok r])
  obtain f bp where f: "FetchPage (PageId r) (db_bpm s) = Some (Some f, bp)" "pool_ok {PageId r} nf bp" "held (PageId r) f d True bp"
      "view_kept (db_bpm s) bp" "ctx_ok logging (Some (db_ctx (s\<lparr>db_bpm := bp\<rparr>)))" "locks_in_sync (Some (db_ctx (s\<lparr>db_bpm := bp\<rparr>)))"
    using fetch_page [OF ok r d(1)] by blast
  let ?x = "Some (db_ctx (s\<lparr>db_bpm := bp\<rparr>))"
  have own': "assert_exclusive logging r ?x = Some ()" using own by (auto simp: assert_exclusive_ok db_ctx_def)
  obtain d' x' where m: "op d ?x = Some (d', x')" "tp_inv d'" "ctx_ok logging x'" "tp_view d' = (tp_view d)(unat (SlotNum r) := y)"
      "GetNextPageId d' = GetNextPageId d" "GetTablePageId d' = GetTablePageId d"
    using op [OF d(2) f(5) d(4) [symmetric] own'] by blast
  have m1: "unit_op op d ?x = Some ((), d', x')" using m(1) by (simp add: unit_op_def)
  obtain s1 s2 c where a: "on_page f (unit_op op) (s\<lparr>db_bpm := bp\<rparr>) = Some ((), s1)" "page_bytes f s1 = Some d'" "GetTablePageId d' = PageId r"
      "unpin (PageId r) True s1 = Some s2" "heap_ok nf ps s2" "put_page (PageId r) d' (db_view s) (db_view s2)" "x' = Some c" "db_txn s2 = x_txn c"
    using access [where op = "unit_op op", OF ok r d(1) f(1-4) m1 st(1) [OF m(1)] m(3) st(2) [OF m(1) f(6)] m(2,6,5), of True] by blast
  have "txn_adds [] (db_txn s) (db_txn s2)" using st(1) [OF m(1)] a(7,8) by (auto simp: ctx_step_def db_ctx_def)
  then show ?thesis
    using f(1) a heap_view_put [OF d(5) r d(1) a(6) m(4)] by (simp add: GetPageId_def frame_of_fetch)
qed

lemma TH_RollbackDelete_spec:
  assumes "heap_ok nf ps s" and "PageId r \<in> set ps" and "assert_exclusive logging r (Some (db_ctx s)) = Some ()" and "tbl ps s r = Some (b, bs)"
  shows "\<exists>s'. TH_RollbackDelete logging r s = Some s' \<and> heap_ok nf ps s' \<and> tbl ps s' = (tbl ps s)(r \<mapsto> (False, bs)) \<and>
    txn_adds [] (db_txn s) (db_txn s')"
  unfolding TH_RollbackDelete_def
proof (rule finish_delete [OF assms(1-3)])
  fix d x assume "tp_inv d" "ctx_ok logging x" "tp_view d (unat (SlotNum r)) = tbl ps s r" "assert_exclusive logging r x = Some ()"
  then show "\<exists>d' x'. RollbackDelete logging r d x = Some (d', x') \<and> tp_inv d' \<and> ctx_ok logging x' \<and>
      tp_view d' = (tp_view d)(unat (SlotNum r) \<mapsto> (False, bs)) \<and> GetNextPageId d' = GetNextPageId d \<and> GetTablePageId d' = GetTablePageId d"
    using RollbackDelete_spec [of d logging x r b bs] assms(4) by auto
qed (use RollbackDelete_step RollbackDelete_sync in blast)+

lemma TH_ApplyDelete_spec:
  assumes "heap_ok nf ps s" and "PageId r \<in> set ps" and "assert_exclusive logging r (Some (db_ctx s)) = Some ()" and "tbl ps s r \<noteq> None"
  shows "\<exists>s'. TH_ApplyDelete logging r s = Some s' \<and> heap_ok nf ps s' \<and> tbl ps s' = (tbl ps s)(r := None) \<and>
    txn_adds [] (db_txn s) (db_txn s')"
  unfolding TH_ApplyDelete_def
proof (rule finish_delete [OF assms(1-3)])
  fix d x assume "tp_inv d" "ctx_ok logging x" "tp_view d (unat (SlotNum r)) = tbl ps s r" "assert_exclusive logging r x = Some ()"
  then show "\<exists>d' x'. ApplyDelete logging r d x = Some (d', x') \<and> tp_inv d' \<and> ctx_ok logging x' \<and>
      tp_view d' = (tp_view d)(unat (SlotNum r) := None) \<and> GetNextPageId d' = GetNextPageId d \<and> GetTablePageId d' = GetTablePageId d"
    using ApplyDelete_spec [of d logging x r] assms(4) view_unused [of d "unat (SlotNum r)"] by argo
qed (use ApplyDelete_step ApplyDelete_sync in blast)+

subsection \<open>Reading a record\<close>

lemma LockShared_same:
  assumes "LockShared txn r lk = (ok, txn', lk')"
  shows "exclusive_lock_table lk' = exclusive_lock_table lk" "exclusive_lock_set txn' = exclusive_lock_set txn" "txn_id txn' = txn_id txn"
    "write_set txn' = write_set txn"
  using assms by (auto simp: LockShared_def split: option.splits if_splits)

lemma heap_lock_same:
  assumes "heap_lock r s = (ok, s')"
  shows "db_bpm s' = db_bpm s" "exclusive_lock_table (db_locks s') = exclusive_lock_table (db_locks s)"
    "exclusive_lock_set (db_txn s') = exclusive_lock_set (db_txn s)" "txn_id (db_txn s') = txn_id (db_txn s)" "write_set (db_txn s') = write_set (db_txn s)"
  using assms LockShared_same [of "db_txn s" r "db_locks s"] by (auto simp: heap_lock_def split: if_splits prod.splits)

lemma heap_lock_spec:
  assumes "heap_lock r s = (ok, s')"
  shows "db_bpm s' = db_bpm s" "heap_ok nf ps s \<Longrightarrow> heap_ok nf ps s'" "txn_adds [] (db_txn s) (db_txn s')"
    "\<not> ok \<Longrightarrow> \<exists>t. t \<noteq> txn_id (db_txn s) \<and> holds_exclusive (db_locks s) r t"
    "ok \<Longrightarrow> x_txn c = db_txn s' \<Longrightarrow> x_locks c = db_locks s' \<Longrightarrow> \<exists>x1. lock_for_read logging r (Some c) = Some (True, x1)"
proof -
  note H = heap_lock_same [OF assms]
  show "db_bpm s' = db_bpm s" "txn_adds [] (db_txn s) (db_txn s')" using H by (simp_all add: txn_adds_def)
  show "heap_ok nf ps s \<Longrightarrow> heap_ok nf ps s'" using H by (simp add: heap_ok_def locks_in_sync_def IsExclusiveLocked_def db_ctx_def)
  show "\<not> ok \<Longrightarrow> \<exists>t. t \<noteq> txn_id (db_txn s) \<and> holds_exclusive (db_locks s) r t"
    using assms by (auto simp: heap_lock_def LockShared_def holds_exclusive_def Let_def split: if_splits option.splits)
  show "ok \<Longrightarrow> x_txn c = db_txn s' \<Longrightarrow> x_locks c = db_locks s' \<Longrightarrow> \<exists>x1. lock_for_read logging r (Some c) = Some (True, x1)"
    using assms
    by (auto simp: heap_lock_def LockShared_def IsSharedLocked_def IsExclusiveLocked_def lock_for_read_def with_lock_def Let_def
        split: if_splits option.splits)
qed

lemma TH_GetTuple_spec:
  assumes ok: "heap_ok nf ps s" and r: "PageId r \<in> set ps"
  shows "\<exists>res s'. TH_GetTuple logging r s = Some (res, s') \<and> heap_ok nf ps s' \<and> tbl ps s' = tbl ps s \<and> same_view (db_view s) (db_view s') \<and>
    txn_adds [] (db_txn s) (db_txn s') \<and>
    (case res of
       Some t \<Rightarrow> \<exists>bs. tbl ps s r = Some (False, bs) \<and> t = NewTuple (Some r) (of_nat (length bs)) bs
     | None \<Rightarrow> (\<exists>t. t \<noteq> txn_id (db_txn s) \<and> holds_exclusive (db_locks s) r t) \<or> (\<forall>bs. tbl ps s r \<noteq> Some (False, bs)))"
proof -
  obtain locked s0 where l: "heap_lock r s = (locked, s0)" by (cases "heap_lock r s")
  note L = heap_lock_spec [OF l]
  have ok0: "heap_ok nf ps s0" using L(2) ok by blast
  show ?thesis
  proof (cases locked)
    case False
    then show ?thesis using l L(1,3,4) ok0 by (auto simp: TH_GetTuple_def)
  next
    case True
    obtain d where d: "db_view s0 (PageId r) = Some d" "tp_inv d" "GetTablePageId d = PageId r" "tbl ps s0 r = tp_view d (unat (SlotNum r))"
        "page_chain (db_view s0) ps" by (rule page_of [OF ok0 r])
    obtain f bp where f: "FetchPage (PageId r) (db_bpm s0) = Some (Some f, bp)" "pool_ok {PageId r} nf bp" "held (PageId r) f d True bp"
        "view_kept (db_bpm s0) bp" "ctx_ok logging (Some (db_ctx (s0\<lparr>db_bpm := bp\<rparr>)))" "locks_in_sync (Some (db_ctx (s0\<lparr>db_bpm := bp\<rparr>)))"
      using fetch_page [OF ok0 r d(1)] by blast
    let ?x = "Some (db_ctx (s0\<lparr>db_bpm := bp\<rparr>))" and ?s = "unat (SlotNum r)"
    obtain res x' where g: "TP_GetTuple logging r d ?x = Some (res, x')" "ctx_ok logging x'" "case res of
         Some t \<Rightarrow> \<exists>bs. tp_view d ?s = Some (False, bs) \<and> t = NewTuple (Some r) (of_nat (length bs)) bs
       | None \<Rightarrow> logging \<or> (\<forall>bs. tp_view d ?s \<noteq> Some (False, bs))"
      using TP_GetTuple_spec [OF d(2) f(5), of r] by blast
    have none: "res = None \<Longrightarrow> \<forall>bs. tp_view d ?s \<noteq> Some (False, bs)"
      using L(5) [OF True, of "db_ctx (s0\<lparr>db_bpm := bp\<rparr>)" logging] TP_GetTuple_granted [OF d(2) f(5)] g(1) by (auto simp: db_ctx_def)
    define op where "op = (\<lambda>d x. do { (res, x) \<leftarrow> TP_GetTuple logging r d x; Some (res, d, x) })"
    have o: "op d ?x = Some (res, d, x')" using g(1) by (simp add: op_def)
    obtain s1 s2 c where a: "on_page f op (s0\<lparr>db_bpm := bp\<rparr>) = Some (res, s1)" "unpin (PageId r) False s1 = Some s2" "heap_ok nf ps s2"
        "put_page (PageId r) d (db_view s0) (db_view s2)" "x' = Some c" "db_txn s2 = x_txn c"
      using access [where op = op, OF ok0 r d(1) f(1-4) o TP_GetTuple_step [OF g(1)] g(2) TP_GetTuple_sync [OF g(1) f(6)] d(2) refl refl, of False]
      by blast
    obtain pg where pg: "frame_page bp f = Some pg" "pg_id pg = PageId r"
      using f(3) frames_inv_table [OF bp_inv_frames(1) [OF pool_okD(1) [OF f(2)]]] by (auto simp: held_def resident_def)
    have run: "TH_GetTuple logging r s = Some (res, s2)"
      using l True f(1) pg a(1,2) by (simp add: TH_GetTuple_def GetPageId_def frame_of_fetch op_def)
    have "tbl ps s2 = tbl ps s0" by (rule heap_view_same [OF d(5) r d(1) a(4) refl])
    moreover have "same_view (db_view s0) (db_view s2)" using a(4) d(1) unfolding put_page_def same_view_def by metis
    moreover have "txn_adds [] (db_txn s) (db_txn s2)"
      using TP_GetTuple_step [OF g(1)] a(5,6) txn_adds_trans1 [OF L(3)] by (auto simp: ctx_step_def db_ctx_def)
    ultimately show ?thesis
      using run a(3) g(3) none d(4) L(1) by (cases res) auto
  qed
qed

end
