(* ===== verification/Table_Heap_Insert.thy ===== *)
theory Table_Heap_Insert
  imports Table_Heap_Laws
begin

text \<open>
  \<^verbatim>\<open>TableHeap.InsertTuple\<close> walks the pages of the table with one page pinned at a time, appends a page when
  none has room, and ends: a tuple that fits an empty page is inserted after at most one round per page and one more.
\<close>

subsection \<open>Standing on a page\<close>

definition at_page :: "nat \<Rightarrow> pageID list \<Rightarrow> pageID \<Rightarrow> FrameID \<Rightarrow> bytes \<Rightarrow> bool \<Rightarrow> db \<Rightarrow> bool" where
  "at_page nf ps p f d fr s \<longleftrightarrow> 2 \<le> nf \<and> page_chain (db_view s) ps \<and> p \<in> set ps \<and> pool_ok {p} nf (db_bpm s) \<and> held p f d fr (db_bpm s) \<and>
     locks_in_sync (Some (db_ctx s))"

lemma at_pageD:
  assumes "at_page nf ps p f d fr s"
  shows "page_chain (db_view s) ps" "p \<in> set ps" "pool_ok {p} nf (db_bpm s)" "held p f d fr (db_bpm s)" "locks_in_sync (Some (db_ctx s))"
    "db_view s p = Some d" "tp_inv d" "GetTablePageId d = p" "disk_page p" "page_bytes f s = Some d" "ctx_ok logging (Some (db_ctx s))" "2 \<le> nf"
proof -
  show "2 \<le> nf" using assms by (simp add: at_page_def)
  show a: "page_chain (db_view s) ps" "p \<in> set ps" "pool_ok {p} nf (db_bpm s)" "held p f d fr (db_bpm s)" "locks_in_sync (Some (db_ctx s))"
    using assms by (simp_all add: at_page_def)
  show v: "db_view s p = Some d" using held_page [OF a(4) pool_okD(1) [OF a(3)]] by blast
  show "tp_inv d" "GetTablePageId d = p" "disk_page p" using chain_page [OF a(1,2)] v by auto
  show "page_bytes f s = Some d" by (rule held_bytes [OF a(4)])
  show "ctx_ok logging (Some (db_ctx s))" by (rule db_ctx_ok [OF pool_okD(1) [OF a(3)]])
qed

lemma at_on_page:
  assumes at: "at_page nf ps p f d fr s"
    and op: "op d (Some (db_ctx s)) = Some (a, d', x')" "ctx_step logging (Some (db_ctx s)) x'" "ctx_ok logging x'" "locks_in_sync x'"
    and d': "tp_inv d'" "GetTablePageId d' = GetTablePageId d" "GetNextPageId d' = GetNextPageId d"
  shows "\<exists>s' c. on_page f op s = Some (a, s') \<and> at_page nf ps p f d' (fr \<and> d' = d) s' \<and> put_page p d' (db_view s) (db_view s') \<and>
    x' = Some c \<and> db_ctx s' = c \<and> npid s' = npid s"
proof -
  note A = at_pageD [OF at]
  obtain c s' where s: "x' = Some c" "on_page f op s = Some (a, s')" "pool_ok {p} nf (db_bpm s')" "held p f d' (fr \<and> d' = d) (db_bpm s')"
      "kept_but {p} (db_bpm s) (db_bpm s')" "db_ctx s' = c" "npid s' = npid s"
    using on_page_spec [where op = op, OF A(3,4) op(1) tp_invD(1) [OF d'(1)] op(2,3)] by blast
  have v: "put_page p d' (db_view s) (db_view s')"
    using s(5) held_page [OF s(4) pool_okD(1) [OF s(3)]] by (auto simp: put_page_def kept_but_def)
  show ?thesis
    using s v chain_put [OF A(1,2,6) v d'] A(2,12) op(4) by (auto simp: at_page_def)
qed

text \<open>The pages outside \<open>P\<close> keep their contents.\<close>

abbreviation kept_out :: "pageID set \<Rightarrow> db \<Rightarrow> db \<Rightarrow> bool" where
  "kept_out P s s' \<equiv> kept_but P (db_bpm s) (db_bpm s')"

lemma put_kept: "put_page p d (db_view s) (db_view s') \<Longrightarrow> p \<in> P \<Longrightarrow> kept_out P s s'"
  by (auto simp: put_page_def kept_but_def)

lemma same_kept: "same_view (db_view s) (db_view s') \<Longrightarrow> kept_out P s s'"
  by (auto simp: same_view_def kept_but_def)

lemma kept_out_trans: "kept_out P s s1 \<Longrightarrow> kept_out P s1 s2 \<Longrightarrow> kept_out P s s2"
  using kept_but_trans [of P _ _ P] by auto

lemma at_unpin:
  assumes at: "at_page nf ps p f d fr s" and d: "dirty \<or> fr"
  shows "\<exists>s'. unpin p dirty s = Some s' \<and> heap_ok nf ps s' \<and> same_view (db_view s) (db_view s') \<and> db_ctx s' = db_ctx s"
proof -
  note A = at_pageD [OF at]
  obtain bp where u: "UnpinPage p dirty (db_bpm s) = Some (True, bp)" "pool_ok {} nf bp" "kept_but {} (db_bpm s) bp" "diskManager bp = diskManager (db_bpm s)"
    using unpin_held [OF A(3,4) d] by auto
  have lm: "log_manager bp = log_manager (db_bpm s)"
    using u(1) by (auto simp: UnpinPage_def Let_def bind_Some_iff split: option.splits if_splits)
  have v: "same_view (db_view s) (bp_view bp)" using u(3) by (auto simp: kept_but_def same_view_def)
  have x: "db_ctx (s\<lparr>db_bpm := bp\<rparr>) = db_ctx s" using u(4) lm by (simp add: db_ctx_def)
  have "heap_ok nf ps (s\<lparr>db_bpm := bp\<rparr>)"
    using chain_same(1) [OF A(1) v] u(2) A(5,12) x by (simp add: heap_ok_def)
  then show ?thesis using u(1) v x by (auto simp: unpin_def)
qed

text \<open>Returning without unpinning the page.\<close>

lemma at_leak:
  assumes "at_page nf ps p f d fr s" and "3 \<le> nf"
  shows "heap_ok (nf - 1) ps s"
  using assms pool_leak [of p "{}" "nf - 1" "db_bpm s"] by (simp add: at_page_def heap_ok_def)

lemma at_fetch:
  assumes ok: "heap_ok nf ps s" and p: "p \<in> set ps"
  shows "\<exists>f d s'. get_frame (FetchPage p (db_bpm s)) s = Some (f, s') \<and> at_page nf ps p f d True s' \<and> same_view (db_view s) (db_view s') \<and>
    db_txn s' = db_txn s \<and> db_locks s' = db_locks s \<and> npid s' = npid s"
proof -
  have ch: "page_chain (db_view s) ps" and sy: "locks_in_sync (Some (db_ctx s))" using ok by (simp_all add: heap_ok_def)
  obtain d where d: "db_view s p = Some d" "disk_page p" using chain_page [OF ch p] by metis
  obtain f bp where f: "FetchPage p (db_bpm s) = Some (Some f, bp)" "pool_ok {p} nf bp" "held p f d True bp" "kept_but {} (db_bpm s) bp"
      "nextPageID (diskManager bp) = npid s"
    using fetch_held [of "{}" nf "db_bpm s" p d] ok d by (auto simp: heap_ok_def)
  have v: "same_view (db_view s) (bp_view bp)" using f(4) by (auto simp: kept_but_def same_view_def)
  have "at_page nf ps p f d True (s\<lparr>db_bpm := bp\<rparr>)"
    using chain_same(1) [OF ch v] p f sy ok by (simp add: at_page_def heap_ok_def locks_in_sync_def db_ctx_def)
  then show ?thesis using f(1,5) v by (auto simp: frame_of_fetch)
qed

subsection \<open>Appending a page\<close>

lemma fresh_page_unseen:
  assumes "bp_inv bp" and "pageTable bp (nextPageID (diskManager bp)) = None" and "unat (nextPageID (diskManager bp)) < 524288"
  shows "bp_view bp (nextPageID (diskManager bp)) = None"
proof -
  have "disk_page (nextPageID (diskManager bp))" using assms(3) by (simp add: disk_page_def)
  then show ?thesis
    using assms(2) bp_inv_frames(3) [OF assms(1)] ReadPage_eq [of "nextPageID (diskManager bp)" "diskManager bp"]
    by (auto simp: bp_view_def disk_ok_def)
qed

lemma SetNextPageId_spec:
  assumes "tp_inv d"
  shows "tp_inv (SetNextPageId q d)" "tp_view (SetNextPageId q d) = tp_view d" "GetTablePageId (SetNextPageId q d) = GetTablePageId d"
    "GetNextPageId (SetNextPageId q d) = q" "length (SetNextPageId q d) = 4096"
proof -
  note L = tp_invD(1) [OF assms] and F = tp_invD(2) [OF assms]
  have e: "SetNextPageId q d = copy_at 12 (enc32 q) d" by (simp add: header_defs)
  show len: "length (SetNextPageId q d) = 4096" using L by (simp add: e)
  show "GetTablePageId (SetNextPageId q d) = GetTablePageId d" "GetNextPageId (SetNextPageId q d) = q"
    using copy_keeps(4) [OF L, of 12 "enc32 q"] copy_sets(3) [OF L, of q] by (simp_all add: e)
  have "so (SetNextPageId q d) i = so d i \<and> sz (SetNextPageId q d) i = sz d i" if "i < cnt d" for i
    using slot_in_page [OF assms that] copy_keeps(5,6) [OF L, of 12 "enc32 q" i] by (simp add: e)
  moreover have "seg k m (SetNextPageId q d) = seg k m d" if "fsp d \<le> k" for k m
    using that F L seg_copy_at_other [of 12 "enc32 q" d k m] by (simp add: e)
  ultimately show "tp_inv (SetNextPageId q d)" "tp_view (SetNextPageId q d) = tp_view d"
    using tp_inv_transfer [OF assms len] copy_keeps(1,2) [OF L, of 12 "enc32 q"] by (simp_all add: e)
qed

lemma page_chain_snoc:
  assumes c: "page_chain v ps" and p: "p = last ps" "v p = Some d" and q: "disk_page q" "q \<notin> set ps" "v' q = Some e" "tp_inv e"
      "GetTablePageId e = q" "GetNextPageId e = InvalidPageID"
    and d': "v' p = Some d'" "tp_inv d'" "GetTablePageId d' = GetTablePageId d" "GetNextPageId d' = q"
    and o: "\<forall>r. r \<noteq> p \<longrightarrow> r \<noteq> q \<longrightarrow> disk_page r \<longrightarrow> v r \<noteq> None \<longrightarrow> v' r = v r"
  shows "page_chain v' (ps @ [q])"
proof -
  have ne: "ps \<noteq> []" and dist: "distinct ps" and pg: "\<And>i. i < length ps \<Longrightarrow> page_at v (ps ! i) (next_in ps i)"
    using c by (auto simp: page_chain_def)
  have "page_at v' ((ps @ [q]) ! i) (next_in (ps @ [q]) i)" if lt: "i < length (ps @ [q])" for i
  proof -
    consider (new) "i = length ps" | (last) "Suc i = length ps" | (old) "Suc i < length ps" using lt by fastforce
    then show ?thesis
    proof cases
      case new
      then show ?thesis using q by (simp add: page_at_def next_in_def)
    next
      case last
      then have "ps ! i = p" using p(1) ne by (simp add: last_conv_nth last [symmetric])
      then show ?thesis using last pg [of i] p d' by (auto simp: page_at_def next_in_def nth_append)
    next
      case old
      then have "ps ! i \<noteq> p" using dist p(1) ne by (simp add: last_conv_nth nth_eq_iff_index_eq)
      moreover have "ps ! i \<noteq> q" using q(2) old by (metis Suc_lessD nth_mem)
      ultimately show ?thesis using old pg [of i] o by (fastforce simp: page_at_def next_in_def nth_append)
    qed
  qed
  then show ?thesis using dist q(2) by (simp add: page_chain_def)
qed

lemma append_page_spec:
  assumes at: "at_page nf ps p f d fr s" and p: "p = last ps" and np: "unat (npid s) < 524288"
  defines "q \<equiv> npid s"
  shows "\<exists>g e s'. append_page logging f s = Some (g, s') \<and> at_page nf (ps @ [q]) q g e False s' \<and> tbl (ps @ [q]) s' = tbl ps s \<and>
    cnt e = 0 \<and> fsp e = 4096 \<and> txn_adds [] (db_txn s) (db_txn s') \<and> npid s' = npid s + 1 \<and> kept_out (set (ps @ [q])) s s'"
proof -
  note A = at_pageD [OF at]
  obtain g bp1 where n: "NewPage (db_bpm s) = Some (Some g, bp1)" "pool_ok {q, p} nf bp1" "held q g (replicate 4096 0) False bp1"
      "frame_page bp1 g = Some (page_NewEmpty q)" "kept_but {q} (db_bpm s) bp1" "others_kept q (db_bpm s) bp1" "pageTable (db_bpm s) q = None"
      "nextPageID (diskManager bp1) = npid s + 1"
    using new_held [OF A(3) _ np] A(12) unfolding q_def by auto
  have unseen: "db_view s q = None" using fresh_page_unseen [OF pool_okD(1) [OF A(3)]] n(7) np by (simp add: q_def)
  then have qp: "q \<noteq> p" "q \<notin> set ps" using A(6) chain_page [OF A(1), of q] by (metis option.distinct(1))+
  have dq: "disk_page q" using np by (simp add: disk_page_def q_def)
  let ?s1 = "s\<lparr>db_bpm := bp1\<rparr>" and ?d1 = "SetNextPageId q d"
  have h1: "held p f d False (db_bpm ?s1)" using held_other [OF A(4) n(6)] qp(1) pool_okD(1) [OF A(3)] by auto
  note S = SetNextPageId_spec [OF A(7), of q]
  have ok1: "ctx_ok logging (Some (db_ctx ?s1))" using db_ctx_ok pool_okD(1) [OF n(2)] by simp
  obtain s2 where s2: "on_page f (\<lambda>d x. Some ((), SetNextPageId q d, x)) ?s1 = Some ((), s2)" "pool_ok {q, p} nf (db_bpm s2)"
      "held p f ?d1 False (db_bpm s2)" "kept_but {p} bp1 (db_bpm s2)" "db_ctx s2 = db_ctx ?s1" "held q g (replicate 4096 0) False (db_bpm s2)"
  proof -
    have "pool_ok {q, p} nf (db_bpm ?s1)" "held q g (replicate 4096 0) False (db_bpm ?s1)" using n(2,3) by simp_all
    then show ?thesis
      using on_page_spec [where op = "\<lambda>d x. Some ((), SetNextPageId q d, x)", OF _ h1 refl S(5) ctx_step_refl ok1, of "{q, p}" nf] qp(1) that
      by auto
  qed
  obtain e x' where i: "Init logging q p (replicate 4096 0) (Some (db_ctx s2)) = Some (e, x')" "tp_inv e" "ctx_ok logging x'" "tp_view e = Map.empty"
      "cnt e = 0" "fsp e = 4096" "GetNextPageId e = InvalidPageID" "GetTablePageId e = q"
    using Init_spec [of "replicate 4096 0" logging "Some (db_ctx s2)" q p] db_ctx_ok [OF pool_okD(1) [OF s2(2)]] by auto
  have i1: "init_page logging q p (replicate 4096 0) (Some (db_ctx s2)) = Some ((), e, x')" using i(1) by (simp add: init_page_def)
  note st = Init_step [OF i(1)]
  obtain c s3 where s3: "x' = Some c" "on_page g (init_page logging q p) s2 = Some ((), s3)" "pool_ok {q, p} nf (db_bpm s3)" "held q g e False (db_bpm s3)"
      "kept_but {q} (db_bpm s2) (db_bpm s3)" "db_ctx s3 = c" "held p f ?d1 False (db_bpm s3)"
      "npid s3 = npid s2"
    using on_page_spec [where op = "init_page logging q p", OF s2(2,6) i1 tp_invD(1) [OF i(2)] st i(3)] s2(3) qp(1) by auto
  obtain bp4 where u: "UnpinPage p True (db_bpm s3) = Some (True, bp4)" "pool_ok ({q, p} - {p}) nf bp4" "kept_but {} (db_bpm s3) bp4"
      "bp_view bp4 p = Some ?d1" "others_kept p (db_bpm s3) bp4" "diskManager bp4 = diskManager (db_bpm s3)"
    using unpin_held [OF s3(3,7), of True] by auto
  let ?s4 = "s3\<lparr>db_bpm := bp4\<rparr>"
  have h4: "held q g e False bp4" using held_other [OF s3(4) u(5) qp(1) pool_okD(1) [OF s3(3)]] .
  have run: "append_page logging f s = Some (g, ?s4)"
    using n(1,4) s2(1) s3(2) u(1) held_bytes [OF s2(3)] S(3) A(8)
    by (simp add: append_page_def frame_of_fetch page_NewEmpty_def unpin_def)
  have vq: "bp_view bp4 q = Some e" using held_page [OF h4 pool_okD(1) [OF u(2)]] by blast
  have k: "\<forall>r. r \<noteq> p \<longrightarrow> r \<noteq> q \<longrightarrow> disk_page r \<longrightarrow> db_view s r \<noteq> None \<longrightarrow> bp_view bp4 r = db_view s r"
    using n(5) s2(4) s3(5) u(3) by (auto simp: kept_but_def)
  have ch: "page_chain (bp_view bp4) (ps @ [q])"
    by (rule page_chain_snoc [OF A(1) p A(6) dq qp(2) vq i(2,8,7) u(4) S(1,3,4) k])
  have sy: "locks_in_sync (Some (db_ctx s3))"
    using Init_sync [OF i(1)] s2(5) A(5) s3(1,6) by (auto simp: locks_in_sync_def db_ctx_def)
  have "{q, p} - {p} = {q}" using qp(1) by auto
  then have "at_page nf (ps @ [q]) q g e False ?s4"
    using ch u(2) h4 sy A(12) by (auto simp: at_page_def locks_in_sync_def db_ctx_def)
  moreover have "tbl (ps @ [q]) ?s4 = tbl ps s"
  proof
    fix r :: rid
    have "PageId r \<in> set ps \<Longrightarrow> PageId r \<noteq> p \<Longrightarrow> bp_view bp4 (PageId r) = db_view s (PageId r)"
      using k qp(2) chain_page [OF A(1), of "PageId r"] by (metis option.distinct(1))
    then show "tbl (ps @ [q]) ?s4 r = tbl ps s r"
      using vq i(4) u(4) S(2) A(2,6) qp by (cases "PageId r = p") (auto simp: heap_view_def)
  qed
  moreover have "txn_adds [] (db_txn s) (db_txn s3)"
    using st s2(5) s3(1,6) by (auto simp: ctx_step_def db_ctx_def)
  moreover have "npid ?s4 = npid s + 1" using u(6) s3(8) s2(5) n(8) by (simp add: db_ctx_def)
  moreover have "kept_out (set (ps @ [q])) s ?s4" using k A(2) by (auto simp: kept_but_def)
  ultimately show ?thesis using run i(5,6) by auto
qed

subsection \<open>The loop\<close>

text \<open>The outcome of the loop: the record is in the table and its page is still held, or the lock was refused.\<close>

definition inserted :: "nat \<Rightarrow> bool \<Rightarrow> tuple \<Rightarrow> pageID list \<Rightarrow> db \<Rightarrow> (tp_error + rid \<times> tuple) \<Rightarrow> FrameID \<Rightarrow> pageID list \<Rightarrow> db \<Rightarrow> bool" where
  "inserted nf logging t ps s res f ps' s' \<longleftrightarrow> (\<exists>p d fr. at_page nf ps' p f d fr s' \<and> txn_adds [] (db_txn s) (db_txn s') \<and> kept_out (set ps') s s' \<and>
     (case res of
        Inr (r, t') \<Rightarrow> PageId r = p \<and> t' = t\<lparr>t_rid := Some r\<rparr> \<and> tbl ps s r = None \<and> tbl ps' s' = (tbl ps s)(r \<mapsto> (False, t_data t)) \<and>
          assert_exclusive logging r (Some (db_ctx s')) = Some ()
      | Inl e \<Rightarrow> e = ErrLock \<and> logging \<and> tbl ps' s' = tbl ps s))"

lemma inserted_cong:
  assumes "inserted nf logging t qs s0 res f ps' s'" and "tbl qs s0 = tbl ps s" and "txn_adds [] (db_txn s) (db_txn s0)"
    and k: "kept_out (set ps') s s0"
  shows "inserted nf logging t ps s res f ps' s'"
  using assms(1) txn_adds_trans1 [OF assms(3)] kept_out_trans [OF k] unfolding inserted_def assms(2) by blast

lemma insert_here:
  assumes at: "at_page nf ps p f d fr s" and t: "wf_tuple t" "t_size t \<noteq> 0" "unat (t_size t) \<le> 4064"
  shows "(\<exists>res s'. insert_loop logging t f s = Some (res, f, s') \<and> inserted nf logging t ps s res f ps s' \<and> npid s' = npid s) \<or>
    (\<exists>s'. on_page f (InsertTuple logging t) s = Some (Inl ErrNotEnoughSpace, s') \<and> at_page nf ps p f d fr s' \<and>
       fsp d < 24 + 8 * cnt d + 8 + unat (t_size t) \<and> tbl ps s' = tbl ps s \<and> txn_adds [] (db_txn s) (db_txn s') \<and>
       npid s' = npid s \<and> kept_out (set ps) s s')"
proof -
  note A = at_pageD [OF at]
  let ?x = "Some (db_ctx s)"
  have t3: "unat (t_size t) < 4294967288" using t(3) by simp
  note pre = A(7) t(1) t3 A(11) [of logging]
  show ?thesis
  proof (rule InsertTuple_runs [OF pre])
    fix e x' assume i: "InsertTuple logging t d ?x = Some (Inl e, d, x')"
    note I = InsertTuple_Inl [OF pre i] and st = InsertTuple_step [OF i]
    obtain s' c where s': "on_page f (InsertTuple logging t) s = Some (Inl e, s')" "at_page nf ps p f d fr s'" "put_page p d (db_view s) (db_view s')"
        "x' = Some c" "db_ctx s' = c" "npid s' = npid s"
      using at_on_page [where op = "InsertTuple logging t", OF at i st I(2) InsertTuple_sync [OF i A(5)] A(7) refl refl] by auto
    have v: "tbl ps s' = tbl ps s" by (rule heap_view_same [OF A(1,2,6) s'(3) refl])
    have w: "txn_adds [] (db_txn s) (db_txn s')" using st s'(4,5) by (auto simp: ctx_step_def db_ctx_def)
    have k: "kept_out (set ps) s s'" using put_kept s'(3) A(2) by blast
    show ?thesis
    proof (cases "e = ErrNotEnoughSpace")
      case True
      then show ?thesis using s' v w I(4) k by auto
    next
      case False
      then have e: "e = ErrLock" "logging" using I(3,5,6) t(2) by (cases e; simp)+
      then have "insert_loop logging t f s = Some (Inl ErrLock, f, s')"
        using s'(1) by (subst insert_loop.simps) simp
      then show ?thesis using s'(2,6) v w e k by (auto simp: inserted_def)
    qed
  next
    fix r t' d' x' assume i: "InsertTuple logging t d ?x = Some (Inr (r, t'), d', x')"
    note I = InsertTuple_Inr [OF pre i] and st = InsertTuple_step [OF i]
    obtain s' c where s': "on_page f (InsertTuple logging t) s = Some (Inr (r, t'), s')" "at_page nf ps p f d' (fr \<and> d' = d) s'"
        "put_page p d' (db_view s) (db_view s')" "x' = Some c" "db_ctx s' = c" "npid s' = npid s"
      using at_on_page [where op = "InsertTuple logging t", OF at i st I(2) InsertTuple_sync [OF i A(5)] I(1,9,8)] by auto
    have r: "PageId r = p" using I(3) A(8) by simp
    have "tbl ps s' = (tbl ps s)(r \<mapsto> (False, t_data t))"
      using heap_view_put [of "db_view s" ps r d d' "db_view s'"] A(1,2,6) s'(3) I(7) r by simp
    moreover have "tbl ps s r = None" using I(6) A(2,6) r by (simp add: heap_view_def)
    moreover have "txn_adds [] (db_txn s) (db_txn s')" using st s'(4,5) by (auto simp: ctx_step_def db_ctx_def)
    moreover have "insert_loop logging t f s = Some (Inr (r, t'), f, s')"
      using s'(1) by (subst insert_loop.simps) simp
    moreover have "kept_out (set ps) s s'" using put_kept s'(3) A(2) by blast
    ultimately show ?thesis
      using s' r I(4) InsertTuple_owns(2) [OF A(5) i] by (auto simp: inserted_def)
  qed
qed

lemma insert_loop_spec:
  assumes "at_page nf ps (ps ! i) f d True s" and "i < length ps" and "unat (npid s) < 524288"
    and t: "wf_tuple t" "t_size t \<noteq> 0" "unat (t_size t) \<le> 4064"
  shows "\<exists>res f' ps' s'. insert_loop logging t f s = Some (res, f', s') \<and> inserted nf logging t ps s res f' ps' s' \<and>
    (ps' = ps \<or> ps' = ps @ [npid s]) \<and> npid s' = (if ps' = ps then npid s else npid s + 1)"
  using assms(1-3)
proof (induction "length ps - i" arbitrary: i f d s)
  case 0
  then show ?case by simp
next
  case (Suc k)
  consider (here) res s' where "insert_loop logging t f s = Some (res, f, s')" "inserted nf logging t ps s res f ps s'" "npid s' = npid s"
    | (full) s1 where "on_page f (InsertTuple logging t) s = Some (Inl ErrNotEnoughSpace, s1)" "at_page nf ps (ps ! i) f d True s1"
       "tbl ps s1 = tbl ps s" "txn_adds [] (db_txn s) (db_txn s1)" "npid s1 = npid s" "kept_out (set ps) s s1"
    using insert_here [OF Suc.prems(1) t] by blast
  then show ?case
  proof cases
    case here
    then show ?thesis by (intro exI [of _ res] exI [of _ f] exI [of _ ps] exI [of _ s']) simp
  next
    case full
    note A = at_pageD [OF full(2)]
    have nxt: "GetNextPageId d = next_in ps i"
      using A(1,6) Suc.prems(2) by (auto simp: page_chain_def page_at_def)
    show ?thesis
    proof (cases "Suc i < length ps")
      case True
      then have q: "GetNextPageId d = ps ! Suc i" "ps ! Suc i \<in> set ps" using nxt by (simp_all add: next_in_def)
      have valid: "PageID_IsValid (ps ! Suc i)" using chain_page [OF A(1) q(2)] disk_page_valid by blast
      obtain s2 where s2: "unpin (ps ! i) False s1 = Some s2" "heap_ok nf ps s2" "same_view (db_view s1) (db_view s2)" "db_ctx s2 = db_ctx s1"
        using at_unpin [OF full(2), of False] by auto
      obtain g e s3 where s3: "get_frame (FetchPage (ps ! Suc i) (db_bpm s2)) s2 = Some (g, s3)" "at_page nf ps (ps ! Suc i) g e True s3"
          "same_view (db_view s2) (db_view s3)" "db_txn s3 = db_txn s2" "npid s3 = npid s2"
        using at_fetch [OF s2(2) q(2)] by blast
      have np: "npid s3 = npid s"
        using s3(5) s2(4) full(5) by (simp add: db_ctx_def)
      have tb: "tbl ps s3 = tbl ps s" using chain_same(2) [OF A(1) same_view_trans [OF s2(3) s3(3)]] full(3) by simp
      have ws: "txn_adds [] (db_txn s) (db_txn s3)" using s3(4) s2(4) full(4) by (simp add: db_ctx_def)
      have ks: "kept_out (set ps) s s3" using kept_out_trans [OF full(6) same_kept [OF same_view_trans [OF s2(3) s3(3)]]] .
      have "insert_loop logging t f s = insert_loop logging t g s3"
        using full(1) A(8,10) q(1) valid s2(1) s3(1) by (subst insert_loop.simps) simp
      moreover obtain res f' ps' s' where "insert_loop logging t g s3 = Some (res, f', s')" "inserted nf logging t ps s3 res f' ps' s'"
          "ps' = ps \<or> ps' = ps @ [npid s]" "npid s' = (if ps' = ps then npid s else npid s + 1)"
      proof -
        have "k = length ps - Suc i" using Suc.hyps(2) by simp
        then show ?thesis using Suc.hyps(1) [OF _ s3(2) True] Suc.prems(3) np that by auto
      qed
      moreover have "kept_out (set ps') s s3" by (rule kept_but_mono [OF ks]) (use calculation(4) in auto)
      ultimately show ?thesis using inserted_cong [OF _ tb ws] by metis
    next
      case False
      then have inv: "GetNextPageId d = InvalidPageID" using nxt by (simp add: next_in_def)
      have l: "ps ! i = last ps" using False Suc.prems(2) by (metis last_conv_nth Suc_lessI diff_Suc_1 list.size(3) not_less0)
      let ?q = "npid s"
      obtain g e s2 where s2: "append_page logging f s1 = Some (g, s2)" "at_page nf (ps @ [?q]) ?q g e False s2" "tbl (ps @ [?q]) s2 = tbl ps s1"
          "cnt e = 0" "fsp e = 4096" "txn_adds [] (db_txn s1) (db_txn s2)" "npid s2 = npid s + 1" "kept_out (set (ps @ [?q])) s1 s2"
        using append_page_spec [OF full(2) l] full(5) Suc.prems(3) by metis
      have "insert_loop logging t f s = insert_loop logging t g s2"
        using full(1) A(10) inv not_valid s2(1) by (subst insert_loop.simps) simp
      moreover obtain res s' where "insert_loop logging t g s2 = Some (res, g, s')" "inserted nf logging t (ps @ [?q]) s2 res g (ps @ [?q]) s'" "npid s' = npid s2"
        using insert_here [OF s2(2) t, of logging] s2(4,5) t(3) by auto
      moreover have "kept_out (set (ps @ [?q])) s s2" using kept_out_trans [OF kept_but_mono [OF full(6)] s2(8)] by auto
      ultimately show ?thesis
        using inserted_cong [of nf logging t "ps @ [?q]" s2 res g "ps @ [?q]" s' s ps] s2(3) full(3) s2(7) txn_adds_trans1 [OF full(4) s2(6)] by auto
    qed
  qed
qed

lemma TH_InsertTuple_frame:
  assumes ok: "heap_ok nf ps s" and np: "unat (npid s) < 524288"
    and t: "wf_tuple t" "t_size t \<noteq> 0" "unat (t_size t) \<le> 4064"
  shows "\<exists>res s' ps'. TH_InsertTuple logging (hd ps) t s = Some (res, s') \<and> (ps' = ps \<or> ps' = ps @ [npid s]) \<and>
    npid s' = (if ps' = ps then npid s else npid s + 1) \<and> kept_out (set ps') s s' \<and>
    (case res of
       Inr (r, t') \<Rightarrow> heap_ok nf ps' s' \<and> PageId r \<in> set ps' \<and> t' = t\<lparr>t_rid := Some r\<rparr> \<and> tbl ps s r = None \<and>
         tbl ps' s' = (tbl ps s)(r \<mapsto> (False, t_data t)) \<and> assert_exclusive logging r (Some (db_ctx s')) = Some () \<and>
         txn_adds [\<lparr>wr_rid = r, wr_wtype = W_INSERT, wr_tuple = tuple_zero, wr_table = hd ps\<rparr>] (db_txn s) (db_txn s')
     | Inl e \<Rightarrow> e = ErrLock \<and> logging \<and> tbl ps' s' = tbl ps s \<and> txn_adds [] (db_txn s) (db_txn s') \<and> (3 \<le> nf \<longrightarrow> heap_ok (nf - 1) ps' s'))"
proof -
  have ch: "page_chain (db_view s) ps" using ok by (simp add: heap_ok_def)
  then have ne: "0 < length ps" "hd ps = ps ! 0" "hd ps \<in> set ps" by (auto simp: page_chain_def hd_conv_nth)
  obtain f d s1 where s1: "get_frame (FetchPage (hd ps) (db_bpm s)) s = Some (f, s1)" "at_page nf ps (hd ps) f d True s1" "same_view (db_view s) (db_view s1)"
      "db_txn s1 = db_txn s" "npid s1 = npid s"
    using at_fetch [OF ok ne(3)] by blast
  have tb: "tbl ps s1 = tbl ps s" by (rule chain_same(2) [OF ch s1(3)])
  obtain res g ps' s2 where l: "insert_loop logging t f s1 = Some (res, g, s2)" "inserted nf logging t ps s1 res g ps' s2"
      "ps' = ps \<or> ps' = ps @ [npid s]" "npid s2 = (if ps' = ps then npid s else npid s + 1)"
  proof -
    have at: "at_page nf ps (ps ! 0) f d True s1" "unat (npid s1) < 524288" using s1(2,5) ne(2) np by simp_all
    show ?thesis using insert_loop_spec [OF at(1) ne(1) at(2) t, of logging] that unfolding s1(5) by blast
  qed
  have k2: "kept_out (set ps') s s2" using kept_out_trans [OF same_kept [OF s1(3)]] l(2) by (auto simp: inserted_def)
  show ?thesis
  proof (cases res)
    case (Inl e)
    then have "e = ErrLock" using l(2) by (simp add: inserted_def)
    then have "TH_InsertTuple logging (hd ps) t s = Some (Inl ErrLock, s2)" using Inl s1(1) l(1) by (simp add: TH_InsertTuple_def)
    moreover have "3 \<le> nf \<longrightarrow> heap_ok (nf - 1) ps' s2" using l(2) at_leak by (auto simp: inserted_def)
    ultimately show ?thesis
      using l Inl tb s1(4) k2 by (intro exI [of _ "Inl ErrLock"] exI [of _ s2] exI [of _ ps']) (auto simp: inserted_def)
  next
    case (Inr q)
    obtain r t' where q: "q = (r, t')" by (cases q)
    obtain e fr where i: "at_page nf ps' (PageId r) g e fr s2" "txn_adds [] (db_txn s) (db_txn s2)" "t' = t\<lparr>t_rid := Some r\<rparr>"
        "tbl ps s r = None" "tbl ps' s2 = (tbl ps s)(r \<mapsto> (False, t_data t))" "assert_exclusive logging r (Some (db_ctx s2)) = Some ()"
      using l(2) Inr q tb s1(4) by (auto simp: inserted_def)
    note A = at_pageD [OF i(1)]
    obtain s3 where u: "unpin (PageId r) True s2 = Some s3" "heap_ok nf ps' s3" "same_view (db_view s2) (db_view s3)" "db_ctx s3 = db_ctx s2"
      using at_unpin [OF i(1), of True] by auto
    let ?s = "add_write r W_INSERT tuple_zero (hd ps) s3"
    have run: "TH_InsertTuple logging (hd ps) t s = Some (Inr (r, t'), ?s)"
      using s1(1) l(1) Inr q A(8,10) u(1) by (simp add: TH_InsertTuple_def)
    have "tbl ps' s3 = (tbl ps s)(r \<mapsto> (False, t_data t))" using chain_same(2) [OF A(1) u(3)] i(5) by simp
    moreover have "txn_adds [] (db_txn s) (db_txn s3)" using u(4) i(2) by (simp add: db_ctx_def)
    moreover have "assert_exclusive logging r (Some (db_ctx ?s)) = Some ()"
      using i(6) u(4) by (auto simp: assert_exclusive_ok db_ctx_def add_write_def AddIntoWriteSet_def IsExclusiveLocked_def)
    moreover have "kept_out (set ps') s ?s" using kept_out_trans [OF k2 same_kept [OF u(3)]] by simp
    moreover have "npid ?s = npid s2" using u(4) by (simp add: db_ctx_def)
    ultimately show ?thesis
      using run l(3,4) u(2) i(3,4) A(2) by (intro exI [of _ "Inr (r, t')"] exI [of _ ?s] exI [of _ ps']) simp
  qed
qed

lemma TH_InsertTuple_spec:
  assumes ok: "heap_ok nf ps s" and np: "unat (npid s) < 524288"
    and t: "wf_tuple t" "t_size t \<noteq> 0" "unat (t_size t) \<le> 4064"
  shows "\<exists>res s' ps'. TH_InsertTuple logging (hd ps) t s = Some (res, s') \<and> (ps' = ps \<or> ps' = ps @ [npid s]) \<and>
    npid s' = (if ps' = ps then npid s else npid s + 1) \<and>
    (case res of
       Inr (r, t') \<Rightarrow> heap_ok nf ps' s' \<and> PageId r \<in> set ps' \<and> t' = t\<lparr>t_rid := Some r\<rparr> \<and> tbl ps s r = None \<and>
         tbl ps' s' = (tbl ps s)(r \<mapsto> (False, t_data t)) \<and> assert_exclusive logging r (Some (db_ctx s')) = Some () \<and>
         txn_adds [\<lparr>wr_rid = r, wr_wtype = W_INSERT, wr_tuple = tuple_zero, wr_table = hd ps\<rparr>] (db_txn s) (db_txn s')
     | Inl e \<Rightarrow> e = ErrLock \<and> logging \<and> tbl ps' s' = tbl ps s \<and> txn_adds [] (db_txn s) (db_txn s') \<and> (3 \<le> nf \<longrightarrow> heap_ok (nf - 1) ps' s'))"
  using TH_InsertTuple_frame [OF assms, of logging] by blast

lemma NewTableHeap_spec:
  assumes ok: "pool_ok {} nf (db_bpm s)" and nf: "2 \<le> nf" and np: "unat (npid s) < 524288" and sy: "locks_in_sync (Some (db_ctx s))"
  defines "p \<equiv> npid s"
  shows "\<exists>s'. NewTableHeap logging s = Some (p, s') \<and> heap_ok nf [p] s' \<and> tbl [p] s' = Map.empty \<and> kept_but {p} (db_bpm s) (db_bpm s') \<and>
    npid s' = p + 1"
proof -
  obtain f bp where n: "NewPage (db_bpm s) = Some (Some f, bp)" "pool_ok {p} nf bp" "held p f (replicate 4096 0) False bp"
      "frame_page bp f = Some (page_NewEmpty p)" "kept_but {p} (db_bpm s) bp" "nextPageID (diskManager bp) = p + 1"
    using new_held [OF ok _ np] nf unfolding p_def by auto
  let ?s1 = "s\<lparr>db_bpm := bp\<rparr>"
  obtain e x' where i: "Init logging p InvalidPageID (replicate 4096 0) (Some (db_ctx ?s1)) = Some (e, x')" "tp_inv e" "ctx_ok logging x'"
      "tp_view e = Map.empty" "GetNextPageId e = InvalidPageID" "GetTablePageId e = p"
    using Init_spec [of "replicate 4096 0" logging "Some (db_ctx ?s1)" p InvalidPageID] db_ctx_ok [of ?s1] pool_okD(1) [OF n(2)] by auto
  have i1: "init_page logging p InvalidPageID (replicate 4096 0) (Some (db_ctx ?s1)) = Some ((), e, x')" using i(1) by (simp add: init_page_def)
  have b1: "pool_ok {p} nf (db_bpm ?s1)" "held p f (replicate 4096 0) False (db_bpm ?s1)" using n by simp_all
  obtain c s2 where s2: "x' = Some c" "on_page f (init_page logging p InvalidPageID) ?s1 = Some ((), s2)" "pool_ok {p} nf (db_bpm s2)"
      "held p f e False (db_bpm s2)" "kept_but {p} bp (db_bpm s2)" "db_ctx s2 = c"
      "npid s2 = nextPageID (diskManager bp)"
    using on_page_spec [where op = "init_page logging p InvalidPageID", OF b1 i1 tp_invD(1) [OF i(2)] Init_step [OF i(1)] i(3)] by auto
  obtain bp3 where u: "UnpinPage p True (db_bpm s2) = Some (True, bp3)" "pool_ok {} nf bp3" "kept_but {} (db_bpm s2) bp3" "bp_view bp3 p = Some e"
      "diskManager bp3 = diskManager (db_bpm s2)"
    using unpin_held [OF s2(3,4), of True] by auto
  let ?s3 = "s2\<lparr>db_bpm := bp3\<rparr>"
  have run: "NewTableHeap logging s = Some (p, ?s3)"
    using n(1,4) s2(2) u(1) by (simp add: NewTableHeap_def frame_of_fetch page_NewEmpty_def unpin_def)
  have "disk_page p" using np by (simp add: disk_page_def p_def)
  then have "page_chain (bp_view bp3) [p]" using u(4) i by (simp add: page_chain_def page_at_def next_in_def)
  moreover have "locks_in_sync (Some (db_ctx ?s3))"
    using Init_sync [OF i(1)] sy s2(1,6) by (auto simp: locks_in_sync_def db_ctx_def)
  moreover have "tbl [p] ?s3 = Map.empty" using u(4) i(4) by (auto simp: heap_view_def fun_eq_iff)
  moreover have "kept_but {p} (db_bpm s) bp3" using n(5) s2(5) u(3) by (auto simp: kept_but_def)
  ultimately show ?thesis using run u s2(7) n(6) nf by (simp add: heap_ok_def)
qed

end
