(* ===== verification/Table_Heap_Scan.thy ===== *)
theory Table_Heap_Scan
  imports Table_Heap_Insert
begin

text \<open>
  Scanning a table: \<^verbatim>\<open>GetFirstTuple\<close> and the iterator.  The records of a table in scan order are \<open>table_rids\<close>:
  page by page along the list, slot by slot, every slot in use.
\<close>

definition rid_at :: "pageID \<Rightarrow> nat \<Rightarrow> rid" where
  "rid_at p i = \<lparr>PageId = p, SlotNum = of_nat i\<rparr>"

definition page_rids :: "pageID \<Rightarrow> bytes \<Rightarrow> nat \<Rightarrow> rid list" where
  "page_rids p d i = map (rid_at p) (filter (used d) [i..<cnt d])"

definition table_rids :: "(pageID \<Rightarrow> bytes option) \<Rightarrow> pageID list \<Rightarrow> rid list" where
  "table_rids v ps = concat (map (\<lambda>p. page_rids p (the (v p)) 0) ps)"

abbreviation first_of :: "'a list \<Rightarrow> 'a option" where
  "first_of xs \<equiv> (case xs of [] \<Rightarrow> None | x # _ \<Rightarrow> Some x)"

lemma slot_word: "tp_inv d \<Longrightarrow> i < cnt d \<Longrightarrow> unat (of_nat i :: u32) = i"
  using tp_invD(2,3) [of d] by (simp add: unat_of_nat take_bit_nat_eq_self)

lemma rid_of_slot: "PageId r = p \<Longrightarrow> rid_at p (unat (SlotNum r)) = r" for r :: rid
  by (cases r) (simp add: rid_at_def)

lemma next_ok_first:
  assumes "next_ok d i (map_option (\<lambda>r. unat (SlotNum r)) res)" and "\<forall>r. res = Some r \<longrightarrow> PageId r = p"
  shows "res = first_of (page_rids p d i)"
proof (cases res)
  case None
  then show ?thesis using next_ok_filter [OF assms(1)] by (simp add: page_rids_def)
next
  case (Some r)
  then show ?thesis
    using next_ok_filter [OF assms(1)] assms(2) rid_of_slot [of r p] by (simp add: page_rids_def)
qed

lemma GetTupleFirstRID_eq:
  assumes "tp_inv d"
  shows "GetTupleFirstRID d = Some (first_of (page_rids (GetTablePageId d) d 0))"
  using GetTupleFirstRID_spec [OF assms] next_ok_first by blast

lemma GetNextTupleRID_eq:
  assumes "tp_inv d" and "\<not> isNextPage \<Longrightarrow> unat (SlotNum cur) < cnt d"
  shows "GetNextTupleRID cur isNextPage d =
    Some (first_of (page_rids (GetTablePageId d) d (if isNextPage then 0 else Suc (unat (SlotNum cur)))))"
  using GetNextTupleRID_spec [OF assms] next_ok_first by blast

subsection \<open>Splitting the scan order\<close>

lemma page_rids_split:
  assumes "used d i"
  shows "\<exists>xs. page_rids p d 0 = xs @ rid_at p i # page_rids p d (Suc i)"
proof -
  have "i < cnt d" using assms by (simp add: used_def)
  then have "[0..<cnt d] = [0..<i] @ i # [Suc i..<cnt d]"
    by (metis le0 less_imp_le_nat upt_add_eq_append upt_conv_Cons le_Suc_ex)
  then show ?thesis using assms by (auto simp: page_rids_def)
qed

lemma table_rids_split:
  assumes "i < length ps"
  shows "table_rids v ps = table_rids v (take i ps) @ page_rids (ps ! i) (the (v (ps ! i))) 0 @ table_rids v (drop (Suc i) ps)"
  using id_take_nth_drop [OF assms] by (metis (no_types, lifting) table_rids_def concat.simps(2) concat_append list.simps(9) map_append)

lemma page_rids_mem: "r \<in> set (page_rids p d i) \<longleftrightarrow> (\<exists>j. r = rid_at p j \<and> i \<le> j \<and> used d j)"
  by (auto simp: page_rids_def used_def)

lemma table_rids_mem:
  assumes "page_chain v ps"
  shows "r \<in> set (table_rids v ps) \<longleftrightarrow> heap_view v ps r \<noteq> None"
proof -
  have "r \<in> set (page_rids p (the (v p)) 0) \<longleftrightarrow> PageId r = p \<and> heap_view v ps r \<noteq> None" if p: "p \<in> set ps" for p
  proof -
    obtain d where d: "v p = Some d" "tp_inv d" using chain_page [OF assms p] by metis
    have "rid_at p j = r \<Longrightarrow> used d j \<Longrightarrow> unat (SlotNum r) = j" for j
      using slot_word [OF d(2), of j] by (auto simp: rid_at_def used_def)
    moreover have "PageId r = p \<Longrightarrow> r = rid_at p (unat (SlotNum r))" using rid_of_slot by metis
    moreover have "PageId (rid_at p j) = p" for j by (simp add: rid_at_def)
    ultimately have "r \<in> set (page_rids p d 0) \<longleftrightarrow> PageId r = p \<and> used d (unat (SlotNum r))"
      by (simp add: page_rids_mem) metis
    moreover have "PageId r = p \<Longrightarrow> heap_view v ps r = tp_view d (unat (SlotNum r))" using d p by (simp add: heap_view_def)
    ultimately show ?thesis using d(1) view_unused [of d "unat (SlotNum r)"] by auto
  qed
  then show ?thesis by (auto simp: table_rids_def heap_view_def)
qed

subsection \<open>The first record\<close>

lemma first_rid_loop_spec:
  assumes "heap_ok nf ps s" and "i < length ps"
  shows "\<exists>s'. first_rid_loop (ps ! i) s = Some (first_of (table_rids (db_view s) (drop i ps)), s') \<and> heap_ok nf ps s' \<and>
    same_view (db_view s) (db_view s') \<and> db_txn s' = db_txn s \<and> db_locks s' = db_locks s"
  using assms
proof (induction "length ps - i" arbitrary: i s)
  case (Suc k)
  have p: "ps ! i \<in> set ps" using Suc.prems(2) by simp
  obtain f d s1 where s1: "get_frame (FetchPage (ps ! i) (db_bpm s)) s = Some (f, s1)" "at_page nf ps (ps ! i) f d True s1"
      "same_view (db_view s) (db_view s1)" "db_txn s1 = db_txn s" "db_locks s1 = db_locks s"
    using at_fetch [OF Suc.prems(1) p] by blast
  note A = at_pageD [OF s1(2)]
  obtain s2 where s2: "unpin (ps ! i) False s1 = Some s2" "heap_ok nf ps s2" "same_view (db_view s1) (db_view s2)" "db_ctx s2 = db_ctx s1"
    using at_unpin [OF s1(2), of False] by auto
  have ch: "page_chain (db_view s) ps" using Suc.prems(1) by (simp add: heap_ok_def)
  note sv = same_view_trans [OF s1(3) s2(3)]
  have d: "db_view s (ps ! i) = Some d" using chain_same(3) [OF ch s1(3) p] A(6) by simp
  have valid: "PageID_IsValid (ps ! i)" by (rule disk_page_valid [OF A(9)])
  have first: "GetTupleFirstRID d = Some (first_of (page_rids (ps ! i) d 0))"
    using GetTupleFirstRID_eq [OF A(7)] A(8) by simp
  have tail: "table_rids (db_view s) (drop i ps) = page_rids (ps ! i) d 0 @ table_rids (db_view s) (drop (Suc i) ps)"
    using Suc.prems(2) d by (simp add: Cons_nth_drop_Suc [symmetric] table_rids_def)
  have same: "db_txn s2 = db_txn s" "db_locks s2 = db_locks s" using s1(4,5) s2(4) by (simp_all add: db_ctx_def)
  show ?case
  proof (cases "page_rids (ps ! i) d 0")
    case (Cons r rs)
    have "first_rid_loop (ps ! i) s = Some (Some r, s2)"
      using valid s1(1) A(10) first Cons s2(1) by (subst first_rid_loop.simps) simp
    then show ?thesis using tail Cons s2(2) sv same by auto
  next
    case Nil
    have nxt: "GetNextPageId d = next_in ps i" using ch d Suc.prems(2) by (auto simp: page_chain_def page_at_def)
    have step: "first_rid_loop (ps ! i) s = first_rid_loop (next_in ps i) s2"
      using valid s1(1) A(10) first Nil s2(1) nxt by (subst first_rid_loop.simps) simp
    show ?thesis
    proof (cases "Suc i < length ps")
      case True
      have "table_rids (db_view s2) (drop (Suc i) ps) = table_rids (db_view s) (drop (Suc i) ps)"
        unfolding table_rids_def using chain_same(3) [OF ch sv]
        by (intro arg_cong [where f = concat] map_cong refl) (simp add: in_set_dropD)
      moreover have "k = length ps - Suc i" using Suc.hyps(2) by simp
      ultimately obtain s' where "first_rid_loop (ps ! Suc i) s2 = Some (first_of (table_rids (db_view s) (drop (Suc i) ps)), s')" "heap_ok nf ps s'"
          "same_view (db_view s2) (db_view s')" "db_txn s' = db_txn s2" "db_locks s' = db_locks s2"
        using Suc.hyps(1) [OF _ s2(2) True] by auto
      then show ?thesis using step True tail Nil same same_view_trans [OF sv] by (auto simp: next_in_def)
    next
      case False
      then have "first_rid_loop (ps ! i) s = Some (None, s2)"
        using step not_valid by (simp add: next_in_def) (subst first_rid_loop.simps, simp)
      moreover have "table_rids (db_view s) (drop i ps) = []" using tail Nil False by (simp add: table_rids_def)
      ultimately show ?thesis using s2(2) sv same by simp
    qed
  qed
qed simp

lemma table_rids_same:
  assumes "page_chain v ps" and "same_view v v'" and "set qs \<subseteq> set ps"
  shows "table_rids v' qs = table_rids v qs"
  unfolding table_rids_def using chain_same(3) [OF assms(1,2)] assms(3)
  by (intro arg_cong [where f = concat] map_cong refl) auto

subsection \<open>The next record\<close>

text \<open>Stepping from a held page to the next one.\<close>

lemma step_page:
  assumes at: "at_page nf ps p f d True s" and q: "q \<in> set ps" "q \<noteq> p"
  shows "\<exists>g e s1 s2. get_frame (FetchPage q (db_bpm s)) s = Some (g, s1) \<and> unpin p False s1 = Some s2 \<and> at_page nf ps q g e True s2 \<and>
    same_view (db_view s) (db_view s2) \<and> db_txn s2 = db_txn s \<and> db_locks s2 = db_locks s"
proof -
  note A = at_pageD [OF at]
  obtain e where e: "db_view s q = Some e" "disk_page q" using chain_page [OF A(1) q(1)] by metis
  obtain g bp1 where f: "FetchPage q (db_bpm s) = Some (Some g, bp1)" "pool_ok {q, p} nf bp1" "held q g e True bp1" "kept_but {} (db_bpm s) bp1"
    using fetch_held [OF A(3) e(2) _ e(1)] q(2) A(12) by auto
  have h: "held p f d True bp1" by (rule held_fetch [OF A(4) pool_okD(1) [OF A(3)] f(1) q(2)])
  obtain bp2 where u: "UnpinPage p False bp1 = Some (True, bp2)" "pool_ok ({q, p} - {p}) nf bp2" "kept_but {} bp1 bp2" "others_kept p bp1 bp2"
      "diskManager bp2 = diskManager bp1"
    using unpin_held [OF f(2) h, of False] by auto
  have "{q, p} - {p} = {q}" using q(2) by auto
  moreover have "held q g e True bp2"
  proof -
    obtain x where x: "resident bp1 q g x" "pg_data x = e" "pinCount x \<noteq> 0" "pinCount x = 1 \<longrightarrow> isDirty x \<or> clean q bp1"
      using f(3) by (auto simp: held_def)
    have "resident bp2 q g x" using u(4) x(1) pinned_not_parked [OF pool_okD(1) [OF f(2)] x(1,3)] q(2) by (simp add: others_kept_def)
    moreover from this have "clean q bp2 = clean q bp1" using x(1) u(5) by (simp add: clean_def bp_view_def resident_def)
    ultimately show ?thesis using x by (auto simp: held_def)
  qed
  moreover have v: "same_view (db_view s) (bp_view bp2)" using f(4) u(3) by (auto simp: kept_but_def same_view_def)
  ultimately have "at_page nf ps q g e True (s\<lparr>db_bpm := bp2\<rparr>)"
    using u(2) chain_same(1) [OF A(1) v] q(1) A(5,12) by (simp add: at_page_def locks_in_sync_def db_ctx_def)
  then show ?thesis using f(1) u(1) v by (auto simp: frame_of_fetch unpin_def)
qed

lemma next_page_loop_spec:
  assumes "at_page nf ps (ps ! i) f d True s" and "i < length ps"
  shows "\<exists>nxt g p e s'. next_page_loop cur f s = Some (nxt, g, s') \<and> nxt = first_of (table_rids (db_view s) (drop (Suc i) ps)) \<and>
    at_page nf ps p g e True s' \<and> (\<forall>r. nxt = Some r \<longrightarrow> PageId r = p) \<and>
    same_view (db_view s) (db_view s') \<and> db_txn s' = db_txn s \<and> db_locks s' = db_locks s"
  using assms
proof (induction "length ps - i" arbitrary: i f d s)
  case (Suc k)
  note A = at_pageD [OF Suc.prems(1)]
  have nxt: "GetNextPageId d = next_in ps i" using A(1,6) Suc.prems(2) by (auto simp: page_chain_def page_at_def)
  show ?case
  proof (cases "Suc i < length ps")
    case False
    then have "next_page_loop cur f s = Some (None, f, s)"
      using A(10) nxt not_valid by (subst next_page_loop.simps) (simp add: next_in_def)
    then show ?thesis using False Suc.prems(1) by (auto simp: table_rids_def)
  next
    case True
    let ?q = "ps ! Suc i"
    have q: "?q \<in> set ps" "?q \<noteq> ps ! i" "GetNextPageId d = ?q"
      using True A(1) nxt by (auto simp: page_chain_def nth_eq_iff_index_eq next_in_def)
    obtain g e s1 s2 where s2: "get_frame (FetchPage ?q (db_bpm s)) s = Some (g, s1)" "unpin (ps ! i) False s1 = Some s2" "at_page nf ps ?q g e True s2"
        "same_view (db_view s) (db_view s2)" "db_txn s2 = db_txn s" "db_locks s2 = db_locks s"
      using step_page [OF Suc.prems(1) q(1,2)] by blast
    note B = at_pageD [OF s2(3)]
    have e: "db_view s ?q = Some e" using chain_same(3) [OF A(1) s2(4) q(1)] B(6) by simp
    have valid: "PageID_IsValid ?q" by (rule disk_page_valid [OF B(9)])
    have first: "GetNextTupleRID cur True e = Some (first_of (page_rids ?q e 0))"
      using GetNextTupleRID_eq [OF B(7), of True cur] B(8) by simp
    have tail: "table_rids (db_view s) (drop (Suc i) ps) = page_rids ?q e 0 @ table_rids (db_view s) (drop (Suc (Suc i)) ps)"
      using True e by (simp add: Cons_nth_drop_Suc [symmetric] table_rids_def)
    show ?thesis
    proof (cases "page_rids ?q e 0")
      case (Cons r rs)
      have "next_page_loop cur f s = Some (Some r, g, s2)"
        using A(8,10) q(3) valid s2(1,2) B(10) first Cons by (subst next_page_loop.simps) simp
      moreover have "PageId r = ?q" using page_rids_mem [of r ?q e 0] Cons by (auto simp: rid_at_def)
      ultimately show ?thesis using tail Cons s2 by auto
    next
      case Nil
      have "next_page_loop cur f s = next_page_loop cur g s2"
        using A(8,10) q(3) valid s2(1,2) B(10) first Nil by (subst next_page_loop.simps) simp
      moreover have "k = length ps - Suc i" using Suc.hyps(2) by simp
      then obtain nxt g' p' e' s' where "next_page_loop cur g s2 = Some (nxt, g', s')"
          "nxt = first_of (table_rids (db_view s2) (drop (Suc (Suc i)) ps))" "at_page nf ps p' g' e' True s'" "\<forall>r. nxt = Some r \<longrightarrow> PageId r = p'"
          "same_view (db_view s2) (db_view s')" "db_txn s' = db_txn s2" "db_locks s' = db_locks s2"
        using Suc.hyps(1) [OF _ s2(3) True] by blast
      moreover have "table_rids (db_view s2) (drop (Suc (Suc i)) ps) = table_rids (db_view s) (drop (Suc (Suc i)) ps)"
        using table_rids_same [OF A(1) s2(4)] set_drop_subset by metis
      ultimately show ?thesis using tail Nil s2(5,6) same_view_trans [OF s2(4)] by auto
    qed
  qed
qed simp

text \<open>Reading a record of the held page: the page is pinned once more and released.\<close>

lemma TP_GetTuple_log:
  assumes "TP_GetTuple logging r d (Some c) = Some (res, x')"
  shows "\<exists>c'. x' = Some c' \<and> x_log c' = x_log c \<and> x_disk c' = x_disk c"
  using assms
  by (auto simp: TP_GetTuple_def abort_txn_def lock_for_read_def with_lock_def Let_def bind_Some_iff split: if_splits prod.splits)

lemma at_set_state [simp]: "at_page nf ps p f d fr (set_state st s) \<longleftrightarrow> at_page nf ps p f d fr s"
  by (simp add: at_page_def set_state_def SetState_def locks_in_sync_def IsExclusiveLocked_def db_ctx_def)

lemma TH_GetTuple_at:
  assumes at: "at_page nf ps p f d fr s" and r: "PageId r = p"
  shows "\<exists>res s'. TH_GetTuple logging r s = Some (res, s') \<and> at_page nf ps p f d fr s' \<and> db_view s' = db_view s \<and>
    (case res of
       Some t \<Rightarrow> \<exists>bs. tbl ps s r = Some (False, bs) \<and> t = NewTuple (Some r) (of_nat (length bs)) bs
     | None \<Rightarrow> (\<exists>t. t \<noteq> txn_id (db_txn s) \<and> holds_exclusive (db_locks s) r t) \<or> (\<forall>bs. tbl ps s r \<noteq> Some (False, bs)))"
proof -
  obtain locked s0 where l: "heap_lock r s = (locked, s0)" by (cases "heap_lock r s")
  note L = heap_lock_spec [OF l]
  have sy0: "locks_in_sync (Some (db_ctx s)) \<Longrightarrow> locks_in_sync (Some (db_ctx s0))"
    using heap_lock_same [OF l] by (simp add: db_ctx_def locks_in_sync_def IsExclusiveLocked_def)
  have at0: "at_page nf ps p f d fr s0" using at L(1) sy0 by (simp add: at_page_def)
  note A = at_pageD [OF at0]
  have tb: "tbl ps s r = tp_view d (unat (SlotNum r))" using A(2,6) r L(1) by (simp add: heap_view_def)
  show ?thesis
  proof (cases locked)
    case False
    then show ?thesis
      using l L(1,4) at0 by (auto simp: TH_GetTuple_def at_set_state)
  next
    case True
    obtain pg where pg: "frame_page (db_bpm s0) f = Some pg" "pg_data pg = d" "pg_id pg = p"
      using A(4) frames_inv_table [OF bp_inv_frames(1) [OF pool_okD(1) [OF A(3)]], of p f] by (auto simp: held_def resident_def)
    obtain R where R: "FetchPage p (db_bpm s0) = Some (Some f, set_frame f (IncPinCount pg) ((db_bpm s0)\<lparr>bp_replacer := R\<rparr>))"
        "UnpinPage p False (set_frame f (IncPinCount pg) ((db_bpm s0)\<lparr>bp_replacer := R\<rparr>)) = Some (True, (db_bpm s0)\<lparr>bp_replacer := R\<rparr>)"
        "pool_ok {p} nf ((db_bpm s0)\<lparr>bp_replacer := R\<rparr>)" "held p f d fr ((db_bpm s0)\<lparr>bp_replacer := R\<rparr>)"
        "bp_view ((db_bpm s0)\<lparr>bp_replacer := R\<rparr>) = db_view s0"
      using refetch [OF A(3,4) pg(1)] by blast
    define bp where "bp = set_frame f (IncPinCount pg) ((db_bpm s0)\<lparr>bp_replacer := R\<rparr>)"
    let ?s1 = "s0\<lparr>db_bpm := bp\<rparr>"
    have ctx: "db_ctx ?s1 = db_ctx s0" by (simp add: db_ctx_def bp_def)
    obtain res x' where g: "TP_GetTuple logging r d (Some (db_ctx s0)) = Some (res, x')" "case res of
         Some t \<Rightarrow> \<exists>bs. tp_view d (unat (SlotNum r)) = Some (False, bs) \<and> t = NewTuple (Some r) (of_nat (length bs)) bs
       | None \<Rightarrow> logging \<or> (\<forall>bs. tp_view d (unat (SlotNum r)) \<noteq> Some (False, bs))"
      using TP_GetTuple_spec [OF A(7) A(11) [of logging], of r] by blast
    obtain c where c: "x' = Some c" "x_log c = log_manager (db_bpm s0)" "x_disk c = diskManager (db_bpm s0)"
      using TP_GetTuple_log [OF g(1)] by (auto simp: db_ctx_def)
    have none: "res = None \<Longrightarrow> \<forall>bs. tp_view d (unat (SlotNum r)) \<noteq> Some (False, bs)"
      using L(5) [OF True, of "db_ctx s0" logging] TP_GetTuple_granted [OF A(7,11)] g(1) by (auto simp: db_ctx_def)
    have fp: "frame_page bp f = Some (IncPinCount pg)" "pg_data (IncPinCount pg) = d" "pg_id (IncPinCount pg) = p"
      using frame_page_bound [OF pg(1)] pg(2,3) by (simp_all add: bp_def IncPinCount_def)
    have upd: "(IncPinCount pg)\<lparr>pg_data := d\<rparr> = IncPinCount pg" using fp(2) by (cases "IncPinCount pg") simp
    have same: "set_frame f (IncPinCount pg) (bp\<lparr>log_manager := x_log c, diskManager := x_disk c\<rparr>) = bp"
      using c by (simp add: bp_def set_frame_def)
    have on: "on_page f (\<lambda>d x. do { (res, x) \<leftarrow> TP_GetTuple logging r d x; Some (res, d, x) }) ?s1 =
        Some (res, s0\<lparr>db_txn := x_txn c, db_locks := x_locks c, db_bpm := bp\<rparr>)"
      using fp ctx g(1) c(1) by (simp add: on_page_def put_ctx_def) (simp only: upd same)
    let ?s2 = "s0\<lparr>db_txn := x_txn c, db_locks := x_locks c, db_bpm := (db_bpm s0)\<lparr>bp_replacer := R\<rparr>\<rparr>"
    have run: "TH_GetTuple logging r s = Some (res, ?s2)"
      using l True R(1,2) r fp on by (simp add: TH_GetTuple_def GetPageId_def frame_of_fetch bp_def [symmetric] unpin_def)
    have "locks_in_sync (Some (db_ctx ?s2))"
      using TP_GetTuple_sync [OF g(1) A(5)] c(1) by (simp add: locks_in_sync_def db_ctx_def)
    then have "at_page nf ps p f d fr ?s2" using A(1,2,12) R(3-5) by (simp add: at_page_def)
    then show ?thesis using run g(2) none tb R(5) L(1) by (cases res) auto
  qed
qed

text \<open>Reading takes shared locks only.\<close>

lemma TP_GetTuple_locks:
  assumes "TP_GetTuple logging r d (Some c) = Some (res, Some c')"
  shows "exclusive_lock_table (x_locks c') = exclusive_lock_table (x_locks c) \<and> txn_id (x_txn c') = txn_id (x_txn c) \<and> write_set (x_txn c') = write_set (x_txn c)"
  using assms
  by (auto simp: TP_GetTuple_def abort_txn_def lock_for_read_def with_lock_def LockShared_def SetState_def Let_def bind_Some_iff
      split: if_splits option.splits)

lemma TH_GetTuple_locks:
  assumes "TH_GetTuple logging r s = Some (res, s')"
  shows "exclusive_lock_table (db_locks s') = exclusive_lock_table (db_locks s) \<and> txn_id (db_txn s') = txn_id (db_txn s) \<and> write_set (db_txn s') = write_set (db_txn s)"
proof -
  obtain locked s0 where l: "heap_lock r s = (locked, s0)" by (cases "heap_lock r s")
  note L = heap_lock_same(2,4,5) [OF l]
  show ?thesis
  proof (cases locked)
    case False
    then show ?thesis using assms l L by (auto simp: TH_GetTuple_def set_state_def SetState_def)
  next
    case True
    then obtain b d c' where "TP_GetTuple logging r d (Some (db_ctx (s0\<lparr>db_bpm := b\<rparr>))) = Some (res, Some c')"
        "db_txn s' = x_txn c'" "db_locks s' = x_locks c'"
      using assms l by (auto simp: TH_GetTuple_def get_frame_def on_page_def put_ctx_def unpin_def bind_Some_iff Let_def)
    then show ?thesis using TP_GetTuple_locks L by (auto simp: db_ctx_def)
  qed
qed

definition rids_after :: "(pageID \<Rightarrow> bytes option) \<Rightarrow> pageID list \<Rightarrow> nat \<Rightarrow> rid \<Rightarrow> rid list" where
  "rids_after v ps i r = page_rids (ps ! i) (the (v (ps ! i))) (Suc (unat (SlotNum r))) @ table_rids v (drop (Suc i) ps)"

text \<open>The record \<open>Next\<close> moves to, and that it reads it.\<close>

lemma it_Next_spec:
  assumes ok: "heap_ok nf ps s" and i: "i < length ps" "PageId r = ps ! i" and r: "t_rid t = Some r" "tbl ps s r \<noteq> None"
  shows "\<exists>res s'. it_Next logging t s = Some (res, s') \<and> heap_ok nf ps s' \<and> same_view (db_view s) (db_view s') \<and>
    exclusive_lock_table (db_locks s') = exclusive_lock_table (db_locks s) \<and> txn_id (db_txn s') = txn_id (db_txn s) \<and> write_set (db_txn s') = write_set (db_txn s) \<and>
    (case first_of (rids_after (db_view s) ps i r) of
       None \<Rightarrow> res = None
     | Some q \<Rightarrow> (case res of
         Some t' \<Rightarrow> \<exists>bs. tbl ps s q = Some (False, bs) \<and> t' = NewTuple (Some q) (of_nat (length bs)) bs
       | None \<Rightarrow> (\<exists>x. x \<noteq> txn_id (db_txn s) \<and> holds_exclusive (db_locks s) q x) \<or> (\<forall>bs. tbl ps s q \<noteq> Some (False, bs))))"
proof -
  have ch: "page_chain (db_view s) ps" using ok by (simp add: heap_ok_def)
  have p: "ps ! i \<in> set ps" using i(1) by simp
  obtain f d s1 where s1: "get_frame (FetchPage (ps ! i) (db_bpm s)) s = Some (f, s1)" "at_page nf ps (ps ! i) f d True s1"
      "same_view (db_view s) (db_view s1)" "db_txn s1 = db_txn s" "db_locks s1 = db_locks s"
    using at_fetch [OF ok p] by blast
  note A = at_pageD [OF s1(2)]
  have d: "db_view s (ps ! i) = Some d" using chain_same(3) [OF ch s1(3) p] A(6) by simp
  have lt: "unat (SlotNum r) < cnt d" using r(2) i p d by (auto simp: heap_view_def tp_view_def used_def split: if_splits)
  define nxt1 where "nxt1 = first_of (page_rids (ps ! i) d (Suc (unat (SlotNum r))))"
  have n1: "GetNextTupleRID r False d = Some nxt1"
    using GetNextTupleRID_eq [OF A(7), of False r] lt A(8) by (simp add: nxt1_def)
  have pid: "\<forall>q. nxt1 = Some q \<longrightarrow> PageId q = ps ! i"
  proof (intro allI impI)
    fix q assume "nxt1 = Some q"
    then have "q \<in> set (page_rids (ps ! i) d (Suc (unat (SlotNum r))))" by (auto simp: nxt1_def split: list.splits)
    then show "PageId q = ps ! i" by (auto simp: page_rids_mem rid_at_def)
  qed
  have "\<exists>nxt g p' e s2. (if nxt1 = None then next_page_loop r f s1 else Some (nxt1, f, s1)) = Some (nxt, g, s2) \<and>
      nxt = first_of (rids_after (db_view s) ps i r) \<and> at_page nf ps p' g e True s2 \<and> (\<forall>q. nxt = Some q \<longrightarrow> PageId q = p') \<and>
      same_view (db_view s) (db_view s2) \<and> db_txn s2 = db_txn s \<and> db_locks s2 = db_locks s"
  proof (cases nxt1)
    case None
    have "table_rids (db_view s1) (drop (Suc i) ps) = table_rids (db_view s) (drop (Suc i) ps)"
      using table_rids_same [OF ch s1(3)] set_drop_subset by metis
    moreover have "page_rids (ps ! i) d (Suc (unat (SlotNum r))) = []" using None by (auto simp: nxt1_def split: list.splits)
    ultimately show ?thesis
      using next_page_loop_spec [OF s1(2) i(1), of r] None d s1(4,5) same_view_trans [OF s1(3)] by (fastforce simp: rids_after_def)
  next
    case (Some q)
    then have "nxt1 = first_of (rids_after (db_view s) ps i r)" using d by (auto simp: nxt1_def rids_after_def split: list.splits)
    then show ?thesis using Some s1 pid by auto
  qed
  then obtain nxt g p' e s2 where n2: "(if nxt1 = None then next_page_loop r f s1 else Some (nxt1, f, s1)) = Some (nxt, g, s2)"
      "nxt = first_of (rids_after (db_view s) ps i r)" "at_page nf ps p' g e True s2" "\<forall>q. nxt = Some q \<longrightarrow> PageId q = p'"
      "same_view (db_view s) (db_view s2)" "db_txn s2 = db_txn s" "db_locks s2 = db_locks s"
    by blast
  note B = at_pageD [OF n2(3)]
  have tb: "tbl ps s2 = tbl ps s" by (rule chain_same(2) [OF ch n2(5)])
  define got where "got = (case nxt of
         Some q \<Rightarrow> if PageID_IsValid (GetPageId q) then TH_GetTuple logging q s2 else Some (None, s2)
       | None \<Rightarrow> Some (None, s2))"
  have "\<exists>res s3. got = Some (res, s3) \<and> at_page nf ps p' g e True s3 \<and> db_view s3 = db_view s2 \<and>
      exclusive_lock_table (db_locks s3) = exclusive_lock_table (db_locks s) \<and> txn_id (db_txn s3) = txn_id (db_txn s) \<and> write_set (db_txn s3) = write_set (db_txn s) \<and>
      (case nxt of
       None \<Rightarrow> res = None
     | Some q \<Rightarrow> (case res of
         Some t' \<Rightarrow> \<exists>bs. tbl ps s q = Some (False, bs) \<and> t' = NewTuple (Some q) (of_nat (length bs)) bs
       | None \<Rightarrow> (\<exists>x. x \<noteq> txn_id (db_txn s) \<and> holds_exclusive (db_locks s) q x) \<or> (\<forall>bs. tbl ps s q \<noteq> Some (False, bs))))"
  proof (cases nxt)
    case None
    then show ?thesis using n2(3,6,7) by (simp add: got_def)
  next
    case (Some q)
    then have q: "PageId q = p'" using n2(4) by simp
    have "got = TH_GetTuple logging q s2" using Some q disk_page_valid [OF B(9)] by (simp add: got_def GetPageId_def)
    then show ?thesis
      using TH_GetTuple_at [OF n2(3) q, of logging, unfolded tb n2(6,7)] TH_GetTuple_locks [of logging q s2, unfolded n2(6,7)] Some by auto
  qed
  then obtain res s3 where g3: "got = Some (res, s3)" "at_page nf ps p' g e True s3" "db_view s3 = db_view s2"
      "exclusive_lock_table (db_locks s3) = exclusive_lock_table (db_locks s) \<and> txn_id (db_txn s3) = txn_id (db_txn s) \<and> write_set (db_txn s3) = write_set (db_txn s)"
      "case nxt of
       None \<Rightarrow> res = None
     | Some q \<Rightarrow> (case res of
         Some t' \<Rightarrow> \<exists>bs. tbl ps s q = Some (False, bs) \<and> t' = NewTuple (Some q) (of_nat (length bs)) bs
       | None \<Rightarrow> (\<exists>x. x \<noteq> txn_id (db_txn s) \<and> holds_exclusive (db_locks s) q x) \<or> (\<forall>bs. tbl ps s q \<noteq> Some (False, bs)))"
    by blast
  note C = at_pageD [OF g3(2)]
  obtain s4 where u: "unpin p' False s3 = Some s4" "heap_ok nf ps s4" "same_view (db_view s3) (db_view s4)" "db_ctx s4 = db_ctx s3"
    using at_unpin [OF g3(2), of False] by auto
  have "it_Next logging t s = Some (res, s4)"
    using r(1) i(2) s1(1) A(10) n1 n2(1) g3(1) C(8,10) u(1) by (simp add: it_Next_def GetPageId_def got_def)
  moreover have "same_view (db_view s) (db_view s4)" using same_view_trans [OF n2(5)] u(3) g3(3) by simp
  moreover have "db_txn s4 = db_txn s3" "db_locks s4 = db_locks s3" using u(4) by (simp_all add: db_ctx_def)
  ultimately show ?thesis using u(2) g3(4,5) n2(2) by simp
qed

subsection \<open>A whole scan\<close>

lemma page_rids_Cons:
  assumes "page_rids p d k = q # rs" and "tp_inv d"
  shows "PageId q = p" "used d (unat (SlotNum q))" "rs = page_rids p d (Suc (unat (SlotNum q)))"
proof -
  obtain j js where f: "filter (used d) [k..<cnt d] = j # js" "q = rid_at p j" "rs = map (rid_at p) js"
    using assms(1) by (auto simp: page_rids_def map_eq_Cons_conv)
  obtain us vs where l: "[k..<cnt d] = us @ j # vs" "used d j" "js = filter (used d) vs"
    using f(1) unfolding filter_eq_Cons_iff by blast
  have "j = k + length us" "vs = [Suc j..<cnt d]"
  proof -
    have n: "length us < cnt d - k" using arg_cong [OF l(1), of length] by simp
    have "[k..<cnt d] ! length us = j" using l(1) by simp
    then show j: "j = k + length us" using n by simp
    have "vs = drop (Suc (length us)) [k..<cnt d]" using l(1) by simp
    then show "vs = [Suc j..<cnt d]" using j by simp
  qed
  moreover have "unat (SlotNum q) = j" using slot_word [OF assms(2), of j] l(2) f(2) by (auto simp: rid_at_def used_def)
  ultimately show "PageId q = p" "used d (unat (SlotNum q))" "rs = page_rids p d (Suc (unat (SlotNum q)))"
    using f(2,3) l by (auto simp: rid_at_def page_rids_def)
qed

lemma rest_Cons:
  assumes ch: "page_chain v ps"
  shows "i < length ps \<Longrightarrow> page_rids (ps ! i) (the (v (ps ! i))) k @ table_rids v (drop (Suc i) ps) = q # ys \<Longrightarrow>
    \<exists>j < length ps. PageId q = ps ! j \<and> ys = rids_after v ps j q \<and> heap_view v ps q \<noteq> None"
proof (induction "length ps - i" arbitrary: i k)
  case (Suc n)
  obtain d where d: "v (ps ! i) = Some d" "tp_inv d" using chain_page [OF ch, of "ps ! i"] Suc.prems(1) by (metis nth_mem)
  show ?case
  proof (cases "page_rids (ps ! i) d k")
    case (Cons r rs)
    then have q: "q = r" "ys = rs @ table_rids v (drop (Suc i) ps)" using Suc.prems(2) d by auto
    note C = page_rids_Cons [OF Cons d(2)]
    have "heap_view v ps q \<noteq> None" using C(1,2) q(1) d(1) Suc.prems(1) view_unused [of d] by (simp add: heap_view_def)
    then show ?thesis using C q Suc.prems(1) d(1) by (auto simp: rids_after_def)
  next
    case Nil
    then have t: "table_rids v (drop (Suc i) ps) = q # ys" using Suc.prems(2) d by simp
    then have l: "Suc i < length ps" by (cases "Suc i < length ps") (auto simp: table_rids_def)
    then have "page_rids (ps ! Suc i) (the (v (ps ! Suc i))) 0 @ table_rids v (drop (Suc (Suc i)) ps) = q # ys"
      using t by (simp add: Cons_nth_drop_Suc [symmetric] table_rids_def)
    then show ?thesis using Suc.hyps(1) [of "Suc i"] Suc.hyps(2) l by simp
  qed
qed simp

text \<open>\<^verbatim>\<open>for it := heap.Iterator(txn); !it.End(); it.Next()\<close>, collecting \<^verbatim>\<open>it.Current()\<close>; at most \<open>n\<close> rounds.\<close>

fun scan :: "nat \<Rightarrow> bool \<Rightarrow> tuple option \<Rightarrow> db \<Rightarrow> (tuple list \<times> db) option" where
  "scan 0 logging cur s = None"
| "scan (Suc n) logging None s = Some ([], s)"
| "scan (Suc n) logging (Some t) s = do {
     (nxt, s) \<leftarrow> it_Next logging t s;
     (ts, s) \<leftarrow> scan n logging nxt s;
     Some (t # ts, s) }"

definition tuple_of :: "(rid \<Rightarrow> (bool \<times> bytes) option) \<Rightarrow> rid \<Rightarrow> tuple" where
  "tuple_of v r = (let bs = snd (the (v r)) in NewTuple (Some r) (of_nat (length bs)) bs)"

text \<open>No record is marked as deleted, and no other transaction has one locked for writing.\<close>

definition readable :: "pageID list \<Rightarrow> db \<Rightarrow> bool" where
  "readable ps s \<longleftrightarrow> (\<forall>r. tbl ps s r \<noteq> None \<longrightarrow> (\<exists>bs. tbl ps s r = Some (False, bs)) \<and>
     (\<forall>x. holds_exclusive (db_locks s) r x \<longrightarrow> x = txn_id (db_txn s)))"

lemma scan_spec:
  assumes "heap_ok nf ps s" and "readable ps s" and "i < length ps" and "PageId r = ps ! i" and "tbl ps s r \<noteq> None"
    and "rids_after (db_view s) ps i r = ys" and "length ys + 1 < n"
  shows "\<exists>s'. scan n logging (Some (tuple_of (tbl ps s) r)) s = Some (map (tuple_of (tbl ps s)) (r # ys), s') \<and> heap_ok nf ps s' \<and> tbl ps s' = tbl ps s"
  using assms
proof (induction ys arbitrary: n r i s)
  case Nil
  have t: "t_rid (tuple_of (tbl ps s) r) = Some r" by (simp add: tuple_of_def NewTuple_def Let_def)
  have ch: "page_chain (db_view s) ps" using Nil.prems(1) by (simp add: heap_ok_def)
  obtain s' where n: "it_Next logging (tuple_of (tbl ps s) r) s = Some (None, s')" "heap_ok nf ps s'" "same_view (db_view s) (db_view s')"
    using it_Next_spec [OF Nil.prems(1,3,4) t Nil.prems(5), of logging] unfolding Nil.prems(6) list.case option.case by blast
  have "n = Suc (Suc (n - 2))" using Nil.prems(7) by simp
  then obtain m where "n = Suc (Suc m)" by blast
  then show ?case using n chain_same(2) [OF ch n(3)] by auto
next
  case (Cons q ys)
  have t: "t_rid (tuple_of (tbl ps s) r) = Some r" by (simp add: tuple_of_def NewTuple_def Let_def)
  have ch: "page_chain (db_view s) ps" using Cons.prems(1) by (simp add: heap_ok_def)
  obtain j where j: "j < length ps" "PageId q = ps ! j" "ys = rids_after (db_view s) ps j q" "tbl ps s q \<noteq> None"
    using rest_Cons [OF ch Cons.prems(3), of "Suc (unat (SlotNum r))" q ys] Cons.prems(6) by (auto simp: rids_after_def)
  obtain bs where bs: "tbl ps s q = Some (False, bs)" "\<forall>x. holds_exclusive (db_locks s) q x \<longrightarrow> x = txn_id (db_txn s)"
    using Cons.prems(2) j(4) unfolding readable_def by blast
  obtain res s1 where n: "it_Next logging (tuple_of (tbl ps s) r) s = Some (res, s1)" "heap_ok nf ps s1" "same_view (db_view s) (db_view s1)"
      "exclusive_lock_table (db_locks s1) = exclusive_lock_table (db_locks s)" "txn_id (db_txn s1) = txn_id (db_txn s)"
      "case res of
         Some t' \<Rightarrow> \<exists>bs. tbl ps s q = Some (False, bs) \<and> t' = NewTuple (Some q) (of_nat (length bs)) bs
       | None \<Rightarrow> (\<exists>x. x \<noteq> txn_id (db_txn s) \<and> holds_exclusive (db_locks s) q x) \<or> (\<forall>bs. tbl ps s q \<noteq> Some (False, bs))"
    using it_Next_spec [OF Cons.prems(1,3,4) t Cons.prems(5), of logging] unfolding Cons.prems(6) list.case option.case by blast
  have res: "res = Some (tuple_of (tbl ps s) q)" using n(6) bs by (cases res) (auto simp: tuple_of_def)
  have tb: "tbl ps s1 = tbl ps s" by (rule chain_same(2) [OF ch n(3)])
  have rd: "readable ps s1" using Cons.prems(2) tb n(4,5) by (simp add: readable_def holds_exclusive_def)
  have af: "rids_after (db_view s1) ps j q = ys"
    unfolding j(3) rids_after_def using table_rids_same [OF ch n(3), of "drop (Suc j) ps"] set_drop_subset [of "Suc j" ps]
      chain_same(3) [OF ch n(3), of "ps ! j"] j(1) by simp
  obtain m where m: "n = Suc m" "length ys + 1 < m" using Cons.prems(7) by (cases n) auto
  obtain s' where "scan m logging (Some (tuple_of (tbl ps s1) q)) s1 = Some (map (tuple_of (tbl ps s1)) (q # ys), s')" "heap_ok nf ps s'" "tbl ps s' = tbl ps s1"
    using Cons.IH [OF n(2) rd j(1,2) _ af m(2)] j(4) tb by auto
  then show ?case using n(1) res m(1) tb by simp
qed

end
