(* ===== verification/Table_Heap_Spec.thy ===== *)
theory Table_Heap_Spec
  imports Table_Heap_Scan
begin

text \<open>
  What a table promises its clients, with a table in a small buffer pool as the concrete case.
\<close>

subsection \<open>Clients' vocabulary\<close>

definition in_table :: "pageID \<Rightarrow> rid \<Rightarrow> db \<Rightarrow> bool" where
  "in_table first r s \<longleftrightarrow> (\<exists>ps. page_chain (db_view s) ps \<and> hd ps = first \<and> PageId r \<in> set ps)"

definition insertable :: "tuple \<Rightarrow> bool" where
  "insertable t \<longleftrightarrow> wf_tuple t \<and> t_size t \<noteq> 0 \<and> unat (t_size t) \<le> 4064"

definition page_left :: "db \<Rightarrow> bool" where
  "page_left s \<longleftrightarrow> unat (npid s) < 524288"

lemma as_stored: "wf_tuple t \<Longrightarrow> NewTuple (Some r) (of_nat (length (t_data t))) (t_data t) = t\<lparr>t_rid := Some r\<rparr>"
  by (cases t) (simp add: wf_tuple_def NewTuple_def)

text \<open>Nobody else has locked the record for writing.\<close>

definition unlocked :: "rid \<Rightarrow> db \<Rightarrow> bool" where
  "unlocked r s \<longleftrightarrow> (\<forall>x. holds_exclusive (db_locks s) r x \<longrightarrow> x = txn_id (db_txn s))"

lemma owner_unlocked:
  assumes "heap_ok nf ps s" and "assert_exclusive logging r (Some (db_ctx s)) = Some ()" and "logging"
  shows "unlocked r s"
proof -
  have "exclusive_lock_table (db_locks s) r = Some (txn_id (db_txn s))"
    using assms by (simp add: heap_ok_def locks_in_sync_def assert_exclusive_ok db_ctx_def)
  then show ?thesis by (simp add: unlocked_def holds_exclusive_def)
qed

subsection \<open>A table in a small pool\<close>

definition example_db :: db where
  "example_db = \<lparr>db_bpm = NewBufferPoolManager 8 empty_disk NewLogManager, db_locks = NewLockManager, db_txn = NewTransaction 1\<rparr>"

lemma example_db_ok: "pool_ok {} 8 (db_bpm example_db)" "npid example_db = 0" "locks_in_sync (Some (db_ctx example_db))"
proof -
  show "pool_ok {} 8 (db_bpm example_db)" using empty_disk_ok by (simp add: example_db_def pool_ok_New)
  show "npid example_db = 0" by (simp add: example_db_def NewBufferPoolManager_def empty_disk_def)
  show "locks_in_sync (Some (db_ctx example_db))"
    by (simp add: locks_in_sync_def db_ctx_def example_db_def NewLockManager_def NewTransaction_def IsExclusiveLocked_def)
qed

definition example_heap :: db where
  "example_heap = snd (the (NewTableHeap False example_db))"

lemma example_heap_ok: "NewTableHeap False example_db = Some (0, example_heap)" "heap_ok 8 [0] example_heap" "tbl [0] example_heap = Map.empty"
  "npid example_heap = 1" "page_left example_heap"
proof -
  obtain s' where s': "NewTableHeap False example_db = Some (0, s')" "heap_ok 8 [0] s'" "tbl [0] s' = Map.empty" "npid s' = 1"
    using NewTableHeap_spec [of 8 example_db False] example_db_ok by auto
  moreover from this have "example_heap = s'" by (simp add: example_heap_def)
  ultimately show "NewTableHeap False example_db = Some (0, example_heap)" "heap_ok 8 [0] example_heap" "tbl [0] example_heap = Map.empty"
    "npid example_heap = 1" "page_left example_heap"
    by (simp_all add: page_left_def)
qed

lemma example_insertable: "insertable example_tuple"
  using example_tuple_ok by (simp add: insertable_def)

text \<open>Without logging no call but \<^verbatim>\<open>GetTuple\<close> touches the lock tables or the transaction.\<close>

lemma on_page_locks:
  assumes "on_page f op s = Some (a, s')" and "\<And>d x a d' x'. op d x = Some (a, d', x') \<Longrightarrow> x' = x"
  shows "db_locks s' = db_locks s \<and> db_txn s' = db_txn s"
proof -
  obtain pg :: page and d' c where c: "op (pg_data pg) (Some (db_ctx s)) = Some (a, d', Some c)" "db_locks s' = x_locks c" "db_txn s' = x_txn c"
  proof -
    from assms(1) show ?thesis
      by (clarsimp simp: on_page_def bind_Some_iff put_ctx_def Let_def) (rule that, assumption, simp_all)
  qed
  have "c = db_ctx s" using assms(2) [OF c(1)] by simp
  then show ?thesis using c by (simp add: db_ctx_def)
qed

lemma InsertTuple_nolog: "InsertTuple False t d x = Some (res, d', x') \<Longrightarrow> x' = x"
  by (auto simp: InsertTuple_def lock_new_def log_write_def Let_def bind_Some_iff split: if_splits)

lemma Init_nolog: "init_page False p q d x = Some (u, d', x') \<Longrightarrow> x' = x"
  by (auto simp: init_page_def Init_def log_write_def Let_def bind_Some_iff split: if_splits)

lemma frame_locks:
  "get_frame res s = Some (f, s') \<Longrightarrow> db_locks s' = db_locks s \<and> db_txn s' = db_txn s"
  "unpin p b s = Some s' \<Longrightarrow> db_locks s' = db_locks s \<and> db_txn s' = db_txn s"
  by (auto simp: get_frame_def unpin_def bind_Some_iff)

lemma append_page_nolog:
  assumes "append_page False f s = Some (g, s')"
  shows "db_locks s' = db_locks s \<and> db_txn s' = db_txn s"
proof -
  obtain s1 s2 and pg :: page and d s3 where a: "get_frame (NewPage (db_bpm s)) s = Some (g, s1)" "on_page f (\<lambda>d x. Some ((), SetNextPageId (pg_id pg) d, x)) s1 = Some ((), s2)"
      "on_page g (init_page False (pg_id pg) (GetTablePageId d)) s2 = Some ((), s3)" "unpin (GetTablePageId d) True s3 = Some s'"
  proof -
    from assms show ?thesis by (clarsimp simp: append_page_def bind_Some_iff) (rule that, assumption+)
  qed
  have "db_locks s2 = db_locks s1 \<and> db_txn s2 = db_txn s1" by (rule on_page_locks [OF a(2)]) simp
  then show ?thesis using frame_locks(1) [OF a(1)] frame_locks(2) [OF a(4)] on_page_locks [OF a(3) Init_nolog] by simp
qed

lemma insert_loop_nolog:
  assumes "insert_loop False t f s = Some y"
  shows "db_locks (snd (snd y)) = db_locks s \<and> db_txn (snd (snd y)) = db_txn s"
proof -
  have "\<not> logging \<longrightarrow> db_locks (snd (snd y)) = db_locks s \<and> db_txn (snd (snd y)) = db_txn s" if "insert_loop logging t f s = Some y" for logging
  proof (rule insert_loop.raw_induct [OF _ that], intro impI)
    fix il logging t f s y
    assume ih: "\<And>logging t f s y. il logging t f s = Some y \<Longrightarrow> \<not> logging \<longrightarrow> db_locks (snd (snd y)) = db_locks s \<and> db_txn (snd (snd y)) = db_txn s"
      and run: "do {
     (res, s) \<leftarrow> on_page f (InsertTuple logging t) s;
     if res = Inl ErrNotEnoughSpace then do {
       d \<leftarrow> page_bytes f s;
       let nextPageId = GetNextPageId d;
       if PageID_IsValid nextPageId then do {
         s \<leftarrow> unpin (GetTablePageId d) False s;
         (nxt, s) \<leftarrow> get_frame (FetchPage nextPageId (db_bpm s)) s;
         il logging t nxt s }
       else do {
         (nxt, s) \<leftarrow> append_page logging f s;
         il logging t nxt s } }
     else Some (res, f, s) } = Some y" and l: "\<not> logging"
    obtain res s1 where s1: "on_page f (InsertTuple False t) s = Some (res, s1)" using run l by (auto simp: bind_Some_iff)
    note L = on_page_locks [OF s1 InsertTuple_nolog]
    show "db_locks (snd (snd y)) = db_locks s \<and> db_txn (snd (snd y)) = db_txn s"
      using run s1 L l ih [of False t] by (auto simp: bind_Some_iff Let_def split: if_splits dest!: frame_locks append_page_nolog ih)
  qed
  then show ?thesis using assms by blast
qed

lemma TH_InsertTuple_nolog:
  assumes "TH_InsertTuple False p t s = Some (Inr (r, t'), s')"
  shows "db_locks s' = db_locks s \<and> txn_id (db_txn s') = txn_id (db_txn s)"
proof -
  obtain f s1 g s2 d s3 where a: "get_frame (FetchPage p (db_bpm s)) s = Some (f, s1)" "insert_loop False t f s1 = Some (Inr (r, t'), g, s2)"
      "unpin (GetTablePageId d) True s2 = Some s3" "s' = add_write r W_INSERT tuple_zero p s3"
  proof -
    obtain f s1 res g s2 where b: "get_frame (FetchPage p (db_bpm s)) s = Some (f, s1)" "insert_loop False t f s1 = Some (res, g, s2)"
      using assms by (auto simp: TH_InsertTuple_def bind_Some_iff)
    show ?thesis
    proof (cases res)
      case (Inl e)
      then show ?thesis using assms b by (cases e) (auto simp: TH_InsertTuple_def)
    next
      case (Inr z)
      then show ?thesis using assms b that by (cases z) (auto simp: TH_InsertTuple_def bind_Some_iff)
    qed
  qed
  show ?thesis
    using frame_locks(1) [OF a(1)] insert_loop_nolog [OF a(2)] frame_locks(2) [OF a(3)] a(4) by (simp add: add_write_def AddIntoWriteSet_def)
qed

lemma NewTableHeap_nolog:
  assumes "NewTableHeap False s = Some (p, s')"
  shows "db_locks s' = db_locks s \<and> db_txn s' = db_txn s"
proof -
  obtain f s1 s2 q where a: "get_frame (NewPage (db_bpm s)) s = Some (f, s1)" "on_page f (init_page False q InvalidPageID) s1 = Some ((), s2)"
      "unpin q True s2 = Some s'"
    using assms by (auto simp: NewTableHeap_def bind_Some_iff)
  show ?thesis using frame_locks(1) [OF a(1)] on_page_locks [OF a(2) Init_nolog] frame_locks(2) [OF a(3)] by simp
qed

subsection \<open>Properties\<close>

text \<open>Creating a table allocates one page, gives an empty table and leaves every other page as it was.\<close>

theorem table_new_empty:
  assumes "pool_ok {} nf (db_bpm s)" and "2 \<le> nf" and "page_left s" and "locks_in_sync (Some (db_ctx s))"
  shows "\<exists>s'. NewTableHeap logging s = Some (npid s, s') \<and> heap_ok nf [npid s] s' \<and> tbl [npid s] s' = Map.empty \<and>
    kept_but {npid s} (db_bpm s) (db_bpm s') \<and> npid s' = npid s + 1"
  using NewTableHeap_spec [OF assms(1,2) _ assms(4)] assms(3) by (simp add: page_left_def)

theorem table_new_empty_witness:
  "\<exists>s'. NewTableHeap False example_db = Some (0, s') \<and> heap_ok 8 [0] s' \<and> tbl [0] s' = Map.empty \<and> npid s' = 1"
  using table_new_empty [OF example_db_ok(1) _ _ example_db_ok(3), of False] example_db_ok(2) by (auto simp: page_left_def)

text \<open>C5: inserting a tuple that fits an empty page ends, whatever the number of pages of the table; it is refused (only
  with logging on, by the lock manager) or stored under a record id that was free, changing no other record; the
  table grows by at most one page, and reading the record back gives the tuple.\<close>

theorem table_insert_get:
  assumes ok: "heap_ok nf ps s" and np: "page_left s" and t: "insertable t"
  shows "\<exists>res s' ps'. TH_InsertTuple logging (hd ps) t s = Some (res, s') \<and> (ps' = ps \<or> ps' = ps @ [npid s]) \<and>
    (case res of
       Inl e \<Rightarrow> e = ErrLock \<and> logging \<and> tbl ps' s' = tbl ps s
     | Inr (r, t') \<Rightarrow> t' = t\<lparr>t_rid := Some r\<rparr> \<and> tbl ps s r = None \<and> tbl ps' s' = (tbl ps s)(r \<mapsto> (False, t_data t)) \<and> heap_ok nf ps' s' \<and>
         (logging \<or> unlocked r s' \<longrightarrow> (\<exists>s''. TH_GetTuple logging r s' = Some (Some t', s'') \<and> heap_ok nf ps' s'' \<and> tbl ps' s'' = tbl ps' s')))"
proof -
  have t': "wf_tuple t" "t_size t \<noteq> 0" "unat (t_size t) \<le> 4064" "unat (npid s) < 524288" using t np by (simp_all add: insertable_def page_left_def)
  obtain res s' ps' where i: "TH_InsertTuple logging (hd ps) t s = Some (res, s')" "ps' = ps \<or> ps' = ps @ [npid s]" "case res of
       Inr (r, t') \<Rightarrow> heap_ok nf ps' s' \<and> PageId r \<in> set ps' \<and> t' = t\<lparr>t_rid := Some r\<rparr> \<and> tbl ps s r = None \<and>
         tbl ps' s' = (tbl ps s)(r \<mapsto> (False, t_data t)) \<and> assert_exclusive logging r (Some (db_ctx s')) = Some ()
     | Inl e \<Rightarrow> e = ErrLock \<and> logging \<and> tbl ps' s' = tbl ps s"
    using TH_InsertTuple_spec [OF ok t'(4,1-3), of logging] by (fastforce split: sum.splits)
  show ?thesis
  proof (cases res)
    case (Inl e)
    then show ?thesis using i by (intro exI [of _ res] exI [of _ s'] exI [of _ ps']) simp
  next
    case (Inr z)
    obtain r u where z: "z = (r, u)" by (cases z)
    have j: "heap_ok nf ps' s'" "PageId r \<in> set ps'" "u = t\<lparr>t_rid := Some r\<rparr>" "tbl ps s r = None" "tbl ps' s' = (tbl ps s)(r \<mapsto> (False, t_data t))"
        "assert_exclusive logging r (Some (db_ctx s')) = Some ()"
      using i(3) Inr z by simp_all
    have "\<exists>s''. TH_GetTuple logging r s' = Some (Some u, s'') \<and> heap_ok nf ps' s'' \<and> tbl ps' s'' = tbl ps' s'" if "logging \<or> unlocked r s'"
    proof -
      have un: "unlocked r s'" using that owner_unlocked [OF j(1,6)] by blast
      obtain g s'' where g: "TH_GetTuple logging r s' = Some (g, s'')" "heap_ok nf ps' s''" "tbl ps' s'' = tbl ps' s'" "case g of
           Some t \<Rightarrow> \<exists>bs. tbl ps' s' r = Some (False, bs) \<and> t = NewTuple (Some r) (of_nat (length bs)) bs
         | None \<Rightarrow> (\<exists>t. t \<noteq> txn_id (db_txn s') \<and> holds_exclusive (db_locks s') r t) \<or> (\<forall>bs. tbl ps' s' r \<noteq> Some (False, bs))"
        using TH_GetTuple_spec [OF j(1,2), of logging] by blast
      then have "g = Some u" using un j(3,5) as_stored [OF t'(1), of r] by (cases g) (auto simp: unlocked_def)
      then show ?thesis using g by blast
    qed
    then show ?thesis
      using i(1,2) j(1,3-5) unfolding Inr z by (intro exI [of _ "Inr (r, u)"] exI [of _ s'] exI [of _ ps']) (simp only: sum.case prod.case, blast)
  qed
qed

theorem table_insert_get_witness:
  "\<exists>r s' s''. TH_InsertTuple False 0 example_tuple example_heap = Some (Inr (r, example_tuple\<lparr>t_rid := Some r\<rparr>), s') \<and>
     TH_GetTuple False r s' = Some (Some (example_tuple\<lparr>t_rid := Some r\<rparr>), s'')"
proof -
  obtain res s' ps' where i: "TH_InsertTuple False 0 example_tuple example_heap = Some (res, s')" "case res of
       Inl e \<Rightarrow> e = ErrLock \<and> False \<and> tbl ps' s' = tbl [0] example_heap
     | Inr (r, t') \<Rightarrow> t' = example_tuple\<lparr>t_rid := Some r\<rparr> \<and> tbl [0] example_heap r = None \<and>
         tbl ps' s' = (tbl [0] example_heap)(r \<mapsto> (False, t_data example_tuple)) \<and> heap_ok 8 ps' s' \<and>
         (False \<or> unlocked r s' \<longrightarrow> (\<exists>s''. TH_GetTuple False r s' = Some (Some t', s'') \<and> heap_ok 8 ps' s'' \<and> tbl ps' s'' = tbl ps' s'))"
    using table_insert_get [OF example_heap_ok(2,5) example_insertable, of False] unfolding list.sel by blast
  then obtain r where r: "res = Inr (r, example_tuple\<lparr>t_rid := Some r\<rparr>)" by (cases res) auto
  have "db_locks example_heap = NewLockManager" using NewTableHeap_nolog [OF example_heap_ok(1)] by (simp add: example_db_def)
  then have "unlocked r s'" using TH_InsertTuple_nolog [of 0 example_tuple example_heap r _ s'] i(1) r
    by (simp add: unlocked_def holds_exclusive_def NewLockManager_def)
  then show ?thesis using i r by auto
qed

text \<open>C9: deleting a record has two phases: marking succeeds (without logging: exactly when there is a live record), and
  then rolling back gives the old table and applying removes exactly this record.\<close>

theorem table_delete_two_phase:
  assumes ok: "heap_ok nf ps s" and r: "PageId r \<in> set ps"
  shows "\<exists>m s'. TH_MarkDelete logging first r s = Some (m, s') \<and> heap_ok nf ps s' \<and>
    (if m then (\<exists>bs. tbl ps s r = Some (False, bs) \<and> tbl ps s' = (tbl ps s)(r \<mapsto> (True, bs))) \<and>
       (\<exists>s''. TH_RollbackDelete logging r s' = Some s'' \<and> heap_ok nf ps s'' \<and> tbl ps s'' = tbl ps s) \<and>
       (\<exists>s''. TH_ApplyDelete logging r s' = Some s'' \<and> heap_ok nf ps s'' \<and> tbl ps s'' = (tbl ps s)(r := None))
     else tbl ps s' = tbl ps s \<and> (logging \<or> (\<forall>bs. tbl ps s r \<noteq> Some (False, bs))))"
proof -
  obtain m s' where m: "TH_MarkDelete logging first r s = Some (m, s')" "heap_ok nf ps s'"
      "if m then \<exists>bs. tbl ps s r = Some (False, bs) \<and> tbl ps s' = (tbl ps s)(r \<mapsto> (True, bs)) \<and> assert_exclusive logging r (Some (db_ctx s')) = Some ()
       else tbl ps s' = tbl ps s \<and> (logging \<or> (\<forall>bs. tbl ps s r \<noteq> Some (False, bs)))"
    using TH_MarkDelete_spec [OF ok r, of logging first] by (auto split: if_splits)
  show ?thesis
  proof (cases m)
    case True
    then obtain bs where b: "tbl ps s r = Some (False, bs)" "tbl ps s' = (tbl ps s)(r \<mapsto> (True, bs))" "assert_exclusive logging r (Some (db_ctx s')) = Some ()"
      using m(3) by auto
    have marked: "tbl ps s' r = Some (True, bs)" "tbl ps s' r \<noteq> None" using b(2) by simp_all
    have "(tbl ps s')(r \<mapsto> (False, bs)) = tbl ps s" "(tbl ps s')(r := None) = (tbl ps s)(r := None)" using b(1,2) by (simp_all add: fun_upd_idem)
    then show ?thesis
      using True m(1,2) b(1,2) TH_RollbackDelete_spec [OF m(2) r b(3) marked(1)] TH_ApplyDelete_spec [OF m(2) r b(3) marked(2)] by auto
  next
    case False
    then show ?thesis using m by auto
  qed
qed

lemma example_filled:
  obtains r s ps where "TH_InsertTuple False 0 example_tuple example_heap = Some (Inr (r, example_tuple\<lparr>t_rid := Some r\<rparr>), s)"
    "heap_ok 8 ps s" "PageId r \<in> set ps" "tbl ps s = [r \<mapsto> (False, [1, 2, 3])]" "db_locks s = NewLockManager" "hd ps = 0" "page_left s"
proof -
  note T = example_insertable [unfolded insertable_def] and np = example_heap_ok(5) [unfolded page_left_def]
  obtain res s ps where i: "TH_InsertTuple False 0 example_tuple example_heap = Some (res, s)" "ps = [0] \<or> ps = [0] @ [npid example_heap]"
      "npid s = (if ps = [0] then npid example_heap else npid example_heap + 1)" "case res of
       Inr (r, t') \<Rightarrow> heap_ok 8 ps s \<and> PageId r \<in> set ps \<and> t' = example_tuple\<lparr>t_rid := Some r\<rparr> \<and> tbl [0] example_heap r = None \<and>
         tbl ps s = (tbl [0] example_heap)(r \<mapsto> (False, t_data example_tuple))
     | Inl e \<Rightarrow> False"
    using TH_InsertTuple_spec [OF example_heap_ok(2) np, of example_tuple False] T by (fastforce split: sum.splits)
  then obtain r where r: "res = Inr (r, example_tuple\<lparr>t_rid := Some r\<rparr>)" by (cases res) auto
  have "db_locks s = NewLockManager"
    using NewTableHeap_nolog [OF example_heap_ok(1)] TH_InsertTuple_nolog [of 0 example_tuple example_heap r _ s] i(1) r by (simp add: example_db_def)
  moreover have "hd ps = 0" "page_left s" using i(2,3) example_heap_ok(4) by (auto simp: page_left_def split: if_splits)
  ultimately show ?thesis using that [of r s ps] i r example_heap_ok(3) example_tuple_ok(3) by simp
qed

theorem table_delete_two_phase_witness:
  "\<exists>r s1 s2 s3 s4. TH_InsertTuple False 0 example_tuple example_heap = Some (Inr (r, example_tuple\<lparr>t_rid := Some r\<rparr>), s1) \<and>
     TH_MarkDelete False 0 r s1 = Some (True, s2) \<and> TH_RollbackDelete False r s2 = Some s3 \<and> TH_ApplyDelete False r s2 = Some s4"
proof (rule example_filled)
  fix r s ps
  assume a: "TH_InsertTuple False 0 example_tuple example_heap = Some (Inr (r, example_tuple\<lparr>t_rid := Some r\<rparr>), s)" "heap_ok 8 ps s"
    "PageId r \<in> set ps" "tbl ps s = [r \<mapsto> (False, [1, 2, 3])]"
  obtain m s' where m: "TH_MarkDelete False 0 r s = Some (m, s')"
    "if m then (\<exists>bs. tbl ps s r = Some (False, bs) \<and> tbl ps s' = (tbl ps s)(r \<mapsto> (True, bs))) \<and>
       (\<exists>s''. TH_RollbackDelete False r s' = Some s'' \<and> heap_ok 8 ps s'' \<and> tbl ps s'' = tbl ps s) \<and>
       (\<exists>s''. TH_ApplyDelete False r s' = Some s'' \<and> heap_ok 8 ps s'' \<and> tbl ps s'' = (tbl ps s)(r := None))
     else tbl ps s' = tbl ps s \<and> (False \<or> (\<forall>bs. tbl ps s r \<noteq> Some (False, bs)))"
    using table_delete_two_phase [OF a(2,3), of False 0] by blast
  have "m" using m(2) a(4) by (cases m) auto
  then show ?thesis using a(1) m by auto
qed

text \<open>The records in scan order, each once.\<close>

lemma table_rids_distinct:
  assumes "page_chain v ps"
  shows "distinct (table_rids v ps)"
proof -
  have sub: "set qs \<subseteq> set ps \<Longrightarrow> distinct qs \<Longrightarrow> distinct (table_rids v qs)" for qs
  proof (induction qs)
    case (Cons p qs)
    have "p \<in> set ps" using Cons.prems(1) by simp
    then obtain d where d: "v p = Some d" "tp_inv d" by (rule chain_page [OF assms])
    have "inj_on (rid_at p) (set (filter (used d) [0..<cnt d]))"
    proof (rule inj_onI)
      fix i j assume ij: "i \<in> set (filter (used d) [0..<cnt d])" "j \<in> set (filter (used d) [0..<cnt d])" "rid_at p i = rid_at p j"
      have lt: "i < cnt d" "j < cnt d" using ij(1,2) by auto
      have "unat (of_nat i :: u32) = unat (of_nat j :: u32)" using arg_cong [OF ij(3), of SlotNum] by (simp only: rid_at_def rid.simps)
      then show "i = j" by (simp only: slot_word [OF d(2) lt(1)] slot_word [OF d(2) lt(2)])
    qed
    then have "distinct (page_rids p d 0)" by (simp add: page_rids_def distinct_map)
    moreover have 1: "PageId r = p" if "r \<in> set (page_rids p d 0)" for r using that by (auto simp: page_rids_mem rid_at_def)
    have 2: "PageId r \<in> set qs" if "r \<in> set (table_rids v qs)" for r using that by (auto simp: table_rids_def page_rids_mem rid_at_def)
    have "set (page_rids p d 0) \<inter> set (table_rids v qs) = {}" using 1 2 Cons.prems(2) by (metis disjoint_iff distinct.simps(2))
    moreover have "table_rids v (p # qs) = page_rids p d 0 @ table_rids v qs" using d(1) by (simp add: table_rids_def)
    ultimately show ?case using Cons by simp
  qed (simp add: table_rids_def)
  have "distinct ps" using assms by (simp add: page_chain_def)
  then show ?thesis using sub [of ps] by simp
qed

definition full_scan :: "nat \<Rightarrow> bool \<Rightarrow> pageID \<Rightarrow> db \<Rightarrow> (tuple list \<times> db) option" where
  "full_scan n logging firstPageId s = do {
     (cur, s) \<leftarrow> GetFirstTuple logging firstPageId s;
     scan n logging cur s }"

lemma readable_same:
  assumes "readable ps s" and "tbl ps s' = tbl ps s" and "exclusive_lock_table (db_locks s') = exclusive_lock_table (db_locks s)"
    and "txn_id (db_txn s') = txn_id (db_txn s)"
  shows "readable ps s'"
  using assms by (simp add: readable_def holds_exclusive_def)

lemma first_tuple:
  assumes ok: "heap_ok nf ps s" and rd: "readable ps s" and r: "PageId r \<in> set ps" "tbl ps s r \<noteq> None"
  shows "\<exists>s'. TH_GetTuple logging r s = Some (Some (tuple_of (tbl ps s) r), s') \<and> heap_ok nf ps s' \<and> same_view (db_view s) (db_view s') \<and> readable ps s'"
proof -
  obtain res s' where g: "TH_GetTuple logging r s = Some (res, s')" "heap_ok nf ps s'" "tbl ps s' = tbl ps s" "same_view (db_view s) (db_view s')" "case res of
       Some t \<Rightarrow> \<exists>bs. tbl ps s r = Some (False, bs) \<and> t = NewTuple (Some r) (of_nat (length bs)) bs
     | None \<Rightarrow> (\<exists>t. t \<noteq> txn_id (db_txn s) \<and> holds_exclusive (db_locks s) r t) \<or> (\<forall>bs. tbl ps s r \<noteq> Some (False, bs))"
    using TH_GetTuple_spec [OF ok r(1), of logging] by blast
  obtain bs where "tbl ps s r = Some (False, bs)" "\<forall>x. holds_exclusive (db_locks s) r x \<longrightarrow> x = txn_id (db_txn s)" using rd r(2) unfolding readable_def by blast
  then have "res = Some (tuple_of (tbl ps s) r)" using g(5) by (cases res) (auto simp: tuple_of_def)
  then show ?thesis using g readable_same [OF rd g(3)] TH_GetTuple_locks [OF g(1)] by blast
qed

text \<open>C6: when no record is marked as deleted and no other transaction has locked one for writing, iterating over a
  table from its first tuple ends and gives exactly its records, each once, page by page in slot order.\<close>

theorem table_scan_complete:
  assumes ok: "heap_ok nf ps s" and rd: "readable ps s" and n: "length (table_rids (db_view s) ps) + 1 < n"
  shows "\<exists>s'. full_scan n logging (hd ps) s = Some (map (tuple_of (tbl ps s)) (table_rids (db_view s) ps), s') \<and> heap_ok nf ps s' \<and>
    tbl ps s' = tbl ps s \<and> distinct (table_rids (db_view s) ps) \<and> (\<forall>r. r \<in> set (table_rids (db_view s) ps) \<longleftrightarrow> tbl ps s r \<noteq> None)"
proof -
  let ?rs = "table_rids (db_view s) ps"
  have ch: "page_chain (db_view s) ps" using ok by (simp add: heap_ok_def)
  then have ne: "0 < length ps" "hd ps = ps ! 0" by (auto simp: page_chain_def hd_conv_nth)
  obtain s1 where s1: "first_rid_loop (hd ps) s = Some (first_of ?rs, s1)" "heap_ok nf ps s1" "same_view (db_view s) (db_view s1)" "db_txn s1 = db_txn s"
      "db_locks s1 = db_locks s"
    using first_rid_loop_spec [OF ok ne(1)] ne(2) by auto
  have tb1: "tbl ps s1 = tbl ps s" by (rule chain_same(2) [OF ch s1(3)])
  have fin: "distinct ?rs" "\<forall>r. r \<in> set ?rs \<longleftrightarrow> tbl ps s r \<noteq> None" using table_rids_distinct [OF ch] table_rids_mem [OF ch] by blast+
  obtain m where m: "n = Suc m" using n by (cases n) auto
  show ?thesis
  proof (cases ?rs)
    case Nil
    then show ?thesis using s1(1,2) tb1 m fin by (simp add: full_scan_def GetFirstTuple_def)
  next
    case (Cons r ys)
    obtain i where i: "i < length ps" "PageId r = ps ! i" "ys = rids_after (db_view s) ps i r" "tbl ps s r \<noteq> None"
    proof -
      have "page_rids (ps ! 0) (the (db_view s (ps ! 0))) 0 @ table_rids (db_view s) (drop (Suc 0) ps) = r # ys"
        using Cons table_rids_split [OF ne(1), of "db_view s"] by (simp add: table_rids_def)
      then show ?thesis using rest_Cons [OF ch ne(1)] that by blast
    qed
    have rd1: "readable ps s1" using readable_same [OF rd tb1] s1(4,5) by simp
    obtain s2 where g: "TH_GetTuple logging r s1 = Some (Some (tuple_of (tbl ps s1) r), s2)" "heap_ok nf ps s2" "same_view (db_view s1) (db_view s2)" "readable ps s2"
      using first_tuple [OF s1(2) rd1, of r logging] i tb1 by auto
    note sv = same_view_trans [OF s1(3) g(3)]
    have tb2: "tbl ps s2 = tbl ps s" by (rule chain_same(2) [OF ch sv])
    have af: "rids_after (db_view s2) ps i r = ys"
      unfolding i(3) rids_after_def using table_rids_same [OF ch sv, of "drop (Suc i) ps"] set_drop_subset [of "Suc i" ps]
        chain_same(3) [OF ch sv, of "ps ! i"] i(1) by simp
    have "length ys + 1 < n" "tbl ps s2 r \<noteq> None" using n Cons i(4) tb2 by simp_all
    then show ?thesis
      using scan_spec [OF g(2,4) i(1,2) _ af, of n logging] tb1 tb2 s1(1) g(1) Cons fin by (auto simp: full_scan_def GetFirstTuple_def)
  qed
qed

theorem table_scan_complete_witness:
  "\<exists>r s s'. TH_InsertTuple False 0 example_tuple example_heap = Some (Inr (r, example_tuple\<lparr>t_rid := Some r\<rparr>), s) \<and>
     full_scan 9 False 0 s = Some ([example_tuple\<lparr>t_rid := Some r\<rparr>], s')"
proof (rule example_filled)
  fix r s ps
  assume a: "TH_InsertTuple False 0 example_tuple example_heap = Some (Inr (r, example_tuple\<lparr>t_rid := Some r\<rparr>), s)" "heap_ok 8 ps s"
    "PageId r \<in> set ps" "tbl ps s = [r \<mapsto> (False, [1, 2, 3])]" "db_locks s = NewLockManager" "hd ps = 0"
  have ch: "page_chain (db_view s) ps" using a(2) by (simp add: heap_ok_def)
  have "set (table_rids (db_view s) ps) = {r}" using table_rids_mem [OF ch] a(4) by (auto split: if_splits)
  then have rs: "table_rids (db_view s) ps = [r]" using table_rids_distinct [OF ch] by (cases "table_rids (db_view s) ps" rule: remdups_adj.cases) auto
  have "readable ps s" using a(4,5) by (auto simp: readable_def NewLockManager_def holds_exclusive_def split: if_splits)
  then show ?thesis
    using table_scan_complete [OF a(2), of 9 False] rs a(1,4,6) by (auto simp: tuple_of_def NewTuple_def example_tuple_def)
qed

end
