(* ===== verification/Table_Heap_Update.thy ===== *)
theory Table_Heap_Update
  imports Table_Heap_Spec
begin

text \<open>
  \<^verbatim>\<open>TableHeap.UpdateTuple\<close>: in place when the page has room, otherwise the record is marked as deleted and its
  new contents are inserted elsewhere.
\<close>

subsection \<open>The page operation\<close>

lemma lock_for_write_owner:
  assumes "locks_in_sync x" and "assert_exclusive logging r x = Some ()"
  shows "\<exists>x'. lock_for_write logging r x = Some (True, x')"
proof (cases logging)
  case True
  then obtain c where "x = Some c" "IsExclusiveLocked (x_txn c) r" using assms(2) by (auto simp: assert_exclusive_ok)
  moreover from this have "exclusive_lock_table (x_locks c) r = Some (txn_id (x_txn c))" using assms(1) by (simp add: locks_in_sync_def)
  ultimately show ?thesis using True by (simp add: lock_for_write_def LockUpgrade_def with_lock_def)
qed (simp add: lock_for_write_def)

lemma with_lock_state:
  "with_lock res c = (True, Some c') \<Longrightarrow> tx_state (fst (snd res)) = tx_state (x_txn c) \<Longrightarrow> tx_state (x_txn c') = tx_state (x_txn c)"
  by (cases res) (auto simp: with_lock_def)

lemma lock_state:
  "tx_state (fst (snd (LockExclusive txn r lk))) = tx_state txn"
  "LockUpgrade txn r lk = Some res \<Longrightarrow> tx_state (fst (snd res)) = tx_state txn"
  by (auto simp: LockExclusive_def LockUpgrade_def split: option.splits if_splits)

lemma lock_for_write_state:
  "lock_for_write logging r (Some c) = Some (True, Some c') \<Longrightarrow> tx_state (x_txn c') = tx_state (x_txn c)"
  by (auto simp: lock_for_write_def bind_Some_iff split: if_splits intro: lock_state dest: lock_state(2) elim!: with_lock_state)

lemma UpdateTuple_owner:
  assumes "UpdateTuple logging new idxs sch old r d x = Some ((False, None, w), old', d', x')" and "locks_in_sync x"
    and "assert_exclusive logging r x = Some ()"
  shows "IsDeleted (the (GetTupleSize (SlotNum r) d)) \<or> GetTupleCount d \<le> SlotNum r"
  using lock_for_write_owner [OF assms(2,3)] assms(1)
  by (auto simp: UpdateTuple_def GetSlotNum_def Let_def bind_Some_iff split: if_splits)

lemma UpdateTuple_owns:
  assumes "UpdateTuple logging new idxs sch old r d (Some c) = Some ((True, e, w), old', d', Some c')" and "locks_in_sync (Some c)"
  shows "assert_exclusive logging r (Some c') = Some ()" and "tx_state (x_txn c') = tx_state (x_txn c)"
proof -
  obtain x1 o' u d1 where l: "lock_for_write logging r (Some c) = Some (True, x1)"
      and w: "log_write logging (\<lambda>txn. NewLogRecordUpdate (txn_id txn) (prev_lsn txn) UPDATE r o' u) d x1 = Some (d1, Some c')"
    using assms(1) by (auto simp: UpdateTuple_def Let_def bind_Some_iff split: if_splits)
  show "assert_exclusive logging r (Some c') = Some ()"
    using log_write_sync(2) [OF w lock_for_write_sync(2) [OF assms(2) l]] by simp
  obtain c1 where "x1 = Some c1" using w l by (cases x1) (auto simp: log_write_def lock_for_write_def split: if_splits)
  then show "tx_state (x_txn c') = tx_state (x_txn c)"
    using w lock_for_write_state [of logging r c c1] l by (auto simp: log_write_def bind_Some_iff split: if_splits)
qed

text \<open>A slot without a live record.\<close>

lemma UpdateTuple_dead:
  assumes inv: "tp_inv d" and x: "ctx_ok logging x" and new: "t_size new \<noteq> 0" and v: "\<forall>bs. tp_view d (unat (SlotNum r)) \<noteq> Some (False, bs)"
  shows "\<exists>x'. UpdateTuple logging new idxs sch old r d x = Some ((False, None, None), old, d, x') \<and> ctx_ok logging x'"
proof -
  let ?s = "unat (SlotNum r)"
  obtain xa where xa: "abort_txn logging x = Some xa" "ctx_ok logging xa" using abort_txn_ok [OF x] by blast
  have lt: "SlotNum r \<ge> GetTupleCount d \<longleftrightarrow> \<not> ?s < cnt d" by (simp add: word_le_nat_alt not_less)
  show ?thesis
  proof (cases "?s < cnt d")
    case False
    then show ?thesis using xa lt new by (simp add: UpdateTuple_def GetSlotNum_def word_gt_0 Let_def)
  next
    case True
    have "IsDeleted (sz d ?s)" using v True by (auto simp: tp_view_def used_def IsDeleted_iff split: if_splits)
    then show ?thesis using True xa lt new slot_read [OF inv True] by (simp add: UpdateTuple_def GetSlotNum_def word_gt_0 Let_def)
  qed
qed

subsection \<open>Updating a record of the table\<close>

lemma update_access:
  assumes ok: "heap_ok nf ps s" and live: "tbl ps s r = Some (False, bs)" and new: "t_size new \<noteq> 0"
    and upd: "update_row idxs sch new (NewTuple (Some r) (of_nat (length bs)) bs) = Some u" and u: "wf_tuple u" "t_size u \<noteq> 0"
  defines "old \<equiv> NewTuple (Some r) (of_nat (length bs)) bs"
  shows "\<exists>f bp s1 d' s2 ok err follow. FetchPage (GetPageId r) (db_bpm s) = Some (Some f, bp) \<and>
    on_page f (update_page logging new idxs sch r) (s\<lparr>db_bpm := bp\<rparr>) = Some (((ok, err, follow), old), s1) \<and> page_bytes f s1 = Some d' \<and>
    unpin (GetTablePageId d') ok s1 = Some s2 \<and> heap_ok nf ps s2 \<and> txn_adds [] (db_txn s) (db_txn s2) \<and> npid s2 = npid s \<and>
    (if ok then err = None \<and> tbl ps s2 = (tbl ps s)(r \<mapsto> (False, t_data u)) \<and> assert_exclusive logging r (Some (db_ctx s2)) = Some () \<and>
       tx_state (db_txn s2) = tx_state (db_txn s)
     else tbl ps s2 = tbl ps s \<and> (err = Some ErrNotEnoughSpace \<and> follow = Some u \<and> length bs < unat (t_size u) \<or>
       err = None \<and> logging \<and> assert_exclusive logging r (Some (db_ctx s)) = None))"
proof -
  have r: "PageId r \<in> set ps" using live by (auto simp: heap_view_def split: if_splits)
  obtain d where d: "db_view s (PageId r) = Some d" "tp_inv d" "GetTablePageId d = PageId r" "tbl ps s r = tp_view d (unat (SlotNum r))"
      "page_chain (db_view s) ps" by (rule page_of [OF ok r])
  obtain f bp where f: "FetchPage (PageId r) (db_bpm s) = Some (Some f, bp)" "pool_ok {PageId r} nf bp" "held (PageId r) f d True bp"
      "view_kept (db_bpm s) bp" "ctx_ok logging (Some (db_ctx (s\<lparr>db_bpm := bp\<rparr>)))" "locks_in_sync (Some (db_ctx (s\<lparr>db_bpm := bp\<rparr>)))"
      "nextPageID (diskManager bp) = npid s"
    using fetch_page [OF ok r d(1)] by blast
  let ?x = "Some (db_ctx (s\<lparr>db_bpm := bp\<rparr>))" and ?s = "unat (SlotNum r)" and ?o = "tuple_zero\<lparr>t_rid := Some RID_zero\<rparr>"
  have v: "tp_view d ?s = Some (False, bs)" using live d(4) by simp
  obtain b err follow d' x' where m: "UpdateTuple logging new idxs sch ?o r d ?x = Some ((b, err, follow), old, d', x')"
      "tp_inv d'" "ctx_ok logging x'" "GetNextPageId d' = GetNextPageId d" "GetTablePageId d' = GetTablePageId d"
      "if b then err = None \<and> tp_view d' = (tp_view d)(?s \<mapsto> (False, t_data u))
       else d' = d \<and> (err = Some ErrNotEnoughSpace \<and> follow = Some u \<and> fsp d + length bs < 24 + 8 * cnt d + unat (t_size u) \<or> err = None \<and> logging)"
    using UpdateTuple_spec [OF d(2) f(5) new v upd u, of ?o] unfolding old_def by blast
  note st = UpdateTuple_step [OF m(1)] and sy = UpdateTuple_sync [OF m(1) f(6)]
  have m1: "update_page logging new idxs sch r d ?x = Some (((b, err, follow), old), d', x')" using m(1) by (simp add: update_page_def)
  have dirty: "b \<or> d' = d" using m(6) by (cases b) simp_all
  obtain s1 s2 c where a: "on_page f (update_page logging new idxs sch r) (s\<lparr>db_bpm := bp\<rparr>) = Some (((b, err, follow), old), s1)"
      "page_bytes f s1 = Some d'" "GetTablePageId d' = PageId r" "unpin (PageId r) b s1 = Some s2" "heap_ok nf ps s2"
      "put_page (PageId r) d' (db_view s) (db_view s2)" "x' = Some c" "db_txn s2 = x_txn c"
      "npid s2 = nextPageID (diskManager bp)"
    using access [where op = "update_page logging new idxs sch r", OF ok r d(1) f(1-4) m1 st m(3) sy m(2,5,4) dirty] by blast
  have ws: "txn_adds [] (db_txn s) (db_txn s2)" using st a(7,8) by (auto simp: ctx_step_def db_ctx_def)
  have "if b then err = None \<and> tbl ps s2 = (tbl ps s)(r \<mapsto> (False, t_data u)) \<and> assert_exclusive logging r (Some (db_ctx s2)) = Some () \<and>
       tx_state (db_txn s2) = tx_state (db_txn s)
     else tbl ps s2 = tbl ps s \<and> (err = Some ErrNotEnoughSpace \<and> follow = Some u \<and> length bs < unat (t_size u) \<or>
       err = None \<and> logging \<and> assert_exclusive logging r (Some (db_ctx s)) = None)"
  proof (cases b)
    case True
    then have "tbl ps s2 = (tbl ps s)(r \<mapsto> (False, t_data u))" using heap_view_put [OF d(5) r d(1) a(6), of "Some (False, t_data u)"] m(6) by simp
    moreover have "assert_exclusive logging r (Some c) = Some ()" "tx_state (x_txn c) = tx_state (db_txn s)"
      using UpdateTuple_owns [OF _ f(6), of logging new idxs sch ?o r d err follow old d' c] m(1) True a(7) by (simp_all add: db_ctx_def)
    moreover have "assert_exclusive logging r (Some (db_ctx s2)) = assert_exclusive logging r (Some c)"
      using a(8) by (simp add: assert_exclusive_def db_ctx_def)
    ultimately show ?thesis using True m(6) a(8) by simp
  next
    case False
    then have dd: "d' = d" using m(6) by simp
    have tb: "tbl ps s2 = tbl ps s" using heap_view_same [OF d(5) r d(1) a(6)] dd by simp
    have "assert_exclusive logging r (Some (db_ctx s)) = None" if "err = None"
    proof (rule ccontr)
      assume "assert_exclusive logging r (Some (db_ctx s)) \<noteq> None"
      then have "assert_exclusive logging r ?x = Some ()" by (auto simp: assert_exclusive_def db_ctx_def)
      then have "IsDeleted (the (GetTupleSize (SlotNum r) d)) \<or> GetTupleCount d \<le> SlotNum r"
        using UpdateTuple_owner [OF _ f(6), of logging new idxs sch ?o r d follow old d' x'] m(1) False that by simp
      then show False using v slot_read [OF d(2), of "SlotNum r"] by (auto simp: tp_view_def used_def IsDeleted_iff word_le_nat_alt split: if_splits)
    qed
    then show ?thesis using False m(6) tb tp_invD(2,3) [OF d(2)] by auto
  qed
  then show ?thesis using f(1,7) a ws by (auto simp: GetPageId_def)
qed

abbreviation owns :: "bool \<Rightarrow> rid \<Rightarrow> db \<Rightarrow> bool" where
  "owns logging r s \<equiv> assert_exclusive logging r (Some (db_ctx s)) = Some ()"

lemma owns_mono: "txn_adds ws (db_txn s) (db_txn s') \<Longrightarrow> owns logging r s \<Longrightarrow> owns logging r s'"
  by (auto simp: assert_exclusive_ok txn_adds_def IsExclusiveLocked_def db_ctx_def)

abbreviation wrote :: "WType \<Rightarrow> rid \<Rightarrow> tuple \<Rightarrow> pageID \<Rightarrow> WriteRecord" where
  "wrote w r t p \<equiv> \<lparr>wr_rid = r, wr_wtype = w, wr_tuple = t, wr_table = p\<rparr>"

text \<open>The outcomes of an update of the live record \<open>bs\<close> at \<open>r\<close> to \<open>new\<close>: in place, moved, or refused by the lock
  manager, before or after the old record was marked.\<close>

definition updated :: "nat \<Rightarrow> bool \<Rightarrow> rid \<Rightarrow> bytes \<Rightarrow> bytes \<Rightarrow> pageID list \<Rightarrow> db \<Rightarrow> bool \<times> rid option \<Rightarrow> pageID list \<Rightarrow> db \<Rightarrow> bool" where
  "updated nf logging r bs new ps s res ps' s' \<longleftrightarrow> (let upd = wrote W_UPDATE r (NewTuple (Some r) (of_nat (length bs)) bs) (hd ps) in
     if fst res then (case snd res of
       None \<Rightarrow> ps' = ps \<and> heap_ok nf ps s' \<and> tbl ps s' = (tbl ps s)(r \<mapsto> (False, new)) \<and> owns logging r s' \<and>
         txn_adds (if tx_state (db_txn s) \<noteq> ABORTED then [upd] else []) (db_txn s) (db_txn s')
     | Some q \<Rightarrow> heap_ok nf ps' s' \<and> tbl ps s q = None \<and> tbl ps' s' = (tbl ps s)(r \<mapsto> (True, bs), q \<mapsto> (False, new)) \<and> owns logging r s' \<and>
         owns logging q s' \<and> length bs < length new \<and>
         txn_adds ([wrote W_DELETE r tuple_zero (hd ps), wrote W_INSERT q tuple_zero (hd ps)] @ (if tx_state (db_txn s') \<noteq> ABORTED then [upd] else []))
           (db_txn s) (db_txn s'))
     else logging \<and> snd res = None \<and>
       (ps' = ps \<and> heap_ok nf ps s' \<and> tbl ps s' = tbl ps s \<and> txn_adds [] (db_txn s) (db_txn s') \<or>
        (3 \<le> nf \<longrightarrow> heap_ok (nf - 1) ps' s') \<and> tbl ps' s' = (tbl ps s)(r \<mapsto> (True, bs)) \<and> owns logging r s' \<and>
          txn_adds [wrote W_DELETE r tuple_zero (hd ps)] (db_txn s) (db_txn s')))"

lemma moved_update:
  assumes ok: "heap_ok nf ps s" and live: "tbl ps s r = Some (False, bs)" and np: "unat (npid s) < 524288"
    and u: "wf_tuple u" "t_size u \<noteq> 0" "unat (t_size u) \<le> 4064" and len: "length bs < unat (t_size u)"
  defines "old \<equiv> NewTuple (Some r) (of_nat (length bs)) bs"
  shows "\<exists>res ps' s'. do {
           (is_deleted, s) \<leftarrow> TH_MarkDelete logging (hd ps) r s;
           if \<not> is_deleted then Some ((False, None), set_state ABORTED s)
           else do {
             follow \<leftarrow> Some u;
             (res, s) \<leftarrow> TH_InsertTuple logging (hd ps) follow s;
             case res of
               Inl e \<Rightarrow> Some ((False, None), set_state ABORTED s)
             | Inr (new_rid, _) \<Rightarrow> Some ((True, Some new_rid),
                 if tx_state (db_txn s) \<noteq> ABORTED then add_write r W_UPDATE old (hd ps) s else s) } } = Some (res, s') \<and>
    (ps' = ps \<or> ps' = ps @ [npid s]) \<and> (fst res \<longleftrightarrow> snd res \<noteq> None) \<and> updated nf logging r bs (t_data u) ps s res ps' s'"
proof -
  have r: "PageId r \<in> set ps" using live by (auto simp: heap_view_def split: if_splits)
  obtain m s1 where m: "TH_MarkDelete logging (hd ps) r s = Some (m, s1)" "heap_ok nf ps s1" "npid s1 = npid s"
      "if m then \<exists>bs. tbl ps s r = Some (False, bs) \<and> tbl ps s1 = (tbl ps s)(r \<mapsto> (True, bs)) \<and>
        txn_adds [wrote W_DELETE r tuple_zero (hd ps)] (db_txn s) (db_txn s1) \<and> owns logging r s1
     else tbl ps s1 = tbl ps s \<and> txn_adds [] (db_txn s) (db_txn s1) \<and> (logging \<or> (\<forall>bs. tbl ps s r \<noteq> Some (False, bs)))"
    using TH_MarkDelete_spec [OF ok r, of logging "hd ps"] by blast
  show ?thesis
  proof (cases m)
    case False
    then show ?thesis using m live by (intro exI [of _ "(False, None)"] exI [of _ ps]) (auto simp: updated_def Let_def)
  next
    case True
    then have k: "tbl ps s1 = (tbl ps s)(r \<mapsto> (True, bs))" "txn_adds [wrote W_DELETE r tuple_zero (hd ps)] (db_txn s) (db_txn s1)" "owns logging r s1"
      using m(4) live by auto
    have np1: "unat (npid s1) < 524288" using np m(3) by simp
    obtain ri s2 ps' where i: "TH_InsertTuple logging (hd ps) u s1 = Some (ri, s2)" "ps' = ps \<or> ps' = ps @ [npid s1]"
      "case ri of
       Inr (q, t') \<Rightarrow> heap_ok nf ps' s2 \<and> PageId q \<in> set ps' \<and> t' = u\<lparr>t_rid := Some q\<rparr> \<and> tbl ps s1 q = None \<and>
         tbl ps' s2 = (tbl ps s1)(q \<mapsto> (False, t_data u)) \<and> owns logging q s2 \<and>
         txn_adds [wrote W_INSERT q tuple_zero (hd ps)] (db_txn s1) (db_txn s2)
     | Inl e \<Rightarrow> e = ErrLock \<and> logging \<and> tbl ps' s2 = tbl ps s1 \<and> txn_adds [] (db_txn s1) (db_txn s2) \<and> (3 \<le> nf \<longrightarrow> heap_ok (nf - 1) ps' s2)"
      using TH_InsertTuple_spec [OF m(2) np1 u, of logging] by blast
    show ?thesis
    proof (cases ri)
      case (Inl e)
      then have j: "logging" "tbl ps' s2 = tbl ps s1" "txn_adds [] (db_txn s1) (db_txn s2)" "3 \<le> nf \<longrightarrow> heap_ok (nf - 1) ps' s2" using i(3) by auto
      have "owns logging r s2" by (rule owns_mono [OF j(3) k(3)])
      then have "owns logging r (set_state ABORTED s2)" by (simp add: set_state_def SetState_def assert_exclusive_ok db_ctx_def IsExclusiveLocked_def)
      then show ?thesis
        using True Inl m(1,3) i j k(1) txn_adds_trans [OF k(2) j(3)]
        by (intro exI [of _ "(False, None)"] exI [of _ ps']) (simp add: updated_def Let_def)
    next
      case (Inr z)
      obtain q t' where z: "z = (q, t')" by (cases z)
      have j: "heap_ok nf ps' s2" "tbl ps s1 q = None" "tbl ps' s2 = (tbl ps s1)(q \<mapsto> (False, t_data u))" "owns logging q s2"
          "txn_adds [wrote W_INSERT q tuple_zero (hd ps)] (db_txn s1) (db_txn s2)"
        using i(3) Inr z by auto
      define s3 where "s3 = (if tx_state (db_txn s2) \<noteq> ABORTED then add_write r W_UPDATE old (hd ps) s2 else s2)"
      have a2: "txn_adds [wrote W_DELETE r tuple_zero (hd ps), wrote W_INSERT q tuple_zero (hd ps)] (db_txn s) (db_txn s2)"
        using txn_adds_trans [OF k(2) j(5)] by simp
      have ts: "tx_state (db_txn s3) = tx_state (db_txn s2)" by (simp add: s3_def add_write_def AddIntoWriteSet_def)
      have a3: "txn_adds (if tx_state (db_txn s2) \<noteq> ABORTED then [wrote W_UPDATE r old (hd ps)] else []) (db_txn s2) (db_txn s3)"
        by (simp add: s3_def)
      have h3: "heap_ok nf ps' s3" "db_bpm s3 = db_bpm s2" using j(1) by (simp_all add: s3_def)
      have o3: "owns logging r s3" "owns logging q s3" using owns_mono [OF a3] owns_mono [OF j(5) k(3)] j(4) by blast+
      have "tbl ps s q = None" using j(2) k(1) by (auto split: if_splits)
      moreover have "length bs < length (t_data u)" using len u(1) by (simp add: wf_tuple_def)
      ultimately have "updated nf logging r bs (t_data u) ps s (True, Some q) ps' s3"
        using h3 o3 j(3) k(1) txn_adds_trans [OF a2 a3] ts
        by (cases "tx_state (db_txn s2) = ABORTED") (simp_all add: updated_def Let_def old_def)
      then show ?thesis
        using True Inr z m(1,3) i(1,2) by (intro exI [of _ "(True, Some q)"] exI [of _ ps'] exI [of _ s3]) (simp add: s3_def)
    qed
  qed
qed

lemma TH_UpdateTuple_spec:
  assumes ok: "heap_ok nf ps s" and live: "tbl ps s r = Some (False, bs)" and new: "t_size new \<noteq> 0" and np: "unat (npid s) < 524288"
    and upd: "update_row idxs sch new (NewTuple (Some r) (of_nat (length bs)) bs) = Some u"
    and u: "wf_tuple u" "t_size u \<noteq> 0" "unat (t_size u) \<le> 4064"
  shows "\<exists>res ps' s'. TH_UpdateTuple logging (hd ps) new idxs sch r s = Some (res, s') \<and> (ps' = ps \<or> ps' = ps @ [npid s]) \<and>
    updated nf logging r bs (t_data u) ps s res ps' s' \<and>
    (unat (t_size u) \<le> length bs \<longrightarrow> snd res = None \<and> (owns logging r s \<longrightarrow> fst res))"
proof -
  define old where "old = NewTuple (Some r) (of_nat (length bs)) bs"
  obtain f bp s1 d' s2 b err follow where a: "FetchPage (GetPageId r) (db_bpm s) = Some (Some f, bp)"
      "on_page f (update_page logging new idxs sch r) (s\<lparr>db_bpm := bp\<rparr>) = Some (((b, err, follow), old), s1)" "page_bytes f s1 = Some d'"
      "unpin (GetTablePageId d') b s1 = Some s2" "heap_ok nf ps s2" "txn_adds [] (db_txn s) (db_txn s2)" "npid s2 = npid s"
      "if b then err = None \<and> tbl ps s2 = (tbl ps s)(r \<mapsto> (False, t_data u)) \<and> owns logging r s2 \<and> tx_state (db_txn s2) = tx_state (db_txn s)
       else tbl ps s2 = tbl ps s \<and> (err = Some ErrNotEnoughSpace \<and> follow = Some u \<and> length bs < unat (t_size u) \<or>
         err = None \<and> logging \<and> assert_exclusive logging r (Some (db_ctx s)) = None)"
    using update_access [OF ok live new upd u(1,2), of logging] unfolding old_def by blast
  consider (inplace) "b" | (move) "\<not> b" "err = Some ErrNotEnoughSpace" | (refused) "\<not> b" "err = None" using a(8) by (cases b) auto
  then show ?thesis
  proof cases
    case inplace
    define s3 where "s3 = (if tx_state (db_txn s2) \<noteq> ABORTED then add_write r W_UPDATE old (hd ps) s2 else s2)"
    have "TH_UpdateTuple logging (hd ps) new idxs sch r s = Some ((True, None), s3)"
      using a(1-4) inplace by (simp add: TH_UpdateTuple_def Let_def s3_def)
    moreover have a3: "txn_adds (if tx_state (db_txn s2) \<noteq> ABORTED then [wrote W_UPDATE r old (hd ps)] else []) (db_txn s2) (db_txn s3)"
      by (simp add: s3_def)
    moreover have "heap_ok nf ps s3" "db_bpm s3 = db_bpm s2" using a(5) by (simp_all add: s3_def)
    moreover have "owns logging r s3" using owns_mono [OF a3] a(8) inplace by simp
    ultimately show ?thesis
      using a(8) inplace txn_adds_trans1 [OF a(6) a3]
      by (intro exI [of _ "(True, None)"] exI [of _ ps] exI [of _ s3], cases "tx_state (db_txn s) = ABORTED")
        (simp_all add: updated_def old_def)
  next
    case move
    then have e: "follow = Some u" "length bs < unat (t_size u)" "tbl ps s2 = tbl ps s" using a(8) by auto
    have l2: "tbl ps s2 r = Some (False, bs)" "unat (npid s2) < 524288" using live e(3) np a(7) by simp_all
    obtain res ps' s' where m: "do {
           (is_deleted, s) \<leftarrow> TH_MarkDelete logging (hd ps) r s2;
           if \<not> is_deleted then Some ((False, None), set_state ABORTED s)
           else do {
             follow \<leftarrow> Some u;
             (res, s) \<leftarrow> TH_InsertTuple logging (hd ps) follow s;
             case res of
               Inl e \<Rightarrow> Some ((False, None), set_state ABORTED s)
             | Inr (new_rid, _) \<Rightarrow> Some ((True, Some new_rid),
                 if tx_state (db_txn s) \<noteq> ABORTED then add_write r W_UPDATE old (hd ps) s else s) } } = Some (res, s')"
        "ps' = ps \<or> ps' = ps @ [npid s2]" "fst res \<longleftrightarrow> snd res \<noteq> None" "updated nf logging r bs (t_data u) ps s2 res ps' s'"
      using moved_update [OF a(5) l2 u e(2), of logging, folded old_def] by blast
    have run: "TH_UpdateTuple logging (hd ps) new idxs sch r s = Some (res, s')"
      unfolding m(1) [symmetric] using a(1-4) move e(1) by (simp add: TH_UpdateTuple_def Let_def)
    have "updated nf logging r bs (t_data u) ps s res ps' s'"
      using m(3,4) e(3) txn_adds_trans1 [OF a(6)] by (cases "snd res") (auto simp: updated_def Let_def split: if_splits)
    then show ?thesis using run m(2) a(7) e(2) by (intro exI [of _ res] exI [of _ ps'] exI [of _ s']) simp
  next
    case refused
    then have "logging" "tbl ps s2 = tbl ps s" "\<not> owns logging r s" using a(8) by auto
    then show ?thesis
      using a(1-7) refused by (intro exI [of _ "(False, None)"] exI [of _ ps] exI [of _ s2]) (simp add: TH_UpdateTuple_def Let_def updated_def)
  qed
qed

text \<open>Updating a record that is marked as deleted, or not there, fails and changes nothing.\<close>

lemma TH_UpdateTuple_dead:
  assumes ok: "heap_ok nf ps s" and r: "PageId r \<in> set ps" and dead: "\<forall>bs. tbl ps s r \<noteq> Some (False, bs)" and new: "t_size new \<noteq> 0"
  shows "\<exists>s'. TH_UpdateTuple logging first new idxs sch r s = Some ((False, None), s') \<and> heap_ok nf ps s' \<and> tbl ps s' = tbl ps s \<and>
    txn_adds [] (db_txn s) (db_txn s')"
proof -
  obtain d where d: "db_view s (PageId r) = Some d" "tp_inv d" "GetTablePageId d = PageId r" "tbl ps s r = tp_view d (unat (SlotNum r))"
      "page_chain (db_view s) ps" by (rule page_of [OF ok r])
  obtain f bp where f: "FetchPage (PageId r) (db_bpm s) = Some (Some f, bp)" "pool_ok {PageId r} nf bp" "held (PageId r) f d True bp"
      "view_kept (db_bpm s) bp" "ctx_ok logging (Some (db_ctx (s\<lparr>db_bpm := bp\<rparr>)))" "locks_in_sync (Some (db_ctx (s\<lparr>db_bpm := bp\<rparr>)))"
    using fetch_page [OF ok r d(1)] by blast
  let ?x = "Some (db_ctx (s\<lparr>db_bpm := bp\<rparr>))" and ?o = "tuple_zero\<lparr>t_rid := Some RID_zero\<rparr>"
  obtain x' where m: "UpdateTuple logging new idxs sch ?o r d ?x = Some ((False, None, None), ?o, d, x')" "ctx_ok logging x'"
    using UpdateTuple_dead [OF d(2) f(5) new, of r idxs sch ?o] dead d(4) by auto
  have m1: "update_page logging new idxs sch r d ?x = Some (((False, None, None), ?o), d, x')" using m(1) by (simp add: update_page_def)
  obtain s1 s2 c where a: "on_page f (update_page logging new idxs sch r) (s\<lparr>db_bpm := bp\<rparr>) = Some (((False, None, None), ?o), s1)"
      "page_bytes f s1 = Some d" "GetTablePageId d = PageId r" "unpin (PageId r) False s1 = Some s2" "heap_ok nf ps s2"
      "put_page (PageId r) d (db_view s) (db_view s2)" "x' = Some c" "db_txn s2 = x_txn c"
    using access [where op = "update_page logging new idxs sch r", OF ok r d(1) f(1-4) m1 UpdateTuple_step [OF m(1)] m(2)
        UpdateTuple_sync [OF m(1) f(6)] d(2) refl refl, of False] by blast
  have "txn_adds [] (db_txn s) (db_txn s2)" using UpdateTuple_step [OF m(1)] a(7,8) by (auto simp: ctx_step_def db_ctx_def)
  then show ?thesis
    using f(1) a heap_view_same [OF d(5) r d(1) a(6) refl] by (simp add: TH_UpdateTuple_def GetPageId_def Let_def)
qed

text \<open>When the new contents are no longer than the old ones and the record is locked, the update is in place.\<close>

lemma TH_UpdateTuple_inplace:
  assumes ok: "heap_ok nf ps s" and live: "tbl ps s r = Some (False, bs)" and t: "wf_tuple t" "t_size t \<noteq> 0" and len: "unat (t_size t) \<le> length bs"
    and own: "owns logging r s"
  shows "\<exists>s' ws. TH_UpdateTuple logging first t None None r s = Some ((True, None), s') \<and> heap_ok nf ps s' \<and>
    tbl ps s' = (tbl ps s)(r \<mapsto> (False, t_data t)) \<and> txn_adds ws (db_txn s) (db_txn s')"
proof -
  define old where "old = NewTuple (Some r) (of_nat (length bs)) bs"
  obtain f bp s1 d' s2 b err follow where a: "FetchPage (GetPageId r) (db_bpm s) = Some (Some f, bp)"
      "on_page f (update_page logging t None None r) (s\<lparr>db_bpm := bp\<rparr>) = Some (((b, err, follow), old), s1)" "page_bytes f s1 = Some d'"
      "unpin (GetTablePageId d') b s1 = Some s2" "heap_ok nf ps s2" "txn_adds [] (db_txn s) (db_txn s2)" "npid s2 = npid s"
      "if b then err = None \<and> tbl ps s2 = (tbl ps s)(r \<mapsto> (False, t_data t)) \<and> owns logging r s2 \<and> tx_state (db_txn s2) = tx_state (db_txn s)
       else tbl ps s2 = tbl ps s \<and> (err = Some ErrNotEnoughSpace \<and> follow = Some t \<and> length bs < unat (t_size t) \<or>
         err = None \<and> logging \<and> assert_exclusive logging r (Some (db_ctx s)) = None)"
    using update_access [OF ok live t(2) update_row_all t, of logging] unfolding old_def by blast
  have b: "b" using a(8) len own by (auto split: if_splits)
  define s3 where "s3 = (if tx_state (db_txn s2) \<noteq> ABORTED then add_write r W_UPDATE old first s2 else s2)"
  have "TH_UpdateTuple logging first t None None r s = Some ((True, None), s3)"
    using a(1-4) b by (simp add: TH_UpdateTuple_def Let_def s3_def)
  moreover have a3: "txn_adds (if tx_state (db_txn s2) \<noteq> ABORTED then [wrote W_UPDATE r old first] else []) (db_txn s2) (db_txn s3)"
    by (simp add: s3_def)
  moreover have "heap_ok nf ps s3" "db_bpm s3 = db_bpm s2" using a(5) by (simp_all add: s3_def)
  ultimately show ?thesis using a(8) b txn_adds_trans1 [OF a(6) a3] by auto
qed

subsection \<open>Property\<close>

text \<open>C8: updating a live record ends.  It is done in place, or (when the new contents are longer and the page is full)
  the old record is marked as deleted and the new contents are stored under another, free record id, or it is
  refused by the lock manager; no other record changes.\<close>

theorem table_update:
  assumes "heap_ok nf ps s" and "tbl ps s r = Some (False, bs)" and "t_size new \<noteq> 0" and "page_left s"
    and "update_row idxs sch new (NewTuple (Some r) (of_nat (length bs)) bs) = Some u" and "insertable u"
  shows "\<exists>ok nr ps' s'. TH_UpdateTuple logging (hd ps) new idxs sch r s = Some ((ok, nr), s') \<and> (ps' = ps \<or> ps' = ps @ [npid s]) \<and>
    (if ok then (case nr of
       None \<Rightarrow> ps' = ps \<and> heap_ok nf ps s' \<and> tbl ps s' = (tbl ps s)(r \<mapsto> (False, t_data u))
     | Some q \<Rightarrow> length bs < length (t_data u) \<and> heap_ok nf ps' s' \<and> tbl ps s q = None \<and> tbl ps' s' = (tbl ps s)(r \<mapsto> (True, bs), q \<mapsto> (False, t_data u)))
     else logging \<and> (tbl ps' s' = tbl ps s \<or> tbl ps' s' = (tbl ps s)(r \<mapsto> (True, bs))))"
proof -
  have t: "unat (npid s) < 524288" "wf_tuple u" "t_size u \<noteq> 0" "unat (t_size u) \<le> 4064" using assms(4,6) by (simp_all add: page_left_def insertable_def)
  obtain res ps' s' where u: "TH_UpdateTuple logging (hd ps) new idxs sch r s = Some (res, s')" "ps' = ps \<or> ps' = ps @ [npid s]"
      "updated nf logging r bs (t_data u) ps s res ps' s'"
    using TH_UpdateTuple_spec [OF assms(1-3) t(1) assms(5) t(2-4), of logging] by blast
  obtain ok nr where res: "res = (ok, nr)" by (cases res)
  show ?thesis
    using u unfolding res
    by (intro exI [of _ ok] exI [of _ nr] exI [of _ ps'] exI [of _ s']) (cases nr; auto simp: updated_def Let_def split: if_splits)
qed

theorem table_update_witness:
  "\<exists>r s ps s'. TH_InsertTuple False 0 example_tuple example_heap = Some (Inr (r, example_tuple\<lparr>t_rid := Some r\<rparr>), s) \<and>
     TH_UpdateTuple False 0 (NewTuple None 2 [8, 9]) None None r s = Some ((True, None), s') \<and> tbl ps s' r = Some (False, [8, 9])"
proof (rule example_filled)
  fix r s ps
  assume a: "TH_InsertTuple False 0 example_tuple example_heap = Some (Inr (r, example_tuple\<lparr>t_rid := Some r\<rparr>), s)" "heap_ok 8 ps s"
    "tbl ps s = [r \<mapsto> (False, [1, 2, 3])]" "hd ps = 0" and np: "page_left s"
  let ?new = "NewTuple None 2 [8, 9]"
  have l: "tbl ps s r = Some (False, [1, 2, 3])" using a(3) by simp
  have t: "t_size ?new \<noteq> 0" "insertable ?new" "t_data ?new = [8, 9]" by (simp_all add: NewTuple_def insertable_def wf_tuple_def)
  obtain ok nr ps' s' where u: "TH_UpdateTuple False 0 ?new None None r s = Some ((ok, nr), s')"
    "if ok then (case nr of
       None \<Rightarrow> ps' = ps \<and> heap_ok 8 ps s' \<and> tbl ps s' = (tbl ps s)(r \<mapsto> (False, t_data ?new))
     | Some q \<Rightarrow> length [1 :: 8 word, 2, 3] < length (t_data ?new) \<and> heap_ok 8 ps' s' \<and> tbl ps s q = None \<and>
         tbl ps' s' = (tbl ps s)(r \<mapsto> (True, [1, 2, 3]), q \<mapsto> (False, t_data ?new)))
     else False \<and> (tbl ps' s' = tbl ps s \<or> tbl ps' s' = (tbl ps s)(r \<mapsto> (True, [1, 2, 3])))"
    using table_update [OF a(2) l t(1) np update_row_all t(2), of False] unfolding a(4) by blast
  have "ok" "nr = None" using u(2) t(3) by (cases ok; cases nr; simp)+
  then have "tbl ps s' r = Some (False, [8, 9])" using u(2) t(3) by simp
  then show ?thesis using u(1) a(1) \<open>ok\<close> \<open>nr = None\<close> by auto
qed

end
