(* ===== verification/Transaction_Manager.thy ===== *)
theory Transaction_Manager
  imports Table_Heap_Update
begin

text \<open>
  \<^verbatim>\<open>storage/access/transaction_manager.go\<close>: beginning, committing and aborting a transaction.  \<open>db_txn\<close> is
  the transaction at hand; the log manager and the disk are the ones of the buffer pool.  The invariant
  \<open>txn_inv\<close> says that the write set, read backwards, undoes everything the transaction has done to the table.
\<close>

subsection \<open>The transaction manager\<close>

text \<open>The global latch is a \<^verbatim>\<open>sync.RWMutex\<close>: \<open>None\<close> where the call would wait, or where unlocking is a fatal error.
  Of \<^verbatim>\<open>txn_map\<close>, which is never read, the model keeps the keys.\<close>

record TransactionManager =
  next_txn_id :: txnID
  latch_readers :: nat
  latch_writer :: bool
  txn_map :: "txnID set"

definition NewTransactionManager :: TransactionManager where
  "NewTransactionManager = \<lparr>next_txn_id = 0, latch_readers = 0, latch_writer = False, txn_map = {}\<rparr>"

definition RLock :: "TransactionManager \<Rightarrow> TransactionManager option" where
  "RLock tm = (if latch_writer tm then None else Some (tm\<lparr>latch_readers := latch_readers tm + 1\<rparr>))"

definition RUnlock :: "TransactionManager \<Rightarrow> TransactionManager option" where
  "RUnlock tm = (if latch_readers tm = 0 then None else Some (tm\<lparr>latch_readers := latch_readers tm - 1\<rparr>))"

definition WLock :: "TransactionManager \<Rightarrow> TransactionManager option" where
  "WLock tm = (if latch_writer tm \<or> latch_readers tm \<noteq> 0 then None else Some (tm\<lparr>latch_writer := True\<rparr>))"

definition WUnlock :: "TransactionManager \<Rightarrow> TransactionManager option" where
  "WUnlock tm = (if latch_writer tm then Some (tm\<lparr>latch_writer := False\<rparr>) else None)"

definition BlockAllTransactions :: "TransactionManager \<Rightarrow> TransactionManager option" where
  "BlockAllTransactions tm = WLock tm"

definition ResumeTransactions :: "TransactionManager \<Rightarrow> TransactionManager option" where
  "ResumeTransactions tm = WUnlock tm"

text \<open>The record of a transaction's own state change: append it and page_chain it to the transaction.\<close>

definition log_txn :: "bool \<Rightarrow> LogRecordType \<Rightarrow> Transaction \<Rightarrow> BufferPool \<Rightarrow> (Transaction \<times> BufferPool) option" where
  "log_txn logging ty txn bp =
     (if logging then do {
        (lr, lm, d) \<leftarrow> AppendLogRecord (NewLogRecordTxn (txn_id txn) (prev_lsn txn) ty) (log_manager bp) (diskManager bp);
        Some (txn\<lparr>prev_lsn := Lsn lr\<rparr>, bp\<lparr>log_manager := lm, diskManager := d\<rparr>) }
      else Some (txn, bp))"

definition Begin :: "bool \<Rightarrow> Transaction option \<Rightarrow> TransactionManager \<Rightarrow> BufferPool \<Rightarrow> (Transaction \<times> TransactionManager \<times> BufferPool) option" where
  "Begin logging txn tm bp = do {
     tm \<leftarrow> RLock tm;
     let (txn_ret, tm) = (case txn of
         Some t \<Rightarrow> (t, tm)
       | None \<Rightarrow> let tm = tm\<lparr>next_txn_id := next_txn_id tm + 1\<rparr> in (NewTransaction (next_txn_id tm), tm));
     (txn_ret, bp) \<leftarrow> log_txn logging BEGIN txn_ret bp;
     Some (txn_ret, tm\<lparr>txn_map := insert (txn_id txn_ret) (txn_map tm)\<rparr>, bp) }"

text \<open>\<^verbatim>\<open>FetchPage\<close> and \<^verbatim>\<open>ApplyDelete\<close>, without giving the page back.\<close>

definition apply_delete_pinned :: "bool \<Rightarrow> rid \<Rightarrow> db \<Rightarrow> db option" where
  "apply_delete_pinned logging r s = do {
     (f, s) \<leftarrow> get_frame (FetchPage (GetPageId r) (db_bpm s)) s;
     (_, s) \<leftarrow> on_page f (unit_op (ApplyDelete logging r)) s;
     Some s }"

fun commit_items :: "bool \<Rightarrow> WriteRecord list \<Rightarrow> db \<Rightarrow> db option" where
  "commit_items logging [] s = Some s"
| "commit_items logging (item # ws) s = do {
     s \<leftarrow> (if wr_wtype item = W_DELETE then apply_delete_pinned logging (wr_rid item) s else Some s);
     commit_items logging ws s }"

definition abort_item :: "bool \<Rightarrow> WriteRecord \<Rightarrow> db \<Rightarrow> db option" where
  "abort_item logging item s = (case wr_wtype item of
     W_DELETE \<Rightarrow> TH_RollbackDelete logging (wr_rid item) s
   | W_INSERT \<Rightarrow> apply_delete_pinned logging (wr_rid item) s
   | W_UPDATE \<Rightarrow> do {
       (_, s) \<leftarrow> TH_UpdateTuple logging (wr_table item) (wr_tuple item) None None (wr_rid item) s;
       Some s })"

fun abort_items :: "bool \<Rightarrow> WriteRecord list \<Rightarrow> db \<Rightarrow> db option" where
  "abort_items logging [] s = Some s"
| "abort_items logging (item # ws) s = do {
     s \<leftarrow> abort_item logging item s;
     abort_items logging ws s }"

definition releaseLocks :: "db \<Rightarrow> db" where
  "releaseLocks s = s\<lparr>db_locks := snd (Unlock (db_txn s) (exclusive_lock_set (db_txn s) @ shared_lock_set (db_txn s)) (db_locks s))\<rparr>"

definition SetWriteSet :: "WriteRecord list \<Rightarrow> db \<Rightarrow> db" where
  "SetWriteSet ws s = s\<lparr>db_txn := (db_txn s)\<lparr>write_set := ws\<rparr>\<rparr>"

text \<open>The loops take the last element of a local copy of the write set until it is empty.\<close>

definition commit_log :: "bool \<Rightarrow> db \<Rightarrow> db option" where
  "commit_log logging s =
     (if logging then do {
        (txn, bp) \<leftarrow> log_txn logging COMMIT (db_txn s) (db_bpm s);
        (lm, d) \<leftarrow> Flush (log_manager bp) (diskManager bp);
        Some (s\<lparr>db_txn := txn, db_bpm := bp\<lparr>log_manager := lm, diskManager := d\<rparr>\<rparr>) }
      else Some s)"

definition Commit :: "bool \<Rightarrow> TransactionManager \<Rightarrow> db \<Rightarrow> (TransactionManager \<times> db) option" where
  "Commit logging tm s = do {
     let s = set_state COMMITTED s;
     s \<leftarrow> commit_items logging (rev (write_set (db_txn s))) s;
     let s = SetWriteSet [] s;
     s \<leftarrow> commit_log logging s;
     let s = releaseLocks s;
     tm \<leftarrow> RUnlock tm;
     Some (tm, s) }"

definition Abort :: "bool \<Rightarrow> TransactionManager \<Rightarrow> db \<Rightarrow> (TransactionManager \<times> db) option" where
  "Abort logging tm s = do {
     let s = set_state ABORTED s;
     s \<leftarrow> abort_items logging (rev (write_set (db_txn s))) s;
     let s = SetWriteSet [] s;
     (txn, bp) \<leftarrow> log_txn logging ABORT (db_txn s) (db_bpm s);
     let s = s\<lparr>db_txn := txn, db_bpm := bp\<rparr>;
     let s = releaseLocks s;
     tm \<leftarrow> RUnlock tm;
     Some (tm, s) }"

subsection \<open>The write set as an undo log\<close>

type_synonym tview = "rid \<Rightarrow> (bool \<times> bytes) option"

definition undo_write :: "WriteRecord \<Rightarrow> tview \<Rightarrow> tview" where
  "undo_write w v = (let r = wr_rid w in case wr_wtype w of
     W_INSERT \<Rightarrow> v(r := None)
   | W_DELETE \<Rightarrow> (case v r of Some (b, bs) \<Rightarrow> v(r \<mapsto> (False, bs)) | None \<Rightarrow> v)
   | W_UPDATE \<Rightarrow> (case v r of Some (b, bs) \<Rightarrow> if b then v else v(r \<mapsto> (False, t_data (wr_tuple w))) | None \<Rightarrow> v))"

definition undo_ok :: "WriteRecord \<Rightarrow> tview \<Rightarrow> bool" where
  "undo_ok w v \<longleftrightarrow> v (wr_rid w) \<noteq> None \<and> (wr_wtype w = W_UPDATE \<longrightarrow> wf_tuple (wr_tuple w) \<and> t_size (wr_tuple w) \<noteq> 0 \<and>
     (\<forall>bs. v (wr_rid w) = Some (False, bs) \<longrightarrow> unat (t_size (wr_tuple w)) \<le> length bs))"

fun undoable :: "WriteRecord list \<Rightarrow> tview \<Rightarrow> bool" where
  "undoable [] v = True"
| "undoable (w # ws) v = (undo_ok w v \<and> undoable ws (undo_write w v))"

definition dels :: "WriteRecord list \<Rightarrow> rid list" where
  "dels ws = map wr_rid (filter (\<lambda>w. wr_wtype w = W_DELETE) ws)"

definition inserts :: "WriteRecord list \<Rightarrow> nat" where
  "inserts ws = length (filter (\<lambda>w. wr_wtype w = W_INSERT) ws)"

text \<open>\<open>v0\<close> is the table before the transaction.\<close>

definition txn_inv :: "bool \<Rightarrow> pageID list \<Rightarrow> tview \<Rightarrow> db \<Rightarrow> bool" where
  "txn_inv logging ps v0 s \<longleftrightarrow> (let ws = write_set (db_txn s) in
     undoable (rev ws) (tbl ps s) \<and> fold undo_write (rev ws) (tbl ps s) = v0 \<and> (\<forall>w \<in> set ws. owns logging (wr_rid w) s) \<and>
     distinct (dels ws) \<and> (\<forall>r \<in> set (dels ws). \<exists>bs. tbl ps s r = Some (True, bs)))"

subsection \<open>One item of the loops\<close>

lemma apply_delete_pinned_spec:
  assumes ok: "heap_ok (Suc nf) ps s" and nf: "2 \<le> nf" and own: "owns logging r s" and v: "tbl ps s r \<noteq> None"
  shows "\<exists>s'. apply_delete_pinned logging r s = Some s' \<and> heap_ok nf ps s' \<and> tbl ps s' = (tbl ps s)(r := None) \<and>
    txn_adds [] (db_txn s) (db_txn s')"
proof -
  have r: "PageId r \<in> set ps" using v by (auto simp: heap_view_def split: if_splits)
  have ch: "page_chain (db_view s) ps" using ok by (simp add: heap_ok_def)
  obtain f d s1 where f: "get_frame (FetchPage (PageId r) (db_bpm s)) s = Some (f, s1)" "at_page (Suc nf) ps (PageId r) f d True s1"
      "same_view (db_view s) (db_view s1)" "db_txn s1 = db_txn s" "db_locks s1 = db_locks s"
    using at_fetch [OF ok r] by blast
  note A = at_pageD [OF f(2)] and tb = chain_same(2) [OF ch f(3)]
  have own1: "assert_exclusive logging r (Some (db_ctx s1)) = Some ()" using own f(4) by (auto simp: assert_exclusive_ok db_ctx_def)
  have u: "used d (unat (SlotNum r))" using v tb A(2,6) view_unused [of d "unat (SlotNum r)"] by (auto simp: heap_view_def fun_eq_iff split: if_splits)
  obtain d' x' where m: "ApplyDelete logging r d (Some (db_ctx s1)) = Some (d', x')" "tp_inv d'" "ctx_ok logging x'"
      "tp_view d' = (tp_view d)(unat (SlotNum r) := None)" "GetNextPageId d' = GetNextPageId d" "GetTablePageId d' = GetTablePageId d"
    using ApplyDelete_spec [OF A(7) A(11) [of logging] u own1] by blast
  have m1: "unit_op (ApplyDelete logging r) d (Some (db_ctx s1)) = Some ((), d', x')" using m(1) by (simp add: unit_op_def)
  note st = ApplyDelete_step [OF m(1)]
  obtain s2 c where s2: "on_page f (unit_op (ApplyDelete logging r)) s1 = Some ((), s2)" "at_page (Suc nf) ps (PageId r) f d' (True \<and> d' = d) s2"
      "put_page (PageId r) d' (db_view s1) (db_view s2)" "x' = Some c" "db_ctx s2 = c"
    using at_on_page [where op = "unit_op (ApplyDelete logging r)", OF f(2) m1 st m(3) ApplyDelete_sync [OF m(1) A(5)] m(2,6,5)] by auto
  have "heap_ok nf ps s2" using at_leak [OF s2(2)] nf by simp
  moreover have "tbl ps s2 = (tbl ps s)(r := None)" using heap_view_put [OF A(1,2,6) s2(3) m(4)] tb by simp
  moreover have "txn_adds [] (db_txn s) (db_txn s2)" using st s2(4,5) f(4) by (auto simp: ctx_step_def db_ctx_def)
  ultimately show ?thesis using f(1) s2(1) by (simp add: apply_delete_pinned_def GetPageId_def)
qed

lemma undo_update_spec:
  assumes ok: "heap_ok nf ps s" and own: "owns logging r s" and u: "undo_ok w (tbl ps s)" "wr_wtype w = W_UPDATE" "wr_rid w = r"
  shows "\<exists>res s' ws. TH_UpdateTuple logging first (wr_tuple w) None None r s = Some (res, s') \<and> heap_ok nf ps s' \<and>
    tbl ps s' = undo_write w (tbl ps s) \<and> txn_adds ws (db_txn s) (db_txn s')"
proof -
  let ?t = "wr_tuple w"
  have t: "wf_tuple ?t" "t_size ?t \<noteq> 0" using u by (auto simp: undo_ok_def)
  have r: "PageId r \<in> set ps" using u by (auto simp: undo_ok_def heap_view_def split: if_splits)
  show ?thesis
  proof (cases "\<exists>bs. tbl ps s r = Some (False, bs)")
    case False
    then have "undo_write w (tbl ps s) = tbl ps s" using u(2,3) by (auto simp: undo_write_def Let_def split: option.splits)
    then show ?thesis using TH_UpdateTuple_dead [OF ok r _ t(2)] False by fastforce
  next
    case True
    then obtain bs where bs: "tbl ps s r = Some (False, bs)" by blast
    have len: "unat (t_size ?t) \<le> length bs" using u bs by (auto simp: undo_ok_def)
    have "undo_write w (tbl ps s) = (tbl ps s)(r \<mapsto> (False, t_data ?t))" using u(2,3) bs by (simp add: undo_write_def Let_def)
    then show ?thesis using TH_UpdateTuple_inplace [OF ok bs t len own, of first] by fastforce
  qed
qed

lemma abort_item_spec:
  assumes ok: "heap_ok nf ps s" and own: "owns logging (wr_rid w) s" and u: "undo_ok w (tbl ps s)"
    and nf: "wr_wtype w = W_INSERT \<Longrightarrow> 3 \<le> nf"
  shows "\<exists>s' ws. abort_item logging w s = Some s' \<and> heap_ok (if wr_wtype w = W_INSERT then nf - 1 else nf) ps s' \<and>
    tbl ps s' = undo_write w (tbl ps s) \<and> txn_adds ws (db_txn s) (db_txn s')"
proof (cases "wr_wtype w")
  case W_INSERT
  then have "heap_ok (Suc (nf - 1)) ps s" "2 \<le> nf - 1" using ok nf by simp_all
  then show ?thesis
    using apply_delete_pinned_spec [OF _ _ own] u W_INSERT by (fastforce simp: abort_item_def undo_ok_def undo_write_def Let_def)
next
  case W_DELETE
  obtain b bs where b: "tbl ps s (wr_rid w) = Some (b, bs)" using u by (auto simp: undo_ok_def)
  have r: "PageId (wr_rid w) \<in> set ps" using b by (auto simp: heap_view_def split: if_splits)
  show ?thesis
    using TH_RollbackDelete_spec [OF ok r own b] W_DELETE b by (fastforce simp: abort_item_def undo_write_def Let_def)
next
  case W_UPDATE
  show ?thesis using undo_update_spec [OF ok own u W_UPDATE refl, of "wr_table w"] W_UPDATE by (fastforce simp: abort_item_def)
qed

lemma abort_items_spec:
  assumes "heap_ok nf ps s" and "undoable ws (tbl ps s)" and "\<forall>w \<in> set ws. owns logging (wr_rid w) s" and "inserts ws + 2 \<le> nf"
  shows "\<exists>s' us. abort_items logging ws s = Some s' \<and> heap_ok (nf - inserts ws) ps s' \<and> tbl ps s' = fold undo_write ws (tbl ps s) \<and>
    txn_adds us (db_txn s) (db_txn s')"
  using assms
proof (induction ws arbitrary: nf s)
  case Nil
  then show ?case by (auto simp: inserts_def intro: txn_adds_refl)
next
  case (Cons w ws)
  let ?nf = "if wr_wtype w = W_INSERT then nf - 1 else nf"
  have n: "inserts (w # ws) = (if wr_wtype w = W_INSERT then Suc (inserts ws) else inserts ws)" by (simp add: inserts_def)
  obtain s1 us where s1: "abort_item logging w s = Some s1" "heap_ok ?nf ps s1" "tbl ps s1 = undo_write w (tbl ps s)" "txn_adds us (db_txn s) (db_txn s1)"
    using abort_item_spec [OF Cons.prems(1), of logging w] Cons.prems(2-4) n by (auto split: if_splits)
  have "\<forall>w \<in> set ws. owns logging (wr_rid w) s1" using Cons.prems(3) owns_mono [OF s1(4)] by simp
  moreover have "undoable ws (tbl ps s1)" using Cons.prems(2) s1(3) by simp
  moreover have "inserts ws + 2 \<le> ?nf" using Cons.prems(4) n by (auto split: if_splits)
  ultimately obtain s2 us2 where "abort_items logging ws s1 = Some s2" "heap_ok (?nf - inserts ws) ps s2"
      "tbl ps s2 = fold undo_write ws (tbl ps s1)" "txn_adds us2 (db_txn s1) (db_txn s2)"
    using Cons.IH [OF s1(2)] by blast
  moreover have "?nf - inserts ws = nf - inserts (w # ws)" using n by simp
  ultimately show ?case using s1(1,3) txn_adds_trans [OF s1(4)] by fastforce
qed

text \<open>Committing applies the deletions.\<close>

lemma commit_items_spec:
  assumes "heap_ok nf ps s" and "distinct (dels ws)" and "\<forall>r \<in> set (dels ws). tbl ps s r \<noteq> None" and "\<forall>w \<in> set ws. owns logging (wr_rid w) s"
    and "length (dels ws) + 2 \<le> nf"
  shows "\<exists>s'. commit_items logging ws s = Some s' \<and> heap_ok (nf - length (dels ws)) ps s' \<and>
    tbl ps s' = (\<lambda>r. if r \<in> set (dels ws) then None else tbl ps s r) \<and> txn_adds [] (db_txn s) (db_txn s')"
  using assms
proof (induction ws arbitrary: nf s)
  case Nil
  then show ?case by (simp add: dels_def)
next
  case (Cons w ws)
  show ?case
  proof (cases "wr_wtype w = W_DELETE")
    case True
    then have dl: "dels (w # ws) = wr_rid w # dels ws" by (simp add: dels_def)
    then obtain n where n: "nf = Suc n" "2 \<le> n" "length (dels ws) + 2 \<le> n" using Cons.prems(5) by (cases nf) auto
    obtain s1 where s1: "apply_delete_pinned logging (wr_rid w) s = Some s1" "heap_ok n ps s1" "tbl ps s1 = (tbl ps s)(wr_rid w := None)"
        "txn_adds [] (db_txn s) (db_txn s1)"
      using apply_delete_pinned_spec [of n ps s logging "wr_rid w"] Cons.prems(1,3,4) n dl by auto
    have "distinct (dels ws)" "\<forall>r \<in> set (dels ws). tbl ps s1 r \<noteq> None" using Cons.prems(2,3) dl s1(3) by auto
    moreover have "\<forall>w \<in> set ws. owns logging (wr_rid w) s1" using Cons.prems(4) owns_mono [OF s1(4)] by simp
    ultimately obtain s2 where "commit_items logging ws s1 = Some s2" "heap_ok (n - length (dels ws)) ps s2"
        "tbl ps s2 = (\<lambda>r. if r \<in> set (dels ws) then None else tbl ps s1 r)" "txn_adds [] (db_txn s1) (db_txn s2)"
      using Cons.IH [OF s1(2)] n(3) by blast
    then show ?thesis using s1 True dl n(1) txn_adds_trans1 [OF s1(4)] by (auto simp: fun_eq_iff)
  next
    case False
    then have "dels (w # ws) = dels ws" by (simp add: dels_def)
    then show ?thesis using Cons False by simp
  qed
qed

subsection \<open>Operations keep the invariant\<close>

lemma heap_ok_mono: "heap_ok nf ps s \<Longrightarrow> 2 \<le> k \<Longrightarrow> k \<le> nf \<Longrightarrow> heap_ok k ps s"
  unfolding heap_ok_def pool_ok_def by fastforce

lemma dels_append [simp]: "dels (a @ b) = dels a @ dels b" and inserts_append [simp]: "inserts (a @ b) = inserts a + inserts b"
  by (simp_all add: dels_def inserts_def)

text \<open>The table changed by \<open>ws\<close>: undoing \<open>ws\<close> gives the old table, and the new deletions are marked ones.\<close>

lemma txn_inv_step:
  assumes inv: "txn_inv logging ps v0 s" and add: "txn_adds ws (db_txn s) (db_txn s')" and own: "\<forall>w \<in> set ws. owns logging (wr_rid w) s'"
    and undo: "undoable (rev ws) (tbl ps' s')" "fold undo_write (rev ws) (tbl ps' s') = tbl ps s"
    and del: "distinct (dels ws)" "\<forall>r \<in> set (dels ws). \<exists>bs. tbl ps s r = Some (False, bs) \<and> tbl ps' s' r = Some (True, bs)"
    and keep: "\<forall>r bs. tbl ps s r = Some (True, bs) \<longrightarrow> tbl ps' s' r = Some (True, bs)"
  shows "txn_inv logging ps' v0 s'"
proof -
  let ?ws = "write_set (db_txn s)"
  have ws': "write_set (db_txn s') = ?ws @ ws" using add by (simp add: txn_adds_def)
  have old: "undoable (rev ?ws) (tbl ps s)" "fold undo_write (rev ?ws) (tbl ps s) = v0" "\<forall>w \<in> set ?ws. owns logging (wr_rid w) s" "distinct (dels ?ws)"
      "\<forall>r \<in> set (dels ?ws). \<exists>bs. tbl ps s r = Some (True, bs)"
    using inv by (simp_all add: txn_inv_def Let_def)
  have u: "undoable (xs @ ys) v \<longleftrightarrow> undoable xs v \<and> undoable ys (fold undo_write xs v)" for xs ys v
    by (induction xs arbitrary: v) auto
  have "undoable (rev (?ws @ ws)) (tbl ps' s')" using u undo old(1) by simp
  moreover have "fold undo_write (rev (?ws @ ws)) (tbl ps' s') = v0" using undo(2) old(2) by simp
  moreover have "\<forall>w \<in> set (?ws @ ws). owns logging (wr_rid w) s'" using own old(3) owns_mono [OF add] by auto
  moreover have "distinct (dels (?ws @ ws))" using old(4,5) del by fastforce
  moreover have "\<forall>r \<in> set (dels (?ws @ ws)). \<exists>bs. tbl ps' s' r = Some (True, bs)" using old(5) del(2) keep by fastforce
  ultimately show ?thesis by (simp add: txn_inv_def Let_def ws')
qed

lemma txn_inv_same:
  assumes "txn_inv logging ps v0 s" and "txn_adds [] (db_txn s) (db_txn s')" and "tbl ps' s' = tbl ps s"
  shows "txn_inv logging ps' v0 s'"
  using txn_inv_step [OF assms(1,2), of ps'] assms(3) by (simp add: dels_def)

lemma txn_inv_insert:
  assumes "txn_inv logging ps v0 s" and "txn_adds [wrote W_INSERT r tuple_zero p] (db_txn s) (db_txn s')" and "owns logging r s'"
    and "tbl ps s r = None" and "tbl ps' s' = (tbl ps s)(r \<mapsto> x)"
  shows "txn_inv logging ps' v0 s'"
proof (rule txn_inv_step [OF assms(1,2)])
  show "fold undo_write (rev [wrote W_INSERT r tuple_zero p]) (tbl ps' s') = tbl ps s"
    using assms(4,5) by (simp add: undo_write_def fun_upd_idem)
qed (use assms in \<open>auto simp: undo_ok_def dels_def\<close>)

lemma txn_inv_delete:
  assumes "txn_inv logging ps v0 s" and "txn_adds [wrote W_DELETE r tuple_zero p] (db_txn s) (db_txn s')" and "owns logging r s'"
    and "tbl ps s r = Some (False, bs)" and "tbl ps' s' = (tbl ps s)(r \<mapsto> (True, bs))"
  shows "txn_inv logging ps' v0 s'"
proof (rule txn_inv_step [OF assms(1,2)])
  show "fold undo_write (rev [wrote W_DELETE r tuple_zero p]) (tbl ps' s') = tbl ps s"
    using assms(4,5) by (simp add: undo_write_def fun_upd_idem)
qed (use assms in \<open>auto simp: undo_ok_def dels_def\<close>)

lemma old_tuple_ok:
  assumes "heap_ok nf ps s" and "tbl ps s r = Some (b, bs)"
  shows "wf_tuple (NewTuple (Some r) (of_nat (length bs)) bs)" "t_size (NewTuple (Some r) (of_nat (length bs)) bs) \<noteq> 0"
    "unat (t_size (NewTuple (Some r) (of_nat (length bs)) bs)) = length bs"
proof -
  have r: "PageId r \<in> set ps" using assms(2) by (auto simp: heap_view_def split: if_splits)
  obtain d where d: "tp_inv d" "tbl ps s r = tp_view d (unat (SlotNum r))" by (rule page_of [OF assms(1) r])
  then have u: "used d (unat (SlotNum r))" "bs = seg (lo d (unat (SlotNum r))) (ln d (unat (SlotNum r))) d"
    using assms(2) by (auto simp: tp_view_def split: if_splits)
  then have "0 < length bs" "length bs \<le> 4096"
    using tp_invD(1) [OF d(1)] tp_invD(4,6) [OF d(1) u(1)] by simp_all
  then show "wf_tuple (NewTuple (Some r) (of_nat (length bs)) bs)" "t_size (NewTuple (Some r) (of_nat (length bs)) bs) \<noteq> 0"
    "unat (t_size (NewTuple (Some r) (of_nat (length bs)) bs)) = length bs"
    by (auto simp: wf_tuple_def NewTuple_def unat_of_nat32 word_unat_eq_iff)
qed

lemma txn_inv_update:
  assumes inv: "txn_inv logging ps v0 s" and ok: "heap_ok nf ps s" and live: "tbl ps s r = Some (False, bs)" and len: "length bs \<le> length new"
    and st: "tx_state (db_txn s) \<noteq> ABORTED" and u: "updated nf logging r bs new ps s res ps' s'"
  shows "txn_inv logging ps' v0 s'"
proof -
  let ?old = "NewTuple (Some r) (of_nat (length bs)) bs"
  note O = old_tuple_ok [OF ok live]
  have od: "t_data ?old = bs" by (simp add: NewTuple_def)
  consider (inplace) "fst res" "snd res = None" | (moved) q where "fst res" "snd res = Some q" | (refused) "\<not> fst res"
    by (cases "snd res") auto
  then show ?thesis
  proof cases
    case inplace
    then have k: "ps' = ps" "tbl ps s' = (tbl ps s)(r \<mapsto> (False, new))" "owns logging r s'" "txn_adds [wrote W_UPDATE r ?old (hd ps)] (db_txn s) (db_txn s')"
      using u st by (auto simp: updated_def Let_def)
    show ?thesis
    proof (rule txn_inv_step [OF inv k(4)])
      show "fold undo_write (rev [wrote W_UPDATE r ?old (hd ps)]) (tbl ps' s') = tbl ps s"
        using live k(1,2) od by (simp add: undo_write_def fun_upd_idem)
      show "undoable (rev [wrote W_UPDATE r ?old (hd ps)]) (tbl ps' s')" using k O len by (simp add: undo_ok_def)
    qed (use k live in \<open>auto simp: dels_def\<close>)
  next
    case moved
    let ?us = "if tx_state (db_txn s') \<noteq> ABORTED then [wrote W_UPDATE r ?old (hd ps)] else []"
    let ?ws = "[wrote W_DELETE r tuple_zero (hd ps), wrote W_INSERT q tuple_zero (hd ps)] @ ?us"
    have k: "tbl ps s q = None" "tbl ps' s' = (tbl ps s)(r \<mapsto> (True, bs), q \<mapsto> (False, new))" "owns logging r s'" "owns logging q s'"
        "txn_adds ?ws (db_txn s) (db_txn s')"
      using u moved by (simp_all add: updated_def Let_def)
    have qr: "q \<noteq> r" using k(1) live by auto
    have z: "(tbl ps s)(r \<mapsto> (True, bs), q := None) = (tbl ps s)(r \<mapsto> (True, bs))" using k(1) qr by (auto simp: fun_eq_iff)
    show ?thesis
    proof (rule txn_inv_step [OF inv k(5)])
      show "fold undo_write (rev ?ws) (tbl ps' s') = tbl ps s"
        using live k(2) qr z by (simp add: undo_write_def fun_upd_idem)
      show "undoable (rev ?ws) (tbl ps' s')" using k(2) O qr z by (simp add: undo_ok_def undo_write_def)
    qed (use k live qr in \<open>auto simp: dels_def\<close>)
  next
    case refused
    then show ?thesis
      using u txn_inv_same [OF inv] txn_inv_delete [OF inv _ _ live] by (auto simp: updated_def Let_def)
  qed
qed

end
