(* ===== verification/Transaction_Spec.thy ===== *)
theory Transaction_Spec
  imports Transaction_Manager
begin

text \<open>
  Transactions as sequences of calls of the table heap, and what \<^verbatim>\<open>Commit\<close> and \<^verbatim>\<open>Abort\<close> make of them:
  aborting gives the table back as it was before the first call, committing removes what was marked as deleted.
\<close>

subsection \<open>The pages of a table\<close>

lemma not_disk_page_Invalid: "\<not> disk_page InvalidPageID"
  using disk_page_valid not_valid by blast

text \<open>A table's page list is determined by its first page.\<close>

lemma chain_next:
  assumes "page_chain v ps" and "i < length ps"
  obtains d where "v (ps ! i) = Some d" "GetNextPageId d = next_in ps i"
  using assms by (auto simp: page_chain_def page_at_def)

lemma chain_prefix:
  assumes p: "page_chain v ps" and q: "page_chain v qs" and h: "hd ps = hd qs" and l: "length ps \<le> length qs"
  shows "i < length ps \<Longrightarrow> ps ! i = qs ! i"
proof (induction i)
  case 0
  then show ?case using h l by (cases ps; cases qs) simp_all
next
  case (Suc i)
  obtain d where d: "v (ps ! i) = Some d" "GetNextPageId d = ps ! Suc i" using chain_next [OF p, of i] Suc.prems by (metis Suc_lessD next_in_def)
  obtain e where e: "v (qs ! i) = Some e" "GetNextPageId e = qs ! Suc i" using chain_next [OF q, of i] Suc.prems l
    by (metis Suc_lessD next_in_def order_less_le_trans)
  then show ?case using d Suc by simp
qed

lemma chain_unique:
  assumes p: "page_chain v ps" and q: "page_chain v qs" and h: "hd ps = hd qs"
  shows "ps = qs"
proof -
  have le: "length b \<le> length a" if a: "page_chain v a" and b: "page_chain v b" and eq: "hd a = hd b" and l: "length a \<le> length b" for a b
  proof (rule ccontr)
    assume "\<not> length b \<le> length a"
    then have lt: "length a < length b" by simp
    have ne: "0 < length a" using a by (simp add: page_chain_def)
    let ?i = "length a - 1"
    have same: "a ! ?i = b ! ?i" using chain_prefix [OF a b eq l, of ?i] ne by simp
    obtain d where d: "v (a ! ?i) = Some d" "GetNextPageId d = next_in a ?i" using chain_next [OF a, of ?i] ne by auto
    obtain e where e: "v (b ! ?i) = Some e" "GetNextPageId e = next_in b ?i" using chain_next [OF b, of ?i] lt ne by (metis less_imp_diff_less)
    have "b ! Suc ?i = InvalidPageID" using d e same ne lt by (simp add: next_in_def)
    moreover have "disk_page (b ! Suc ?i)" using chain_page [OF b, of "b ! Suc ?i"] ne lt by (metis Suc_diff_1 nth_mem)
    ultimately show False using not_disk_page_Invalid by simp
  qed
  have "length ps = length qs"
    using le [OF p q h] le [OF q p h [symmetric]] by (cases "length ps \<le> length qs") auto
  then show ?thesis using chain_prefix [OF p q h] by (auto intro: nth_equalityI)
qed

subsection \<open>Sequences of calls\<close>

text \<open>An update the undo log can take back: it does not shrink the record (the code undoes an update by an update,
  which can find the page too full for the longer old contents).\<close>

definition growing_update :: "pageID \<Rightarrow> tuple \<Rightarrow> int list option \<Rightarrow> schema option \<Rightarrow> rid \<Rightarrow> db \<Rightarrow> bool" where
  "growing_update first new idxs sch r s \<longleftrightarrow> t_size new \<noteq> 0 \<and> tx_state (db_txn s) \<noteq> ABORTED \<and>
     (\<exists>ps. page_chain (db_view s) ps \<and> hd ps = first \<and> PageId r \<in> set ps \<and>
       (\<forall>bs. tbl ps s r = Some (False, bs) \<longrightarrow>
          (\<exists>u. update_row idxs sch new (NewTuple (Some r) (of_nat (length bs)) bs) = Some u \<and> insertable u \<and> length bs \<le> length (t_data u))))"

inductive txn_run :: "bool \<Rightarrow> pageID \<Rightarrow> nat \<Rightarrow> db \<Rightarrow> db \<Rightarrow> bool" for logging first where
  run_start: "txn_run logging first 0 s s"
| run_insert: "txn_run logging first n s s1 \<Longrightarrow> insertable t \<Longrightarrow> page_left s1 \<Longrightarrow> TH_InsertTuple logging first t s1 = Some (res, s2) \<Longrightarrow>
    txn_run logging first (Suc n) s s2"
| run_delete: "txn_run logging first n s s1 \<Longrightarrow> in_table first r s1 \<Longrightarrow> TH_MarkDelete logging first r s1 = Some (ok, s2) \<Longrightarrow>
    txn_run logging first (Suc n) s s2"
| run_update: "txn_run logging first n s s1 \<Longrightarrow> growing_update first t idxs sch r s1 \<Longrightarrow> page_left s1 \<Longrightarrow>
    TH_UpdateTuple logging first t idxs sch r s1 = Some (ok, s2) \<Longrightarrow> txn_run logging first (Suc n) s s2"
| run_read: "txn_run logging first n s s1 \<Longrightarrow> in_table first r s1 \<Longrightarrow> TH_GetTuple logging r s1 = Some (got, s2) \<Longrightarrow>
    txn_run logging first (Suc n) s s2"

text \<open>What holds after \<open>n\<close> calls that started in \<open>s\<close> with \<open>nf\<close> frames to spare.\<close>

definition run_ok :: "bool \<Rightarrow> nat \<Rightarrow> pageID list \<Rightarrow> db \<Rightarrow> nat \<Rightarrow> db \<Rightarrow> bool" where
  "run_ok logging nf ps s n s' \<longleftrightarrow> (\<exists>k new. heap_ok k (ps @ new) s' \<and> txn_inv logging (ps @ new) (tbl ps s) s' \<and>
     inserts (write_set (db_txn s')) + nf \<le> k + n \<and> length (dels (write_set (db_txn s'))) \<le> n \<and> txn_id (db_txn s') = txn_id (db_txn s))"

text \<open>One call: it may grow the table by a page and cost a frame, and adds to the write set.\<close>

definition stepped :: "bool \<Rightarrow> tview \<Rightarrow> nat \<Rightarrow> pageID list \<Rightarrow> db \<Rightarrow> db \<Rightarrow> bool" where
  "stepped logging v0 k qs s1 s2 \<longleftrightarrow> (\<exists>k' new ws. heap_ok k' (qs @ new) s2 \<and> txn_inv logging (qs @ new) v0 s2 \<and>
     txn_adds ws (db_txn s1) (db_txn s2) \<and> inserts ws + k \<le> Suc k' \<and> length (dels ws) \<le> 1)"

lemma steppedI:
  assumes "qs' = qs \<or> qs' = qs @ [q]" "heap_ok k' qs' s2" "txn_inv logging qs' v0 s2" "txn_adds ws (db_txn s1) (db_txn s2)" "inserts ws + k \<le> Suc k'"
    "length (dels ws) \<le> 1"
  shows "stepped logging v0 k qs s1 s2"
proof -
  obtain new where "qs' = qs @ new" using assms(1) by auto
  then show ?thesis using assms(2-) unfolding stepped_def by blast
qed

lemma run_ok_step:
  assumes run: "run_ok logging nf ps s n s1" and nf: "n + 3 \<le> nf" and ne: "ps \<noteq> []"
    and step: "\<And>k qs. heap_ok k qs s1 \<Longrightarrow> hd qs = hd ps \<Longrightarrow> 3 \<le> k \<Longrightarrow> txn_inv logging qs (tbl ps s) s1 \<Longrightarrow> stepped logging (tbl ps s) k qs s1 s2"
  shows "run_ok logging nf ps s (Suc n) s2"
proof -
  obtain k new where k: "heap_ok k (ps @ new) s1" "txn_inv logging (ps @ new) (tbl ps s) s1" "inserts (write_set (db_txn s1)) + nf \<le> k + n"
      "length (dels (write_set (db_txn s1))) \<le> n" "txn_id (db_txn s1) = txn_id (db_txn s)"
    using run by (auto simp: run_ok_def)
  have "3 \<le> k" using k(3) nf by linarith
  then obtain k' new' ws where s2: "heap_ok k' ((ps @ new) @ new') s2" "txn_inv logging ((ps @ new) @ new') (tbl ps s) s2"
      "txn_adds ws (db_txn s1) (db_txn s2)" "inserts ws + k \<le> Suc k'" "length (dels ws) \<le> 1"
    using step [OF k(1) _ _ k(2)] ne unfolding stepped_def by auto
  have ws: "write_set (db_txn s2) = write_set (db_txn s1) @ ws" "txn_id (db_txn s2) = txn_id (db_txn s1)" using s2(3) by (simp_all add: txn_adds_def)
  show ?thesis
    unfolding run_ok_def
    by (rule exI [of _ k'], rule exI [of _ "new @ new'"]) (use s2 ws k in simp)
qed

lemma insert_stepped:
  assumes ok: "heap_ok k qs s1" and k: "3 \<le> k" and inv: "txn_inv logging qs v0 s1" and t: "insertable t" and np: "page_left s1"
    and run: "TH_InsertTuple logging (hd qs) t s1 = Some (res, s2)"
  shows "stepped logging v0 k qs s1 s2"
proof -
  have t': "wf_tuple t" "t_size t \<noteq> 0" "unat (t_size t) \<le> 4064" "unat (npid s1) < 524288" using t np by (simp_all add: insertable_def page_left_def)
  obtain ps' where i: "ps' = qs \<or> ps' = qs @ [npid s1]" "case res of
       Inr (r, t') \<Rightarrow> heap_ok k ps' s2 \<and> PageId r \<in> set ps' \<and> t' = t\<lparr>t_rid := Some r\<rparr> \<and> tbl qs s1 r = None \<and>
         tbl ps' s2 = (tbl qs s1)(r \<mapsto> (False, t_data t)) \<and> owns logging r s2 \<and> txn_adds [wrote W_INSERT r tuple_zero (hd qs)] (db_txn s1) (db_txn s2)
     | Inl e \<Rightarrow> e = ErrLock \<and> logging \<and> tbl ps' s2 = tbl qs s1 \<and> txn_adds [] (db_txn s1) (db_txn s2) \<and> (3 \<le> k \<longrightarrow> heap_ok (k - 1) ps' s2)"
    using TH_InsertTuple_spec [OF ok t'(4,1-3), of logging] run by auto
  show ?thesis
  proof (cases res)
    case (Inl e)
    then have "tbl ps' s2 = tbl qs s1" "txn_adds [] (db_txn s1) (db_txn s2)" "heap_ok (k - 1) ps' s2" using i(2) k by simp_all
    then show ?thesis using txn_inv_same [OF inv] by (intro steppedI [OF i(1)]) (auto simp: inserts_def dels_def)
  next
    case (Inr z)
    obtain r t' where "z = (r, t')" by (cases z)
    then have j: "heap_ok k ps' s2" "tbl qs s1 r = None" "tbl ps' s2 = (tbl qs s1)(r \<mapsto> (False, t_data t))" "owns logging r s2"
        "txn_adds [wrote W_INSERT r tuple_zero (hd qs)] (db_txn s1) (db_txn s2)"
      using i(2) Inr by simp_all
    then show ?thesis using txn_inv_insert [OF inv j(5,4,2,3)] by (intro steppedI [OF i(1)]) (auto simp: inserts_def dels_def)
  qed
qed

lemma delete_stepped:
  assumes ok: "heap_ok k qs s1" and inv: "txn_inv logging qs v0 s1" and r: "PageId r \<in> set qs" and run: "TH_MarkDelete logging first r s1 = Some (m, s2)"
  shows "stepped logging v0 k qs s1 s2"
proof -
  have i: "heap_ok k qs s2" "if m then \<exists>bs. tbl qs s1 r = Some (False, bs) \<and> tbl qs s2 = (tbl qs s1)(r \<mapsto> (True, bs)) \<and>
        txn_adds [wrote W_DELETE r tuple_zero first] (db_txn s1) (db_txn s2) \<and> owns logging r s2
     else tbl qs s2 = tbl qs s1 \<and> txn_adds [] (db_txn s1) (db_txn s2)"
    using TH_MarkDelete_spec [OF ok r, of logging first] run by (auto split: if_splits)
  show ?thesis
  proof (cases m)
    case True
    then obtain bs where j: "tbl qs s1 r = Some (False, bs)" "tbl qs s2 = (tbl qs s1)(r \<mapsto> (True, bs))"
        "txn_adds [wrote W_DELETE r tuple_zero first] (db_txn s1) (db_txn s2)" "owns logging r s2" using i(2) by auto
    show ?thesis
      using i(1) j(3) txn_inv_delete [OF inv j(3,4,1,2)] by (intro steppedI [of qs]) (auto simp: inserts_def dels_def)
  next
    case False
    then show ?thesis using i txn_inv_same [OF inv] by (intro steppedI [of qs]) (auto simp: inserts_def dels_def)
  qed
qed

lemma update_stepped:
  assumes ok: "heap_ok k qs s1" and k: "3 \<le> k" and inv: "txn_inv logging qs v0 s1" and g: "growing_update (hd qs) t idxs sch r s1" and np: "page_left s1"
    and run: "TH_UpdateTuple logging (hd qs) t idxs sch r s1 = Some (res, s2)"
  shows "stepped logging v0 k qs s1 s2"
proof -
  have ch: "page_chain (db_view s1) qs" using ok by (simp add: heap_ok_def)
  have g': "t_size t \<noteq> 0" "tx_state (db_txn s1) \<noteq> ABORTED" "PageId r \<in> set qs"
      "\<And>bs. tbl qs s1 r = Some (False, bs) \<Longrightarrow>
        \<exists>u. update_row idxs sch t (NewTuple (Some r) (of_nat (length bs)) bs) = Some u \<and> insertable u \<and> length bs \<le> length (t_data u)"
    using g chain_unique [OF _ ch] unfolding growing_update_def by metis+
  show ?thesis
  proof (cases "\<exists>bs. tbl qs s1 r = Some (False, bs)")
    case False
    then have "heap_ok k qs s2" "tbl qs s2 = tbl qs s1" "txn_adds [] (db_txn s1) (db_txn s2)"
      using TH_UpdateTuple_dead [OF ok g'(3) _ g'(1), of logging "hd qs" idxs sch] run by auto
    then show ?thesis using txn_inv_same [OF inv] by (intro steppedI [of qs]) (auto simp: inserts_def dels_def)
  next
    case True
    then obtain bs u where u: "tbl qs s1 r = Some (False, bs)" "update_row idxs sch t (NewTuple (Some r) (of_nat (length bs)) bs) = Some u"
        "insertable u" "length bs \<le> length (t_data u)" using g'(4) by blast
    have u': "wf_tuple u" "t_size u \<noteq> 0" "unat (t_size u) \<le> 4064" "unat (npid s1) < 524288" using u(3) np by (simp_all add: insertable_def page_left_def)
    obtain ps' where p: "ps' = qs \<or> ps' = qs @ [npid s1]" "updated k logging r bs (t_data u) qs s1 res ps' s2"
      using TH_UpdateTuple_spec [OF ok u(1) g'(1) u'(4) u(2) u'(1-3), of logging] run by auto
    note tx = txn_inv_update [OF inv ok u(1,4) g'(2) p(2)]
    have "\<exists>k' ws. heap_ok k' ps' s2 \<and> txn_adds ws (db_txn s1) (db_txn s2) \<and> inserts ws + k \<le> Suc k' \<and> length (dels ws) \<le> 1"
    proof (cases "fst res")
      case True
      obtain ws where "heap_ok k ps' s2" "txn_adds ws (db_txn s1) (db_txn s2)" "inserts ws \<le> 1" "length (dels ws) \<le> 1"
        using p(2) True that by (cases "snd res") (auto simp: updated_def Let_def inserts_def dels_def split: if_splits)
      then show ?thesis by (intro exI [of _ k] exI [of _ ws]) simp
    next
      case False
      then consider "ps' = qs" "heap_ok k qs s2" "txn_adds [] (db_txn s1) (db_txn s2)"
        | "heap_ok (k - 1) ps' s2" "txn_adds [wrote W_DELETE r tuple_zero (hd qs)] (db_txn s1) (db_txn s2)"
        using p(2) k by (auto simp: updated_def Let_def)
      then show ?thesis by cases (force simp: inserts_def dels_def)+
    qed
    then show ?thesis using tx steppedI [OF p(1)] by blast
  qed
qed

lemma read_stepped:
  assumes "heap_ok k qs s1" and "txn_inv logging qs v0 s1" and "PageId r \<in> set qs" and "TH_GetTuple logging r s1 = Some (res, s2)"
  shows "stepped logging v0 k qs s1 s2"
proof -
  have "heap_ok k qs s2" "tbl qs s2 = tbl qs s1" "txn_adds [] (db_txn s1) (db_txn s2)"
    using TH_GetTuple_spec [OF assms(1,3), of logging] assms(4) by auto
  then show ?thesis using txn_inv_same [OF assms(2)] by (intro steppedI [of qs]) (auto simp: inserts_def dels_def)
qed

lemma in_table_page: "in_table first r s \<Longrightarrow> heap_ok k qs s \<Longrightarrow> hd qs = first \<Longrightarrow> PageId r \<in> set qs"
  unfolding in_table_def heap_ok_def using chain_unique by blast

lemma txn_run_ok:
  "txn_run logging first n s s' \<Longrightarrow> heap_ok nf ps s \<Longrightarrow> hd ps = first \<Longrightarrow> write_set (db_txn s) = [] \<Longrightarrow> n + 2 \<le> nf \<Longrightarrow> run_ok logging nf ps s n s'"
proof (induction n s s' rule: txn_run.induct)
  case (run_start s)
  have "txn_inv logging ps (tbl ps s) s" using run_start by (simp add: txn_inv_def dels_def)
  then show ?case using run_start unfolding run_ok_def by (intro exI [of _ nf] exI [of _ "[]"]) (simp add: inserts_def dels_def)
next
  case (run_insert n s s1 t res s2)
  have ne: "ps \<noteq> []" using run_insert.prems(1) by (simp add: heap_ok_def page_chain_def)
  have ih: "run_ok logging nf ps s n s1" "n + 3 \<le> nf" using run_insert.IH run_insert.prems by simp_all
  show ?case by (rule run_ok_step [OF ih ne], rule insert_stepped) (use run_insert in auto)
next
  case (run_delete n s s1 r ok s2)
  have ne: "ps \<noteq> []" using run_delete.prems(1) by (simp add: heap_ok_def page_chain_def)
  have ih: "run_ok logging nf ps s n s1" "n + 3 \<le> nf" using run_delete.IH run_delete.prems by simp_all
  show ?case by (rule run_ok_step [OF ih ne], rule delete_stepped) (use run_delete in_table_page in auto)
next
  case (run_update n s s1 t idxs sch r ok s2)
  have ne: "ps \<noteq> []" using run_update.prems(1) by (simp add: heap_ok_def page_chain_def)
  have ih: "run_ok logging nf ps s n s1" "n + 3 \<le> nf" using run_update.IH run_update.prems by simp_all
  show ?case by (rule run_ok_step [OF ih ne], rule update_stepped) (use run_update in auto)
next
  case (run_read n s s1 r got s2)
  have ne: "ps \<noteq> []" using run_read.prems(1) by (simp add: heap_ok_def page_chain_def)
  have ih: "run_ok logging nf ps s n s1" "n + 3 \<le> nf" using run_read.IH run_read.prems by simp_all
  show ?case by (rule run_ok_step [OF ih ne], rule read_stepped) (use run_read in_table_page in auto)
qed

subsection \<open>Ending a transaction\<close>

lemma pool_log_only:
  assumes ok: "pool_ok H n bp" and l: "log_only bp lm dk"
  defines "bp' \<equiv> bp\<lparr>log_manager := lm, diskManager := dk\<rparr>"
  shows "pool_ok H n bp'" "same_view (bp_view bp) (bp_view bp')"
proof -
  note L = log_only_ok [OF pool_okD(1) [OF ok] l, folded bp'_def]
  have "pinned1 H bp' = pinned1 H bp" using L(3) by (simp add: pinned1_def)
  then show "pool_ok H n bp'" using ok L by (simp add: pool_ok_def)
  show "same_view (bp_view bp) (bp_view bp')" using L(2) by (simp add: same_view_def)
qed

lemma log_txn_spec:
  assumes inv: "bp_inv bp" and ty: "ty \<in> {BEGIN, COMMIT, ABORT}"
  obtains l lm dk where "log_txn logging ty txn bp = Some (txn\<lparr>prev_lsn := l\<rparr>, bp\<lparr>log_manager := lm, diskManager := dk\<rparr>)" "log_only bp lm dk"
    "logging \<longrightarrow> log_stream lm dk = log_stream (log_manager bp) (diskManager bp) @
       record_bytes ((NewLogRecordTxn (txn_id txn) (prev_lsn txn) ty)\<lparr>Lsn := next_lsn (log_manager bp)\<rparr>)"
proof -
  have li: "log_inv (log_manager bp) (diskManager bp)" using inv by (simp add: bp_inv_def disk_ok_def)
  show ?thesis
  proof (cases logging)
    case True
    obtain lm dk where a: "AppendLogRecord (NewLogRecordTxn (txn_id txn) (prev_lsn txn) ty) (log_manager bp) (diskManager bp) =
          Some ((NewLogRecordTxn (txn_id txn) (prev_lsn txn) ty)\<lparr>Lsn := next_lsn (log_manager bp)\<rparr>, lm, dk)" "log_inv lm dk"
        "log_stream lm dk = log_stream (log_manager bp) (diskManager bp) @
          record_bytes ((NewLogRecordTxn (txn_id txn) (prev_lsn txn) ty)\<lparr>Lsn := next_lsn (log_manager bp)\<rparr>)"
        "dm_db dk = dm_db (diskManager bp)" "nextPageID dk = nextPageID (diskManager bp)"
      using AppendLogRecord_spec [OF li wf_record_Txn [OF ty]] by blast
    show ?thesis by (rule that [where l = "next_lsn (log_manager bp)" and lm = lm and dk = dk]) (use a True in \<open>simp_all add: log_txn_def log_only_def\<close>)
  next
    case False
    show ?thesis
      by (rule that [where l = "prev_lsn txn" and lm = "log_manager bp" and dk = "diskManager bp"]) (use False li in \<open>simp_all add: log_txn_def log_only_def\<close>)
  qed
qed

lemma commit_log_spec:
  assumes inv: "bp_inv (db_bpm s)"
  obtains l lm dk where "commit_log logging s = Some (s\<lparr>db_txn := (db_txn s)\<lparr>prev_lsn := l\<rparr>, db_bpm := (db_bpm s)\<lparr>log_manager := lm, diskManager := dk\<rparr>\<rparr>)"
    "log_only (db_bpm s) lm dk"
    "logging \<longrightarrow> (\<exists>pre prev lsn. f_bytes (dm_log dk) = pre @ record_bytes ((NewLogRecordTxn (txn_id (db_txn s)) prev COMMIT)\<lparr>Lsn := lsn\<rparr>))"
proof (cases logging)
  case True
  obtain l lm dk where l: "log_txn logging COMMIT (db_txn s) (db_bpm s) = Some ((db_txn s)\<lparr>prev_lsn := l\<rparr>, (db_bpm s)\<lparr>log_manager := lm, diskManager := dk\<rparr>)"
      "log_only (db_bpm s) lm dk" "log_stream lm dk = log_stream (log_manager (db_bpm s)) (diskManager (db_bpm s)) @
       record_bytes ((NewLogRecordTxn (txn_id (db_txn s)) (prev_lsn (db_txn s)) COMMIT)\<lparr>Lsn := next_lsn (log_manager (db_bpm s))\<rparr>)"
    using log_txn_spec [OF inv, of COMMIT logging "db_txn s"] True by (metis insert_iff)
  obtain lm' d' where F: "Flush lm dk = Some (lm', d')" "log_inv lm' d'" "f_bytes (dm_log d') = log_stream lm dk" "dm_db d' = dm_db dk" "nextPageID d' = nextPageID dk"
    using Flush_spec [of lm dk] l(2) by (auto simp: log_only_def log_inv_def)
  show ?thesis
    by (rule that [where l = l and lm = lm' and dk = d']) (use True l F in \<open>auto simp: commit_log_def log_only_def\<close>)
next
  case False
  have "log_inv (log_manager (db_bpm s)) (diskManager (db_bpm s))" using inv by (simp add: bp_inv_def disk_ok_def)
  then show ?thesis
    using that [where l = "prev_lsn (db_txn s)" and lm = "log_manager (db_bpm s)" and dk = "diskManager (db_bpm s)"] False by (simp add: commit_log_def log_only_def)
qed

lemma unlock_exclusive:
  "exclusive_lock_table (fold (unlock_one txn) rs lk) r =
     (if r \<in> set rs \<and> exclusive_lock_table lk r = Some (txn_id txn) then None else exclusive_lock_table lk r)"
proof (induction rs arbitrary: lk)
  case (Cons q rs)
  have "exclusive_lock_table (unlock_one txn q lk) r =
      (if r = q \<and> exclusive_lock_table lk r = Some (txn_id txn) then None else exclusive_lock_table lk r)"
    by (auto simp: unlock_one_def Let_def split: option.splits)
  then show ?case using Cons by auto
qed simp

lemma releaseLocks_spec:
  assumes "locks_in_sync (Some (db_ctx s))"
  shows "\<not> holds_exclusive (db_locks (releaseLocks s)) r (txn_id (db_txn s))"
  using assms unlock_exclusive [of "db_txn s" "exclusive_lock_set (db_txn s) @ shared_lock_set (db_txn s)" "db_locks s" r]
  by (auto simp: releaseLocks_def Unlock_def holds_exclusive_def locks_in_sync_def db_ctx_def IsExclusiveLocked_def)

text \<open>The table as the other transactions will find it.\<close>

definition table_store :: "nat \<Rightarrow> pageID list \<Rightarrow> db \<Rightarrow> bool" where
  "table_store nf ps s \<longleftrightarrow> page_chain (db_view s) ps \<and> pool_ok {} nf (db_bpm s)"

text \<open>The last part of both: the write set is emptied, the log written, the locks released.\<close>

lemma finish_spec:
  fixes t :: LSN
  assumes ok: "heap_ok n ps s" and l: "log_only (db_bpm s) lm dk"
  defines "s' \<equiv> releaseLocks ((SetWriteSet [] s)\<lparr>db_txn := (db_txn (SetWriteSet [] s))\<lparr>prev_lsn := t\<rparr>, db_bpm := (db_bpm s)\<lparr>log_manager := lm, diskManager := dk\<rparr>\<rparr>)"
  shows "table_store n ps s'" "tbl ps s' = tbl ps s" "write_set (db_txn s') = []" "\<not> holds_exclusive (db_locks s') r (txn_id (db_txn s))"
    "diskManager (db_bpm s') = dk"
proof -
  let ?s2 = "(SetWriteSet [] s)\<lparr>db_txn := (db_txn (SetWriteSet [] s))\<lparr>prev_lsn := t\<rparr>, db_bpm := (db_bpm s)\<lparr>log_manager := lm, diskManager := dk\<rparr>\<rparr>"
  have po: "pool_ok {} n (db_bpm s)" "page_chain (db_view s) ps" "locks_in_sync (Some (db_ctx s))" using ok by (simp_all add: heap_ok_def)
  note L = pool_log_only [OF po(1) l]
  have b: "db_bpm s' = (db_bpm s)\<lparr>log_manager := lm, diskManager := dk\<rparr>" by (simp add: s'_def releaseLocks_def)
  show "table_store n ps s'" "tbl ps s' = tbl ps s" using L chain_same(1,2) [OF po(2) L(2)] by (simp_all add: table_store_def b)
  show "write_set (db_txn s') = []" "diskManager (db_bpm s') = dk" by (simp_all add: s'_def releaseLocks_def SetWriteSet_def)
  have "locks_in_sync (Some (db_ctx ?s2))" using po(3) by (simp add: SetWriteSet_def locks_in_sync_def db_ctx_def IsExclusiveLocked_def)
  then show "\<not> holds_exclusive (db_locks s') r (txn_id (db_txn s))" using releaseLocks_spec [of ?s2 r] by (simp add: s'_def SetWriteSet_def)
qed

lemma owns_state [simp]: "owns logging r (set_state st s) \<longleftrightarrow> owns logging r s"
  by (simp add: set_state_def SetState_def assert_exclusive_ok db_ctx_def IsExclusiveLocked_def)

lemma state_txn [simp]: "write_set (db_txn (set_state st s)) = write_set (db_txn s)" "txn_id (db_txn (set_state st s)) = txn_id (db_txn s)"
  by (simp_all add: set_state_def SetState_def)

lemma Abort_spec:
  assumes ok: "heap_ok nf ps s" and inv: "txn_inv logging ps v0 s" and nf: "inserts (write_set (db_txn s)) + 2 \<le> nf" and tm: "latch_readers tm \<noteq> 0"
  shows "\<exists>s'. Abort logging tm s = Some (tm\<lparr>latch_readers := latch_readers tm - 1\<rparr>, s') \<and>
    table_store (nf - inserts (write_set (db_txn s))) ps s' \<and> tbl ps s' = v0 \<and> write_set (db_txn s') = [] \<and>
    (\<forall>r. \<not> holds_exclusive (db_locks s') r (txn_id (db_txn s)))"
proof -
  let ?W = "write_set (db_txn s)" and ?s0 = "set_state ABORTED s"
  have n: "inserts (rev ?W) = inserts ?W" by (simp add: inserts_def rev_filter [symmetric])
  have own: "\<forall>w \<in> set (rev ?W). owns logging (wr_rid w) ?s0" and u: "undoable (rev ?W) (tbl ps ?s0)" "fold undo_write (rev ?W) (tbl ps ?s0) = v0"
    using inv by (simp_all add: txn_inv_def Let_def)
  obtain s1 us where s1: "abort_items logging (rev ?W) ?s0 = Some s1" "heap_ok (nf - inserts ?W) ps s1" "tbl ps s1 = v0" "txn_adds us (db_txn ?s0) (db_txn s1)"
    using abort_items_spec [of nf ps ?s0 "rev ?W" logging] ok u own nf n by auto
  let ?s2 = "SetWriteSet [] s1"
  have s2: "db_bpm ?s2 = db_bpm s1" "txn_id (db_txn s1) = txn_id (db_txn s)" using s1(4) by (simp_all add: SetWriteSet_def txn_adds_def)
  have bi: "bp_inv (db_bpm s1)" using s1(2) pool_okD(1) by (auto simp: heap_ok_def)
  obtain l lm dk where l: "log_txn logging ABORT (db_txn ?s2) (db_bpm s1) = Some ((db_txn ?s2)\<lparr>prev_lsn := l\<rparr>, (db_bpm s1)\<lparr>log_manager := lm, diskManager := dk\<rparr>)"
      "log_only (db_bpm s1) lm dk"
    using log_txn_spec [OF bi, of ABORT logging "db_txn ?s2"] by (metis insert_iff)
  note F = finish_spec [OF s1(2) l(2), of l]
  have "Abort logging tm s = Some (tm\<lparr>latch_readers := latch_readers tm - 1\<rparr>,
      releaseLocks (?s2\<lparr>db_txn := (db_txn ?s2)\<lparr>prev_lsn := l\<rparr>, db_bpm := (db_bpm s1)\<lparr>log_manager := lm, diskManager := dk\<rparr>\<rparr>))"
    using s1(1) l(1) tm s2(1) by (simp add: Abort_def Let_def RUnlock_def)
  then show ?thesis using F s1(3) s2(2) by auto
qed

lemma Commit_spec:
  assumes ok: "heap_ok nf ps s" and inv: "txn_inv logging ps v0 s" and nf: "length (dels (write_set (db_txn s))) + 2 \<le> nf" and tm: "latch_readers tm \<noteq> 0"
  shows "\<exists>s'. Commit logging tm s = Some (tm\<lparr>latch_readers := latch_readers tm - 1\<rparr>, s') \<and>
    table_store (nf - length (dels (write_set (db_txn s)))) ps s' \<and>
    tbl ps s' = (\<lambda>r. if r \<in> set (dels (write_set (db_txn s))) then None else tbl ps s r) \<and> write_set (db_txn s') = [] \<and>
    (\<forall>r. \<not> holds_exclusive (db_locks s') r (txn_id (db_txn s))) \<and>
    (logging \<longrightarrow> (\<exists>pre prev lsn. f_bytes (dm_log (diskManager (db_bpm s'))) =
       pre @ record_bytes ((NewLogRecordTxn (txn_id (db_txn s)) prev COMMIT)\<lparr>Lsn := lsn\<rparr>)))"
proof -
  let ?W = "write_set (db_txn s)" and ?s0 = "set_state COMMITTED s"
  have d: "dels (rev ?W) = rev (dels ?W)" by (simp add: dels_def rev_filter [symmetric] rev_map)
  have own: "\<forall>w \<in> set (rev ?W). owns logging (wr_rid w) ?s0" using inv by (simp add: txn_inv_def Let_def)
  have v: "distinct (dels (rev ?W))" "\<forall>r \<in> set (dels (rev ?W)). tbl ps ?s0 r \<noteq> None" using inv d by (fastforce simp: txn_inv_def Let_def)+
  have ok0: "heap_ok nf ps ?s0" "length (dels (rev ?W)) + 2 \<le> nf" using ok nf d by simp_all
  obtain s1 where s1: "commit_items logging (rev ?W) ?s0 = Some s1" "heap_ok (nf - length (dels ?W)) ps s1"
      "tbl ps s1 = (\<lambda>r. if r \<in> set (dels ?W) then None else tbl ps s r)" "txn_adds [] (db_txn ?s0) (db_txn s1)"
    using commit_items_spec [OF ok0(1) v own ok0(2)] unfolding d length_rev set_rev db_view_txn by blast
  let ?s2 = "SetWriteSet [] s1"
  have s2: "db_bpm ?s2 = db_bpm s1" "txn_id (db_txn s1) = txn_id (db_txn s)" "txn_id (db_txn ?s2) = txn_id (db_txn s)"
    using s1(4) by (simp_all add: SetWriteSet_def txn_adds_def)
  have bi: "bp_inv (db_bpm ?s2)" using s1(2) pool_okD(1) s2(1) by (auto simp: heap_ok_def)
  obtain l lm dk where l: "commit_log logging ?s2 = Some (?s2\<lparr>db_txn := (db_txn ?s2)\<lparr>prev_lsn := l\<rparr>, db_bpm := (db_bpm s1)\<lparr>log_manager := lm, diskManager := dk\<rparr>\<rparr>)"
      "log_only (db_bpm s1) lm dk"
      "logging \<longrightarrow> (\<exists>pre prev lsn. f_bytes (dm_log dk) = pre @ record_bytes ((NewLogRecordTxn (txn_id (db_txn s)) prev COMMIT)\<lparr>Lsn := lsn\<rparr>))"
    by (rule commit_log_spec [OF bi, of logging, unfolded s2])
  note F = finish_spec [OF s1(2) l(2), of l]
  have "Commit logging tm s = Some (tm\<lparr>latch_readers := latch_readers tm - 1\<rparr>,
      releaseLocks (?s2\<lparr>db_txn := (db_txn ?s2)\<lparr>prev_lsn := l\<rparr>, db_bpm := (db_bpm s1)\<lparr>log_manager := lm, diskManager := dk\<rparr>\<rparr>))"
    using s1(1) l(1) tm by (simp add: Commit_def Let_def RUnlock_def)
  then show ?thesis using F s1(3) s2(2) l(3) by auto
qed

subsection \<open>Properties\<close>

text \<open>C3: whatever a transaction does to a table (inserts, deletes, updates that do not shrink a record, reads, succeeding
  or refused), aborting it ends and gives the table back with exactly the records and contents it had when the
  transaction started; the write set is empty and no write lock of the transaction is left.  The calls need
  two frames of the buffer pool, and one more for each of them, since some never give their page back.\<close>

theorem abort_restores:
  assumes ok: "heap_ok nf ps s" and ws: "write_set (db_txn s) = []" and run: "txn_run logging (hd ps) n s s1" and nf: "n + 2 \<le> nf"
    and tm: "latch_readers tm \<noteq> 0"
  shows "\<exists>tm' s' new. Abort logging tm s1 = Some (tm', s') \<and> page_chain (db_view s') (ps @ new) \<and> tbl (ps @ new) s' = tbl ps s \<and>
    write_set (db_txn s') = [] \<and> (\<forall>r. \<not> holds_exclusive (db_locks s') r (txn_id (db_txn s))) \<and> latch_readers tm' = latch_readers tm - 1"
proof -
  obtain k new where k: "heap_ok k (ps @ new) s1" "txn_inv logging (ps @ new) (tbl ps s) s1" "inserts (write_set (db_txn s1)) + nf \<le> k + n"
      "txn_id (db_txn s1) = txn_id (db_txn s)"
    using txn_run_ok [OF run ok refl ws nf] by (auto simp: run_ok_def)
  then have "inserts (write_set (db_txn s1)) + 2 \<le> k" using nf by linarith
  then show ?thesis
    using Abort_spec [OF k(1,2) _ tm] k(4) by (fastforce simp: table_store_def)
qed

lemma example_start: "write_set (db_txn example_heap) = []" "txn_id (db_txn example_heap) = 1" "tx_state (db_txn example_heap) = GROWING"
  using NewTableHeap_nolog [OF example_heap_ok(1)] by (simp_all add: example_db_def NewTransaction_def)

definition example_tm :: TransactionManager where
  "example_tm = NewTransactionManager\<lparr>latch_readers := 1\<rparr>"

lemma example_run:
  assumes "TH_InsertTuple False 0 example_tuple example_heap = Some (Inr z, s)"
  shows "txn_run False (hd [0]) 1 example_heap s"
  using run_insert [OF run_start example_insertable example_heap_ok(5) assms] by simp

theorem abort_restores_witness:
  "\<exists>r s tm' s' ps. TH_InsertTuple False 0 example_tuple example_heap = Some (Inr (r, example_tuple\<lparr>t_rid := Some r\<rparr>), s) \<and>
     Abort False example_tm s = Some (tm', s') \<and> page_chain (db_view s') ps \<and> hd ps = 0 \<and> tbl ps s' = Map.empty \<and> latch_readers tm' = 0"
proof (rule example_filled)
  fix r s ps
  assume a: "TH_InsertTuple False 0 example_tuple example_heap = Some (Inr (r, example_tuple\<lparr>t_rid := Some r\<rparr>), s)"
  have "latch_readers example_tm = 1" by (simp add: example_tm_def)
  then show ?thesis
    using abort_restores [OF example_heap_ok(2) example_start(1) example_run [OF a], of example_tm] a example_heap_ok(3) by fastforce
qed

text \<open>C4: committing ends, removes exactly the records the transaction has marked as deleted and keeps every other
  record as it is; the write set is empty, no write lock of the transaction is left, and with logging on the log
  file ends with the transaction's commit record.\<close>

theorem commit_applies:
  assumes ok: "heap_ok nf ps s" and ws: "write_set (db_txn s) = []" and run: "txn_run logging (hd ps) n s s1" and nf: "2 * n + 2 \<le> nf"
    and tm: "latch_readers tm \<noteq> 0"
  shows "\<exists>tm' s' new. Commit logging tm s1 = Some (tm', s') \<and> page_chain (db_view s') (ps @ new) \<and>
    tbl (ps @ new) s' = (\<lambda>r. if r \<in> set (dels (write_set (db_txn s1))) then None else tbl (ps @ new) s1 r) \<and>
    (\<forall>r \<in> set (dels (write_set (db_txn s1))). \<exists>bs. tbl (ps @ new) s1 r = Some (True, bs)) \<and>
    write_set (db_txn s') = [] \<and> (\<forall>r. \<not> holds_exclusive (db_locks s') r (txn_id (db_txn s))) \<and> latch_readers tm' = latch_readers tm - 1 \<and>
    (logging \<longrightarrow> (\<exists>pre prev lsn. f_bytes (dm_log (diskManager (db_bpm s'))) =
       pre @ record_bytes ((NewLogRecordTxn (txn_id (db_txn s)) prev COMMIT)\<lparr>Lsn := lsn\<rparr>)))"
proof -
  have "n + 2 \<le> nf" using nf by simp
  then obtain k new where k: "heap_ok k (ps @ new) s1" "txn_inv logging (ps @ new) (tbl ps s) s1" "inserts (write_set (db_txn s1)) + nf \<le> k + n"
      "length (dels (write_set (db_txn s1))) \<le> n" "txn_id (db_txn s1) = txn_id (db_txn s)"
    using txn_run_ok [OF run ok refl ws] by (auto simp: run_ok_def)
  have "length (dels (write_set (db_txn s1))) + 2 \<le> k" using nf k(3,4) by linarith
  then obtain s' where "Commit logging tm s1 = Some (tm\<lparr>latch_readers := latch_readers tm - 1\<rparr>, s')" "page_chain (db_view s') (ps @ new)"
      "tbl (ps @ new) s' = (\<lambda>r. if r \<in> set (dels (write_set (db_txn s1))) then None else tbl (ps @ new) s1 r)" "write_set (db_txn s') = []"
      "\<forall>r. \<not> holds_exclusive (db_locks s') r (txn_id (db_txn s))"
      "logging \<longrightarrow> (\<exists>pre prev lsn. f_bytes (dm_log (diskManager (db_bpm s'))) =
       pre @ record_bytes ((NewLogRecordTxn (txn_id (db_txn s)) prev COMMIT)\<lparr>Lsn := lsn\<rparr>))"
    using Commit_spec [OF k(1,2) _ tm, unfolded table_store_def k(5)] by blast
  moreover have "\<forall>r \<in> set (dels (write_set (db_txn s1))). \<exists>bs. tbl (ps @ new) s1 r = Some (True, bs)" using k(2) by (simp add: txn_inv_def Let_def)
  ultimately show ?thesis
    by (intro exI [of _ "tm\<lparr>latch_readers := latch_readers tm - 1\<rparr>"] exI [of _ s'] exI [of _ new]) simp
qed

text \<open>A transaction that inserts a record, marks it as deleted and commits.\<close>

theorem commit_applies_witness:
  "\<exists>r s s1 tm' s' ps. TH_InsertTuple False 0 example_tuple example_heap = Some (Inr (r, example_tuple\<lparr>t_rid := Some r\<rparr>), s) \<and>
     TH_MarkDelete False 0 r s = Some (True, s1) \<and> Commit False example_tm s1 = Some (tm', s') \<and> page_chain (db_view s') ps \<and> hd ps = 0 \<and>
     (\<exists>bs. tbl ps s1 r = Some (True, bs)) \<and> tbl ps s' r = None \<and> write_set (db_txn s') = [] \<and> latch_readers tm' = 0"
proof (rule example_filled)
  fix r s ps
  assume a: "TH_InsertTuple False 0 example_tuple example_heap = Some (Inr (r, example_tuple\<lparr>t_rid := Some r\<rparr>), s)" "heap_ok 8 ps s"
    "PageId r \<in> set ps" "tbl ps s = [r \<mapsto> (False, [1, 2, 3])]" and hd: "hd ps = 0"
  have tm: "latch_readers example_tm = 1" by (simp add: example_tm_def)
  obtain m s1 where m: "TH_MarkDelete False 0 r s = Some (m, s1)"
      "if m then txn_adds [\<lparr>wr_rid = r, wr_wtype = W_DELETE, wr_tuple = tuple_zero, wr_table = 0\<rparr>] (db_txn s) (db_txn s1)
       else \<forall>bs. tbl ps s r \<noteq> Some (False, bs)"
    using TH_MarkDelete_spec [OF a(2,3), of False 0] by (auto split: if_splits)
  have m': "m" "r \<in> set (dels (write_set (db_txn s1)))"
    using m(2) a(4) by (cases m; auto simp: txn_adds_def dels_def)+
  have it: "in_table (hd [0]) r s" and mk: "TH_MarkDelete False (hd [0]) r s = Some (m, s1)"
    using a(2,3) hd m(1) unfolding in_table_def heap_ok_def by auto
  have run: "txn_run False (hd [0]) 2 example_heap s1"
    using run_delete [OF example_run [OF a(1)] it mk] by (simp add: numeral_2_eq_2)
  obtain tm' s' new where c: "Commit False example_tm s1 = Some (tm', s')" "page_chain (db_view s') ([0] @ new)"
      "tbl ([0] @ new) s' = (\<lambda>q. if q \<in> set (dels (write_set (db_txn s1))) then None else tbl ([0] @ new) s1 q)"
      "\<forall>q \<in> set (dels (write_set (db_txn s1))). \<exists>bs. tbl ([0] @ new) s1 q = Some (True, bs)" "write_set (db_txn s') = []" "latch_readers tm' = 0"
    using commit_applies [OF example_heap_ok(2) example_start(1) run, of example_tm] tm by auto
  show ?thesis
    by (rule exI [of _ r], rule exI [of _ s], rule exI [of _ s1], rule exI [of _ tm'], rule exI [of _ s'], rule exI [of _ "[0] @ new"])
      (use a(1) m m' c in simp)
qed

text \<open>Beginning a transaction gives it the next id and an empty write set, takes the global latch in shared mode,
  changes no page, and with logging on appends its begin record.\<close>

theorem begin_transaction:
  assumes inv: "bp_inv bp" and tm: "\<not> latch_writer tm"
  shows "\<exists>txn tm' bp'. Begin logging None tm bp = Some (txn, tm', bp') \<and> txn_id txn = next_txn_id tm + 1 \<and> next_txn_id tm' = next_txn_id tm + 1 \<and>
    tx_state txn = GROWING \<and> write_set txn = [] \<and> exclusive_lock_set txn = [] \<and> latch_readers tm' = latch_readers tm + 1 \<and> txn_id txn \<in> txn_map tm' \<and>
    bp_inv bp' \<and> same_view (bp_view bp) (bp_view bp') \<and>
    (logging \<longrightarrow> log_stream (log_manager bp') (diskManager bp') = log_stream (log_manager bp) (diskManager bp) @
       record_bytes ((NewLogRecordTxn (txn_id txn) InvalidLSN BEGIN)\<lparr>Lsn := next_lsn (log_manager bp)\<rparr>))"
proof -
  let ?t = "NewTransaction (next_txn_id tm + 1)"
  obtain l lm dk where l: "log_txn logging BEGIN ?t bp = Some (?t\<lparr>prev_lsn := l\<rparr>, bp\<lparr>log_manager := lm, diskManager := dk\<rparr>)" "log_only bp lm dk"
      "logging \<longrightarrow> log_stream lm dk = log_stream (log_manager bp) (diskManager bp) @
         record_bytes ((NewLogRecordTxn (txn_id ?t) (prev_lsn ?t) BEGIN)\<lparr>Lsn := next_lsn (log_manager bp)\<rparr>)"
    using log_txn_spec [OF inv, of BEGIN logging ?t] by (metis insert_iff)
  note L = log_only_ok [OF inv l(2)]
  have "same_view (bp_view bp) (bp_view (bp\<lparr>log_manager := lm, diskManager := dk\<rparr>))" using L(2) by (simp add: same_view_def)
  then show ?thesis
    using l tm L(1) by (simp add: Begin_def RLock_def NewTransaction_def Let_def)
qed

theorem begin_transaction_witness:
  "\<exists>txn tm' bp'. Begin True None NewTransactionManager (db_bpm example_db) = Some (txn, tm', bp') \<and> txn_id txn = 1 \<and>
     log_stream (log_manager bp') (diskManager bp') = log_stream NewLogManager empty_disk @ record_bytes ((NewLogRecordTxn 1 InvalidLSN BEGIN)\<lparr>Lsn := 0\<rparr>)"
  using begin_transaction [OF pool_okD(1) [OF example_db_ok(1)], of NewTransactionManager True]
  by (auto simp: NewTransactionManager_def example_db_def NewBufferPoolManager_def NewLogManager_def)

end
