(* ===== verification/Checkpoint.thy ===== *)
theory Checkpoint
  imports Transaction_Spec
begin

text \<open>
  \<^verbatim>\<open>concurrency/checkpoint_manager.go\<close>: a checkpoint blocks all transactions, writes every page of the buffer
  pool and then the log.  \<open>pids\<close> is the order in which the pool's page table is ranged over.
\<close>

definition BeginCheckpoint :: "pageID list \<Rightarrow> TransactionManager \<Rightarrow> BufferPool \<Rightarrow> (TransactionManager \<times> BufferPool) option" where
  "BeginCheckpoint pids tm bp = do {
     tm \<leftarrow> BlockAllTransactions tm;
     bp \<leftarrow> FlushAllPages pids bp;
     (lm, d) \<leftarrow> Flush (log_manager bp) (diskManager bp);
     Some (tm, bp\<lparr>log_manager := lm, diskManager := d\<rparr>) }"

definition EndCheckpoint :: "TransactionManager \<Rightarrow> TransactionManager option" where
  "EndCheckpoint tm = ResumeTransactions tm"

lemma WritePage_log: "dm_log (snd (WritePage p d dk)) = dm_log dk"
  by (simp add: WritePage_def Let_def)

lemma FlushPage_log:
  assumes "FlushPage pid bp = Some (ok, bp')"
  shows "log_manager bp' = log_manager bp \<and> dm_log (diskManager bp') = dm_log (diskManager bp)"
  using assms WritePage_log by (auto simp: FlushPage_def Let_def bind_Some_iff split: option.splits if_splits)

lemma FlushAllPages_log:
  "FlushAllPages pids bp = Some bp' \<Longrightarrow> log_manager bp' = log_manager bp \<and> dm_log (diskManager bp') = dm_log (diskManager bp)"
  by (induction pids arbitrary: bp) (auto simp: bind_Some_iff dest!: FlushPage_log)

text \<open>C32: a checkpoint begins exactly when no transaction is running; it then ends with every page of the database on
  disk as the transactions saw it and the whole log in the log file, and no transaction begins before the
  checkpoint ends.\<close>

theorem checkpoint_persists:
  assumes inv: "bp_inv bp" and pids: "set pids = dom (pageTable bp)" and free: "\<not> latch_writer tm"
  shows "if latch_readers tm \<noteq> 0 then BeginCheckpoint pids tm bp = None
    else \<exists>tm' bp'. BeginCheckpoint pids tm bp = Some (tm', bp') \<and> bp_inv bp' \<and>
      (\<forall>p. disk_page p \<longrightarrow> bp_view bp p \<noteq> None \<longrightarrow> fst (ReadPage p (diskManager bp')) = bp_view bp p) \<and>
      f_bytes (dm_log (diskManager bp')) = log_stream (log_manager bp) (diskManager bp) \<and> Begin logging txn tm' bp' = None \<and>
      EndCheckpoint tm' = Some tm"
proof (cases "latch_readers tm = 0")
  case True
  obtain bp1 where b: "FlushAllPages pids bp = Some bp1" "bp_inv bp1"
      "\<forall>p. disk_page p \<longrightarrow> bp_view bp p \<noteq> None \<longrightarrow> fst (ReadPage p (diskManager bp1)) = bp_view bp p"
    using flush_all_clean [OF inv pids] by blast
  have li: "log_inv (log_manager bp1) (diskManager bp1)" using b(2) by (simp add: bp_inv_def disk_ok_def)
  obtain lm d where F: "Flush (log_manager bp1) (diskManager bp1) = Some (lm, d)" "log_only bp1 lm d"
      "f_bytes (dm_log d) = log_stream (log_manager bp1) (diskManager bp1)"
    using Flush_spec [OF li] li by (auto simp: log_only_def log_inv_def)
  have dk: "disk_inv (diskManager bp1)" "disk_inv d" using b(2) log_only_ok(1) [OF b(2) F(2)] by (simp_all add: bp_inv_def disk_ok_def)
  have rd: "disk_page p \<Longrightarrow> fst (ReadPage p d) = fst (ReadPage p (diskManager bp1))" for p
    using dk F(2) by (intro ReadPage_same_bytes) (auto simp: log_only_def)
  have "log_stream (log_manager bp1) (diskManager bp1) = log_stream (log_manager bp) (diskManager bp)"
    using FlushAllPages_log [OF b(1)] by (simp add: log_stream_def)
  then show ?thesis
    using True free b F rd log_only_ok(1) [OF b(2) F(2)]
    by (simp add: BeginCheckpoint_def BlockAllTransactions_def WLock_def Begin_def RLock_def EndCheckpoint_def ResumeTransactions_def WUnlock_def)
next
  case False
  then show ?thesis by (simp add: BeginCheckpoint_def BlockAllTransactions_def WLock_def)
qed

text \<open>With a running transaction, and with a dirty page in the pool.\<close>

theorem checkpoint_persists_witness:
  "BeginCheckpoint [] example_tm example_pool = None \<and>
   (\<exists>bp tm' bp'. UnpinPage 0 True written_pool = Some (True, bp) \<and> fst (ReadPage 0 (diskManager bp)) = Some (replicate 4096 7) \<and>
      BeginCheckpoint [0] NewTransactionManager bp = Some (tm', bp') \<and> fst (ReadPage 0 (diskManager bp')) = Some (replicate 4096 9) \<and>
      Begin False None tm' bp' = None)"
proof (rule dirty_pool, rule conjI)
  fix bp
  assume u: "UnpinPage 0 True written_pool = Some (True, bp)" "bp_inv bp" "bp_view bp 0 = Some (replicate 4096 9)"
    "set [0] = dom (pageTable bp)" "fst (ReadPage 0 (diskManager bp)) = Some (replicate 4096 7)"
  have d: "set [] = dom (pageTable example_pool)" by (simp add: example_pool_def NewBufferPoolManager_def)
  show "BeginCheckpoint [] example_tm example_pool = None"
    using checkpoint_persists [OF example_pool_inv(1) d, of example_tm] by (simp add: example_tm_def NewTransactionManager_def)
  obtain tm' bp' where c: "BeginCheckpoint [0] NewTransactionManager bp = Some (tm', bp')" "Begin False None tm' bp' = None"
      "\<forall>p. disk_page p \<longrightarrow> bp_view bp p \<noteq> None \<longrightarrow> fst (ReadPage p (diskManager bp')) = bp_view bp p"
    using checkpoint_persists [OF u(2,4), of NewTransactionManager False None] by (auto simp: NewTransactionManager_def)
  have "fst (ReadPage 0 (diskManager bp')) = Some (replicate 4096 9)" using c(3) example_pool_inv(3) u(3) by simp
  then show "\<exists>bp tm' bp'. UnpinPage 0 True written_pool = Some (True, bp) \<and> fst (ReadPage 0 (diskManager bp)) = Some (replicate 4096 7) \<and>
      BeginCheckpoint [0] NewTransactionManager bp = Some (tm', bp') \<and> fst (ReadPage 0 (diskManager bp')) = Some (replicate 4096 9) \<and>
      Begin False None tm' bp' = None" using u(1,5) c(1,2) by blast
qed

end
