(* ===== verification/Log_Recovery.thy ===== *)
theory Log_Recovery
  imports Checkpoint
begin

text \<open>
  \<^verbatim>\<open>recovery/log_recovery/log_recovery.go\<close>: reading log records back, the redo pass over the log file and the
  undo pass over the transactions that had not committed.  The recovery object shares the disk manager with
  the buffer pool, so its operations thread the object and the pool.  The page operations are called without
  transaction, lock manager and log manager; under logging they would dereference \<^verbatim>\<open>nil\<close>.  The loops are
  \<open>partial_function (option)\<close>: \<open>None\<close> is a panic or a loop that never ends.
\<close>

record LogRecovery =
  active_txn :: "txnID \<Rightarrow> LSN option"
  lsn_mapping :: "LSN \<Rightarrow> int option"
  lr_offset :: i32
  lr_buffer :: bytes

definition NewLogRecovery :: LogRecovery where
  "NewLogRecovery = \<lparr>active_txn = (\<lambda>_. None), lsn_mapping = (\<lambda>_. None), lr_offset = 0, lr_buffer = replicate 45056 0\<rparr>"

subsection \<open>Reading a record\<close>

text \<open>\<^verbatim>\<open>binary.Read\<close> into a RID leaves it alone when the buffer is too short.\<close>

definition read_rid :: "rid \<Rightarrow> bytes \<Rightarrow> rid" where
  "read_rid r bs = (if length bs < 8 then r else RID_of_bytes bs)"

text \<open>\<open>data\<close> is the slice, \<open>spare\<close> the rest of its array.  Result: whether a record was read, and the record.\<close>

definition DeserializeLogRecord :: "bytes \<Rightarrow> bytes \<Rightarrow> LogRecord \<Rightarrow> (bool \<times> LogRecord) option" where
  "DeserializeLogRecord data spare log_record =
     (if length data < 20 then Some (False, log_record)
      else let log_record = log_record\<lparr>Size := dec32 data, Lsn := dec32 (drop 4 data), Txn_id := dec32 (drop 8 data),
                 Prev_lsn := dec32 (drop 12 data), Log_record_type := code_type (dec32 (drop 16 data))\<rparr> in
        if Size log_record = 0 then Some (False, log_record)
        else if Log_record_type log_record = INSERT then do {
          let log_record = log_record\<lparr>Insert_rid := read_rid (Insert_rid log_record) (drop 20 data)\<rparr>;
          storage \<leftarrow> slice_from 28 data;
          t \<leftarrow> DeserializeFrom (Insert_tuple log_record) storage spare;
          Some (True, log_record\<lparr>Insert_tuple := t\<rparr>) }
        else if Log_record_type log_record = APPLYDELETE \<or> Log_record_type log_record = MARKDELETE \<or>
                Log_record_type log_record = ROLLBACKDELETE then do {
          let log_record = log_record\<lparr>Delete_rid := read_rid (Delete_rid log_record) (drop 20 data)\<rparr>;
          storage \<leftarrow> slice_from 28 data;
          t \<leftarrow> DeserializeFrom (Delete_tuple log_record) storage spare;
          Some (True, log_record\<lparr>Delete_tuple := t\<rparr>) }
        else if Log_record_type log_record = UPDATE then do {
          let log_record = log_record\<lparr>Update_rid := read_rid (Update_rid log_record) (drop 20 data)\<rparr>;
          storage \<leftarrow> slice_from 28 data;
          t \<leftarrow> DeserializeFrom (Old_tuple log_record) storage spare;
          let log_record = log_record\<lparr>Old_tuple := t\<rparr>;
          storage \<leftarrow> slice_from (unat (28 + (t_size (Old_tuple log_record) + 4))) data;
          t \<leftarrow> DeserializeFrom (New_tuple log_record) storage spare;
          Some (True, log_record\<lparr>New_tuple := t\<rparr>) }
        else if Log_record_type log_record = NEWPAGE then
          Some (True, log_record\<lparr>Prev_page_id := (if length data < 24 then Prev_page_id log_record else dec32 (drop 20 data))\<rparr>)
        else Some (True, log_record))"

subsection \<open>Redo\<close>

text \<open>The calls on the page in the branches of \<^verbatim>\<open>Redo\<close> and \<^verbatim>\<open>Undo\<close>; \<open>logging\<close> is \<^verbatim>\<open>common.EnableLogging\<close>.  The first two
  also change a tuple of the log record: its RID, or the whole old tuple.\<close>

definition insert_op :: "bool \<Rightarrow> rid \<Rightarrow> tuple \<Rightarrow> bytes \<Rightarrow> (tuple \<times> bytes) option" where
  "insert_op logging r t d = do {
     let t = t\<lparr>t_rid := Some r\<rparr>;
     (res, d, _) \<leftarrow> InsertTuple logging t d None;
     Some (case res of Inr (_, t) \<Rightarrow> t | Inl _ \<Rightarrow> t, d) }"

definition update_op :: "bool \<Rightarrow> rid \<Rightarrow> tuple \<Rightarrow> tuple \<Rightarrow> bytes \<Rightarrow> (tuple \<times> bytes) option" where
  "update_op logging r new old d = do {
     (_, old, d, _) \<leftarrow> UpdateTuple logging new None None old r d None;
     Some (old, d) }"

definition apply_op :: "bool \<Rightarrow> rid \<Rightarrow> bytes \<Rightarrow> (unit \<times> bytes) option" where
  "apply_op logging r d = do { (d, _) \<leftarrow> ApplyDelete logging r d None; Some ((), d) }"

definition mark_op :: "bool \<Rightarrow> rid \<Rightarrow> bytes \<Rightarrow> (unit \<times> bytes) option" where
  "mark_op logging r d = do { (_, d, _) \<leftarrow> MarkDelete logging r d None; Some ((), d) }"

definition rollback_op :: "bool \<Rightarrow> rid \<Rightarrow> bytes \<Rightarrow> (unit \<times> bytes) option" where
  "rollback_op logging r d = do { (d, _) \<leftarrow> RollbackDelete logging r d None; Some ((), d) }"

text \<open>Fetch the page, run \<open>op\<close> when the page is older than the record, release the page.\<close>

definition redo_on :: "pageID \<Rightarrow> LSN \<Rightarrow> 'a \<Rightarrow> (bytes \<Rightarrow> ('a \<times> bytes) option) \<Rightarrow> BufferPool \<Rightarrow> ('a \<times> BufferPool) option" where
  "redo_on pid lsn a op bp = do {
     (f, bp) \<leftarrow> FetchPage pid bp;
     f \<leftarrow> f;
     pg \<leftarrow> frame_page bp f;
     (a, bp) \<leftarrow> (if sint (GetLSN (pg_data pg)) < sint lsn
            then do { (a, d) \<leftarrow> op (pg_data pg); Some (a, set_frame f (pg\<lparr>pg_data := SetLSN lsn d\<rparr>) bp) }
            else Some (a, bp));
     (_, bp) \<leftarrow> UnpinPage pid True bp;
     Some (a, bp) }"

definition redo_newpage :: "bool \<Rightarrow> pageID \<Rightarrow> BufferPool \<Rightarrow> BufferPool option" where
  "redo_newpage logging prev bp = do {
     (f, bp) \<leftarrow> NewPage bp;
     f \<leftarrow> f;
     pg \<leftarrow> frame_page bp f;
     let page_id = pg_id pg;
     (d, _) \<leftarrow> Init logging page_id prev (pg_data pg) None;
     let bp = set_frame f (pg\<lparr>pg_data := d\<rparr>) bp;
     (_, bp) \<leftarrow> UnpinPage page_id True bp;
     Some bp }"

definition redo_record :: "bool \<Rightarrow> LogRecord \<Rightarrow> BufferPool \<Rightarrow> (LogRecord \<times> BufferPool) option" where
  "redo_record logging lr bp =
     (if Log_record_type lr = INSERT then do {
        (t, bp) \<leftarrow> redo_on (GetPageId (Insert_rid lr)) (Lsn lr) (Insert_tuple lr)
          (insert_op logging (Insert_rid lr) (Insert_tuple lr)) bp;
        Some (lr\<lparr>Insert_tuple := t\<rparr>, bp) }
      else if Log_record_type lr = APPLYDELETE then do {
        (_, bp) \<leftarrow> redo_on (GetPageId (Delete_rid lr)) (Lsn lr) () (apply_op logging (Delete_rid lr)) bp;
        Some (lr, bp) }
      else if Log_record_type lr = MARKDELETE then do {
        (_, bp) \<leftarrow> redo_on (GetPageId (Delete_rid lr)) (Lsn lr) () (mark_op logging (Delete_rid lr)) bp;
        Some (lr, bp) }
      else if Log_record_type lr = ROLLBACKDELETE then do {
        (_, bp) \<leftarrow> redo_on (GetPageId (Delete_rid lr)) (Lsn lr) () (rollback_op logging (Delete_rid lr)) bp;
        Some (lr, bp) }
      else if Log_record_type lr = UPDATE then do {
        (t, bp) \<leftarrow> redo_on (GetPageId (Update_rid lr)) (Lsn lr) (Old_tuple lr)
          (update_op logging (Update_rid lr) (New_tuple lr) (Old_tuple lr)) bp;
        Some (lr\<lparr>Old_tuple := t\<rparr>, bp) }
      else if Log_record_type lr = NEWPAGE then do {
        bp \<leftarrow> redo_newpage logging (Prev_page_id lr) bp;
        Some (lr, bp) }
      else Some (lr, bp))"

definition note_record :: "LogRecord \<Rightarrow> u32 \<Rightarrow> LogRecovery \<Rightarrow> LogRecovery" where
  "note_record rec off lr =
     (let lr = lr\<lparr>active_txn := (active_txn lr)(Txn_id rec \<mapsto> Lsn rec),
                  lsn_mapping := (lsn_mapping lr)(Lsn rec \<mapsto> uint off)\<rparr> in
      if Log_record_type rec = COMMIT then lr\<lparr>active_txn := (active_txn lr)(Txn_id rec := None)\<rparr> else lr)"

partial_function (option) redo_buffer :: "bool \<Rightarrow> u32 \<Rightarrow> u32 \<Rightarrow> u32 \<Rightarrow> LogRecord \<Rightarrow> LogRecovery \<Rightarrow> BufferPool \<Rightarrow>
    (u32 \<times> LogRecovery \<times> BufferPool) option" where
  "redo_buffer logging file_offset readBytes buffer_offset log_record lr bp = do {
     data \<leftarrow> slice_range (unat buffer_offset) (unat readBytes) (lr_buffer lr);
     (ok, log_record) \<leftarrow> DeserializeLogRecord data (drop (unat readBytes) (lr_buffer lr)) log_record;
     if \<not> ok then Some (buffer_offset, lr, bp)
     else do {
       let lr = note_record log_record (file_offset + buffer_offset) lr;
       (log_record, bp) \<leftarrow> redo_record logging log_record bp;
       redo_buffer logging file_offset readBytes (buffer_offset + Size log_record) log_record lr bp } }"

partial_function (option) redo_file :: "bool \<Rightarrow> u32 \<Rightarrow> u32 \<Rightarrow> LogRecovery \<Rightarrow> BufferPool \<Rightarrow> (LogRecovery \<times> BufferPool) option" where
  "redo_file logging file_offset readBytes lr bp = do {
     let (ok, buf, readBytes, d) = ReadLog (lr_buffer lr) file_offset readBytes (diskManager bp);
     let bp = bp\<lparr>diskManager := d\<rparr>;
     let lr = lr\<lparr>lr_buffer := buf\<rparr>;
     if \<not> ok then Some (lr, bp)
     else do {
       (buffer_offset, lr, bp) \<leftarrow> redo_buffer logging file_offset readBytes 0 LogRecord_zero lr bp;
       redo_file logging (file_offset + buffer_offset) readBytes lr bp } }"

definition Redo :: "bool \<Rightarrow> LogRecovery \<Rightarrow> BufferPool \<Rightarrow> (LogRecovery \<times> BufferPool) option" where
  "Redo logging lr bp = redo_file logging 0 0 (lr\<lparr>lr_buffer := replicate 45056 0\<rparr>) bp"

subsection \<open>Undo\<close>

definition undo_on :: "pageID \<Rightarrow> (bytes \<Rightarrow> ('a \<times> bytes) option) \<Rightarrow> BufferPool \<Rightarrow> ('a \<times> BufferPool) option" where
  "undo_on pid op bp = do {
     (f, bp) \<leftarrow> FetchPage pid bp;
     f \<leftarrow> f;
     pg \<leftarrow> frame_page bp f;
     (a, d) \<leftarrow> op (pg_data pg);
     let bp = set_frame f (pg\<lparr>pg_data := d\<rparr>) bp;
     (_, bp) \<leftarrow> UnpinPage pid True bp;
     Some (a, bp) }"

definition undo_record :: "bool \<Rightarrow> LogRecord \<Rightarrow> BufferPool \<Rightarrow> (LogRecord \<times> BufferPool) option" where
  "undo_record logging lr bp =
     (if Log_record_type lr = INSERT then do {
        (_, bp) \<leftarrow> undo_on (GetPageId (Insert_rid lr)) (apply_op logging (Insert_rid lr)) bp;
        Some (lr, bp) }
      else if Log_record_type lr = APPLYDELETE then do {
        (t, bp) \<leftarrow> undo_on (GetPageId (Delete_rid lr)) (insert_op logging (Delete_rid lr) (Delete_tuple lr)) bp;
        Some (lr\<lparr>Delete_tuple := t\<rparr>, bp) }
      else if Log_record_type lr = MARKDELETE then do {
        (_, bp) \<leftarrow> undo_on (GetPageId (Delete_rid lr)) (rollback_op logging (Delete_rid lr)) bp;
        Some (lr, bp) }
      else if Log_record_type lr = ROLLBACKDELETE then do {
        (_, bp) \<leftarrow> undo_on (GetPageId (Delete_rid lr)) (mark_op logging (Delete_rid lr)) bp;
        Some (lr, bp) }
      else if Log_record_type lr = UPDATE then do {
        (t, bp) \<leftarrow> undo_on (GetPageId (Update_rid lr)) (update_op logging (Update_rid lr) (Old_tuple lr) (New_tuple lr)) bp;
        Some (lr\<lparr>New_tuple := t\<rparr>, bp) }
      else Some (lr, bp))"

text \<open>The loop over the records of one transaction, from the newest to the oldest.  A missing key of a Go map reads as 0.\<close>

partial_function (option) undo_txn :: "bool \<Rightarrow> LSN \<Rightarrow> LogRecord \<Rightarrow> LogRecovery \<Rightarrow> BufferPool \<Rightarrow>
    (LogRecord \<times> LogRecovery \<times> BufferPool) option" where
  "undo_txn logging lsn log_record lr bp =
     (if lsn = InvalidLSN then Some (log_record, lr, bp)
      else do {
        let file_offset = (case lsn_mapping lr lsn of Some off \<Rightarrow> off | None \<Rightarrow> 0);
        let (_, buf, readBytes, d) = ReadLog (lr_buffer lr) (word_of_int file_offset) 0 (diskManager bp);
        let bp = bp\<lparr>diskManager := d\<rparr>;
        let lr = lr\<lparr>lr_buffer := buf\<rparr>;
        data \<leftarrow> slice_range 0 (unat readBytes) (lr_buffer lr);
        (_, log_record) \<leftarrow> DeserializeLogRecord data (drop (unat readBytes) (lr_buffer lr)) log_record;
        (log_record, bp) \<leftarrow> undo_record logging log_record bp;
        undo_txn logging (Prev_lsn log_record) log_record lr bp })"

text \<open>Ranging over \<^verbatim>\<open>active_txn\<close>: \<open>txns\<close> is the order of this run.\<close>

fun undo_txns :: "bool \<Rightarrow> txnID list \<Rightarrow> LogRecord \<Rightarrow> LogRecovery \<Rightarrow> BufferPool \<Rightarrow> (LogRecovery \<times> BufferPool) option" where
  "undo_txns logging [] log_record lr bp = Some (lr, bp)"
| "undo_txns logging (t # ts) log_record lr bp = (case active_txn lr t of
     None \<Rightarrow> undo_txns logging ts log_record lr bp
   | Some lsn \<Rightarrow> do {
       (log_record, lr, bp) \<leftarrow> undo_txn logging lsn log_record lr bp;
       undo_txns logging ts log_record lr bp })"

text \<open>\<open>pids\<close> gives the order in which the page table is ranged over at the end.\<close>

definition Undo :: "bool \<Rightarrow> txnID list \<Rightarrow> (BufferPool \<Rightarrow> pageID list) \<Rightarrow> LogRecovery \<Rightarrow> BufferPool \<Rightarrow> (LogRecovery \<times> BufferPool) option" where
  "Undo logging txns pids lr bp = do {
     (lr, bp) \<leftarrow> undo_txns logging txns LogRecord_zero lr bp;
     bp \<leftarrow> FlushAllPages (pids bp) bp;
     Some (lr, bp) }"

end
