(* ===== verification/Recovery_Laws.thy ===== *)
theory Recovery_Laws
  imports Log_Recovery
begin

text \<open>
  Log records are read back from the log as they were written, and redoing the record a page operation has written
  does to the page, byte for byte, what the operation did.  \<open>redo_page\<close> is the effect of the redo pass on one page.
\<close>

subsection \<open>Reading a record back\<close>

definition same_tuple :: "tuple \<Rightarrow> tuple \<Rightarrow> bool" where
  "same_tuple t u \<longleftrightarrow> t_size t = t_size u \<and> t_data t = t_data u"

text \<open>Two records agree in the header and in the fields that belong to their type.\<close>

definition same_record :: "LogRecord \<Rightarrow> LogRecord \<Rightarrow> bool" where
  "same_record a b \<longleftrightarrow> Size a = Size b \<and> Lsn a = Lsn b \<and> Txn_id a = Txn_id b \<and> Prev_lsn a = Prev_lsn b \<and>
     Log_record_type a = Log_record_type b \<and>
     (Log_record_type b = INSERT \<longrightarrow> Insert_rid a = Insert_rid b \<and> same_tuple (Insert_tuple a) (Insert_tuple b)) \<and>
     (Log_record_type b \<in> {APPLYDELETE, MARKDELETE, ROLLBACKDELETE} \<longrightarrow>
        Delete_rid a = Delete_rid b \<and> same_tuple (Delete_tuple a) (Delete_tuple b)) \<and>
     (Log_record_type b = UPDATE \<longrightarrow>
        Update_rid a = Update_rid b \<and> same_tuple (Old_tuple a) (Old_tuple b) \<and> same_tuple (New_tuple a) (New_tuple b)) \<and>
     (Log_record_type b = NEWPAGE \<longrightarrow> Prev_page_id a = Prev_page_id b)"

lemma same_record_refl [simp]: "same_record a a"
  by (simp add: same_record_def same_tuple_def)

lemma DeserializeFrom_bytes:
  assumes "wf_tuple u"
  shows "DeserializeFrom t (tuple_bytes u @ rest) spare = Some (t\<lparr>t_size := t_size u, t_data := t_data u\<rparr>)"
  using assms by (simp add: DeserializeFrom_def tuple_bytes_def wf_tuple_def Let_def)

lemma read_rid_bytes: "read_rid r (RID_bytes q @ rest) = q"
  by (simp add: read_rid_def rid_codec.dec_enc)

lemma drop_body: "length a = 20 \<Longrightarrow> drop 20 (a @ b) = b"
  by simp

text \<open>The five words of the header.\<close>

lemma header_fields:
  assumes "length (GetLogHeaderData lr @ rest) \<ge> 20"
  defines "bs \<equiv> GetLogHeaderData lr @ rest"
  shows "dec32 bs = Size lr" "dec32 (drop 4 bs) = Lsn lr" "dec32 (drop 8 bs) = Txn_id lr" "dec32 (drop 12 bs) = Prev_lsn lr"
    "dec32 (drop 16 bs) = type_code (Log_record_type lr)" "drop 20 bs = rest"
  by (simp_all add: bs_def GetLogHeaderData_def)

lemma wf_record_size: "wf_record lr \<Longrightarrow> unat (Size lr) = 20 + length (record_body lr)"
  by (simp add: wf_record_def record_bytes_def)

lemma DeserializeLogRecord_bytes:
  assumes wf: "wf_record lr"
  shows "\<exists>r. DeserializeLogRecord (record_bytes lr @ rest) spare lr0 = Some (True, r) \<and> same_record r lr"
proof -
  let ?data = "GetLogHeaderData lr @ record_body lr @ rest"
  have t: "wf_tuple (Insert_tuple lr)" "wf_tuple (Delete_tuple lr)" "wf_tuple (Old_tuple lr)" "wf_tuple (New_tuple lr)"
    and code: "code_type (type_code (Log_record_type lr)) = Log_record_type lr" and sz: "unat (Size lr) = 20 + length (record_body lr)"
    and small: "unat (Size lr) \<le> 45056"
    using wf wf_record_size [OF wf] by (simp_all add: wf_record_def)
  have ne: "Size lr \<noteq> 0" using sz by auto
  have d28: "drop 28 ?data = drop 8 (record_body lr @ rest)" by (simp add: drop_append)
  note hd = header_fields [of lr "record_body lr @ rest"]
  have R: "DeserializeLogRecord ?data spare lr0 = Some (True, r) \<Longrightarrow> ?thesis" if "same_record r lr" for r
    using that by (auto simp: record_bytes_def)
  consider (ins) "Log_record_type lr = INSERT" | (del) "Log_record_type lr \<in> {APPLYDELETE, MARKDELETE, ROLLBACKDELETE}"
    | (upd) "Log_record_type lr = UPDATE" | (new) "Log_record_type lr = NEWPAGE"
    | (other) "Log_record_type lr \<notin> {INSERT, APPLYDELETE, MARKDELETE, ROLLBACKDELETE, UPDATE, NEWPAGE}" by blast
  then show ?thesis
  proof cases
    case ins
    then have b: "record_body lr = RID_bytes (Insert_rid lr) @ tuple_bytes (Insert_tuple lr)" by (simp add: record_body_def)
    show ?thesis
      unfolding record_bytes_def using hd ne code ins t(1) d28
      by (simp add: DeserializeLogRecord_def Let_def b read_rid_bytes DeserializeFrom_bytes same_record_def same_tuple_def slice_from_def)
  next
    case del
    then have b: "record_body lr = RID_bytes (Delete_rid lr) @ tuple_bytes (Delete_tuple lr)" by (auto simp: record_body_def)
    show ?thesis
      unfolding record_bytes_def using hd ne code del t(2) d28
      by (auto simp: DeserializeLogRecord_def Let_def b read_rid_bytes DeserializeFrom_bytes same_record_def same_tuple_def slice_from_def)
  next
    case upd
    then have b: "record_body lr = RID_bytes (Update_rid lr) @ tuple_bytes (Old_tuple lr) @ tuple_bytes (New_tuple lr)" by (simp add: record_body_def)
    let ?o = "unat (t_size (Old_tuple lr))"
    have lo: "length (tuple_bytes (Old_tuple lr)) = ?o + 4" using t(3) by (simp add: length_tuple_bytes)
    have "?o + 36 \<le> 45056" using sz small t(3,4) by (simp add: b length_tuple_bytes)
    then have o: "unat (28 + (t_size (Old_tuple lr) + 4)) = ?o + 32"
      using unat_add_less [of "t_size (Old_tuple lr)" 4] unat_add_less [of 28 "t_size (Old_tuple lr) + 4"] by simp
    have d2: "drop (?o + 32) ?data = tuple_bytes (New_tuple lr) @ rest" by (simp add: b lo)
    show ?thesis
      unfolding record_bytes_def using hd ne code upd t(3,4) d28 o d2 lo
      by (simp add: DeserializeLogRecord_def Let_def b read_rid_bytes DeserializeFrom_bytes same_record_def same_tuple_def slice_from_def)
  next
    case new
    then have b: "record_body lr = enc32 (Prev_page_id lr)" by (simp add: record_body_def)
    show ?thesis
      unfolding record_bytes_def using hd ne code new by (simp add: DeserializeLogRecord_def Let_def b same_record_def)
  next
    case other
    then have b: "record_body lr = []" by (auto simp: record_body_def)
    show ?thesis
      unfolding record_bytes_def using hd ne code other by (simp add: DeserializeLogRecord_def Let_def b same_record_def)
  qed
qed

subsection \<open>Redo on one page\<close>

definition redo_bytes :: "LogRecord \<Rightarrow> bytes \<Rightarrow> bytes option" where
  "redo_bytes lr d =
     (if Log_record_type lr = INSERT then map_option snd (insert_op False (Insert_rid lr) (Insert_tuple lr) d)
      else if Log_record_type lr = APPLYDELETE then map_option snd (apply_op False (Delete_rid lr) d)
      else if Log_record_type lr = MARKDELETE then map_option snd (mark_op False (Delete_rid lr) d)
      else if Log_record_type lr = ROLLBACKDELETE then map_option snd (rollback_op False (Delete_rid lr) d)
      else if Log_record_type lr = UPDATE then map_option snd (update_op False (Update_rid lr) (New_tuple lr) (Old_tuple lr) d)
      else None)"

definition redo_page :: "LogRecord \<Rightarrow> bytes \<Rightarrow> bytes option" where
  "redo_page lr d = (if sint (GetLSN d) < sint (Lsn lr) then map_option (SetLSN (Lsn lr)) (redo_bytes lr d) else Some d)"

lemma insert_op_same: "same_tuple t u \<Longrightarrow> map_option snd (insert_op False r t d) = map_option snd (insert_op False r u d)"
  by (auto simp: insert_op_def InsertTuple_def lock_new_def log_write_def setTuple_def same_tuple_def Let_def split: bind_splits)

lemma update_op_same:
  "same_tuple t u \<Longrightarrow> map_option snd (update_op False r t o1 d) = map_option snd (update_op False r u o2 d)"
  by (auto simp: update_op_def UpdateTuple_def lock_for_write_def log_write_def abort_txn_def update_row_def replace_tuple_def
      same_tuple_def Let_def split: bind_splits)

lemma redo_bytes_same: "same_record a b \<Longrightarrow> redo_bytes a d = redo_bytes b d"
  using insert_op_same [of "Insert_tuple a" "Insert_tuple b"] update_op_same [of "New_tuple a" "New_tuple b"]
  by (auto simp: redo_bytes_def same_record_def)

lemma redo_page_same: "same_record a b \<Longrightarrow> redo_page a d = redo_page b d"
  using redo_bytes_same [of a b] by (auto simp: redo_page_def same_record_def)

subsection \<open>The LSN and the rest of the page do not interfere\<close>

lemma SetLSN_copy_at:
  "length d = 4096 \<Longrightarrow> 8 \<le> off \<Longrightarrow> off \<le> 4096 \<Longrightarrow> copy_at off src (SetLSN l d) = SetLSN l (copy_at off src d)"
  by (intro nth_equalityI) (auto simp: SetLSN_def OffsetLSN_def nth_copy_at)

lemma SetLSN_slots:
  assumes "length d = 4096" and "32 + 8 * unat slot \<le> 4096"
  shows "GetTupleOffsetAtSlot slot (SetLSN l d) = GetTupleOffsetAtSlot slot d" "GetTupleSize slot (SetLSN l d) = GetTupleSize slot d"
    "SetTupleOffsetAtSlot slot v (SetLSN l d) = map_option (SetLSN l) (SetTupleOffsetAtSlot slot v d)"
    "SetTupleSize slot v (SetLSN l d) = map_option (SetLSN l) (SetTupleSize slot v d)"
  using assms SetLSN_keeps(5,6) [OF assms(1), where l = l and i = "unat slot"]
  by (simp_all add: slot_get slot_set SetLSN_copy_at)

lemma length_SetSlot:
  assumes "length d = 4096" and "32 + 8 * unat slot \<le> 4096"
  shows "SetTupleOffsetAtSlot slot v d = Some d' \<Longrightarrow> length d' = 4096 \<and> GetTupleCount d' = GetTupleCount d"
    "SetTupleSize slot v d = Some d' \<Longrightarrow> length d' = 4096 \<and> GetTupleCount d' = GetTupleCount d"
  using assms copy_keeps(1) [OF assms(1), of _ "enc32 v"] by (auto simp: slot_set)

lemma shift_offsets_SetLSN:
  assumes "length d = 4096" and "\<forall>s \<in> set iis. 32 + 8 * unat s \<le> 4096"
  shows "shift_offsets iis b n (SetLSN l d) = map_option (SetLSN l) (shift_offsets iis b n d)"
  using assms
proof (induction iis arbitrary: d)
  case (Cons s iis)
  have s: "32 + 8 * unat s \<le> 4096" using Cons.prems by simp
  have "length (copy_at (24 + 8 * unat s) (enc32 v) d) = 4096" for v using Cons.prems s by simp
  then show ?case
    using Cons.IH Cons.prems s SetLSN_slots [OF Cons.prems(1) s, where l = l] slot_get [OF Cons.prems(1) s] slot_set [OF Cons.prems(1) s]
    by simp
qed simp

lemma all_slots_in_page: "24 + 8 * cnt d \<le> 4096 \<Longrightarrow> \<forall>s \<in> set (all_slots d). 32 + 8 * unat s \<le> 4096"
  by (auto simp: all_slots_def unat_of_nat32)

lemma compact_SetLSN:
  assumes inv: "tp_inv d" and s: "used d (unat slot)"
  defines "ofs \<equiv> so d (unat slot)" and "z \<equiv> UnsetDeletedFlag (sz d (unat slot))"
  shows "compact slot ofs z (SetLSN l d) = map_option (SetLSN l) (compact slot ofs z d)"
proof -
  let ?s = "unat slot" and ?F = "GetFreeSpacePointer d + z"
  note I = tp_invD [OF inv] and S = tp_invD(4-6) [OF inv s]
  have s4: "32 + 8 * ?s \<le> 4096" using slot_in_page [OF inv, of ?s] s by (simp add: used_def)
  have z: "unat z = ln d ?s" by (simp add: z_def len_def)
  have F: "unat ?F = fsp d + ln d ?s" using unat_add_less [of "GetFreeSpacePointer d" z] z S I by simp
  let ?d1 = "copy_at (unat ?F) (seg (fsp d) (unat ofs - fsp d) d) d"
  let ?d2 = "SetFreeSpacePointer ?F ?d1"
  let ?d3 = "copy_at (28 + 8 * ?s) (enc32 0) ?d2"
  let ?d4 = "copy_at (24 + 8 * ?s) (enc32 0) ?d3"
  have len: "length ?d1 = 4096" "length ?d2 = 4096" "length ?d3 = 4096" "length ?d4 = 4096"
    using I F S s4 by (simp_all add: ofs_def SetFreeSpacePointer_def)
  have sl: "seg (fsp d) n (SetLSN l d) = seg (fsp d) n d" for n
    using I by (intro seg_SetLSN) auto
  have c1: "copy_at (unat ?F) src (SetLSN l d) = SetLSN l (copy_at (unat ?F) src d)" for src
    using I F S by (intro SetLSN_copy_at) auto
  have c2: "SetFreeSpacePointer ?F (SetLSN l ?d1) = SetLSN l ?d2"
    using len(1) by (simp add: SetFreeSpacePointer_def SetLSN_copy_at)
  have n: "GetTupleCount ?d1 = GetTupleCount d" "GetTupleCount ?d2 = GetTupleCount ?d1" "GetTupleCount ?d3 = GetTupleCount ?d2" "GetTupleCount ?d4 = GetTupleCount ?d3"
    using copy_keeps(1) [OF I(1), of "unat ?F" "seg (fsp d) (unat ofs - fsp d) d"] copy_keeps(1) [OF len(1), of 16 "enc32 ?F"]
      copy_keeps(1) [OF len(2), of "28 + 8 * ?s" "enc32 0"] copy_keeps(1) [OF len(3), of "24 + 8 * ?s" "enc32 0"] I F S s4
    by (simp_all add: ofs_def SetFreeSpacePointer_def UInt32_Serialize_def)
  have all: "all_slots (SetLSN l ?d4) = all_slots ?d4" using SetLSN_keeps(1) [OF len(4)] by (simp add: all_slots_def)
  have "24 + 8 * cnt ?d4 \<le> 4096" using n I(2,3) by simp
  note sh = shift_offsets_SetLSN [OF len(4) all_slots_in_page [OF this], of ofs z l]
  show ?thesis
    using sl c1 c2 len I S s4 F all sh SetLSN_keeps(2) [OF I(1)] slot_set [OF len(2) s4] slot_set [OF len(3) s4]
      slot_set [of "SetLSN l ?d2", OF _ s4] slot_set [of "SetLSN l ?d3", OF _ s4]
    by (simp add: compact_def Let_def ofs_def word_le_nat_alt SetLSN_copy_at)
qed

lemma replace_tuple_SetLSN:
  assumes inv: "tp_inv d" and s: "used d (unat slot)" and nf: "\<not> bit (sz d (unat slot)) 31" and u: "wf_tuple u"
    and room: "24 + 8 * cnt d + unat (t_size u) \<le> fsp d + ln d (unat slot)"
  defines "ofs \<equiv> so d (unat slot)" and "z \<equiv> sz d (unat slot)"
  shows "replace_tuple slot ofs z u (SetLSN l d) = map_option (SetLSN l) (replace_tuple slot ofs z u d)"
proof -
  let ?s = "unat slot" and ?F = "GetFreeSpacePointer d + z - t_size u" and ?P = "ofs + z - t_size u"
  note I = tp_invD [OF inv] and S = tp_invD(4-6) [OF inv s]
  have s4: "32 + 8 * ?s \<le> 4096" using slot_in_page [OF inv, of ?s] s by (simp add: used_def)
  have z: "unat z = ln d ?s" using nf by (simp add: z_def len_noflag)
  have lu: "length (t_data u) = unat (t_size u)" using u by (simp add: wf_tuple_def)
  have F: "unat ?F = fsp d + ln d ?s - unat (t_size u)"
    using unat_shift [of "GetFreeSpacePointer d" z "t_size u"] z room S I by (simp add: add_diff_eq)
  have P: "unat ?P = lo d ?s + ln d ?s - unat (t_size u)"
    using unat_shift [of ofs z "t_size u"] z room S I by (simp add: ofs_def add_diff_eq)
  have PF: "24 \<le> unat ?F" "24 \<le> unat ?P" "unat ?P + unat (t_size u) \<le> 4096" "unat ?F + (lo d ?s - fsp d) \<le> 4096"
    using F P room S I by auto
  let ?d1 = "copy_at (unat ?F) (seg (fsp d) (unat ofs - fsp d) d) d"
  let ?d2 = "SetFreeSpacePointer ?F ?d1"
  let ?d3 = "copy_at (unat ?P) (t_data u) ?d2"
  let ?d4 = "copy_at (28 + 8 * ?s) (enc32 (t_size u)) ?d3"
  have len: "length ?d1 = 4096" "length ?d2 = 4096" "length ?d3 = 4096" "length ?d4 = 4096"
    using I PF s4 by (simp_all add: SetFreeSpacePointer_def)
  have sl: "seg (fsp d) n (SetLSN l d) = seg (fsp d) n d" for n
    using I by (intro seg_SetLSN) auto
  have c1: "copy_at (unat ?F) src (SetLSN l d) = SetLSN l (copy_at (unat ?F) src d)" for src
    using I PF by (intro SetLSN_copy_at) auto
  have c2: "SetFreeSpacePointer ?F (SetLSN l ?d1) = SetLSN l ?d2"
    using len(1) by (simp add: SetFreeSpacePointer_def SetLSN_copy_at)
  have c3: "copy_at (unat ?P) (t_data u) (SetLSN l ?d2) = SetLSN l ?d3"
    using len(2) PF by (intro SetLSN_copy_at) auto
  have n: "GetTupleCount ?d1 = GetTupleCount d" "GetTupleCount ?d2 = GetTupleCount ?d1" "GetTupleCount ?d3 = GetTupleCount ?d2" "GetTupleCount ?d4 = GetTupleCount ?d3"
    using copy_keeps(1) [OF I(1), of "unat ?F" "seg (fsp d) (unat ofs - fsp d) d"] copy_keeps(1) [OF len(1), of 16 "enc32 ?F"]
      copy_keeps(1) [OF len(2), of "unat ?P" "t_data u"] copy_keeps(1) [OF len(3), of "28 + 8 * ?s" "enc32 (t_size u)"] I PF s4 lu
    by (simp_all add: ofs_def SetFreeSpacePointer_def UInt32_Serialize_def)
  have all: "all_slots (SetLSN l ?d4) = all_slots ?d4" using SetLSN_keeps(1) [OF len(4)] by (simp add: all_slots_def)
  have "24 + 8 * cnt ?d4 \<le> 4096" using n I(2,3) by simp
  note sh = shift_offsets_SetLSN [OF len(4) all_slots_in_page [OF this], of "ofs + z" "z - t_size u" l]
  have r1: "slice_range (unat (GetFreeSpacePointer d)) (unat ofs) d = Some (seg (fsp d) (unat ofs - fsp d) d)"
    "slice_range (unat (GetFreeSpacePointer d)) (unat ofs) (SetLSN l d) = Some (seg (fsp d) (unat ofs - fsp d) d)"
    "slice_range 0 (unat (t_size u)) (t_data u) = Some (t_data u)"
    using I S sl lu by (simp_all add: ofs_def)
  have g: "go_copy (unat ?F) src d = Some (copy_at (unat ?F) src d)" "go_copy (unat ?F) src (SetLSN l d) = Some (SetLSN l (copy_at (unat ?F) src d))"
    "go_copy (unat ?P) (t_data u) ?d2 = Some ?d3" "go_copy (unat ?P) (t_data u) (SetLSN l ?d2) = Some (SetLSN l ?d3)" for src
    using I PF len c1 c3 by simp_all
  have ge: "ofs \<ge> GetFreeSpacePointer d" using S by (simp add: ofs_def word_le_nat_alt)
  have st: "SetTupleSize slot (t_size u) ?d3 = Some ?d4" "SetTupleSize slot (t_size u) (SetLSN l ?d3) = Some (SetLSN l ?d4)"
    using slot_set(2) [OF len(3) s4] slot_set(2) [of "SetLSN l ?d3", OF _ s4] len(3) s4 by (simp_all add: SetLSN_copy_at)
  show ?thesis
    unfolding replace_tuple_def Let_def SetLSN_keeps(2) [OF I(1)]
    using r1 g ge st c2 all sh by simp
qed

subsection \<open>What an operation logs\<close>

lemma log_write_logged:
  assumes "log_inv (x_log c) (x_disk c)" and "wf_record (mk (x_txn c))" and "log_write True mk d (Some c) = Some (d', x')"
  defines "lr \<equiv> (mk (x_txn c))\<lparr>Lsn := next_lsn (x_log c)\<rparr>"
  shows "d' = SetLSN (Lsn lr) d \<and> (\<exists>c'. x' = Some c' \<and> log_inv (x_log c') (x_disk c') \<and>
    log_stream (x_log c') (x_disk c') = log_stream (x_log c) (x_disk c) @ record_bytes lr)"
  using AppendLogRecord_spec [OF assms(1,2)] assms(3) by (auto simp: log_write_def lr_def)

text \<open>The log is as before and the locks may have changed.\<close>

definition same_log :: "ctx \<Rightarrow> ctx \<Rightarrow> bool" where
  "same_log c c' \<longleftrightarrow> x_log c' = x_log c \<and> x_disk c' = x_disk c"

lemma same_log_refl [simp]: "same_log c c"
  by (simp add: same_log_def)

lemma lock_same_log:
  "lock_new True r (Some c) = Some (ok, x') \<Longrightarrow> \<exists>c'. x' = Some c' \<and> same_log c c'"
  "lock_for_write True r (Some c) = Some (ok, x') \<Longrightarrow> \<exists>c'. x' = Some c' \<and> same_log c c'"
  by (auto simp: lock_new_def lock_for_write_def with_lock_def same_log_def bind_Some_iff split: prod.splits if_splits)

definition logged :: "LogRecord \<Rightarrow> ctx \<Rightarrow> ctx option \<Rightarrow> bool" where
  "logged lr c x' \<longleftrightarrow> wf_record lr \<and> Lsn lr = next_lsn (x_log c) \<and> (\<exists>c'. x' = Some c' \<and> log_inv (x_log c') (x_disk c') \<and>
     log_stream (x_log c') (x_disk c') = log_stream (x_log c) (x_disk c) @ record_bytes lr)"

lemma log_write_after_lock:
  assumes inv: "log_inv (x_log c) (x_disk c)" and s: "same_log c c1" and wf: "\<And>txn. wf_record (mk txn)"
    and w: "log_write True mk d (Some c1) = Some (d', x')"
  shows "\<exists>txn. logged ((mk txn)\<lparr>Lsn := next_lsn (x_log c)\<rparr>) c x' \<and> d' = SetLSN (next_lsn (x_log c)) d"
  using log_write_logged [OF _ wf w] inv s wf by (auto simp: logged_def same_log_def)

lemma insert_logged:
  assumes inv: "log_inv (x_log c) (x_disk c)" and t: "wf_tuple t" "unat (t_size t) \<le> 4096"
    and run: "InsertTuple True t d (Some c) = Some (Inr (r, t'), d', x')"
  shows "\<exists>lr. logged lr c x' \<and> Log_record_type lr = INSERT \<and> Insert_rid lr = r \<and> map_option (SetLSN (Lsn lr)) (redo_bytes lr d) = Some d'"
proof -
  let ?mk = "\<lambda>txn :: Transaction. NewLogRecordInsertDelete (txn_id txn) (prev_lsn txn) INSERT r t'"
  have c: "t_size t \<noteq> 0" "\<not> getFreeSpaceRemaining d < t_size t + sizeTuple" using run by (auto simp: InsertTuple_def split: if_split_asm)
  obtain slot locked x1 where l: "free_slot (cnt d) 0 d = Some slot" "lock_new True (RID_Set RID_zero (GetTablePageId d) slot) (Some c) = Some (locked, x1)"
    using run c by (auto simp: InsertTuple_def bind_Some_iff Let_def)
  have k: locked using run c l by (cases locked) (simp_all add: InsertTuple_def Let_def)
  define d5 where "d5 d4 = (if slot = GetTupleCount d4 then SetTupleCount (GetTupleCount d4 + 1) d4 else d4)" for d4
  have "r = RID_Set RID_zero (GetTablePageId d) slot \<and> t' = t\<lparr>t_rid := Some r\<rparr> \<and>
      (\<exists>d4. setTuple slot t' (SetFreeSpacePointer (GetFreeSpacePointer d - t_size t) d) = Some d4 \<and>
        log_write True ?mk (d5 d4) x1 = Some (d', x'))"
    using run c l k by (auto simp: InsertTuple_def Let_def bind_Some_iff d5_def [symmetric])
  then obtain d4 where i: "r = RID_Set RID_zero (GetTablePageId d) slot" "t' = t\<lparr>t_rid := Some r\<rparr>"
      "setTuple slot t' (SetFreeSpacePointer (GetFreeSpacePointer d - t_size t) d) = Some d4" "log_write True ?mk (d5 d4) x1 = Some (d', x')"
    by blast
  have lk: "lock_new True r (Some c) = Some (True, x1)" using l k i(1) by simp
  obtain c1 where c1: "x1 = Some c1" "same_log c c1" using lock_same_log(1) [OF lk] by blast
  have "wf_record (?mk txn)" for txn using t i(2) by (intro wf_record_InsertDelete) (auto simp: wf_tuple_def)
  from log_write_after_lock [OF inv c1(2) this i(4) [unfolded c1(1)]] obtain txn where
    w: "logged ((?mk txn)\<lparr>Lsn := next_lsn (x_log c)\<rparr>) c x'"
      "d' = SetLSN (next_lsn (x_log c)) (d5 d4)" by blast
  let ?lr = "(?mk txn)\<lparr>Lsn := next_lsn (x_log c)\<rparr>"
  have f: "Log_record_type ?lr = INSERT" "Insert_rid ?lr = r" "Insert_tuple ?lr = t'" "Lsn ?lr = next_lsn (x_log c)"
    by (simp_all add: NewLogRecordInsertDelete_def Let_def)
  have "InsertTuple False (t'\<lparr>t_rid := Some r\<rparr>) d None = Some (Inr (r, t'), d5 d4, None)"
    using i(1-3) c l(1) by (simp add: InsertTuple_def lock_new_def log_write_def Let_def d5_def)
  then have "map_option (SetLSN (Lsn ?lr)) (redo_bytes ?lr d) = Some d'"
    unfolding redo_bytes_def f w(2) by (simp add: insert_op_def)
  with w(1) f show ?thesis by blast
qed

lemma mark_logged:
  assumes inv: "log_inv (x_log c) (x_disk c)" and d: "tp_inv d"
    and run: "MarkDelete True r d (Some c) = Some (True, d', x')"
  shows "\<exists>lr. logged lr c x' \<and> Log_record_type lr = MARKDELETE \<and> Delete_rid lr = r \<and> map_option (SetLSN (Lsn lr)) (redo_bytes lr d) = Some d'"
proof -
  let ?mk = "\<lambda>txn :: Transaction. NewLogRecordInsertDelete (txn_id txn) (prev_lsn txn) MARKDELETE r tuple_zero"
  obtain w x1 d1 where i: "\<not> GetSlotNum r \<ge> GetTupleCount d" "GetTupleSize (GetSlotNum r) d = Some w" "\<not> IsDeleted w" "w > 0"
      "lock_for_write True r (Some c) = Some (True, x1)" "log_write True ?mk d x1 = Some (d1, x')"
      "SetTupleSize (GetSlotNum r) (SetDeletedFlag w) d1 = Some d'"
    using run by (auto simp: MarkDelete_def bind_Some_iff Let_def IsDeleted_def word_gt_0 abort_txn_def split: if_splits)
  obtain c1 where c1: "x1 = Some c1" "same_log c c1" using lock_same_log(2) [OF i(5)] by blast
  obtain txn where l: "logged ((?mk txn)\<lparr>Lsn := next_lsn (x_log c)\<rparr>) c x'" "d1 = SetLSN (next_lsn (x_log c)) d"
    using log_write_after_lock [OF inv c1(2) wf_record_dummy [of MARKDELETE, simplified] i(6) [unfolded c1(1)]] by blast
  let ?lr = "(?mk txn)\<lparr>Lsn := next_lsn (x_log c)\<rparr>"
  have f: "Log_record_type ?lr = MARKDELETE" "Delete_rid ?lr = r" "Lsn ?lr = next_lsn (x_log c)"
    by (simp_all add: NewLogRecordInsertDelete_def Let_def)
  have s4: "32 + 8 * unat (GetSlotNum r) \<le> 4096" using slot_in_page [OF d] i(1) by (simp add: word_le_nat_alt)
  have "map_option (SetLSN (Lsn ?lr)) (redo_bytes ?lr d) = Some d'"
    unfolding redo_bytes_def f using i(1-4,7) l(2) SetLSN_slots(4) [OF tp_invD(1) [OF d] s4]
    by (auto simp: mark_op_def MarkDelete_def lock_for_write_def log_write_def Let_def)
  with l(1) f show ?thesis by blast
qed

lemma rollback_logged:
  assumes inv: "log_inv (x_log c) (x_disk c)" and d: "tp_inv d"
    and run: "RollbackDelete True r d (Some c) = Some (d', x')"
  shows "\<exists>lr. logged lr c x' \<and> Log_record_type lr = ROLLBACKDELETE \<and> Delete_rid lr = r \<and> map_option (SetLSN (Lsn lr)) (redo_bytes lr d) = Some d'"
proof -
  let ?mk = "\<lambda>txn :: Transaction. NewLogRecordInsertDelete (txn_id txn) (prev_lsn txn) ROLLBACKDELETE r tuple_zero"
  obtain w d1 where i: "log_write True ?mk d (Some c) = Some (d1, x')" "GetSlotNum r < GetTupleCount d1" "GetTupleSize (GetSlotNum r) d1 = Some w"
      "(if IsDeleted w then SetTupleSize (GetSlotNum r) (UnsetDeletedFlag w) d1 else Some d1) = Some d'"
    using run by (auto simp: RollbackDelete_def bind_Some_iff Let_def split: if_splits)
  obtain txn where l: "logged ((?mk txn)\<lparr>Lsn := next_lsn (x_log c)\<rparr>) c x'" "d1 = SetLSN (next_lsn (x_log c)) d"
    using log_write_after_lock [OF inv same_log_refl wf_record_dummy [of ROLLBACKDELETE, simplified] i(1)] by blast
  let ?lr = "(?mk txn)\<lparr>Lsn := next_lsn (x_log c)\<rparr>"
  have f: "Log_record_type ?lr = ROLLBACKDELETE" "Delete_rid ?lr = r" "Lsn ?lr = next_lsn (x_log c)"
    by (simp_all add: NewLogRecordInsertDelete_def Let_def)
  have n: "GetTupleCount d1 = GetTupleCount d" using SetLSN_keeps(1) [OF tp_invD(1) [OF d]] l(2) by simp
  have s4: "32 + 8 * unat (GetSlotNum r) \<le> 4096" using slot_in_page [OF d] i(2) n by (simp add: word_less_nat_alt)
  have "map_option (SetLSN (Lsn ?lr)) (redo_bytes ?lr d) = Some d'"
    unfolding redo_bytes_def f using i(2-4) n l(2) SetLSN_slots(2,4) [OF tp_invD(1) [OF d] s4]
    by (auto simp: rollback_op_def RollbackDelete_def assert_exclusive_def log_write_def Let_def split: if_splits)
  with l(1) f show ?thesis by blast
qed

lemma apply_logged:
  assumes inv: "log_inv (x_log c) (x_disk c)" and d: "tp_inv d" and u: "used d (unat (SlotNum r))"
    and run: "ApplyDelete True r d (Some c) = Some (d', x')"
  shows "\<exists>lr. logged lr c x' \<and> Log_record_type lr = APPLYDELETE \<and> Delete_rid lr = r \<and> map_option (SetLSN (Lsn lr)) (redo_bytes lr d) = Some d'"
proof -
  let ?s = "unat (SlotNum r)"
  note S = tp_invD(4-6) [OF d u] and I = tp_invD [OF d]
  have lt: "SlotNum r < GetTupleCount d" "?s < cnt d" using u by (auto simp: used_def word_less_nat_alt)
  define z where "z = UnsetDeletedFlag (sz d ?s)"
  have z: "(if IsDeleted (sz d ?s) then UnsetDeletedFlag (sz d ?s) else sz d ?s) = z" "unat z = ln d ?s"
    using u Unset_noflag [of "sz d ?s"] by (auto simp: z_def len_def IsDeleted_iff used_def)
  have sum: "unat (so d ?s + z) = lo d ?s + ln d ?s" using unat_add_less [of "so d ?s" z] z S by simp
  let ?t = "\<lparr>t_rid = Some r, t_size = z, t_data = seg (lo d ?s) (ln d ?s) d\<rparr>"
  let ?mk = "\<lambda>txn :: Transaction. NewLogRecordInsertDelete (txn_id txn) (prev_lsn txn) APPLYDELETE r ?t"
  have wf: "wf_record (?mk txn)" for txn using S I z by (intro wf_record_InsertDelete) (auto simp: wf_tuple_def)
  obtain d1 where i: "log_write True ?mk d (Some c) = Some (d1, x')" "compact (SlotNum r) (so d ?s) z d1 = Some d'"
    using run lt slot_read [OF d lt(2)] z(1) sum S I
    by (auto simp: ApplyDelete_def GetSlotNum_def Let_def bind_Some_iff)
  obtain txn where l: "logged ((?mk txn)\<lparr>Lsn := next_lsn (x_log c)\<rparr>) c x'" "d1 = SetLSN (next_lsn (x_log c)) d"
    using log_write_after_lock [OF inv same_log_refl wf i(1)] by blast
  let ?lr = "(?mk txn)\<lparr>Lsn := next_lsn (x_log c)\<rparr>"
  have f: "Log_record_type ?lr = APPLYDELETE" "Delete_rid ?lr = r" "Lsn ?lr = next_lsn (x_log c)"
    by (simp_all add: NewLogRecordInsertDelete_def Let_def)
  obtain d0 where d0: "compact (SlotNum r) (so d ?s) z d = Some d0" "d' = SetLSN (next_lsn (x_log c)) d0"
    using i(2) compact_SetLSN [OF d u, of "next_lsn (x_log c)"] l(2) by (auto simp: z_def)
  have "ApplyDelete False r d None = Some (d0, None)"
    using lt slot_read [OF d lt(2)] z(1) sum S I d0(1)
    by (simp add: ApplyDelete_def GetSlotNum_def Let_def assert_exclusive_def log_write_def)
  then have "map_option (SetLSN (Lsn ?lr)) (redo_bytes ?lr d) = Some d'"
    unfolding redo_bytes_def f using d0(2) by (simp add: apply_op_def)
  with l(1) f show ?thesis by blast
qed

lemma update_logged:
  assumes inv: "log_inv (x_log c) (x_disk c)" and d: "tp_inv d" and v: "tp_view d (unat (SlotNum r)) = Some (False, bs)"
    and upd: "update_row idxs sch new (NewTuple (Some r) (of_nat (length bs)) bs) = Some u"
    and u: "wf_tuple u" "t_size u \<noteq> 0"
    and run: "UpdateTuple True new idxs sch old r d (Some c) = Some ((True, e), old', d', x')"
  shows "\<exists>lr. logged lr c x' \<and> Log_record_type lr = UPDATE \<and> Update_rid lr = r \<and> Old_tuple lr = NewTuple (Some r) (of_nat (length bs)) bs \<and> map_option (SetLSN (Lsn lr)) (redo_bytes lr d) = Some d'"
proof -
  let ?s = "unat (SlotNum r)"
  have us: "used d ?s" and nf: "\<not> bit (sz d ?s) 31" and bs: "bs = seg (lo d ?s) (ln d ?s) d"
    using v by (auto simp: tp_view_def split: if_splits)
  note S = tp_invD(4-6) [OF d us] and I = tp_invD [OF d]
  have lt: "\<not> SlotNum r \<ge> GetTupleCount d" "?s < cnt d" using us by (auto simp: used_def word_le_nat_alt)
  have ts: "unat (sz d ?s) = ln d ?s" using nf by (simp add: len_noflag)
  have lb: "length bs = ln d ?s" using bs S I by simp
  have tw: "of_nat (length bs) = sz d ?s" using lb ts [symmetric] by simp
  have nd: "\<not> IsDeleted (sz d ?s)" using nf us by (simp add: IsDeleted_iff used_def)
  have sum: "unat (so d ?s + sz d ?s) = lo d ?s + ln d ?s" using unat_add_less [of "so d ?s" "sz d ?s"] ts S by simp
  let ?ot = "\<lparr>t_rid = Some r, t_size = sz d ?s, t_data = bs\<rparr>"
  have upd': "update_row idxs sch new ?ot = Some u" using upd tw by (simp add: NewTuple_def)
  have free: "unat (getFreeSpaceRemaining d + sz d ?s) = fsp d - 24 - 8 * cnt d + ln d ?s"
    using room_eq [OF d] unat_add_less [of "getFreeSpaceRemaining d" "sz d ?s"] ts S I by simp
  let ?mk = "\<lambda>txn :: Transaction. NewLogRecordUpdate (txn_id txn) (prev_lsn txn) UPDATE r ?ot u"
  have sl: "slice_range (lo d ?s) (lo d ?s + ln d ?s) d = Some bs" using bs S I by simp
  have nz: "t_size new > 0" using run by (auto simp: UpdateTuple_def split: if_split_asm)
  have room: "\<not> getFreeSpaceRemaining d + sz d ?s < t_size u"
    using run nz lt slot_read [OF d lt(2)] nd sum sl upd' by (auto simp: UpdateTuple_def GetSlotNum_def Let_def)
  then have room': "24 + 8 * cnt d + unat (t_size u) \<le> fsp d + ln d ?s"
    using free I by (simp add: word_less_nat_alt)
  have wf: "wf_record (?mk txn)" for txn
    using u(1) ts room' I S lb by (intro wf_record_Update) (auto simp: wf_tuple_def)
  obtain ok x1 where k: "lock_for_write True r (Some c) = Some (ok, x1)" "ok"
    using run nz lt slot_read [OF d lt(2)] nd sum sl upd' room by (auto simp: UpdateTuple_def GetSlotNum_def Let_def bind_Some_iff split: if_split_asm)
  obtain c1 where c1: "x1 = Some c1" "same_log c c1" using lock_same_log(2) [OF k(1)] by blast
  obtain d1 where i: "log_write True ?mk d (Some c1) = Some (d1, x')" "replace_tuple (SlotNum r) (so d ?s) (sz d ?s) u d1 = Some d'"
    using run nz lt slot_read [OF d lt(2)] nd sum sl upd' room k c1(1) by (auto simp: UpdateTuple_def GetSlotNum_def Let_def bind_Some_iff)
  obtain txn where l: "logged ((?mk txn)\<lparr>Lsn := next_lsn (x_log c)\<rparr>) c x'" "d1 = SetLSN (next_lsn (x_log c)) d"
    using log_write_after_lock [OF inv c1(2) wf i(1)] by blast
  let ?lr = "(?mk txn)\<lparr>Lsn := next_lsn (x_log c)\<rparr>"
  have f: "Log_record_type ?lr = UPDATE" "Update_rid ?lr = r" "Old_tuple ?lr = NewTuple (Some r) (of_nat (length bs)) bs" "New_tuple ?lr = u" "Lsn ?lr = next_lsn (x_log c)"
    by (simp_all add: NewLogRecordUpdate_def Let_def NewTuple_def tw)
  obtain d0 where d0: "replace_tuple (SlotNum r) (so d ?s) (sz d ?s) u d = Some d0" "d' = SetLSN (next_lsn (x_log c)) d0"
    using i(2) replace_tuple_SetLSN [OF d us nf u(1) room', of "next_lsn (x_log c)"] l(2) by auto
  have "UpdateTuple False u None None old0 r d None = Some ((True, None, None), ?ot, d0, None)" for old0
    using lt slot_read [OF d lt(2)] nd sum sl room d0(1) u(2)
    by (simp add: UpdateTuple_def GetSlotNum_def Let_def update_row_def lock_for_write_def log_write_def word_gt_0)
  then have "map_option (SetLSN (Lsn ?lr)) (redo_bytes ?lr d) = Some d'"
    unfolding redo_bytes_def f(1,2,4,5) using d0(2) by (simp add: update_op_def)
  with l(1) f show ?thesis by blast
qed

end
