(* ===== verification/Recovery_History.thy ===== *)
theory Recovery_History
  imports Recovery_Laws
begin

text \<open>
  The history of one page under logging, and what the redo pass makes of any version of it: the version that was
  on disk at the crash is brought to the version of the crash.  Undo takes back what the records say was done.
\<close>

subsection \<open>Operations on a page\<close>

datatype page_op = PInsert tuple | PUpdate tuple "int list option" "schema option" tuple rid | PMark rid | PApply rid | PRollback rid

text \<open>Run an operation of a transaction with logging on.  Result: whether it changed the page, the page, the context.\<close>

fun run_op :: "page_op \<Rightarrow> bytes \<Rightarrow> ctx \<Rightarrow> (bool \<times> bytes \<times> ctx option) option" where
  "run_op (PInsert t) d c = do { (res, d, x) \<leftarrow> InsertTuple True t d (Some c); Some (\<not> isl res, d, x) }"
| "run_op (PUpdate new idxs sch old r) d c = do { ((ok, _), _, d, x) \<leftarrow> UpdateTuple True new idxs sch old r d (Some c); Some (ok, d, x) }"
| "run_op (PMark r) d c = MarkDelete True r d (Some c)"
| "run_op (PApply r) d c = do { (d, x) \<leftarrow> ApplyDelete True r d (Some c); Some (True, d, x) }"
| "run_op (PRollback r) d c = do { (d, x) \<leftarrow> RollbackDelete True r d (Some c); Some (True, d, x) }"

text \<open>What the log record of an operation says of the page before and after it.\<close>

definition rec_slot :: "LogRecord \<Rightarrow> nat" where
  "rec_slot lr = unat (SlotNum (if Log_record_type lr = INSERT then Insert_rid lr
     else if Log_record_type lr = UPDATE then Update_rid lr else Delete_rid lr))"

definition images :: "LogRecord \<Rightarrow> bytes \<Rightarrow> bytes \<Rightarrow> bool" where
  "images lr d d' \<longleftrightarrow>
     (Log_record_type lr = INSERT \<longrightarrow> tp_view d (rec_slot lr) = None \<and> (\<exists>bs. tp_view d' (rec_slot lr) = Some (False, bs))) \<and>
     (Log_record_type lr = MARKDELETE \<longrightarrow>
        (\<exists>bs. tp_view d (rec_slot lr) = Some (False, bs) \<and> tp_view d' (rec_slot lr) = Some (True, bs))) \<and>
     (Log_record_type lr = UPDATE \<longrightarrow> tp_view d (rec_slot lr) = Some (False, t_data (Old_tuple lr)) \<and>
        wf_tuple (Old_tuple lr) \<and> t_size (Old_tuple lr) \<noteq> 0 \<and> (\<exists>bs. tp_view d' (rec_slot lr) = Some (False, bs)))"

text \<open>The tuples the operation is given are well-formed, and it is applied to a record that exists.\<close>

fun op_ok :: "page_op \<Rightarrow> bytes \<Rightarrow> bool" where
  "op_ok (PInsert t) d \<longleftrightarrow> wf_tuple t \<and> unat (t_size t) < 4294967288"
| "op_ok (PUpdate new idxs sch old r) d \<longleftrightarrow> t_size new \<noteq> 0 \<and> (case tp_view d (unat (SlotNum r)) of
     Some (False, bs) \<Rightarrow> (case update_row idxs sch new (NewTuple (Some r) (of_nat (length bs)) bs) of
       Some u \<Rightarrow> wf_tuple u \<and> t_size u \<noteq> 0 | None \<Rightarrow> False)
   | _ \<Rightarrow> False)"
| "op_ok (PMark r) d \<longleftrightarrow> True"
| "op_ok (PApply r) d \<longleftrightarrow> tp_view d (unat (SlotNum r)) \<noteq> None"
| "op_ok (PRollback r) d \<longleftrightarrow> tp_view d (unat (SlotNum r)) \<noteq> None"

lemma run_insert:
  assumes d: "tp_inv d" and inv: "log_inv (x_log c) (x_disk c)" and t: "wf_tuple t" "unat (t_size t) < 4294967288"
    and run: "InsertTuple True t d (Some c) = Some (Inr (r, t'), d', x')"
  shows "tp_inv d' \<and> (\<exists>lr. logged lr c x' \<and> images lr d d' \<and> map_option (SetLSN (Lsn lr)) (redo_bytes lr d) = Some d')"
proof -
  have x: "ctx_ok True (Some c)" using inv by (simp add: ctx_ok_def)
  have "\<not> getFreeSpaceRemaining d < t_size t + sizeTuple" using run by (auto simp: InsertTuple_def split: if_split_asm)
  then have "unat (t_size t) \<le> 4096" using no_room_iff [OF d t(2)] tp_invD(3) [OF d] by simp
  then show ?thesis
    using InsertTuple_spec [OF d t x] insert_logged [OF inv t(1) _ run] run by (fastforce simp: images_def rec_slot_def)
qed

lemma run_op_logged:
  assumes d: "tp_inv d" and inv: "log_inv (x_log c) (x_disk c)" and ok: "op_ok op d" and run: "run_op op d c = Some (True, d', x')"
  shows "tp_inv d' \<and> (\<exists>lr. logged lr c x' \<and> images lr d d' \<and> map_option (SetLSN (Lsn lr)) (redo_bytes lr d) = Some d')"
proof -
  have x: "ctx_ok True (Some c)" using inv by (simp add: ctx_ok_def)
  show ?thesis
  proof (cases op)
    case (PInsert t)
    then obtain a where a: "InsertTuple True t d (Some c) = Some (a, d', x')" "\<not> isl a"
      using run by (auto simp: bind_Some_iff)
    obtain r t' where "a = Inr (r, t')" using a(2) by (cases a) auto
    with a(1) have "InsertTuple True t d (Some c) = Some (Inr (r, t'), d', x')" by simp
    from run_insert [OF d inv _ _ this] show ?thesis using ok PInsert by simp
  next
    case (PUpdate new idxs sch old r)
    obtain e old' where u: "UpdateTuple True new idxs sch old r d (Some c) = Some ((True, e), old', d', x')"
      using run PUpdate by (auto simp: bind_Some_iff)
    obtain bs v where v: "tp_view d (unat (SlotNum r)) = Some (False, bs)"
        "update_row idxs sch new (NewTuple (Some r) (of_nat (length bs)) bs) = Some v" "wf_tuple v" "t_size v \<noteq> 0" "t_size new \<noteq> 0"
      using ok PUpdate by (auto split: option.splits prod.splits bool.splits)
    have "tp_inv d'" and a: "tp_view d' (unat (SlotNum r)) = Some (False, t_data v)"
      using UpdateTuple_spec [OF d x v(5,1-4), of old] u by (auto split: if_splits)
    have "length bs < 4294967296" "bs \<noteq> []"
      using v(1) tp_invD(1) [OF d] tp_invD(4-6) [OF d, of "unat (SlotNum r)"] by (auto simp: tp_view_def split: if_split_asm)
    then have "unat (of_nat (length bs) :: u32) = length bs" "(of_nat (length bs) :: u32) \<noteq> 0"
      using unat_of_nat32 [of "length bs"] by (auto simp: word_unat_eq_iff simp del: word_of_nat_eq_0_iff)
    moreover obtain lr where "logged lr c x'" "Log_record_type lr = UPDATE" "Update_rid lr = r" "Old_tuple lr = NewTuple (Some r) (of_nat (length bs)) bs"
        "map_option (SetLSN (Lsn lr)) (redo_bytes lr d) = Some d'"
      using update_logged [OF inv d v(1-4) u] by blast
    moreover from calculation have "images lr d d'" using v(1) a by (simp add: images_def rec_slot_def NewTuple_def wf_tuple_def)
    ultimately show ?thesis using \<open>tp_inv d'\<close> by blast
  next
    case (PMark r)
    then have m: "MarkDelete True r d (Some c) = Some (True, d', x')" using run by simp
    then have "tp_inv d'" "\<exists>bs. tp_view d (unat (SlotNum r)) = Some (False, bs) \<and> tp_view d' (unat (SlotNum r)) = Some (True, bs)" using MarkDelete_spec [OF d x, of r] by auto
    then show ?thesis using mark_logged [OF inv d m] by (fastforce simp: images_def rec_slot_def)
  next
    case (PApply r)
    then have a: "ApplyDelete True r d (Some c) = Some (d', x')" using run by (auto simp: bind_Some_iff)
    have u: "used d (unat (SlotNum r))" using ok PApply by (auto simp: tp_view_def split: if_split_asm)
    have "assert_exclusive True r (Some c) = Some ()"
      using a by (auto simp: ApplyDelete_def Let_def bind_Some_iff split: if_split_asm)
    then have "tp_inv d'" using ApplyDelete_spec [OF d x u] a by auto
    then show ?thesis using apply_logged [OF inv d u a] by (fastforce simp: images_def)
  next
    case (PRollback r)
    then have a: "RollbackDelete True r d (Some c) = Some (d', x')" using run by (auto simp: bind_Some_iff)
    obtain b bs where v: "tp_view d (unat (SlotNum r)) = Some (b, bs)" using ok PRollback by auto
    have "assert_exclusive True r (Some c) = Some ()"
      using a by (auto simp: RollbackDelete_def Let_def bind_Some_iff)
    then have "tp_inv d'" using RollbackDelete_spec [OF d x v] a by auto
    then show ?thesis using rollback_logged [OF inv d a] by (fastforce simp: images_def)
  qed
qed

subsection \<open>Histories\<close>

text \<open>
  \<open>page_history d h\<close>: \<open>h\<close> lists the operations that changed the page since version \<open>d\<close>, each as the record it has put
  into the log (whatever the context \<open>c\<close> it ran in) and the version it has left.
\<close>

inductive page_history :: "bytes \<Rightarrow> (LogRecord \<times> bytes) list \<Rightarrow> bool" where
  hist_nil: "tp_inv d \<Longrightarrow> page_history d []"
| hist_op: "tp_inv d \<Longrightarrow> op_ok op d \<Longrightarrow> log_inv (x_log c) (x_disk c) \<Longrightarrow> sint (GetLSN d) < sint (next_lsn (x_log c)) \<Longrightarrow>
    run_op op d c = Some (True, d', x') \<Longrightarrow> logged lr c x' \<Longrightarrow> page_history d' h \<Longrightarrow> page_history d ((lr, d') # h)"

inductive_cases page_history_ConsE: "page_history d (e # h)"

fun redo_all :: "LogRecord list \<Rightarrow> bytes \<Rightarrow> bytes option" where
  "redo_all [] d = Some d"
| "redo_all (lr # lrs) d = do { d \<leftarrow> redo_page lr d; redo_all lrs d }"

lemma record_bytes_inj:
  assumes "wf_record a" and "wf_record b" and "record_bytes a = record_bytes b"
  shows "same_record a b"
proof -
  obtain r s where "DeserializeLogRecord (record_bytes a @ []) [] LogRecord_zero = Some (True, r)" "same_record r a"
      "DeserializeLogRecord (record_bytes b @ []) [] LogRecord_zero = Some (True, s)" "same_record s b"
    using DeserializeLogRecord_bytes assms(1,2) by blast
  then have "same_record r a" "same_record r b" using assms(3) by simp_all
  then show ?thesis by (simp add: same_record_def same_tuple_def)
qed

lemma logged_unique: "logged a c x \<Longrightarrow> logged b c x \<Longrightarrow> same_record a b"
  by (rule record_bytes_inj) (auto simp: logged_def)

lemma length_SetLSN_any: "length (SetLSN l d) = length d"
  by (simp add: SetLSN_def copy_at_def)

lemma history_step:
  assumes "tp_inv d" and "op_ok op d" and "log_inv (x_log c) (x_disk c)" and "run_op op d c = Some (True, d', x')" and "logged lr c x'"
    and "sint (GetLSN d) < sint (next_lsn (x_log c))"
  shows "redo_page lr d = Some d' \<and> GetLSN d' = Lsn lr \<and> sint (GetLSN d) < sint (Lsn lr) \<and> images lr d d' \<and> tp_inv d'"
proof -
  obtain lr' where l: "tp_inv d'" "logged lr' c x'" "images lr' d d'" "map_option (SetLSN (Lsn lr')) (redo_bytes lr' d) = Some d'"
    using run_op_logged [OF assms(1,3,2,4)] by blast
  have s: "same_record lr lr'" using logged_unique [OF assms(5) l(2)] .
  then have e: "map_option (SetLSN (Lsn lr)) (redo_bytes lr d) = Some d'"
    using l(4) redo_bytes_same [OF s, of d] by (simp add: same_record_def)
  have lsn: "Lsn lr = next_lsn (x_log c)" using assms(5) by (simp add: logged_def)
  obtain d0 where "d' = SetLSN (Lsn lr) d0" using e by auto
  then have "GetLSN d' = Lsn lr" using GetLSN_SetLSN [of d0] length_SetLSN_any [of "Lsn lr" d0] tp_invD(1) [OF l(1)] by simp
  moreover have "images lr d d'" using l(3) s by (auto simp: images_def rec_slot_def same_record_def same_tuple_def wf_tuple_def)
  ultimately show ?thesis using e assms(6) lsn l(1) by (simp add: redo_page_def)
qed

lemma history_lsn: "page_history d h \<Longrightarrow> v \<in> set (d # map snd h) \<Longrightarrow> sint (GetLSN d) \<le> sint (GetLSN v)"
proof (induction rule: page_history.induct)
  case (hist_op d op c d' x' lr h)
  then show ?case using history_step [OF hist_op(1-3,5,6,4)] by force
qed simp

lemma history_redo:
  "page_history d h \<Longrightarrow> v \<in> set (d # map snd h) \<Longrightarrow> redo_all (map fst h) v = Some (last (d # map snd h))"
proof (induction arbitrary: v rule: page_history.induct)
  case (hist_op d op c d' x' lr h)
  note s = history_step [OF hist_op(1-3,5,6,4)]
  show ?case
  proof (cases "v = d")
    case True
    then show ?thesis using s hist_op.IH [of d'] by simp
  next
    case False
    then have v: "v \<in> set (d' # map snd h)" using hist_op.prems by simp
    then have "\<not> sint (GetLSN v) < sint (Lsn lr)" using history_lsn [OF hist_op(7) v] s by simp
    then have "redo_page lr v = Some v" by (simp add: redo_page_def)
    then show ?thesis using hist_op.IH [OF v] by simp
  qed
qed simp

end
