(* ===== verification/Recovery_Pool.thy ===== *)
theory Recovery_Pool
  imports Recovery_History
begin

text \<open>
  Redo and undo of one record through the buffer pool.  While the log buffer is empty the pool adds nothing to the
  log file, so the log that recovery reads stays as it is although pages are evicted under way.
\<close>

subsection \<open>The log file stays\<close>

definition quiet :: "bytes \<Rightarrow> BufferPool \<Rightarrow> bool" where
  "quiet log bp \<longleftrightarrow> lm_offset (log_manager bp) = 0 \<and> f_bytes (dm_log (diskManager bp)) = log"

lemma ReadPage_log: "dm_log (snd (ReadPage p d)) = dm_log d"
  by (auto simp: ReadPage_def Let_def split: prod.splits option.splits)

lemma quiet_evict:
  assumes inv: "bp_inv bp" and q: "quiet log bp" and e: "evict f (bp\<lparr>bp_replacer := r\<rparr>) = Some bp'"
  shows "quiet log bp'"
proof -
  have li: "log_inv (log_manager bp) (diskManager bp)" using inv by (simp add: bp_inv_def disk_ok_def)
  show ?thesis
    using e q Flush_spec [OF li]
    by (auto simp: evict_def quiet_def bind_Some_iff WritePage_log log_stream_def split: option.splits if_split_asm)
qed

lemma quiet_claim:
  assumes inv: "bp_inv bp" and q: "quiet log bp" and g: "getFrameID bp = Some (Some f, fl, bp1)"
    and e: "(if fl then Some bp1 else evict f bp1) = Some bp2"
  shows "quiet log bp2"
  using g e q quiet_evict [OF inv q] by (auto simp: getFrameID_def quiet_def bind_Some_iff split: list.splits)

lemma quiet_install: "quiet log bp \<Longrightarrow> install f pg bp = Some bp' \<Longrightarrow> quiet log bp'"
  by (auto simp: install_def quiet_def split: if_split_asm)

lemma quiet_Fetch:
  assumes inv: "bp_inv bp" and q: "quiet log bp" and r: "FetchPage p bp = Some (Some f, bp')"
  shows "quiet log bp'"
proof (cases "pageTable bp p")
  case (Some g)
  then show ?thesis using r q by (auto simp: FetchPage_def quiet_def Let_def bind_Some_iff)
next
  case None
  obtain fl bp1 bp2 data where c: "getFrameID bp = Some (Some f, fl, bp1)" "(if fl then Some bp1 else evict f bp1) = Some bp2"
      "install f (page_New p False data) (bp2\<lparr>diskManager := snd (ReadPage p (diskManager bp2))\<rparr>) = Some bp'"
    using FetchPage_miss_run [OF r None] by metis
  have "quiet log (bp2\<lparr>diskManager := snd (ReadPage p (diskManager bp2))\<rparr>)"
    using quiet_claim [OF inv q c(1,2)] by (simp add: quiet_def ReadPage_log)
  then show ?thesis using quiet_install c(3) by blast
qed

lemma quiet_New:
  assumes inv: "bp_inv bp" and q: "quiet log bp" and r: "NewPage bp = Some (Some f, bp')"
  shows "quiet log bp'"
proof -
  obtain fl bp1 bp2 k where c: "getFrameID bp = Some (Some f, fl, bp1)" "(if fl then Some bp1 else evict f bp1) = Some bp2"
      "install f (page_NewEmpty (nextPageID (diskManager bp2))) (bp2\<lparr>diskManager := (diskManager bp2)\<lparr>nextPageID := k\<rparr>\<rparr>) = Some bp'"
    using r by (auto simp: NewPage_def AllocatePage_def Let_def bind_Some_iff split: option.splits prod.splits)
  have "quiet log (bp2\<lparr>diskManager := (diskManager bp2)\<lparr>nextPageID := k\<rparr>\<rparr>)"
    using quiet_claim [OF inv q c(1,2)] by (simp add: quiet_def)
  then show ?thesis using quiet_install c(3) by blast
qed

lemma quiet_set_frame [simp]: "quiet log (set_frame f pg bp) = quiet log bp"
  by (simp add: quiet_def)

lemma quiet_Unpin: "quiet log bp \<Longrightarrow> UnpinPage p dirty bp = Some (ok, bp') \<Longrightarrow> quiet log bp'"
  by (auto simp: UnpinPage_def quiet_def bind_Some_iff Let_def split: option.splits)

subsection \<open>One page through the pool\<close>

text \<open>The state of the database as recovery sees it: the next page number and the pages.\<close>

type_synonym pages = "pageID \<Rightarrow> bytes option"

definition pool_has :: "bytes \<Rightarrow> nat \<Rightarrow> pageID \<Rightarrow> pages \<Rightarrow> BufferPool \<Rightarrow> bool" where
  "pool_has log m n v bp \<longleftrightarrow> pool_ok {} m bp \<and> 0 < m \<and> quiet log bp \<and> nextPageID (diskManager bp) = n \<and>
     (\<forall>p d. v p = Some d \<longrightarrow> disk_page p \<and> bp_view bp p = Some d \<and> length d = 4096)"

lemma fetch_write_unpin:
  assumes h: "pool_has log m n v bp" and p: "v p = Some d"
  obtains f bp1 pg where "FetchPage p bp = Some (Some f, bp1)" "frame_page bp1 f = Some pg" "pg_data pg = d"
    and "\<And>d'. length d' = 4096 \<Longrightarrow>
      \<exists>bp2. UnpinPage p True (set_frame f (pg\<lparr>pg_data := d'\<rparr>) bp1) = Some (True, bp2) \<and> pool_has log m n (v(p \<mapsto> d')) bp2"
    and "\<exists>bp2. UnpinPage p True bp1 = Some (True, bp2) \<and> pool_has log m n v bp2"
proof -
  have ok: "pool_ok {} m bp" and m: "0 < m" and q: "quiet log bp" and n: "nextPageID (diskManager bp) = n"
    and v: "\<And>p d. v p = Some d \<Longrightarrow> disk_page p \<and> bp_view bp p = Some d \<and> length d = 4096"
    using h by (auto simp: pool_has_def)
  note V = v [OF p]
  obtain f bp1 where f: "FetchPage p bp = Some (Some f, bp1)" "pool_ok {p} m bp1" "held p f d True bp1" "kept_but {} bp bp1"
      "nextPageID (diskManager bp1) = n"
    using fetch_held [OF ok, of p d] V m n by auto
  obtain pg where pg: "frame_page bp1 f = Some pg" "pg_data pg = d" using f(3) by (auto simp: held_def resident_def)
  note i1 = pool_okD(1) [OF f(2)] and q1 = quiet_Fetch [OF pool_okD(1) [OF ok] q f(1)]
  have *: "\<exists>bp2. UnpinPage p True (set_frame f (pg\<lparr>pg_data := d'\<rparr>) bp1) = Some (True, bp2) \<and> pool_has log m n (v(p \<mapsto> d')) bp2"
    if len: "length d' = 4096" for d'
  proof -
    let ?b = "set_frame f (pg\<lparr>pg_data := d'\<rparr>) bp1"
    have w: "pool_ok {p} m ?b" "held p f d' (True \<and> d' = d) ?b" "kept_but {p} bp1 ?b" "nextPageID (diskManager ?b) = n"
      using write_held [OF f(2,3) len log_only_self [OF i1] pg(1)] f(5) by auto
    obtain bp2 where u: "UnpinPage p True ?b = Some (True, bp2)" "pool_ok {} m bp2" "kept_but {} ?b bp2" "bp_view bp2 p = Some d'"
        "diskManager bp2 = diskManager ?b"
      using unpin_held [OF w(1,2), of True] by auto
    have "kept_but {p} bp bp2" using kept_but_trans [OF kept_but_trans [OF f(4) w(3)] u(3)] by simp
    then have "pool_has log m n (v(p \<mapsto> d')) bp2"
      using u w(4) m len v V quiet_Unpin [OF _ u(1)] q1 by (auto simp: pool_has_def kept_but_def)
    with u(1) show ?thesis by blast
  qed
  have "\<exists>bp2. UnpinPage p True bp1 = Some (True, bp2) \<and> pool_has log m n v bp2"
  proof -
    obtain bp2 where u: "UnpinPage p True bp1 = Some (True, bp2)" "pool_ok {} m bp2" "kept_but {} bp1 bp2" "bp_view bp2 p = Some d"
        "diskManager bp2 = diskManager bp1"
      using unpin_held [OF f(2,3), of True] by auto
    have "kept_but {} bp bp2" using kept_but_trans [OF f(4) u(3)] by simp
    then show ?thesis using u f(5) m v V quiet_Unpin [OF q1 u(1)] by (auto simp: pool_has_def kept_but_def)
  qed
  with that [OF f(1) pg *] show thesis by blast
qed

subsection \<open>Redo of a record\<close>

lemma length_copy_at_any: "length (copy_at off src d) = length d"
  by (simp add: copy_at_def)

lemma length_go_copy: "go_copy off src d = Some d' \<Longrightarrow> length d' = length d"
  by (auto simp: go_copy_def length_copy_at_any split: if_split_asm)

lemma length_shift_offsets: "shift_offsets iis b n d = Some d' \<Longrightarrow> length d' = length d"
  by (induction iis arbitrary: d) (auto simp: bind_Some_iff SetTupleOffsetAtSlot_def dest!: length_go_copy split: if_split_asm)

lemmas length_ops = length_copy_at_any SetFreeSpacePointer_def SetTupleCount_def setTuple_def SetTupleSize_def SetTupleOffsetAtSlot_def

lemma length_redo_bytes: "redo_bytes lr d = Some d' \<Longrightarrow> length d' = length d"
  by (auto simp: redo_bytes_def insert_op_def update_op_def mark_op_def apply_op_def rollback_op_def InsertTuple_def UpdateTuple_def
      MarkDelete_def ApplyDelete_def RollbackDelete_def log_write_def lock_new_def lock_for_write_def abort_txn_def assert_exclusive_def compact_def replace_tuple_def
      Let_def bind_Some_iff length_ops dest!: length_go_copy length_shift_offsets split: if_split_asm)

end
