(* ===== verification/Recovery_Spec.thy ===== *)
theory Recovery_Spec
  imports Recovery_Pool
begin

text \<open>
  The two passes of recovery.  \<open>replay\<close> is the redo pass and \<open>unwind\<close> the undo pass on the pages themselves; the program,
  which reads the log through a buffer and reaches the pages through the buffer pool, implements them.  The log is taken to
  be made of whole records and to fit the buffer of \<^verbatim>\<open>common.LogBufferSize\<close> bytes: a record that reaches over the end of
  the buffer is read wrongly, and a partial record at the end of the file makes \<^verbatim>\<open>Redo\<close> read the file forever.
\<close>

subsection \<open>Redo on the pages\<close>

definition page_record :: "LogRecord \<Rightarrow> bool" where
  "page_record lr \<longleftrightarrow> Log_record_type lr \<in> {INSERT, APPLYDELETE, MARKDELETE, ROLLBACKDELETE, UPDATE}"

definition rec_page :: "LogRecord \<Rightarrow> pageID" where
  "rec_page lr = (if Log_record_type lr = INSERT then PageId (Insert_rid lr)
     else if Log_record_type lr = UPDATE then PageId (Update_rid lr) else PageId (Delete_rid lr))"

definition fresh_page :: "pageID \<Rightarrow> pageID \<Rightarrow> bytes option" where
  "fresh_page n prev = map_option fst (Init False n prev (replicate 4096 0) None)"

definition replay1 :: "LogRecord \<Rightarrow> pageID \<times> pages \<Rightarrow> (pageID \<times> pages) option" where
  "replay1 lr s = (case s of (n, v) \<Rightarrow>
     if page_record lr then do {
       d \<leftarrow> v (rec_page lr);
       d \<leftarrow> redo_page lr d;
       Some (n, v(rec_page lr \<mapsto> d)) }
     else if Log_record_type lr = NEWPAGE then
       (if unat n < 524288 then do { d \<leftarrow> fresh_page n (Prev_page_id lr); Some (n + 1, v(n \<mapsto> d)) } else None)
     else Some (n, v))"

fun replay :: "LogRecord list \<Rightarrow> pageID \<times> pages \<Rightarrow> (pageID \<times> pages) option" where
  "replay [] s = Some s"
| "replay (lr # lrs) s = do { s \<leftarrow> replay1 lr s; replay lrs s }"

lemma redo_on_spec:
  assumes h: "pool_has log m n v bp" and p: "v p = Some d" and len: "length d' = 4096"
    and op: "(if sint (GetLSN d) < sint l then map_option (SetLSN l) (map_option snd (op d)) else Some d) = Some d'"
  shows "\<exists>a' bp'. redo_on p l a op bp = Some (a', bp') \<and> pool_has log m n (v(p \<mapsto> d')) bp'"
proof -
  obtain f bp1 pg where f: "FetchPage p bp = Some (Some f, bp1)" "frame_page bp1 f = Some pg" "pg_data pg = d"
    and w: "\<And>d'. length d' = 4096 \<Longrightarrow>
      \<exists>bp2. UnpinPage p True (set_frame f (pg\<lparr>pg_data := d'\<rparr>) bp1) = Some (True, bp2) \<and> pool_has log m n (v(p \<mapsto> d')) bp2"
    and k: "\<exists>bp2. UnpinPage p True bp1 = Some (True, bp2) \<and> pool_has log m n v bp2"
    using fetch_write_unpin [OF h p] by blast
  show ?thesis
  proof (cases "sint (GetLSN d) < sint l")
    case True
    then show ?thesis using op w [OF len] f by (auto simp: redo_on_def Let_def)
  next
    case False
    then have "d' = d" using op by simp
    then show ?thesis using False k f p by (auto simp: redo_on_def fun_upd_idem)
  qed
qed

lemma undo_on_spec:
  assumes h: "pool_has log m n v bp" and p: "v p = Some d" and len: "length d' = 4096" and op: "map_option snd (op d) = Some d'"
  shows "\<exists>a' bp'. undo_on p op bp = Some (a', bp') \<and> pool_has log m n (v(p \<mapsto> d')) bp'"
proof -
  obtain f bp1 pg where f: "FetchPage p bp = Some (Some f, bp1)" "frame_page bp1 f = Some pg" "pg_data pg = d"
    and w: "\<And>d'. length d' = 4096 \<Longrightarrow>
      \<exists>bp2. UnpinPage p True (set_frame f (pg\<lparr>pg_data := d'\<rparr>) bp1) = Some (True, bp2) \<and> pool_has log m n (v(p \<mapsto> d')) bp2"
    using fetch_write_unpin [OF h p] by blast
  show ?thesis using op w [OF len] f by (auto simp: undo_on_def Let_def)
qed

lemma redo_newpage_spec:
  assumes h: "pool_has log m n v bp" and n: "unat n < 524288" and d: "fresh_page n prev = Some d"
  shows "\<exists>bp'. redo_newpage False prev bp = Some bp' \<and> pool_has log m (n + 1) (v(n \<mapsto> d)) bp'"
proof -
  have ok: "pool_ok {} m bp" and m: "0 < m" and q: "quiet log bp" and nx: "nextPageID (diskManager bp) = n"
    and v: "\<And>p d. v p = Some d \<Longrightarrow> disk_page p \<and> bp_view bp p = Some d \<and> length d = 4096"
    using h by (auto simp: pool_has_def)
  obtain f bp1 where f: "NewPage bp = Some (Some f, bp1)" "pool_ok {n} m bp1" "held n f (replicate 4096 0) False bp1"
      "frame_page bp1 f = Some (page_NewEmpty n)" "kept_but {n} bp bp1" "nextPageID (diskManager bp1) = n + 1"
    using new_held [OF ok] m n nx by auto
  obtain x where i: "Init False n prev (replicate 4096 0) None = Some (d, x)" using d by (auto simp: fresh_page_def)
  have len: "length d = 4096" using i by (auto simp: Init_def log_write_def Let_def header_defs)
  let ?b = "set_frame f ((page_NewEmpty n)\<lparr>pg_data := d\<rparr>) bp1"
  have w: "pool_ok {n} m ?b" "held n f d (False \<and> d = replicate 4096 0) ?b" "kept_but {n} bp1 ?b" "nextPageID (diskManager ?b) = n + 1"
    using write_held [OF f(2,3) len log_only_self [OF pool_okD(1) [OF f(2)]] f(4)] f(6) by auto
  obtain bp2 where u: "UnpinPage n True ?b = Some (True, bp2)" "pool_ok {} m bp2" "kept_but {} ?b bp2" "bp_view bp2 n = Some d"
      "diskManager bp2 = diskManager ?b"
    using unpin_held [OF w(1,2), of True] by auto
  have k: "kept_but {n} bp bp2" using kept_but_trans [OF kept_but_trans [OF f(5) w(3)] u(3)] by simp
  have dp: "disk_page n" using held_page [OF f(3) pool_okD(1) [OF f(2)]] by simp
  have q2: "quiet log bp2" using quiet_Unpin [OF _ u(1)] quiet_New [OF pool_okD(1) [OF ok] q f(1)] by simp
  have "pool_has log m (n + 1) (v(n \<mapsto> d)) bp2"
    using u w(4) m len v dp q2 k by (auto simp: pool_has_def kept_but_def)
  moreover have "redo_newpage False prev bp = Some bp2"
    using f(1,4) i u(1) by (simp add: redo_newpage_def Let_def page_NewEmpty_def)
  ultimately show ?thesis by blast
qed

lemma redo_record_spec:
  assumes h: "pool_has log m n v bp" and s: "same_record r lr" and rp: "replay1 lr (n, v) = Some (n', v')"
  shows "\<exists>r' bp'. redo_record False r bp = Some (r', bp') \<and> pool_has log m n' v' bp' \<and> Size r' = Size lr"
proof (cases "page_record lr")
  case True
  then obtain d d' where d: "v (rec_page lr) = Some d" "redo_page lr d = Some d'" "n' = n" "v' = v(rec_page lr \<mapsto> d')"
    using rp by (auto simp: replay1_def bind_Some_iff)
  have len: "length d' = 4096"
    using d(1,2) h length_redo_bytes [of lr d] by (auto simp: redo_page_def pool_has_def length_SetLSN_any split: if_split_asm)
  have r: "redo_page r d = Some d'" using redo_page_same [OF s] d(2) by simp
  have t: "Log_record_type r = Log_record_type lr" "Size r = Size lr" "rec_page r = rec_page lr"
    using s True by (auto simp: same_record_def rec_page_def page_record_def)
  have op: "\<exists>a' bp'. redo_on (rec_page r) (Lsn r) a op bp = Some (a', bp') \<and> pool_has log m n v' bp'"
    if "map_option snd (op d) = redo_bytes r d" for a :: 'a and op
    unfolding t(3) d(4) by (rule redo_on_spec [OF h d(1) len]) (use r in \<open>simp only: redo_page_def that\<close>)
  note ins = op [of "insert_op False (Insert_rid r) (Insert_tuple r)" "Insert_tuple r"]
    and upd = op [of "update_op False (Update_rid r) (New_tuple r) (Old_tuple r)" "Old_tuple r"]
    and del = op [of "apply_op False (Delete_rid r)" "()"] op [of "mark_op False (Delete_rid r)" "()"] op [of "rollback_op False (Delete_rid r)" "()"]
  consider "Log_record_type r = INSERT" | "Log_record_type r = UPDATE" | "Log_record_type r = APPLYDELETE"
    | "Log_record_type r = MARKDELETE" | "Log_record_type r = ROLLBACKDELETE" using True t(1) by (auto simp: page_record_def)
  then show ?thesis
    using ins upd del t(2) d(3) by cases (fastforce simp: redo_record_def redo_bytes_def rec_page_def GetPageId_def)+
next
  case False
  then have r: "\<not> page_record r" using s by (simp add: same_record_def page_record_def)
  show ?thesis
  proof (cases "Log_record_type lr = NEWPAGE")
    case True
    then show ?thesis
      using rp False r s redo_newpage_spec [OF h] by (auto simp: replay1_def redo_record_def same_record_def bind_Some_iff split: if_split_asm)
  next
    case new: False
    then show ?thesis
      using rp False r s h by (auto simp: replay1_def redo_record_def same_record_def page_record_def)
  qed
qed

subsection \<open>The redo loops\<close>

abbreviation log_bytes :: "LogRecord list \<Rightarrow> bytes" where
  "log_bytes rs \<equiv> concat (map record_bytes rs)"

fun note_all :: "LogRecord list \<Rightarrow> u32 \<Rightarrow> LogRecovery \<Rightarrow> LogRecovery" where
  "note_all [] off lr = lr"
| "note_all (r # rs) off lr = note_all rs (off + Size r) (note_record r off lr)"

lemma note_record_same: "same_record a b \<Longrightarrow> note_record a off lr = note_record b off lr"
  by (simp add: note_record_def same_record_def Let_def)

lemma note_buffer [simp]: "lr_buffer (note_record r off lr) = lr_buffer lr" "lr_buffer (note_all rs off lr) = lr_buffer lr"
proof -
  show "lr_buffer (note_record r off lr) = lr_buffer lr" for r off lr by (simp add: note_record_def Let_def)
  then show "lr_buffer (note_all rs off lr) = lr_buffer lr" by (induction rs arbitrary: off lr) simp_all
qed

lemma redo_buffer_spec:
  assumes "pool_has log m n v bp" and "replay rs (n, v) = Some (n', v')" and "\<forall>r \<in> set rs. wf_record r"
    and "lr_buffer lr = pre @ log_bytes rs @ spare" and "unat off = length pre" and "unat rb = length pre + length (log_bytes rs)"
    and "length pre + length (log_bytes rs) \<le> 45056"
  shows "\<exists>bp'. redo_buffer False 0 rb off rec lr bp = Some (rb, note_all rs off lr, bp') \<and> pool_has log m n' v' bp'"
  using assms
proof (induction rs arbitrary: n v bp pre off rec lr)
  case Nil
  have "slice_range (unat off) (unat rb) (lr_buffer lr) = Some []" using Nil.prems by simp
  moreover have "off = rb" using Nil.prems(5,6) by (simp add: word_unat_eq_iff)
  ultimately show ?case using Nil.prems(1,2) by (subst redo_buffer.simps) (simp add: DeserializeLogRecord_def)
next
  case (Cons r rs)
  obtain n1 v1 where rp: "replay1 r (n, v) = Some (n1, v1)" "replay rs (n1, v1) = Some (n', v')"
    using Cons.prems(2) by (auto simp: bind_Some_iff)
  have wf: "wf_record r" using Cons.prems(3) by simp
  have len: "length (record_bytes r) = unat (Size r)" using wf by (simp add: wf_record_def)
  obtain q where q: "DeserializeLogRecord (record_bytes r @ log_bytes rs) spare rec = Some (True, q)" "same_record q r"
    using DeserializeLogRecord_bytes [OF wf] by blast
  obtain q' bp1 where b: "redo_record False q bp = Some (q', bp1)" "pool_has log m n1 v1 bp1" "Size q' = Size r"
    using redo_record_spec [OF Cons.prems(1) q(2) rp(1)] by blast
  have sl: "slice_range (unat off) (unat rb) (lr_buffer lr) = Some (record_bytes r @ log_bytes rs)"
      "drop (unat rb) (lr_buffer lr) = spare"
    using Cons.prems(4-6) by (simp_all add: slice_range_def)
  have o: "unat (off + Size r) = length pre + length (record_bytes r)"
    using unat_add_less [of off "Size r"] Cons.prems(5,7) len by simp
  obtain bp' where "redo_buffer False 0 rb (off + Size r) q' (note_record r off lr) bp1 = Some (rb, note_all rs (off + Size r) (note_record r off lr), bp')"
      "pool_has log m n' v' bp'"
    using Cons.IH [OF b(2) rp(2), of "note_record r off lr" "pre @ record_bytes r" "off + Size r" q'] Cons.prems(3,4,6,7) o by auto
  then show ?case
    using q(1) sl b(1,3) note_record_same [OF q(2)] by (subst redo_buffer.simps) (simp add: Let_def)
qed

lemma ReadLog_all:
  assumes "f_bytes (dm_log d) = log" and "log \<noteq> []" and "length log \<le> 45056" and "length buf = 45056"
  shows "ReadLog buf 0 rb d = (True, log @ drop (length log) buf, of_nat (length log), d\<lparr>dm_log := \<lparr>f_bytes = log, f_pos = length log\<rparr>\<rparr>)"
  using assms by (simp add: ReadLog_def GetLogFileSize_def f_read_def f_seek_def Let_def copy_at_def)

lemma sint_small: "unat w < 2147483648 \<Longrightarrow> sint w = int (unat w)" for w :: i32
proof -
  assume "unat w < 2147483648"
  then have "int (unat w) < int 2147483648" by (simp only: of_nat_less_iff)
  moreover have u: "uint w = int (unat w)" by simp
  ultimately have b: "0 \<le> uint w" "uint w < 2147483648" by linarith+
  have "sint w = signed_take_bit 31 (uint w)" by (simp only: sint_uint) simp
  also have "\<dots> = uint w"
  proof (rule signed_take_bit_int_eq_self)
    show "- (2 ^ 31) \<le> uint w" by (rule order_trans [of _ 0]) simp_all
  qed (use b in simp)
  finally show ?thesis by simp
qed

lemma ReadLog_end:
  assumes "length (f_bytes (dm_log d)) \<le> 45056" and "unat off = length (f_bytes (dm_log d))"
  shows "ReadLog buf off rb d = (False, buf, rb, d)"
proof -
  have "sint off = int (unat off)" using assms by (intro sint_small) simp
  then show ?thesis using assms by (simp add: ReadLog_def GetLogFileSize_def)
qed

text \<open>Moving the position of the log file to its end.\<close>

lemma pool_has_log_pos:
  assumes h: "pool_has log m n v bp"
  shows "pool_has log m n v (bp\<lparr>diskManager := (diskManager bp)\<lparr>dm_log := \<lparr>f_bytes = log, f_pos = length log\<rparr>\<rparr>\<rparr>)"
proof -
  let ?d = "(diskManager bp)\<lparr>dm_log := \<lparr>f_bytes = log, f_pos = length log\<rparr>\<rparr>"
  have ok: "pool_ok {} m bp" using h by (simp add: pool_has_def)
  have "log_inv (log_manager bp) (diskManager bp)" using pool_okD(1) [OF ok] by (simp add: bp_inv_def disk_ok_def)
  then have l: "log_only bp (log_manager bp) ?d" by (simp add: log_only_def log_inv_def log_at_end_def)
  show ?thesis
    using pool_log_only [OF ok l] h by (auto simp: pool_has_def quiet_def same_view_def)
qed

lemma Redo_spec:
  assumes h: "pool_has (log_bytes rs) m n v bp" and rp: "replay rs (n, v) = Some (n', v')" and wf: "\<forall>r \<in> set rs. wf_record r"
    and len: "length (log_bytes rs) \<le> 45056"
  shows "\<exists>lr' bp'. Redo False lr bp = Some (lr', bp') \<and> pool_has (log_bytes rs) m n' v' bp' \<and> length (lr_buffer lr') = 45056 \<and>
    active_txn lr' = active_txn (note_all rs 0 lr) \<and> lsn_mapping lr' = lsn_mapping (note_all rs 0 lr)"
proof -
  let ?log = "log_bytes rs" and ?T = "of_nat (length (log_bytes rs)) :: u32"
  have T: "unat ?T = length ?log" using len by (intro unat_of_nat32) simp
  have lg: "f_bytes (dm_log (diskManager bp)) = ?log" using h by (simp add: pool_has_def quiet_def)
  let ?lr = "lr\<lparr>lr_buffer := replicate 45056 0\<rparr>"
  have note_eq: "active_txn (note_all rs off (l\<lparr>lr_buffer := b\<rparr>)) = active_txn (note_all rs off l) \<and>
      lsn_mapping (note_all rs off (l\<lparr>lr_buffer := b\<rparr>)) = lsn_mapping (note_all rs off l)" for off l b
  proof (induction rs arbitrary: off l)
    case (Cons r rs)
    have "note_record r off (l\<lparr>lr_buffer := b\<rparr>) = (note_record r off l)\<lparr>lr_buffer := b\<rparr>" by (simp add: note_record_def Let_def)
    then show ?case using Cons by simp
  qed simp
  show ?thesis
  proof (cases "rs = []")
    case True
    have "ReadLog b 0 0 (diskManager bp) = (False, b, 0, diskManager bp)" for b
      using lg True by (intro ReadLog_end) simp_all
    then have "Redo False lr bp = Some (?lr, bp)"
      unfolding Redo_def by (subst redo_file.simps) (simp add: Let_def)
    then show ?thesis using True h rp by simp
  next
    case False
    then obtain r0 where "r0 \<in> set rs" by (cases rs) auto
    moreover have "record_bytes r0 \<noteq> []" using length_header [of r0] by (auto simp: record_bytes_def simp del: length_header)
    ultimately have ne: "?log \<noteq> []" by auto
    let ?bp = "bp\<lparr>diskManager := (diskManager bp)\<lparr>dm_log := \<lparr>f_bytes = ?log, f_pos = length ?log\<rparr>\<rparr>\<rparr>"
    let ?b = "?log @ drop (length ?log) (replicate 45056 0)"
    have rd: "ReadLog (replicate 45056 0) 0 0 (diskManager bp) = (True, ?b, ?T, diskManager ?bp)"
      using ReadLog_all [OF lg ne len, of "replicate 45056 0" 0] by simp
    obtain bp' where b: "redo_buffer False 0 ?T 0 LogRecord_zero (lr\<lparr>lr_buffer := ?b\<rparr>) ?bp = Some (?T, note_all rs 0 (lr\<lparr>lr_buffer := ?b\<rparr>), bp')"
        "pool_has ?log m n' v' bp'"
      using redo_buffer_spec [OF pool_has_log_pos [OF h] rp wf, where lr = "lr\<lparr>lr_buffer := ?b\<rparr>" and pre = "[]" and off = 0 and rb = ?T and rec = LogRecord_zero] T len by auto
    have lg': "f_bytes (dm_log (diskManager bp')) = ?log" using b(2) by (simp add: pool_has_def quiet_def)
    have "ReadLog x ?T ?T (diskManager bp') = (False, x, ?T, diskManager bp')" for x
      using lg' len T by (intro ReadLog_end) simp_all
    then have "redo_file False ?T ?T (note_all rs 0 (lr\<lparr>lr_buffer := ?b\<rparr>)) bp' = Some (note_all rs 0 (lr\<lparr>lr_buffer := ?b\<rparr>), bp')"
      by (subst redo_file.simps) (simp add: Let_def)
    then have "Redo False lr bp = Some (note_all rs 0 (lr\<lparr>lr_buffer := ?b\<rparr>), bp')"
      unfolding Redo_def using rd b(1) by (subst redo_file.simps) (simp add: Let_def)
    then show ?thesis using b(2) note_eq [of 0 ?b lr] len by simp
  qed
qed

subsection \<open>What the redo pass notes\<close>

text \<open>A transaction is open at the end of the log when its last record is not a commit; its LSN is that of this record.\<close>

definition open_lsn :: "LogRecord list \<Rightarrow> txnID \<Rightarrow> LSN option" where
  "open_lsn rs t = (let xs = filter (\<lambda>r. Txn_id r = t) rs in
     if xs = [] \<or> Log_record_type (last xs) = COMMIT then None else Some (Lsn (last xs)))"

lemma note_active:
  "active_txn (note_all rs off lr) t = (if filter (\<lambda>r. Txn_id r = t) rs = [] then active_txn lr t else open_lsn rs t)"
proof (induction rs arbitrary: off lr)
  case (Cons r rs)
  then show ?case by (auto simp: note_record_def open_lsn_def Let_def)
qed simp

lemma note_lsn_other: "l \<notin> Lsn ` set rs \<Longrightarrow> lsn_mapping (note_all rs off lr) l = lsn_mapping lr l"
  by (induction rs arbitrary: off lr) (simp_all add: note_record_def Let_def)

lemma note_lsn:
  assumes "\<forall>r \<in> set rs. wf_record r" and "distinct (map Lsn rs)" and "unat off + length (log_bytes rs) < 2 ^ 32" and "i < length rs"
  shows "lsn_mapping (note_all rs off lr) (Lsn (rs ! i)) = Some (int (unat off + length (log_bytes (take i rs))))"
  using assms
proof (induction rs arbitrary: off lr i)
  case (Cons r rs)
  have len: "length (record_bytes r) = unat (Size r)" using Cons.prems(1) by (simp add: wf_record_def)
  show ?case
  proof (cases i)
    case 0
    have "Lsn r \<notin> Lsn ` set rs" using Cons.prems(2) by auto
    then show ?thesis using 0 note_lsn_other [of "Lsn r" rs] by (simp add: note_record_def Let_def)
  next
    case (Suc j)
    have o: "unat (off + Size r) = unat off + unat (Size r)" using unat_add_less [of off "Size r"] Cons.prems(3) len by simp
    then show ?thesis using Cons.IH [of "off + Size r" j "note_record r off lr"] Cons.prems Suc len by (simp add: add.assoc)
  qed
qed simp

subsection \<open>Undo\<close>

definition undo_bytes :: "LogRecord \<Rightarrow> bytes \<Rightarrow> bytes option" where
  "undo_bytes lr d =
     (if Log_record_type lr = INSERT then map_option snd (apply_op False (Insert_rid lr) d)
      else if Log_record_type lr = APPLYDELETE then map_option snd (insert_op False (Delete_rid lr) (Delete_tuple lr) d)
      else if Log_record_type lr = MARKDELETE then map_option snd (rollback_op False (Delete_rid lr) d)
      else if Log_record_type lr = ROLLBACKDELETE then map_option snd (mark_op False (Delete_rid lr) d)
      else if Log_record_type lr = UPDATE then map_option snd (update_op False (Update_rid lr) (Old_tuple lr) (New_tuple lr) d)
      else None)"

text \<open>Undoing the records \<open>us\<close> one after the other.\<close>

fun undo_pages :: "LogRecord list \<Rightarrow> pages \<Rightarrow> pages option" where
  "undo_pages [] v = Some v"
| "undo_pages (r # us) v =
     (if page_record r then do {
        d \<leftarrow> v (rec_page r);
        d \<leftarrow> undo_bytes r d;
        undo_pages us (v(rec_page r \<mapsto> d)) }
      else undo_pages us v)"

text \<open>The records of a transaction from the one with LSN \<open>l\<close> back to its first.\<close>

fun linked :: "LSN \<Rightarrow> LogRecord list \<Rightarrow> bool" where
  "linked l [] \<longleftrightarrow> l = InvalidLSN"
| "linked l (r # us) \<longleftrightarrow> l \<noteq> InvalidLSN \<and> Lsn r = l \<and> linked (Prev_lsn r) us"

lemma undo_bytes_same: "same_record a b \<Longrightarrow> undo_bytes a d = undo_bytes b d"
  using insert_op_same [of "Delete_tuple a" "Delete_tuple b"] update_op_same [of "Old_tuple a" "Old_tuple b"]
  by (auto simp: undo_bytes_def same_record_def)

lemma length_undo_bytes: "undo_bytes lr d = Some d' \<Longrightarrow> length d' = length d"
  by (auto simp: undo_bytes_def insert_op_def update_op_def mark_op_def apply_op_def rollback_op_def InsertTuple_def UpdateTuple_def
      MarkDelete_def ApplyDelete_def RollbackDelete_def log_write_def lock_new_def lock_for_write_def abort_txn_def assert_exclusive_def compact_def replace_tuple_def
      Let_def bind_Some_iff length_ops dest!: length_go_copy length_shift_offsets split: if_split_asm)

lemma undo_record_spec:
  assumes h: "pool_has log m n v bp" and s: "same_record r lr" and pr: "page_record lr"
    and d: "v (rec_page lr) = Some d" "undo_bytes lr d = Some d'"
  shows "\<exists>r' bp'. undo_record False r bp = Some (r', bp') \<and> pool_has log m n (v(rec_page lr \<mapsto> d')) bp' \<and> Prev_lsn r' = Prev_lsn lr"
proof -
  have len: "length d' = 4096" using d h length_undo_bytes [of lr d] by (auto simp: pool_has_def)
  have r: "undo_bytes r d = Some d'" using undo_bytes_same [OF s] d(2) by simp
  have t: "Log_record_type r = Log_record_type lr" "Prev_lsn r = Prev_lsn lr" "rec_page r = rec_page lr"
    using s pr by (auto simp: same_record_def rec_page_def page_record_def)
  have op: "\<exists>a' bp'. undo_on (rec_page r) op bp = Some (a', bp') \<and> pool_has log m n (v(rec_page lr \<mapsto> d')) bp'"
    if "map_option snd (op d) = undo_bytes r d" for op :: "bytes \<Rightarrow> ('a \<times> bytes) option"
    unfolding t(3) by (rule undo_on_spec [OF h d(1) len]) (use r in \<open>simp only: that\<close>)
  note ins = op [of "insert_op False (Delete_rid r) (Delete_tuple r)"]
    and upd = op [of "update_op False (Update_rid r) (Old_tuple r) (New_tuple r)"]
    and del = op [of "apply_op False (Insert_rid r)"] op [of "mark_op False (Delete_rid r)"] op [of "rollback_op False (Delete_rid r)"]
  consider "Log_record_type r = INSERT" | "Log_record_type r = UPDATE" | "Log_record_type r = APPLYDELETE"
    | "Log_record_type r = MARKDELETE" | "Log_record_type r = ROLLBACKDELETE" using pr t(1) by (auto simp: page_record_def)
  then show ?thesis
    using ins upd del t(2) by cases (fastforce simp: undo_record_def undo_bytes_def rec_page_def GetPageId_def)+
qed

lemma log_bytes_split: "i < length rs \<Longrightarrow> log_bytes rs = log_bytes (take i rs) @ record_bytes (rs ! i) @ log_bytes (drop (Suc i) rs)"
  using id_take_nth_drop [of i rs] by (metis concat.simps(2) concat_append map_append list.map(2))

text \<open>Reading the log from a record on.\<close>

lemma ReadLog_from:
  assumes log: "f_bytes (dm_log d) = a @ b" and b: "b \<noteq> []" and len: "length (a @ b) \<le> 45056" and buf: "length buf = 45056"
  shows "ReadLog buf (word_of_int (int (length a))) 0 d =
    (True, b @ drop (length b) buf, of_nat (length b), d\<lparr>dm_log := \<lparr>f_bytes = a @ b, f_pos = length (a @ b)\<rparr>\<rparr>)"
proof -
  have "unat (word_of_int (int (length a)) :: i32) = length a" using len unat_of_nat32 [of "length a"] by simp
  then have "sint (word_of_int (int (length a)) :: i32) = int (length a)" using sint_small [of "word_of_int (int (length a))"] len by simp
  then show ?thesis
    using log b len buf by (simp add: ReadLog_def GetLogFileSize_def f_read_def f_seek_def Let_def copy_at_def)
qed

definition lsns_noted :: "LogRecord list \<Rightarrow> LogRecovery \<Rightarrow> bool" where
  "lsns_noted rs lr \<longleftrightarrow> length (lr_buffer lr) = 45056 \<and>
     (\<forall>i < length rs. lsn_mapping lr (Lsn (rs ! i)) = Some (int (length (log_bytes (take i rs)))))"

lemma undo_step:
  assumes h: "pool_has (log_bytes rs) m n v bp" and wf: "\<forall>r \<in> set rs. wf_record r" and len: "length (log_bytes rs) \<le> 45056"
    and nt: "lsns_noted rs lr" and r: "r \<in> set rs" "Lsn r \<noteq> InvalidLSN"
    and v1: "undo_pages [r] v = Some v1"
  shows "\<exists>rec1 buf bp1. undo_txn False (Lsn r) rec lr bp = undo_txn False (Prev_lsn r) rec1 (lr\<lparr>lr_buffer := buf\<rparr>) bp1 \<and>
    length buf = 45056 \<and> pool_has (log_bytes rs) m n v1 bp1"
proof -
  let ?log = "log_bytes rs"
  obtain i where i: "i < length rs" "rs ! i = r" using r(1) by (auto simp: in_set_conv_nth)
  define a where "a = log_bytes (take i rs)"
  define z where "z = log_bytes (drop (Suc i) rs)"
  have sp: "?log = a @ record_bytes r @ z" using log_bytes_split [OF i(1)] i(2) by (simp add: a_def z_def)
  have lb: "length (lr_buffer lr) = 45056" and mp: "lsn_mapping lr (Lsn r) = Some (int (length a))"
    using nt i by (auto simp: lsns_noted_def a_def)
  have ne: "record_bytes r @ z \<noteq> []" using length_header [of r] by (auto simp: record_bytes_def simp del: length_header)
  let ?b = "record_bytes r @ z" and ?d = "(diskManager bp)\<lparr>dm_log := \<lparr>f_bytes = ?log, f_pos = length ?log\<rparr>\<rparr>"
  let ?buf = "?b @ drop (length ?b) (lr_buffer lr)"
  have lg: "f_bytes (dm_log (diskManager bp)) = a @ ?b" using h sp by (simp add: pool_has_def quiet_def)
  have rd: "ReadLog (lr_buffer lr) (word_of_int (int (length a))) 0 (diskManager bp) = (True, ?buf, of_nat (length ?b), ?d)"
    using ReadLog_from [OF lg ne _ lb] len sp by simp
  have rb: "unat (of_nat (length ?b) :: u32) = length ?b" using len sp by (intro unat_of_nat32) simp
  have lbuf: "length ?buf = 45056" using len sp lb by simp
  obtain q where q: "DeserializeLogRecord ?b (drop (length ?b) ?buf) rec = Some (True, q)" "same_record q r"
    using DeserializeLogRecord_bytes [of r z] wf r(1) by blast
  have sl: "slice_range 0 (unat (of_nat (length ?b) :: u32)) ?buf = Some ?b" unfolding rb by (simp add: slice_range_def)
  note h' = pool_has_log_pos [OF h]
  have "\<exists>q' bp1. undo_record False q (bp\<lparr>diskManager := ?d\<rparr>) = Some (q', bp1) \<and> pool_has ?log m n v1 bp1 \<and> Prev_lsn q' = Prev_lsn r"
  proof (cases "page_record r")
    case True
    then show ?thesis using undo_record_spec [OF h' q(2) True] v1 by (auto simp: bind_Some_iff)
  next
    case False
    then have "undo_record False q (bp\<lparr>diskManager := ?d\<rparr>) = Some (q, bp\<lparr>diskManager := ?d\<rparr>)"
      using q(2) by (auto simp: undo_record_def same_record_def page_record_def)
    then show ?thesis using False v1 h' q(2) by (auto simp: same_record_def)
  qed
  then obtain q' bp1 where u: "undo_record False q (bp\<lparr>diskManager := ?d\<rparr>) = Some (q', bp1)" "pool_has ?log m n v1 bp1" "Prev_lsn q' = Prev_lsn r"
    by blast
  have "undo_txn False (Lsn r) rec lr bp = undo_txn False (Prev_lsn r) q' (lr\<lparr>lr_buffer := ?buf\<rparr>) bp1"
    using r(2) mp rd sl q(1) u(1,3) rb by (subst undo_txn.simps) (simp add: Let_def)
  then show ?thesis using lbuf u(2) by blast
qed

lemma undo_pages_Cons: "undo_pages (r # us) v = do { v \<leftarrow> undo_pages [r] v; undo_pages us v }"
  by (simp split: bind_splits)

lemma undo_pages_append: "undo_pages (us @ ws) v = do { v \<leftarrow> undo_pages us v; undo_pages ws v }"
  by (induction us arbitrary: v) (simp_all split: bind_splits)

lemma undo_txn_spec:
  assumes "pool_has (log_bytes rs) m n v bp" and wf: "\<forall>r \<in> set rs. wf_record r" and len: "length (log_bytes rs) \<le> 45056"
    and "lsns_noted rs lr" and "linked l us" and "set us \<subseteq> set rs" and "undo_pages us v = Some v'"
  shows "\<exists>rec' buf bp'. undo_txn False l rec lr bp = Some (rec', lr\<lparr>lr_buffer := buf\<rparr>, bp') \<and> length buf = 45056 \<and>
    pool_has (log_bytes rs) m n v' bp'"
  using assms
proof (induction us arbitrary: l v bp rec lr)
  case Nil
  then show ?case by (subst undo_txn.simps) (auto simp: lsns_noted_def intro!: exI [of _ "lr_buffer lr"])
next
  case (Cons r us)
  obtain v1 where v1: "undo_pages [r] v = Some v1" "undo_pages us v1 = Some v'"
    using Cons.prems(7) unfolding undo_pages_Cons [of r us v] bind_Some_iff by blast
  obtain rec1 buf bp1 where s: "undo_txn False (Lsn r) rec lr bp = undo_txn False (Prev_lsn r) rec1 (lr\<lparr>lr_buffer := buf\<rparr>) bp1"
      "length buf = 45056" "pool_has (log_bytes rs) m n v1 bp1"
    using undo_step [OF Cons.prems(1) wf len Cons.prems(4) _ _ v1(1), of rec] Cons.prems(5,6) by auto
  have nt: "lsns_noted rs (lr\<lparr>lr_buffer := buf\<rparr>)" using Cons.prems(4) s(2) by (simp add: lsns_noted_def)
  show ?case
    using Cons.IH [OF s(3) wf len nt _ _ v1(2), of "Prev_lsn r" rec1] Cons.prems(5,6) s(1) by auto
qed

lemma undo_txns_spec:
  assumes "pool_has (log_bytes rs) m n v bp" and wf: "\<forall>r \<in> set rs. wf_record r" and len: "length (log_bytes rs) \<le> 45056"
    and "lsns_noted rs lr" and "\<forall>t \<in> set txns. \<exists>l. active_txn lr t = Some l \<and> linked l (trail t) \<and> set (trail t) \<subseteq> set rs"
    and "undo_pages (concat (map trail txns)) v = Some v'"
  shows "\<exists>lr' bp'. undo_txns False txns rec lr bp = Some (lr', bp') \<and> pool_has (log_bytes rs) m n v' bp'"
  using assms
proof (induction txns arbitrary: v bp rec lr)
  case (Cons t txns)
  obtain v1 where v1: "undo_pages (trail t) v = Some v1" "undo_pages (concat (map trail txns)) v1 = Some v'"
    using Cons.prems(6) by (auto simp: undo_pages_append bind_Some_iff)
  obtain l where l: "active_txn lr t = Some l" "linked l (trail t)" "set (trail t) \<subseteq> set rs" using Cons.prems(5) by auto
  obtain rec' buf bp1 where u: "undo_txn False l rec lr bp = Some (rec', lr\<lparr>lr_buffer := buf\<rparr>, bp1)" "length buf = 45056"
      "pool_has (log_bytes rs) m n v1 bp1"
    using undo_txn_spec [OF Cons.prems(1) wf len Cons.prems(4) l(2,3) v1(1)] by blast
  have nt: "lsns_noted rs (lr\<lparr>lr_buffer := buf\<rparr>)" using Cons.prems(4) u(2) by (simp add: lsns_noted_def)
  show ?case
    using Cons.IH [OF u(3) wf len nt _ v1(2), of rec'] Cons.prems(5) u(1) l(1) by auto
qed auto

end
