(* ===== verification/Crash_Recovery.thy ===== *)
theory Crash_Recovery
  imports Recovery_Spec
begin

text \<open>
  The theorems about recovery: log records round-trip, redo repeats the history of every page, undo takes an operation
  back, and the two passes together end with the recovered pages on disk.
\<close>

subsection \<open>Undoing an operation\<close>

lemma undo_effect:
  assumes e: "tp_inv e" and s: "rec_slot lr = s"
  shows "Log_record_type lr = INSERT \<Longrightarrow> tp_view e s \<noteq> None \<Longrightarrow>
      \<exists>e'. undo_bytes lr e = Some e' \<and> tp_inv e' \<and> tp_view e' = (tp_view e)(s := None)"
    and "Log_record_type lr = MARKDELETE \<Longrightarrow> tp_view e s = Some (b, bs) \<Longrightarrow>
      \<exists>e'. undo_bytes lr e = Some e' \<and> tp_inv e' \<and> tp_view e' = (tp_view e)(s \<mapsto> (False, bs))"
    and "Log_record_type lr = UPDATE \<Longrightarrow> tp_view e s = Some (False, bs) \<Longrightarrow> wf_tuple (Old_tuple lr) \<Longrightarrow> t_size (Old_tuple lr) \<noteq> 0 \<Longrightarrow>
      24 + 8 * cnt e + unat (t_size (Old_tuple lr)) \<le> fsp e + length bs \<Longrightarrow>
      \<exists>e'. undo_bytes lr e = Some e' \<and> tp_inv e' \<and> tp_view e' = (tp_view e)(s \<mapsto> (False, t_data (Old_tuple lr)))"
proof -
  have x: "ctx_ok False None" and a: "assert_exclusive False r None = Some ()" for r by (simp_all add: ctx_ok_def assert_exclusive_def)
  show "\<exists>e'. undo_bytes lr e = Some e' \<and> tp_inv e' \<and> tp_view e' = (tp_view e)(s := None)"
    if "Log_record_type lr = INSERT" "tp_view e s \<noteq> None"
  proof -
    have "used e (unat (SlotNum (Insert_rid lr)))" using that s by (auto simp: rec_slot_def tp_view_def split: if_split_asm)
    from ApplyDelete_spec [OF e x this a] show ?thesis using that(1) s by (auto simp: undo_bytes_def apply_op_def rec_slot_def)
  qed
  show "\<exists>e'. undo_bytes lr e = Some e' \<and> tp_inv e' \<and> tp_view e' = (tp_view e)(s \<mapsto> (False, bs))"
    if "Log_record_type lr = MARKDELETE" "tp_view e s = Some (b, bs)"
    using RollbackDelete_spec [OF e x _ a, of "Delete_rid lr" b bs] that s by (auto simp: undo_bytes_def rollback_op_def rec_slot_def)
  show "\<exists>e'. undo_bytes lr e = Some e' \<and> tp_inv e' \<and> tp_view e' = (tp_view e)(s \<mapsto> (False, t_data (Old_tuple lr)))"
    if U: "Log_record_type lr = UPDATE" "tp_view e s = Some (False, bs)" "wf_tuple (Old_tuple lr)" "t_size (Old_tuple lr) \<noteq> 0"
      "24 + 8 * cnt e + unat (t_size (Old_tuple lr)) \<le> fsp e + length bs"
  proof -
    have v: "tp_view e (unat (SlotNum (Update_rid lr))) = Some (False, bs)" using U(1,2) s by (simp add: rec_slot_def)
    have u: "update_row None None (Old_tuple lr) t = Some (Old_tuple lr)" for t by (simp add: update_row_def)
    obtain ok err follow d' x' where w: "UpdateTuple False (Old_tuple lr) None None (New_tuple lr) (Update_rid lr) e None =
        Some ((ok, err, follow), NewTuple (Some (Update_rid lr)) (of_nat (length bs)) bs, d', x')" "tp_inv d'"
        "if ok then err = None \<and> tp_view d' = (tp_view e)(unat (SlotNum (Update_rid lr)) \<mapsto> (False, t_data (Old_tuple lr)))
         else d' = e \<and> (err = Some ErrNotEnoughSpace \<and> follow = Some (Old_tuple lr) \<and> fsp e + length bs < 24 + 8 * cnt e + unat (t_size (Old_tuple lr)) \<or>
           err = None \<and> False)"
      using UpdateTuple_spec [OF e x U(4) v u U(3,4), of "New_tuple lr"] by auto
    then have "tp_view d' = (tp_view e)(s \<mapsto> (False, t_data (Old_tuple lr)))" using U(1,5) s by (auto simp: rec_slot_def split: if_split_asm)
    then show ?thesis using w(1,2) U(1) by (simp add: undo_bytes_def update_op_def)
  qed
qed

text \<open>C7: undo takes an operation back.  Take any insert, delete mark or update of a transaction on a page \<open>d\<close>, and let \<open>e\<close> be
  the page at a later time, when the record still is as the operation has left it (other records may have changed, but there is
  room for the old tuple of an update).  Undoing the log record of the operation gives the record of \<open>d\<close> back and leaves every
  other record of \<open>e\<close> alone.\<close>

theorem undo_restores:
  assumes "page_history d ((lr, d') # h)" and "Log_record_type lr \<in> {INSERT, MARKDELETE, UPDATE}" and "tp_inv e"
    and "tp_view e (rec_slot lr) = tp_view d' (rec_slot lr)"
    and "Log_record_type lr = UPDATE \<longrightarrow> 24 + 8 * cnt e + unat (t_size (Old_tuple lr)) \<le> fsp e + length (snd (the (tp_view e (rec_slot lr))))"
  shows "\<exists>e'. undo_bytes lr e = Some e' \<and> tp_inv e' \<and> tp_view e' = (tp_view e)(rec_slot lr := tp_view d (rec_slot lr))"
proof -
  have i: "images lr d d'" using assms(1) by (auto elim!: page_history_ConsE dest: history_step)
  consider "Log_record_type lr = INSERT" | "Log_record_type lr = MARKDELETE" | "Log_record_type lr = UPDATE" using assms(2) by blast
  then show ?thesis
    using undo_effect [OF assms(3) refl, of lr] i assms(4,5) by cases (fastforce simp: images_def)+
qed

text \<open>C2: redo repeats history.  Let \<open>h\<close> be all the operations that changed a page since version \<open>d\<close>, with the log records
  they wrote.  Whatever version of the page was on disk at the crash, redoing all these records, of which those not newer than
  the page are skipped, gives byte for byte the version that the page had at the crash.\<close>

theorem redo_repeats_history:
  assumes "page_history d h" and "v \<in> set (d # map snd h)"
  shows "redo_all (map fst h) v = Some (last (d # map snd h))"
  by (rule history_redo [OF assms])

text \<open>C21: a log record is read back from the log as it was written, whatever follows it.\<close>

theorem LogRecord_roundtrip:
  assumes "wf_record lr"
  shows "\<exists>r. DeserializeLogRecord (record_bytes lr @ rest) spare old = Some (True, r) \<and> same_record r lr"
  by (rule DeserializeLogRecord_bytes [OF assms])

theorem LogRecord_roundtrip_witness:
  "\<exists>r. DeserializeLogRecord (record_bytes (NewLogRecordInsertDelete 1 3 INSERT RID_zero example_tuple) @ [7]) [] LogRecord_zero = Some (True, r) \<and>
     t_data (Insert_tuple r) = [1, 2, 3] \<and> Prev_lsn r = 3"
proof -
  have "wf_record (NewLogRecordInsertDelete 1 3 INSERT RID_zero example_tuple)"
    by (intro wf_record_InsertDelete) (simp_all add: example_tuple_ok)
  from LogRecord_roundtrip [OF this, of "[7]" "[]" LogRecord_zero] show ?thesis
    by (auto simp: same_record_def same_tuple_def NewLogRecordInsertDelete_def Let_def example_tuple_ok)
qed

subsection \<open>A concrete history\<close>

definition example_ctx :: ctx where
  "example_ctx = \<lparr>x_txn = NewTransaction 1, x_locks = NewLockManager, x_log = NewLogManager\<lparr>next_lsn := 1\<rparr>, x_disk = empty_disk\<rparr>"

lemma example_ctx_ok: "log_inv (x_log example_ctx) (x_disk example_ctx)" "next_lsn (x_log example_ctx) = 1"
  by (simp_all add: example_ctx_def log_inv_def NewLogManager_def empty_disk_def log_at_end_def)

lemma dec32_zero: "dec32 (replicate 4 0) = 0"
  by (simp add: dec32_def read_le_def numeral_eq_Suc)

lemma example_page_lsn: "GetLSN example_page = 0"
  by (simp add: example_page_def Init_def log_write_def header_defs GetLSN_def OffsetLSN_def SizeOfLSN_def seg_copy_at_other dec32_zero)

lemma example_lock: "\<exists>x. lock_new True r (Some example_ctx) = Some (True, x)"
  by (simp add: lock_new_def example_ctx_def LockExclusive_def NewLockManager_def NewTransaction_def with_lock_def)

lemma example_history:
  obtains lr d' where "page_history example_page [(lr, d')]" "Log_record_type lr = INSERT" "tp_view d' = [rec_slot lr \<mapsto> (False, [1, 2, 3])]"
proof -
  note T = example_tuple_ok and P = example_page_ok and C = example_ctx_ok
  have x: "ctx_ok True (Some example_ctx)" using C by (simp add: ctx_ok_def)
  have sz: "unat (t_size example_tuple) < 4294967288" "unat (t_size example_tuple) \<le> 4096" by (simp_all add: T)
  have room: "\<not> getFreeSpaceRemaining example_page < t_size example_tuple + sizeTuple"
    using no_room_iff [OF P(1) sz(1)] P(3,4) T(2) by simp
  show thesis
  proof (rule InsertTuple_runs [OF P(1) T(1) sz(1) x])
    fix e x' assume "InsertTuple True example_tuple example_page (Some example_ctx) = Some (Inl e, example_page, x')"
    then show thesis
      using room P(3) T(2) example_lock [of "RID_Set RID_zero (GetTablePageId example_page) 0"]
      by (auto simp: InsertTuple_def Let_def bind_Some_iff)
  next
    fix r t' d' x' assume i: "InsertTuple True example_tuple example_page (Some example_ctx) = Some (Inr (r, t'), d', x')"
    obtain lr where l: "logged lr example_ctx x'" "Log_record_type lr = INSERT" "Insert_rid lr = r"
      using insert_logged [OF C(1) T(1) sz(2) i] by blast
    have v: "tp_view d' = [unat (SlotNum r) \<mapsto> (False, [1, 2, 3])]" "tp_inv d'"
      using InsertTuple_spec [OF P(1) T(1) sz(1) x] i P(2) T(3) by auto
    have "page_history example_page [(lr, d')]"
    proof (rule hist_op)
      show "op_ok (PInsert example_tuple) example_page" using T sz by simp
      show "run_op (PInsert example_tuple) example_page example_ctx = Some (True, d', x')" using i by simp
      show "sint (GetLSN example_page) < sint (next_lsn (x_log example_ctx))" using C(2) by (simp add: example_page_lsn)
      show "page_history d' []" using v(2) by (rule hist_nil)
    qed (use P(1) C l in auto)
    then show thesis using that [of lr d'] l v by (simp add: rec_slot_def)
  qed
qed

theorem redo_repeats_history_witness:
  "\<exists>lr d'. tp_view d' = [rec_slot lr \<mapsto> (False, [1, 2, 3])] \<and> redo_all [lr] example_page = Some d' \<and> redo_all [lr] d' = Some d'"
proof (rule example_history)
  fix lr d' assume h: "page_history example_page [(lr, d')]" "tp_view d' = [rec_slot lr \<mapsto> (False, [1, 2, 3])]"
  show ?thesis
    using redo_repeats_history [OF h(1), of example_page] redo_repeats_history [OF h(1), of d'] h(2) by auto
qed

theorem undo_restores_witness:
  "\<exists>lr d' e'. tp_view d' = [rec_slot lr \<mapsto> (False, [1, 2, 3])] \<and> undo_bytes lr d' = Some e' \<and> tp_view e' = Map.empty"
proof (rule example_history)
  fix lr d' assume h: "page_history example_page [(lr, d')]" "Log_record_type lr = INSERT" "tp_view d' = [rec_slot lr \<mapsto> (False, [1, 2, 3])]"
  have "tp_inv d'" using h(1) by (auto elim!: page_history_ConsE dest: history_step)
  then show ?thesis
    using undo_restores [OF h(1), of d'] h(2,3) example_page_ok(2) by auto
qed

subsection \<open>The whole recovery\<close>

definition disk_pages :: "BufferPool \<Rightarrow> pages" where
  "disk_pages bp p = (if disk_page p then bp_view bp p else None)"

lemma bp_view_length:
  assumes inv: "bp_inv bp" and p: "disk_page p" "bp_view bp p = Some d"
  shows "length d = 4096"
proof (cases "pageTable bp p")
  case None
  have "disk_inv (diskManager bp)" using inv by (simp add: bp_inv_def disk_ok_def)
  then show ?thesis using dm.rd_length [of "diskManager bp" p d] None p by (simp add: bp_view_def)
next
  case (Some f)
  then show ?thesis using frames_inv_table [OF bp_inv_frames(1) [OF inv] Some] p(2) by (auto simp: bp_view_def)
qed

text \<open>C1: recovery ends and leaves the recovered database on disk.  Let the log file hold the whole records \<open>rs\<close>, no more than
  one buffer of them, with nothing left in the log buffer and a frame of the pool free.  The redo pass ends with the pages as
  \<open>replay\<close> of the records gives them and with exactly the transactions without a final commit noted as active; the undo pass
  ends after undoing the records of these transactions, each from its last record to its first along the links of
  the log, and the result is what is then in the database file.\<close>

theorem recovery_redo_undo:
  assumes pool: "pool_ok {} m bp" "0 < m" and buf: "lm_offset (log_manager bp) = 0"
    and log: "f_bytes (dm_log (diskManager bp)) = log_bytes rs" "\<forall>r \<in> set rs. wf_record r" "distinct (map Lsn rs)" "length (log_bytes rs) \<le> 45056"
    and redo: "replay rs (nextPageID (diskManager bp), disk_pages bp) = Some (n, v)"
    and txns: "set txns = dom (open_lsn rs)"
    and trail: "\<forall>t \<in> set txns. linked (the (open_lsn rs t)) (trail t) \<and> set (trail t) \<subseteq> set rs"
    and undo: "undo_pages (concat (map trail txns)) v = Some v'"
    and pids: "\<forall>b. bp_inv b \<longrightarrow> set (pids b) = dom (pageTable b)"
  shows "\<exists>lr1 bp1 lr2 bp2. Redo False NewLogRecovery bp = Some (lr1, bp1) \<and> active_txn lr1 = open_lsn rs \<and>
    nextPageID (diskManager bp1) = n \<and> (\<forall>p d. v p = Some d \<longrightarrow> bp_view bp1 p = Some d) \<and>
    Undo False txns pids lr1 bp1 = Some (lr2, bp2) \<and> bp_inv bp2 \<and>
    (\<forall>p d. v' p = Some d \<longrightarrow> fst (ReadPage p (diskManager bp2)) = Some d)"
proof -
  have h: "pool_has (log_bytes rs) m (nextPageID (diskManager bp)) (disk_pages bp) bp"
    using pool buf log(1) bp_view_length [OF pool_okD(1) [OF pool(1)]] by (auto simp: pool_has_def quiet_def disk_pages_def split: if_split_asm)
  obtain lr1 bp1 where r: "Redo False NewLogRecovery bp = Some (lr1, bp1)" "pool_has (log_bytes rs) m n v bp1" "length (lr_buffer lr1) = 45056"
      "active_txn lr1 = active_txn (note_all rs 0 NewLogRecovery)" "lsn_mapping lr1 = lsn_mapping (note_all rs 0 NewLogRecovery)"
    using Redo_spec [OF h redo log(2,4)] by blast
  have act: "active_txn lr1 = open_lsn rs"
    using r(4) note_active [of rs 0 NewLogRecovery] by (auto simp: fun_eq_iff NewLogRecovery_def open_lsn_def Let_def)
  have nt: "lsns_noted rs lr1"
    using note_lsn [OF log(2,3), of 0] log(4) r(3,5) by (simp add: lsns_noted_def)
  have tr: "\<forall>t \<in> set txns. \<exists>l. active_txn lr1 t = Some l \<and> linked l (trail t) \<and> set (trail t) \<subseteq> set rs"
    using trail txns act by force
  obtain lr2 bp2 where u: "undo_txns False txns LogRecord_zero lr1 bp1 = Some (lr2, bp2)" "pool_has (log_bytes rs) m n v' bp2"
    using undo_txns_spec [OF r(2) log(2,4) nt tr undo] by blast
  have inv: "bp_inv bp2" using u(2) pool_okD(1) by (auto simp: pool_has_def)
  obtain bp3 where f: "FlushAllPages (pids bp2) bp2 = Some bp3" "bp_inv bp3"
      "\<forall>p. disk_page p \<longrightarrow> bp_view bp2 p \<noteq> None \<longrightarrow> fst (ReadPage p (diskManager bp3)) = bp_view bp2 p"
    using flush_all_clean [OF inv] pids inv by blast
  have "Undo False txns pids lr1 bp1 = Some (lr2, bp3)" using u(1) f(1) by (simp add: Undo_def)
  moreover have "\<forall>p d. v' p = Some d \<longrightarrow> fst (ReadPage p (diskManager bp3)) = Some d" using u(2) f(3) by (simp add: pool_has_def)
  moreover have "nextPageID (diskManager bp1) = n" "\<forall>p d. v p = Some d \<longrightarrow> bp_view bp1 p = Some d" using r(2) by (auto simp: pool_has_def)
  ultimately show ?thesis using r(1) act f(2) by blast
qed

text \<open>One order in which the page table can be ranged over.\<close>

definition page_ids :: "BufferPool \<Rightarrow> pageID list" where
  "page_ids bp = concat (map (\<lambda>slot. case slot of None \<Rightarrow> [] | Some pg \<Rightarrow> if pageTable bp (pg_id pg) = None then [] else [pg_id pg]) (bp_pages bp))"

lemma page_ids_ok: "bp_inv bp \<Longrightarrow> set (page_ids bp) = dom (pageTable bp)"
proof -
  assume inv: "bp_inv bp"
  have "p \<in> set (page_ids bp)" if t: "pageTable bp p = Some f" for p f
  proof -
    obtain pg where "frame_page bp f = Some pg" "pg_id pg = p" using frames_inv_table [OF bp_inv_frames(1) [OF inv] t] by blast
    then have "Some pg \<in> set (bp_pages bp)" by (auto simp: frame_page_def bind_Some_iff go_nth_Some_iff in_set_conv_nth)
    then show ?thesis using t \<open>pg_id pg = p\<close> unfolding page_ids_def set_concat set_map by (force split: option.splits)
  qed
  moreover have "pageTable bp p \<noteq> None" if "p \<in> set (page_ids bp)" for p
    using that by (auto simp: page_ids_def split: option.splits if_split_asm)
  ultimately show ?thesis by blast
qed

text \<open>A log of a transaction that has made a page, put a tuple into it and then was cut off.\<close>

definition cut_off :: "LogRecord list" where
  "cut_off = [(NewLogRecordTxn 1 InvalidLSN BEGIN)\<lparr>Lsn := 0\<rparr>, (NewLogRecordNewPage 1 0 NEWPAGE InvalidPageID)\<lparr>Lsn := 1\<rparr>,
     (NewLogRecordInsertDelete 1 1 INSERT \<lparr>PageId = 5, SlotNum = 0\<rparr> example_tuple)\<lparr>Lsn := 2\<rparr>]"

definition crashed :: BufferPool where
  "crashed = NewBufferPoolManager 8
     (empty_disk\<lparr>nextPageID := 5, dm_log := \<lparr>f_bytes = log_bytes cut_off, f_pos = length (log_bytes cut_off)\<rparr>\<rparr>) NewLogManager"

lemma cut_off_wf: "\<forall>r \<in> set cut_off. wf_record r" "length (log_bytes cut_off) = 79"
proof -
  have w: "wf_record (NewLogRecordInsertDelete 1 1 INSERT \<lparr>PageId = 5, SlotNum = 0\<rparr> example_tuple)"
    by (intro wf_record_InsertDelete) (simp_all add: example_tuple_ok)
  then show "\<forall>r \<in> set cut_off. wf_record r" by (simp add: cut_off_def wf_record_Txn wf_record_NewPage)
  show "length (log_bytes cut_off) = 79"
    by (simp add: cut_off_def record_bytes_def record_body_def NewLogRecordTxn_def NewLogRecordNewPage_def NewLogRecordInsertDelete_def
        LogRecord_zero_def Let_def tuple_bytes_def example_tuple_ok)
qed

lemma cut_off_pages:
  obtains v d e v' where "replay cut_off (5, disk_pages crashed) = Some (6, v)" "v 5 = Some d" "tp_view d = [0 \<mapsto> (False, [1, 2, 3])]"
    "undo_pages (rev cut_off) v = Some v'" "v' 5 = Some e" "tp_view e = Map.empty"
proof -
  let ?r = "\<lparr>PageId = 5, SlotNum = 0 :: u32\<rparr>" and ?t = "example_tuple\<lparr>t_rid := Some \<lparr>PageId = 5, SlotNum = 0\<rparr>\<rparr>"
  let ?lr = "(NewLogRecordInsertDelete 1 1 INSERT ?r example_tuple)\<lparr>Lsn := 2\<rparr>"
  have f: "Log_record_type ?lr = INSERT" "Insert_rid ?lr = ?r" "Insert_tuple ?lr = example_tuple" "Lsn ?lr = 2" "page_record ?lr" "rec_page ?lr = 5" "rec_slot ?lr = 0"
    by (simp_all add: NewLogRecordInsertDelete_def Let_def page_record_def rec_page_def rec_slot_def)
  have fp: "fresh_page 5 InvalidPageID = Some example_page"
    using Init_spec [of "replicate 4096 0" False None 5 InvalidPageID] by (auto simp: fresh_page_def example_page_def ctx_ok_def)
  have x: "ctx_ok False None" and T: "wf_tuple ?t" "unat (t_size ?t) < 4294967288" "t_data ?t = [1, 2, 3]" "t_size ?t = 3"
    using example_tuple_ok by (simp_all add: ctx_ok_def wf_tuple_def)
  note I = InsertTuple_spec [OF example_page_ok(1) T(1,2) x]
  have room: "\<not> getFreeSpaceRemaining example_page < t_size ?t + sizeTuple"
    using no_room_iff [OF example_page_ok(1) T(2)] example_page_ok(3,4) T(4) by simp
  have fs: "free_slot (cnt example_page) 0 example_page = Some 0" by (simp add: example_page_ok)
  obtain d1 where d1: "InsertTuple False ?t example_page None = Some (Inr (?r, ?t), d1, None)"
  proof -
    obtain res d' x' where i: "InsertTuple False ?t example_page None = Some (res, d', x')" using I by blast
    have "res = Inr (?r, ?t) \<and> x' = None"
      using i room fs T(4) by (auto simp: InsertTuple_def Let_def bind_Some_iff lock_new_def log_write_def RID_Set_def RID_zero_def example_page_ok)
    then show ?thesis using i that by blast
  qed
  have v1: "tp_inv d1" "tp_view d1 = [0 \<mapsto> (False, [1, 2, 3])]" using I d1 example_page_ok(2) T(3) by auto
  have rb: "redo_page ?lr example_page = Some (SetLSN 2 d1)"
    unfolding redo_page_def redo_bytes_def f using d1 by (simp add: insert_op_def example_page_lsn)
  let ?d = "SetLSN 2 d1"
  have l: "tp_inv ?d" "tp_view ?d = [0 \<mapsto> (False, [1, 2, 3])]" using lsn_only_view [OF v1(1), of ?d] v1(2) by (auto simp: lsn_only_def)
  obtain e where e: "undo_bytes ?lr ?d = Some e" "tp_view e = Map.empty"
    using undo_effect(1) [OF l(1) f(7) f(1)] l(2) by auto
  have pr: "\<not> page_record ((NewLogRecordTxn 1 InvalidLSN BEGIN)\<lparr>Lsn := 0\<rparr>)" "\<not> page_record ((NewLogRecordNewPage 1 0 NEWPAGE InvalidPageID)\<lparr>Lsn := 1\<rparr>)"
    by (simp_all add: page_record_def NewLogRecordTxn_def NewLogRecordNewPage_def)
  have r: "replay cut_off (5, disk_pages crashed) = Some (6, (disk_pages crashed)(5 \<mapsto> ?d))"
    using fp rb f pr by (simp add: cut_off_def replay1_def NewLogRecordTxn_def NewLogRecordNewPage_def)
  have "undo_pages (rev cut_off) ((disk_pages crashed)(5 \<mapsto> ?d)) = Some ((disk_pages crashed)(5 \<mapsto> e))"
    using e(1) f pr by (simp add: cut_off_def)
  from that [OF r _ l(2) this _ e(2)] show thesis by simp
qed

theorem recovery_redo_undo_witness:
  "\<exists>lr1 bp1 lr2 bp2 d e. Redo False NewLogRecovery crashed = Some (lr1, bp1) \<and> bp_view bp1 5 = Some d \<and> tp_view d = [0 \<mapsto> (False, [1, 2, 3])] \<and>
     Undo False [1] page_ids lr1 bp1 = Some (lr2, bp2) \<and> fst (ReadPage 5 (diskManager bp2)) = Some e \<and> tp_view e = Map.empty"
proof -
  have pool: "pool_ok {} 8 crashed"
    unfolding crashed_def
    by (rule pool_ok_New) (simp_all add: disk_ok_def disk_inv_def log_inv_def NewLogManager_def empty_disk_def log_at_end_def)
  have st: "lm_offset (log_manager crashed) = 0" "f_bytes (dm_log (diskManager crashed)) = log_bytes cut_off" "nextPageID (diskManager crashed) = 5"
    by (simp_all add: crashed_def NewBufferPoolManager_def NewLogManager_def)
  have ds: "distinct (map Lsn cut_off)" by (simp add: cut_off_def)
  have op: "open_lsn cut_off = [1 \<mapsto> 2]"
    by (auto simp: open_lsn_def cut_off_def fun_eq_iff NewLogRecordTxn_def NewLogRecordNewPage_def NewLogRecordInsertDelete_def Let_def)
  have lk: "linked 2 (rev cut_off)"
    by (simp add: cut_off_def NewLogRecordTxn_def NewLogRecordNewPage_def NewLogRecordInsertDelete_def Let_def)
  obtain v d e v' where c: "replay cut_off (5, disk_pages crashed) = Some (6, v)" "v 5 = Some d" "tp_view d = [0 \<mapsto> (False, [1, 2, 3])]"
    "undo_pages (rev cut_off) v = Some v'" "v' 5 = Some e" "tp_view e = Map.empty" by (rule cut_off_pages)
  obtain lr1 bp1 lr2 bp2 where "Redo False NewLogRecovery crashed = Some (lr1, bp1)" "\<forall>p d. v p = Some d \<longrightarrow> bp_view bp1 p = Some d"
      "Undo False [1] page_ids lr1 bp1 = Some (lr2, bp2)" "\<forall>p d. v' p = Some d \<longrightarrow> fst (ReadPage p (diskManager bp2)) = Some d"
    using recovery_redo_undo [OF pool _ st(1,2) cut_off_wf(1) ds, of 6 v "[1]" "\<lambda>_. rev cut_off" v' page_ids] cut_off_wf(2) st(3) c(1,4) op lk page_ids_ok
    by auto
  then show ?thesis using c(2,3,5,6) by blast
qed

end
