(* ===== verification/Hash_Table.thy ===== *)
theory Hash_Table
  imports Pool_Client
begin

text \<open>
  The linear probing hash table that backs the indexes: \<^verbatim>\<open>storage/page/hash_table_block_page.go\<close>,
  \<^verbatim>\<open>storage/page/hash_table_header_page.go\<close> and \<^verbatim>\<open>container/hash\<close>.  The Go code lays a struct over the bytes of a
  page, so the operations here work on the bytes, at the offsets the struct has on a 64-bit little-endian machine.  The table itself lives
  in the buffer pool and the operations thread it.  The key hash is the murmur3 package: a parameter \<open>murmur3\<close>, the
  128-bit sum of a byte string.  The latch of the table is left out: calls are not interleaved.
\<close>

subsection \<open>Block pages\<close>

text \<open>The struct: \<open>occuppied\<close> at 0, \<open>readable\<close> at 32, the pairs at 64.\<close>

abbreviation BlockArraySize :: nat where
  "BlockArraySize \<equiv> 252"

definition KeyAt :: "u32 \<Rightarrow> bytes \<Rightarrow> u32 option" where
  "KeyAt index d = (if unat index < BlockArraySize then Some (dec32 (drop (64 + 8 * unat index) d)) else None)"

definition ValueAt :: "u32 \<Rightarrow> bytes \<Rightarrow> u32 option" where
  "ValueAt index d = (if unat index < BlockArraySize then Some (dec32 (drop (68 + 8 * unat index) d)) else None)"

definition IsOccupied :: "u32 \<Rightarrow> bytes \<Rightarrow> bool option" where
  "IsOccupied index d =
     (if unat (index div 8) < 32 then Some (d ! unat (index div 8) AND push_bit (unat (index mod 8)) 1 \<noteq> 0) else None)"

definition IsReadable :: "u32 \<Rightarrow> bytes \<Rightarrow> bool option" where
  "IsReadable index d =
     (if unat (index div 8) < 32 then Some (d ! (32 + unat (index div 8)) AND push_bit (unat (index mod 8)) 1 \<noteq> 0) else None)"

definition Block_Insert :: "u32 \<Rightarrow> u32 \<Rightarrow> u32 \<Rightarrow> bytes \<Rightarrow> (bool \<times> bytes) option" where
  "Block_Insert index key value d = do {
     occ \<leftarrow> IsOccupied index d;
     if occ then Some (False, d)
     else if unat index \<ge> BlockArraySize then None
     else do {
       let d = copy_at (64 + 8 * unat index) (enc32 key @ enc32 value) d;
       let b = unat (index div 8);
       let d = d[b := d ! b OR push_bit (unat (index mod 8)) 1];
       let d = d[32 + b := d ! (32 + b) OR push_bit (unat (index mod 8)) 1];
       Some (True, d) } }"

definition Block_Remove :: "u32 \<Rightarrow> bytes \<Rightarrow> bytes option" where
  "Block_Remove index d = do {
     rd \<leftarrow> IsReadable index d;
     let b = 32 + unat (index div 8);
     Some (if \<not> rd then d else d[b := d ! b AND NOT (push_bit (unat (index mod 8)) 1)]) }"

subsection \<open>The header page\<close>

text \<open>
  The struct: \<open>pageId\<close> at 0, \<open>lsn\<close> at 8, \<open>nextIndex\<close> at 16, \<open>size\<close> at 24, \<open>blockPageIds\<close> at 32.  The last four of
  the 1020 block page ids lie behind the 4096 bytes of the page, in whatever the page object keeps next: an access to
  them is \<open>None\<close>, as is one behind the array.
\<close>

definition Header_SetPageId :: "pageID \<Rightarrow> bytes \<Rightarrow> bytes" where
  "Header_SetPageId pid d = copy_at 0 (enc32 pid) d"

definition Header_GetPageId :: "bytes \<Rightarrow> pageID" where
  "Header_GetPageId d = dec32 d"

definition Header_SetLSN :: "64 word \<Rightarrow> bytes \<Rightarrow> bytes" where
  "Header_SetLSN l d = copy_at 8 (le_bytes 8 (unat l)) d"

definition Header_GetLSN :: "bytes \<Rightarrow> 64 word" where
  "Header_GetLSN d = of_nat (le_val (seg 8 8 d))"

definition SetSize :: "64 word \<Rightarrow> bytes \<Rightarrow> bytes" where
  "SetSize n d = copy_at 24 (le_bytes 8 (unat n)) d"

definition GetSize :: "bytes \<Rightarrow> 64 word" where
  "GetSize d = of_nat (le_val (seg 24 8 d))"

definition NumBlocks :: "bytes \<Rightarrow> u32" where
  "NumBlocks d = dec32 (drop 16 d)"

definition GetBlockPageId :: "u32 \<Rightarrow> bytes \<Rightarrow> pageID option" where
  "GetBlockPageId index d = (if unat index < 1016 then Some (dec32 (drop (32 + 4 * unat index) d)) else None)"

definition AddBlockPageId :: "pageID \<Rightarrow> bytes \<Rightarrow> bytes option" where
  "AddBlockPageId pid d = (let nextIndex = NumBlocks d in
     if unat nextIndex < 1016
     then Some (copy_at 16 (enc32 (nextIndex + 1)) (copy_at (32 + 4 * unat nextIndex) (enc32 pid) d)) else None)"

subsection \<open>Hashing\<close>

definition GenHashMurMur :: "(bytes \<Rightarrow> bytes) \<Rightarrow> bytes \<Rightarrow> u32" where
  "GenHashMurMur murmur3 key = dec32 (murmur3 key)"

definition HashValue :: "(bytes \<Rightarrow> bytes) \<Rightarrow> sql_value \<Rightarrow> u32 option" where
  "HashValue murmur3 v =
     (if valueType v = Integer \<or> valueType v = Float \<or> valueType v = Varchar
      then do { raw \<leftarrow> Value_Serialize v; Some (GenHashMurMur murmur3 raw) } else None)"

subsection \<open>The probe iterator\<close>

text \<open>\<^verbatim>\<open>headerPage\<close> and \<^verbatim>\<open>blockPage\<close> point into the frames of their pages.\<close>

record hashTableIterator =
  itr_bucket :: u32
  itr_offset :: u32
  blockId :: pageID
  blockPage :: FrameID

definition frame_data :: "FrameID \<Rightarrow> BufferPool \<Rightarrow> bytes option" where
  "frame_data f bp = map_option pg_data (frame_page bp f)"

definition set_frame_data :: "FrameID \<Rightarrow> bytes \<Rightarrow> BufferPool \<Rightarrow> BufferPool option" where
  "set_frame_data f d bp = do { pg \<leftarrow> frame_page bp f; Some (set_frame f (pg\<lparr>pg_data := d\<rparr>) bp) }"

text \<open>\<^verbatim>\<open>bpm.FetchPage(id).Data()\<close>, a panic when there is no page.\<close>

definition fetch_frame :: "pageID \<Rightarrow> BufferPool \<Rightarrow> (FrameID \<times> BufferPool) option" where
  "fetch_frame pid bp = do { (f, bp) \<leftarrow> FetchPage pid bp; f \<leftarrow> f; Some (f, bp) }"

definition newHashTableIterator :: "FrameID \<Rightarrow> u32 \<Rightarrow> u32 \<Rightarrow> BufferPool \<Rightarrow> (hashTableIterator \<times> BufferPool) option" where
  "newHashTableIterator header bucket offset bp = do {
     h \<leftarrow> frame_data header bp;
     blockPageId \<leftarrow> GetBlockPageId bucket h;
     (f, bp) \<leftarrow> fetch_frame blockPageId bp;
     Some (\<lparr>itr_bucket = bucket, itr_offset = offset, blockId = blockPageId, blockPage = f\<rparr>, bp) }"

definition itr_next :: "FrameID \<Rightarrow> hashTableIterator \<Rightarrow> BufferPool \<Rightarrow> (hashTableIterator \<times> BufferPool) option" where
  "itr_next header itr bp = (let itr = itr\<lparr>itr_offset := itr_offset itr + 1\<rparr> in
     if unat (itr_offset itr) \<ge> BlockArraySize then do {
       h \<leftarrow> frame_data header bp;
       let itr = itr\<lparr>itr_bucket := itr_bucket itr + 1, itr_offset := 0\<rparr>;
       let itr = (if itr_bucket itr \<ge> NumBlocks h then itr\<lparr>itr_bucket := 0\<rparr> else itr);
       (_, bp) \<leftarrow> UnpinPage (blockId itr) True bp;
       h \<leftarrow> frame_data header bp;
       b \<leftarrow> GetBlockPageId (itr_bucket itr) h;
       (f, bp) \<leftarrow> fetch_frame b bp;
       Some (itr\<lparr>blockId := b, blockPage := f\<rparr>, bp) }
     else Some (itr, bp))"

subsection \<open>The table\<close>

text \<open>A table is the id of its header page.\<close>

fun add_blocks :: "nat \<Rightarrow> FrameID \<Rightarrow> BufferPool \<Rightarrow> BufferPool option" where
  "add_blocks 0 header bp = Some bp"
| "add_blocks (Suc n) header bp = do {
     (np, bp) \<leftarrow> NewPage bp;
     np \<leftarrow> np;
     pg \<leftarrow> frame_page bp np;
     h \<leftarrow> frame_data header bp;
     h \<leftarrow> AddBlockPageId (pg_id pg) h;
     bp \<leftarrow> set_frame_data header h bp;
     (_, bp) \<leftarrow> UnpinPage (pg_id pg) True bp;
     add_blocks n header bp }"

definition NewLinearProbeHashTable :: "int \<Rightarrow> BufferPool \<Rightarrow> (pageID \<times> BufferPool) option" where
  "NewLinearProbeHashTable numBuckets bp = do {
     (header, bp) \<leftarrow> NewPage bp;
     header \<leftarrow> header;
     pg \<leftarrow> frame_page bp header;
     bp \<leftarrow> set_frame_data header (SetSize (word_of_int numBuckets * 252) (Header_SetPageId (pg_id pg) (pg_data pg))) bp;
     bp \<leftarrow> add_blocks (nat numBuckets) header bp;
     (_, bp) \<leftarrow> UnpinPage (pg_id pg) True bp;
     Some (pg_id pg, bp) }"

text \<open>The common start and end of the three operations: where probing starts, and releasing the pages.\<close>

definition ht_start :: "u32 \<Rightarrow> pageID \<Rightarrow> BufferPool \<Rightarrow> (u32 \<times> u32 \<times> FrameID \<times> hashTableIterator \<times> BufferPool) option" where
  "ht_start hash headerPageId bp = do {
     (header, bp) \<leftarrow> fetch_frame headerPageId bp;
     h \<leftarrow> frame_data header bp;
     if NumBlocks h = 0 then None
     else do {
       let originalBucketIndex = hash mod NumBlocks h;
       let originalBucketOffset = hash mod 252;
       (itr, bp) \<leftarrow> newHashTableIterator header originalBucketIndex originalBucketOffset bp;
       Some (originalBucketIndex, originalBucketOffset, header, itr, bp) } }"

definition ht_end :: "hashTableIterator \<Rightarrow> pageID \<Rightarrow> BufferPool \<Rightarrow> BufferPool option" where
  "ht_end itr headerPageId bp = do {
     (_, bp) \<leftarrow> UnpinPage (blockId itr) True bp;
     (_, bp) \<leftarrow> UnpinPage headerPageId False bp;
     Some bp }"

partial_function (option) get_loop :: "u32 \<Rightarrow> u32 \<Rightarrow> u32 \<Rightarrow> FrameID \<Rightarrow> hashTableIterator \<Rightarrow> u32 list \<Rightarrow> BufferPool \<Rightarrow>
    (u32 list \<times> hashTableIterator \<times> BufferPool) option" where
  "get_loop hash bucket0 offset0 header itr result bp = do {
     d \<leftarrow> frame_data (blockPage itr) bp;
     occ \<leftarrow> IsOccupied (itr_offset itr) d;
     if \<not> occ then Some (result, itr, bp)
     else do {
       rd \<leftarrow> IsReadable (itr_offset itr) d;
       k \<leftarrow> KeyAt (itr_offset itr) d;
       v \<leftarrow> ValueAt (itr_offset itr) d;
       let result = (if rd \<and> k = hash then result @ [v] else result);
       (itr, bp) \<leftarrow> itr_next header itr bp;
       if itr_bucket itr = bucket0 \<and> itr_offset itr = offset0 then Some (result, itr, bp)
       else get_loop hash bucket0 offset0 header itr result bp } }"

definition HT_GetValue :: "(bytes \<Rightarrow> bytes) \<Rightarrow> pageID \<Rightarrow> bytes \<Rightarrow> BufferPool \<Rightarrow> (u32 list \<times> BufferPool) option" where
  "HT_GetValue murmur3 ht key bp = do {
     let hash = GenHashMurMur murmur3 key;
     (bucket0, offset0, header, itr, bp) \<leftarrow> ht_start hash ht bp;
     (result, itr, bp) \<leftarrow> get_loop hash bucket0 offset0 header itr [] bp;
     bp \<leftarrow> ht_end itr ht bp;
     Some (result, bp) }"

text \<open>The result of an insertion: whether it is the error for a duplicate.\<close>

partial_function (option) insert_probe :: "u32 \<Rightarrow> u32 \<Rightarrow> u32 \<Rightarrow> u32 \<Rightarrow> FrameID \<Rightarrow> hashTableIterator \<Rightarrow> BufferPool \<Rightarrow>
    (bool \<times> hashTableIterator \<times> BufferPool) option" where
  "insert_probe hash value bucket0 offset0 header itr bp = do {
     d \<leftarrow> frame_data (blockPage itr) bp;
     occ \<leftarrow> IsOccupied (itr_offset itr) d;
     v \<leftarrow> ValueAt (itr_offset itr) d;
     if occ \<and> v = value then Some (True, itr, bp)
     else if \<not> occ then do {
       (_, d) \<leftarrow> Block_Insert (itr_offset itr) hash value d;
       bp \<leftarrow> set_frame_data (blockPage itr) d bp;
       Some (False, itr, bp) }
     else do {
       (itr, bp) \<leftarrow> itr_next header itr bp;
       if itr_bucket itr = bucket0 \<and> itr_offset itr = offset0 then Some (False, itr, bp)
       else insert_probe hash value bucket0 offset0 header itr bp } }"

definition HT_Insert :: "(bytes \<Rightarrow> bytes) \<Rightarrow> pageID \<Rightarrow> bytes \<Rightarrow> u32 \<Rightarrow> BufferPool \<Rightarrow> (bool \<times> BufferPool) option" where
  "HT_Insert murmur3 ht key value bp = do {
     let hash = GenHashMurMur murmur3 key;
     (bucket0, offset0, header, itr, bp) \<leftarrow> ht_start hash ht bp;
     (err, itr, bp) \<leftarrow> insert_probe hash value bucket0 offset0 header itr bp;
     bp \<leftarrow> ht_end itr ht bp;
     Some (err, bp) }"

partial_function (option) remove_loop :: "u32 \<Rightarrow> u32 \<Rightarrow> u32 \<Rightarrow> u32 \<Rightarrow> FrameID \<Rightarrow> hashTableIterator \<Rightarrow> BufferPool \<Rightarrow>
    (hashTableIterator \<times> BufferPool) option" where
  "remove_loop hash value bucket0 offset0 header itr bp = do {
     d \<leftarrow> frame_data (blockPage itr) bp;
     occ \<leftarrow> IsOccupied (itr_offset itr) d;
     if \<not> occ then Some (itr, bp)
     else do {
       k \<leftarrow> KeyAt (itr_offset itr) d;
       v \<leftarrow> ValueAt (itr_offset itr) d;
       bp \<leftarrow> (if k = hash \<and> v = value
              then do { d \<leftarrow> Block_Remove (itr_offset itr) d; set_frame_data (blockPage itr) d bp } else Some bp);
       (itr, bp) \<leftarrow> itr_next header itr bp;
       if itr_bucket itr = bucket0 \<and> itr_offset itr = offset0 then Some (itr, bp)
       else remove_loop hash value bucket0 offset0 header itr bp } }"

definition HT_Remove :: "(bytes \<Rightarrow> bytes) \<Rightarrow> pageID \<Rightarrow> bytes \<Rightarrow> u32 \<Rightarrow> BufferPool \<Rightarrow> BufferPool option" where
  "HT_Remove murmur3 ht key value bp = do {
     let hash = GenHashMurMur murmur3 key;
     (bucket0, offset0, header, itr, bp) \<leftarrow> ht_start hash ht bp;
     (itr, bp) \<leftarrow> remove_loop hash value bucket0 offset0 header itr bp;
     ht_end itr ht bp }"

end
