(* ===== verification/Hash_Table_Laws.thy ===== *)
theory Hash_Table_Laws
  imports Hash_Table
begin

text \<open>
  The laws of the linear probing hash table.  The bytes of the block pages are read as a list of cells
  (\<open>ht_cells\<close>); the three operations are shown to be functions on that list, which walk it from the home cell of the
  key and around its end.
\<close>

subsection \<open>Cells\<close>

record cell =
  c_occ :: bool
  c_read :: bool
  c_key :: u32
  c_val :: u32

definition block_cell :: "bytes \<Rightarrow> nat \<Rightarrow> cell" where
  "block_cell d i = \<lparr>c_occ = bit (d ! (i div 8)) (i mod 8), c_read = bit (d ! (32 + i div 8)) (i mod 8),
     c_key = dec32 (drop (64 + 8 * i) d), c_val = dec32 (drop (68 + 8 * i) d)\<rparr>"

lemma bit_byte_eqI: "(\<And>n. n < 8 \<Longrightarrow> bit a n = bit b n) \<Longrightarrow> a = b" for a b :: byte
  by (rule bit_word_eqI) simp

lemma and_push_bit: "n < 8 \<Longrightarrow> b AND push_bit n 1 \<noteq> 0 \<longleftrightarrow> bit b n" for b :: byte
proof -
  assume n: "n < 8"
  have "b AND push_bit n 1 = (if bit b n then push_bit n 1 else 0)"
    using n by (intro bit_byte_eqI) (auto simp: bit_simps)
  moreover have "push_bit n 1 \<noteq> (0 :: byte)" using n by simp
  ultimately show ?thesis by simp
qed

lemma block_index:
  assumes "i < 252"
  shows "unat (of_nat i :: u32) = i" "unat (of_nat i div 8 :: u32) = i div 8" "unat (of_nat i mod 8 :: u32) = i mod 8"
  using assms by (simp_all add: unat_of_nat take_bit_nat_eq_self unat_div unat_mod)

lemma cell_reads:
  assumes "i < 252"
  shows "IsOccupied (of_nat i) d = Some (c_occ (block_cell d i))" "IsReadable (of_nat i) d = Some (c_read (block_cell d i))"
    "KeyAt (of_nat i) d = Some (c_key (block_cell d i))" "ValueAt (of_nat i) d = Some (c_val (block_cell d i))"
  using assms block_index [OF assms] and_push_bit [of "i mod 8"]
  by (simp_all add: IsOccupied_def IsReadable_def KeyAt_def ValueAt_def block_cell_def)

lemma div8_eq: "i div 8 = j div 8 \<Longrightarrow> i mod 8 = j mod 8 \<Longrightarrow> i = j" for i j :: nat
  by (metis div_mult_mod_eq)

lemma set_bit_at:
  fixes d :: bytes
  assumes "i < 252" "j < 252" "off + 32 \<le> length d"
  shows "bit (d[off + i div 8 := d ! (off + i div 8) OR push_bit (i mod 8) 1] ! (off + j div 8)) (j mod 8) \<longleftrightarrow> j = i \<or> bit (d ! (off + j div 8)) (j mod 8)"
    "bit (d[off + i div 8 := d ! (off + i div 8) AND NOT (push_bit (i mod 8) 1)] ! (off + j div 8)) (j mod 8) \<longleftrightarrow> j \<noteq> i \<and> bit (d ! (off + j div 8)) (j mod 8)"
proof -
  have l: "off + i div 8 < length d" using assms by simp
  have n: "d[off + i div 8 := x] ! (off + j div 8) = (if i div 8 = j div 8 then x else d ! (off + j div 8))" for x
    using l by (simp add: nth_list_update)
  have e: "bit (push_bit (i mod 8) (1 :: byte)) (j mod 8) \<longleftrightarrow> i mod 8 = j mod 8" by (auto simp: bit_simps simp del: push_bit_of_1)
  have q: "j = i \<longleftrightarrow> i div 8 = j div 8 \<and> i mod 8 = j mod 8" using div8_eq by blast
  show "bit (d[off + i div 8 := d ! (off + i div 8) OR push_bit (i mod 8) 1] ! (off + j div 8)) (j mod 8) \<longleftrightarrow> j = i \<or> bit (d ! (off + j div 8)) (j mod 8)"
    unfolding n q by (cases "i div 8 = j div 8") (simp_all add: bit_or_iff e del: push_bit_of_1, blast)
  show "bit (d[off + i div 8 := d ! (off + i div 8) AND NOT (push_bit (i mod 8) 1)] ! (off + j div 8)) (j mod 8) \<longleftrightarrow> j \<noteq> i \<and> bit (d ! (off + j div 8)) (j mod 8)"
    unfolding n q by (cases "i div 8 = j div 8") (simp_all add: bit_and_iff bit_not_iff e del: push_bit_of_1, blast)
qed

lemma Block_Insert_spec:
  assumes i: "i < 252" and len: "length d = 4096" and occ: "\<not> c_occ (block_cell d i)"
  shows "\<exists>d'. Block_Insert (of_nat i) key value d = Some (True, d') \<and> length d' = 4096 \<and>
    (\<forall>j < 252. block_cell d' j = (if j = i then \<lparr>c_occ = True, c_read = True, c_key = key, c_val = value\<rparr> else block_cell d j))"
proof -
  define d1 where "d1 = copy_at (64 + 8 * i) (enc32 key @ enc32 value) d"
  define d2 where "d2 = d1[0 + i div 8 := d1 ! (0 + i div 8) OR push_bit (i mod 8) 1]"
  define d3 where "d3 = d2[32 + i div 8 := d2 ! (32 + i div 8) OR push_bit (i mod 8) 1]"
  have l1: "length d1 = 4096" and l2: "length d2 = 4096" and l3: "length d3 = 4096" using i len by (simp_all add: d1_def d2_def d3_def)
  have "block_cell d3 j = (if j = i then \<lparr>c_occ = True, c_read = True, c_key = key, c_val = value\<rparr> else block_cell d j)" if j: "j < 252" for j
  proof -
    have lo: "d1 ! b = d ! b" if "b < 64" for b using that i len by (simp add: d1_def nth_copy_at)
    have "bit (d3 ! (j div 8)) (j mod 8) = bit (d2 ! (j div 8)) (j mod 8)" using j by (simp add: d3_def)
    then have o: "c_occ (block_cell d3 j) \<longleftrightarrow> j = i \<or> c_occ (block_cell d j)"
      using set_bit_at(1) [OF i j, of 0 d1] l1 lo [of "j div 8"] j by (simp add: block_cell_def d2_def)
    have "bit (d2 ! (32 + j div 8)) (j mod 8) = bit (d1 ! (32 + j div 8)) (j mod 8)" using i by (simp add: d2_def)
    then have r: "c_read (block_cell d3 j) \<longleftrightarrow> j = i \<or> c_read (block_cell d j)"
      using set_bit_at(1) [OF i j, of 32 d2] l2 lo [of "32 + j div 8"] j by (simp add: block_cell_def d3_def)
    have dr: "drop (64 + n) d3 = drop (64 + n) d1" for n using i by (simp add: d3_def d2_def)
    have k: "c_key (block_cell d3 j) = dec32 (drop (64 + 8 * j) d1)" "c_val (block_cell d3 j) = dec32 (drop (68 + 8 * j) d1)"
      using dr [of "8 * j"] dr [of "4 + 8 * j"] by (simp_all add: block_cell_def add.assoc [symmetric])
    have kv: "dec32 (drop (64 + 8 * j) d1) = (if j = i then key else dec32 (drop (64 + 8 * j) d)) \<and>
        dec32 (drop (68 + 8 * j) d1) = (if j = i then value else dec32 (drop (68 + 8 * j) d))"
    proof (cases "j = i")
      case True
      have "drop (64 + 8 * i) d1 = (enc32 key @ enc32 value) @ drop (72 + 8 * i) d"
        using i len by (simp add: d1_def drop_copy_at_same)
      moreover from this have "drop (4 + (64 + 8 * i)) d1 = enc32 value @ drop (72 + 8 * i) d"
        unfolding drop_drop [symmetric] by simp
      ultimately show ?thesis using True by simp
    next
      case False
      then have "8 * j + 8 \<le> 8 * i \<or> 8 * i + 8 \<le> 8 * j" by linarith
      then show ?thesis
        using False i j len by (auto simp: d1_def intro!: c32.field_other)
    qed
    show ?thesis using o r k kv by (intro cell.equality) (auto simp: block_cell_def)
  qed
  moreover have "Block_Insert (of_nat i) key value d = Some (True, d3)"
    using i occ block_index [OF i] cell_reads(1) [OF i, of d]
    by (simp add: Block_Insert_def Let_def d3_def d2_def d1_def)
  ultimately show ?thesis using l3 by blast
qed

lemma Block_Remove_spec:
  assumes i: "i < 252" and len: "length d = 4096"
  shows "\<exists>d'. Block_Remove (of_nat i) d = Some d' \<and> length d' = 4096 \<and>
    (\<forall>j < 252. block_cell d' j = (if j = i then (block_cell d i)\<lparr>c_read := False\<rparr> else block_cell d j))"
proof -
  define d' where "d' = (if c_read (block_cell d i) then d[32 + i div 8 := d ! (32 + i div 8) AND NOT (push_bit (i mod 8) 1)] else d)"
  have "Block_Remove (of_nat i) d = Some d'"
    using i block_index [OF i] cell_reads(2) [OF i, of d] by (simp add: Block_Remove_def Let_def d'_def)
  moreover have "block_cell d' j = (if j = i then (block_cell d i)\<lparr>c_read := False\<rparr> else block_cell d j)" if j: "j < 252" for j
  proof (cases "c_read (block_cell d i)")
    case True
    have dr: "drop (64 + n) d' = drop (64 + n) d" for n using i by (simp add: d'_def)
    have k: "dec32 (drop (64 + 8 * j) d') = dec32 (drop (64 + 8 * j) d)" "dec32 (drop (68 + 8 * j) d') = dec32 (drop (68 + 8 * j) d)"
      using dr [of "8 * j"] dr [of "4 + 8 * j"] by (simp_all add: add.assoc [symmetric])
    have r: "bit (d' ! (32 + j div 8)) (j mod 8) \<longleftrightarrow> j \<noteq> i \<and> bit (d ! (32 + j div 8)) (j mod 8)"
      using set_bit_at(2) [OF i j, of 32 d] len True by (simp add: d'_def)
    have o: "d' ! (j div 8) = d ! (j div 8)" using j by (simp add: d'_def)
    show ?thesis using k r o by (intro cell.equality) (auto simp: block_cell_def)
  qed (auto simp: d'_def)
  moreover have "length d' = 4096" using len by (simp add: d'_def)
  ultimately show ?thesis by blast
qed

subsection \<open>Probing\<close>

text \<open>The pages with given contents; a table among them: its header page and its block pages.\<close>

definition views :: "(pageID \<Rightarrow> bytes option) \<Rightarrow> BufferPool \<Rightarrow> bool" where
  "views v bp \<longleftrightarrow> (\<forall>p d. v p = Some d \<longrightarrow> disk_page p \<and> length d = 4096 \<and> bp_view bp p = Some d)"

definition ht_pages :: "(pageID \<Rightarrow> bytes option) \<Rightarrow> pageID \<Rightarrow> pageID list \<Rightarrow> bool" where
  "ht_pages v hid bids \<longleftrightarrow> bids \<noteq> [] \<and> length bids \<le> 1016 \<and> distinct (hid # bids) \<and> (\<forall>b \<in> set bids. v b \<noteq> None) \<and>
     (\<exists>hd. v hid = Some hd \<and> NumBlocks hd = of_nat (length bids) \<and> (\<forall>i < length bids. GetBlockPageId (of_nat i) hd = Some (bids ! i)))"

abbreviation ht_size :: "pageID list \<Rightarrow> nat" where
  "ht_size bids \<equiv> 252 * length bids"

definition ht_cells :: "(pageID \<Rightarrow> bytes option) \<Rightarrow> pageID list \<Rightarrow> cell list" where
  "ht_cells v bids = map (\<lambda>k. block_cell (the (v (bids ! (k div 252)))) (k mod 252)) [0..<ht_size bids]"

definition home :: "nat \<Rightarrow> u32 \<Rightarrow> nat" where
  "home n hash = 252 * (unat hash mod n) + unat hash mod 252"

text \<open>The iterator stands at cell \<open>k\<close>.\<close>

definition at_cell :: "nat \<Rightarrow> (pageID \<Rightarrow> bytes option) \<Rightarrow> pageID \<Rightarrow> pageID list \<Rightarrow> FrameID \<Rightarrow> nat \<Rightarrow> hashTableIterator \<Rightarrow> BufferPool \<Rightarrow> bool" where
  "at_cell nf v hid bids hf k itr bp \<longleftrightarrow> k < ht_size bids \<and> pool_ok {hid, bids ! (k div 252)} nf bp \<and> views v bp \<and>
     held hid hf (the (v hid)) True bp \<and> (\<exists>fr. held (bids ! (k div 252)) (blockPage itr) (the (v (bids ! (k div 252)))) fr bp) \<and>
     blockId itr = bids ! (k div 252) \<and> itr_bucket itr = of_nat (k div 252) \<and> itr_offset itr = of_nat (k mod 252)"

lemma kept_views: "views v bp \<Longrightarrow> kept_but {} bp bp' \<Longrightarrow> views v bp'"
  by (auto simp: views_def kept_but_def)

lemma held_data: "held p f d fr bp \<Longrightarrow> frame_data f bp = Some d"
  by (auto simp: held_def frame_data_def resident_def)

lemma ht_pagesD:
  assumes "ht_pages v hid bids"
  shows "0 < length bids" "length bids \<le> 1016" "b < length bids \<Longrightarrow> bids ! b \<noteq> hid" "b < length bids \<Longrightarrow> v (bids ! b) \<noteq> None"
    "v hid \<noteq> None" "NumBlocks (the (v hid)) = of_nat (length bids)"
    "b < length bids \<Longrightarrow> GetBlockPageId (of_nat b) (the (v hid)) = Some (bids ! b)"
    "unat (of_nat (length bids) :: u32) = length bids" "b < length bids \<Longrightarrow> unat (of_nat b :: u32) = b"
  using assms by (auto simp: ht_pages_def unat_of_nat take_bit_nat_eq_self)

lemma home_less: "0 < n \<Longrightarrow> home n hash < 252 * n \<and> home n hash div 252 = unat hash mod n \<and> home n hash mod 252 = unat hash mod 252"
proof -
  assume n: "0 < n"
  have "unat hash mod n < n" using n by simp
  then have "252 * (unat hash mod n) + 252 \<le> 252 * n" by (metis Suc_leI mult_Suc_right mult_le_mono2 add.commute)
  moreover have "unat hash mod 252 < 252" by simp
  ultimately show ?thesis unfolding home_def by (intro conjI) (linarith, simp_all)
qed

lemma fetch_block:
  assumes t: "ht_pages v hid bids" and nf: "2 \<le> nf" and ok: "pool_ok {hid} nf bp" and w: "views v bp"
    and h: "held hid hf (the (v hid)) True bp" and b: "b < length bids"
  shows "\<exists>f bp'. fetch_frame (bids ! b) bp = Some (f, bp') \<and> pool_ok {hid, bids ! b} nf bp' \<and> views v bp' \<and>
    held hid hf (the (v hid)) True bp' \<and> held (bids ! b) f (the (v (bids ! b))) True bp'"
proof -
  note T = ht_pagesD [OF t]
  obtain d where d: "v (bids ! b) = Some d" using T(4) [OF b] by blast
  then have p: "disk_page (bids ! b)" "bp_view bp (bids ! b) = Some d" using w by (auto simp: views_def)
  obtain f bp' where f: "FetchPage (bids ! b) bp = Some (Some f, bp')" "pool_ok (insert (bids ! b) {hid}) nf bp'" "held (bids ! b) f d True bp'"
      "kept_but {} bp bp'"
    using fetch_held [OF ok p(1) _ p(2)] T(3) [OF b] nf by auto
  have "held hid hf (the (v hid)) True bp'" using held_fetch [OF h pool_okD(1) [OF ok] f(1) T(3) [OF b]] .
  then show ?thesis using f d kept_views [OF w f(4)] by (auto simp: fetch_frame_def insert_commute)
qed

lemma ht_start_spec:
  assumes t: "ht_pages v hid bids" and nf: "2 \<le> nf" and ok: "pool_ok {} nf bp" and w: "views v bp"
  shows "\<exists>hf itr bp'. ht_start hash hid bp = Some (of_nat (home (length bids) hash div 252), of_nat (home (length bids) hash mod 252), hf, itr, bp') \<and>
    at_cell nf v hid bids hf (home (length bids) hash) itr bp'"
proof -
  note T = ht_pagesD [OF t]
  let ?b = "unat hash mod length bids"
  obtain hd where hd: "v hid = Some hd" using T(5) by blast
  obtain hf bp1 where h: "FetchPage hid bp = Some (Some hf, bp1)" "pool_ok {hid} nf bp1" "held hid hf hd True bp1" "kept_but {} bp bp1"
    using fetch_held [OF ok, of hid hd] w hd nf by (auto simp: views_def)
  note w1 = kept_views [OF w h(4)]
  have b: "?b < length bids" using T(1) by simp
  have h3: "held hid hf (the (v hid)) True bp1" using h(3) hd by simp
  obtain f bp2 where f: "fetch_frame (bids ! ?b) bp1 = Some (f, bp2)" "pool_ok {hid, bids ! ?b} nf bp2" "views v bp2"
      "held hid hf (the (v hid)) True bp2" "held (bids ! ?b) f (the (v (bids ! ?b))) True bp2"
    using fetch_block [OF t nf h(2) w1 h3 b] by blast
  have w0: "hash mod NumBlocks hd = of_nat ?b" "NumBlocks hd \<noteq> 0" "hash mod 252 = of_nat (unat hash mod 252)"
    using T(1,6,8) T(9) [OF b] hd block_index(1) [of "unat hash mod 252"] by (auto simp: word_unat_eq_iff unat_mod)
  note H = home_less [OF T(1), of hash]
  have f0: "fetch_frame hid bp = Some (hf, bp1)" using h(1) by (simp add: fetch_frame_def)
  have "ht_start hash hid bp = Some (of_nat ?b, of_nat (unat hash mod 252), hf,
      \<lparr>itr_bucket = of_nat ?b, itr_offset = of_nat (unat hash mod 252), blockId = bids ! ?b, blockPage = f\<rparr>, bp2)"
    using f0 held_data [OF h(3)] w0 T(7) [OF b] f(1) hd
    by (simp add: ht_start_def newHashTableIterator_def Let_def)
  then show ?thesis using f H by (auto simp: at_cell_def)
qed

lemma below_251: "x \<noteq> 251 \<Longrightarrow> x < 252 \<Longrightarrow> x < (251 :: nat)"
  by simp

lemma below_block: "k = 252 * q + r \<Longrightarrow> r < 251 \<Longrightarrow> 252 * Suc q \<le> m \<Longrightarrow> Suc k < m" for k q r m :: nat
  by simp

lemma next_cell:
  assumes "k < 252 * n"
  shows "Suc k mod (252 * n) = (if k mod 252 = 251 then if Suc (k div 252) = n then 0 else 252 * Suc (k div 252) else Suc k)"
    "k mod 252 \<noteq> 251 \<Longrightarrow> Suc k div 252 = k div 252 \<and> Suc k mod 252 = Suc (k mod 252)"
proof -
  have k: "k = 252 * (k div 252) + k mod 252" by simp
  have lt: "k mod 252 < 252" "k div 252 < n" using assms by (simp_all add: less_mult_imp_div_less mult.commute)
  then have q: "252 * Suc (k div 252) \<le> 252 * n" by (intro mult_le_mono2) simp
  show "Suc k mod (252 * n) = (if k mod 252 = 251 then if Suc (k div 252) = n then 0 else 252 * Suc (k div 252) else Suc k)"
  proof (cases "k mod 252 = 251")
    case True
    then have s: "Suc k = 252 * Suc (k div 252)" using k by simp
    then show ?thesis using True lt(2) by (simp only: s mod_mult_mult1 if_True) (auto simp: mod_if)
  next
    case False
    then have "k mod 252 < 251" using lt(1) by (rule below_251)
    then have "Suc k < 252 * n" by (rule below_block [OF k _ q])
    then show ?thesis using False by simp
  qed
  show "k mod 252 \<noteq> 251 \<Longrightarrow> Suc k div 252 = k div 252 \<and> Suc k mod 252 = Suc (k mod 252)"
    by (simp add: div_Suc mod_Suc)
qed


lemma itr_next_spec:
  assumes t: "ht_pages v hid bids" and nf: "2 \<le> nf" and a: "at_cell nf v hid bids hf k itr bp"
  shows "\<exists>itr' bp'. itr_next hf itr bp = Some (itr', bp') \<and> at_cell nf v hid bids hf (Suc k mod ht_size bids) itr' bp'"
proof -
  note T = ht_pagesD [OF t]
  let ?b = "k div 252"
  obtain fr where A: "k < ht_size bids" "pool_ok {hid, bids ! ?b} nf bp" "views v bp" "held hid hf (the (v hid)) True bp"
      "held (bids ! ?b) (blockPage itr) (the (v (bids ! ?b))) fr bp" "blockId itr = bids ! ?b" "itr_bucket itr = of_nat ?b" "itr_offset itr = of_nat (k mod 252)"
    using a by (auto simp: at_cell_def)
  note N = next_cell [OF A(1)]
  have b: "?b < length bids" using A(1) by (simp add: less_mult_imp_div_less mult.commute)
  have o: "unat (itr_offset itr + 1) = Suc (k mod 252)" using A(8) by (simp add: unat_of_nat unat_word_ariths take_bit_nat_eq_self mod_simps)
  show ?thesis
  proof (cases "k mod 252 = 251")
    case False
    moreover have "k mod 252 < 252" by simp
    ultimately have "k mod 252 < 251" by (rule below_251)
    then have "itr_next hf itr bp = Some (itr\<lparr>itr_offset := itr_offset itr + 1\<rparr>, bp)" using o by (simp add: itr_next_def)
    moreover have "Suc k mod ht_size bids = Suc k" "Suc k < ht_size bids" using N(1) False A(1) mod_less_divisor [of "ht_size bids" "Suc k"] T(1) by auto
    ultimately show ?thesis using A N(2) [OF False] by (auto simp: at_cell_def add.commute)
  next
    case True
    define c where "c = (if Suc ?b = length bids then 0 else Suc ?b)"
    have c: "c < length bids" using b T(1) by (auto simp: c_def)
    have n: "Suc k mod ht_size bids = 252 * c" using N(1) True by (simp add: c_def)
    have lt: "252 * c < ht_size bids" using c by simp
    obtain bp1 where u: "UnpinPage (bids ! ?b) True bp = Some (True, bp1)" "pool_ok ({hid, bids ! ?b} - {bids ! ?b}) nf bp1" "kept_but {} bp bp1"
        "others_kept (bids ! ?b) bp bp1" "diskManager bp1 = diskManager bp"
      using unpin_held [OF A(2,5), of True] by auto
    have p1: "pool_ok {hid} nf bp1" using u(2) T(3) [OF b] by (simp add: insert_Diff_if)
    have h1: "held hid hf (the (v hid)) True bp1"
      using held_kept [OF A(4) u(4) _ pool_okD(1) [OF A(2)] u(5)] T(3) [OF b] by simp
    note w1 = kept_views [OF A(3) u(3)]
    obtain f bp2 where f: "fetch_frame (bids ! c) bp1 = Some (f, bp2)" "pool_ok {hid, bids ! c} nf bp2" "views v bp2"
        "held hid hf (the (v hid)) True bp2" "held (bids ! c) f (the (v (bids ! c))) True bp2"
      using fetch_block [OF t nf p1 w1 h1 c] by blast
    have bk: "(if itr_bucket itr + 1 \<ge> NumBlocks (the (v hid)) then 0 else itr_bucket itr + 1) = of_nat c"
    proof -
      have s: "itr_bucket itr + 1 = of_nat (Suc ?b)" using A(7) by (simp add: add.commute)
      have "unat (of_nat (Suc ?b) :: u32) = Suc ?b" using b T(2) by (simp add: unat_of_nat take_bit_nat_eq_self del: of_nat_Suc)
      then have "NumBlocks (the (v hid)) \<le> of_nat (Suc ?b) \<longleftrightarrow> Suc ?b = length bids" unfolding word_le_nat_alt T(6) T(8) using b by (simp del: of_nat_Suc) linarith
      then show ?thesis unfolding s c_def by (simp del: of_nat_Suc)
    qed
    have "itr_next hf itr bp = Some (itr\<lparr>itr_offset := 0, itr_bucket := of_nat c, blockId := bids ! c, blockPage := f\<rparr>, bp2)"
      using o True held_data [OF A(4)] held_data [OF h1] u(1) A(6) bk T(7) [OF c] f(1)
      by (cases "itr_bucket itr + 1 \<ge> NumBlocks (the (v hid))") (simp_all add: itr_next_def Let_def)
    then show ?thesis using f lt by (auto simp: n at_cell_def)
  qed
qed

lemma write_cell:
  assumes t: "ht_pages v hid bids" and a: "at_cell nf v hid bids hf k itr bp" and len: "length d' = 4096"
  shows "\<exists>bp'. set_frame_data (blockPage itr) d' bp = Some bp' \<and> at_cell nf (v(bids ! (k div 252) \<mapsto> d')) hid bids hf k itr bp'"
proof -
  note T = ht_pagesD [OF t]
  let ?p = "bids ! (k div 252)"
  obtain fr where A: "k < ht_size bids" "pool_ok {hid, ?p} nf bp" "views v bp" "held hid hf (the (v hid)) True bp"
      "held ?p (blockPage itr) (the (v ?p)) fr bp" "blockId itr = ?p" "itr_bucket itr = of_nat (k div 252)" "itr_offset itr = of_nat (k mod 252)"
    using a by (auto simp: at_cell_def)
  have b: "k div 252 < length bids" using A(1) by (simp add: less_mult_imp_div_less mult.commute)
  note inv = pool_okD(1) [OF A(2)]
  obtain pg where pg: "frame_page bp (blockPage itr) = Some pg" using A(5) by (auto simp: held_def resident_def)
  let ?bp = "set_frame (blockPage itr) (pg\<lparr>pg_data := d'\<rparr>) bp"
  have w: "pool_ok {hid, ?p} nf ?bp" "held ?p (blockPage itr) d' (fr \<and> d' = the (v ?p)) ?bp" "kept_but {?p} bp ?bp"
    using write_held [OF A(2,5) len log_only_self [OF inv] pg] by auto
  have h: "held hid hf (the (v hid)) True ?bp" using held_set_frame [OF A(4,5) _ inv] T(3) [OF b] by metis
  have "bp_view ?bp ?p = Some d'" "disk_page ?p" using held_page [OF w(2) pool_okD(1) [OF w(1)]] by auto
  then have "views (v(?p \<mapsto> d')) ?bp" using A(3) w(3) len by (auto simp: views_def kept_but_def)
  moreover have "set_frame_data (blockPage itr) d' bp = Some ?bp" using pg by (simp add: set_frame_data_def)
  ultimately show ?thesis using A(1,6-8) w h T(3) [OF b] by (auto simp: at_cell_def)
qed

lemma ht_pages_update: "ht_pages v hid bids \<Longrightarrow> b < length bids \<Longrightarrow> ht_pages (v(bids ! b \<mapsto> d)) hid bids"
  using ht_pagesD(3) [of v hid bids b] by (auto simp: ht_pages_def)

lemma ht_end_spec:
  assumes t: "ht_pages v hid bids" and a: "at_cell nf v hid bids hf k itr bp"
  shows "\<exists>bp'. ht_end itr hid bp = Some bp' \<and> pool_ok {} nf bp' \<and> views v bp'"
proof -
  note T = ht_pagesD [OF t]
  let ?p = "bids ! (k div 252)"
  obtain fr where A: "k < ht_size bids" "pool_ok {hid, ?p} nf bp" "views v bp" "held hid hf (the (v hid)) True bp"
      "held ?p (blockPage itr) (the (v ?p)) fr bp" "blockId itr = ?p"
    using a by (auto simp: at_cell_def)
  have b: "k div 252 < length bids" using A(1) by (simp add: less_mult_imp_div_less mult.commute)
  obtain bp1 where u: "UnpinPage ?p True bp = Some (True, bp1)" "pool_ok ({hid, ?p} - {?p}) nf bp1" "kept_but {} bp bp1"
      "others_kept ?p bp bp1" "diskManager bp1 = diskManager bp"
    using unpin_held [OF A(2,5), of True] by auto
  have p1: "pool_ok {hid} nf bp1" using u(2) T(3) [OF b] by (simp add: insert_Diff_if)
  have h1: "held hid hf (the (v hid)) True bp1"
    using held_kept [OF A(4) u(4) _ pool_okD(1) [OF A(2)] u(5)] T(3) [OF b] by simp
  obtain bp2 where u2: "UnpinPage hid False bp1 = Some (True, bp2)" "pool_ok ({hid} - {hid}) nf bp2" "kept_but {} bp1 bp2"
    using unpin_held [OF p1 h1, of False] by auto
  show ?thesis
    using u(1) u2(1,2) A(6) kept_views [OF kept_views [OF A(3) u(3)] u2(3)] by (simp add: ht_end_def)
qed

lemma at_cell_reads:
  assumes "at_cell nf v hid bids hf k itr bp"
  defines "d \<equiv> the (v (bids ! (k div 252)))"
  shows "frame_data (blockPage itr) bp = Some d" "length d = 4096"
    "IsOccupied (itr_offset itr) d = Some (c_occ (ht_cells v bids ! k))" "IsReadable (itr_offset itr) d = Some (c_read (ht_cells v bids ! k))"
    "KeyAt (itr_offset itr) d = Some (c_key (ht_cells v bids ! k))" "ValueAt (itr_offset itr) d = Some (c_val (ht_cells v bids ! k))"
proof -
  obtain fr where A: "k < ht_size bids" "pool_ok {hid, bids ! (k div 252)} nf bp" "held (bids ! (k div 252)) (blockPage itr) d fr bp" "itr_offset itr = of_nat (k mod 252)"
    using assms by (auto simp: at_cell_def)
  show "frame_data (blockPage itr) bp = Some d" "length d = 4096" using held_data [OF A(3)] held_page [OF A(3) pool_okD(1) [OF A(2)]] by auto
  have "ht_cells v bids ! k = block_cell d (k mod 252)" using A(1) by (simp add: ht_cells_def d_def)
  then show "IsOccupied (itr_offset itr) d = Some (c_occ (ht_cells v bids ! k))" "IsReadable (itr_offset itr) d = Some (c_read (ht_cells v bids ! k))"
    "KeyAt (itr_offset itr) d = Some (c_key (ht_cells v bids ! k))" "ValueAt (itr_offset itr) d = Some (c_val (ht_cells v bids ! k))"
    using cell_reads [of "k mod 252" d] A(4) by auto
qed

lemma at_cell_position:
  assumes "at_cell nf v hid bids hf k itr bp" and t: "ht_pages v hid bids" and "h < ht_size bids"
  shows "itr_bucket itr = of_nat (h div 252) \<and> itr_offset itr = of_nat (h mod 252) \<longleftrightarrow> k = h"
proof -
  have k: "k < ht_size bids" "itr_bucket itr = of_nat (k div 252)" "itr_offset itr = of_nat (k mod 252)" using assms(1) by (auto simp: at_cell_def)
  have "k div 252 < length bids" "h div 252 < length bids" using k(1) assms(3) by (simp_all add: less_mult_imp_div_less mult.commute)
  then have "(of_nat (k div 252) :: u32) = of_nat (h div 252) \<longleftrightarrow> k div 252 = h div 252" using ht_pagesD(9) [OF t] by (metis)
  moreover have "(of_nat (k mod 252) :: u32) = of_nat (h mod 252) \<longleftrightarrow> k mod 252 = h mod 252"
    using block_index(1) [of "k mod 252"] block_index(1) [of "h mod 252"] by (metis mod_less_divisor zero_less_numeral)
  ultimately show ?thesis unfolding k(2,3) by (metis div_mult_mod_eq)
qed

subsection \<open>The three loops as functions on the cells\<close>

text \<open>Walking the cells in probe order: reading a key, inserting a pair, removing a pair.\<close>

fun get_cells :: "u32 \<Rightarrow> cell list \<Rightarrow> u32 list" where
  "get_cells hash [] = []"
| "get_cells hash (c # cs) =
     (if \<not> c_occ c then [] else (if c_read c \<and> c_key c = hash then [c_val c] else []) @ get_cells hash cs)"

fun insert_cells :: "u32 \<Rightarrow> u32 \<Rightarrow> cell list \<Rightarrow> bool \<times> cell list" where
  "insert_cells hash value [] = (False, [])"
| "insert_cells hash value (c # cs) =
     (if c_occ c \<and> c_val c = value then (True, c # cs)
      else if \<not> c_occ c then (False, \<lparr>c_occ = True, c_read = True, c_key = hash, c_val = value\<rparr> # cs)
      else map_prod id ((#) c) (insert_cells hash value cs))"

fun remove_cells :: "u32 \<Rightarrow> u32 \<Rightarrow> cell list \<Rightarrow> cell list" where
  "remove_cells hash value [] = []"
| "remove_cells hash value (c # cs) =
     (if \<not> c_occ c then c # cs
      else (if c_key c = hash \<and> c_val c = value then c\<lparr>c_read := False\<rparr> else c) # remove_cells hash value cs)"

lemma length_ht_cells [simp]: "length (ht_cells v bids) = ht_size bids"
  by (simp add: ht_cells_def)

lemma mod_shift_eq: "i < n \<Longrightarrow> j < n \<Longrightarrow> (h + i) mod n = (h + j) mod n \<longleftrightarrow> i = j" for i j n h :: nat
proof
  assume a: "i < n" "j < n" "(h + i) mod n = (h + j) mod n"
  have "i mod n = j mod n" using a(3) by (simp add: nat_mod_eq_iff)
  then show "i = j" using a(1,2) by simp
qed simp

lemma rotate_update:
  assumes "j < length xs"
  shows "rotate h (xs[(h + j) mod length xs := x]) = (rotate h xs)[j := x]"
proof (rule nth_equalityI)
  fix i assume "i < length (rotate h (xs[(h + j) mod length xs := x]))"
  then have i: "i < length xs" by simp
  have l: "(h + j) mod length xs < length xs" using assms by (intro mod_less_divisor) linarith
  have "rotate h (xs[(h + j) mod length xs := x]) ! i = xs[(h + j) mod length xs := x] ! ((h + i) mod length xs)"
    using i by (simp add: nth_rotate)
  also have "\<dots> = (if j = i then x else xs ! ((h + i) mod length xs))"
    unfolding nth_list_update [OF l] using mod_shift_eq [OF assms i, of h] by simp
  also have "\<dots> = (rotate h xs)[j := x] ! i" using assms i by (simp add: nth_list_update nth_rotate)
  finally show "rotate h (xs[(h + j) mod length xs := x]) ! i = (rotate h xs)[j := x] ! i" .
qed simp

lemma cells_write:
  assumes t: "ht_pages v hid bids" and k: "k < ht_size bids"
    and d: "\<forall>j < 252. block_cell d' j = (if j = k mod 252 then c else block_cell (the (v (bids ! (k div 252)))) j)"
  shows "ht_cells (v(bids ! (k div 252) \<mapsto> d')) bids = (ht_cells v bids)[k := c]"
proof (rule nth_equalityI)
  fix i assume "i < length (ht_cells (v(bids ! (k div 252) \<mapsto> d')) bids)"
  then have i: "i < ht_size bids" by simp
  have b: "i div 252 < length bids" "k div 252 < length bids" using i k by (simp_all add: less_mult_imp_div_less mult.commute)
  then have e: "bids ! (i div 252) = bids ! (k div 252) \<longleftrightarrow> i div 252 = k div 252" using t by (simp add: ht_pages_def nth_eq_iff_index_eq)
  have q: "i = k \<longleftrightarrow> i div 252 = k div 252 \<and> i mod 252 = k mod 252" by (metis div_mult_mod_eq)
  show "ht_cells (v(bids ! (k div 252) \<mapsto> d')) bids ! i = (ht_cells v bids)[k := c] ! i"
    using i k d e q by (auto simp: ht_cells_def nth_list_update)
qed simp

lemma step_probe:
  assumes t: "ht_pages v hid bids" and nf: "2 \<le> nf" and j: "j < ht_size bids" and h: "h < ht_size bids"
    and a: "at_cell nf v hid bids hf ((h + j) mod ht_size bids) itr bp"
  obtains itr' bp' where "itr_next hf itr bp = Some (itr', bp')" "at_cell nf v hid bids hf ((h + Suc j) mod ht_size bids) itr' bp'"
    "itr_bucket itr' = of_nat (h div 252) \<and> itr_offset itr' = of_nat (h mod 252) \<longleftrightarrow> Suc j = ht_size bids"
proof -
  obtain itr' bp' where n: "itr_next hf itr bp = Some (itr', bp')" "at_cell nf v hid bids hf ((h + Suc j) mod ht_size bids) itr' bp'"
    using itr_next_spec [OF t nf a] by (auto simp: mod_Suc_eq)
  have "(h + Suc j) mod ht_size bids = h \<longleftrightarrow> Suc j = ht_size bids"
  proof (cases "Suc j = ht_size bids")
    case True
    then show ?thesis using h by simp
  next
    case False
    then show ?thesis using mod_shift_eq [of "Suc j" "ht_size bids" 0 h] j h ht_pagesD(1) [OF t] by simp
  qed
  then show thesis using that [OF n] at_cell_position [OF n(2) t h] by simp
qed

lemma drop_probe:
  assumes "j < length cs"
  shows "drop j (rotate h cs) = cs ! ((h + j) mod length cs) # drop (Suc j) (rotate h cs)"
  using assms by (simp add: Cons_nth_drop_Suc [symmetric] nth_rotate)

lemma get_loop_spec:
  assumes t: "ht_pages v hid bids" and nf: "2 \<le> nf" and h: "h < ht_size bids"
  shows "j < ht_size bids \<Longrightarrow> at_cell nf v hid bids hf ((h + j) mod ht_size bids) itr bp \<Longrightarrow>
    \<exists>k itr' bp'. get_loop hash (of_nat (h div 252)) (of_nat (h mod 252)) hf itr acc bp =
      Some (acc @ get_cells hash (drop j (rotate h (ht_cells v bids))), itr', bp') \<and> at_cell nf v hid bids hf k itr' bp'"
proof (induction "ht_size bids - j" arbitrary: j itr bp acc)
  case (Suc n)
  let ?cs = "ht_cells v bids"
  note j = Suc.prems(1) and a = Suc.prems(2)
  note R = at_cell_reads [OF a]
  have D: "drop j (rotate h ?cs) = ?cs ! ((h + j) mod ht_size bids) # drop (Suc j) (rotate h ?cs)" using drop_probe [of j ?cs h] j by simp
  show ?case
  proof (cases "c_occ (?cs ! ((h + j) mod ht_size bids))")
    case False
    then show ?thesis using a R D by (subst get_loop.simps) auto
  next
    case True
    obtain itr1 bp1 where n: "itr_next hf itr bp = Some (itr1, bp1)" "at_cell nf v hid bids hf ((h + Suc j) mod ht_size bids) itr1 bp1"
        "itr_bucket itr1 = of_nat (h div 252) \<and> itr_offset itr1 = of_nat (h mod 252) \<longleftrightarrow> Suc j = ht_size bids"
      using step_probe [OF t nf j h a] by blast
    let ?acc = "if c_read (?cs ! ((h + j) mod ht_size bids)) \<and> c_key (?cs ! ((h + j) mod ht_size bids)) = hash
      then acc @ [c_val (?cs ! ((h + j) mod ht_size bids))] else acc"
    have u: "get_loop hash (of_nat (h div 252)) (of_nat (h mod 252)) hf itr acc bp =
        (if Suc j = ht_size bids then Some (?acc, itr1, bp1) else get_loop hash (of_nat (h div 252)) (of_nat (h mod 252)) hf itr1 ?acc bp1)"
      using R(1,3-6) True n by (subst get_loop.simps) (simp add: Let_def)
    show ?thesis
    proof (cases "Suc j = ht_size bids")
      case end': True
      have "drop (Suc j) (rotate h ?cs) = []" unfolding end' by simp
      then show ?thesis using end' u n(2) True D by auto
    next
      case False
      then have "Suc j < ht_size bids" "n = ht_size bids - Suc j" using j Suc.hyps(2) by simp_all
      then obtain k itr' bp' where "get_loop hash (of_nat (h div 252)) (of_nat (h mod 252)) hf itr1 ?acc bp1 =
          Some (?acc @ get_cells hash (drop (Suc j) (rotate h ?cs)), itr', bp')" "at_cell nf v hid bids hf k itr' bp'"
        using Suc.hyps(1) [of "Suc j" itr1 bp1 ?acc] n(2) by blast
      then show ?thesis using False u True D by auto
    qed
  qed
qed simp

text \<open>Pages other than the blocks of the table are left alone.\<close>

definition only_blocks :: "pageID list \<Rightarrow> (pageID \<Rightarrow> bytes option) \<Rightarrow> (pageID \<Rightarrow> bytes option) \<Rightarrow> bool" where
  "only_blocks bids v v' \<longleftrightarrow> (\<forall>p. p \<notin> set bids \<longrightarrow> v' p = v p)"

lemma only_blocks_refl [simp]: "only_blocks bids v v"
  by (simp add: only_blocks_def)

lemma only_blocks_trans: "only_blocks bids u v \<Longrightarrow> only_blocks bids v w \<Longrightarrow> only_blocks bids u w"
  by (simp add: only_blocks_def)

text \<open>Changing the cell the iterator stands at.\<close>

lemma change_cell:
  assumes t: "ht_pages v hid bids" and j: "j < ht_size bids" and a: "at_cell nf v hid bids hf ((h + j) mod ht_size bids) itr bp"
    and len: "length d' = 4096"
    and d: "\<forall>i < 252. block_cell d' i = (if i = (h + j) mod ht_size bids mod 252 then c
      else block_cell (the (v (bids ! ((h + j) mod ht_size bids div 252)))) i)"
  obtains v' bp' where "set_frame_data (blockPage itr) d' bp = Some bp'" "at_cell nf v' hid bids hf ((h + j) mod ht_size bids) itr bp'"
    "ht_pages v' hid bids" "rotate h (ht_cells v' bids) = (rotate h (ht_cells v bids))[j := c]" "only_blocks bids v v'"
proof -
  let ?k = "(h + j) mod ht_size bids"
  have k: "?k < ht_size bids" using a by (simp add: at_cell_def)
  then have b: "?k div 252 < length bids" by (simp add: less_mult_imp_div_less mult.commute)
  obtain bp' where w: "set_frame_data (blockPage itr) d' bp = Some bp'" "at_cell nf (v(bids ! (?k div 252) \<mapsto> d')) hid bids hf ?k itr bp'"
    using write_cell [OF t a len] by blast
  have "rotate h (ht_cells (v(bids ! (?k div 252) \<mapsto> d')) bids) = (rotate h (ht_cells v bids))[j := c]"
    using cells_write [OF t k d] rotate_update [of j "ht_cells v bids" h c] j by simp
  then show thesis using that [OF w ht_pages_update [OF t b]] b by (simp add: only_blocks_def)
qed

lemma insert_probe_spec:
  assumes t: "ht_pages v hid bids" and nf: "2 \<le> nf" and h: "h < ht_size bids"
  shows "j < ht_size bids \<Longrightarrow> at_cell nf v hid bids hf ((h + j) mod ht_size bids) itr bp \<Longrightarrow>
    \<exists>k itr' bp' v'. insert_probe hash value (of_nat (h div 252)) (of_nat (h mod 252)) hf itr bp =
        Some (fst (insert_cells hash value (drop j (rotate h (ht_cells v bids)))), itr', bp') \<and> at_cell nf v' hid bids hf k itr' bp' \<and>
      ht_pages v' hid bids \<and> only_blocks bids v v' \<and>
      rotate h (ht_cells v' bids) = take j (rotate h (ht_cells v bids)) @ snd (insert_cells hash value (drop j (rotate h (ht_cells v bids))))"
proof (induction "ht_size bids - j" arbitrary: j itr bp)
  case (Suc n)
  let ?cs = "ht_cells v bids" and ?k = "(h + j) mod ht_size bids"
  note j = Suc.prems(1) and a = Suc.prems(2)
  note R = at_cell_reads [OF a]
  have k: "?k < ht_size bids" "itr_offset itr = of_nat (?k mod 252)" using a by (simp_all add: at_cell_def)
  have D: "drop j (rotate h ?cs) = ?cs ! ?k # drop (Suc j) (rotate h ?cs)" using drop_probe [of j ?cs h] j by simp
  have all: "rotate h ?cs = take j (rotate h ?cs) @ ?cs ! ?k # drop (Suc j) (rotate h ?cs)" using D append_take_drop_id by metis
  consider "c_occ (?cs ! ?k)" "c_val (?cs ! ?k) = value" | "\<not> c_occ (?cs ! ?k)" | "c_occ (?cs ! ?k)" "c_val (?cs ! ?k) \<noteq> value" by blast
  then show ?case
  proof cases
    case 1
    then have "insert_probe hash value (of_nat (h div 252)) (of_nat (h mod 252)) hf itr bp = Some (True, itr, bp)"
      using R by (subst insert_probe.simps) simp
    moreover have "insert_cells hash value (drop j (rotate h ?cs)) = (True, drop j (rotate h ?cs))" using 1 unfolding D by simp
    ultimately show ?thesis using a t by (auto intro!: exI [of _ v])
  next
    case 2
    let ?d = "the (v (bids ! (?k div 252)))"
    have bc: "block_cell ?d (?k mod 252) = ?cs ! ?k" using k by (simp add: ht_cells_def)
    obtain d' where d': "Block_Insert (itr_offset itr) hash value ?d = Some (True, d')" "length d' = 4096"
        "\<forall>i < 252. block_cell d' i = (if i = ?k mod 252 then \<lparr>c_occ = True, c_read = True, c_key = hash, c_val = value\<rparr> else block_cell ?d i)"
      using Block_Insert_spec [of "?k mod 252" ?d hash "value"] R(2) 2 bc k(2) by auto
    obtain v' bp' where w: "set_frame_data (blockPage itr) d' bp = Some bp'" "at_cell nf v' hid bids hf ?k itr bp'"
        "ht_pages v' hid bids" "rotate h (ht_cells v' bids) = (rotate h ?cs)[j := \<lparr>c_occ = True, c_read = True, c_key = hash, c_val = value\<rparr>]" "only_blocks bids v v'"
      using change_cell [OF t j a d'(2,3)] by blast
    have "insert_probe hash value (of_nat (h div 252)) (of_nat (h mod 252)) hf itr bp = Some (False, itr, bp')"
      using R 2 d'(1) w(1) by (subst insert_probe.simps) simp
    moreover have "rotate h (ht_cells v' bids) = take j (rotate h ?cs) @ snd (insert_cells hash value (drop j (rotate h ?cs)))"
      using 2 j unfolding w(4) D by (subst all) (simp add: list_update_append)
    ultimately show ?thesis using w 2 D by auto
  next
    case 3
    obtain itr1 bp1 where n: "itr_next hf itr bp = Some (itr1, bp1)" "at_cell nf v hid bids hf ((h + Suc j) mod ht_size bids) itr1 bp1"
        "itr_bucket itr1 = of_nat (h div 252) \<and> itr_offset itr1 = of_nat (h mod 252) \<longleftrightarrow> Suc j = ht_size bids"
      using step_probe [OF t nf j h a] by blast
    have u: "insert_probe hash value (of_nat (h div 252)) (of_nat (h mod 252)) hf itr bp =
        (if Suc j = ht_size bids then Some (False, itr1, bp1) else insert_probe hash value (of_nat (h div 252)) (of_nat (h mod 252)) hf itr1 bp1)"
      using R 3 n by (subst insert_probe.simps) (simp add: Let_def)
    have tk: "take (Suc j) (rotate h ?cs) = take j (rotate h ?cs) @ [?cs ! ?k]" using j nth_rotate [of j ?cs h] by (simp add: take_Suc_conv_app_nth)
    show ?thesis
    proof (cases "Suc j = ht_size bids")
      case True
      have e: "drop (Suc j) (rotate h ?cs) = []" unfolding True by simp
      then have "rotate h ?cs = take j (rotate h ?cs) @ [?cs ! ?k]" using all by simp
      then show ?thesis using True u n(2) 3 D e t by (auto intro!: exI [of _ v])
    next
      case False
      then have "Suc j < ht_size bids" "n = ht_size bids - Suc j" using j Suc.hyps(2) by simp_all
      then obtain k itr' bp' v' where i: "insert_probe hash value (of_nat (h div 252)) (of_nat (h mod 252)) hf itr1 bp1 =
          Some (fst (insert_cells hash value (drop (Suc j) (rotate h ?cs))), itr', bp')" "at_cell nf v' hid bids hf k itr' bp'" "ht_pages v' hid bids"
          "only_blocks bids v v'" "rotate h (ht_cells v' bids) = take (Suc j) (rotate h ?cs) @ snd (insert_cells hash value (drop (Suc j) (rotate h ?cs)))"
        using Suc.hyps(1) [of "Suc j" itr1 bp1] n(2) by blast
      have "insert_cells hash value (drop j (rotate h ?cs)) = map_prod id ((#) (?cs ! ?k)) (insert_cells hash value (drop (Suc j) (rotate h ?cs)))"
        using 3 unfolding D by simp
      then show ?thesis using False u i tk by (intro exI [of _ k] exI [of _ itr'] exI [of _ bp'] exI [of _ v']) simp
    qed
  qed
qed simp

lemma remove_loop_spec:
  assumes nf: "2 \<le> nf" and h: "h < ht_size bids"
  shows "ht_pages v hid bids \<Longrightarrow> j < ht_size bids \<Longrightarrow> at_cell nf v hid bids hf ((h + j) mod ht_size bids) itr bp \<Longrightarrow>
    \<exists>k itr' bp' v'. remove_loop hash value (of_nat (h div 252)) (of_nat (h mod 252)) hf itr bp = Some (itr', bp') \<and>
      at_cell nf v' hid bids hf k itr' bp' \<and> ht_pages v' hid bids \<and> only_blocks bids v v' \<and>
      rotate h (ht_cells v' bids) = take j (rotate h (ht_cells v bids)) @ remove_cells hash value (drop j (rotate h (ht_cells v bids)))"
proof (induction "ht_size bids - j" arbitrary: j itr bp v)
  case (Suc n)
  let ?cs = "ht_cells v bids" and ?k = "(h + j) mod ht_size bids"
  note t = Suc.prems(1) and j = Suc.prems(2) and a = Suc.prems(3)
  note R = at_cell_reads [OF a]
  have k: "?k < ht_size bids" "itr_offset itr = of_nat (?k mod 252)" using a by (simp_all add: at_cell_def)
  have D: "drop j (rotate h ?cs) = ?cs ! ?k # drop (Suc j) (rotate h ?cs)" using drop_probe [of j ?cs h] j by simp
  have all: "rotate h ?cs = take j (rotate h ?cs) @ ?cs ! ?k # drop (Suc j) (rotate h ?cs)" using D append_take_drop_id by metis
  show ?case
  proof (cases "c_occ (?cs ! ?k)")
    case False
    then have "remove_loop hash value (of_nat (h div 252)) (of_nat (h mod 252)) hf itr bp = Some (itr, bp)"
      using R by (subst remove_loop.simps) simp
    moreover have "rotate h ?cs = take j (rotate h ?cs) @ remove_cells hash value (drop j (rotate h ?cs))" using False all unfolding D by simp
    ultimately show ?thesis using a t by (auto intro!: exI [of _ v])
  next
    case True
    let ?d = "the (v (bids ! (?k div 252)))" and ?hit = "c_key (?cs ! ?k) = hash \<and> c_val (?cs ! ?k) = value"
    let ?c = "if ?hit then (?cs ! ?k)\<lparr>c_read := False\<rparr> else ?cs ! ?k"
    have bc: "block_cell ?d (?k mod 252) = ?cs ! ?k" using k by (simp add: ht_cells_def)
    obtain bp0 v0 where w: "(if ?hit then do { d \<leftarrow> Block_Remove (itr_offset itr) ?d; set_frame_data (blockPage itr) d bp } else Some bp) = Some bp0"
        "at_cell nf v0 hid bids hf ?k itr bp0" "ht_pages v0 hid bids" "rotate h (ht_cells v0 bids) = (rotate h ?cs)[j := ?c]" "only_blocks bids v v0"
    proof (cases ?hit)
      case False
      have "(rotate h ?cs)[j := ?cs ! ?k] = rotate h ?cs" using nth_rotate [of j ?cs h] j by (metis length_ht_cells list_update_id)
      then show ?thesis using that [of bp v] False a t by simp
    next
      case hit: True
      obtain d' where d': "Block_Remove (itr_offset itr) ?d = Some d'" "length d' = 4096"
          "\<forall>i < 252. block_cell d' i = (if i = ?k mod 252 then (?cs ! ?k)\<lparr>c_read := False\<rparr> else block_cell ?d i)"
        using Block_Remove_spec [of "?k mod 252" ?d] R(2) bc k(2) by auto
      show ?thesis by (rule change_cell [OF t j a d'(2,3)]) (use that hit d'(1) in auto)
    qed
    obtain itr1 bp1 where n: "itr_next hf itr bp0 = Some (itr1, bp1)" "at_cell nf v0 hid bids hf ((h + Suc j) mod ht_size bids) itr1 bp1"
        "itr_bucket itr1 = of_nat (h div 252) \<and> itr_offset itr1 = of_nat (h mod 252) \<longleftrightarrow> Suc j = ht_size bids"
      using step_probe [OF w(3) nf j h w(2)] by blast
    have u: "remove_loop hash value (of_nat (h div 252)) (of_nat (h mod 252)) hf itr bp =
        (if Suc j = ht_size bids then Some (itr1, bp1) else remove_loop hash value (of_nat (h div 252)) (of_nat (h mod 252)) hf itr1 bp1)"
      using R True n w(1) by (subst remove_loop.simps) simp
    have l: "length (take j (rotate h ?cs)) = j" using j by simp
    have cs0: "rotate h (ht_cells v0 bids) = take j (rotate h ?cs) @ ?c # drop (Suc j) (rotate h ?cs)"
      unfolding w(4) using l by (subst all) (simp add: list_update_append)
    have tk: "take (Suc j) (rotate h (ht_cells v0 bids)) = take j (rotate h ?cs) @ [?c]" "drop (Suc j) (rotate h (ht_cells v0 bids)) = drop (Suc j) (rotate h ?cs)"
      unfolding cs0 using l by simp_all
    have rm: "remove_cells hash value (drop j (rotate h ?cs)) = ?c # remove_cells hash value (drop (Suc j) (rotate h ?cs))"
      using True unfolding D by simp
    show ?thesis
    proof (cases "Suc j = ht_size bids")
      case True
      have "drop (Suc j) (rotate h ?cs) = []" unfolding True by simp
      then have "rotate h (ht_cells v0 bids) = take j (rotate h ?cs) @ remove_cells hash value (drop j (rotate h ?cs))" unfolding rm cs0 by simp
      then show ?thesis using True u n(2) w(3,5) by (intro exI conjI) auto
    next
      case False
      then have "Suc j < ht_size bids" "n = ht_size bids - Suc j" using j Suc.hyps(2) by simp_all
      then obtain k itr' bp' v' where i: "remove_loop hash value (of_nat (h div 252)) (of_nat (h mod 252)) hf itr1 bp1 = Some (itr', bp')"
          "at_cell nf v' hid bids hf k itr' bp'" "ht_pages v' hid bids" "only_blocks bids v0 v'"
          "rotate h (ht_cells v' bids) = take (Suc j) (rotate h (ht_cells v0 bids)) @ remove_cells hash value (drop (Suc j) (rotate h (ht_cells v0 bids)))"
        using Suc.hyps(1) [of "Suc j" v0 itr1 bp1] w(3) n(2) by blast
      have "rotate h (ht_cells v' bids) = take j (rotate h ?cs) @ remove_cells hash value (drop j (rotate h ?cs))" unfolding i(5) tk rm by simp
      then show ?thesis using False u i(1-3) only_blocks_trans [OF w(5) i(4)] by auto
    qed
  qed
qed simp

end
