(* ===== verification/Hash_Table_Spec.thy ===== *)
theory Hash_Table_Spec
  imports Hash_Table_Laws
begin

text \<open>
  The hash table as a multimap from key hashes to values.  The invariant of linear probing (\<open>cells_inv\<close>): behind the
  first free cell on the probe path of a key there is no pair with that key.  The contract of such a container is the
  locale \<open>multimap_store\<close>; the table is an instance of it.
\<close>

subsection \<open>The operations on the pool\<close>

definition ht_ok :: "nat \<Rightarrow> (pageID \<Rightarrow> bytes option) \<Rightarrow> pageID \<Rightarrow> pageID list \<Rightarrow> BufferPool \<Rightarrow> bool" where
  "ht_ok nf v hid bids bp \<longleftrightarrow> 2 \<le> nf \<and> ht_pages v hid bids \<and> pool_ok {} nf bp \<and> views v bp"

definition probe_path :: "(pageID \<Rightarrow> bytes option) \<Rightarrow> pageID list \<Rightarrow> u32 \<Rightarrow> cell list" where
  "probe_path v bids hash = rotate (home (length bids) hash) (ht_cells v bids)"

lemma HT_GetValue_spec:
  assumes ok: "ht_ok nf v hid bids bp"
  shows "\<exists>bp'. HT_GetValue murmur3 hid key bp = Some (get_cells (GenHashMurMur murmur3 key) (probe_path v bids (GenHashMurMur murmur3 key)), bp') \<and>
    ht_ok nf v hid bids bp'"
proof -
  let ?x = "GenHashMurMur murmur3 key" and ?h = "home (length bids) (GenHashMurMur murmur3 key)"
  have o: "2 \<le> nf" "ht_pages v hid bids" "pool_ok {} nf bp" "views v bp" using ok by (auto simp: ht_ok_def)
  have h: "?h < ht_size bids" using home_less ht_pagesD(1) [OF o(2)] by simp
  obtain hf itr bp1 where s: "ht_start ?x hid bp = Some (of_nat (?h div 252), of_nat (?h mod 252), hf, itr, bp1)" "at_cell nf v hid bids hf ?h itr bp1"
    using ht_start_spec [OF o(2,1,3,4)] by blast
  obtain k itr2 bp2 where l: "get_loop ?x (of_nat (?h div 252)) (of_nat (?h mod 252)) hf itr [] bp1 =
      Some (get_cells ?x (rotate ?h (ht_cells v bids)), itr2, bp2)" "at_cell nf v hid bids hf k itr2 bp2"
    using get_loop_spec [OF o(2,1) h, of 0 hf itr bp1 ?x "[]"] s(2) h ht_pagesD(1) [OF o(2)] by auto
  obtain bp3 where e: "ht_end itr2 hid bp2 = Some bp3" "pool_ok {} nf bp3" "views v bp3" using ht_end_spec [OF o(2) l(2)] by blast
  show ?thesis using s(1) l(1) e o(1,2) by (simp add: Let_def HT_GetValue_def ht_ok_def probe_path_def)
qed

lemma HT_Insert_spec:
  assumes ok: "ht_ok nf v hid bids bp"
  shows "\<exists>v' bp'. HT_Insert murmur3 hid key val bp =
      Some (fst (insert_cells (GenHashMurMur murmur3 key) val (probe_path v bids (GenHashMurMur murmur3 key))), bp') \<and>
    ht_ok nf v' hid bids bp' \<and> only_blocks bids v v' \<and>
    probe_path v' bids (GenHashMurMur murmur3 key) = snd (insert_cells (GenHashMurMur murmur3 key) val (probe_path v bids (GenHashMurMur murmur3 key)))"
proof -
  let ?x = "GenHashMurMur murmur3 key" and ?h = "home (length bids) (GenHashMurMur murmur3 key)"
  have o: "2 \<le> nf" "ht_pages v hid bids" "pool_ok {} nf bp" "views v bp" using ok by (auto simp: ht_ok_def)
  have h: "?h < ht_size bids" using home_less ht_pagesD(1) [OF o(2)] by simp
  obtain hf itr bp1 where s: "ht_start ?x hid bp = Some (of_nat (?h div 252), of_nat (?h mod 252), hf, itr, bp1)" "at_cell nf v hid bids hf ?h itr bp1"
    using ht_start_spec [OF o(2,1,3,4)] by blast
  obtain k itr2 bp2 v' where l: "insert_probe ?x val (of_nat (?h div 252)) (of_nat (?h mod 252)) hf itr bp1 =
      Some (fst (insert_cells ?x val (rotate ?h (ht_cells v bids))), itr2, bp2)" "at_cell nf v' hid bids hf k itr2 bp2" "ht_pages v' hid bids"
      "only_blocks bids v v'" "rotate ?h (ht_cells v' bids) = snd (insert_cells ?x val (rotate ?h (ht_cells v bids)))"
    using insert_probe_spec [OF o(2,1) h, of 0 hf itr bp1 ?x val] s(2) h ht_pagesD(1) [OF o(2)] by auto
  obtain bp3 where e: "ht_end itr2 hid bp2 = Some bp3" "pool_ok {} nf bp3" "views v' bp3" using ht_end_spec [OF l(3,2)] by blast
  show ?thesis using s(1) l(1,3-5) e o(1) by (intro exI [of _ v'] exI [of _ bp3]) (simp add: Let_def HT_Insert_def ht_ok_def probe_path_def)
qed

lemma HT_Remove_spec:
  assumes ok: "ht_ok nf v hid bids bp"
  shows "\<exists>v' bp'. HT_Remove murmur3 hid key val bp = Some bp' \<and> ht_ok nf v' hid bids bp' \<and> only_blocks bids v v' \<and>
    probe_path v' bids (GenHashMurMur murmur3 key) = remove_cells (GenHashMurMur murmur3 key) val (probe_path v bids (GenHashMurMur murmur3 key))"
proof -
  let ?x = "GenHashMurMur murmur3 key" and ?h = "home (length bids) (GenHashMurMur murmur3 key)"
  have o: "2 \<le> nf" "ht_pages v hid bids" "pool_ok {} nf bp" "views v bp" using ok by (auto simp: ht_ok_def)
  have h: "?h < ht_size bids" using home_less ht_pagesD(1) [OF o(2)] by simp
  obtain hf itr bp1 where s: "ht_start ?x hid bp = Some (of_nat (?h div 252), of_nat (?h mod 252), hf, itr, bp1)" "at_cell nf v hid bids hf ?h itr bp1"
    using ht_start_spec [OF o(2,1,3,4)] by blast
  obtain k itr2 bp2 v' where l: "remove_loop ?x val (of_nat (?h div 252)) (of_nat (?h mod 252)) hf itr bp1 = Some (itr2, bp2)"
      "at_cell nf v' hid bids hf k itr2 bp2" "ht_pages v' hid bids" "only_blocks bids v v'"
      "rotate ?h (ht_cells v' bids) = remove_cells ?x val (rotate ?h (ht_cells v bids))"
    using remove_loop_spec [OF o(1) h o(2), of 0 hf itr bp1 ?x val] s(2) h ht_pagesD(1) [OF o(2)] by auto
  obtain bp3 where e: "ht_end itr2 hid bp2 = Some bp3" "pool_ok {} nf bp3" "views v' bp3" using ht_end_spec [OF l(3,2)] by blast
  show ?thesis using s(1) l(1,3-5) e o(1) by (intro exI [of _ v'] exI [of _ bp3]) (simp add: Let_def HT_Remove_def ht_ok_def probe_path_def)
qed

subsection \<open>The cells as a multimap\<close>

abbreviation full_cell :: "u32 \<Rightarrow> u32 \<Rightarrow> cell" where
  "full_cell k v \<equiv> \<lparr>c_occ = True, c_read = True, c_key = k, c_val = v\<rparr>"

text \<open>Along the probe path of \<open>k\<close>: no pair with key \<open>k\<close> behind the first free cell.\<close>

definition reachable :: "u32 \<Rightarrow> cell list \<Rightarrow> bool" where
  "reachable k r \<longleftrightarrow> (\<forall>c \<in> set (dropWhile c_occ r). c_occ c \<longrightarrow> c_key c \<noteq> k)"

definition cells_inv :: "nat \<Rightarrow> cell list \<Rightarrow> bool" where
  "cells_inv n cs \<longleftrightarrow> length cs = 252 * n \<and> (\<forall>k. reachable k (rotate (home n k) cs))"

definition cells_map :: "nat \<Rightarrow> cell list \<Rightarrow> u32 \<Rightarrow> u32 list" where
  "cells_map n cs k = get_cells k (rotate (home n k) cs)"

definition cells_vals :: "cell list \<Rightarrow> u32 set" where
  "cells_vals cs = c_val ` {c \<in> set cs. c_occ c}"

definition cells_free :: "cell list \<Rightarrow> nat" where
  "cells_free cs = length (filter (\<lambda>c. \<not> c_occ c) cs)"

lemma get_cells_filter: "reachable k r \<Longrightarrow> get_cells k r = map c_val (filter (\<lambda>c. c_occ c \<and> c_read c \<and> c_key c = k) r)"
  by (induction r) (auto simp: reachable_def filter_empty_conv split: if_splits)

lemma reachable_fill_other:
  assumes "reachable k r" and "j < length r" and "\<not> c_occ (r ! j)" and "k' \<noteq> k"
  shows "reachable k (r[j := full_cell k' v])" and "get_cells k (r[j := full_cell k' v]) = get_cells k r"
proof -
  have r: "r = take j r @ r ! j # drop (Suc j) r" using id_take_nth_drop [OF assms(2)] .
  have r': "r[j := full_cell k' v] = take j r @ full_cell k' v # drop (Suc j) r" using upd_conv_take_nth_drop [OF assms(2)] .
  have "\<forall>x \<in> set (dropWhile c_occ (a @ full_cell k' v # b)). x = full_cell k' v \<or> x \<in> set (dropWhile c_occ (a @ f # b))" if "\<not> c_occ f" for a b f
    using that by (induction a) (auto dest: set_dropWhileD)
  from this [OF assms(3)] show R: "reachable k (r[j := full_cell k' v])"
    unfolding r' using assms(1,4) r unfolding reachable_def by (metis cell.select_convs(3))
  have "filter (\<lambda>c. c_occ c \<and> c_read c \<and> c_key c = k) (r[j := full_cell k' v]) = filter (\<lambda>c. c_occ c \<and> c_read c \<and> c_key c = k) r"
    unfolding r' by (subst (3) r) (use assms(3,4) in simp)
  then show "get_cells k (r[j := full_cell k' v]) = get_cells k r" using get_cells_filter assms(1) R by simp
qed

lemma insert_cells_cases:
  obtains (dup) "insert_cells k v r = (True, r)" "\<exists>c \<in> set r. c_occ c \<and> c_val c = v"
    | (full) "insert_cells k v r = (False, r)" "\<forall>c \<in> set r. c_occ c"
    | (fill) a f b where "r = a @ f # b" "\<forall>c \<in> set a. c_occ c" "\<not> c_occ f" "insert_cells k v r = (False, a @ full_cell k v # b)"
proof (induction r arbitrary: thesis)
  case (Cons c r)
  note P = Cons.prems
  show ?case
  proof (cases "c_occ c \<and> c_val c \<noteq> v")
    case False
    then show ?thesis using P(1) P(3) [of "[]" c r] by (cases "c_occ c") auto
  next
    case True
    show ?thesis
    proof (rule Cons.IH)
      fix a f b assume "r = a @ f # b" "\<forall>c \<in> set a. c_occ c" "\<not> c_occ f" "insert_cells k v r = (False, a @ full_cell k v # b)"
      then show ?thesis using P(3) [of "c # a" f b] True by auto
    qed (use P(1,2) True in auto)
  qed
qed simp

lemma get_fill:
  assumes "\<forall>c \<in> set a. c_occ c" and "\<not> c_occ f" and "reachable k (a @ f # b)"
  shows "get_cells k (a @ full_cell k v # b) = get_cells k (a @ f # b) @ [v]" and "reachable k (a @ full_cell k v # b)"
proof -
  have d: "dropWhile c_occ (a @ f # b) = f # b" "dropWhile c_occ (a @ full_cell k v # b) = dropWhile c_occ b" using assms(1,2) by simp_all
  have b: "\<forall>c \<in> set b. c_occ c \<longrightarrow> c_key c \<noteq> k" using assms(3) unfolding reachable_def d by simp
  then show R: "reachable k (a @ full_cell k v # b)" unfolding reachable_def d using set_dropWhileD by fast
  have "filter (\<lambda>c. c_occ c \<and> c_read c \<and> c_key c = k) b = []" using b by (auto simp: filter_empty_conv)
  then show "get_cells k (a @ full_cell k v # b) = get_cells k (a @ f # b) @ [v]"
    unfolding get_cells_filter [OF R] get_cells_filter [OF assms(3)] using assms(2) by simp
qed

text \<open>Removing a pair only clears the readable bit of cells with that pair.\<close>

definition unread :: "u32 \<Rightarrow> u32 \<Rightarrow> cell \<Rightarrow> cell \<Rightarrow> bool" where
  "unread k v c c' \<longleftrightarrow> c' = c \<or> c_key c = k \<and> c_val c = v \<and> c' = c\<lparr>c_read := False\<rparr>"

lemma remove_cells_unread: "list_all2 (unread k v) r (remove_cells k v r)"
  by (induction r) (auto simp: unread_def list.rel_refl)

lemma get_remove: "get_cells k (remove_cells k v r) = filter (\<lambda>x. x \<noteq> v) (get_cells k r)"
  by (induction r) auto

lemma unread_reachable: "list_all2 (unread k v) r r' \<Longrightarrow> reachable q r' \<longleftrightarrow> reachable q r"
proof (induction rule: list_all2_induct)
  case (Cons c r c' r')
  have "list_all2 (unread k v) r r' \<Longrightarrow> (\<forall>c \<in> set r'. c_occ c \<longrightarrow> c_key c \<noteq> q) \<longleftrightarrow> (\<forall>c \<in> set r. c_occ c \<longrightarrow> c_key c \<noteq> q)"
    by (induction rule: list_all2_induct) (auto simp: unread_def)
  then show ?case using Cons by (cases "c_occ c") (auto simp: reachable_def unread_def)
qed simp

lemma unread_get: "list_all2 (unread k v) r r' \<Longrightarrow> q \<noteq> k \<Longrightarrow> get_cells q r' = get_cells q r"
proof (induction rule: list_all2_induct)
  case (Cons c r c' r')
  have u: "c_occ c' = c_occ c" "c_val c' = c_val c" "c_key c' = c_key c" "c_key c \<noteq> k \<longrightarrow> c_read c' = c_read c"
    using Cons.hyps(1) unfolding unread_def by (elim disjE conjE; simp)+
  have "(c_read c' \<and> c_key c' = q) = (c_read c \<and> c_key c = q)" using u(3,4) Cons.prems by (cases "c_key c = q") simp_all
  moreover note u(1,2)
  moreover have "get_cells q r' = get_cells q r" using Cons.IH Cons.prems by blast
  ultimately show ?case unfolding get_cells.simps by simp
qed simp

lemma cells_vals_Cons: "cells_vals (x # xs) = (if c_occ x then insert (c_val x) (cells_vals xs) else cells_vals xs)"
proof -
  have "{c \<in> set (x # xs). c_occ c} = (if c_occ x then insert x {c \<in> set xs. c_occ c} else {c \<in> set xs. c_occ c})" by auto
  then show ?thesis unfolding cells_vals_def by simp
qed

lemma unread_occ: "list_all2 (unread k v) r r' \<Longrightarrow> cells_vals r' = cells_vals r \<and> cells_free r' = cells_free r"
proof (induction rule: list_all2_induct)
  case (Cons c r c' r')
  have "c_occ c' = c_occ c" "c_val c' = c_val c" using Cons.hyps(1) by (auto simp: unread_def)
  then show ?case using Cons.IH by (simp add: cells_vals_Cons cells_free_def)
qed simp

subsection \<open>Insertion and removal keep the invariant\<close>

lemma mod_hit:
  fixes h i n :: nat
  assumes "i < n"
  obtains j where "j < n" "(h + j) mod n = i"
proof
  show "(n - h mod n + i) mod n < n" using assms by simp
  have "h mod n \<le> n" using assms by (simp add: less_imp_le)
  moreover have "h + (n - r + i) = n * Suc q + i" if "r \<le> n" "n * q + r = h" for q r using that by simp
  ultimately have "h + (n - h mod n + i) = n * Suc (h div n) + i" using mult_div_mod_eq [of n h] by blast
  then have "(h + (n - h mod n + i)) mod n = (n * Suc (h div n) + i) mod n" by (rule arg_cong)
  also have "\<dots> = i" using assms by (simp only: mod_mult_self4 mod_less)
  finally show "(h + (n - h mod n + i) mod n) mod n = i" by (simp only: mod_add_right_eq)
qed

lemma rotate_inj: "length xs = length ys \<Longrightarrow> rotate h xs = rotate h ys \<Longrightarrow> xs = ys"
proof (rule nth_equalityI)
  fix i assume a: "length xs = length ys" "rotate h xs = rotate h ys" "i < length xs"
  obtain j where j: "j < length xs" "(h + j) mod length xs = i" using mod_hit [OF a(3), of h] by blast
  show "xs ! i = ys ! i" using nth_rotate [of j xs h] nth_rotate [of j ys h] a j by simp
qed

lemma cells_rotate: "cells_vals (rotate h cs) = cells_vals cs" "cells_free (rotate h cs) = cells_free cs"
proof -
  have "cells_free (rotate1 xs) = cells_free xs" for xs by (cases xs) (simp_all add: cells_free_def)
  then show "cells_free (rotate h cs) = cells_free cs" by (induction h) simp_all
qed (simp add: cells_vals_def)

lemma cells_append: "cells_vals (a @ b) = cells_vals a \<union> cells_vals b" "cells_free (a @ b) = cells_free a + cells_free b"
  by (auto simp: cells_vals_def cells_free_def)

lemma fill_inv:
  assumes inv: "cells_inv n cs" and r: "rotate (home n k) cs = a @ f # b" "\<forall>c \<in> set a. c_occ c" "\<not> c_occ f"
    and r': "rotate (home n k) cs' = a @ full_cell k v # b" and len: "length cs' = length cs"
  shows "cells_inv n cs'" and "cells_map n cs' = (cells_map n cs)(k := cells_map n cs k @ [v])"
    and "cells_vals cs' = insert v (cells_vals cs)" and "cells_free cs = Suc (cells_free cs')"
proof -
  define p where "p = (home n k + length a) mod length cs"
  have la: "length a < length cs" using r(1) by (metis length_rotate length_append length_Cons less_add_Suc1 add_Suc_right)
  then have p: "p < length cs" by (simp add: p_def) (metis la mod_less_divisor not_less_zero gr0I)
  have "rotate (home n k) (cs[p := full_cell k v]) = rotate (home n k) cs'"
    using rotate_update [OF la, of "home n k"] r(1) r' by (simp add: p_def)
  then have cs': "cs' = cs[p := full_cell k v]" using rotate_inj len by (metis length_list_update)
  have free: "\<not> c_occ (cs ! p)" using nth_rotate [OF la, of "home n k"] r(1,3) by (simp add: p_def)
  have other: "reachable q (rotate (home n q) cs') \<and> get_cells q (rotate (home n q) cs') = get_cells q (rotate (home n q) cs)" if q: "q \<noteq> k" for q
  proof -
    obtain j where j: "j < length cs" "(home n q + j) mod length cs = p" using mod_hit [OF p] by blast
    have "rotate (home n q) cs' = (rotate (home n q) cs)[j := full_cell k v]"
      unfolding cs' using rotate_update [OF j(1), of "home n q"] j(2) by simp
    moreover have "\<not> c_occ (rotate (home n q) cs ! j)" using nth_rotate [OF j(1)] j(2) free by simp
    moreover have "reachable q (rotate (home n q) cs)" using inv by (simp add: cells_inv_def)
    ultimately show ?thesis using reachable_fill_other [of q "rotate (home n q) cs" j k v] j(1) q by simp
  qed
  have "reachable k (a @ f # b)" using inv r(1) by (metis cells_inv_def)
  note own = get_fill [OF r(2,3) this, of v]
  show "cells_inv n cs'" using other own(2) inv len r' by (auto simp: cells_inv_def) metis
  show "cells_map n cs' = (cells_map n cs)(k := cells_map n cs k @ [v])" using other own(1) r r' by (auto simp: cells_map_def fun_eq_iff)
  show "cells_vals cs' = insert v (cells_vals cs)" "cells_free cs = Suc (cells_free cs')"
    using cells_rotate [of "home n k" cs] cells_rotate [of "home n k" cs'] r(1,3) r'
    by (simp_all add: cells_append cells_vals_Cons) (simp add: cells_free_def)
qed

lemma remove_inv:
  assumes inv: "cells_inv n cs" and r: "rotate (home n k) cs' = remove_cells k v (rotate (home n k) cs)" and len: "length cs' = length cs"
  shows "cells_inv n cs'" and "cells_map n cs' = (cells_map n cs)(k := filter (\<lambda>x. x \<noteq> v) (cells_map n cs k))"
    and "cells_vals cs' = cells_vals cs" and "cells_free cs' = cells_free cs"
proof -
  have un: "list_all2 (unread k v) cs cs'"
  proof (rule list_all2_all_nthI)
    fix i assume i: "i < length cs"
    obtain j where j: "j < length cs" "(home n k + j) mod length cs = i" using mod_hit [OF i] by blast
    have "unread k v (rotate (home n k) cs ! j) (rotate (home n k) cs' ! j)"
      using list_all2_nthD [OF remove_cells_unread, of j "rotate (home n k) cs" k v] j(1) r by simp
    then show "unread k v (cs ! i) (cs' ! i)" using nth_rotate [of j cs] nth_rotate [of j cs'] j len by simp
  qed (simp add: len)
  have rot: "list_all2 (unread k v) (rotate h cs) (rotate h cs')" for h
    using un len by (intro list_all2_all_nthI) (auto simp: nth_rotate dest: list_all2_nthD intro!: list_all2_nthD [OF un] mod_less_divisor)
  show "cells_inv n cs'" using inv len unread_reachable [OF rot] by (simp add: cells_inv_def)
  show "cells_map n cs' = (cells_map n cs)(k := filter (\<lambda>x. x \<noteq> v) (cells_map n cs k))"
    using unread_get [OF rot] r get_remove by (auto simp: cells_map_def fun_eq_iff)
  show "cells_vals cs' = cells_vals cs" "cells_free cs' = cells_free cs" using unread_occ [OF un] by simp_all
qed

subsection \<open>The contract of a multimap\<close>

text \<open>
  \<open>store m U n s\<close>: state \<open>s\<close> holds the multimap \<open>m\<close> from key hashes to values in insertion order, the values \<open>U\<close> have been
  inserted at some time, and there is room for \<open>n\<close> more pairs.
\<close>

locale multimap_store =
  fixes hash :: "'k \<Rightarrow> 'h"
    and get :: "'k \<Rightarrow> 's \<Rightarrow> ('v list \<times> 's) option"
    and ins :: "'k \<Rightarrow> 'v \<Rightarrow> 's \<Rightarrow> (bool \<times> 's) option"
    and rem :: "'k \<Rightarrow> 'v \<Rightarrow> 's \<Rightarrow> 's option"
    and store :: "('h \<Rightarrow> 'v list) \<Rightarrow> 'v set \<Rightarrow> nat \<Rightarrow> 's \<Rightarrow> bool"
  assumes get_law: "store m U n s \<Longrightarrow> \<exists>s'. get k s = Some (m (hash k), s') \<and> store m U n s'"
    and ins_law: "store m U (Suc n) s \<Longrightarrow> v \<notin> U \<Longrightarrow>
      \<exists>s'. ins k v s = Some (False, s') \<and> store (m(hash k := m (hash k) @ [v])) (insert v U) n s'"
    and rem_law: "store m U n s \<Longrightarrow> \<exists>s'. rem k v s = Some s' \<and> store (m(hash k := filter (\<lambda>x. x \<noteq> v) (m (hash k)))) U n s'"
begin

fun ins_all :: "('k \<times> 'v) list \<Rightarrow> 's \<Rightarrow> 's option" where
  "ins_all [] s = Some s"
| "ins_all ((k, v) # kvs) s = do { (_, s) \<leftarrow> ins k v s; ins_all kvs s }"

lemma ins_all_spec:
  "store m U (length kvs + n) s \<Longrightarrow> distinct (map snd kvs) \<Longrightarrow> set (map snd kvs) \<inter> U = {} \<Longrightarrow>
   \<exists>s'. ins_all kvs s = Some s' \<and>
     store (\<lambda>h. m h @ map snd (filter (\<lambda>kv. hash (fst kv) = h) kvs)) (set (map snd kvs) \<union> U) n s'"
proof (induction kvs arbitrary: m U s)
  case (Cons kv kvs)
  obtain k v where kv: "kv = (k, v)" by fastforce
  obtain s1 where s1: "ins k v s = Some (False, s1)" "store (m(hash k := m (hash k) @ [v])) (insert v U) (length kvs + n) s1"
    using ins_law [of m U "length kvs + n" s v k] Cons.prems kv by auto
  have "\<exists>s'. ins_all kvs s1 = Some s' \<and> store (\<lambda>h. (m(hash k := m (hash k) @ [v])) h @ map snd (filter (\<lambda>kv. hash (fst kv) = h) kvs))
      (set (map snd kvs) \<union> insert v U) n s'"
    using Cons.IH [OF s1(2)] Cons.prems(2,3) kv by auto
  moreover have "(\<lambda>h. (m(hash k := m (hash k) @ [v])) h @ map snd (filter (\<lambda>kv. hash (fst kv) = h) kvs)) =
      (\<lambda>h. m h @ map snd (filter (\<lambda>kv. hash (fst kv) = h) (kv # kvs)))" using kv by (auto simp: fun_eq_iff)
  ultimately show ?case using s1(1) kv by simp
qed simp

end

definition ht_store :: "nat \<Rightarrow> (pageID \<Rightarrow> bytes option) \<Rightarrow> pageID \<Rightarrow> pageID list \<Rightarrow> (u32 \<Rightarrow> u32 list) \<Rightarrow> u32 set \<Rightarrow> nat \<Rightarrow> BufferPool \<Rightarrow> bool" where
  "ht_store nf w hid bids m U n bp \<longleftrightarrow> (\<exists>v. ht_ok nf v hid bids bp \<and> only_blocks bids w v \<and> cells_inv (length bids) (ht_cells v bids) \<and>
     cells_map (length bids) (ht_cells v bids) = m \<and> cells_vals (ht_cells v bids) = U \<and> cells_free (ht_cells v bids) = n)"

lemma ht_store_get:
  assumes "ht_store nf w hid bids m U n bp"
  shows "\<exists>bp'. HT_GetValue murmur3 hid key bp = Some (m (GenHashMurMur murmur3 key), bp') \<and> ht_store nf w hid bids m U n bp'"
proof -
  obtain v where v: "ht_ok nf v hid bids bp" "only_blocks bids w v" "cells_inv (length bids) (ht_cells v bids)"
      "cells_map (length bids) (ht_cells v bids) = m" "cells_vals (ht_cells v bids) = U" "cells_free (ht_cells v bids) = n"
    using assms by (auto simp: ht_store_def)
  have "get_cells (GenHashMurMur murmur3 key) (probe_path v bids (GenHashMurMur murmur3 key)) = m (GenHashMurMur murmur3 key)"
    unfolding v(4) [symmetric] by (simp add: cells_map_def probe_path_def)
  then show ?thesis using HT_GetValue_spec [OF v(1), of murmur3 key] v by (auto simp: ht_store_def)
qed

lemma ht_store_ins:
  assumes st: "ht_store nf w hid bids m U (Suc n) bp" and new: "x \<notin> U"
  shows "\<exists>bp'. HT_Insert murmur3 hid key x bp = Some (False, bp') \<and>
    ht_store nf w hid bids (m(GenHashMurMur murmur3 key := m (GenHashMurMur murmur3 key) @ [x])) (insert x U) n bp'"
proof -
  let ?k = "GenHashMurMur murmur3 key"
  obtain v where v: "ht_ok nf v hid bids bp" "only_blocks bids w v" "cells_inv (length bids) (ht_cells v bids)"
      "cells_map (length bids) (ht_cells v bids) = m" "cells_vals (ht_cells v bids) = U" "cells_free (ht_cells v bids) = Suc n"
    using st by (auto simp: ht_store_def)
  obtain v' bp' where i: "HT_Insert murmur3 hid key x bp = Some (fst (insert_cells ?k x (probe_path v bids ?k)), bp')" "ht_ok nf v' hid bids bp'"
      "only_blocks bids v v'" "probe_path v' bids ?k = snd (insert_cells ?k x (probe_path v bids ?k))"
    using HT_Insert_spec [OF v(1), of murmur3 key x] by blast
  show ?thesis
  proof (cases rule: insert_cells_cases [of ?k x "probe_path v bids ?k"])
    case dup
    then have "x \<in> U" using v(5) by (auto simp: cells_vals_def probe_path_def)
    then show ?thesis using new by simp
  next
    case full
    then have "cells_free (probe_path v bids ?k) = 0" by (simp add: cells_free_def)
    then show ?thesis using v(6) cells_rotate(2) by (simp add: probe_path_def)
  next
    case (fill a f b)
    have r: "rotate (home (length bids) ?k) (ht_cells v bids) = a @ f # b" "rotate (home (length bids) ?k) (ht_cells v' bids) = a @ full_cell ?k x # b"
      using fill(1,4) i(4) by (simp_all add: probe_path_def)
    note F = fill_inv [OF v(3) r(1) fill(2,3) r(2)]
    show ?thesis using i(1,2) fill(4) F v only_blocks_trans [OF v(2) i(3)] by (auto simp: ht_store_def)
  qed
qed

lemma ht_store_rem:
  assumes st: "ht_store nf w hid bids m U n bp"
  shows "\<exists>bp'. HT_Remove murmur3 hid key x bp = Some bp' \<and>
    ht_store nf w hid bids (m(GenHashMurMur murmur3 key := filter (\<lambda>y. y \<noteq> x) (m (GenHashMurMur murmur3 key)))) U n bp'"
proof -
  let ?k = "GenHashMurMur murmur3 key"
  obtain v where v: "ht_ok nf v hid bids bp" "only_blocks bids w v" "cells_inv (length bids) (ht_cells v bids)"
      "cells_map (length bids) (ht_cells v bids) = m" "cells_vals (ht_cells v bids) = U" "cells_free (ht_cells v bids) = n"
    using st by (auto simp: ht_store_def)
  obtain v' bp' where i: "HT_Remove murmur3 hid key x bp = Some bp'" "ht_ok nf v' hid bids bp'" "only_blocks bids v v'"
      "probe_path v' bids ?k = remove_cells ?k x (probe_path v bids ?k)"
    using HT_Remove_spec [OF v(1), of murmur3 key x] by blast
  have r: "rotate (home (length bids) ?k) (ht_cells v' bids) = remove_cells ?k x (rotate (home (length bids) ?k) (ht_cells v bids))"
    using i(4) by (simp add: probe_path_def)
  note R = remove_inv [OF v(3) r]
  show ?thesis using i(1,2) R v only_blocks_trans [OF v(2) i(3)] by (auto simp: ht_store_def)
qed

interpretation ht: multimap_store "GenHashMurMur murmur3" "HT_GetValue murmur3 hid" "HT_Insert murmur3 hid" "HT_Remove murmur3 hid"
    "ht_store nf w hid bids"
  by unfold_locales (rule ht_store_get ht_store_ins ht_store_rem; assumption)+

subsection \<open>A new table\<close>

definition header_lists :: "bytes \<Rightarrow> pageID list \<Rightarrow> bool" where
  "header_lists d bids \<longleftrightarrow> length d = 4096 \<and> length bids \<le> 1016 \<and> NumBlocks d = of_nat (length bids) \<and>
     (\<forall>i < length bids. GetBlockPageId (of_nat i) d = Some (bids ! i))"

lemma AddBlockPageId_spec:
  assumes h: "header_lists d bids" and n: "length bids < 1016"
  shows "\<exists>d'. AddBlockPageId p d = Some d' \<and> header_lists d' (bids @ [p])"
proof -
  let ?n = "length bids"
  let ?d1 = "copy_at (32 + 4 * ?n) (enc32 p) d"
  let ?d2 = "copy_at 16 (enc32 (of_nat (Suc ?n))) ?d1"
  have H: "length d = 4096" "NumBlocks d = of_nat ?n" "\<And>i. i < ?n \<Longrightarrow> GetBlockPageId (of_nat i) d = Some (bids ! i)"
    using h by (auto simp: header_lists_def)
  have u: "unat (of_nat i :: u32) = i" if "i \<le> 1016" for i using that by (simp add: unat_of_nat take_bit_nat_eq_self)
  have l: "length ?d1 = 4096" "length ?d2 = 4096" using H(1) n by simp_all
  have a: "AddBlockPageId p d = Some ?d2" using H(2) u [of ?n] n by (simp add: AddBlockPageId_def Let_def add.commute)
  have nb: "NumBlocks ?d2 = of_nat (Suc ?n)" unfolding NumBlocks_def using l(1) by (intro c32.field_same) simp
  have "GetBlockPageId (of_nat i) ?d2 = Some ((bids @ [p]) ! i)" if i: "i < Suc ?n" for i
  proof -
    have 1: "dec32 (drop (32 + 4 * i) ?d2) = dec32 (drop (32 + 4 * i) ?d1)" using l(1) i n by (intro c32.field_other) auto
    show ?thesis
    proof (cases "i = ?n")
      case True
      have "dec32 (drop (32 + 4 * i) ?d1) = p" unfolding True using H(1) n by (intro c32.field_same) simp
      then show ?thesis using 1 u [of i] True n by (simp add: GetBlockPageId_def)
    next
      case False
      then have i': "i < ?n" using i by simp
      have "dec32 (drop (32 + 4 * i) ?d1) = dec32 (drop (32 + 4 * i) d)" using H(1) n i' by (intro c32.field_other) auto
      then show ?thesis using H(3) [OF i'] 1 u [of i] i' n by (simp add: GetBlockPageId_def nth_append)
    qed
  qed
  then show ?thesis using a nb l(2) n by (auto simp: header_lists_def simp del: of_nat_Suc)
qed

definition building :: "nat \<Rightarrow> (pageID \<Rightarrow> bytes option) \<Rightarrow> pageID \<Rightarrow> FrameID \<Rightarrow> pageID list \<Rightarrow> BufferPool \<Rightarrow> bool" where
  "building nf v hid hf bids bp \<longleftrightarrow> 2 \<le> nf \<and> pool_ok {hid} nf bp \<and> views v bp \<and>
     (\<exists>hd fr. v hid = Some hd \<and> held hid hf hd fr bp \<and> header_lists hd bids) \<and> distinct (hid # bids) \<and>
     (\<forall>b \<in> set bids. v b = Some (replicate 4096 0)) \<and> (\<forall>q. v q \<noteq> None \<longrightarrow> unat q < unat (nextPageID (diskManager bp)))"

lemma add_block:
  assumes b: "building nf v hid hf bids bp" and n: "length bids < 1016" and np: "unat (nextPageID (diskManager bp)) < 524288"
  defines "p \<equiv> nextPageID (diskManager bp)"
  shows "\<exists>v' bp'. add_blocks (Suc m) hf bp = add_blocks m hf bp' \<and> building nf v' hid hf (bids @ [p]) bp' \<and>
    nextPageID (diskManager bp') = p + 1 \<and> v p = None \<and> (\<forall>q. q \<noteq> hid \<longrightarrow> q \<noteq> p \<longrightarrow> v' q = v q)"
proof -
  obtain hd fr where B: "2 \<le> nf" "pool_ok {hid} nf bp" "views v bp" "v hid = Some hd" "held hid hf hd fr bp" "header_lists hd bids"
      "distinct (hid # bids)" "\<forall>b \<in> set bids. v b = Some (replicate 4096 0)" "\<And>q. v q \<noteq> None \<Longrightarrow> unat q < unat p"
    using b by (auto simp: building_def p_def)
  have vp: "v p = None" using B(9) [of p] by (cases "v p") auto
  then have ph: "p \<noteq> hid" "p \<notin> set bids" using B(4,8) by auto
  obtain f bp1 where f: "NewPage bp = Some (Some f, bp1)" "pool_ok {p, hid} nf bp1" "held p f (replicate 4096 0) False bp1"
      "frame_page bp1 f = Some (page_NewEmpty p)" "kept_but {p} bp bp1" "others_kept p bp bp1" "nextPageID (diskManager bp1) = p + 1"
    using new_held [OF B(2) _ np] B(1) unfolding p_def by auto
  have h1: "held hid hf hd False bp1" using held_other [OF B(5) f(6) _ pool_okD(1) [OF B(2)]] ph by simp
  obtain hd' where hd': "AddBlockPageId p hd = Some hd'" "header_lists hd' (bids @ [p])" using AddBlockPageId_spec [OF B(6) n] by blast
  have len: "length hd' = 4096" using hd'(2) by (simp add: header_lists_def)
  obtain pg where pg: "frame_page bp1 hf = Some pg" using h1 by (auto simp: held_def resident_def)
  note inv1 = pool_okD(1) [OF f(2)]
  let ?bp2 = "set_frame hf (pg\<lparr>pg_data := hd'\<rparr>) bp1"
  have w: "pool_ok {p, hid} nf ?bp2" "held hid hf hd' (False \<and> hd' = hd) ?bp2" "kept_but {hid} bp1 ?bp2" "nextPageID (diskManager ?bp2) = p + 1"
    using write_held [OF f(2) h1 len log_only_self [OF inv1] pg] f(7) by auto
  have p2: "held p f (replicate 4096 0) False ?bp2" using held_set_frame [OF f(3) h1 ph(1) inv1] .
  obtain bp3 where u: "UnpinPage p True ?bp2 = Some (True, bp3)" "pool_ok ({p, hid} - {p}) nf bp3" "kept_but {} ?bp2 bp3"
      "bp_view bp3 p = Some (replicate 4096 0)" "others_kept p ?bp2 bp3" "diskManager bp3 = diskManager ?bp2"
    using unpin_held [OF w(1) p2, of True] by auto
  have h3: "held hid hf hd' False bp3" using held_other [OF w(2) u(5) _ pool_okD(1) [OF w(1)]] ph by simp
  have p3: "pool_ok {hid} nf bp3" using u(2) ph by (simp add: insert_Diff_if)
  let ?v = "v(hid \<mapsto> hd', p \<mapsto> replicate 4096 0)"
  have dp: "disk_page p" "disk_page hid" "bp_view bp3 hid = Some hd'"
    using held_page [OF f(3) inv1] held_page [OF h3 pool_okD(1) [OF p3]] by auto
  have k: "kept_but {p, hid} bp bp3" using kept_but_trans [OF kept_but_trans [OF f(5) w(3)] u(3)] by (simp add: insert_commute)
  have "bp_view bp3 q = Some d" if "v q = Some d" "q \<noteq> hid" "q \<noteq> p" for q d
    using B(3) that k by (auto simp: views_def kept_but_def)
  then have V: "views ?v bp3" using B(3) dp u(4) len by (auto simp: views_def)
  have np3: "nextPageID (diskManager bp3) = p + 1" using u(6) w(4) by simp
  have "unat (p + 1) = Suc (unat p)" using np unfolding p_def by (simp add: unat_word_ariths)
  then have lt: "?v q \<noteq> None \<Longrightarrow> unat q < unat (nextPageID (diskManager bp3))" for q
    using B(9) [of q] B(9) [of hid] B(4) unfolding np3 by (cases "q = p"; cases "q = hid") auto
  have "add_blocks (Suc m) hf bp = add_blocks m hf bp3"
    using f(1,4) held_data [OF h1] hd'(1) pg u(1) by (simp add: set_frame_data_def page_NewEmpty_def)
  moreover have "building nf ?v hid hf (bids @ [p]) bp3"
    unfolding building_def using B(1) p3 V h3 hd'(2) ph B(7,8) lt by auto
  ultimately show ?thesis using np3 vp by (intro exI [of _ ?v] exI [of _ bp3]) simp
qed

lemma add_blocks_spec:
  "building nf v hid hf bids bp \<Longrightarrow> length bids + n \<le> 1016 \<Longrightarrow> unat (nextPageID (diskManager bp)) + n \<le> 524288 \<Longrightarrow>
   \<exists>v' bids' bp'. add_blocks n hf bp = Some bp' \<and> building nf v' hid hf bids' bp' \<and> length bids' = length bids + n \<and>
     (\<forall>q. q \<noteq> hid \<longrightarrow> v q \<noteq> None \<longrightarrow> v' q = v q \<and> (q \<in> set bids' \<longrightarrow> q \<in> set bids))"
proof (induction n arbitrary: v bids bp)
  case (Suc n)
  let ?p = "nextPageID (diskManager bp)"
  obtain v1 bp1 where s: "add_blocks (Suc n) hf bp = add_blocks n hf bp1" "building nf v1 hid hf (bids @ [?p]) bp1"
      "nextPageID (diskManager bp1) = ?p + 1" "v ?p = None" "\<forall>q. q \<noteq> hid \<longrightarrow> q \<noteq> ?p \<longrightarrow> v1 q = v q"
    using add_block [OF Suc.prems(1), of n] Suc.prems(2,3) by auto
  have "unat (?p + 1) = Suc (unat ?p)" using Suc.prems(3) by (simp add: unat_word_ariths)
  then obtain v' bids' bp' where r: "add_blocks n hf bp1 = Some bp'" "building nf v' hid hf bids' bp'" "length bids' = length bids + Suc n"
      "\<forall>q. q \<noteq> hid \<longrightarrow> v1 q \<noteq> None \<longrightarrow> v' q = v1 q \<and> (q \<in> set bids' \<longrightarrow> q \<in> set (bids @ [?p]))"
    using Suc.IH [OF s(2)] Suc.prems(2,3) s(3) by auto
  have "v' q = v q \<and> (q \<in> set bids' \<longrightarrow> q \<in> set bids)" if q: "q \<noteq> hid" "v q \<noteq> None" for q
  proof -
    have "q \<noteq> ?p" using q(2) s(4) by (cases "q = ?p") simp_all
    then have e: "v1 q = v q" using s(5) q(1) by blast
    then have "v' q = v1 q \<and> (q \<in> set bids' \<longrightarrow> q \<in> set (bids @ [?p]))" using r(4) q by metis
    then show ?thesis using e \<open>q \<noteq> ?p\<close> by simp
  qed
  then show ?case using s(1) r(1-3) by auto
qed auto


lemma empty_cells:
  assumes "bids \<noteq> []" and "\<forall>b \<in> set bids. v b = Some (replicate 4096 0)"
  shows "cells_inv (length bids) (ht_cells v bids)" "cells_map (length bids) (ht_cells v bids) = (\<lambda>_. [])"
    "cells_vals (ht_cells v bids) = {}" "cells_free (ht_cells v bids) = ht_size bids"
proof -
  let ?cs = "ht_cells v bids"
  have "\<not> c_occ (?cs ! k)" if "k < ht_size bids" for k
  proof -
    have "k div 252 < length bids" using that by (simp add: less_mult_imp_div_less mult.commute)
    then have "the (v (bids ! (k div 252))) = replicate 4096 0" using assms(2) by simp
    then show ?thesis using that by (simp add: ht_cells_def block_cell_def)
  qed
  then have e: "\<forall>c \<in> set ?cs. \<not> c_occ c" by (simp add: all_set_conv_all_nth)
  show "cells_vals ?cs = {}" using e by (auto simp: cells_vals_def)
  show "cells_free ?cs = ht_size bids" using e by (simp add: cells_free_def)
  show "cells_inv (length bids) ?cs" using e by (auto simp: cells_inv_def reachable_def dest: set_dropWhileD)
  have "get_cells k r = []" if "\<forall>c \<in> set r. \<not> c_occ c" for k r using that by (cases r) auto
  then show "cells_map (length bids) ?cs = (\<lambda>_. [])" using e by (simp add: cells_map_def fun_eq_iff)
qed

lemma NewLinearProbeHashTable_spec:
  assumes ok: "pool_ok {} nf bp" "2 \<le> nf" "views w bp" and fresh: "\<forall>q. w q \<noteq> None \<longrightarrow> unat q < unat (nextPageID (diskManager bp))"
    and n: "0 < n" "n \<le> 1016" "unat (nextPageID (diskManager bp)) + n < 524288"
  shows "\<exists>hid bids w' bp'. NewLinearProbeHashTable (int n) bp = Some (hid, bp') \<and> length bids = n \<and>
    ht_store nf w' hid bids (\<lambda>_. []) {} (252 * n) bp' \<and> (\<forall>q. w q \<noteq> None \<longrightarrow> w' q = w q \<and> q \<notin> set (hid # bids))"
proof -
  define hid where "hid = nextPageID (diskManager bp)"
  obtain hf bp1 where f: "NewPage bp = Some (Some hf, bp1)" "pool_ok {hid} nf bp1" "held hid hf (replicate 4096 0) False bp1"
      "frame_page bp1 hf = Some (page_NewEmpty hid)" "kept_but {hid} bp bp1" "nextPageID (diskManager bp1) = hid + 1"
    using new_held [OF ok(1)] ok(2) n(3) unfolding hid_def by auto
  define hd where "hd = SetSize (word_of_int (int n) * 252) (Header_SetPageId hid (replicate 4096 0))"
  have len: "length hd = 4096" by (simp add: hd_def SetSize_def Header_SetPageId_def)
  have "dec32 (drop 16 hd) = dec32 (drop 16 (Header_SetPageId hid (replicate 4096 0)))"
    unfolding hd_def SetSize_def Header_SetPageId_def by (intro c32.field_other) simp_all
  also have "\<dots> = dec32 (drop 16 (replicate 4096 0))" unfolding Header_SetPageId_def by (intro c32.field_other) simp_all
  also have "\<dots> = 0" using c32.dec_prefix [of "replicate 4080 0"] by (simp add: dec32_def read_le_def numeral_eq_Suc)
  finally have hl: "header_lists hd []" using len by (simp add: header_lists_def NumBlocks_def)
  let ?bp2 = "set_frame hf ((page_NewEmpty hid)\<lparr>pg_data := hd\<rparr>) bp1"
  note inv1 = pool_okD(1) [OF f(2)]
  have w: "pool_ok {hid} nf ?bp2" "held hid hf hd (False \<and> hd = replicate 4096 0) ?bp2" "kept_but {hid} bp1 ?bp2" "nextPageID (diskManager ?bp2) = hid + 1"
    using write_held [OF f(2,3) len log_only_self [OF inv1] f(4)] f(6) by auto
  let ?w = "w(hid \<mapsto> hd)"
  have k: "kept_but {hid} bp ?bp2" using kept_but_trans [OF f(5) w(3)] by simp
  have wh: "w hid = None" using fresh unfolding hid_def by (cases "w (nextPageID (diskManager bp))") auto
  have "bp_view ?bp2 q = Some d" if "w q = Some d" for q d
  proof -
    have "q \<noteq> hid" using that wh by auto
    then show ?thesis using ok(3) that k by (auto simp: views_def kept_but_def)
  qed
  moreover have "disk_page hid" "bp_view ?bp2 hid = Some hd" using held_page [OF w(2) pool_okD(1) [OF w(1)]] by auto
  ultimately have V: "views ?w ?bp2" using ok(3) len by (auto simp: views_def)
  have "unat (hid + 1) = Suc (unat hid)" using n(3) unfolding hid_def by (simp add: unat_word_ariths)
  then have u1: "unat (nextPageID (diskManager ?bp2)) = Suc (unat hid)" using w(4) by simp
  have lt: "\<forall>q. ?w q \<noteq> None \<longrightarrow> unat q < unat (nextPageID (diskManager ?bp2))" unfolding u1 using fresh by (auto simp: hid_def less_Suc_eq)
  have B: "building nf ?w hid hf [] ?bp2" unfolding building_def using ok(2) w(1,2) V hl lt by auto
  obtain v' bids bp3 where a: "add_blocks n hf ?bp2 = Some bp3" "building nf v' hid hf bids bp3" "length bids = n"
      "\<forall>q. q \<noteq> hid \<longrightarrow> ?w q \<noteq> None \<longrightarrow> v' q = ?w q \<and> (q \<in> set bids \<longrightarrow> q \<in> set [])"
    using add_blocks_spec [OF B, of n] n u1 unfolding hid_def by auto
  obtain hd' fr where b: "pool_ok {hid} nf bp3" "views v' bp3" "v' hid = Some hd'" "held hid hf hd' fr bp3" "header_lists hd' bids"
      "distinct (hid # bids)" "\<forall>b \<in> set bids. v' b = Some (replicate 4096 0)"
    using a(2) by (auto simp: building_def)
  obtain bp4 where u: "UnpinPage hid True bp3 = Some (True, bp4)" "pool_ok ({hid} - {hid}) nf bp4" "kept_but {} bp3 bp4"
    using unpin_held [OF b(1,4), of True] by auto
  have ne: "bids \<noteq> []" using a(3) n(1) by auto
  have "ht_pages v' hid bids" using ne b by (auto simp: ht_pages_def header_lists_def)
  then have "ht_ok nf v' hid bids bp4" using ok(2) u(2) kept_views [OF b(2) u(3)] by (simp add: ht_ok_def)
  then have "ht_store nf v' hid bids (\<lambda>_. []) {} (252 * n) bp4" using empty_cells [OF ne b(7)] a(3) by (auto simp: ht_store_def)
  moreover have "w q \<noteq> None \<longrightarrow> v' q = w q \<and> q \<notin> set (hid # bids)" for q using a(4) wh by (cases "q = hid") auto
  moreover have "NewLinearProbeHashTable (int n) bp = Some (hid, bp4)"
    using f(1,4) a(1) u(1) by (simp add: NewLinearProbeHashTable_def set_frame_data_def hd_def page_NewEmpty_def)
  ultimately show ?thesis using a(3) by blast
qed


subsection \<open>Properties\<close>

text \<open>Runs of calls on a table; an \<^verbatim>\<open>Insert\<close> that returns an error ends the run.\<close>

datatype ht_call = HT_Ins bytes u32 | HT_Rem bytes u32

fun ht_run :: "(bytes \<Rightarrow> bytes) \<Rightarrow> pageID \<Rightarrow> ht_call list \<Rightarrow> BufferPool \<Rightarrow> BufferPool option" where
  "ht_run murmur3 ht [] bp = Some bp"
| "ht_run murmur3 ht (HT_Ins key x # cs) bp = do {
     (err, bp) \<leftarrow> HT_Insert murmur3 ht key x bp;
     if err then None else ht_run murmur3 ht cs bp }"
| "ht_run murmur3 ht (HT_Rem key x # cs) bp = do { bp \<leftarrow> HT_Remove murmur3 ht key x bp; ht_run murmur3 ht cs bp }"

fun ht_inserted :: "ht_call list \<Rightarrow> u32 list" where
  "ht_inserted [] = []"
| "ht_inserted (HT_Ins key x # cs) = x # ht_inserted cs"
| "ht_inserted (HT_Rem key x # cs) = ht_inserted cs"

text \<open>The abstract multimap: an insertion appends, a removal takes the value out.\<close>

fun multimap_run :: "(bytes \<Rightarrow> u32) \<Rightarrow> ht_call list \<Rightarrow> (u32 \<Rightarrow> u32 list) \<Rightarrow> u32 \<Rightarrow> u32 list" where
  "multimap_run hash [] m = m"
| "multimap_run hash (HT_Ins key x # cs) m = multimap_run hash cs (m(hash key := m (hash key) @ [x]))"
| "multimap_run hash (HT_Rem key x # cs) m = multimap_run hash cs (m(hash key := filter (\<lambda>y. y \<noteq> x) (m (hash key))))"

lemma ht_run_store:
  assumes "ht_store nf w hid bids m U n bp" and "distinct (ht_inserted cs)" and "set (ht_inserted cs) \<inter> U = {}" and "length (ht_inserted cs) \<le> n"
  shows "\<exists>bp'. ht_run murmur3 hid cs bp = Some bp' \<and>
    ht_store nf w hid bids (multimap_run (GenHashMurMur murmur3) cs m) (U \<union> set (ht_inserted cs)) (n - length (ht_inserted cs)) bp'"
  using assms
proof (induction cs arbitrary: m U n bp rule: ht_inserted.induct)
  case (2 key x cs)
  obtain bp1 where i: "HT_Insert murmur3 hid key x bp = Some (False, bp1)"
      "ht_store nf w hid bids (m(GenHashMurMur murmur3 key := m (GenHashMurMur murmur3 key) @ [x])) (insert x U) (n - 1) bp1"
    using ht.ins_law [of nf w hid bids m U "n - 1" bp x murmur3 key] "2.prems" by auto
  have c: "distinct (ht_inserted cs)" "set (ht_inserted cs) \<inter> insert x U = {}" "length (ht_inserted cs) \<le> n - 1" using "2.prems"(2-4) by auto
  have e: "insert x U \<union> set (ht_inserted cs) = U \<union> set (ht_inserted (HT_Ins key x # cs))"
      "n - 1 - length (ht_inserted cs) = n - length (ht_inserted (HT_Ins key x # cs))" by auto
  from "2.IH" [OF i(2) c] obtain bp' where "ht_run murmur3 hid cs bp1 = Some bp'"
      "ht_store nf w hid bids (multimap_run (GenHashMurMur murmur3) (HT_Ins key x # cs) m) (U \<union> set (ht_inserted (HT_Ins key x # cs)))
        (n - length (ht_inserted (HT_Ins key x # cs))) bp'" unfolding e multimap_run.simps by blast
  then show ?case using i(1) by (intro exI [of _ bp'] conjI) (simp_all del: multimap_run.simps)
next
  case (3 key x cs)
  obtain bp1 where r: "HT_Remove murmur3 hid key x bp = Some bp1"
      "ht_store nf w hid bids (m(GenHashMurMur murmur3 key := filter (\<lambda>y. y \<noteq> x) (m (GenHashMurMur murmur3 key)))) U n bp1"
    using ht.rem_law [OF "3.prems"(1)] by blast
  have c: "distinct (ht_inserted cs)" "set (ht_inserted cs) \<inter> U = {}" "length (ht_inserted cs) \<le> n" using "3.prems"(2-4) by simp_all
  from "3.IH" [OF r(2) c] obtain bp' where "ht_run murmur3 hid cs bp1 = Some bp'"
      "ht_store nf w hid bids (multimap_run (GenHashMurMur murmur3) (HT_Rem key x # cs) m) (U \<union> set (ht_inserted cs)) (n - length (ht_inserted cs)) bp'"
    unfolding multimap_run.simps by blast
  then show ?case using r(1) by (intro exI [of _ bp'] conjI) (simp_all del: multimap_run.simps)
qed simp

text \<open>C22: the linear probing hash table is a multimap from key hashes to values, as long as no value is inserted twice.  In a run
  of inserts and removes in any order in which every inserted value is new (held before the run or inserted earlier in it under
  no key, even if removed since) and the free cells suffice, all calls return and no insert fails; a lookup then returns the
  values that the key's hash has in the abstract multimap, in insertion order, so keys with equal hashes share their
  values.  The store invariant, which describes every page of the table and the pages outside of it, is kept.  (Inserting a
  removed value again is refused: \<^verbatim>\<open>reinsert\<close>, \<^verbatim>\<open>index_reinsert_lost\<close>.)\<close>

theorem hash_table_multimap:
  assumes "ht_store nf w hid bids m U n bp" and "distinct (ht_inserted cs)" and "set (ht_inserted cs) \<inter> U = {}" and "length (ht_inserted cs) \<le> n"
  shows "\<exists>bp'. ht_run murmur3 hid cs bp = Some bp' \<and>
    ht_store nf w hid bids (multimap_run (GenHashMurMur murmur3) cs m) (U \<union> set (ht_inserted cs)) (n - length (ht_inserted cs)) bp' \<and>
    (\<forall>key. \<exists>bp''. HT_GetValue murmur3 hid key bp' = Some (multimap_run (GenHashMurMur murmur3) cs m (GenHashMurMur murmur3 key), bp''))"
  using ht_run_store [OF assms, of murmur3] ht.get_law by blast

definition example_store_pool :: BufferPool where
  "example_store_pool = NewBufferPoolManager 8 empty_disk NewLogManager"

lemma example_store_pool_ok: "pool_ok {} 8 example_store_pool" "views Map.empty example_store_pool" "nextPageID (diskManager example_store_pool) = 0"
  using pool_ok_New [OF empty_disk_ok, of 8 8] by (simp_all add: example_store_pool_def views_def NewBufferPoolManager_def empty_disk_def)

text \<open>A new table of two blocks: three values under two keys, one of them removed.\<close>

theorem hash_table_multimap_witness:
  "\<exists>hid bp1 bp2 bp3 bp4. NewLinearProbeHashTable 2 example_store_pool = Some (hid, bp1) \<and>
     ht_run id hid [HT_Ins [1, 2, 3, 4] 7, HT_Ins [9, 2, 3, 4] 5, HT_Ins [1, 2, 3, 4] 8, HT_Rem [1, 2, 3, 4] 7] bp1 = Some bp2 \<and>
     HT_GetValue id hid [1, 2, 3, 4] bp2 = Some ([8], bp3) \<and> HT_GetValue id hid [9, 2, 3, 4] bp2 = Some ([5], bp4)"
proof -
  let ?cs = "[HT_Ins [1, 2, 3, 4] 7, HT_Ins [9, 2, 3, 4] 5, HT_Ins [1, 2, 3, 4] 8, HT_Rem [1, 2, 3, 4] 7]"
  obtain hid bids w bp1 where t: "NewLinearProbeHashTable (int 2) example_store_pool = Some (hid, bp1)" "ht_store 8 w hid bids (\<lambda>_. []) {} (252 * 2) bp1"
    using NewLinearProbeHashTable_spec [of 8 example_store_pool Map.empty 2] example_store_pool_ok by auto
  have ne: "GenHashMurMur id [1, 2, 3, 4] \<noteq> GenHashMurMur id [9, 2, 3, 4]" by (simp add: GenHashMurMur_def dec32_def read_le_def)
  obtain bp2 where r: "ht_run id hid ?cs bp1 = Some bp2"
      "\<forall>key. \<exists>bp''. HT_GetValue id hid key bp2 = Some (multimap_run (GenHashMurMur id) ?cs (\<lambda>_. []) (GenHashMurMur id key), bp'')"
    using hash_table_multimap [OF t(2), of ?cs id] by auto
  have "multimap_run (GenHashMurMur id) ?cs (\<lambda>_. []) (GenHashMurMur id [1, 2, 3, 4]) = [8]"
      "multimap_run (GenHashMurMur id) ?cs (\<lambda>_. []) (GenHashMurMur id [9, 2, 3, 4]) = [5]" using ne by auto
  then show ?thesis using t(1) r by (metis of_nat_numeral)
qed

lemma insert_dup: "\<exists>c \<in> set (takeWhile c_occ r). c_val c = x \<Longrightarrow> insert_cells k x r = (True, r)"
proof (induction r)
  case (Cons c r)
  show ?case
  proof (cases "c_occ c \<and> c_val c \<noteq> x")
    case True
    then have "insert_cells k x r = (True, r)" using Cons by auto
    then show ?thesis using True by simp
  next
    case False
    then show ?thesis using Cons.prems by (auto split: if_splits)
  qed
qed simp

lemma remove_vals: "map c_val (takeWhile c_occ (remove_cells k x r)) = map c_val (takeWhile c_occ r)"
  by (induction r) simp_all

text \<open>Inserting, removing and inserting a pair again: the last call reports a duplicate and the pair is not there.\<close>

lemma get_cells_vals: "set (get_cells k r) \<subseteq> cells_vals r"
  by (induction r) (auto simp: cells_vals_Cons)

lemma reinsert:
  assumes st: "ht_store nf w hid bids m U (Suc n) bp" and new: "x \<notin> U"
  shows "\<exists>b1 b2 b3 b4. HT_Insert murmur3 hid key x bp = Some (False, b1) \<and> HT_Remove murmur3 hid key x b1 = Some b2 \<and>
    HT_Insert murmur3 hid key x b2 = Some (True, b3) \<and> HT_GetValue murmur3 hid key b3 = Some (m (GenHashMurMur murmur3 key), b4)"
proof -
  let ?k = "GenHashMurMur murmur3 key"
  obtain v where v: "ht_ok nf v hid bids bp" "cells_inv (length bids) (ht_cells v bids)" "cells_map (length bids) (ht_cells v bids) = m"
      "cells_vals (ht_cells v bids) = U" "cells_free (ht_cells v bids) = Suc n"
    using st by (auto simp: ht_store_def)
  have P: "cells_vals (probe_path v bids ?k) = U" "cells_free (probe_path v bids ?k) = Suc n" "reachable ?k (probe_path v bids ?k)"
      "get_cells ?k (probe_path v bids ?k) = m ?k"
    using v(2-5) cells_rotate by (auto simp: probe_path_def cells_inv_def cells_map_def)
  obtain a f b where p: "probe_path v bids ?k = a @ f # b" "\<forall>c \<in> set a. c_occ c" "\<not> c_occ f"
      "insert_cells ?k x (probe_path v bids ?k) = (False, a @ full_cell ?k x # b)"
  proof (cases rule: insert_cells_cases [of ?k x "probe_path v bids ?k"])
    case full
    then show ?thesis using P(2) by (simp add: cells_free_def)
  qed (use new P(1) in \<open>auto simp: cells_vals_def\<close>)
  obtain b1 v1 where i: "HT_Insert murmur3 hid key x bp = Some (False, b1)" "ht_ok nf v1 hid bids b1" "probe_path v1 bids ?k = a @ full_cell ?k x # b"
    using HT_Insert_spec [OF v(1), of murmur3 key x] p(4) by auto
  obtain b2 v2 where r: "HT_Remove murmur3 hid key x b1 = Some b2" "ht_ok nf v2 hid bids b2" "probe_path v2 bids ?k = remove_cells ?k x (a @ full_cell ?k x # b)"
    using HT_Remove_spec [OF i(2), of murmur3 key x] i(3) by auto
  have "x \<in> set (map c_val (takeWhile c_occ (probe_path v2 bids ?k)))" unfolding r(3) remove_vals using p(2) by simp
  then have "insert_cells ?k x (probe_path v2 bids ?k) = (True, probe_path v2 bids ?k)" by (intro insert_dup) auto
  then obtain b3 v3 where j: "HT_Insert murmur3 hid key x b2 = Some (True, b3)" "ht_ok nf v3 hid bids b3" "probe_path v3 bids ?k = probe_path v2 bids ?k"
    using HT_Insert_spec [OF r(2), of murmur3 key x] by auto
  have "get_cells ?k (probe_path v3 bids ?k) = filter (\<lambda>y. y \<noteq> x) (m ?k @ [x])"
    unfolding j(3) r(3) get_remove using get_fill(1) [OF p(2,3), of ?k b x] P(3,4) p(1) by simp
  also have "\<dots> = m ?k" using get_cells_vals [of ?k "probe_path v bids ?k"] P(1,4) new by (auto intro!: filter_True)
  finally show ?thesis using HT_GetValue_spec [OF j(2), of murmur3 key] i(1) r(1) j(1) by auto
qed

end
