(* ===== verification/Hash_Index.thy ===== *)
theory Hash_Index
  imports Hash_Table_Spec
begin

text \<open>
  Package \<^verbatim>\<open>storage/index\<close>: the hash index of a column, which keeps the record ids of the rows under the bytes of
  their column value.  It rests on the hash table only through the contract \<open>multimap_store\<close>.
\<close>

subsection \<open>Model\<close>

record IndexMetadata =
  im_name :: go_string
  im_table_name :: go_string
  key_attrs :: "u32 list"
  tuple_schema :: schema

definition NewIndexMetadata :: "go_string \<Rightarrow> go_string \<Rightarrow> schema \<Rightarrow> u32 list \<Rightarrow> IndexMetadata" where
  "NewIndexMetadata index_name table_name s attrs =
     \<lparr>im_name = index_name, im_table_name = table_name, key_attrs = attrs, tuple_schema = s\<rparr>"

definition GetIndexColumnCount :: "IndexMetadata \<Rightarrow> u32" where
  "GetIndexColumnCount im = of_nat (length (key_attrs im))"

record LinearProbeHashTableIndex =
  ix_container :: pageID
  ix_metadata :: IndexMetadata
  ix_col_idx :: u32

definition NewLinearProbeHashTableIndex :: "IndexMetadata \<Rightarrow> u32 \<Rightarrow> int \<Rightarrow> BufferPool \<Rightarrow> (LinearProbeHashTableIndex \<times> BufferPool) option" where
  "NewLinearProbeHashTableIndex md col_idx num_buckets bp = do {
     (c, bp) \<leftarrow> NewLinearProbeHashTable num_buckets bp;
     Some (\<lparr>ix_container = c, ix_metadata = md, ix_col_idx = col_idx\<rparr>, bp) }"

definition PackRIDtoUint32 :: "rid \<Rightarrow> u32" where
  "PackRIDtoUint32 r = dec32 (take 2 (enc32 (PageId r)) @ take 2 (enc32 (SlotNum r)))"

definition UnpackUint32toRID :: "u32 \<Rightarrow> rid" where
  "UnpackUint32toRID x = (let packed = enc32 x in
     \<lparr>PageId = dec32 (take 2 packed @ [0, 0]), SlotNum = dec32 (drop 2 packed @ [0, 0])\<rparr>)"

definition ix_key :: "LinearProbeHashTableIndex \<Rightarrow> tuple \<Rightarrow> bytes option" where
  "ix_key idx key = GetValueInBytes key (tuple_schema (ix_metadata idx)) (ix_col_idx idx)"

definition InsertEntry :: "(bytes \<Rightarrow> bytes) \<Rightarrow> LinearProbeHashTableIndex \<Rightarrow> tuple \<Rightarrow> rid \<Rightarrow> BufferPool \<Rightarrow> BufferPool option" where
  "InsertEntry murmur3 idx key r bp = do {
     keyDataInBytes \<leftarrow> ix_key idx key;
     (_, bp) \<leftarrow> HT_Insert murmur3 (ix_container idx) keyDataInBytes (PackRIDtoUint32 r) bp;
     Some bp }"

definition DeleteEntry :: "(bytes \<Rightarrow> bytes) \<Rightarrow> LinearProbeHashTableIndex \<Rightarrow> tuple \<Rightarrow> rid \<Rightarrow> BufferPool \<Rightarrow> BufferPool option" where
  "DeleteEntry murmur3 idx key r bp = do {
     keyDataInBytes \<leftarrow> ix_key idx key;
     HT_Remove murmur3 (ix_container idx) keyDataInBytes (PackRIDtoUint32 r) bp }"

definition ScanKey :: "(bytes \<Rightarrow> bytes) \<Rightarrow> LinearProbeHashTableIndex \<Rightarrow> tuple \<Rightarrow> BufferPool \<Rightarrow> (rid list \<times> BufferPool) option" where
  "ScanKey murmur3 idx key bp = do {
     keyDataInBytes \<leftarrow> ix_key idx key;
     (packed_values, bp) \<leftarrow> HT_GetValue murmur3 (ix_container idx) keyDataInBytes bp;
     Some (map UnpackUint32toRID packed_values, bp) }"

subsection \<open>Packed record ids\<close>

lemma take_le_bytes: "m \<le> n \<Longrightarrow> take m (le_bytes n x) = le_bytes m x"
proof (induction n arbitrary: m x)
  case (Suc n)
  then show ?case by (cases m) simp_all
qed simp

lemma drop_le_bytes: "drop m (le_bytes n x) = le_bytes (n - m) (x div 256 ^ m)"
proof (induction n arbitrary: m x)
  case (Suc n)
  then show ?case by (cases m) (simp_all add: div_mult2_eq [symmetric])
qed simp

lemma le_val_append: "le_val (a @ b) = le_val a + 256 ^ length a * le_val b"
  by (induction a) (simp_all add: algebra_simps)

lemma dec32_pair: "dec32 (le_bytes 2 x @ le_bytes 2 y) = of_nat (x mod 65536 + 65536 * (y mod 65536))"
  by (simp add: dec32_def read_le_exact le_val_append le_val_le_bytes)

lemma pack_low: "unat (PackRIDtoUint32 r) = unat (PageId r) mod 65536 + 65536 * (unat (SlotNum r) mod 65536)"
proof -
  let ?x = "unat (PageId r) mod 65536 + 65536 * (unat (SlotNum r) mod 65536)"
  have "unat (PageId r) mod 65536 < 65536" "unat (SlotNum r) mod 65536 < 65536" by simp_all
  then have b: "?x < 4294967296" by linarith
  have "PackRIDtoUint32 r = of_nat ?x" unfolding PackRIDtoUint32_def enc32_def using dec32_pair by (simp add: take_le_bytes)
  then show ?thesis using unat_of_nat32 [OF b] by (simp only:)
qed

lemma unpack_eq: "UnpackUint32toRID x = \<lparr>PageId = of_nat (unat x mod 65536), SlotNum = of_nat (unat x div 65536)\<rparr>"
proof -
  have z: "[0, 0] = le_bytes 2 0" by (simp add: numeral_2_eq_2)
  have "unat x div 65536 < 65536" using unat_less_2p32 [of x] by (intro div_less_iff_less_mult [THEN iffD2]) simp_all
  then have d: "unat x div 65536 mod 65536 = unat x div 65536" by simp
  have "dec32 (take 2 (enc32 x) @ [0, 0]) = of_nat (unat x mod 65536)" "dec32 (drop 2 (enc32 x) @ [0, 0]) = of_nat (unat x div 65536)"
    unfolding enc32_def z using dec32_pair [of "unat x" 0] dec32_pair [of "unat x div 65536" 0] d by (simp_all add: take_le_bytes drop_le_bytes)
  then show ?thesis by (simp add: UnpackUint32toRID_def Let_def)
qed

lemma unpack_pack:
  "UnpackUint32toRID (PackRIDtoUint32 r) = \<lparr>PageId = of_nat (unat (PageId r) mod 65536), SlotNum = of_nat (unat (SlotNum r) mod 65536)\<rparr>"
  unfolding unpack_eq pack_low by simp

lemma unpack_inj: "UnpackUint32toRID x = UnpackUint32toRID y \<Longrightarrow> x = y"
proof -
  assume "UnpackUint32toRID x = UnpackUint32toRID y"
  then have e: "(of_nat (unat x mod 65536) :: u32) = of_nat (unat y mod 65536)" "(of_nat (unat x div 65536) :: u32) = of_nat (unat y div 65536)"
    by (simp_all add: unpack_eq)
  have "unat z mod 65536 < 2 ^ 32" "unat z div 65536 < 2 ^ 32" for z :: u32
    using unat_less_2p32 [of z] by (auto intro: le_less_trans [OF mod_less_eq_dividend] le_less_trans [OF div_le_dividend])
  then have b: "unat z mod 65536 < 4294967296" "unat z div 65536 < 4294967296" for z :: u32 by simp_all
  have "unat x mod 65536 = unat y mod 65536" using arg_cong [OF e(1), of unat] unfolding unat_of_nat32 [OF b(1)] .
  moreover have "unat x div 65536 = unat y div 65536" using arg_cong [OF e(2), of unat] unfolding unat_of_nat32 [OF b(2)] .
  ultimately show "x = y" by (metis div_mult_mod_eq word_unat_eq_iff)
qed

definition packable :: "rid \<Rightarrow> bool" where
  "packable r \<longleftrightarrow> unat (PageId r) < 65536 \<and> unat (SlotNum r) < 65536"

lemma unpack_packable: "packable r \<Longrightarrow> UnpackUint32toRID (PackRIDtoUint32 r) = r"
  by (simp add: unpack_pack packable_def)

subsection \<open>The index through the contract of the table\<close>

text \<open>A sequence of insertions.\<close>

fun InsertEntries :: "(bytes \<Rightarrow> bytes) \<Rightarrow> LinearProbeHashTableIndex \<Rightarrow> (tuple \<times> rid) list \<Rightarrow> BufferPool \<Rightarrow> BufferPool option" where
  "InsertEntries murmur3 idx [] bp = Some bp"
| "InsertEntries murmur3 idx ((t, r) # es) bp = do { bp \<leftarrow> InsertEntry murmur3 idx t r bp; InsertEntries murmur3 idx es bp }"

definition ix_pairs :: "LinearProbeHashTableIndex \<Rightarrow> (tuple \<times> rid) list \<Rightarrow> (bytes \<times> u32) list" where
  "ix_pairs idx es = map (\<lambda>(t, r). (the (ix_key idx t), PackRIDtoUint32 r)) es"

lemma InsertEntries_ins_all:
  "\<forall>e \<in> set es. ix_key idx (fst e) \<noteq> None \<Longrightarrow>
   InsertEntries murmur3 idx es bp = multimap_store.ins_all (HT_Insert murmur3 (ix_container idx)) (ix_pairs idx es) bp"
proof (induction es arbitrary: bp)
  case (Cons e es)
  obtain t r where e: "e = (t, r)" by fastforce
  obtain kb where "ix_key idx t = Some kb" using Cons.prems e by auto
  moreover have "InsertEntries murmur3 idx es = multimap_store.ins_all (HT_Insert murmur3 (ix_container idx)) (ix_pairs idx es)"
    using Cons by (auto simp: fun_eq_iff)
  ultimately show ?case using e
    by (cases "HT_Insert murmur3 (ix_container idx) kb (PackRIDtoUint32 r) bp") (auto simp: ix_pairs_def InsertEntry_def ht.ins_all.simps)
qed (simp add: ix_pairs_def ht.ins_all.simps)

text \<open>C23: the index of a column.  Created with \<open>n\<close> buckets on any pool with two free frames and filled with the entries of
  rows with distinct record ids (of page and slot numbers below 65536, at most 252 per bucket), a scan for a key returns the record ids of
  exactly the rows whose key has the same hash, in insertion order, and the pages of other tables keep their contents.\<close>

theorem index_scan_complete:
  assumes pool: "pool_ok {} nf bp" "2 \<le> nf" "views w bp" "\<forall>q. w q \<noteq> None \<longrightarrow> unat q < unat (nextPageID (diskManager bp))"
    and n: "0 < n" "n \<le> 1016" "unat (nextPageID (diskManager bp)) + n < 524288"
    and es: "\<forall>e \<in> set es. GetValueInBytes (fst e) (tuple_schema md) col \<noteq> None \<and> packable (snd e)" "distinct (map snd es)" "length es \<le> 252 * n"
    and key: "GetValueInBytes key (tuple_schema md) col = Some kb"
  shows "\<exists>idx bp1 bp2 bp3. NewLinearProbeHashTableIndex md col (int n) bp = Some (idx, bp1) \<and> InsertEntries murmur3 idx es bp1 = Some bp2 \<and>
    ScanKey murmur3 idx key bp2 = Some (map snd (filter (\<lambda>e.
      GenHashMurMur murmur3 (the (GetValueInBytes (fst e) (tuple_schema md) col)) = GenHashMurMur murmur3 kb) es), bp3) \<and>
    pool_ok {} nf bp3 \<and> views w bp3"
proof -
  obtain hid bids w' bp1 where t: "NewLinearProbeHashTable (int n) bp = Some (hid, bp1)" "length bids = n"
      "ht_store nf w' hid bids (\<lambda>_. []) {} (252 * n) bp1" "\<forall>q. w q \<noteq> None \<longrightarrow> w' q = w q \<and> q \<notin> set (hid # bids)"
    using NewLinearProbeHashTable_spec [OF pool n] by blast
  define idx where "idx = \<lparr>ix_container = hid, ix_metadata = md, ix_col_idx = col\<rparr>"
  have kd: "ix_key idx t = GetValueInBytes t (tuple_schema md) col" for t by (simp add: ix_key_def idx_def)
  let ?kvs = "ix_pairs idx es"
  have snds: "map UnpackUint32toRID (map snd ?kvs) = map snd es" using es(1) by (auto simp: ix_pairs_def unpack_packable)
  then have d: "distinct (map snd ?kvs)" using es(2) by (metis distinct_map)
  obtain bp2 where i: "InsertEntries murmur3 idx es bp1 = Some bp2"
      "ht_store nf w' hid bids (\<lambda>h. [] @ map snd (filter (\<lambda>kv. GenHashMurMur murmur3 (fst kv) = h) ?kvs)) (set (map snd ?kvs) \<union> {}) (252 * n - length es) bp2"
    using ht.ins_all_spec [of nf w' hid bids "\<lambda>_. []" "{}" ?kvs "252 * n - length es" bp1 murmur3] t(3) es(1,3) d InsertEntries_ins_all [of es idx murmur3 bp1] kd
    by (auto simp: idx_def ix_pairs_def)
  obtain bp3 where g: "HT_GetValue murmur3 hid kb bp2 = Some (map snd (filter (\<lambda>kv. GenHashMurMur murmur3 (fst kv) = GenHashMurMur murmur3 kb) ?kvs), bp3)"
      "ht_store nf w' hid bids (\<lambda>h. map snd (filter (\<lambda>kv. GenHashMurMur murmur3 (fst kv) = h) ?kvs)) (set (map snd ?kvs)) (252 * n - length es) bp3"
    using ht_store_get [OF i(2), of murmur3 kb] by auto
  have "map UnpackUint32toRID (map snd (filter (\<lambda>kv. GenHashMurMur murmur3 (fst kv) = GenHashMurMur murmur3 kb) ?kvs)) =
      map snd (filter (\<lambda>e. GenHashMurMur murmur3 (the (GetValueInBytes (fst e) (tuple_schema md) col)) = GenHashMurMur murmur3 kb) es)"
    using es(1) by (induction es) (auto simp: ix_pairs_def unpack_packable kd)
  then have "ScanKey murmur3 idx key bp2 = Some (map snd (filter (\<lambda>e.
      GenHashMurMur murmur3 (the (GetValueInBytes (fst e) (tuple_schema md) col)) = GenHashMurMur murmur3 kb) es), bp3)"
    using g(1) key by (simp add: ScanKey_def kd) (simp add: idx_def)
  moreover obtain v where "ht_ok nf v hid bids bp3" "only_blocks bids w' v" using g(2) by (auto simp: ht_store_def)
  then have "pool_ok {} nf bp3 \<and> views w bp3" using t(4) by (auto simp: ht_ok_def views_def only_blocks_def) metis+
  ultimately show ?thesis using t(1) i(1) by (auto simp: NewLinearProbeHashTableIndex_def idx_def)
qed


definition example_index_schema :: schema where
  "example_index_schema = NewSchema [NewColumn [97] Integer True None]"

definition example_row :: "byte \<Rightarrow> tuple" where
  "example_row b = \<lparr>t_rid = None, t_size = 5, t_data = [0, b, 0, 0, 0]\<rparr>"

lemma example_row_key: "GetValueInBytes (example_row 5) example_index_schema 0 = Some [0, 5, 0, 0, 0]"
  "GetValueInBytes (example_row 6) example_index_schema 0 = Some [0, 6, 0, 0, 0]"
  by code_simp+

theorem index_scan_complete_witness:
  "\<exists>idx bp1 bp2 bp3. NewLinearProbeHashTableIndex (NewIndexMetadata [105] [116] example_index_schema [0]) 0 1 example_store_pool = Some (idx, bp1) \<and>
     InsertEntries id idx [(example_row 5, \<lparr>PageId = 3, SlotNum = 1\<rparr>), (example_row 6, \<lparr>PageId = 3, SlotNum = 2\<rparr>)] bp1 = Some bp2 \<and>
     ScanKey id idx (example_row 6) bp2 = Some ([\<lparr>PageId = 3, SlotNum = 2\<rparr>], bp3)"
proof -
  have h: "GenHashMurMur id [0, 5, 0, 0, 0] \<noteq> GenHashMurMur id [0, 6, 0, 0, 0]"
    by (simp add: GenHashMurMur_def dec32_def read_le_def)
  let ?es = "[(example_row 5, \<lparr>PageId = 3, SlotNum = 1\<rparr>), (example_row 6, \<lparr>PageId = 3, SlotNum = 2\<rparr>)]"
  have es: "\<forall>e \<in> set ?es. GetValueInBytes (fst e) (tuple_schema (NewIndexMetadata [105] [116] example_index_schema [0])) 0 \<noteq> None \<and> packable (snd e)"
    by (simp add: example_row_key NewIndexMetadata_def packable_def)
  show ?thesis
    using index_scan_complete [of 8 example_store_pool Map.empty 1 ?es "NewIndexMetadata [105] [116] example_index_schema [0]" 0 "example_row 6" _ id,
        OF example_store_pool_ok(1) _ example_store_pool_ok(2) _ _ _ _ es] example_store_pool_ok(3) h
    by (simp add: example_row_key NewIndexMetadata_def) blast
qed

text \<open>C40: a record id packed into the 32 bits of an index entry and unpacked again is the record id with page and slot number
  cut to 16 bits, so that it is the same one exactly when both are below 65536.\<close>

theorem RID_pack_roundtrip:
  "UnpackUint32toRID (PackRIDtoUint32 r) = \<lparr>PageId = of_nat (unat (PageId r) mod 65536), SlotNum = of_nat (unat (SlotNum r) mod 65536)\<rparr> \<and>
   (UnpackUint32toRID (PackRIDtoUint32 r) = r \<longleftrightarrow> unat (PageId r) < 65536 \<and> unat (SlotNum r) < 65536)"
proof -
  have lt: "x mod 65536 < 4294967296" for x :: nat by (rule less_trans [OF mod_less_divisor]) simp_all
  have "(of_nat (unat w mod 65536) :: u32) = w \<longleftrightarrow> unat w < 65536" for w :: u32
    using unat_of_nat32 [OF lt, of "unat w"] by (metis mod_less mod_less_divisor word_unat_eq_iff zero_less_numeral)
  then show ?thesis using unpack_pack [of r] by (cases r) simp
qed

text \<open>C39: an entry of an index that is deleted cannot be inserted again: the table reports a duplicate, since the
  check for duplicates looks at removed cells and at values only, the index drops the error, and the row is not found.\<close>

theorem index_reinsert_lost:
  assumes st: "ht_store nf w (ix_container idx) bids m U (Suc n) bp" and key: "ix_key idx t = Some kb" and new: "PackRIDtoUint32 r \<notin> U"
  shows "\<exists>b1 b2 b3 b4. InsertEntry murmur3 idx t r bp = Some b1 \<and> DeleteEntry murmur3 idx t r b1 = Some b2 \<and>
    InsertEntry murmur3 idx t r b2 = Some b3 \<and> ScanKey murmur3 idx t b3 = Some (map UnpackUint32toRID (m (GenHashMurMur murmur3 kb)), b4)"
  using reinsert [OF st new, of murmur3 kb] key by (auto simp: InsertEntry_def DeleteEntry_def ScanKey_def)

theorem index_reinsert_lost_witness:
  "\<exists>idx b0 b1 b2 b3 b4. NewLinearProbeHashTableIndex (NewIndexMetadata [105] [116] example_index_schema [0]) 0 1 example_store_pool = Some (idx, b0) \<and>
     InsertEntry id idx (example_row 5) \<lparr>PageId = 3, SlotNum = 1\<rparr> b0 = Some b1 \<and> DeleteEntry id idx (example_row 5) \<lparr>PageId = 3, SlotNum = 1\<rparr> b1 = Some b2 \<and>
     InsertEntry id idx (example_row 5) \<lparr>PageId = 3, SlotNum = 1\<rparr> b2 = Some b3 \<and> ScanKey id idx (example_row 5) b3 = Some ([], b4)"
proof -
  obtain hid bids w bp1 where t: "NewLinearProbeHashTable (int 1) example_store_pool = Some (hid, bp1)" "ht_store 8 w hid bids (\<lambda>_. []) {} (Suc 251) bp1"
    using NewLinearProbeHashTable_spec [of 8 example_store_pool Map.empty 1] example_store_pool_ok by auto
  let ?idx = "\<lparr>ix_container = hid, ix_metadata = NewIndexMetadata [105] [116] example_index_schema [0], ix_col_idx = 0\<rparr>"
  have "ix_key ?idx (example_row 5) = Some [0, 5, 0, 0, 0]" by (simp add: ix_key_def NewIndexMetadata_def example_row_key)
  then show ?thesis
    using index_reinsert_lost [of 8 w ?idx bids "\<lambda>_. []" "{}" 251 bp1 "example_row 5" _ "\<lparr>PageId = 3, SlotNum = 1\<rparr>" id] t
    by (auto simp: NewLinearProbeHashTableIndex_def)
qed

end
