(* ===== verification/Catalog.thy ===== *)
theory Catalog
  imports Table_Heap_Update Hash_Index
begin

text \<open>
  Package \<^verbatim>\<open>catalog\<close>: the tables of the database with their schemas, heaps and indexes, kept in memory and written to
  two tables of their own.  A table heap is the id of its first page.  The two Go maps are functions.  The
  transaction, the lock tables and the pool are the state \<open>db\<close>; \<open>logging\<close> is \<^verbatim>\<open>common.EnableLogging\<close>.
\<close>

subsection \<open>Tables\<close>

record TableMetadata =
  tm_schema :: schema
  tm_name :: go_string
  tm_table :: pageID
  tm_indexes :: "LinearProbeHashTableIndex option list"
  tm_oid :: u32

definition go_str :: "string \<Rightarrow> go_string" where
  "go_str s = map of_char s"

text \<open>\<open>BucketSize\<close> is \<^verbatim>\<open>common.BucketSize\<close>.\<close>

abbreviation BucketSize :: int where
  "BucketSize \<equiv> 50"

fun new_indexes :: "go_string \<Rightarrow> schema \<Rightarrow> nat \<Rightarrow> column list \<Rightarrow> BufferPool \<Rightarrow> (LinearProbeHashTableIndex option list \<times> BufferPool) option" where
  "new_indexes name s idx [] bp = Some ([], bp)"
| "new_indexes name s idx (c # cs) bp =
     (if hasIndex c then do {
        let im = NewIndexMetadata (columnName c @ go_str ''_index'') name s [of_nat idx];
        (ix, bp) \<leftarrow> NewLinearProbeHashTableIndex im (of_nat idx) BucketSize bp;
        (ixs, bp) \<leftarrow> new_indexes name s (Suc idx) cs bp;
        Some (Some ix # ixs, bp) }
      else do {
        (ixs, bp) \<leftarrow> new_indexes name s (Suc idx) cs bp;
        Some (None # ixs, bp) })"

definition NewTableMetadata :: "schema \<Rightarrow> go_string \<Rightarrow> pageID \<Rightarrow> u32 \<Rightarrow> BufferPool \<Rightarrow> (TableMetadata \<times> BufferPool) option" where
  "NewTableMetadata s name table oid bp = do {
     (ixs, bp) \<leftarrow> new_indexes name s 0 (columns s) bp;
     Some (\<lparr>tm_schema = s, tm_name = name, tm_table = table, tm_indexes = ixs, tm_oid = oid\<rparr>, bp) }"

definition GetIndex :: "TableMetadata \<Rightarrow> nat \<Rightarrow> LinearProbeHashTableIndex option option" where
  "GetIndex tm colIndex = go_nth (tm_indexes tm) colIndex"

definition GetColumnNum :: "TableMetadata \<Rightarrow> u32" where
  "GetColumnNum tm = GetColumnCount (tm_schema tm)"

subsection \<open>The schemas of the catalog tables\<close>

definition TableCatalogSchema :: schema where
  "TableCatalogSchema = NewSchema
     [NewColumn (go_str ''oid'') Integer False None, NewColumn (go_str ''name'') Varchar False None,
      NewColumn (go_str ''first_page'') Integer False None]"

definition ColumnsCatalogSchema :: schema where
  "ColumnsCatalogSchema = NewSchema
     [NewColumn (go_str ''table_oid'') Integer False None, NewColumn (go_str ''type'') Integer False None,
      NewColumn (go_str ''name'') Varchar False None, NewColumn (go_str ''fixed_length'') Integer False None,
      NewColumn (go_str ''variable_length'') Integer False None, NewColumn (go_str ''offset'') Integer False None,
      NewColumn (go_str ''has_index'') Integer False None]"

subsection \<open>The catalog\<close>

record Catalog =
  tableIds :: "u32 \<Rightarrow> TableMetadata option"
  tableNames :: "go_string \<Rightarrow> TableMetadata option"
  nextTableId :: u32
  cat_tableHeap :: pageID

definition GetTableByName :: "Catalog \<Rightarrow> go_string \<Rightarrow> TableMetadata option" where
  "GetTableByName c name = tableNames c name"

definition GetTableByOID :: "Catalog \<Rightarrow> u32 \<Rightarrow> TableMetadata option" where
  "GetTableByOID c oid = tableIds c oid"

definition Int32toBool :: "i32 \<Rightarrow> bool" where
  "Int32toBool x \<longleftrightarrow> x = 1"

definition boolToInt32 :: "bool \<Rightarrow> i32" where
  "boolToInt32 b = (if b then 1 else 0)"

text \<open>The numbers of the type constants.  A number that is none of them has no width and no values, as \<open>Invalid\<close>.\<close>

definition type_number :: "type_id \<Rightarrow> i32" where
  "type_number t = (case t of Invalid \<Rightarrow> 0 | Boolean \<Rightarrow> 1 | Tinyint \<Rightarrow> 2 | Smallint \<Rightarrow> 3 | Integer \<Rightarrow> 4 | BigInt \<Rightarrow> 5 | Decimal \<Rightarrow> 6
     | Float \<Rightarrow> 7 | Varchar \<Rightarrow> 8 | Timestamp \<Rightarrow> 9 | Null \<Rightarrow> 10)"

definition type_of_number :: "i32 \<Rightarrow> type_id" where
  "type_of_number x = (if x = 1 then Boolean else if x = 2 then Tinyint else if x = 3 then Smallint else if x = 4 then Integer
     else if x = 5 then BigInt else if x = 6 then Decimal else if x = 7 then Float else if x = 8 then Varchar
     else if x = 9 then Timestamp else if x = 10 then Null else Invalid)"

definition column_row :: "u32 \<Rightarrow> column \<Rightarrow> sql_value list" where
  "column_row oid c = [NewInteger oid, NewInteger (type_number (columnType c)), NewVarchar (columnName c), NewInteger (fixedLength c),
     NewInteger (variableLength c), NewInteger (columnOffset c), NewInteger (boolToInt32 (hasIndex c))]"

text \<open>An error of \<^verbatim>\<open>InsertTuple\<close> is dropped.\<close>

fun insert_columns :: "bool \<Rightarrow> Catalog \<Rightarrow> u32 \<Rightarrow> column list \<Rightarrow> db \<Rightarrow> db option" where
  "insert_columns logging c oid [] s = Some s"
| "insert_columns logging c oid (col # cols) s = do {
     new_tuple \<leftarrow> NewTupleFromSchema (column_row oid col) ColumnsCatalogSchema;
     cc \<leftarrow> tableIds c 0;
     (_, s) \<leftarrow> TH_InsertTuple logging (tm_table cc) new_tuple s;
     insert_columns logging c oid cols s }"

definition insertTable :: "bool \<Rightarrow> Catalog \<Rightarrow> TableMetadata \<Rightarrow> db \<Rightarrow> db option" where
  "insertTable logging c tm s = do {
     first_tuple \<leftarrow> NewTupleFromSchema [NewInteger (tm_oid tm), NewVarchar (tm_name tm), NewInteger (tm_table tm)] TableCatalogSchema;
     (_, s) \<leftarrow> TH_InsertTuple logging (cat_tableHeap c) first_tuple s;
     s \<leftarrow> insert_columns logging c (tm_oid tm) (columns (tm_schema tm)) s;
     (_, bp) \<leftarrow> FlushPage 0 (db_bpm s);
     (_, bp) \<leftarrow> FlushPage 1 bp;
     Some (s\<lparr>db_bpm := bp\<rparr>) }"

definition CreateTable :: "bool \<Rightarrow> go_string \<Rightarrow> schema \<Rightarrow> Catalog \<Rightarrow> db \<Rightarrow> (TableMetadata \<times> Catalog \<times> db) option" where
  "CreateTable logging name sch c s = do {
     let oid = nextTableId c;
     let c = c\<lparr>nextTableId := nextTableId c + 1\<rparr>;
     (tableHeap, s) \<leftarrow> NewTableHeap logging s;
     (tm, bp) \<leftarrow> NewTableMetadata sch name tableHeap oid (db_bpm s);
     let s = s\<lparr>db_bpm := bp\<rparr>;
     let c = c\<lparr>tableIds := (tableIds c)(oid \<mapsto> tm), tableNames := (tableNames c)(name \<mapsto> tm)\<rparr>;
     s \<leftarrow> insertTable logging c tm s;
     Some (tm, c, s) }"

definition BootstrapCatalog :: "bool \<Rightarrow> db \<Rightarrow> (Catalog \<times> db) option" where
  "BootstrapCatalog logging s = do {
     (heap, s) \<leftarrow> NewTableHeap logging s;
     let c = \<lparr>tableIds = Map.empty, tableNames = Map.empty, nextTableId = 0, cat_tableHeap = heap\<rparr>;
     (_, c, s) \<leftarrow> CreateTable logging (go_str ''columns_catalog'') ColumnsCatalogSchema c s;
     Some (c, s) }"

subsection \<open>Reading the catalog back\<close>

definition field :: "tuple \<Rightarrow> schema \<Rightarrow> string \<Rightarrow> sql_value option" where
  "field t sch name = do { i \<leftarrow> GetColIndex sch (go_str name); GetValue t sch i }"

definition int_field :: "tuple \<Rightarrow> schema \<Rightarrow> string \<Rightarrow> i32 option" where
  "int_field t sch name = do { v \<leftarrow> field t sch name; ToInteger v }"

definition read_column :: "tuple \<Rightarrow> column option" where
  "read_column t = do {
     columnType \<leftarrow> int_field t ColumnsCatalogSchema ''type'';
     v \<leftarrow> field t ColumnsCatalogSchema ''name'';
     name \<leftarrow> ToVarchar v;
     fixed \<leftarrow> int_field t ColumnsCatalogSchema ''fixed_length'';
     variable \<leftarrow> int_field t ColumnsCatalogSchema ''variable_length'';
     off \<leftarrow> int_field t ColumnsCatalogSchema ''offset'';
     has_index \<leftarrow> int_field t ColumnsCatalogSchema ''has_index'';
     Some ((NewColumn name (type_of_number columnType) False None)
       \<lparr>fixedLength := fixed, variableLength := variable, columnOffset := off, hasIndex := Int32toBool has_index\<rparr>) }"

partial_function (option) read_columns :: "bool \<Rightarrow> i32 \<Rightarrow> tuple option \<Rightarrow> column list \<Rightarrow> db \<Rightarrow> (column list \<times> db) option" where
  "read_columns logging oid cur cols s = (case cur of
     None \<Rightarrow> Some (cols, s)
   | Some t \<Rightarrow> do {
       tableOid \<leftarrow> int_field t ColumnsCatalogSchema ''table_oid'';
       cols \<leftarrow> (if tableOid \<noteq> oid then Some cols else do { c \<leftarrow> read_column t; Some (cols @ [c]) });
       (nxt, s) \<leftarrow> it_Next logging t s;
       read_columns logging oid nxt cols s })"

partial_function (option) read_tables :: "bool \<Rightarrow> tuple option \<Rightarrow> Catalog \<Rightarrow> db \<Rightarrow> (Catalog \<times> db) option" where
  "read_tables logging cur c s = (case cur of
     None \<Rightarrow> Some (c, s)
   | Some t \<Rightarrow> do {
       oid \<leftarrow> int_field t TableCatalogSchema ''oid'';
       v \<leftarrow> field t TableCatalogSchema ''name'';
       name \<leftarrow> ToVarchar v;
       firstPage \<leftarrow> int_field t TableCatalogSchema ''first_page'';
       (first, s) \<leftarrow> GetFirstTuple logging 1 s;
       (cols, s) \<leftarrow> read_columns logging oid first [] s;
       (tm, bp) \<leftarrow> NewTableMetadata (NewSchema cols) name firstPage oid (db_bpm s);
       let s = s\<lparr>db_bpm := bp\<rparr>;
       let c = c\<lparr>tableIds := (tableIds c)(oid \<mapsto> tm), tableNames := (tableNames c)(name \<mapsto> tm)\<rparr>;
       (nxt, s) \<leftarrow> it_Next logging t s;
       read_tables logging nxt c s })"

definition RecoveryCatalogFromCatalogPage :: "bool \<Rightarrow> db \<Rightarrow> (Catalog \<times> db) option" where
  "RecoveryCatalogFromCatalogPage logging s = do {
     (first, s) \<leftarrow> GetFirstTuple logging 0 s;
     read_tables logging first \<lparr>tableIds = Map.empty, tableNames = Map.empty, nextTableId = 1, cat_tableHeap = 0\<rparr> s }"

end
