(* ===== verification/Expression.thy ===== *)
theory Expression
  imports Tuple_Schema
begin

text \<open>
  Package \<^verbatim>\<open>execution/expression\<close>.  An \<^verbatim>\<open>Expression\<close> is one of its five implementations; the return type an expression
  carries plays no role in evaluation and is left out.  The missing operand of a \<^verbatim>\<open>NOT\<close> is \<open>None\<close>.  Evaluation panics on a
  value of the wrong type, an unknown operator or an aggregate outside an aggregation: \<open>None\<close>.
\<close>

datatype ComparisonType = Equal | NotEqual | GreaterThan | GreaterThanOrEqual | LessThan | LessThanOrEqual | OtherComparison int

datatype LogicalOpType = AND_op | OR_op | NOT_op | OtherOp int

datatype Expression =
    ColumnValue (tupleIndexForJoin: u32) (colIndex: u32)
  | ConstantValue sql_value
  | AggregateValueExpression bool u32
  | Comparison Expression Expression ComparisonType
  | LogicalOp Expression "Expression option" LogicalOpType

definition performComparison :: "ComparisonType \<Rightarrow> sql_value \<Rightarrow> sql_value \<Rightarrow> bool option" where
  "performComparison ct lhs rhs = (case ct of
     Equal \<Rightarrow> CompareEquals lhs rhs
   | NotEqual \<Rightarrow> CompareNotEquals lhs rhs
   | GreaterThan \<Rightarrow> CompareGreaterThan lhs rhs
   | GreaterThanOrEqual \<Rightarrow> CompareGreaterThanOrEqual lhs rhs
   | LessThan \<Rightarrow> CompareLessThan lhs rhs
   | LessThanOrEqual \<Rightarrow> CompareLessThanOrEqual lhs rhs
   | OtherComparison _ \<Rightarrow> None)"

text \<open>\<^verbatim>\<open>&&\<close> and \<^verbatim>\<open>||\<close> do not look at the right operand when the left one decides.\<close>

definition performLogicalOp :: "LogicalOpType \<Rightarrow> sql_value \<Rightarrow> sql_value \<Rightarrow> bool option" where
  "performLogicalOp ty lhs rhs = (case ty of
     AND_op \<Rightarrow> do { a \<leftarrow> ToBoolean lhs; if a then ToBoolean rhs else Some False }
   | OR_op \<Rightarrow> do { a \<leftarrow> ToBoolean lhs; if a then Some True else ToBoolean rhs }
   | _ \<Rightarrow> None)"

text \<open>What the three evaluations have in common: \<open>leaf\<close> evaluates columns, constants and aggregates.\<close>

fun eval :: "(Expression \<Rightarrow> sql_value option) \<Rightarrow> Expression \<Rightarrow> sql_value option" where
  "eval leaf (Comparison l r ct) = do {
     lhs \<leftarrow> eval leaf l;
     rhs \<leftarrow> eval leaf r;
     b \<leftarrow> performComparison ct lhs rhs;
     Some (NewBoolean b) }"
| "eval leaf (LogicalOp l r ty) =
     (if ty = NOT_op then do {
        lhs \<leftarrow> eval leaf l;
        b \<leftarrow> ToBoolean lhs;
        Some (NewBoolean (\<not> b)) }
      else do {
        lhs \<leftarrow> eval leaf l;
        rhs \<leftarrow> (case r of Some r \<Rightarrow> eval leaf r | None \<Rightarrow> None);
        b \<leftarrow> performLogicalOp ty lhs rhs;
        Some (NewBoolean b) })"
| "eval leaf e = leaf e"

text \<open>A tuple or schema that is \<^verbatim>\<open>nil\<close> makes reading a column panic.\<close>

definition column_of :: "tuple option \<Rightarrow> schema option \<Rightarrow> u32 \<Rightarrow> sql_value option" where
  "column_of t s i = do { t \<leftarrow> t; s \<leftarrow> s; GetValue t s i }"

definition Evaluate :: "Expression \<Rightarrow> tuple option \<Rightarrow> schema option \<Rightarrow> sql_value option" where
  "Evaluate e t s = eval (\<lambda>e. case e of
     ColumnValue _ i \<Rightarrow> column_of t s i
   | ConstantValue v \<Rightarrow> Some v
   | _ \<Rightarrow> None) e"

definition EvaluateAggregate :: "Expression \<Rightarrow> sql_value list \<Rightarrow> sql_value list \<Rightarrow> sql_value option" where
  "EvaluateAggregate e group_bys aggregates = eval (\<lambda>e. case e of
     AggregateValueExpression is_group_by i \<Rightarrow> go_nth (if is_group_by then group_bys else aggregates) (unat i)
   | ConstantValue v \<Rightarrow> Some v
   | _ \<Rightarrow> None) e"

text \<open>
  \<^verbatim>\<open>EvaluateJoin\<close> of a comparison or logical operation passes the left schema as the right one to its first operand, so
  it is not an instance of \<open>eval\<close>.
\<close>

fun EvaluateJoin :: "Expression \<Rightarrow> tuple \<Rightarrow> schema option \<Rightarrow> tuple \<Rightarrow> schema option \<Rightarrow> sql_value option" where
  "EvaluateJoin (ColumnValue ti i) lt ls rt rs = (if ti = 0 then column_of (Some lt) ls i else column_of (Some rt) rs i)"
| "EvaluateJoin (ConstantValue v) lt ls rt rs = Some v"
| "EvaluateJoin (AggregateValueExpression g i) lt ls rt rs = None"
| "EvaluateJoin (Comparison l r ct) lt ls rt rs = do {
     lhs \<leftarrow> EvaluateJoin l lt ls rt ls;
     rhs \<leftarrow> EvaluateJoin r lt ls rt rs;
     b \<leftarrow> performComparison ct lhs rhs;
     Some (NewBoolean b) }"
| "EvaluateJoin (LogicalOp l r ty) lt ls rt rs =
     (if ty = NOT_op then do {
        lhs \<leftarrow> EvaluateJoin l lt ls rt ls;
        b \<leftarrow> ToBoolean lhs;
        Some (NewBoolean (\<not> b)) }
      else do {
        lhs \<leftarrow> EvaluateJoin l lt ls rt ls;
        rhs \<leftarrow> (case r of Some r \<Rightarrow> EvaluateJoin r lt ls rt rs | None \<Rightarrow> None);
        b \<leftarrow> performLogicalOp ty lhs rhs;
        Some (NewBoolean b) })"

definition GetRightSideValue :: "Expression \<Rightarrow> tuple option \<Rightarrow> schema option \<Rightarrow> sql_value option" where
  "GetRightSideValue e t s = (case e of Comparison _ r _ \<Rightarrow> Evaluate r t s | _ \<Rightarrow> None)"

definition GetLeftSideColIdx :: "Expression \<Rightarrow> u32 option" where
  "GetLeftSideColIdx e = (case e of Comparison (ColumnValue _ i) _ _ \<Rightarrow> Some i | _ \<Rightarrow> None)"

end
