(* ===== verification/Executors.thy ===== *)
theory Executors
  imports Catalog Expression
begin

text \<open>
  Packages \<^verbatim>\<open>execution/plans\<close> and \<^verbatim>\<open>execution/executors\<close>: a query is a tree of plan nodes; \<^verbatim>\<open>CreateExecutor\<close> makes an
  executor for each node, and the engine initialises the root and calls its \<^verbatim>\<open>Next\<close> until it reports the end.  An executor
  is its plan node together with its mutable fields (\<open>exec_state\<close>), so that \<open>Init\<close> and \<open>Next\<close> recurse over the plan; the result of \<open>Next\<close> is the tuple
  (or \<^verbatim>\<open>nil\<close>), the flag for the end and whether there is an error.  Loops over a child are \<open>partial_function (option)\<close>
  with the child's \<open>Next\<close> as an argument.  A state that is not one of the node's own is \<open>None\<close>; it does not occur.
\<close>

subsection \<open>Plans\<close>

datatype AggregationType = COUNT_AGGREGATE | SUM_AGGREGATE | MIN_AGGREGATE | MAX_AGGREGATE | OtherAggregate int

datatype OrderbyType = ASC | DESC

datatype Plan =
    SeqScanPlanNode schema "Expression option" u32
  | HashScanIndexPlanNode schema Expression u32
  | InsertPlanNode "sql_value list list" u32
  | DeletePlanNode "Expression option" u32
  | UpdatePlanNode "sql_value list" "int list option" "Expression option" u32
  | LimitPlanNode Plan u32 u32
  | OrderbyPlanNode schema Plan "int list" "OrderbyType list"
  | AggregationPlanNode schema Plan "Expression option" "Expression list" "Expression list" "AggregationType list"
  | HashJoinPlanNode schema Plan Plan Expression

text \<open>\<^verbatim>\<open>nil\<close> for the nodes made without a schema.\<close>

definition OutputSchema :: "Plan \<Rightarrow> schema option" where
  "OutputSchema p = (case p of
     SeqScanPlanNode sch _ _ \<Rightarrow> Some sch
   | HashScanIndexPlanNode sch _ _ \<Rightarrow> Some sch
   | OrderbyPlanNode sch _ _ _ \<Rightarrow> Some sch
   | AggregationPlanNode sch _ _ _ _ _ \<Rightarrow> Some sch
   | HashJoinPlanNode sch _ _ _ \<Rightarrow> Some sch
   | _ \<Rightarrow> None)"

text \<open>
  What an execution is given: the catalog of the context, \<^verbatim>\<open>common.EnableLogging\<close>, murmur3, the result of \<^verbatim>\<open>sort.Slice\<close>, the order in
  which a Go map is ranged over, and the expression objects that columns of output schemas point to.
\<close>

record ExecEnv =
  env_catalog :: Catalog
  env_logging :: bool
  env_murmur3 :: "bytes \<Rightarrow> bytes"
  env_sort :: "(sql_value list \<Rightarrow> sql_value list \<Rightarrow> bool) \<Rightarrow> sql_value list list \<Rightarrow> sql_value list list"
  env_range :: "u32 list \<Rightarrow> u32 list"
  env_exprs :: "nat \<Rightarrow> Expression"

type_synonym next_result = "tuple option \<times> bool \<times> bool"

fun map_option_list :: "('a \<Rightarrow> 'b option) \<Rightarrow> 'a list \<Rightarrow> 'b list option" where
  "map_option_list f [] = Some []"
| "map_option_list f (x # xs) = do { y \<leftarrow> f x; ys \<leftarrow> map_option_list f xs; Some (y # ys) }"

subsection \<open>Sequential scan\<close>

definition selects :: "tuple \<Rightarrow> Expression option \<Rightarrow> schema \<Rightarrow> bool option" where
  "selects t predicate sch = (case predicate of None \<Rightarrow> Some True | Some e \<Rightarrow> do { v \<leftarrow> Evaluate e (Some t) (Some sch); ToBoolean v })"

definition projects :: "tuple \<Rightarrow> schema \<Rightarrow> schema \<Rightarrow> tuple option" where
  "projects t sch outputSchema = do {
     values \<leftarrow> map_option_list (\<lambda>c. do { colIndex \<leftarrow> GetColIndex sch (columnName c); GetValue t sch colIndex }) (columns outputSchema);
     NewTupleFromSchema values outputSchema }"

text \<open>The loop from the iterator's current tuple to the first one that is selected.\<close>

partial_function (option) find_selected :: "bool \<Rightarrow> Expression option \<Rightarrow> schema \<Rightarrow> tuple option \<Rightarrow> db \<Rightarrow> (tuple option \<times> db) option" where
  "find_selected logging predicate sch cur s = (case cur of
     None \<Rightarrow> Some (None, s)
   | Some t \<Rightarrow> do {
       b \<leftarrow> selects t predicate sch;
       if b then Some (Some t, s)
       else do { (nxt, s) \<leftarrow> it_Next logging t s; find_selected logging predicate sch nxt s } })"

text \<open>\<^verbatim>\<open>Init\<close> of the scan, the delete and the update: an iterator at the first tuple.\<close>

definition Scan_Init :: "ExecEnv \<Rightarrow> TableMetadata \<Rightarrow> db \<Rightarrow> (tuple option \<times> db) option" where
  "Scan_Init env tm s = GetFirstTuple (env_logging env) (tm_table tm) s"

definition SeqScan_Next :: "bool \<Rightarrow> TableMetadata \<Rightarrow> schema \<Rightarrow> Expression option \<Rightarrow> tuple option \<Rightarrow> db \<Rightarrow>
    (next_result \<times> tuple option \<times> db) option" where
  "SeqScan_Next logging tm out predicate cur s = do {
     (cur, s) \<leftarrow> find_selected logging predicate (tm_schema tm) cur s;
     case cur of
       Some t \<Rightarrow> do {
         r \<leftarrow> projects t (tm_schema tm) out;
         (nxt, s) \<leftarrow> it_Next logging t s;
         Some ((Some r, False, False), nxt, s) }
     | None \<Rightarrow> Some ((None, True, False), None, s) }"

subsection \<open>Insert, delete and update\<close>

fun each_index :: "(LinearProbeHashTableIndex \<Rightarrow> BufferPool \<Rightarrow> BufferPool option) \<Rightarrow> TableMetadata \<Rightarrow> nat list \<Rightarrow> db \<Rightarrow> db option" where
  "each_index f tm [] s = Some s"
| "each_index f tm (ii # iis) s = do {
     ix \<leftarrow> GetIndex tm ii;
     s \<leftarrow> (case ix of None \<Rightarrow> Some s | Some ix \<Rightarrow> do { bp \<leftarrow> f ix (db_bpm s); Some (s\<lparr>db_bpm := bp\<rparr>) });
     each_index f tm iis s }"

abbreviation column_numbers :: "TableMetadata \<Rightarrow> nat list" where
  "column_numbers tm \<equiv> [0..<unat (GetColumnNum tm)]"

fun Insert_Next :: "ExecEnv \<Rightarrow> TableMetadata \<Rightarrow> sql_value list list \<Rightarrow> db \<Rightarrow> (next_result \<times> db) option" where
  "Insert_Next env tm [] s = Some ((None, True, False), s)"
| "Insert_Next env tm (vals # rows) s = do {
     t \<leftarrow> NewTupleFromSchema vals (tm_schema tm);
     (res, s) \<leftarrow> TH_InsertTuple (env_logging env) (tm_table tm) t s;
     case res of
       Inl e \<Rightarrow> Some ((None, True, True), s)
     | Inr (r, t) \<Rightarrow> do {
         s \<leftarrow> each_index (\<lambda>ix. InsertEntry (env_murmur3 env) ix t r) tm (column_numbers tm) s;
         Insert_Next env tm rows s } }"

definition Delete_Next :: "ExecEnv \<Rightarrow> TableMetadata \<Rightarrow> Expression option \<Rightarrow> tuple option \<Rightarrow> db \<Rightarrow> (next_result \<times> tuple option \<times> db) option" where
  "Delete_Next env tm predicate cur s = do {
     (cur, s) \<leftarrow> find_selected (env_logging env) predicate (tm_schema tm) cur s;
     case cur of
       None \<Rightarrow> Some ((None, True, False), None, s)
     | Some t \<Rightarrow> do {
         r \<leftarrow> t_rid t;
         (is_marked, s) \<leftarrow> TH_MarkDelete (env_logging env) (tm_table tm) r s;
         s \<leftarrow> (if is_marked then each_index (\<lambda>ix. DeleteEntry (env_murmur3 env) ix t r) tm (column_numbers tm) s else Some s);
         (nxt, s) \<leftarrow> it_Next (env_logging env) t s;
         Some (if is_marked then (Some t, False, False) else (None, False, True), nxt, s) } }"

definition Update_Next :: "ExecEnv \<Rightarrow> TableMetadata \<Rightarrow> sql_value list \<Rightarrow> int list option \<Rightarrow> Expression option \<Rightarrow> tuple option \<Rightarrow> db \<Rightarrow>
    (next_result \<times> tuple option \<times> db) option" where
  "Update_Next env tm vals idxs predicate cur s = do {
     (cur, s) \<leftarrow> find_selected (env_logging env) predicate (tm_schema tm) cur s;
     case cur of
       None \<Rightarrow> Some ((None, True, False), None, s)
     | Some t \<Rightarrow> do {
         r \<leftarrow> t_rid t;
         new_tuple \<leftarrow> NewTupleFromSchema vals (tm_schema tm);
         ((is_updated, new_rid), s) \<leftarrow> (case idxs of
             None \<Rightarrow> TH_UpdateTuple (env_logging env) (tm_table tm) new_tuple None None r s
           | Some is \<Rightarrow> TH_UpdateTuple (env_logging env) (tm_table tm) new_tuple (Some is) (Some (tm_schema tm)) r s);
         s \<leftarrow> (if is_updated
               then each_index (\<lambda>ix bp. do {
                   bp \<leftarrow> DeleteEntry (env_murmur3 env) ix t r bp;
                   InsertEntry (env_murmur3 env) ix new_tuple (case new_rid of Some q \<Rightarrow> q | None \<Rightarrow> r) bp }) tm (column_numbers tm) s
               else Some s);
         (nxt, s) \<leftarrow> it_Next (env_logging env) t s;
         Some (if is_updated then (Some new_tuple, False, False) else (None, False, True), nxt, s) } }"

subsection \<open>Scan with a hash index\<close>

fun find_index :: "TableMetadata \<Rightarrow> u32 \<Rightarrow> nat list \<Rightarrow> (nat \<times> LinearProbeHashTableIndex) option" where
  "find_index tm colIdxOfPred [] = None"
| "find_index tm colIdxOfPred (ii # iis) = do {
     ix \<leftarrow> GetIndex tm ii;
     case ix of
       None \<Rightarrow> find_index tm colIdxOfPred iis
     | Some ix \<Rightarrow> if colIdxOfPred = of_nat ii then Some (ii, ix) else find_index tm colIdxOfPred iis }"

fun found_tuples :: "bool \<Rightarrow> rid list \<Rightarrow> tuple list \<Rightarrow> db \<Rightarrow> (tuple list \<times> db) option" where
  "found_tuples logging [] acc s = Some (acc, s)"
| "found_tuples logging (r # rs) acc s = do {
     (t, s) \<leftarrow> TH_GetTuple logging r s;
     case t of None \<Rightarrow> Some ([], s) | Some t \<Rightarrow> found_tuples logging rs (acc @ [t]) s }"

definition HashScan_Init :: "ExecEnv \<Rightarrow> TableMetadata \<Rightarrow> Expression \<Rightarrow> db \<Rightarrow> (tuple list \<times> db) option" where
  "HashScan_Init env tm comparison s = do {
     colIdxOfPred \<leftarrow> GetLeftSideColIdx comparison;
     (indexColNum, ix) \<leftarrow> find_index tm colIdxOfPred (column_numbers tm);
     v \<leftarrow> GetRightSideValue comparison None (Some (tm_schema tm));
     dummyTuple \<leftarrow> GenTupleForHashIndexSearch (tm_schema tm) (of_nat indexColNum) v;
     (rids, bp) \<leftarrow> ScanKey (env_murmur3 env) ix dummyTuple (db_bpm s);
     found_tuples (env_logging env) rids [] (s\<lparr>db_bpm := bp\<rparr>) }"

definition HashScan_Next :: "TableMetadata \<Rightarrow> schema \<Rightarrow> tuple list \<Rightarrow> (next_result \<times> tuple list) option" where
  "HashScan_Next tm out found = (case found of
     t # ts \<Rightarrow> do { r \<leftarrow> projects t (tm_schema tm) out; Some ((Some r, False, False), ts) }
   | [] \<Rightarrow> Some ((None, True, False), []))"

subsection \<open>Order by\<close>

text \<open>The less function given to \<^verbatim>\<open>sort.Slice\<close>: compares the sort columns of two rows in turn.\<close>

fun row_less :: "nat \<Rightarrow> OrderbyType list \<Rightarrow> sql_value list \<Rightarrow> sql_value list \<Rightarrow> bool option" where
  "row_less 0 types xs ys = Some False"
| "row_less (Suc n) (ty # types) (x # xs) (y # ys) = do {
     eq \<leftarrow> CompareEquals x y;
     if eq then row_less n types xs ys
     else do { lt \<leftarrow> CompareLessThan x y; Some (if ty = ASC then lt else \<not> lt) } }"
| "row_less (Suc n) types xs ys = None"

text \<open>The loop over the child: the tuples, and for each the values of its sort columns followed by the number of calls before it.\<close>

partial_function (option) orderby_loop :: "('c \<Rightarrow> 's \<Rightarrow> (next_result \<times> 'c \<times> 's) option) \<Rightarrow> schema option \<Rightarrow> int list \<Rightarrow> tuple list \<Rightarrow> sql_value list list \<Rightarrow> i32 \<Rightarrow> 'c \<Rightarrow> 's \<Rightarrow>
    (tuple list \<times> sql_value list list \<times> 'c \<times> 's) option" where
  "orderby_loop nx sch col_idxs tuples sort_values calls c s = do {
     ((t, done, err), c, s) \<leftarrow> nx c s;
     if err \<or> done then Some (tuples, sort_values, c, s)
     else case t of
       None \<Rightarrow> orderby_loop nx sch col_idxs tuples sort_values (calls + 1) c s
     | Some t \<Rightarrow> do {
         row \<leftarrow> map_option_list (\<lambda>i. column_of (Some t) sch (word_of_int i)) col_idxs;
         orderby_loop nx sch col_idxs (tuples @ [t]) (sort_values @ [row @ [NewInteger calls]]) (calls + 1) c s } }"

text \<open>The sort panics when a comparison of two rows does (the values of a column all have its type, so this does not depend
  on which rows are compared); the sorted rows say where each tuple was.\<close>

definition Orderby_sort :: "ExecEnv \<Rightarrow> OrderbyType list \<Rightarrow> nat \<Rightarrow> tuple list \<Rightarrow> sql_value list list \<Rightarrow> tuple list option" where
  "Orderby_sort env types n tuples sort_values =
     (if \<exists>i \<in> {..<length sort_values}. \<exists>j \<in> {..<length sort_values}. i \<noteq> j \<and> row_less n types (sort_values ! i) (sort_values ! j) = None then None
      else let sorted = env_sort env (\<lambda>a b. row_less n types a b = Some True) sort_values in
        map_option_list (\<lambda>idx. do {
            row \<leftarrow> go_nth sorted idx;
            v \<leftarrow> go_nth row n;
            i \<leftarrow> ToInteger v;
            if sint i < 0 then None else go_nth tuples (nat (sint i)) }) [0..<length tuples])"

definition Orderby_Init :: "ExecEnv \<Rightarrow> ('c \<Rightarrow> 's \<Rightarrow> (next_result \<times> 'c \<times> 's) option) \<Rightarrow> schema option \<Rightarrow> int list \<Rightarrow> OrderbyType list \<Rightarrow> 'c \<Rightarrow> 's \<Rightarrow>
    (tuple list \<times> 'c \<times> 's) option" where
  "Orderby_Init env nx sch col_idxs types c s = do {
     (ts, rows, c, s) \<leftarrow> orderby_loop nx sch col_idxs [] [] 0 c s;
     ts \<leftarrow> Orderby_sort env types (length col_idxs) ts rows;
     Some (ts, c, s) }"

definition Orderby_Next :: "tuple list \<Rightarrow> nat \<Rightarrow> next_result \<times> nat" where
  "Orderby_Next sort_tuples cur_idx =
     (if cur_idx < length sort_tuples then ((Some (sort_tuples ! cur_idx), False, False), cur_idx + 1) else ((None, True, False), cur_idx))"

subsection \<open>Aggregation\<close>

text \<open>\<open>ht_keys\<close> lists the hashes in the order they were added.\<close>

record SimpleAggregationHashTable =
  ht_keys :: "u32 list"
  ht_val :: "u32 \<Rightarrow> sql_value list option"
  ht_key :: "u32 \<Rightarrow> sql_value list option"

definition NewSimpleAggregationHashTable :: SimpleAggregationHashTable where
  "NewSimpleAggregationHashTable = \<lparr>ht_keys = [], ht_val = Map.empty, ht_key = Map.empty\<rparr>"

definition HashValuesOnAggregateKey :: "(bytes \<Rightarrow> bytes) \<Rightarrow> sql_value list \<Rightarrow> u32 option" where
  "HashValuesOnAggregateKey murmur3 key = do {
     bss \<leftarrow> map_option_list Value_Serialize key;
     Some (GenHashMurMur murmur3 (concat bss)) }"

fun GenerateInitialAggregateValue :: "AggregationType list \<Rightarrow> sql_value list" where
  "GenerateInitialAggregateValue [] = []"
| "GenerateInitialAggregateValue (ty # tys) = (case ty of
     COUNT_AGGREGATE \<Rightarrow> [NewInteger 0]
   | SUM_AGGREGATE \<Rightarrow> [NewInteger 0]
   | MIN_AGGREGATE \<Rightarrow> [NewInteger 0x7FFFFFFF]
   | MAX_AGGREGATE \<Rightarrow> [NewInteger 0x80000000]
   | OtherAggregate _ \<Rightarrow> []) @ GenerateInitialAggregateValue tys"

definition combine_one :: "AggregationType \<Rightarrow> sql_value \<Rightarrow> sql_value \<Rightarrow> sql_value option" where
  "combine_one ty result input = (case ty of
     COUNT_AGGREGATE \<Rightarrow> Value_Add result (NewInteger 1)
   | SUM_AGGREGATE \<Rightarrow> Value_Add result input
   | MIN_AGGREGATE \<Rightarrow> Value_Min result input
   | MAX_AGGREGATE \<Rightarrow> Value_Max result input
   | OtherAggregate _ \<Rightarrow> Some result)"

fun CombineAggregateValues :: "AggregationType list \<Rightarrow> nat list \<Rightarrow> sql_value list \<Rightarrow> sql_value list \<Rightarrow> sql_value list option" where
  "CombineAggregateValues agg_types [] result input = Some result"
| "CombineAggregateValues agg_types (i # is) result input = do {
     ty \<leftarrow> go_nth agg_types i;
     result \<leftarrow> (case ty of OtherAggregate _ \<Rightarrow> Some result
       | COUNT_AGGREGATE \<Rightarrow> do { r \<leftarrow> go_nth result i; v \<leftarrow> combine_one ty r (NewInteger 1); Some (result[i := v]) }
       | _ \<Rightarrow> do { r \<leftarrow> go_nth result i; x \<leftarrow> go_nth input i; v \<leftarrow> combine_one ty r x; Some (result[i := v]) });
     CombineAggregateValues agg_types is result input }"

definition InsertCombine :: "(bytes \<Rightarrow> bytes) \<Rightarrow> nat \<Rightarrow> AggregationType list \<Rightarrow> sql_value list \<Rightarrow> sql_value list \<Rightarrow>
    SimpleAggregationHashTable \<Rightarrow> SimpleAggregationHashTable option" where
  "InsertCombine murmur3 n agg_types agg_key agg_val aht = do {
     h \<leftarrow> HashValuesOnAggregateKey murmur3 agg_key;
     let aht = (if ht_val aht h = None
                then aht\<lparr>ht_keys := ht_keys aht @ [h], ht_val := (ht_val aht)(h \<mapsto> GenerateInitialAggregateValue agg_types)\<rparr> else aht);
     cur_val \<leftarrow> ht_val aht h;
     v \<leftarrow> CombineAggregateValues agg_types [0..<n] cur_val agg_val;
     let aht = aht\<lparr>ht_val := (ht_val aht)(h \<mapsto> v)\<rparr>;
     Some (if ht_key aht h = None then aht\<lparr>ht_key := (ht_key aht)(h \<mapsto> agg_key)\<rparr> else aht) }"

definition MakeVals :: "Expression list \<Rightarrow> tuple \<Rightarrow> schema option \<Rightarrow> sql_value list option" where
  "MakeVals exprs t sch = map_option_list (\<lambda>e. Evaluate e (Some t) sch) exprs"

partial_function (option) aggregate_loop :: "('c \<Rightarrow> 's \<Rightarrow> (next_result \<times> 'c \<times> 's) option) \<Rightarrow> (tuple \<Rightarrow> 'h \<Rightarrow> 'h option) \<Rightarrow> 'h \<Rightarrow> 'c \<Rightarrow> 's \<Rightarrow>
    ('h \<times> 'c \<times> 's) option" where
  "aggregate_loop nx put aht c s = do {
     ((t, done, err), c, s) \<leftarrow> nx c s;
     if err \<or> done then Some (aht, c, s)
     else do {
       aht \<leftarrow> (case t of None \<Rightarrow> Some aht | Some t \<Rightarrow> put t aht);
       aggregate_loop nx put aht c s } }"

definition aggregate_tuple :: "ExecEnv \<Rightarrow> schema option \<Rightarrow> Expression list \<Rightarrow> Expression list \<Rightarrow> AggregationType list \<Rightarrow> tuple \<Rightarrow>
    SimpleAggregationHashTable \<Rightarrow> SimpleAggregationHashTable option" where
  "aggregate_tuple env sch group_bys aggregates agg_types t aht = do {
     key \<leftarrow> MakeVals group_bys t sch;
     val \<leftarrow> MakeVals aggregates t sch;
     InsertCombine (env_murmur3 env) (length aggregates) agg_types key val aht }"

text \<open>The iterator is what is left of its two arrays.\<close>

definition AHT_Begin :: "(u32 list \<Rightarrow> u32 list) \<Rightarrow> SimpleAggregationHashTable \<Rightarrow> (sql_value list option \<times> sql_value list option) list" where
  "AHT_Begin order aht = map (\<lambda>h. (ht_key aht h, ht_val aht h)) (order (ht_keys aht))"

text \<open>The output columns must point to aggregate expressions.\<close>

definition agg_exprs :: "(nat \<Rightarrow> Expression) \<Rightarrow> schema \<Rightarrow> Expression list option" where
  "agg_exprs objs out = map_option_list (\<lambda>c. do {
     p \<leftarrow> col_expr c;
     case objs p of AggregateValueExpression g i \<Rightarrow> Some (AggregateValueExpression g i) | _ \<Rightarrow> None }) (columns out)"

definition Aggregation_Init :: "ExecEnv \<Rightarrow> ('c \<Rightarrow> 's \<Rightarrow> (next_result \<times> 'c \<times> 's) option) \<Rightarrow> schema option \<Rightarrow> schema \<Rightarrow> Expression list \<Rightarrow> Expression list \<Rightarrow> AggregationType list \<Rightarrow>
    'c \<Rightarrow> 's \<Rightarrow> (Expression list \<times> (sql_value list option \<times> sql_value list option) list \<times> 'c \<times> 's) option" where
  "Aggregation_Init env nx sch out group_bys aggregates agg_types c s = do {
     exprs \<leftarrow> agg_exprs (env_exprs env) out;
     (aht, c, s) \<leftarrow> aggregate_loop nx (aggregate_tuple env sch group_bys aggregates agg_types) NewSimpleAggregationHashTable c s;
     Some (exprs, AHT_Begin (env_range env) aht, c, s) }"

fun skip_having :: "Expression option \<Rightarrow> (sql_value list option \<times> sql_value list option) list \<Rightarrow>
    (sql_value list option \<times> sql_value list option) list option" where
  "skip_having having [] = Some []"
| "skip_having having [g] = Some [g]"
| "skip_having having (g # g' # gs) = (case having of None \<Rightarrow> Some (g # g' # gs)
   | Some e \<Rightarrow> do {
       k \<leftarrow> fst g; a \<leftarrow> snd g;
       v \<leftarrow> EvaluateAggregate e k a;
       b \<leftarrow> ToBoolean v;
       if b then Some (g # g' # gs) else skip_having having (g' # gs) })"

definition Aggregation_Next :: "schema \<Rightarrow> Expression option \<Rightarrow> Expression list \<Rightarrow> (sql_value list option \<times> sql_value list option) list \<Rightarrow>
    (next_result \<times> (sql_value list option \<times> sql_value list option) list) option" where
  "Aggregation_Next out having exprs it = do {
     it \<leftarrow> skip_having having it;
     case it of
       [] \<Rightarrow> Some ((None, True, False), [])
     | (k, a) # rest \<Rightarrow> do {
         k \<leftarrow> k; a \<leftarrow> a;
         values \<leftarrow> map_option_list (\<lambda>e. EvaluateAggregate e k a) exprs;
         t \<leftarrow> NewTupleFromSchema values out;
         Some ((Some t, False, False), rest) } }"

subsection \<open>Hash join\<close>

text \<open>The temporary pages that keep the left tuples: the page id at 0, the free space pointer at 16, tuples from the end.\<close>

record TmpTuple =
  tt_page_id :: pageID
  tt_offset :: u32

definition Tmp_Init :: "pageID \<Rightarrow> u32 \<Rightarrow> bytes \<Rightarrow> bytes" where
  "Tmp_Init page_id page_size d = copy_at 16 (enc32 page_size) (copy_at 0 (PageID_Serialize page_id) d)"

definition GetFreeSpacePointer_tmp :: "bytes \<Rightarrow> u32" where
  "GetFreeSpacePointer_tmp d = NewUInt32FromBytes (drop 16 d)"

definition Tmp_Insert :: "tuple \<Rightarrow> bytes \<Rightarrow> (TmpTuple option \<times> bytes) option" where
  "Tmp_Insert t d = (let free_offset = GetFreeSpacePointer_tmp d; need_size = 4 + t_size t in
     if free_offset - need_size < 20 then Some (None, d)
     else do {
       let free_offset = free_offset - need_size;
       let d = copy_at 16 (enc32 free_offset) d;
       d \<leftarrow> go_copy (unat free_offset) (enc32 (t_size t)) d;
       data \<leftarrow> slice_range 0 (unat (t_size t)) (t_data t);
       d \<leftarrow> go_copy (unat free_offset + 4) data d;
       Some (Some \<lparr>tt_page_id = NewPageIDFromBytes (take 4 d), tt_offset = GetFreeSpacePointer_tmp d\<rparr>, d) })"

definition Tmp_Get :: "tuple \<Rightarrow> u32 \<Rightarrow> bytes \<Rightarrow> tuple option" where
  "Tmp_Get t offset d = do { storage \<leftarrow> slice_from (unat offset) d; DeserializeFrom t storage [] }"

text \<open>\<^verbatim>\<open>SimpleHashJoinHashTable\<close>: a missing key is the empty list.\<close>

definition JHT_Insert :: "u32 \<Rightarrow> TmpTuple \<Rightarrow> (u32 \<Rightarrow> TmpTuple list) \<Rightarrow> u32 \<Rightarrow> TmpTuple list" where
  "JHT_Insert h t jht = jht(h := jht h @ [t])"

record join_state =
  j_jht :: "u32 \<Rightarrow> TmpTuple list"
  j_tmp_tuples :: "TmpTuple list"
  j_index :: nat
  j_output_exprs :: "Expression list"
  j_tmp_page_ids :: "pageID list"
  j_right_tuple :: tuple

definition output_exprs :: "schema \<Rightarrow> schema option \<Rightarrow> schema option \<Rightarrow> Expression list option" where
  "output_exprs out ls rs = map_option_list (\<lambda>c.
     if isLeft c then do { sch \<leftarrow> ls; i \<leftarrow> GetColIndex sch (columnName c); Some (ColumnValue 0 i) }
     else do { sch \<leftarrow> rs; i \<leftarrow> GetColIndex sch (columnName c); Some (ColumnValue 1 i) }) (columns out)"

text \<open>A new temporary page for the tuple: the full one is released.  \<open>page\<close> is the current page, if any.\<close>

definition new_tmp_page :: "(FrameID \<times> pageID) option \<Rightarrow> tuple \<Rightarrow> BufferPool \<Rightarrow> (TmpTuple option \<times> (FrameID \<times> pageID) \<times> BufferPool) option" where
  "new_tmp_page page t bp = do {
     bp \<leftarrow> (case page of None \<Rightarrow> Some bp | Some (_, p) \<Rightarrow> do { (_, bp) \<leftarrow> UnpinPage p True bp; Some bp });
     (f, bp) \<leftarrow> NewPage bp;
     f \<leftarrow> f;
     pg \<leftarrow> frame_page bp f;
     let d = Tmp_Init (pg_id pg) 4096 (pg_data pg);
     (tmp, d) \<leftarrow> Tmp_Insert t d;
     Some (tmp, (f, pg_id pg), set_frame f (pg\<lparr>pg_data := d\<rparr>) bp) }"

text \<open>Putting a left tuple on the current temporary page or a new one; \<open>old\<close> is what \<^verbatim>\<open>tmp_tuple\<close> was, which a tuple too big for a page leaves.\<close>

definition store_tmp :: "(FrameID \<times> pageID) option \<Rightarrow> pageID list \<Rightarrow> TmpTuple \<Rightarrow> tuple \<Rightarrow> BufferPool \<Rightarrow>
    (TmpTuple \<times> (FrameID \<times> pageID) option \<times> pageID list \<times> BufferPool) option" where
  "store_tmp page ids old t bp = do {
     (tmp, bp) \<leftarrow> (case page of None \<Rightarrow> Some (None, bp)
       | Some (f, _) \<Rightarrow> do {
           pg \<leftarrow> frame_page bp f;
           (tmp, d) \<leftarrow> Tmp_Insert t (pg_data pg);
           Some (tmp, set_frame f (pg\<lparr>pg_data := d\<rparr>) bp) });
     case tmp of
       Some tmp \<Rightarrow> Some (tmp, page, ids, bp)
     | None \<Rightarrow> do {
         (tmp, page, bp) \<leftarrow> new_tmp_page page t bp;
         Some (case tmp of Some tmp \<Rightarrow> tmp | None \<Rightarrow> old, Some page, ids @ [snd page], bp) } }"

partial_function (option) build_loop :: "('c \<Rightarrow> db \<Rightarrow> (next_result \<times> 'c \<times> db) option) \<Rightarrow> (tuple \<Rightarrow> u32 option option) \<Rightarrow>
    (FrameID \<times> pageID) option \<Rightarrow> pageID list \<Rightarrow> TmpTuple \<Rightarrow> (u32 \<Rightarrow> TmpTuple list) \<Rightarrow> 'c \<Rightarrow> db \<Rightarrow>
    ((u32 \<Rightarrow> TmpTuple list) \<times> pageID list \<times> 'c \<times> db) option" where
  "build_loop nx key page ids old jht c s = do {
     ((t, done, _), c, s) \<leftarrow> nx c s;
     if done then Some (jht, ids, c, s)
     else case t of None \<Rightarrow> Some (jht, ids, c, s)
     | Some t \<Rightarrow> do {
         (tmp, page, ids, bp) \<leftarrow> store_tmp page ids old t (db_bpm s);
         let s = s\<lparr>db_bpm := bp\<rparr>;
         h \<leftarrow> key t;
         let jht = (case h of None \<Rightarrow> jht | Some h \<Rightarrow> JHT_Insert h tmp jht);
         build_loop nx key page ids tmp jht c s } }"

definition FetchTupleFromTmpTuplePage :: "tuple \<Rightarrow> TmpTuple \<Rightarrow> db \<Rightarrow> (tuple \<times> db) option" where
  "FetchTupleFromTmpTuplePage t tmp s = do {
     (f, bp) \<leftarrow> FetchPage (tt_page_id tmp) (db_bpm s);
     f \<leftarrow> f;
     d \<leftarrow> frame_data f bp;
     t \<leftarrow> Tmp_Get t (tt_offset tmp) d;
     (_, bp) \<leftarrow> UnpinPage (tt_page_id tmp) False bp;
     Some (t, s\<lparr>db_bpm := bp\<rparr>) }"

text \<open>The loop that moves to the next right tuple: \<open>None\<close> in its result is the end of the join with the result given.\<close>

fun delete_pages :: "pageID list \<Rightarrow> BufferPool \<Rightarrow> BufferPool option" where
  "delete_pages [] bp = Some bp"
| "delete_pages (p # ps) bp = do { (_, bp) \<leftarrow> DeletePage p bp; delete_pages ps bp }"

partial_function (option) advance_right :: "('c \<Rightarrow> db \<Rightarrow> (next_result \<times> 'c \<times> db) option) \<Rightarrow> (tuple \<Rightarrow> u32 option option) \<Rightarrow> join_state \<Rightarrow> 'c \<Rightarrow> db \<Rightarrow>
    (next_result option \<times> join_state \<times> 'c \<times> db) option" where
  "advance_right nx key j c s =
     (if j_index j \<noteq> length (j_tmp_tuples j) then Some (None, j, c, s)
      else do {
        let j = j\<lparr>j_tmp_tuples := [], j_index := 0\<rparr>;
        ((t, done, _), c, s) \<leftarrow> nx c s;
        if done then (case t of
            None \<Rightarrow> Some (Some (None, False, True), j, c, s)
          | Some t \<Rightarrow> do { bp \<leftarrow> delete_pages (j_tmp_page_ids j) (db_bpm s); Some (Some (Some t, True, False), j, c, s\<lparr>db_bpm := bp\<rparr>) })
        else do {
          t \<leftarrow> t;
          let j = j\<lparr>j_right_tuple := t\<rparr>;
          h \<leftarrow> key t;
          case h of
            None \<Rightarrow> advance_right nx key j c s
          | Some h \<Rightarrow> advance_right nx key (j\<lparr>j_tmp_tuples := j_jht j h\<rparr>) c s } })"

text \<open>From the current left tuple to the first that satisfies the predicate with the right one.\<close>

partial_function (option) find_match :: "(tuple \<Rightarrow> tuple \<Rightarrow> bool option) \<Rightarrow> tuple \<Rightarrow> join_state \<Rightarrow> db \<Rightarrow> (tuple \<times> join_state \<times> db) option" where
  "find_match valid left j s = do {
     b \<leftarrow> valid left (j_right_tuple j);
     if b then Some (left, j, s)
     else do {
       let j = j\<lparr>j_index := j_index j + 1\<rparr>;
       if j_index j = length (j_tmp_tuples j) then Some (left, j, s)
       else do {
         tmp \<leftarrow> go_nth (j_tmp_tuples j) (j_index j);
         (left, s) \<leftarrow> FetchTupleFromTmpTuplePage left tmp s;
         find_match valid left j s } } }"

partial_function (option) HashJoin_Next :: "('c \<Rightarrow> db \<Rightarrow> (next_result \<times> 'c \<times> db) option) \<Rightarrow> (tuple \<Rightarrow> u32 option option) \<Rightarrow>
    (tuple \<Rightarrow> tuple \<Rightarrow> bool option) \<Rightarrow> (Expression list \<Rightarrow> tuple \<Rightarrow> tuple \<Rightarrow> tuple option) \<Rightarrow> join_state \<Rightarrow> 'c \<Rightarrow> db \<Rightarrow> (next_result \<times> join_state \<times> 'c \<times> db) option" where
  "HashJoin_Next nx key valid mk_tuple j c s = do {
     (ended, j, c, s) \<leftarrow> advance_right nx key j c s;
     case ended of
       Some r \<Rightarrow> Some (r, j, c, s)
     | None \<Rightarrow> do {
         tmp \<leftarrow> go_nth (j_tmp_tuples j) (j_index j);
         (left, s) \<leftarrow> FetchTupleFromTmpTuplePage tuple_zero tmp s;
         (left, j, s) \<leftarrow> find_match valid left j s;
         if j_index j < length (j_tmp_tuples j) then do {
           t \<leftarrow> mk_tuple (j_output_exprs j) left (j_right_tuple j);
           Some ((Some t, False, False), j\<lparr>j_index := j_index j + 1\<rparr>, c, s) }
         else HashJoin_Next nx key valid mk_tuple j c s } }"

definition join_key :: "ExecEnv \<Rightarrow> Expression option \<Rightarrow> schema option \<Rightarrow> tuple \<Rightarrow> u32 option option" where
  "join_key env expr sch t = do {
     e \<leftarrow> expr;
     v \<leftarrow> Evaluate e (Some t) sch;
     if isNull v then Some None else do { h \<leftarrow> HashValue (env_murmur3 env) v; Some (Some h) } }"

definition IsValidCombination :: "Expression \<Rightarrow> schema option \<Rightarrow> schema option \<Rightarrow> tuple \<Rightarrow> tuple \<Rightarrow> bool option" where
  "IsValidCombination predicate ls rs left right = do {
     v \<leftarrow> EvaluateJoin predicate left ls right rs;
     ToBoolean v }"

definition MakeOutputTuple :: "schema \<Rightarrow> schema option \<Rightarrow> schema option \<Rightarrow> Expression list \<Rightarrow> tuple \<Rightarrow> tuple \<Rightarrow> tuple option" where
  "MakeOutputTuple out ls rs exprs left right = do {
     values \<leftarrow> map_option_list (\<lambda>e. EvaluateJoin e left ls right rs) exprs;
     NewTupleFromSchema values out }"

text \<open>\<^verbatim>\<open>Predicate().GetChildAt(i)\<close> for 0 and 1.  A missing child is nil, a panic when it is evaluated.\<close>

definition join_sides :: "Expression \<Rightarrow> Expression option \<times> Expression option" where
  "join_sides e = (case e of
     Comparison l r _ \<Rightarrow> (Some l, Some r)
   | LogicalOp l r _ \<Rightarrow> (Some l, r)
   | _ \<Rightarrow> (None, None))"

definition HashJoin_Init :: "ExecEnv \<Rightarrow> (db \<Rightarrow> ('l \<times> db) option) \<Rightarrow> (db \<Rightarrow> ('r \<times> db) option) \<Rightarrow> ('l \<Rightarrow> db \<Rightarrow> (next_result \<times> 'l \<times> db) option) \<Rightarrow>
    schema option \<Rightarrow> schema option \<Rightarrow> schema \<Rightarrow> Expression \<Rightarrow> db \<Rightarrow> (join_state \<times> 'l \<times> 'r \<times> db) option" where
  "HashJoin_Init env left_init right_init left_next ls rs out predicate s = do {
     exprs \<leftarrow> output_exprs out ls rs;
     (l, s) \<leftarrow> left_init s;
     (r, s) \<leftarrow> right_init s;
     let (left_expr, _) = join_sides predicate;
     (jht, ids, l, s) \<leftarrow> build_loop left_next (join_key env left_expr ls) None [] \<lparr>tt_page_id = 0, tt_offset = 0\<rparr> (\<lambda>_. []) l s;
     Some (\<lparr>j_jht = jht, j_tmp_tuples = [], j_index = 0, j_output_exprs = exprs, j_tmp_page_ids = ids, j_right_tuple = tuple_zero\<rparr>, l, r, s) }"

subsection \<open>The limit executor\<close>

definition Limit_Next :: "u32 \<Rightarrow> u32 \<Rightarrow> next_result \<Rightarrow> u32 \<times> u32 \<Rightarrow> next_result \<times> u32 \<times> u32" where
  "Limit_Next limit offset child_result counts = (case child_result of (t, done, err) \<Rightarrow> case counts of (emitted, skipped) \<Rightarrow>
     if err then ((None, done, True), emitted, skipped)
     else if t = None then ((None, True, True), emitted, skipped)
     else if skipped < offset then ((None, False, False), emitted, skipped + 1)
     else if emitted + 1 > limit then ((None, True, False), emitted + 1, skipped)
     else ((t, False, False), emitted + 1, skipped))"

subsection \<open>The tree of executors and the engine\<close>

datatype exec_state =
    Iterating "tuple option"
  | Found "tuple list"
  | Inserting
  | Limiting exec_state "u32 \<times> u32"
  | Sorted exec_state "tuple list" nat
  | Grouped exec_state "Expression list" "(sql_value list option \<times> sql_value list option) list"
  | Joining exec_state exec_state join_state

primrec Exec_Next :: "Plan \<Rightarrow> ExecEnv \<Rightarrow> exec_state \<Rightarrow> db \<Rightarrow> (next_result \<times> exec_state \<times> db) option" where
  "Exec_Next (SeqScanPlanNode out predicate oid) env st s = (case st of Iterating cur \<Rightarrow> do {
     tm \<leftarrow> GetTableByOID (env_catalog env) oid;
     (r, cur, s) \<leftarrow> SeqScan_Next (env_logging env) tm out predicate cur s;
     Some (r, Iterating cur, s) } | _ \<Rightarrow> None)"
| "Exec_Next (HashScanIndexPlanNode out predicate oid) env st s = (case st of Found ts \<Rightarrow> do {
     tm \<leftarrow> GetTableByOID (env_catalog env) oid;
     (r, ts) \<leftarrow> HashScan_Next tm out ts;
     Some (r, Found ts, s) } | _ \<Rightarrow> None)"
| "Exec_Next (InsertPlanNode rows oid) env st s = do {
     tm \<leftarrow> GetTableByOID (env_catalog env) oid;
     (r, s) \<leftarrow> Insert_Next env tm rows s;
     Some (r, Inserting, s) }"
| "Exec_Next (DeletePlanNode predicate oid) env st s = (case st of Iterating cur \<Rightarrow> do {
     tm \<leftarrow> GetTableByOID (env_catalog env) oid;
     (r, cur, s) \<leftarrow> Delete_Next env tm predicate cur s;
     Some (r, Iterating cur, s) } | _ \<Rightarrow> None)"
| "Exec_Next (UpdatePlanNode vals idxs predicate oid) env st s = (case st of Iterating cur \<Rightarrow> do {
     tm \<leftarrow> GetTableByOID (env_catalog env) oid;
     (r, cur, s) \<leftarrow> Update_Next env tm vals idxs predicate cur s;
     Some (r, Iterating cur, s) } | _ \<Rightarrow> None)"
| "Exec_Next (LimitPlanNode child limit offset) env st s = (case st of Limiting c counts \<Rightarrow> do {
     (r, c, s) \<leftarrow> Exec_Next child env c s;
     let (r, counts) = Limit_Next limit offset r counts;
     Some (r, Limiting c counts, s) } | _ \<Rightarrow> None)"
| "Exec_Next (OrderbyPlanNode sch child col_idxs types) env st s = (case st of Sorted c ts i \<Rightarrow> do {
     let (r, i) = Orderby_Next ts i;
     Some (r, Sorted c ts i, s) } | _ \<Rightarrow> None)"
| "Exec_Next (AggregationPlanNode out child having group_bys aggregates agg_types) env st s = (case st of Grouped c exprs it \<Rightarrow> do {
     (r, it) \<leftarrow> Aggregation_Next out having exprs it;
     Some (r, Grouped c exprs it, s) } | _ \<Rightarrow> None)"
| "Exec_Next (HashJoinPlanNode out left right predicate) env st s = (case st of Joining l r j \<Rightarrow> do {
     let (_, right_expr) = join_sides predicate;
     (res, j, r, s) \<leftarrow> HashJoin_Next (Exec_Next right env) (join_key env right_expr (OutputSchema right))
       (IsValidCombination predicate (OutputSchema left) (OutputSchema right)) (MakeOutputTuple out (OutputSchema left) (OutputSchema right)) j r s;
     Some (res, Joining l r j, s) } | _ \<Rightarrow> None)"

primrec Exec_Init :: "Plan \<Rightarrow> ExecEnv \<Rightarrow> db \<Rightarrow> (exec_state \<times> db) option" where
  "Exec_Init (SeqScanPlanNode out predicate oid) env s = do {
     tm \<leftarrow> GetTableByOID (env_catalog env) oid;
     (cur, s) \<leftarrow> Scan_Init env tm s;
     Some (Iterating cur, s) }"
| "Exec_Init (HashScanIndexPlanNode out predicate oid) env s = do {
     tm \<leftarrow> GetTableByOID (env_catalog env) oid;
     (ts, s) \<leftarrow> HashScan_Init env tm predicate s;
     Some (Found ts, s) }"
| "Exec_Init (InsertPlanNode rows oid) env s = Some (Inserting, s)"
| "Exec_Init (DeletePlanNode predicate oid) env s = do {
     tm \<leftarrow> GetTableByOID (env_catalog env) oid;
     (cur, s) \<leftarrow> Scan_Init env tm s;
     Some (Iterating cur, s) }"
| "Exec_Init (UpdatePlanNode vals idxs predicate oid) env s = do {
     tm \<leftarrow> GetTableByOID (env_catalog env) oid;
     (cur, s) \<leftarrow> Scan_Init env tm s;
     Some (Iterating cur, s) }"
| "Exec_Init (LimitPlanNode child limit offset) env s = do {
     (c, s) \<leftarrow> Exec_Init child env s;
     Some (Limiting c (0, 0), s) }"
| "Exec_Init (OrderbyPlanNode sch child col_idxs types) env s = do {
     (c, s) \<leftarrow> Exec_Init child env s;
     (ts, c, s) \<leftarrow> Orderby_Init env (Exec_Next child env) (OutputSchema child) col_idxs types c s;
     Some (Sorted c ts 0, s) }"
| "Exec_Init (AggregationPlanNode out child having group_bys aggregates agg_types) env s = do {
     (c, s) \<leftarrow> Exec_Init child env s;
     (exprs, it, c, s) \<leftarrow> Aggregation_Init env (Exec_Next child env) (OutputSchema child) out group_bys aggregates agg_types c s;
     Some (Grouped c exprs it, s) }"
| "Exec_Init (HashJoinPlanNode out left right predicate) env s = do {
     (j, l, r, s) \<leftarrow> HashJoin_Init env (Exec_Init left env) (Exec_Init right env) (Exec_Next left env) (OutputSchema left) (OutputSchema right) out predicate s;
     Some (Joining l r j, s) }"

text \<open>The loop of the engine.\<close>

partial_function (option) run_executor :: "('c \<Rightarrow> 's \<Rightarrow> (next_result \<times> 'c \<times> 's) option) \<Rightarrow> tuple list \<Rightarrow> 'c \<Rightarrow> 's \<Rightarrow> (tuple list \<times> 's) option" where
  "run_executor nx tuples c s = do {
     ((t, done, err), c, s) \<leftarrow> nx c s;
     if err \<or> done then Some (tuples, s)
     else run_executor nx (case t of Some t \<Rightarrow> tuples @ [t] | None \<Rightarrow> tuples) c s }"

definition Execute :: "ExecEnv \<Rightarrow> Plan \<Rightarrow> db \<Rightarrow> (tuple list \<times> db) option" where
  "Execute env plan s = do {
     (c, s) \<leftarrow> Exec_Init plan env s;
     run_executor (Exec_Next plan env) [] c s }"

end
