(* ===== verification/Executors_Laws.thy ===== *)
theory Executors_Laws
  imports Executors Table_Heap_Spec
begin

text \<open>
  The contract of an executor: called again and again, \<open>Next\<close> gives the tuples of a list one by one and then the end
  (\<open>tuple_stream\<close>), possibly without changing the database on the way (\<open>tuple_source\<close>).  The operators on top of a child,
  the engine among them, are proved once for any of these; the scan of a table is a source.
\<close>

subsection \<open>The contract\<close>

text \<open>Giving a list of tuples to a fallible operation one after the other.\<close>

fun put_all :: "(tuple \<Rightarrow> 'h \<Rightarrow> 'h option) \<Rightarrow> tuple list \<Rightarrow> 'h \<Rightarrow> 'h option" where
  "put_all put [] h = Some h"
| "put_all put (t # ts) h = do { h \<leftarrow> put t h; put_all put ts h }"

text \<open>\<open>src ts c s\<close>: executor state \<open>c\<close> in database state \<open>s\<close> still has to give the tuples \<open>ts\<close>.  \<open>keep\<close> holds of the database state at the end.\<close>

locale tuple_stream =
  fixes nx :: "'c \<Rightarrow> 's \<Rightarrow> (next_result \<times> 'c \<times> 's) option"
    and src :: "tuple list \<Rightarrow> 'c \<Rightarrow> 's \<Rightarrow> bool"
    and keep :: "'s \<Rightarrow> bool"
  assumes src_Nil: "src [] c s \<Longrightarrow> \<exists>c' s'. nx c s = Some ((None, True, False), c', s') \<and> keep s'"
    and src_Cons: "src (t # ts) c s \<Longrightarrow> \<exists>c' s'. nx c s = Some ((Some t, False, False), c', s') \<and> src ts c' s'"
begin

lemma run_executor_src: "src ts c s \<Longrightarrow> \<exists>s'. run_executor nx acc c s = Some (acc @ ts, s') \<and> keep s'"
proof (induction ts arbitrary: acc c s)
  case Nil
  then show ?case using src_Nil [OF Nil] by (subst run_executor.simps) auto
next
  case (Cons t ts)
  obtain c' s' where n: "nx c s = Some ((Some t, False, False), c', s')" "src ts c' s'" using src_Cons [OF Cons.prems] by blast
  obtain s'' where "run_executor nx (acc @ [t]) c' s' = Some ((acc @ [t]) @ ts, s'')" "keep s''" using Cons.IH [OF n(2)] by blast
  then show ?case using n(1) by (subst run_executor.simps) simp
qed

text \<open>The loop of ORDER BY collects the tuples and numbers their rows.\<close>

lemma orderby_loop_src:
  "src us c s \<Longrightarrow> (\<And>u. u \<in> set us \<Longrightarrow> map_option_list (\<lambda>i. column_of (Some u) sch (word_of_int i)) idxs = Some (key u)) \<Longrightarrow>
   \<exists>c' s'. orderby_loop nx sch idxs ts rows n c s =
     Some (ts @ us, rows @ map (\<lambda>(i, u). key u @ [NewInteger (n + of_nat i)]) (enumerate 0 us), c', s') \<and> keep s'"
proof (induction us arbitrary: ts rows n c s)
  case Nil
  then show ?case using src_Nil [OF Nil(1)] by (subst orderby_loop.simps) auto
next
  case (Cons u us)
  obtain c1 s1 where n: "nx c s = Some ((Some u, False, False), c1, s1)" "src us c1 s1" using src_Cons [OF Cons.prems(1)] by blast
  have e: "map (\<lambda>(i, u). key u @ [NewInteger (n + of_nat i)]) (enumerate 0 (u # us)) =
      (key u @ [NewInteger n]) # map (\<lambda>(i, u). key u @ [NewInteger (n + 1 + of_nat i)]) (enumerate 0 us)"
    by (simp add: enumerate_Suc_eq add.assoc add.commute [of 1] split_def)
  obtain c' s' where "orderby_loop nx sch idxs (ts @ [u]) (rows @ [key u @ [NewInteger n]]) (n + 1) c1 s1 =
      Some ((ts @ [u]) @ us, (rows @ [key u @ [NewInteger n]]) @ map (\<lambda>(i, u). key u @ [NewInteger (n + 1 + of_nat i)]) (enumerate 0 us), c', s')" "keep s'"
    using Cons.IH [OF n(2)] Cons.prems(2) by (metis list.set_intros(2))
  then show ?case using n(1) Cons.prems(2) [of u] e by (subst orderby_loop.simps) simp
qed

text \<open>The loop of an aggregation puts every tuple into the table.\<close>

lemma aggregate_loop_src:
  "src ts c s \<Longrightarrow> put_all put ts h = Some h' \<Longrightarrow> \<exists>c' s'. aggregate_loop nx put h c s = Some (h', c', s') \<and> keep s'"
proof (induction ts arbitrary: h c s)
  case Nil
  then show ?case using src_Nil [OF Nil(1)] by (subst aggregate_loop.simps) auto
next
  case (Cons t ts)
  obtain c1 s1 where n: "nx c s = Some ((Some t, False, False), c1, s1)" "src ts c1 s1" using src_Cons [OF Cons.prems(1)] by blast
  obtain h1 where h1: "put t h = Some h1" "put_all put ts h1 = Some h'" using Cons.prems(2) by (auto simp: bind_Some_iff)
  show ?case using Cons.IH [OF n(2) h1(2)] n(1) h1(1) by (subst aggregate_loop.simps) simp
qed

end

text \<open>A source may be left before its end: \<open>keep\<close> holds of the database state at any time.\<close>

locale tuple_source = tuple_stream +
  assumes src_keep: "src ts c s \<Longrightarrow> keep s"
begin

text \<open>A limit with offset over the source.\<close>

lemma limit_src:
  assumes lx: "\<And>c counts s. lx (L c counts) s = do {
      (r, c, s) \<leftarrow> nx c s;
      let (r, counts) = Limit_Next limit offset r counts;
      Some (r, L c counts, s) }"
    and "src ts c s" and "unat skipped \<le> unat offset" and "unat emitted \<le> unat limit" and "unat limit < 4294967295"
  shows "\<exists>s'. run_executor lx acc (L c (emitted, skipped)) s =
    Some (acc @ take (unat limit - unat emitted) (drop (unat offset - unat skipped) ts), s') \<and> keep s'"
  using assms(2-)
proof (induction ts arbitrary: acc c s emitted skipped)
  case Nil
  obtain c' s' where "nx c s = Some ((None, True, False), c', s')" "keep s'" using src_Nil [OF Nil.prems(1)] by blast
  then show ?case by (subst run_executor.simps) (simp add: lx Limit_Next_def)
next
  case (Cons t ts)
  obtain c' s' where n: "nx c s = Some ((Some t, False, False), c', s')" "src ts c' s'" using src_Cons [OF Cons.prems(1)] by blast
  consider "unat skipped < unat offset" | "unat skipped = unat offset" "unat emitted = unat limit" | "unat skipped = unat offset" "unat emitted < unat limit"
    using Cons.prems(2,3) by linarith
  then show ?case
  proof cases
    case 1
    have u: "unat (skipped + 1) = Suc (unat skipped)" using 1 unat_less_2p32 [of offset] by (simp add: unat_word_ariths)
    obtain s'' where "run_executor lx acc (L c' (emitted, skipped + 1)) s' =
        Some (acc @ take (unat limit - unat emitted) (drop (unat offset - Suc (unat skipped)) ts), s'')" "keep s''"
      using Cons.IH [OF n(2), of "skipped + 1" emitted acc] Cons.prems(3,4) 1 u by auto
    moreover have "drop (unat offset - unat skipped) (t # ts) = drop (unat offset - Suc (unat skipped)) ts" using 1 by (simp add: drop_Cons')
    ultimately show ?thesis using n(1) 1
      by (subst run_executor.simps) (simp add: lx Limit_Next_def word_less_nat_alt)
  next
    case 2
    have "unat (emitted + 1) = Suc (unat emitted)" using 2 Cons.prems(4) by (simp add: unat_word_ariths)
    then have r: "lx (L c (emitted, skipped)) s = Some ((None, True, False), L c' (emitted + 1, skipped), s')"
      using 2 n(1) by (simp add: lx Limit_Next_def word_less_nat_alt)
    show ?thesis using 2 src_keep [OF n(2)] r by (subst run_executor.simps) simp
  next
    case 3
    have u: "unat (emitted + 1) = Suc (unat emitted)" using 3 Cons.prems(4) by (simp add: unat_word_ariths)
    have r: "lx (L c (emitted, skipped)) s = Some ((Some t, False, False), L c' (emitted + 1, skipped), s')"
      using 3 n(1) u by (simp add: lx Limit_Next_def word_less_nat_alt)
    obtain s'' where "run_executor lx (acc @ [t]) (L c' (emitted + 1, skipped)) s' =
        Some ((acc @ [t]) @ take (unat limit - Suc (unat emitted)) ts, s'')" "keep s''"
      using Cons.IH [OF n(2), of skipped "emitted + 1" "acc @ [t]"] Cons.prems(2,4) 3 u by auto
    moreover have "take (unat limit - unat emitted) (t # ts) = t # take (unat limit - Suc (unat emitted)) ts" using 3 by (simp add: take_Cons')
    ultimately show ?thesis using r 3 by (subst run_executor.simps) simp
  qed
qed

end

subsection \<open>The scan of a table\<close>

text \<open>Reading changes no page, no exclusive lock and neither the id nor the write set of the transaction; the pool keeps \<open>nf\<close> frames for its clients.\<close>

definition reads :: "nat \<Rightarrow> db \<Rightarrow> db \<Rightarrow> bool" where
  "reads nf s s' \<longleftrightarrow> pool_ok {} nf (db_bpm s') \<and> locks_in_sync (Some (db_ctx s')) \<and> same_view (db_view s) (db_view s') \<and>
     exclusive_lock_table (db_locks s') = exclusive_lock_table (db_locks s) \<and> txn_id (db_txn s') = txn_id (db_txn s) \<and>
     write_set (db_txn s') = write_set (db_txn s)"

lemma reads_heap:
  assumes "reads nf s s'" and "heap_ok nf ps s"
  shows "heap_ok nf ps s'" "tbl ps s' = tbl ps s" "readable ps s \<Longrightarrow> readable ps s'" "table_rids (db_view s') ps = table_rids (db_view s) ps"
proof -
  have ch: "page_chain (db_view s) ps" using assms(2) by (simp add: heap_ok_def)
  have sv: "same_view (db_view s) (db_view s')" using assms(1) by (simp add: reads_def)
  show "heap_ok nf ps s'" using assms chain_same(1) [OF ch sv] by (simp add: heap_ok_def reads_def)
  show t: "tbl ps s' = tbl ps s" by (rule chain_same(2) [OF ch sv])
  show "readable ps s \<Longrightarrow> readable ps s'" using readable_same [OF _ t] assms(1) by (simp add: reads_def)
  show "table_rids (db_view s') ps = table_rids (db_view s) ps" by (rule table_rids_same [OF ch sv]) simp
qed

lemma reads_trans: "reads nf s s1 \<Longrightarrow> reads nf s1 s2 \<Longrightarrow> reads nf s s2"
  using same_view_trans by (auto simp: reads_def)

lemma reads_refl: "heap_ok nf ps s \<Longrightarrow> reads nf s s"
  by (simp add: reads_def heap_ok_def same_view_refl)

text \<open>A record the iterator can read: not marked as deleted, and locked for writing by no other transaction.\<close>

definition live :: "pageID list \<Rightarrow> db \<Rightarrow> rid \<Rightarrow> bool" where
  "live ps s r \<longleftrightarrow> (\<exists>bs. tbl ps s r = Some (False, bs)) \<and> (\<forall>x. holds_exclusive (db_locks s) r x \<longrightarrow> x = txn_id (db_txn s))"

lemma readable_live: "readable ps s \<longleftrightarrow> (\<forall>r. tbl ps s r \<noteq> None \<longrightarrow> live ps s r)"
  by (auto simp: readable_def live_def)

text \<open>The iterator's current tuple is the first of the record ids \<open>rs\<close> that are left.\<close>

definition cursor :: "nat \<Rightarrow> pageID list \<Rightarrow> db \<Rightarrow> rid list \<Rightarrow> tuple option \<Rightarrow> db \<Rightarrow> bool" where
  "cursor nf ps s0 rs cur s \<longleftrightarrow> heap_ok nf ps s0 \<and> reads nf s0 s \<and> (\<forall>r \<in> set rs. live ps s0 r) \<and> (case rs of
     [] \<Rightarrow> cur = None
   | r # ys \<Rightarrow> cur = Some (tuple_of (tbl ps s0) r) \<and> (\<exists>i < length ps. PageId r = ps ! i \<and> rids_after (db_view s0) ps i r = ys))"

lemma rids_after_same:
  assumes "page_chain v ps" and "same_view v v'" and "i < length ps"
  shows "rids_after v' ps i r = rids_after v ps i r"
  unfolding rids_after_def using table_rids_same [OF assms(1,2), of "drop (Suc i) ps"] set_drop_subset [of "Suc i" ps]
    chain_same(3) [OF assms(1,2), of "ps ! i"] assms(3) by simp

lemma cursor_back:
  assumes rd: "reads nf s0 s" and ok: "heap_ok nf ps s0" and c: "cursor nf ps s rs cur s'"
  shows "cursor nf ps s0 rs cur s'"
proof -
  note H = reads_heap(2) [OF rd ok]
  have ch: "page_chain (db_view s0) ps" "same_view (db_view s0) (db_view s)" using ok rd by (simp_all add: heap_ok_def reads_def)
  have l: "live ps s r \<longleftrightarrow> live ps s0 r" for r using rd H by (simp add: live_def reads_def holds_exclusive_def)
  have "reads nf s0 s'" using c reads_trans [OF rd] by (auto simp: cursor_def)
  then show ?thesis using c ok rids_after_same [OF ch] H l by (auto simp: cursor_def split: list.splits)
qed

lemma next_from:
  assumes ok: "heap_ok nf ps s" and i: "i < length ps" "PageId r = ps ! i" and t: "t_rid t = Some r" "tbl ps s r \<noteq> None"
    and ys: "rids_after (db_view s) ps i r = ys" "\<forall>q \<in> set ys. live ps s q"
  shows "\<exists>nxt s'. it_Next logging t s = Some (nxt, s') \<and> cursor nf ps s ys nxt s'"
proof -
  have ch: "page_chain (db_view s) ps" using ok by (simp add: heap_ok_def)
  obtain res s' where n: "it_Next logging t s = Some (res, s')" "heap_ok nf ps s'" "same_view (db_view s) (db_view s')"
      "exclusive_lock_table (db_locks s') = exclusive_lock_table (db_locks s)"
      "txn_id (db_txn s') = txn_id (db_txn s) \<and> write_set (db_txn s') = write_set (db_txn s)"
      "case first_of ys of None \<Rightarrow> res = None
       | Some q \<Rightarrow> (case res of
           Some t' \<Rightarrow> \<exists>bs. tbl ps s q = Some (False, bs) \<and> t' = NewTuple (Some q) (of_nat (length bs)) bs
         | None \<Rightarrow> (\<exists>x. x \<noteq> txn_id (db_txn s) \<and> holds_exclusive (db_locks s) q x) \<or> (\<forall>bs. tbl ps s q \<noteq> Some (False, bs)))"
    using it_Next_spec [OF ok i t, of logging] unfolding ys(1) by blast
  have rd: "reads nf s s'" using n(2-5) by (simp add: reads_def heap_ok_def)
  show ?thesis
  proof (cases ys)
    case Nil
    then show ?thesis using n(1,6) ok rd by (simp add: cursor_def)
  next
    case (Cons q zs)
    obtain j where j: "j < length ps" "PageId q = ps ! j" "zs = rids_after (db_view s) ps j q"
      using rest_Cons [OF ch i(1), of "Suc (unat (SlotNum r))" q zs] ys(1) Cons by (auto simp: rids_after_def)
    have "live ps s q" using ys(2) Cons by simp
    then have "res = Some (tuple_of (tbl ps s) q)" using n(6) Cons by (auto simp: tuple_of_def live_def split: option.splits)
    then show ?thesis using n(1) ok rd ys(2) Cons j by (auto simp: cursor_def)
  qed
qed

lemma cursor_next:
  assumes c: "cursor nf ps s0 (r # ys) (Some t) s"
  shows "\<exists>nxt s'. it_Next logging t s = Some (nxt, s') \<and> cursor nf ps s0 ys nxt s'"
proof -
  obtain i where C: "heap_ok nf ps s0" "reads nf s0 s" "t = tuple_of (tbl ps s0) r" "i < length ps" "PageId r = ps ! i"
      "live ps s0 r" "rids_after (db_view s0) ps i r = ys" "\<forall>q \<in> set ys. live ps s0 q"
    using c by (auto simp: cursor_def)
  note H = reads_heap [OF C(2,1)]
  have ch0: "page_chain (db_view s0) ps" "same_view (db_view s0) (db_view s)" using C(1,2) by (simp_all add: heap_ok_def reads_def)
  have t: "t_rid t = Some r" by (simp add: C(3) tuple_of_def NewTuple_def Let_def)
  have af: "rids_after (db_view s) ps i r = ys" using rids_after_same [OF ch0 C(4)] C(7) by simp
  have P: "tbl ps s r \<noteq> None" using C(6) H(2) by (auto simp: live_def)
  have l: "\<forall>q \<in> set ys. live ps s q" using C(2,8) H(2) by (simp add: live_def reads_def holds_exclusive_def)
  show ?thesis using next_from [OF H(1) C(4,5) t P af l, of logging] cursor_back [OF C(2,1)] by blast
qed

lemma cursor_first:
  assumes ok: "heap_ok nf ps s" and rd: "readable ps s"
  shows "\<exists>cur s'. GetFirstTuple logging (hd ps) s = Some (cur, s') \<and> cursor nf ps s (table_rids (db_view s) ps) cur s'"
proof -
  let ?rs = "table_rids (db_view s) ps"
  have ch: "page_chain (db_view s) ps" using ok by (simp add: heap_ok_def)
  then have ne: "0 < length ps" "hd ps = ps ! 0" by (auto simp: page_chain_def hd_conv_nth)
  obtain s1 where s1: "first_rid_loop (hd ps) s = Some (first_of ?rs, s1)" "heap_ok nf ps s1" "same_view (db_view s) (db_view s1)" "db_txn s1 = db_txn s"
      "db_locks s1 = db_locks s"
    using first_rid_loop_spec [OF ok ne(1)] ne(2) by auto
  have r1: "reads nf s s1" using s1 by (simp add: reads_def heap_ok_def)
  show ?thesis
  proof (cases ?rs)
    case Nil
    then show ?thesis using s1(1) r1 ok rd by (simp add: GetFirstTuple_def cursor_def)
  next
    case (Cons r ys)
    have "page_rids (ps ! 0) (the (db_view s (ps ! 0))) 0 @ table_rids (db_view s) (drop (Suc 0) ps) = r # ys"
      using Cons table_rids_split [OF ne(1), of "db_view s"] by (simp add: table_rids_def)
    then obtain i where i: "i < length ps" "PageId r = ps ! i" "ys = rids_after (db_view s) ps i r" "tbl ps s r \<noteq> None"
      using rest_Cons [OF ch ne(1)] by blast
    note H = reads_heap [OF r1 ok]
    obtain s2 where g: "TH_GetTuple logging r s1 = Some (Some (tuple_of (tbl ps s1) r), s2)" "heap_ok nf ps s2" "same_view (db_view s1) (db_view s2)"
      using first_tuple [OF H(1) H(3) [OF rd], of r logging] i H(2) by auto
    have "reads nf s1 s2" using g TH_GetTuple_locks [OF g(1)] by (simp add: reads_def heap_ok_def)
    then have "reads nf s s2" using reads_trans [OF r1] by blast
    moreover have "\<forall>q \<in> set (r # ys). live ps s q" using rd table_rids_mem [OF ch] Cons unfolding readable_live by metis
    ultimately show ?thesis using s1(1) Cons g(1) H(2) ok i by (auto simp: GetFirstTuple_def cursor_def)
  qed
qed

text \<open>The rows of a scan: the tuples that satisfy the predicate, projected.  \<open>scan_total\<close>: none of these evaluations panics.\<close>

definition scan_total :: "schema \<Rightarrow> schema \<Rightarrow> Expression option \<Rightarrow> tuple list \<Rightarrow> bool" where
  "scan_total sch out predicate us \<longleftrightarrow> (\<forall>u \<in> set us. selects u predicate sch \<noteq> None \<and> (selects u predicate sch = Some True \<longrightarrow> projects u sch out \<noteq> None))"

definition scan_rows :: "schema \<Rightarrow> schema \<Rightarrow> Expression option \<Rightarrow> tuple list \<Rightarrow> tuple list" where
  "scan_rows sch out predicate us = map (\<lambda>u. the (projects u sch out)) (filter (\<lambda>u. selects u predicate sch = Some True) us)"

lemma find_selected_spec:
  assumes "cursor nf ps s0 rs cur s" and "\<forall>r \<in> set rs. selects (tuple_of (tbl ps s0) r) predicate sch \<noteq> None"
  shows "\<exists>cur' s'. find_selected logging predicate sch cur s = Some (cur', s') \<and>
    cursor nf ps s0 (dropWhile (\<lambda>r. selects (tuple_of (tbl ps s0) r) predicate sch \<noteq> Some True) rs) cur' s'"
  using assms
proof (induction rs arbitrary: cur s)
  case Nil
  then show ?case by (subst find_selected.simps) (simp add: cursor_def)
next
  case (Cons r rs)
  let ?t = "tuple_of (tbl ps s0) r"
  have cur: "cur = Some ?t" using Cons.prems(1) by (simp add: cursor_def)
  obtain b where b: "selects ?t predicate sch = Some b" using Cons.prems(2) by auto
  show ?case
  proof (cases b)
    case True
    then show ?thesis using b cur Cons.prems(1) by (subst find_selected.simps) simp
  next
    case False
    obtain nxt s1 where n: "it_Next logging ?t s = Some (nxt, s1)" "cursor nf ps s0 rs nxt s1" using cursor_next Cons.prems(1) cur by blast
    have "\<forall>r \<in> set rs. selects (tuple_of (tbl ps s0) r) predicate sch \<noteq> None" using Cons.prems(2) by simp
    then obtain cur' s' where "find_selected logging predicate sch nxt s1 = Some (cur', s')"
        "cursor nf ps s0 (dropWhile (\<lambda>r. selects (tuple_of (tbl ps s0) r) predicate sch \<noteq> Some True) rs) cur' s'"
      using Cons.IH [OF n(2)] by blast
    then show ?thesis using b False cur n(1) by (subst find_selected.simps) simp
  qed
qed

definition scan_src :: "ExecEnv \<Rightarrow> schema \<Rightarrow> Expression option \<Rightarrow> u32 \<Rightarrow> nat \<Rightarrow> pageID list \<Rightarrow> db \<Rightarrow> tuple list \<Rightarrow> exec_state \<Rightarrow> db \<Rightarrow> bool" where
  "scan_src env out predicate oid nf ps s0 ts c s \<longleftrightarrow> (\<exists>tm cur rs. GetTableByOID (env_catalog env) oid = Some tm \<and> c = Iterating cur \<and>
     cursor nf ps s0 rs cur s \<and> scan_total (tm_schema tm) out predicate (map (tuple_of (tbl ps s0)) rs) \<and>
     ts = scan_rows (tm_schema tm) out predicate (map (tuple_of (tbl ps s0)) rs))"

lemma scan_rows_dropWhile:
  "scan_rows sch out predicate (map f rs) = scan_rows sch out predicate (map f (dropWhile (\<lambda>r. selects (f r) predicate sch \<noteq> Some True) rs))"
  by (induction rs) (auto simp: scan_rows_def)

lemma scan_step:
  assumes "scan_src env out predicate oid nf ps s0 ts c s"
  obtains (stop) s' where "ts = []" "Exec_Next (SeqScanPlanNode out predicate oid) env c s = Some ((None, True, False), Iterating None, s')" "reads nf s0 s'"
    | (give) t ts' c' s' where "ts = t # ts'" "Exec_Next (SeqScanPlanNode out predicate oid) env c s = Some ((Some t, False, False), c', s')"
        "scan_src env out predicate oid nf ps s0 ts' c' s'"
proof -
  obtain tm cur rs where A: "GetTableByOID (env_catalog env) oid = Some tm" "c = Iterating cur" "cursor nf ps s0 rs cur s"
      "scan_total (tm_schema tm) out predicate (map (tuple_of (tbl ps s0)) rs)" "ts = scan_rows (tm_schema tm) out predicate (map (tuple_of (tbl ps s0)) rs)"
    using assms by (auto simp: scan_src_def)
  let ?sel = "\<lambda>r. selects (tuple_of (tbl ps s0) r) predicate (tm_schema tm) = Some True"
  let ?rs = "dropWhile (\<lambda>r. \<not> ?sel r) rs"
  have "\<forall>r \<in> set rs. selects (tuple_of (tbl ps s0) r) predicate (tm_schema tm) \<noteq> None" using A(4) by (simp add: scan_total_def)
  from find_selected_spec [OF A(3) this]
  obtain cur1 s1 where f: "find_selected (env_logging env) predicate (tm_schema tm) cur s = Some (cur1, s1)" "cursor nf ps s0 ?rs cur1 s1" by blast
  have ts: "ts = scan_rows (tm_schema tm) out predicate (map (tuple_of (tbl ps s0)) ?rs)" unfolding A(5) by (rule scan_rows_dropWhile)
  show thesis
  proof (cases ?rs)
    case Nil
    have "cursor nf ps s0 [] cur1 s1" using f(2) unfolding Nil .
    then have "cur1 = None" "reads nf s0 s1" by (simp_all add: cursor_def)
    moreover have "ts = []" using ts unfolding Nil by (simp add: scan_rows_def)
    ultimately show thesis using stop [of s1] f(1) A(1,2) by (simp add: SeqScan_Next_def)
  next
    case (Cons r ys)
    let ?t = "tuple_of (tbl ps s0) r"
    have sel: "?sel r" using hd_dropWhile [of "\<lambda>r. \<not> ?sel r" rs] Cons by auto
    have tot: "scan_total (tm_schema tm) out predicate (map (tuple_of (tbl ps s0)) (r # ys))"
      using A(4) set_dropWhileD [of _ "\<lambda>r. \<not> ?sel r" rs] unfolding scan_total_def Cons [symmetric] by auto
    then obtain x where x: "projects ?t (tm_schema tm) out = Some x" using sel by (auto simp: scan_total_def)
    have cur1: "cur1 = Some ?t" using f(2) Cons by (simp add: cursor_def)
    obtain nxt s2 where n: "it_Next (env_logging env) ?t s1 = Some (nxt, s2)" "cursor nf ps s0 ys nxt s2" using cursor_next f(2) Cons cur1 by metis
    let ?ts = "scan_rows (tm_schema tm) out predicate (map (tuple_of (tbl ps s0)) ys)"
    have "ts = x # ?ts" using ts Cons sel x by (simp add: scan_rows_def)
    moreover have "scan_src env out predicate oid nf ps s0 ?ts (Iterating nxt) s2" using A(1) n(2) tot by (auto simp: scan_src_def scan_total_def)
    moreover have "Exec_Next (SeqScanPlanNode out predicate oid) env c s = Some ((Some x, False, False), Iterating nxt, s2)"
      using A(1,2) f(1) cur1 x n(1) by (simp add: SeqScan_Next_def)
    ultimately show thesis using give by blast
  qed
qed

interpretation seq: tuple_source "Exec_Next (SeqScanPlanNode out predicate oid) env" "scan_src env out predicate oid nf ps s0" "reads nf s0"
proof
  show "\<exists>c' s'. Exec_Next (SeqScanPlanNode out predicate oid) env c s = Some ((None, True, False), c', s') \<and> reads nf s0 s'"
    if "scan_src env out predicate oid nf ps s0 [] c s" for c s
    using that by (rule scan_step) simp_all
  show "\<exists>c' s'. Exec_Next (SeqScanPlanNode out predicate oid) env c s = Some ((Some t, False, False), c', s') \<and> scan_src env out predicate oid nf ps s0 ts c' s'"
    if "scan_src env out predicate oid nf ps s0 (t # ts) c s" for t ts c s
    using that by (rule scan_step) simp_all
  show "reads nf s0 s" if "scan_src env out predicate oid nf ps s0 ts c s" for ts c s
    using that by (auto simp: scan_src_def cursor_def)
qed

lemma scan_init:
  assumes "heap_ok nf ps s" and "readable ps s" and "GetTableByOID (env_catalog env) oid = Some tm" and "tm_table tm = hd ps"
    and "scan_total (tm_schema tm) out predicate (map (tuple_of (tbl ps s)) (table_rids (db_view s) ps))"
  shows "\<exists>c s'. Exec_Init (SeqScanPlanNode out predicate oid) env s = Some (c, s') \<and>
    scan_src env out predicate oid nf ps s (scan_rows (tm_schema tm) out predicate (map (tuple_of (tbl ps s)) (table_rids (db_view s) ps))) c s'"
  using cursor_first [OF assms(1,2), of "env_logging env"] assms(3-5) by (auto simp: scan_src_def Scan_Init_def)

end
