(* ===== verification/Query_Spec.thy ===== *)
theory Query_Spec
  imports Executors_Laws "HOL-Library.Multiset"
begin

text \<open>
  Queries over rows of values.  The reference semantics evaluates expressions, selections and projections on lists of
  values; the executors, which work on the bytes of tuples in a table heap, implement it.  Well-typed expressions do not panic.
\<close>

subsection \<open>Rows\<close>

text \<open>A row that fits the columns and whose tuple has a size of 32 bits.\<close>

definition fits :: "column list \<Rightarrow> sql_value list \<Rightarrow> bool" where
  "fits cs vs \<longleftrightarrow> row_ok cs vs \<and> cells cs + vars cs vs < 2 ^ 32"

text \<open>The values of a tuple, read column by column.\<close>

definition decode_row :: "column list \<Rightarrow> tuple \<Rightarrow> sql_value list option" where
  "decode_row cs t = map_option_list (\<lambda>i. GetValue t (NewSchema cs) (of_nat i)) [0..<length cs]"

lemma map_option_list_Some: "map_option_list f xs = Some ys \<longleftrightarrow> list_all2 (\<lambda>x y. f x = Some y) xs ys"
  by (induction xs arbitrary: ys) (auto simp: bind_Some_iff list_all2_Cons1)

lemma decode_row_iff: "decode_row cs t = Some vs \<longleftrightarrow> length vs = length cs \<and> (\<forall>i < length cs. GetValue t (NewSchema cs) (of_nat i) = Some (vs ! i))"
  unfolding decode_row_def map_option_list_Some by (auto simp: list_all2_conv_all_nth)

lemma fits_lengths:
  assumes "fits cs vs"
  shows "length vs = length cs" "list_all wf_column cs" "length cs < 2 ^ 32"
proof -
  show l: "length vs = length cs" using assms by (auto simp: fits_def row_ok_def dest: list_all2_lengthD)
  show w: "list_all wf_column cs" using assms by (auto simp: fits_def row_ok_def list_all2_conv_all_nth list_all_length)
  show "length cs < 2 ^ 32" using cells_ge_length [OF w] assms by (simp add: fits_def)
qed

lemma row_tuple:
  assumes "fits cs vs"
  obtains t where "NewTupleFromSchema vs (NewSchema cs) = Some t" "wf_tuple t" "length (t_data t) = cells cs + vars cs vs" "decode_row cs t = Some vs"
proof -
  have "row_ok cs vs" "cells cs + vars cs vs < 2 ^ 32" using assms by (simp_all add: fits_def)
  from Tuple_roundtrip_aux [OF this] obtain t where "NewTupleFromSchema vs (NewSchema cs) = Some t" "unat (t_size t) = length (t_data t)"
      "length (t_data t) = cells cs + vars cs vs" "\<forall>i < length cs. GetValue t (NewSchema cs) (of_nat i) = Some (vs ! i)" by blast
  then show thesis using that fits_lengths [OF assms] by (simp add: decode_row_iff wf_tuple_def)
qed

text \<open>Reading a value looks at the bytes of a tuple only.\<close>

lemma GetValue_bytes: "t_data t = t_data t' \<Longrightarrow> GetValue t s i = GetValue t' s i"
  unfolding GetValue_def value_offset_def by (simp only: )

lemma decode_row_bytes: "t_data t = t_data t' \<Longrightarrow> decode_row cs t = decode_row cs t'"
  by (simp only: decode_row_def GetValue_bytes [of t t'])

subsection \<open>Typed expressions\<close>

fun expr_type :: "type_id list \<Rightarrow> Expression \<Rightarrow> type_id option" where
  "expr_type ts (ColumnValue _ i) = go_nth ts (unat i)"
| "expr_type ts (ConstantValue v) = (if wf_value v then Some (valueType v) else None)"
| "expr_type ts (AggregateValueExpression _ _) = None"
| "expr_type ts (Comparison l r ct) =
     (if expr_type ts l \<noteq> None \<and> expr_type ts l = expr_type ts r \<and> (case ct of OtherComparison _ \<Rightarrow> False | _ \<Rightarrow> True) then Some Boolean else None)"
| "expr_type ts (LogicalOp l r ty) =
     (if expr_type ts l = Some Boolean \<and> (case ty of NOT_op \<Rightarrow> True | OtherOp _ \<Rightarrow> False
          | _ \<Rightarrow> (case r of None \<Rightarrow> False | Some r \<Rightarrow> expr_type ts r = Some Boolean)) then Some Boolean else None)"

text \<open>The value of an expression on a row of values.\<close>

definition row_value :: "sql_value list \<Rightarrow> Expression \<Rightarrow> sql_value option" where
  "row_value vs e = eval (\<lambda>e. case e of ColumnValue _ i \<Rightarrow> go_nth vs (unat i) | ConstantValue v \<Rightarrow> Some v | _ \<Rightarrow> None) e"

lemma wf_NewBoolean [simp]: "wf_value (NewBoolean b)" "valueType (NewBoolean b) = Boolean"
  by (simp_all add: wf_value_def NewBoolean_def)

lemma wf_Boolean: "wf_value v \<Longrightarrow> valueType v = Boolean \<Longrightarrow> \<exists>b. ToBoolean v = Some b"
  by (auto simp: wf_value_def ToBoolean_def)

lemma comparison_total:
  assumes "wf_value v" "wf_value r" "valueType v = valueType r" "\<And>n. ct \<noteq> OtherComparison n"
  shows "\<exists>b. performComparison ct v r = Some b"
  using assms(1)
proof (cases rule: wf_value_cases)
  case (Integer x n)
  with assms(2,3) obtain y m where "r = (NewInteger y)\<lparr>isNull := m\<rparr>" by (cases rule: wf_value_cases) (auto simp: value_defs)
  with Integer assms(4) show ?thesis by (cases ct) (auto simp: performComparison_def compare_defs value_defs)
next
  case (Float x n)
  with assms(2,3) obtain y m where "r = (NewFloat y)\<lparr>isNull := m\<rparr>" by (cases rule: wf_value_cases) (auto simp: value_defs)
  with Float assms(4) show ?thesis by (cases ct) (auto simp: performComparison_def compare_defs value_defs)
next
  case (Varchar x n)
  with assms(2,3) obtain y m where "r = (NewVarchar y)\<lparr>isNull := m\<rparr>" by (cases rule: wf_value_cases) (auto simp: value_defs)
  with Varchar assms(4) show ?thesis by (cases ct) (auto simp: performComparison_def compare_defs value_defs)
next
  case (Boolean x n)
  with assms(2,3) obtain y m where "r = (NewBoolean y)\<lparr>isNull := m\<rparr>" by (cases rule: wf_value_cases) (auto simp: value_defs)
  with Boolean assms(4) show ?thesis by (cases ct) (auto simp: performComparison_def compare_defs value_defs)
qed

lemma eval_typed:
  assumes leaf: "\<And>e ty. expr_type ts e = Some ty \<Longrightarrow> (\<exists>j i. e = ColumnValue j i) \<or> (\<exists>v. e = ConstantValue v) \<Longrightarrow>
      \<exists>v. leaf e = Some v \<and> wf_value v \<and> valueType v = ty"
  shows "expr_type ts e = Some ty \<Longrightarrow> \<exists>v. eval leaf e = Some v \<and> wf_value v \<and> valueType v = ty"
proof (induction e arbitrary: ty)
  case (ColumnValue j i)
  then show ?case using leaf [of "ColumnValue j i" ty] by simp
next
  case (ConstantValue v)
  then show ?case using leaf [of "ConstantValue v" ty] by simp
next
  case (AggregateValueExpression g i)
  then show ?case by simp
next
  case (Comparison l r ct)
  obtain a where a: "expr_type ts l = Some a" "expr_type ts r = Some a" "ty = Boolean" "\<And>n. ct \<noteq> OtherComparison n"
    using Comparison.prems by (cases "expr_type ts l"; cases ct) (auto split: if_splits)
  obtain v w where e: "eval leaf l = Some v" "eval leaf r = Some w" "wf_value v" "wf_value w" "valueType v = a" "valueType w = a"
    using Comparison.IH(1) [OF a(1)] Comparison.IH(2) [OF a(2)] by blast
  obtain b where "performComparison ct v w = Some b" using comparison_total [OF e(3,4) _ a(4)] e(5,6) by auto
  then show ?case using a(3) e(1,2) by simp
next
  case (LogicalOp l r lo)
  have t: "expr_type ts l = Some Boolean" "ty = Boolean" using LogicalOp.prems by (auto split: if_splits)
  obtain v a where v: "eval leaf l = Some v" "ToBoolean v = Some a" using LogicalOp.IH(1) [OF t(1)] wf_Boolean by blast
  show ?case
  proof (cases "lo = NOT_op")
    case True
    then show ?thesis using v t(2) by simp
  next
    case False
    obtain r' where r: "r = Some r'" "expr_type ts r' = Some Boolean" "lo = AND_op \<or> lo = OR_op"
      using LogicalOp.prems False by (cases lo; cases r) (auto split: if_splits)
    have "\<exists>w. eval leaf r' = Some w \<and> wf_value w \<and> valueType w = Boolean" using LogicalOp.IH(2) [of r' Boolean] r(1,2) by simp
    then obtain w b where w: "eval leaf r' = Some w" "ToBoolean w = Some b" using wf_Boolean by blast
    then show ?thesis using v r(1,3) t(2) by (auto simp: performLogicalOp_def)
  qed
qed

lemma eval_cong:
  assumes "\<And>j i. leaf (ColumnValue j i) = leaf' (ColumnValue j i)" "\<And>v. leaf (ConstantValue v) = leaf' (ConstantValue v)"
    "\<And>g i. leaf (AggregateValueExpression g i) = leaf' (AggregateValueExpression g i)"
  shows "eval leaf e = eval leaf' e"
proof (induction e)
  case (LogicalOp l r lo)
  then show ?case by (cases r) simp_all
qed (use assms in simp_all)

text \<open>On a tuple that holds the row, the program's evaluation is the one on values.\<close>

lemma Evaluate_row:
  assumes "decode_row cs t = Some vs" and "length cs < 2 ^ 32"
  shows "Evaluate e (Some t) (Some (NewSchema cs)) = row_value vs e"
  unfolding Evaluate_def row_value_def
proof (rule eval_cong)
  fix j i
  have "column_of (Some t) (Some (NewSchema cs)) i = go_nth vs (unat i)"
  proof (cases "unat i < length cs")
    case True
    then have "GetValue t (NewSchema cs) (of_nat (unat i)) = Some (vs ! unat i)" using assms(1) unfolding decode_row_iff by blast
    then show ?thesis using True assms(1) by (simp add: column_of_def decode_row_iff go_nth_def)
  next
    case False
    then have "GetColumn (NewSchema cs) i = None" by (simp add: GetColumn_def NewSchema_eq go_nth_def)
    then show ?thesis using False assms(1) by (simp add: column_of_def GetValue_def decode_row_iff go_nth_def)
  qed
  then show "(case ColumnValue j i of ColumnValue _ i \<Rightarrow> column_of (Some t) (Some (NewSchema cs)) i | ConstantValue v \<Rightarrow> Some v | _ \<Rightarrow> None) =
      (case ColumnValue j i of ColumnValue _ i \<Rightarrow> go_nth vs (unat i) | ConstantValue v \<Rightarrow> Some v | _ \<Rightarrow> None)" by simp
qed simp_all

lemma row_value_typed:
  assumes "row_ok cs vs" and "expr_type (map columnType cs) e = Some ty"
  shows "\<exists>v. row_value vs e = Some v \<and> wf_value v \<and> valueType v = ty"
  unfolding row_value_def
proof (rule eval_typed [OF _ assms(2)])
  fix e ty
  assume e: "expr_type (map columnType cs) e = Some ty" "(\<exists>j i. e = ColumnValue j i) \<or> (\<exists>v. e = ConstantValue v)"
  show "\<exists>v. (case e of ColumnValue _ i \<Rightarrow> go_nth vs (unat i) | ConstantValue v \<Rightarrow> Some v | _ \<Rightarrow> None) = Some v \<and> wf_value v \<and> valueType v = ty"
    using e assms(1) by (auto simp: row_ok_def list_all2_conv_all_nth go_nth_def storable_def split: if_splits)
qed

subsection \<open>Projection and selection\<close>

definition col_pos :: "go_string \<Rightarrow> column list \<Rightarrow> nat" where
  "col_pos name cs = length (takeWhile (\<lambda>c. columnName c \<noteq> name) cs)"

definition project_row :: "column list \<Rightarrow> column list \<Rightarrow> sql_value list \<Rightarrow> sql_value list" where
  "project_row cs out vs = map (\<lambda>c. vs ! col_pos (columnName c) cs) out"

definition row_selects :: "Expression option \<Rightarrow> sql_value list \<Rightarrow> bool" where
  "row_selects p vs \<longleftrightarrow> (case p of None \<Rightarrow> True | Some e \<Rightarrow> (case row_value vs e of Some v \<Rightarrow> v_boolean v = Some True | None \<Rightarrow> False))"

text \<open>The output columns are columns of the table, by name.\<close>

definition names_in :: "column list \<Rightarrow> column list \<Rightarrow> bool" where
  "names_in cs out \<longleftrightarrow> (\<forall>c \<in> set out. col_pos (columnName c) cs < length cs)"

definition well_typed :: "column list \<Rightarrow> Expression option \<Rightarrow> bool" where
  "well_typed cs p \<longleftrightarrow> (case p of None \<Rightarrow> True | Some e \<Rightarrow> expr_type (map columnType cs) e = Some Boolean)"

lemma GetColIndex_loop_pos:
  "col_pos name cs < length cs \<Longrightarrow> GetColIndex_loop i (offsets_from off cs) name = Some (i + of_nat (col_pos name cs))"
  by (induction cs arbitrary: i off) (auto simp: col_pos_def SetOffset_def)

lemma GetColIndex_pos: "col_pos name cs < length cs \<Longrightarrow> GetColIndex (NewSchema cs) name = Some (of_nat (col_pos name cs))"
  by (simp add: GetColIndex_def NewSchema_eq GetColIndex_loop_pos)

lemma columns_names: "map columnName (columns (NewSchema cs)) = map columnName cs"
proof -
  have "map columnName (offsets_from off cs) = map columnName cs" for off by (induction cs arbitrary: off) (auto simp: SetOffset_def)
  then show ?thesis by (simp add: NewSchema_eq)
qed

lemma projects_row:
  assumes t: "decode_row cs t = Some vs" and out: "names_in cs out" and fit: "fits out (project_row cs out vs)"
  shows "\<exists>u. projects t (NewSchema cs) (NewSchema out) = Some u \<and> decode_row out u = Some (project_row cs out vs)"
proof -
  have 1: "GetColIndex (NewSchema cs) (columnName c) \<bind> (\<lambda>i. GetValue t (NewSchema cs) i) = Some (vs ! col_pos (columnName c) cs)"
    if "columnName c \<in> columnName ` set out" for c
    using that t out by (auto simp: names_in_def GetColIndex_pos decode_row_iff)
  have 2: "columnName c \<in> columnName ` set out" if "c \<in> set (columns (NewSchema out))" for c
    using arg_cong [OF columns_names [of out], of set] that by (metis image_eqI list.set_map)
  have "map_option_list (\<lambda>c. GetColIndex (NewSchema cs) (columnName c) \<bind> (\<lambda>i. GetValue t (NewSchema cs) i)) (columns (NewSchema out)) =
      Some (map (\<lambda>c. vs ! col_pos (columnName c) cs) (columns (NewSchema out)))"
    unfolding map_option_list_Some list_all2_map2 by (rule list.rel_refl_strong) (rule 1 [OF 2])
  moreover have "map (\<lambda>c. vs ! col_pos (columnName c) cs) (columns (NewSchema out)) = project_row cs out vs"
    using arg_cong [OF columns_names [of out], of "map (\<lambda>n. vs ! col_pos n cs)"] by (simp add: project_row_def comp_def)
  moreover obtain u where "NewTupleFromSchema (project_row cs out vs) (NewSchema out) = Some u" "decode_row out u = Some (project_row cs out vs)"
    by (rule row_tuple [OF fit])
  ultimately show ?thesis by (simp add: projects_def)
qed

lemma selects_row:
  assumes "decode_row cs t = Some vs" and "fits cs vs" and "well_typed cs p"
  shows "selects t p (NewSchema cs) = Some (row_selects p vs)"
proof (cases p)
  case (Some e)
  then obtain v where v: "row_value vs e = Some v" "wf_value v" "valueType v = Boolean"
    using row_value_typed [of cs vs e Boolean] assms(2,3) by (auto simp: well_typed_def fits_def)
  then show ?thesis
    using wf_Boolean [OF v(2,3)] Some Evaluate_row [OF assms(1) fits_lengths(3) [OF assms(2)], of e] by (auto simp: selects_def row_selects_def ToBoolean_def)
qed (simp add: selects_def row_selects_def)

subsection \<open>The rows of a table\<close>

definition stored :: "column list \<Rightarrow> pageID list \<Rightarrow> db \<Rightarrow> sql_value list list \<Rightarrow> bool" where
  "stored cs ps s rows \<longleftrightarrow> list_all2 (\<lambda>r vs. fits cs vs \<and> decode_row cs (tuple_of (tbl ps s) r) = Some vs) (table_rids (db_view s) ps) rows"

text \<open>The reference query: selection, then projection.\<close>

definition select_rows :: "column list \<Rightarrow> column list \<Rightarrow> Expression option \<Rightarrow> sql_value list list \<Rightarrow> sql_value list list" where
  "select_rows cs out p rows = map (project_row cs out) (filter (row_selects p) rows)"

text \<open>A query that is well-formed for the table: a typed predicate, known output columns, results that fit.\<close>

definition query_ok :: "column list \<Rightarrow> column list \<Rightarrow> Expression option \<Rightarrow> sql_value list list \<Rightarrow> bool" where
  "query_ok cs out p rows \<longleftrightarrow> well_typed cs p \<and> names_in cs out \<and> (\<forall>vs \<in> set rows. fits out (project_row cs out vs))"

lemma scan_rows_select:
  assumes "list_all2 (\<lambda>u vs. fits cs vs \<and> decode_row cs u = Some vs) us rows" and "query_ok cs out p rows"
  shows "scan_total (NewSchema cs) (NewSchema out) p us \<and>
    list_all2 (\<lambda>u vs. decode_row out u = Some vs) (scan_rows (NewSchema cs) (NewSchema out) p us) (select_rows cs out p rows)"
  using assms
proof (induction rule: list_all2_induct)
  case (Cons u us vs rows)
  have q: "query_ok cs out p rows" "well_typed cs p" "names_in cs out" "fits out (project_row cs out vs)" using Cons(4) by (simp_all add: query_ok_def)
  have s: "selects u p (NewSchema cs) = Some (row_selects p vs)" using selects_row Cons(1) q(2) by blast
  obtain x where x: "projects u (NewSchema cs) (NewSchema out) = Some x" "decode_row out x = Some (project_row cs out vs)"
    using projects_row Cons(1) q(3,4) by blast
  show ?case using Cons(3) [OF q(1)] s x by (simp add: scan_total_def scan_rows_def select_rows_def)
qed (simp add: scan_total_def scan_rows_def select_rows_def)

lemma stored_same: "reads nf s s' \<Longrightarrow> heap_ok nf ps s \<Longrightarrow> stored cs ps s rows \<Longrightarrow> stored cs ps s' rows"
  using reads_heap(2,4) by (simp add: stored_def)

text \<open>A table of the catalog: its schema, its heap and its rows.\<close>

definition table_ok :: "ExecEnv \<Rightarrow> u32 \<Rightarrow> column list \<Rightarrow> nat \<Rightarrow> pageID list \<Rightarrow> db \<Rightarrow> sql_value list list \<Rightarrow> bool" where
  "table_ok env oid cs nf ps s rows \<longleftrightarrow> heap_ok nf ps s \<and> readable ps s \<and> stored cs ps s rows \<and>
     (\<exists>tm. GetTableByOID (env_catalog env) oid = Some tm \<and> tm_schema tm = NewSchema cs \<and> tm_table tm = hd ps)"

lemma table_ok_reads: "reads nf s s' \<Longrightarrow> table_ok env oid cs nf ps s rows \<Longrightarrow> table_ok env oid cs nf ps s' rows"
  using reads_heap stored_same by (auto simp: table_ok_def)

text \<open>Initialising the scan makes it a source of the query's rows.\<close>

lemma select_init:
  assumes t: "table_ok env oid cs nf ps s rows" and q: "query_ok cs out p rows"
  shows "\<exists>ts c s'. Exec_Init (SeqScanPlanNode (NewSchema out) p oid) env s = Some (c, s') \<and> scan_src env (NewSchema out) p oid nf ps s ts c s' \<and>
    list_all2 (\<lambda>u vs. decode_row out u = Some vs) ts (select_rows cs out p rows)"
proof -
  obtain tm where tm: "GetTableByOID (env_catalog env) oid = Some tm" "tm_schema tm = NewSchema cs" "tm_table tm = hd ps"
      "heap_ok nf ps s" "readable ps s" "stored cs ps s rows" using t by (auto simp: table_ok_def)
  let ?us = "map (tuple_of (tbl ps s)) (table_rids (db_view s) ps)"
  have "list_all2 (\<lambda>u vs. fits cs vs \<and> decode_row cs u = Some vs) ?us rows" using tm(6) by (simp add: stored_def list_all2_map1)
  note S = scan_rows_select [OF this q]
  show ?thesis using scan_init [OF tm(4,5,1,3), of "NewSchema out" p] S tm(2) by auto
qed

subsection \<open>Inserting rows\<close>

text \<open>The rows of a table as a multiset: what its records hold.\<close>

definition row_mset :: "column list \<Rightarrow> (rid \<Rightarrow> (bool \<times> bytes) option) \<Rightarrow> sql_value list option multiset" where
  "row_mset cs v = image_mset (\<lambda>r. decode_row cs (tuple_of v r)) (mset_set (dom v))"

lemma row_mset_rids:
  assumes "page_chain (db_view s) ps"
  shows "row_mset cs (tbl ps s) = mset (map (\<lambda>r. decode_row cs (tuple_of (tbl ps s) r)) (table_rids (db_view s) ps))"
proof -
  have "dom (tbl ps s) = set (table_rids (db_view s) ps)" using table_rids_mem [OF assms] by auto
  then show ?thesis using mset_set_set [OF table_rids_distinct [OF assms]] by (simp add: row_mset_def)
qed

lemma stored_row_mset:
  assumes ch: "page_chain (db_view s) ps" and M: "row_mset cs (tbl ps s) = image_mset Some M" and fit: "\<forall>vs \<in># M. fits cs vs"
  shows "\<exists>rows. stored cs ps s rows \<and> mset rows = M"
proof -
  let ?rs = "table_rids (db_view s) ps" and ?d = "\<lambda>r. decode_row cs (tuple_of (tbl ps s) r)"
  have m: "mset (map ?d ?rs) = image_mset Some M" using row_mset_rids [OF ch] M by metis
  have d: "?d r = Some (the (?d r)) \<and> the (?d r) \<in># M" if "r \<in> set ?rs" for r
  proof -
    have "?d r \<in> set (map ?d ?rs)" using that by (metis image_eqI list.set_map)
    then have "?d r \<in># image_mset Some M" using m by (metis set_mset_mset)
    then show ?thesis by force
  qed
  have "stored cs ps s (map (\<lambda>r. the (?d r)) ?rs)"
    unfolding stored_def list_all2_map2 using d fit by (auto intro!: list.rel_refl_strong)
  moreover have "mset (map (\<lambda>r. the (?d r)) ?rs) = M"
    using arg_cong [OF m, of "image_mset the"] by (simp add: image_mset.compositionality comp_def)
  ultimately show ?thesis by blast
qed

lemma row_mset_stored:
  assumes ch: "page_chain (db_view s) ps" and st: "stored cs ps s rows"
  shows "row_mset cs (tbl ps s) = image_mset Some (mset rows)" "\<forall>vs \<in># mset rows. fits cs vs"
proof -
  have "map (\<lambda>r. decode_row cs (tuple_of (tbl ps s) r)) (table_rids (db_view s) ps) = map Some rows"
    using st unfolding stored_def by (auto simp: list_all2_conv_all_nth intro: nth_equalityI)
  then show "row_mset cs (tbl ps s) = image_mset Some (mset rows)" using row_mset_rids [OF ch] by (metis mset_map)
  show "\<forall>vs \<in># mset rows. fits cs vs" using st by (auto simp: stored_def list_all2_conv_all_nth in_set_conv_nth)
qed

lemma row_mset_insert:
  assumes "finite (dom v)" and "v r = None"
  shows "row_mset cs (v(r \<mapsto> (b, d))) = add_mset (decode_row cs (NewTuple (Some r) (of_nat (length d)) d)) (row_mset cs v)"
proof -
  have "tuple_of (v(r \<mapsto> (b, d))) x = tuple_of v x" if "x \<in> dom v" for x using that assms(2) by (auto simp: tuple_of_def)
  moreover have "r \<notin> dom v" using assms(2) by auto
  ultimately show ?thesis using assms(1) unfolding row_mset_def by (auto simp: tuple_of_def intro!: image_mset_cong)
qed

text \<open>A row whose tuple fits a page, and a state in which no other transaction has locked a record for writing.\<close>

definition insertable_row :: "column list \<Rightarrow> sql_value list \<Rightarrow> bool" where
  "insertable_row cs vs \<longleftrightarrow> row_ok cs vs \<and> 0 < cells cs + vars cs vs \<and> cells cs + vars cs vs \<le> 4064"

definition alone :: "db \<Rightarrow> bool" where
  "alone s \<longleftrightarrow> (\<forall>r x. holds_exclusive (db_locks s) r x \<longrightarrow> x = txn_id (db_txn s))"

lemma one_row:
  assumes ok: "heap_ok nf ps s" and al: "alone s" and t: "tbl ps s = [r \<mapsto> (False, d)]" and m: "row_mset cs [r \<mapsto> (False, d)] = {#Some vs#}" and f: "fits cs vs"
  shows "readable ps s" "stored cs ps s [vs]"
proof -
  show "readable ps s" using al unfolding readable_def alone_def t by auto
  have ch: "page_chain (db_view s) ps" using ok by (simp add: heap_ok_def)
  obtain rows where "stored cs ps s rows" "mset rows = {#vs#}" using stored_row_mset [OF ch, of cs "{#vs#}"] m f unfolding t by auto
  then show "stored cs ps s [vs]" by simp
qed

lemma no_indexes:
  assumes "\<forall>i \<in> set is. i < length (tm_indexes tm)" and "set (tm_indexes tm) \<subseteq> {None}"
  shows "each_index f tm is s = Some s"
  using assms
proof (induction "is")
  case (Cons i "is")
  have "tm_indexes tm ! i = None" using Cons.prems by (metis list.set_intros(1) nth_mem singletonD subsetD)
  then show ?case using Cons by (simp add: GetIndex_def go_nth_def)
qed simp

text \<open>The table may have got new pages; the pages of other tables keep their contents.\<close>

definition grown :: "pageID list \<Rightarrow> db \<Rightarrow> pageID list \<Rightarrow> db \<Rightarrow> bool" where
  "grown ps s ps' s' \<longleftrightarrow> kept_out (set ps') s s' \<and> set ps \<subseteq> set ps' \<and> (\<forall>q \<in> set ps'. q \<in> set ps \<or> unat (npid s) \<le> unat q \<and> unat q < unat (npid s')) \<and>
     unat (npid s) \<le> unat (npid s')"

lemma grown_refl: "grown ps s ps s"
  by (simp add: grown_def)

lemma grown_trans:
  assumes a: "grown ps s ps1 s1" and b: "grown ps1 s1 ps2 s2"
  shows "grown ps s ps2 s2"
proof -
  have "kept_out (set ps2) s s1" using a b by (auto simp: grown_def intro: kept_but_mono)
  then have "kept_out (set ps2) s s2" using b kept_out_trans unfolding grown_def by blast
  moreover have "q \<in> set ps \<or> unat (npid s) \<le> unat q \<and> unat q < unat (npid s2)" if "q \<in> set ps2" for q
    using that a b unfolding grown_def by (meson le_trans less_le_trans)
  ultimately show ?thesis using a b by (auto simp: grown_def)
qed

lemma heap_kept:
  assumes ok: "heap_ok nf ps s" and k: "kept_out P s s'" and P: "set ps \<inter> P = {}" and s': "pool_ok {} nf (db_bpm s')" "locks_in_sync (Some (db_ctx s'))"
  shows "heap_ok nf ps s'" "tbl ps s' = tbl ps s" "table_rids (db_view s') ps = table_rids (db_view s) ps"
proof -
  have ch: "page_chain (db_view s) ps" using ok by (simp add: heap_ok_def)
  have v: "db_view s' p = db_view s p" if "p \<in> set ps" for p
    using chain_page [OF ch that] k P that unfolding kept_but_def by (metis disjoint_iff option.distinct(1))
  have "page_chain (db_view s') ps" using ch v by (auto simp: page_chain_def page_at_def)
  then show "heap_ok nf ps s'" using ok s' by (simp add: heap_ok_def)
  show "tbl ps s' = tbl ps s" using v by (auto simp: heap_view_def)
  show "table_rids (db_view s') ps = table_rids (db_view s) ps" using v by (simp add: table_rids_def cong: map_cong)
qed

lemma insert_one:
  assumes ok: "heap_ok nf ps s" and vs: "insertable_row cs vs" and np: "unat (npid s) < 524288"
  shows "\<exists>t r s' ps'. NewTupleFromSchema vs (NewSchema cs) = Some t \<and> TH_InsertTuple False (hd ps) t s = Some (Inr (r, t\<lparr>t_rid := Some r\<rparr>), s') \<and>
    heap_ok nf ps' s' \<and> hd ps' = hd ps \<and> unat (npid s') \<le> Suc (unat (npid s)) \<and> db_locks s' = db_locks s \<and> txn_id (db_txn s') = txn_id (db_txn s) \<and>
    tbl ps s r = None \<and> tbl ps' s' = (tbl ps s)(r \<mapsto> (False, t_data t)) \<and> row_mset cs (tbl ps' s') = add_mset (Some vs) (row_mset cs (tbl ps s)) \<and>
    grown ps s ps' s'"
proof -
  have "fits cs vs" using vs by (simp add: insertable_row_def fits_def)
  then obtain t where t: "NewTupleFromSchema vs (NewSchema cs) = Some t" "wf_tuple t" "length (t_data t) = cells cs + vars cs vs" "decode_row cs t = Some vs"
    by (rule row_tuple)
  have sz: "t_size t \<noteq> 0" "unat (t_size t) \<le> 4064" using t(2,3) vs by (auto simp: wf_tuple_def insertable_row_def)
  obtain res s' ps' where i: "TH_InsertTuple False (hd ps) t s = Some (res, s')" "ps' = ps \<or> ps' = ps @ [npid s]"
      "npid s' = (if ps' = ps then npid s else npid s + 1)" "kept_out (set ps') s s'" "case res of
       Inr (r, t') \<Rightarrow> heap_ok nf ps' s' \<and> PageId r \<in> set ps' \<and> t' = t\<lparr>t_rid := Some r\<rparr> \<and> tbl ps s r = None \<and>
         tbl ps' s' = (tbl ps s)(r \<mapsto> (False, t_data t)) \<and> assert_exclusive False r (Some (db_ctx s')) = Some () \<and>
         txn_adds [\<lparr>wr_rid = r, wr_wtype = W_INSERT, wr_tuple = tuple_zero, wr_table = hd ps\<rparr>] (db_txn s) (db_txn s')
     | Inl e \<Rightarrow> e = ErrLock \<and> False \<and> tbl ps' s' = tbl ps s \<and> txn_adds [] (db_txn s) (db_txn s') \<and> (3 \<le> nf \<longrightarrow> heap_ok (nf - 1) ps' s')"
    using TH_InsertTuple_frame [OF ok np t(2) sz, of False] by blast
  then obtain r where r: "res = Inr (r, t\<lparr>t_rid := Some r\<rparr>)" "heap_ok nf ps' s'" "tbl ps s r = None" "tbl ps' s' = (tbl ps s)(r \<mapsto> (False, t_data t))"
    by (cases res) auto
  have ch: "page_chain (db_view s) ps" using ok by (simp add: heap_ok_def)
  then have ne: "ps \<noteq> []" by (simp add: page_chain_def)
  have "dom (tbl ps s) \<subseteq> set (table_rids (db_view s) ps)" using table_rids_mem [OF ch] by blast
  then have fin: "finite (dom (tbl ps s))" by (rule finite_subset) simp
  have "decode_row cs (NewTuple (Some r) (of_nat (length (t_data t))) (t_data t)) = Some vs"
    using t(4) decode_row_bytes [of "NewTuple (Some r) (of_nat (length (t_data t))) (t_data t)" t cs] by (simp add: NewTuple_def)
  then have "row_mset cs (tbl ps' s') = add_mset (Some vs) (row_mset cs (tbl ps s))"
    unfolding r(4) row_mset_insert [OF fin r(3)] by simp
  moreover have "hd ps' = hd ps" using i(2) ne by auto
  moreover have "unat (npid s') \<le> Suc (unat (npid s))" "unat (npid s) \<le> unat (npid s')" "ps' \<noteq> ps \<Longrightarrow> unat (npid s) < unat (npid s')"
    using i(3) np by (simp_all add: unat_word_ariths)
  moreover from this have "grown ps s ps' s'" using i(2,4) by (auto simp: grown_def)
  ultimately show ?thesis using t(1) i(1) r TH_InsertTuple_nolog [of "hd ps" t s r _ s'] by auto
qed

lemma Insert_rows:
  assumes "heap_ok nf ps s" and "readable ps s" and "alone s" and "\<forall>vs \<in> set new. insertable_row cs vs" and "unat (npid s) + length new \<le> 524288"
    and tm: "tm_schema tm = NewSchema cs" "tm_table tm = hd ps" "tm_indexes tm = replicate (length cs) None" and nolog: "\<not> env_logging env"
  shows "\<exists>s' ps'. Insert_Next env tm new s = Some ((None, True, False), s') \<and> heap_ok nf ps' s' \<and> readable ps' s' \<and> hd ps' = hd ps \<and>
    alone s' \<and> row_mset cs (tbl ps' s') = image_mset Some (mset new) + row_mset cs (tbl ps s) \<and> grown ps s ps' s' \<and>
    unat (npid s') \<le> unat (npid s) + length new"
  using assms(1-5) tm(2)
proof (induction new arbitrary: s ps)
  case (Cons vs new)
  have v: "insertable_row cs vs" and n: "unat (npid s) < 524288" using Cons.prems(4,5) by simp_all
  obtain t r s1 ps1 where i: "NewTupleFromSchema vs (NewSchema cs) = Some t" "TH_InsertTuple False (hd ps) t s = Some (Inr (r, t\<lparr>t_rid := Some r\<rparr>), s1)"
      "heap_ok nf ps1 s1" "hd ps1 = hd ps" "unat (npid s1) \<le> Suc (unat (npid s))" "db_locks s1 = db_locks s" "txn_id (db_txn s1) = txn_id (db_txn s)"
      "tbl ps1 s1 = (tbl ps s)(r \<mapsto> (False, t_data t))" "row_mset cs (tbl ps1 s1) = add_mset (Some vs) (row_mset cs (tbl ps s))" "grown ps s ps1 s1"
    using insert_one [OF Cons.prems(1) v n] by blast
  have al: "alone s1" using Cons.prems(3) i(6,7) by (simp add: alone_def)
  then have rd: "readable ps1 s1" using Cons.prems(2) i(8) by (auto simp: readable_def alone_def i(6))
  have w: "length cs < 2 ^ 32" using fits_lengths(3) [of cs vs] v by (simp add: insertable_row_def fits_def)
  have ix: "each_index f tm (column_numbers tm) s1 = Some s1" for f
    by (rule no_indexes) (use tm w in \<open>auto simp: GetColumnNum_def GetColumnCount_def NewSchema_eq unat_of_nat32\<close>)
  obtain s' ps' where "Insert_Next env tm new s1 = Some ((None, True, False), s')" "heap_ok nf ps' s'" "readable ps' s'" "hd ps' = hd ps1" "alone s'"
      "row_mset cs (tbl ps' s') = image_mset Some (mset new) + row_mset cs (tbl ps1 s1)" "grown ps1 s1 ps' s'" "unat (npid s') \<le> unat (npid s1) + length new"
    using Cons.IH [OF i(3) rd al] Cons.prems(4-6) i(4,5) by auto
  then show ?case using i(1,2,4,5,9) grown_trans [OF i(10)] ix tm(1) Cons.prems(6) nolog by auto
qed (use grown_refl in \<open>simp; blast\<close>)

lemma insert_exec:
  assumes t: "table_ok env oid cs nf ps s rows" and tm: "GetTableByOID (env_catalog env) oid = Some tm" "tm_indexes tm = replicate (length cs) None"
    and env: "\<not> env_logging env" "alone s" and new: "\<forall>vs \<in> set new. insertable_row cs vs" "unat (npid s) + length new \<le> 524288"
  shows "\<exists>s' ps' rows'. Execute env (InsertPlanNode new oid) s = Some ([], s') \<and> table_ok env oid cs nf ps' s' rows' \<and> alone s' \<and>
    mset rows' = mset rows + mset new"
proof -
  have T: "heap_ok nf ps s" "readable ps s" "stored cs ps s rows" "tm_schema tm = NewSchema cs" "tm_table tm = hd ps"
    using t tm(1) by (auto simp: table_ok_def)
  have ch: "page_chain (db_view s) ps" using T(1) by (simp add: heap_ok_def)
  obtain s' ps' where i: "Insert_Next env tm new s = Some ((None, True, False), s')" "heap_ok nf ps' s'" "readable ps' s'" "hd ps' = hd ps" "alone s'"
      "row_mset cs (tbl ps' s') = image_mset Some (mset new) + row_mset cs (tbl ps s)"
    using Insert_rows [OF T(1,2) env(2) new T(4,5) tm(2) env(1)] by blast
  have ch': "page_chain (db_view s') ps'" using i(2) by (simp add: heap_ok_def)
  have m: "row_mset cs (tbl ps' s') = image_mset Some (mset rows + mset new)" using i(6) row_mset_stored(1) [OF ch T(3)] by (simp add: add.commute)
  have f: "\<forall>vs \<in># mset rows + mset new. fits cs vs" using row_mset_stored(2) [OF ch T(3)] new(1) by (auto simp: insertable_row_def fits_def)
  obtain rows' where "stored cs ps' s' rows'" "mset rows' = mset rows + mset new" using stored_row_mset [OF ch' m f] by blast
  moreover have "run_executor (Exec_Next (InsertPlanNode new oid) env) [] Inserting s = Some ([], s')"
    using i(1) tm(1) by (subst run_executor.simps) simp
  moreover have "tm_table tm = hd ps'" using i(4) T(5) by simp
  ultimately show ?thesis using i(2,3,5) tm(1) T(4) unfolding table_ok_def by (intro exI [of _ s'] exI [of _ ps'] exI [of _ rows']) (simp add: Execute_def)
qed

subsection \<open>Sorting\<close>

text \<open>What \<^verbatim>\<open>sort.Slice\<close> is documented to do: it permutes the slice, and when \<open>lt\<close> is a strict weak order the result is sorted.\<close>

definition weak_order_on :: "('a \<Rightarrow> 'a \<Rightarrow> bool) \<Rightarrow> 'a set \<Rightarrow> bool" where
  "weak_order_on lt A \<longleftrightarrow> (\<forall>x \<in> A. \<forall>y \<in> A. lt x y \<longrightarrow> \<not> lt y x) \<and> (\<forall>x \<in> A. \<forall>y \<in> A. \<forall>z \<in> A. lt x z \<longrightarrow> lt x y \<or> lt y z)"

definition sort_Slice_ok :: "(('a \<Rightarrow> 'a \<Rightarrow> bool) \<Rightarrow> 'a list \<Rightarrow> 'a list) \<Rightarrow> bool" where
  "sort_Slice_ok srt \<longleftrightarrow> (\<forall>lt xs. mset (srt lt xs) = mset xs \<and> (weak_order_on lt (set xs) \<longrightarrow> sorted_wrt (\<lambda>x y. \<not> lt y x) (srt lt xs)))"

text \<open>Insertion sort is such a function.\<close>

fun insert_by :: "('a \<Rightarrow> 'a \<Rightarrow> bool) \<Rightarrow> 'a \<Rightarrow> 'a list \<Rightarrow> 'a list" where
  "insert_by lt x [] = [x]"
| "insert_by lt x (y # ys) = (if lt y x then y # insert_by lt x ys else x # y # ys)"

fun sort_by :: "('a \<Rightarrow> 'a \<Rightarrow> bool) \<Rightarrow> 'a list \<Rightarrow> 'a list" where
  "sort_by lt [] = []"
| "sort_by lt (x # xs) = insert_by lt x (sort_by lt xs)"

lemma mset_insert_by: "mset (insert_by lt x ys) = add_mset x (mset ys)"
  by (induction ys) auto

lemma mset_sort_by: "mset (sort_by lt xs) = mset xs"
  by (induction xs) (simp_all add: mset_insert_by)

lemma sorted_insert_by:
  "sorted_wrt (\<lambda>x y. \<not> lt y x) ys \<Longrightarrow> weak_order_on lt (insert x (set ys)) \<Longrightarrow> sorted_wrt (\<lambda>x y. \<not> lt y x) (insert_by lt x ys)"
proof (induction ys)
  case (Cons y ys)
  have w: "weak_order_on lt (insert x (set ys))" using Cons.prems(2) by (auto simp: weak_order_on_def)
  have s: "set (insert_by lt x ys) = insert x (set ys)" using mset_insert_by [of lt x ys] by (metis set_mset_add_mset_insert set_mset_mset)
  show ?case
  proof (cases "lt y x")
    case True
    then have "\<not> lt x y" using Cons.prems(2) by (auto simp: weak_order_on_def)
    then show ?thesis using True Cons.IH [OF _ w] Cons.prems(1) s by auto
  next
    case False
    have "\<not> lt z x" if "z \<in> set ys" for z using that False Cons.prems unfolding weak_order_on_def by (metis insertI1 insertI2 list.simps(15) sorted_wrt.simps(2))
    then show ?thesis using False Cons.prems(1) by auto
  qed
qed simp

lemma sort_by_ok: "sort_Slice_ok sort_by"
proof -
  have "sorted_wrt (\<lambda>x y. \<not> lt y x) (sort_by lt xs)" if "weak_order_on lt (set xs)" for lt :: "'a \<Rightarrow> 'a \<Rightarrow> bool" and xs
    using that
  proof (induction xs)
    case (Cons x xs)
    have "set (sort_by lt xs) = set xs" using mset_sort_by [of lt xs] by (metis set_mset_mset)
    moreover have "weak_order_on lt (set xs)" using Cons.prems by (auto simp: weak_order_on_def)
    ultimately show ?case using Cons sorted_insert_by [of lt "sort_by lt xs" x] by simp
  qed simp
  then show ?thesis by (simp add: sort_Slice_ok_def mset_sort_by)
qed

subsection \<open>An example\<close>

text \<open>A concrete table with an integer and a varchar column, two rows, and a query.\<close>

definition example_table :: TableMetadata where
  "example_table = \<lparr>tm_schema = NewSchema example_columns, tm_name = [116], tm_table = 0, tm_indexes = [None, None], tm_oid = 1\<rparr>"

definition example_env :: ExecEnv where
  "example_env = \<lparr>env_catalog = \<lparr>tableIds = [1 \<mapsto> example_table], tableNames = [[116] \<mapsto> example_table], nextTableId = 2, cat_tableHeap = 0\<rparr>,
     env_logging = False, env_murmur3 = id, env_sort = sort_by, env_range = id, env_exprs = (\<lambda>n. AggregateValueExpression (n = 0) (of_nat (n - 1)))\<rparr>"

definition example_rows :: "sql_value list list" where
  "example_rows = [[NewInteger 7, NewVarchar [1, 2, 3]], [NewInteger 3, NewVarchar [4]]]"

definition example_out :: "column list" where
  "example_out = [NewColumn [98] Varchar True None]"

definition example_pred :: Expression where
  "example_pred = Comparison (ColumnValue 0 0) (ConstantValue (NewInteger 5)) GreaterThan"

lemmas example_defs = example_columns_def example_rows_def example_out_def example_pred_def NewColumn_def TypeID_Size_def value_defs

lemma example_rows_ok: "\<forall>vs \<in> set example_rows. insertable_row example_columns vs \<and> fits example_out (project_row example_columns example_out vs) \<and>
    fits example_columns (project_row example_columns example_columns vs)"
  by (simp add: example_defs insertable_row_def fits_def row_ok_def wf_column_def storable_def wf_value_def var_size_def IsInlined_def project_row_def col_pos_def)

lemma example_typed: "well_typed example_columns (Some example_pred)" "names_in example_columns example_out" "names_in example_columns example_columns"
  by (simp_all add: well_typed_def example_defs go_nth_def wf_value_def names_in_def col_pos_def)

lemma example_heap_table: "table_ok example_env 1 example_columns 8 [0] example_heap []" "alone example_heap"
proof -
  have ch: "page_chain (db_view example_heap) [0]" using example_heap_ok(2) by (simp add: heap_ok_def)
  have "set (table_rids (db_view example_heap) [0]) = {}" using table_rids_mem [OF ch] example_heap_ok(3) by (metis empty_iff equals0I)
  then have "stored example_columns [0] example_heap []" by (simp add: stored_def)
  moreover have "readable [0] example_heap" using example_heap_ok(3) by (simp add: readable_def)
  ultimately show "table_ok example_env 1 example_columns 8 [0] example_heap []"
    using example_heap_ok(2) by (simp add: table_ok_def example_env_def GetTableByOID_def example_table_def)
  have "db_locks example_heap = NewLockManager" using NewTableHeap_nolog [OF example_heap_ok(1)] by (simp add: example_db_def)
  then show "alone example_heap" by (simp add: alone_def holds_exclusive_def NewLockManager_def)
qed

lemma example_insert_hyps:
  "GetTableByOID (env_catalog example_env) 1 = Some example_table" "tm_indexes example_table = replicate (length example_columns) None"
  "\<not> env_logging example_env" "\<forall>vs \<in> set example_rows. insertable_row example_columns vs" "unat (npid example_heap) + length example_rows \<le> 524288"
  using example_rows_ok by (simp_all add: example_env_def GetTableByOID_def example_table_def example_columns_def example_rows_def example_heap_ok(4))

lemma example_loaded:
  obtains s ps rows where "Execute example_env (InsertPlanNode example_rows 1) example_heap = Some ([], s)" "table_ok example_env 1 example_columns 8 ps s rows"
    "mset rows = mset example_rows" "query_ok example_columns example_out (Some example_pred) rows" "query_ok example_columns example_columns None rows" "alone s"
proof -
  obtain s ps rows where a: "Execute example_env (InsertPlanNode example_rows 1) example_heap = Some ([], s)" "table_ok example_env 1 example_columns 8 ps s rows"
      "mset rows = mset [] + mset example_rows" "alone s"
    using insert_exec [OF example_heap_table(1) example_insert_hyps(1-3) example_heap_table(2) example_insert_hyps(4,5)] by blast
  then have "set rows = set example_rows" by (metis add_0 mset.simps(1) mset_eq_setD)
  then show thesis using a that [of s ps rows] example_rows_ok example_typed by (simp add: query_ok_def well_typed_def)
qed

lemma example_filter:
  assumes "mset rows = mset example_rows"
  shows "filter (row_selects (Some example_pred)) rows = [[NewInteger 7, NewVarchar [1, 2, 3]]]"
    "filter (\<lambda>vs. \<not> row_selects (Some example_pred) vs) rows = [[NewInteger 3, NewVarchar [4]]]"
proof -
  have e: "row_selects (Some example_pred) vs \<longleftrightarrow> vs = [NewInteger 7, NewVarchar [1, 2, 3]]" if "vs \<in> set example_rows" for vs
    using that by (auto simp: row_selects_def row_value_def go_nth_def example_defs performComparison_def compare_defs)
  have "filter (row_selects (Some example_pred)) example_rows = [[NewInteger 7, NewVarchar [1, 2, 3]]]"
    "filter (\<lambda>vs. \<not> row_selects (Some example_pred) vs) example_rows = [[NewInteger 3, NewVarchar [4]]]"
    using e by (simp_all add: example_rows_def value_defs)
  moreover have "mset (filter P rows) = mset (filter P example_rows)" for P using assms by simp
  ultimately show "filter (row_selects (Some example_pred)) rows = [[NewInteger 7, NewVarchar [1, 2, 3]]]"
    "filter (\<lambda>vs. \<not> row_selects (Some example_pred) vs) rows = [[NewInteger 3, NewVarchar [4]]]"
    by (metis mset_single_iff mset.simps(1,2))+
qed

lemma example_selected:
  "mset rows = mset example_rows \<Longrightarrow> select_rows example_columns example_out (Some example_pred) rows = [[NewVarchar [1, 2, 3]]]"
  using example_filter(1) by (simp add: select_rows_def project_row_def example_out_def example_columns_def NewColumn_def col_pos_def)

subsection \<open>Properties\<close>

text \<open>C12: evaluating an expression that is well-typed for the columns, on the tuple made of a row of these columns, does not
  panic; it gives the value of the expression on the row, which is well-formed and has the type of the expression.\<close>

theorem expression_type_safe:
  assumes "fits cs vs" and "expr_type (map columnType cs) e = Some ty"
  shows "\<exists>t v. NewTupleFromSchema vs (NewSchema cs) = Some t \<and> Evaluate e (Some t) (Some (NewSchema cs)) = Some v \<and>
    row_value vs e = Some v \<and> wf_value v \<and> valueType v = ty"
proof -
  obtain t where t: "NewTupleFromSchema vs (NewSchema cs) = Some t" "decode_row cs t = Some vs" by (rule row_tuple [OF assms(1)])
  have "row_ok cs vs" using assms(1) by (simp add: fits_def)
  then show ?thesis using t(1) Evaluate_row [OF t(2) fits_lengths(3) [OF assms(1)], of e] row_value_typed [OF _ assms(2)] by auto
qed

theorem expression_type_safe_witness:
  "\<exists>t v. NewTupleFromSchema [NewInteger 7, NewVarchar [1, 2, 3]] (NewSchema example_columns) = Some t \<and>
     Evaluate example_pred (Some t) (Some (NewSchema example_columns)) = Some v \<and> valueType v = Boolean"
proof -
  have "fits example_columns [NewInteger 7, NewVarchar [1, 2, 3]]"
    using example_rows_ok by (simp add: example_rows_def insertable_row_def fits_def)
  then show ?thesis using expression_type_safe [of example_columns "[NewInteger 7, NewVarchar [1, 2, 3]]" example_pred Boolean] example_typed(1) by (auto simp: well_typed_def)
qed

text \<open>C10: executing a sequential scan with a well-typed predicate ends without a panic and returns tuples that hold exactly the
  rows of the reference query, selected, projected and in the order of the table; the table keeps its rows.\<close>

theorem seq_scan_select:
  assumes "table_ok env oid cs nf ps s rows" and "query_ok cs out p rows"
  shows "\<exists>ts s'. Execute env (SeqScanPlanNode (NewSchema out) p oid) s = Some (ts, s') \<and>
    list_all2 (\<lambda>t vs. decode_row out t = Some vs) ts (select_rows cs out p rows) \<and> table_ok env oid cs nf ps s' rows"
proof -
  obtain ts c s1 where i: "Exec_Init (SeqScanPlanNode (NewSchema out) p oid) env s = Some (c, s1)" "scan_src env (NewSchema out) p oid nf ps s ts c s1"
      "list_all2 (\<lambda>u vs. decode_row out u = Some vs) ts (select_rows cs out p rows)" using select_init [OF assms] by blast
  obtain s' where "run_executor (Exec_Next (SeqScanPlanNode (NewSchema out) p oid) env) [] c s1 = Some ([] @ ts, s')" "reads nf s s'"
    using seq.run_executor_src [OF i(2)] by blast
  then show ?thesis using i(1,3) table_ok_reads [OF _ assms(1)] by (auto simp: Execute_def)
qed

theorem seq_scan_select_witness:
  "\<exists>s t s'. Execute example_env (InsertPlanNode example_rows 1) example_heap = Some ([], s) \<and>
     Execute example_env (SeqScanPlanNode (NewSchema example_out) (Some example_pred) 1) s = Some ([t], s') \<and> decode_row example_out t = Some [NewVarchar [1, 2, 3]]"
proof (rule example_loaded)
  fix s ps rows
  assume a: "Execute example_env (InsertPlanNode example_rows 1) example_heap = Some ([], s)" "table_ok example_env 1 example_columns 8 ps s rows"
    "mset rows = mset example_rows" "query_ok example_columns example_out (Some example_pred) rows"
  then show ?thesis using seq_scan_select [OF a(2,4)] unfolding example_selected [OF a(3)] by (auto simp: list_all2_Cons2)
qed

text \<open>C13: a limit with an offset over the scan returns the corresponding part of the rows of the scan.\<close>

theorem limit_select:
  assumes "table_ok env oid cs nf ps s rows" and "query_ok cs out p rows" and "unat limit < 4294967295"
  shows "\<exists>ts s'. Execute env (LimitPlanNode (SeqScanPlanNode (NewSchema out) p oid) limit offset) s = Some (ts, s') \<and>
    list_all2 (\<lambda>t vs. decode_row out t = Some vs) ts (take (unat limit) (drop (unat offset) (select_rows cs out p rows))) \<and>
    table_ok env oid cs nf ps s' rows"
proof -
  let ?child = "SeqScanPlanNode (NewSchema out) p oid"
  obtain ts c s1 where i: "Exec_Init ?child env s = Some (c, s1)" "scan_src env (NewSchema out) p oid nf ps s ts c s1"
      "list_all2 (\<lambda>u vs. decode_row out u = Some vs) ts (select_rows cs out p rows)" using select_init [OF assms(1,2)] by blast
  obtain s' where "run_executor (Exec_Next (LimitPlanNode ?child limit offset) env) [] (Limiting c (0, 0)) s1 =
      Some ([] @ take (unat limit) (drop (unat offset) ts), s')" "reads nf s s'"
    using seq.limit_src [OF _ i(2), of "Exec_Next (LimitPlanNode ?child limit offset) env" Limiting limit offset 0 0 "[]"] assms(3) by auto
  then show ?thesis using i(1,3) table_ok_reads [OF _ assms(1)] by (auto simp: Execute_def intro: list_all2_takeI list_all2_dropI)
qed

theorem limit_select_witness:
  "\<exists>s ts s'. Execute example_env (InsertPlanNode example_rows 1) example_heap = Some ([], s) \<and>
     Execute example_env (LimitPlanNode (SeqScanPlanNode (NewSchema example_columns) None 1) 1 1) s = Some (ts, s') \<and> length ts = 1"
proof (rule example_loaded)
  fix s ps rows
  assume a: "Execute example_env (InsertPlanNode example_rows 1) example_heap = Some ([], s)" "table_ok example_env 1 example_columns 8 ps s rows"
    "mset rows = mset example_rows" "query_ok example_columns example_columns None rows"
  have "length rows = 2" using a(3) by (metis example_rows_def length_Cons list.size(3) numeral_2_eq_2 size_mset)
  then have "length (select_rows example_columns example_columns None rows) = 2" by (simp add: select_rows_def row_selects_def)
  then show ?thesis using a(1) limit_select [OF a(2,4), of 1 1] by (fastforce dest: list_all2_lengthD)
qed

text \<open>C11: executing an INSERT of rows that fit a page into a table without indexes (no logging, no other writer) ends without a
  panic, returns no tuples, and the table then holds its old rows and the new ones and is ready for the next query.\<close>

theorem insert_rows:
  assumes t: "table_ok env oid cs nf ps s rows" and tm: "GetTableByOID (env_catalog env) oid = Some tm" "tm_indexes tm = replicate (length cs) None"
    and env: "\<not> env_logging env" "alone s" and new: "\<forall>vs \<in> set new. insertable_row cs vs" "unat (npid s) + length new \<le> 524288"
  shows "\<exists>s' ps' rows'. Execute env (InsertPlanNode new oid) s = Some ([], s') \<and> table_ok env oid cs nf ps' s' rows' \<and> alone s' \<and>
    mset rows' = mset rows + mset new"
  using insert_exec [OF assms] .

theorem insert_rows_witness:
  "\<exists>s' ps' rows'. Execute example_env (InsertPlanNode example_rows 1) example_heap = Some ([], s') \<and>
     table_ok example_env 1 example_columns 8 ps' s' rows' \<and> mset rows' = mset example_rows"
  using insert_rows [OF example_heap_table(1) example_insert_hyps(1-3) example_heap_table(2) example_insert_hyps(4,5)] by auto

end
