(* ===== verification/Orderby_Spec.thy ===== *)
theory Orderby_Spec
  imports Query_Spec
begin

text \<open>
  ORDER BY: the comparison given to \<^verbatim>\<open>sort.Slice\<close> is a strict weak order on rows whose sort columns hold comparable values, so
  that the executor returns the rows of its child, permuted and sorted.
\<close>

subsection \<open>The order on rows\<close>

definition keys_ok :: "type_id list \<Rightarrow> sql_value list \<Rightarrow> bool" where
  "keys_ok ts ks \<longleftrightarrow> list_all2 (\<lambda>t v. comparable v \<and> valueType v = t) ts ks"

lemma keys_ok_Cons: "keys_ok (t # ts) ks \<longleftrightarrow> (\<exists>v ws. ks = v # ws \<and> comparable v \<and> valueType v = t \<and> keys_ok ts ws)"
  by (auto simp: keys_ok_def list_all2_Cons1)

lemma row_less_rank:
  assumes "comparable x" "comparable y" "valueType x = valueType y"
  shows "row_less (Suc n) (ty # types) (x # xs) (y # ys) =
    (if rank x = rank y then row_less n types xs ys else Some (if ty = ASC then rank x < rank y else rank y < rank x))"
  using compare_rank [OF assms] by auto

lemma row_less_total:
  "keys_ok ts xs \<Longrightarrow> keys_ok ts ys \<Longrightarrow> length ts \<le> length types \<Longrightarrow> row_less (length ts) types xs ys \<noteq> None"
proof (induction ts arbitrary: xs ys types)
  case (Cons t ts)
  obtain x xs' y ys' ty types' where c: "xs = x # xs'" "ys = y # ys'" "types = ty # types'" "comparable x" "comparable y" "valueType x = valueType y"
      "keys_ok ts xs'" "keys_ok ts ys'"
    using Cons.prems by (cases types) (auto simp: keys_ok_Cons)
  show ?case using Cons.IH [OF c(7,8), of types'] Cons.prems(3) row_less_rank [OF c(4-6), of "length ts" ty types' xs' ys'] c(1-3) by (auto simp del: row_less.simps)
qed simp

lemma row_less_asym:
  "keys_ok ts xs \<Longrightarrow> keys_ok ts ys \<Longrightarrow> row_less (length ts) types xs ys = Some True \<Longrightarrow> row_less (length ts) types ys xs \<noteq> Some True"
proof (induction ts arbitrary: xs ys types)
  case (Cons t ts)
  obtain x xs' y ys' ty types' where c: "xs = x # xs'" "ys = y # ys'" "types = ty # types'" "comparable x" "comparable y" "valueType x = valueType y"
      "keys_ok ts xs'" "keys_ok ts ys'"
    using Cons.prems by (cases types) (auto simp: keys_ok_Cons)
  show ?case using Cons.IH [OF c(7,8), of types'] Cons.prems(3) row_less_rank [OF c(4-6), of "length ts" ty types' xs' ys']
      row_less_rank [OF c(5,4) c(6) [symmetric], of "length ts" ty types' ys' xs'] c(1-3) by (auto simp del: row_less.simps split: if_splits)
qed simp

lemma row_less_split:
  "keys_ok ts xs \<Longrightarrow> keys_ok ts ys \<Longrightarrow> keys_ok ts zs \<Longrightarrow> row_less (length ts) types xs zs = Some True \<Longrightarrow>
   row_less (length ts) types xs ys = Some True \<or> row_less (length ts) types ys zs = Some True"
proof (induction ts arbitrary: xs ys zs types)
  case (Cons t ts)
  obtain x xs' y ys' z zs' ty types' where c: "xs = x # xs'" "ys = y # ys'" "zs = z # zs'" "types = ty # types'" "comparable x" "comparable y" "comparable z"
      "valueType x = valueType y" "valueType y = valueType z" "keys_ok ts xs'" "keys_ok ts ys'" "keys_ok ts zs'"
    using Cons.prems by (cases types) (auto simp: keys_ok_Cons)
  have "valueType x = valueType z" using c(8,9) by simp
  then show ?case using Cons.IH [OF c(10-12), of types'] Cons.prems(4) row_less_rank [OF c(5,6,8), of "length ts" ty types' xs' ys']
      row_less_rank [OF c(6,7,9), of "length ts" ty types' ys' zs'] row_less_rank [OF c(5,7), of "length ts" ty types' xs' zs'] c(1-4)
    by (auto simp del: row_less.simps split: if_splits)
qed simp

text \<open>The order that ORDER BY asks for, written without the comparison of the program: lexicographic in the sort columns,
  upwards in the ranks of the values of an ASC column and downwards in those of a DESC column.\<close>

fun keys_before :: "OrderbyType list \<Rightarrow> sql_value list \<Rightarrow> sql_value list \<Rightarrow> bool" where
  "keys_before (ty # types) (x # xs) (y # ys) =
     ((case ty of ASC \<Rightarrow> rank x < rank y | DESC \<Rightarrow> rank y < rank x) \<or> rank x = rank y \<and> keys_before types xs ys)"
| "keys_before types xs ys = False"

lemma row_less_before:
  "keys_ok ts xs \<Longrightarrow> keys_ok ts ys \<Longrightarrow> length ts \<le> length types \<Longrightarrow> row_less (length ts) types xs ys = Some (keys_before types xs ys)"
proof (induction ts arbitrary: xs ys types)
  case Nil
  then show ?case by (cases types) (simp_all add: keys_ok_def)
next
  case (Cons t ts)
  obtain x xs' y ys' ty types' where c: "xs = x # xs'" "ys = y # ys'" "types = ty # types'" "comparable x" "comparable y" "valueType x = valueType y"
      "keys_ok ts xs'" "keys_ok ts ys'"
    using Cons.prems by (cases types) (auto simp: keys_ok_Cons)
  show ?case using Cons.IH [OF c(7,8), of types'] Cons.prems(3) row_less_rank [OF c(4-6), of "length ts" ty types' xs' ys'] c(1-3)
    by (auto simp del: row_less.simps split: OrderbyType.splits)
qed

text \<open>The number at the end of a row plays no role.\<close>

lemma row_less_append: "length xs = n \<Longrightarrow> length ys = n \<Longrightarrow> row_less n types (xs @ as) (ys @ bs) = row_less n types xs ys"
proof (induction n arbitrary: types xs ys)
  case (Suc n)
  then obtain x xs' y ys' where "xs = x # xs'" "ys = y # ys'" "length xs' = n" "length ys' = n" by (auto simp: length_Suc_conv)
  then show ?case using Suc.IH [of xs' ys'] by (cases types) (simp_all cong: if_cong)
qed simp

subsection \<open>The sorted result\<close>

lemma sint_of_nat32: "i < 2 ^ 31 \<Longrightarrow> sint (of_nat i :: i32) = int i"
  by (simp add: signed_of_nat signed_take_bit_int_eq_self)

text \<open>A permutation of numbered rows is the rows of a permutation of the numbers.\<close>

lemma perm_of_map:
  assumes "mset ys = mset (map f xs)" and "\<And>x. x \<in> set xs \<Longrightarrow> g (f x) = x"
  shows "map f (map g ys) = ys" "mset (map g ys) = mset xs"
proof -
  have "set ys = f ` set xs" using mset_eq_setD [OF assms(1)] by simp
  then show "map f (map g ys) = ys" using assms(2) by (auto intro!: map_idI simp: comp_def)
  have "mset (map g ys) = image_mset g (mset (map f xs))" using assms(1) by simp
  also have "\<dots> = mset (map (\<lambda>x. g (f x)) xs)" by (simp add: image_mset.compositionality comp_def)
  finally show "mset (map g ys) = mset xs" using assms(2) by (simp cong: map_cong)
qed

lemma Orderby_sort_spec:
  assumes srt: "sort_Slice_ok (env_sort env)" and len: "length us < 2 ^ 31" and keys: "\<And>u. u \<in> set us \<Longrightarrow> keys_ok ts (key u)" and types: "length ts \<le> length types"
    and n: "n = length ts" and rows: "rows = map (\<lambda>(i, u). key u @ [NewInteger (of_nat i)]) (enumerate 0 us)"
  shows "\<exists>js. mset js = mset [0..<length us] \<and> Orderby_sort env types n us rows = Some (map ((!) us) js) \<and>
    sorted_wrt (\<lambda>i j. row_less n types (key (us ! j)) (key (us ! i)) \<noteq> Some True) js"
proof -
  let ?f = "\<lambda>i. key (us ! i) @ [NewInteger (of_nat i)]" and ?g = "\<lambda>row. nat (sint (the (v_integer (row ! n))))"
  let ?lt = "\<lambda>a b. row_less n types a b = Some True"
  have rs: "rows = map ?f [0..<length us]" unfolding rows by (rule nth_equalityI) (simp_all add: nth_enumerate_eq)
  have k: "keys_ok ts (key (us ! i))" "length (key (us ! i)) = n" if "i < length us" for i
    using keys [of "us ! i"] that n by (auto simp: keys_ok_def dest: list_all2_lengthD)
  have app: "row_less n types (?f i) (?f j) = row_less n types (key (us ! i)) (key (us ! j))" if "i < length us" "j < length us" for i j
    using row_less_append k(2) that by blast
  have fi: "?f i ! n = NewInteger (of_nat i) \<and> length (?f i) = Suc n \<and> sint (of_nat i :: i32) = int i" if "i < length us" for i
    using k(2) [OF that] that len sint_of_nat32 [of i] by (simp add: nth_append)
  define sorted where "sorted = env_sort env ?lt rows"
  have m: "mset sorted = mset (map ?f [0..<length us])" using srt unfolding sort_Slice_ok_def sorted_def rs by blast
  have g: "?g (?f i) = i" if "i \<in> set [0..<length us]" for i using fi [of i] that by (simp add: NewInteger_def)
  define js where "js = map ?g sorted"
  have js: "map ?f js = sorted" "mset js = mset [0..<length us]" using perm_of_map [OF m g] by (simp_all add: js_def)
  then have in_js: "j < length us" if "j \<in> set js" for j using that mset_eq_setD [OF js(2)] by simp
  have lj: "length js = length us" using mset_eq_length [OF js(2)] by simp
  have "weak_order_on ?lt (set rows)"
    unfolding weak_order_on_def rs using row_less_asym [OF k(1) k(1), of _ _ types] row_less_split [OF k(1) k(1) k(1), of _ _ _ types] n app by auto
  then have "sorted_wrt (\<lambda>x y. \<not> ?lt y x) sorted" using srt unfolding sort_Slice_ok_def sorted_def by blast
  then have "sorted_wrt (\<lambda>i j. \<not> ?lt (?f j) (?f i)) js" unfolding js(1) [symmetric] by (simp add: sorted_wrt_map)
  then have s: "sorted_wrt (\<lambda>i j. row_less n types (key (us ! j)) (key (us ! i)) \<noteq> Some True) js"
    by (rule sorted_wrt_mono_rel [rotated]) (use app in_js in auto)
  have nopanic: "row_less n types (rows ! i) (rows ! j) \<noteq> None" if "i < length rows" "j < length rows" for i j
    using row_less_total [OF k(1) k(1) types, of i j] app [of i j] that n unfolding rs by simp
  have "map_option_list (\<lambda>idx. do { row \<leftarrow> go_nth sorted idx; v \<leftarrow> go_nth row n; i \<leftarrow> ToInteger v;
      if sint i < 0 then None else go_nth us (nat (sint i)) }) [0..<length us] = Some (map ((!) us) js)"
    unfolding map_option_list_Some
  proof (rule list_all2_all_nthI)
    fix idx assume "idx < length [0..<length us]"
    then have idx: "idx < length us" by simp
    have "sorted ! idx = ?f (js ! idx)" "js ! idx < length us" using js(1) lj idx in_js [of "js ! idx"] nth_map [of idx js ?f] by (auto simp flip: js(1))
    then show "do { row \<leftarrow> go_nth sorted ([0..<length us] ! idx); v \<leftarrow> go_nth row n; i \<leftarrow> ToInteger v;
        if sint i < 0 then None else go_nth us (nat (sint i)) } = Some (map ((!) us) js ! idx)"
      using fi [of "js ! idx"] idx lj js(1) by (auto simp: go_nth_def ToInteger_def NewInteger_def simp flip: js(1))
  qed (simp add: lj)
  then have "Orderby_sort env types n us rows = Some (map ((!) us) js)"
    using nopanic unfolding Orderby_sort_def sorted_def [symmetric] by (auto simp: Let_def)
  then show ?thesis using js(2) s by blast
qed

subsection \<open>The executor\<close>

definition sorted_src :: "nat \<Rightarrow> db \<Rightarrow> tuple list \<Rightarrow> exec_state \<Rightarrow> db \<Rightarrow> bool" where
  "sorted_src nf s0 ts c s \<longleftrightarrow> (\<exists>c' all i. c = Sorted c' all i \<and> ts = drop i all \<and> reads nf s0 s)"

interpretation srt: tuple_source "Exec_Next (OrderbyPlanNode sch child idxs types) env" "sorted_src nf s0" "reads nf s0"
proof
  show "\<exists>c' s'. Exec_Next (OrderbyPlanNode sch child idxs types) env c s = Some ((None, True, False), c', s') \<and> reads nf s0 s'"
    if "sorted_src nf s0 [] c s" for c s
    using that by (auto simp: sorted_src_def Orderby_Next_def)
  show "\<exists>c' s'. Exec_Next (OrderbyPlanNode sch child idxs types) env c s = Some ((Some t, False, False), c', s') \<and> sorted_src nf s0 ts c' s'"
    if src: "sorted_src nf s0 (t # ts) c s" for t ts c s
  proof -
    obtain c' all i where c: "c = Sorted c' all i" "t # ts = drop i all" "reads nf s0 s" using src by (auto simp: sorted_src_def)
    have i: "i < length all" using c(2) by (metis drop_all list.distinct(1) not_le)
    then have "all ! i = t" "drop (Suc i) all = ts" using c(2) Cons_nth_drop_Suc [OF i] by (metis list.inject)+
    then show ?thesis using c(1,3) i by (auto simp: sorted_src_def Orderby_Next_def)
  qed
  show "reads nf s0 s" if "sorted_src nf s0 ts c s" for ts c s using that by (auto simp: sorted_src_def)
qed

definition sort_keys :: "int list \<Rightarrow> sql_value list \<Rightarrow> sql_value list" where
  "sort_keys idxs vs = map (\<lambda>i. vs ! nat i) idxs"

text \<open>Sort columns that exist, with an order for each, and comparable values in them.\<close>

definition sort_ok :: "column list \<Rightarrow> int list \<Rightarrow> OrderbyType list \<Rightarrow> sql_value list list \<Rightarrow> bool" where
  "sort_ok out idxs types rows \<longleftrightarrow> (\<forall>i \<in> set idxs. 0 \<le> i \<and> i < int (length out)) \<and> length idxs \<le> length types \<and>
     (\<forall>vs \<in> set rows. \<forall>i \<in> set idxs. comparable (vs ! nat i))"

lemma sort_columns:
  assumes "decode_row out u = Some vs" and "\<forall>i \<in> set idxs. 0 \<le> i \<and> i < int (length out)"
  shows "map_option_list (\<lambda>i. column_of (Some u) (Some (NewSchema out)) (word_of_int i)) idxs = Some (sort_keys idxs vs)"
  unfolding map_option_list_Some sort_keys_def list_all2_map2
proof (rule list.rel_refl_strong)
  fix i assume "i \<in> set idxs"
  then have i: "0 \<le> i" "nat i < length out" using assms(2) by auto
  then have w: "word_of_int i = (of_nat (nat i) :: u32)" by (metis of_int_of_nat_eq int_nat_eq)
  have "GetValue u (NewSchema out) (of_nat (nat i)) = Some (vs ! nat i)" using assms(1) i(2) unfolding decode_row_iff by blast
  then show "column_of (Some u) (Some (NewSchema out)) (word_of_int i) = Some (vs ! nat i)" unfolding column_of_def w by (simp only: Option.bind.bind_lunit)
qed

lemma sort_keys_ok:
  assumes "fits out vs" and "\<forall>i \<in> set idxs. 0 \<le> i \<and> i < int (length out)" and "\<forall>i \<in> set idxs. comparable (vs ! nat i)"
  shows "keys_ok (map (\<lambda>i. columnType (out ! nat i)) idxs) (sort_keys idxs vs)"
  using assms(2,3) assms(1) unfolding keys_ok_def sort_keys_def by (auto simp: list_all2_map1 list_all2_map2 fits_def row_ok_def list_all2_conv_all_nth nat_less_iff intro!: list.rel_refl_strong)

lemma orderby_init:
  assumes t: "table_ok env oid cs nf ps s rows" and q: "query_ok cs out p rows" and srt: "sort_Slice_ok (env_sort env)" and len: "length rows < 2 ^ 31"
    and so: "sort_ok out idxs types (select_rows cs out p rows)"
  shows "\<exists>ts rows' c s'. Exec_Init (OrderbyPlanNode (NewSchema out) (SeqScanPlanNode (NewSchema out) p oid) idxs types) env s = Some (c, s') \<and> sorted_src nf s ts c s' \<and>
    list_all2 (\<lambda>t vs. decode_row out t = Some vs) ts rows' \<and> mset rows' = mset (select_rows cs out p rows) \<and>
    sorted_wrt (\<lambda>a b. row_less (length idxs) types (sort_keys idxs b) (sort_keys idxs a) \<noteq> Some True) rows'"
proof -
  let ?child = "SeqScanPlanNode (NewSchema out) p oid" and ?sel = "select_rows cs out p rows" and ?ts = "map (\<lambda>i. columnType (out ! nat i)) idxs"
  have idx: "\<forall>i \<in> set idxs. 0 \<le> i \<and> i < int (length out)" and ty: "length ?ts \<le> length types" using so by (simp_all add: sort_ok_def)
  obtain us c s1 where i: "Exec_Init ?child env s = Some (c, s1)" "scan_src env (NewSchema out) p oid nf ps s us c s1"
      "list_all2 (\<lambda>u vs. decode_row out u = Some vs) us ?sel" using select_init [OF t q] by blast
  define key where "key u = sort_keys idxs (the (decode_row out u))" for u
  have lu: "length us = length ?sel" using i(3) by (rule list_all2_lengthD)
  have d: "decode_row out (us ! j) = Some (?sel ! j)" if "j < length us" for j using i(3) that by (simp add: list_all2_conv_all_nth)
  have dec: "\<exists>vs \<in> set ?sel. decode_row out u = Some vs" if u: "u \<in> set us" for u
  proof -
    obtain j where j: "j < length us" "u = us ! j" using u by (auto simp: in_set_conv_nth)
    have "?sel ! j \<in> set ?sel" using j(1) lu by simp
    then show ?thesis using d [OF j(1)] j(2) by blast
  qed
  have cols: "map_option_list (\<lambda>i. column_of (Some u) (Some (NewSchema out)) (word_of_int i)) idxs = Some (key u)" if "u \<in> set us" for u
    using dec [OF that] sort_columns [OF _ idx] by (auto simp: key_def)
  have fit: "fits out vs" if "vs \<in> set ?sel" for vs using that q by (auto simp: select_rows_def query_ok_def)
  have keys: "keys_ok ?ts (key u)" if "u \<in> set us" for u using dec [OF that] sort_keys_ok [OF fit idx] so by (auto simp: key_def sort_ok_def)
  from lu have l: "length us < 2 ^ 31" using le_less_trans [OF length_filter_le [of "row_selects p" rows] len] by (simp add: select_rows_def)
  let ?rows = "map (\<lambda>(i, u). key u @ [NewInteger (of_nat i)]) (enumerate 0 us)"
  obtain c' s2 where lp: "orderby_loop (Exec_Next ?child env) (Some (NewSchema out)) idxs [] [] 0 c s1 = Some (us, ?rows, c', s2)" "reads nf s s2"
    using seq.orderby_loop_src [OF i(2) cols, of "[]" "[]" 0] by auto
  obtain js where js: "mset js = mset [0..<length us]" "Orderby_sort env types (length ?ts) us ?rows = Some (map ((!) us) js)"
      "sorted_wrt (\<lambda>i j. row_less (length ?ts) types (key (us ! j)) (key (us ! i)) \<noteq> Some True) js"
    using Orderby_sort_spec [of env us ?ts key types "length ?ts" ?rows, OF srt l keys ty refl refl] by blast
  have in_js: "j < length us" if "j \<in> set js" for j using that mset_eq_setD [OF js(1)] by simp
  have ini: "Exec_Init (OrderbyPlanNode (NewSchema out) ?child idxs types) env s = Some (Sorted c' (map ((!) us) js) 0, s2)"
    using i(1) lp(1) js(2) by (simp add: Orderby_Init_def OutputSchema_def)
  have "list_all2 (\<lambda>t vs. decode_row out t = Some vs) (map ((!) us) js) (map ((!) ?sel) js)"
    unfolding list_all2_map1 list_all2_map2 using d in_js by (auto intro: list.rel_refl_strong)
  moreover have "mset (map ((!) ?sel) js) = mset ?sel" using js(1) lu by (metis map_nth mset_map)
  moreover have "sorted_wrt (\<lambda>a b. row_less (length idxs) types (sort_keys idxs b) (sort_keys idxs a) \<noteq> Some True) (map ((!) ?sel) js)"
    unfolding sorted_wrt_map using js(3) by (rule sorted_wrt_mono_rel [rotated]) (use d in_js in \<open>auto simp: key_def\<close>)
  ultimately show ?thesis using ini lp(2) by (auto simp: sorted_src_def)
qed

lemma sorted_before:
  assumes q: "query_ok cs out p rows" and so: "sort_ok out idxs types (select_rows cs out p rows)" and m: "mset rows' = mset (select_rows cs out p rows)"
    and srt: "sorted_wrt (\<lambda>a b. row_less (length idxs) types (sort_keys idxs b) (sort_keys idxs a) \<noteq> Some True) rows'"
  shows "sorted_wrt (\<lambda>a b. \<not> keys_before types (sort_keys idxs b) (sort_keys idxs a)) rows'"
proof -
  let ?ts = "map (\<lambda>i. columnType (out ! nat i)) idxs"
  have "\<forall>vs \<in> set rows'. fits out vs \<and> (\<forall>i \<in> set idxs. comparable (vs ! nat i))"
    using q so mset_eq_setD [OF m] by (auto simp: select_rows_def query_ok_def sort_ok_def)
  then have k: "keys_ok ?ts (sort_keys idxs vs)" if "vs \<in> set rows'" for vs using sort_keys_ok so that by (auto simp: sort_ok_def)
  have l: "length ?ts \<le> length types" using so by (simp add: sort_ok_def)
  show ?thesis using srt by (rule sorted_wrt_mono_rel [rotated]) (use row_less_before [OF k k l] in auto)
qed

subsection \<open>Properties\<close>

text \<open>C14: given a \<^verbatim>\<open>sort.Slice\<close> that sorts by a strict weak order, ORDER BY over a scan of a table whose sort columns hold
  comparable values (non-NULL integers, varchars or floats other than NaN; NULL and Boolean values are excluded, see
  \<open>sort_ok\<close>) ends without a panic and returns the rows of the scan, each as often as the scan has it, in the order of the
  sort columns: no row stands after one that the lexicographic order \<open>keys_before\<close>, upwards for ASC and downwards for
  DESC, puts behind it.\<close>

theorem orderby_select:
  assumes "table_ok env oid cs nf ps s rows" and "query_ok cs out p rows" and "sort_Slice_ok (env_sort env)" and "length rows < 2 ^ 31"
    and "sort_ok out idxs types (select_rows cs out p rows)"
  shows "\<exists>ts rows' s'. Execute env (OrderbyPlanNode (NewSchema out) (SeqScanPlanNode (NewSchema out) p oid) idxs types) s = Some (ts, s') \<and>
    list_all2 (\<lambda>t vs. decode_row out t = Some vs) ts rows' \<and> mset rows' = mset (select_rows cs out p rows) \<and>
    sorted_wrt (\<lambda>a b. \<not> keys_before types (sort_keys idxs b) (sort_keys idxs a)) rows' \<and> table_ok env oid cs nf ps s' rows"
proof -
  let ?plan = "OrderbyPlanNode (NewSchema out) (SeqScanPlanNode (NewSchema out) p oid) idxs types"
  obtain ts rows' c s1 where i: "Exec_Init ?plan env s = Some (c, s1)" "sorted_src nf s ts c s1" "list_all2 (\<lambda>t vs. decode_row out t = Some vs) ts rows'"
      "mset rows' = mset (select_rows cs out p rows)" "sorted_wrt (\<lambda>a b. row_less (length idxs) types (sort_keys idxs b) (sort_keys idxs a) \<noteq> Some True) rows'"
    using orderby_init [OF assms] by blast
  obtain s' where "run_executor (Exec_Next ?plan env) [] c s1 = Some ([] @ ts, s')" "reads nf s s'" using srt.run_executor_src [OF i(2)] by blast
  then show ?thesis using i(1,3,4) sorted_before [OF assms(2,5) i(4,5)] table_ok_reads [OF _ assms(1)] by (auto simp: Execute_def)
qed

text \<open>The two example rows, sorted by the first column upwards and downwards.\<close>

theorem orderby_select_witness:
  "\<exists>s. Execute example_env (InsertPlanNode example_rows 1) example_heap = Some ([], s) \<and>
     (\<exists>ts s'. Execute example_env (OrderbyPlanNode (NewSchema example_columns) (SeqScanPlanNode (NewSchema example_columns) None 1) [0] [ASC]) s = Some (ts, s') \<and>
       map (decode_row example_columns) ts = [Some [NewInteger 3, NewVarchar [4]], Some [NewInteger 7, NewVarchar [1, 2, 3]]]) \<and>
     (\<exists>ts s'. Execute example_env (OrderbyPlanNode (NewSchema example_columns) (SeqScanPlanNode (NewSchema example_columns) None 1) [0] [DESC]) s = Some (ts, s') \<and>
       map (decode_row example_columns) ts = [Some [NewInteger 7, NewVarchar [1, 2, 3]], Some [NewInteger 3, NewVarchar [4]]])"
proof (rule example_loaded)
  let ?a = "[NewInteger 7, NewVarchar [1, 2, 3]]" and ?b = "[NewInteger 3, NewVarchar [4]]"
  fix s ps rows
  assume a: "Execute example_env (InsertPlanNode example_rows 1) example_heap = Some ([], s)" "table_ok example_env 1 example_columns 8 ps s rows"
    "mset rows = mset example_rows" "query_ok example_columns example_columns None rows"
  have set: "set rows = {?a, ?b}" using mset_eq_setD [OF a(3)] by (auto simp: example_rows_def)
  have "project_row example_columns example_columns vs = vs" if "vs \<in> set rows" for vs
    using that unfolding set by (auto simp: project_row_def example_columns_def NewColumn_def col_pos_def)
  then have sel: "select_rows example_columns example_columns None rows = rows" by (simp add: select_rows_def row_selects_def map_idI)
  have len: "length xs = 2" if "mset xs = mset example_rows" for xs
    using that by (metis example_rows_def length_Cons list.size(3) numeral_2_eq_2 size_mset)
  have "\<exists>ts s'. Execute example_env (OrderbyPlanNode (NewSchema example_columns) (SeqScanPlanNode (NewSchema example_columns) None 1) [0] [ty]) s = Some (ts, s') \<and>
      map (decode_row example_columns) ts = (if ty = ASC then [Some ?b, Some ?a] else [Some ?a, Some ?b])" for ty
  proof -
    have so: "sort_ok example_columns [0] [ty] rows" using set by (simp add: sort_ok_def example_columns_def comparable_def wf_value_def value_defs)
    obtain ts rows' s' where r: "Execute example_env (OrderbyPlanNode (NewSchema example_columns) (SeqScanPlanNode (NewSchema example_columns) None 1) [0] [ty]) s = Some (ts, s')"
        "list_all2 (\<lambda>t vs. decode_row example_columns t = Some vs) ts rows'" "mset rows' = mset example_rows"
        "sorted_wrt (\<lambda>a b. \<not> keys_before [ty] (sort_keys [0] b) (sort_keys [0] a)) rows'"
      using orderby_select [OF a(2,4), of "[0]" "[ty]"] so a(3) len [OF a(3)] sort_by_ok unfolding sel by (auto simp: example_env_def)
    obtain x y where xy: "rows' = [x, y]" using len [OF r(3)] by (auto simp: numeral_2_eq_2 length_Suc_conv)
    then have "rows' = [?a, ?b] \<or> rows' = [?b, ?a]" using r(3) by (auto simp: example_rows_def add_eq_conv_ex)
    then have "rows' = (if ty = ASC then [?b, ?a] else [?a, ?b])"
      using r(4) by (cases ty) (auto simp: sort_keys_def rank_def value_defs)
    then show ?thesis using r(1,2) by (auto simp: list_all2_Cons2)
  qed
  note main = this
  show ?thesis using a(1) main [of ASC] main [of DESC] by (intro exI [of _ s]) simp
qed

end
