(* ===== verification/Catalog_Spec.thy ===== *)
theory Catalog_Spec
  imports Query_Spec
begin

text \<open>
  The catalog on disk: what \<^verbatim>\<open>insertTable\<close> writes about tables and columns is what \<^verbatim>\<open>RecoveryCatalogFromCatalogPage\<close> reads.
\<close>

subsection \<open>The rows of the catalog tables\<close>

definition table_cols :: "column list" where
  "table_cols = [NewColumn (go_str ''oid'') Integer False None, NewColumn (go_str ''name'') Varchar False None,
     NewColumn (go_str ''first_page'') Integer False None]"

definition column_cols :: "column list" where
  "column_cols = [NewColumn (go_str ''table_oid'') Integer False None, NewColumn (go_str ''type'') Integer False None,
     NewColumn (go_str ''name'') Varchar False None, NewColumn (go_str ''fixed_length'') Integer False None,
     NewColumn (go_str ''variable_length'') Integer False None, NewColumn (go_str ''offset'') Integer False None,
     NewColumn (go_str ''has_index'') Integer False None]"

lemma catalog_schemas: "TableCatalogSchema = NewSchema table_cols" "ColumnsCatalogSchema = NewSchema column_cols"
  by (simp_all add: TableCatalogSchema_def ColumnsCatalogSchema_def table_cols_def column_cols_def)

definition table_row :: "u32 \<times> go_string \<times> pageID \<Rightarrow> sql_value list" where
  "table_row t = (case t of (oid, name, first) \<Rightarrow> [NewInteger oid, NewVarchar name, NewInteger first])"

lemma table_positions: "col_pos (go_str ''oid'') table_cols = 0" "col_pos (go_str ''name'') table_cols = 1"
    "col_pos (go_str ''first_page'') table_cols = 2" "length table_cols = 3"
  by code_simp+

lemma column_positions: "col_pos (go_str ''table_oid'') column_cols = 0" "col_pos (go_str ''type'') column_cols = 1"
    "col_pos (go_str ''name'') column_cols = 2" "col_pos (go_str ''fixed_length'') column_cols = 3"
    "col_pos (go_str ''variable_length'') column_cols = 4" "col_pos (go_str ''offset'') column_cols = 5" "col_pos (go_str ''has_index'') column_cols = 6"
    "length column_cols = 7"
  by code_simp+

lemma field_row:
  assumes "decode_row cs t = Some vs" and "col_pos (go_str name) cs < length cs"
  shows "field t (NewSchema cs) name = Some (vs ! col_pos (go_str name) cs)"
  using assms by (simp add: field_def GetColIndex_pos decode_row_iff)

text \<open>A column read back is the column written, up to what the catalog does not keep: the side of a join and the expression.\<close>

definition plain_column :: "column \<Rightarrow> column" where
  "plain_column c = c\<lparr>isLeft := True, col_expr := None\<rparr>"

lemma type_numbers: "type_of_number (type_number t) = t"
  by (cases t) (simp_all add: type_of_number_def type_number_def)

lemma read_column_row:
  assumes "decode_row column_cols t = Some (column_row oid c)"
  shows "int_field t ColumnsCatalogSchema ''table_oid'' = Some oid" "read_column t = Some (plain_column c)"
proof -
  note F = field_row [OF assms] column_positions
  show "int_field t ColumnsCatalogSchema ''table_oid'' = Some oid"
    by (simp add: int_field_def catalog_schemas F column_row_def ToInteger_def NewInteger_def)
  show "read_column t = Some (plain_column c)"
    by (cases c) (simp add: read_column_def int_field_def catalog_schemas F column_row_def value_defs type_numbers NewColumn_def Int32toBool_def boolToInt32_def
        plain_column_def)
qed

lemma read_table_row:
  assumes "decode_row table_cols t = Some (table_row (oid, name, first))"
  shows "int_field t TableCatalogSchema ''oid'' = Some oid" "field t TableCatalogSchema ''name'' = Some (NewVarchar name)"
    "int_field t TableCatalogSchema ''first_page'' = Some first"
  using field_row [OF assms] table_positions by (simp_all add: int_field_def catalog_schemas table_row_def ToInteger_def NewInteger_def)

lemma catalog_rows_ok:
  "length name \<le> 32764 \<Longrightarrow> fits table_cols (table_row (oid, name, first))"
  "length (columnName c) \<le> 32764 \<Longrightarrow> fits column_cols (column_row oid c)"
  by (simp_all add: fits_def row_ok_def table_cols_def column_cols_def table_row_def column_row_def NewColumn_def wf_column_def TypeID_Size_def storable_def
      wf_value_def value_defs var_size_def IsInlined_def)

subsection \<open>Reading the tables\<close>

lemma cursor_reads: "cursor nf ps s0 rs cur s \<Longrightarrow> reads nf s s' \<Longrightarrow> cursor nf ps s0 rs cur s'"
  using reads_trans by (auto simp: cursor_def)

lemma cursor_keeps: "cursor nf ps s0 rs cur s \<Longrightarrow> reads nf s0 s"
  by (simp add: cursor_def)

definition columns_of :: "u32 \<Rightarrow> (u32 \<times> column) list \<Rightarrow> column list" where
  "columns_of oid ocs = map (plain_column \<circ> snd) (filter (\<lambda>oc. fst oc = oid) ocs)"

lemma read_columns_spec:
  assumes "cursor nf ps s0 rs cur s" and "list_all2 (\<lambda>r oc. decode_row column_cols (tuple_of (tbl ps s0) r) = Some (column_row (fst oc) (snd oc))) rs ocs"
  shows "\<exists>s'. read_columns logging oid cur cols s = Some (cols @ columns_of oid ocs, s') \<and> reads nf s0 s'"
  using assms
proof (induction rs arbitrary: ocs cur cols s)
  case Nil
  then show ?case by (subst read_columns.simps) (simp add: cursor_def columns_of_def)
next
  case (Cons r rs)
  let ?t = "tuple_of (tbl ps s0) r"
  obtain o' c ocs' where o: "ocs = (o', c) # ocs'" "decode_row column_cols ?t = Some (column_row o' c)"
      "list_all2 (\<lambda>r oc. decode_row column_cols (tuple_of (tbl ps s0) r) = Some (column_row (fst oc) (snd oc))) rs ocs'"
    using Cons.prems(2) by (auto simp: list_all2_Cons1)
  have cur: "cur = Some ?t" using Cons.prems(1) by (simp add: cursor_def)
  obtain nxt s1 where n: "it_Next logging ?t s = Some (nxt, s1)" "cursor nf ps s0 rs nxt s1" using cursor_next Cons.prems(1) cur by blast
  note R = read_column_row [OF o(2)]
  show ?case
    using Cons.IH [OF n(2) o(3), of "if o' = oid then cols @ [plain_column c] else cols"] n(1) R cur o(1)
    by (subst read_columns.simps) (auto simp: columns_of_def)
qed

text \<open>Without indexes, table metadata needs no pages.\<close>

lemma no_new_indexes: "\<forall>c \<in> set cs. \<not> hasIndex c \<Longrightarrow> new_indexes name s i cs bp = Some (replicate (length cs) None, bp)"
  by (induction cs arbitrary: i) auto

lemma columns_hasIndex: "(\<forall>c \<in> set (columns (NewSchema cs)). \<not> hasIndex c) \<longleftrightarrow> (\<forall>c \<in> set cs. \<not> hasIndex c)"
proof -
  have "(\<forall>c \<in> set (offsets_from off cs). \<not> hasIndex c) \<longleftrightarrow> (\<forall>c \<in> set cs. \<not> hasIndex c)" for off by (induction cs arbitrary: off) (auto simp: SetOffset_def)
  then show ?thesis by (simp add: NewSchema_eq)
qed

definition table_meta :: "(u32 \<times> column) list \<Rightarrow> u32 \<times> go_string \<times> pageID \<Rightarrow> TableMetadata" where
  "table_meta ocs t = (case t of (oid, name, first) \<Rightarrow> let cols = columns_of oid ocs in
     \<lparr>tm_schema = NewSchema cols, tm_name = name, tm_table = first, tm_indexes = replicate (length cols) None, tm_oid = oid\<rparr>)"

definition add_table :: "TableMetadata \<Rightarrow> Catalog \<Rightarrow> Catalog" where
  "add_table tm c = c\<lparr>tableIds := (tableIds c)(tm_oid tm \<mapsto> tm), tableNames := (tableNames c)(tm_name tm \<mapsto> tm)\<rparr>"

lemma NewTableMetadata_plain:
  assumes "\<forall>oc \<in> set ocs. \<not> hasIndex (snd oc)"
  shows "NewTableMetadata (NewSchema (columns_of oid ocs)) name first oid bp = Some (table_meta ocs (oid, name, first), bp)"
proof -
  have "\<forall>c \<in> set (columns_of oid ocs). \<not> hasIndex c" using assms by (auto simp: columns_of_def plain_column_def)
  then have "new_indexes name (NewSchema (columns_of oid ocs)) 0 (columns (NewSchema (columns_of oid ocs))) bp =
      Some (replicate (length (columns (NewSchema (columns_of oid ocs)))) None, bp)"
    by (intro no_new_indexes) (simp add: columns_hasIndex)
  then show ?thesis by (simp add: NewTableMetadata_def table_meta_def NewSchema_eq Let_def)
qed

lemma read_tables_spec:
  assumes H: "heap_ok nf ps1 s0" "readable ps1 s0" "hd ps1 = 1"
    and ocs: "list_all2 (\<lambda>r oc. decode_row column_cols (tuple_of (tbl ps1 s0) r) = Some (column_row (fst oc) (snd oc))) (table_rids (db_view s0) ps1) ocs"
      "\<forall>oc \<in> set ocs. \<not> hasIndex (snd oc)"
  shows "cursor nf ps0 s0 rs cur s \<Longrightarrow> list_all2 (\<lambda>r t. decode_row table_cols (tuple_of (tbl ps0 s0) r) = Some (table_row t)) rs tabs \<Longrightarrow>
    \<exists>s'. read_tables logging cur c s = Some (fold (\<lambda>t. add_table (table_meta ocs t)) tabs c, s') \<and> reads nf s0 s'"
proof (induction rs arbitrary: tabs cur c s)
  case Nil
  then show ?case by (subst read_tables.simps) (simp add: cursor_def)
next
  case (Cons r rs)
  let ?t = "tuple_of (tbl ps0 s0) r"
  obtain oid name first tabs' where t: "tabs = (oid, name, first) # tabs'" "decode_row table_cols ?t = Some (table_row (oid, name, first))"
      "list_all2 (\<lambda>r t. decode_row table_cols (tuple_of (tbl ps0 s0) r) = Some (table_row t)) rs tabs'"
    using Cons.prems(2) by (auto simp: list_all2_Cons1)
  have cur: "cur = Some ?t" using Cons.prems(1) by (simp add: cursor_def)
  have rd: "reads nf s0 s" by (rule cursor_keeps [OF Cons.prems(1)])
  note S = reads_heap [OF rd H(1)]
  obtain fc s1 where g: "GetFirstTuple logging 1 s = Some (fc, s1)" "cursor nf ps1 s (table_rids (db_view s) ps1) fc s1"
    using cursor_first [OF S(1) S(3) [OF H(2)], of logging] H(3) by auto
  obtain s2 where c: "read_columns logging oid fc [] s1 = Some ([] @ columns_of oid ocs, s2)" "reads nf s s2"
    using read_columns_spec [OF g(2), of ocs logging oid "[]"] ocs(1) S(2,4) by auto
  have cu: "cursor nf ps0 s0 (r # rs) (Some ?t) s2" using cursor_reads [OF Cons.prems(1) c(2)] cur by simp
  obtain nxt s3 where n: "it_Next logging ?t s2 = Some (nxt, s3)" "cursor nf ps0 s0 rs nxt s3" using cursor_next [OF cu] by blast
  obtain s' where "read_tables logging nxt (add_table (table_meta ocs (oid, name, first)) c) s3 =
      Some (fold (\<lambda>t. add_table (table_meta ocs t)) tabs' (add_table (table_meta ocs (oid, name, first)) c), s')" "reads nf s0 s'"
    using Cons.IH [OF n(2) t(3)] by blast
  then show ?case
    using read_table_row [OF t(2)] g(1) c(1) n(1) NewTableMetadata_plain [OF ocs(2), of oid name first "db_bpm s2"] cur t(1)
    by (subst read_tables.simps) (simp add: add_table_def table_meta_def ToVarchar_def NewVarchar_def Let_def)
qed

text \<open>The tables of a catalog: id, name, first page and columns.  Their rows, as \<^verbatim>\<open>insertTable\<close> writes them.\<close>

type_synonym table_info = "u32 \<times> go_string \<times> pageID \<times> column list"

definition info_row :: "table_info \<Rightarrow> sql_value list" where
  "info_row t = (case t of (oid, name, first, cs) \<Rightarrow> [NewInteger oid, NewVarchar name, NewInteger first])"

definition info_column_rows :: "table_info \<Rightarrow> sql_value list list" where
  "info_column_rows t = (case t of (oid, name, first, cs) \<Rightarrow> map (column_row oid) (columns (NewSchema cs)))"

definition info_meta :: "table_info \<Rightarrow> TableMetadata" where
  "info_meta t = (case t of (oid, name, first, cs) \<Rightarrow>
     \<lparr>tm_schema = NewSchema (map plain_column cs), tm_name = name, tm_table = first, tm_indexes = replicate (length cs) None, tm_oid = oid\<rparr>)"

definition info_ocs :: "table_info list \<Rightarrow> (u32 \<times> column) list" where
  "info_ocs ts = concat (map (\<lambda>(oid, name, first, cs). map (Pair oid) (columns (NewSchema cs))) ts)"

lemma info_column_rows_eq: "concat (map info_column_rows ts) = map (\<lambda>oc. column_row (fst oc) (snd oc)) (info_ocs ts)"
  by (induction ts) (auto simp: info_column_rows_def info_ocs_def)

lemma schema_again: "NewSchema (map plain_column (columns (NewSchema cs))) = NewSchema (map plain_column cs)"
proof -
  have o: "offsets_from a (map plain_column (offsets_from b cs)) = offsets_from a (map plain_column cs)" for a b
    by (induction cs arbitrary: a b) (simp_all add: SetOffset_def plain_column_def)
  have u: "uninlined_from i (map plain_column (offsets_from b cs)) = uninlined_from i (map plain_column cs)" for i b
    by (induction cs arbitrary: i b) (simp_all add: SetOffset_def plain_column_def IsInlined_def)
  have l: "list_all IsInlined (map plain_column (offsets_from b cs)) = list_all IsInlined (map plain_column cs)" for b
    by (induction cs arbitrary: b) (simp_all add: SetOffset_def plain_column_def IsInlined_def)
  have n: "cells (map plain_column (offsets_from b cs)) = cells (map plain_column cs)" for b
    by (induction cs arbitrary: b) (simp_all add: SetOffset_def plain_column_def)
  show ?thesis by (simp add: NewSchema_eq o u l n)
qed

lemma info_columns:
  assumes "distinct (map fst ts)" and "(oid, name, first, cs) \<in> set ts"
  shows "columns_of oid (info_ocs ts) = map plain_column (columns (NewSchema cs))"
  using assms
proof (induction ts)
  case (Cons t ts)
  obtain o' n' f' cs' where t: "t = (o', n', f', cs')" by (cases t)
  have none: "columns_of oid (info_ocs us) = []" if "oid \<notin> fst ` set us" for us
    using that by (induction us) (auto simp: columns_of_def info_ocs_def filter_empty_conv)
  have app: "columns_of oid (info_ocs (t # ts)) = (if o' = oid then map plain_column (columns (NewSchema cs')) else []) @ columns_of oid (info_ocs ts)"
    by (auto simp: t columns_of_def info_ocs_def filter_map comp_def)
  show ?case
  proof (cases "t = (oid, name, first, cs)")
    case True
    have "oid \<notin> fst ` set ts" using Cons.prems(1) True by simp
    then show ?thesis using True app none [of ts] t by simp
  next
    case False
    then have m: "(oid, name, first, cs) \<in> set ts" using Cons.prems(2) by simp
    then have "o' \<noteq> oid" using Cons.prems(1) t by (auto simp: image_iff)
    then show ?thesis using app Cons.IH Cons.prems(1) m by simp
  qed
qed simp

lemma fold_add_table:
  "distinct (map tm_oid tms) \<Longrightarrow> distinct (map tm_name tms) \<Longrightarrow> tm \<in> set tms \<Longrightarrow>
   GetTableByOID (fold add_table tms c) (tm_oid tm) = Some tm \<and> GetTableByName (fold add_table tms c) (tm_name tm) = Some tm"
proof (induction tms arbitrary: c rule: rev_induct)
  case (snoc x xs)
  then show ?case by (cases "tm = x") (auto simp: add_table_def GetTableByOID_def GetTableByName_def image_iff)
qed simp

lemma recovered_tables:
  assumes "distinct (map fst ts)" and "distinct (map (fst \<circ> snd) ts)" and "t \<in> set ts"
  shows "GetTableByOID (fold (\<lambda>t. add_table (table_meta (info_ocs ts) t)) (map (\<lambda>(oid, name, first, cs). (oid, name, first)) ts) c) (fst t) = Some (info_meta t) \<and>
    GetTableByName (fold (\<lambda>t. add_table (table_meta (info_ocs ts) t)) (map (\<lambda>(oid, name, first, cs). (oid, name, first)) ts) c) (fst (snd t)) = Some (info_meta t)"
proof -
  let ?tms = "map (table_meta (info_ocs ts)) (map (\<lambda>(oid, name, first, cs). (oid, name, first)) ts)"
  have f: "fold (\<lambda>t. add_table (table_meta (info_ocs ts) t)) xs c = fold add_table (map (table_meta (info_ocs ts)) xs) c" for xs by (simp add: fold_map comp_def)
  have len: "length (columns (NewSchema cs)) = length cs" for cs by (simp add: NewSchema_eq)
  have m: "?tms = map info_meta ts"
    using info_columns [OF assms(1)] len by (auto simp: table_meta_def info_meta_def Let_def schema_again)
  have k: "tm_oid (info_meta t) = fst t" "tm_name (info_meta t) = fst (snd t)" for t by (simp_all add: info_meta_def split: prod.splits)
  have "distinct (map tm_oid (map info_meta ts))" "distinct (map tm_name (map info_meta ts))" using assms(1,2) by (simp_all add: k comp_def)
  then show ?thesis unfolding f m using fold_add_table [of "map info_meta ts" "info_meta t" c] assms(3) k by simp
qed

subsection \<open>Properties\<close>

text \<open>C18: recovering the catalog from pages that hold the rows of tables with distinct ids and names and without indexes ends
  without a panic; every table is found under its id and its name, with its first page and the schema it was
  created with, and nothing on the pages changes.\<close>

theorem catalog_recovered:
  assumes H0: "heap_ok nf ps0 s" "readable ps0 s" "hd ps0 = 0" "stored table_cols ps0 s (map info_row ts)"
    and H1: "heap_ok nf ps1 s" "readable ps1 s" "hd ps1 = 1" "stored column_cols ps1 s (concat (map info_column_rows ts))"
    and ts: "distinct (map fst ts)" "distinct (map (fst \<circ> snd) ts)" "\<forall>(oid, name, first, cs) \<in> set ts. \<forall>c \<in> set cs. \<not> hasIndex c"
  shows "\<exists>c s'. RecoveryCatalogFromCatalogPage logging s = Some (c, s') \<and>
    (\<forall>t \<in> set ts. GetTableByOID c (fst t) = Some (info_meta t) \<and> GetTableByName c (fst (snd t)) = Some (info_meta t)) \<and>
    tbl ps0 s' = tbl ps0 s \<and> tbl ps1 s' = tbl ps1 s"
proof -
  let ?tabs = "map (\<lambda>(oid, name, first, cs). (oid, name, first)) ts"
  have r: "map info_row ts = map table_row ?tabs" by (auto simp: info_row_def table_row_def)
  have t: "list_all2 (\<lambda>r t. decode_row table_cols (tuple_of (tbl ps0 s) r) = Some (table_row t)) (table_rids (db_view s) ps0) ?tabs"
    using H0(4) unfolding r stored_def by (auto simp: list_all2_map2 elim!: list_all2_mono)
  have c: "list_all2 (\<lambda>r oc. decode_row column_cols (tuple_of (tbl ps1 s) r) = Some (column_row (fst oc) (snd oc))) (table_rids (db_view s) ps1) (info_ocs ts)"
    using H1(4) unfolding info_column_rows_eq stored_def by (auto simp: list_all2_map2 elim!: list_all2_mono)
  have n: "\<forall>oc \<in> set (info_ocs ts). \<not> hasIndex (snd oc)"
    using ts(3) columns_hasIndex by (fastforce simp: info_ocs_def)
  obtain cur s1 where f: "GetFirstTuple logging 0 s = Some (cur, s1)" "cursor nf ps0 s (table_rids (db_view s) ps0) cur s1"
    using cursor_first [OF H0(1,2), of logging] H0(3) by auto
  let ?c = "\<lparr>tableIds = Map.empty, tableNames = Map.empty, nextTableId = 1, cat_tableHeap = 0\<rparr>"
  obtain s' where "read_tables logging cur ?c s1 = Some (fold (\<lambda>t. add_table (table_meta (info_ocs ts) t)) ?tabs ?c, s')" "reads nf s s'"
    using read_tables_spec [OF H1(1-3) c n f(2) t] by blast
  then show ?thesis
    using f(1) recovered_tables [OF ts(1,2)] reads_heap(2) [OF _ H0(1)] reads_heap(2) [OF _ H1(1)] by (auto simp: RecoveryCatalogFromCatalogPage_def)
qed

text \<open>Two table heaps on one disk, each with one row: a table with an integer column.\<close>

definition example_info :: table_info where
  "example_info = (5, [116], 2, [NewColumn [97] Integer False None])"

lemma example_info_rows: "insertable_row table_cols (info_row example_info)" "info_column_rows example_info = [column_row 5 (NewColumn [97] Integer False None)]"
    "insertable_row column_cols (column_row 5 (NewColumn [97] Integer False None))"
  by (simp_all add: example_info_def info_row_def info_column_rows_def NewSchema_def SetOffset_def insertable_row_def row_ok_def table_cols_def column_cols_def column_row_def
      NewColumn_def wf_column_def TypeID_Size_def storable_def wf_value_def value_defs var_size_def IsInlined_def go_str_def)

lemma insert_first:
  assumes "heap_ok nf ps s" and "tbl ps s = Map.empty" and "insertable_row cs vs" and "unat (npid s) < 524288"
  obtains r d s' ps' where "heap_ok nf ps' s'" "hd ps' = hd ps" "unat (npid s') \<le> Suc (unat (npid s))" "db_locks s' = db_locks s" "txn_id (db_txn s') = txn_id (db_txn s)"
    "tbl ps' s' = [r \<mapsto> (False, d)]" "row_mset cs [r \<mapsto> (False, d)] = {#Some vs#}" "grown ps s ps' s'"
proof -
  have e: "row_mset cs Map.empty = {#}" by (simp add: row_mset_def)
  obtain t :: tuple and r s' ps' where i: "heap_ok nf ps' s'" "hd ps' = hd ps" "unat (npid s') \<le> Suc (unat (npid s))" "db_locks s' = db_locks s" "txn_id (db_txn s') = txn_id (db_txn s)"
      "tbl ps' s' = (tbl ps s)(r \<mapsto> (False, t_data t))" "row_mset cs (tbl ps' s') = add_mset (Some vs) (row_mset cs (tbl ps s))" "grown ps s ps' s'"
    using insert_one [OF assms(1,3,4)] by (elim exE conjE) (rule that, assumption+)
  show thesis using i(7) unfolding i(6) assms(2) e by (rule that [OF i(1-5) i(6) [unfolded assms(2)] _ i(8)])
qed

lemma example_catalog_pages:
  obtains s ps0 ps1 where "heap_ok 8 ps0 s" "readable ps0 s" "hd ps0 = 0" "stored table_cols ps0 s [info_row example_info]"
    "heap_ok 8 ps1 s" "readable ps1 s" "hd ps1 = 1" "stored column_cols ps1 s (info_column_rows example_info)"
proof -
  let ?c = "column_row 5 (NewColumn [97] Integer False None)"
  have P: "pool_ok {} 8 (db_bpm example_heap)" "locks_in_sync (Some (db_ctx example_heap))" using example_heap_ok(2) by (simp_all add: heap_ok_def)
  obtain s1 where s1: "NewTableHeap False example_heap = Some (1, s1)" "heap_ok 8 [1] s1" "tbl [1] s1 = Map.empty" "kept_out {1} example_heap s1" "npid s1 = 2"
    using NewTableHeap_spec [OF P(1) _ _ P(2), of False] example_heap_ok(4) by auto
  have al1: "alone s1" using NewTableHeap_nolog [OF s1(1)] example_heap_table(2) by (simp add: alone_def)
  have p1: "pool_ok {} 8 (db_bpm s1)" "locks_in_sync (Some (db_ctx s1))" using s1(2) by (simp_all add: heap_ok_def)
  note H0 = heap_kept [OF example_heap_ok(2) s1(4) _ p1, simplified]
  have np1: "unat (npid s1) < 524288" and e0: "tbl [0] s1 = Map.empty" using s1(5) H0(2) example_heap_ok(3) by simp_all
  obtain d0 r0 s2 ps0 where i0: "heap_ok 8 ps0 s2" "hd ps0 = 0" "unat (npid s2) \<le> 3" "db_locks s2 = db_locks s1" "txn_id (db_txn s2) = txn_id (db_txn s1)"
      "tbl ps0 s2 = [r0 \<mapsto> (False, d0)]" "row_mset table_cols [r0 \<mapsto> (False, d0)] = {#Some (info_row example_info)#}" "grown [0] s1 ps0 s2"
    by (rule insert_first [OF H0(1) e0 example_info_rows(1) np1]) (use s1(5) in simp)
  have out: "1 \<notin> set ps0" using i0(8) s1(5) by (auto simp: grown_def)
  have p2: "pool_ok {} 8 (db_bpm s2)" "locks_in_sync (Some (db_ctx s2))" using i0(1) by (simp_all add: heap_ok_def)
  have k2: "kept_out (set ps0) s1 s2" using i0(8) by (simp add: grown_def)
  note H1 = heap_kept [OF s1(2) k2 _ p2]
  have np2: "unat (npid s2) < 524288" using i0(3) by simp
  have h1: "heap_ok 8 [1] s2" "tbl [1] s2 = Map.empty" using H1(1,2) out s1(3) by simp_all
  obtain d1 r1 s3 ps1 where i1: "heap_ok 8 ps1 s3" "hd ps1 = 1" "db_locks s3 = db_locks s2" "txn_id (db_txn s3) = txn_id (db_txn s2)"
      "tbl ps1 s3 = [r1 \<mapsto> (False, d1)]" "row_mset column_cols [r1 \<mapsto> (False, d1)] = {#Some ?c#}" "grown [1] s2 ps1 s3"
    by (rule insert_first [OF h1 example_info_rows(3) np2]) simp
  have lt: "unat q < unat (npid s2)" "q \<noteq> 1" if "q \<in> set ps0" for q using i0(8) that s1(5) by (auto simp: grown_def)
  have "set ps0 \<inter> set ps1 = {}" using lt i1(7) unfolding grown_def by fastforce
  moreover have "pool_ok {} 8 (db_bpm s3)" "locks_in_sync (Some (db_ctx s3))" "kept_out (set ps1) s2 s3" using i1(1,7) by (simp_all add: heap_ok_def grown_def)
  ultimately have H2: "heap_ok 8 ps0 s3" "tbl ps0 s3 = tbl ps0 s2" using heap_kept [OF i0(1)] by blast+
  have al: "alone s3" using al1 i0(4,5) i1(3,4) by (simp add: alone_def)
  have fit: "fits table_cols (info_row example_info)" "fits column_cols ?c" using example_info_rows(1,3) by (simp_all add: insertable_row_def fits_def)
  show thesis
    using that [of ps0 s3 ps1] H2(1) i0(2) i1(1,2) one_row [OF H2(1) al, of r0 "d0", OF _ _ fit(1)] one_row [OF i1(1) al i1(5,6) fit(2)] H2(2) i0(6,7) example_info_rows(2) by simp
qed

theorem catalog_recovered_witness:
  "\<exists>s c s'. RecoveryCatalogFromCatalogPage False s = Some (c, s') \<and> GetTableByName c [116] = Some (info_meta example_info) \<and>
     GetTableByOID c 5 = Some (info_meta example_info)"
proof (rule example_catalog_pages)
  fix s ps0 ps1
  assume a: "heap_ok 8 ps0 s" "readable ps0 s" "hd ps0 = 0" "stored table_cols ps0 s [info_row example_info]"
    "heap_ok 8 ps1 s" "readable ps1 s" "hd ps1 = 1" "stored column_cols ps1 s (info_column_rows example_info)"
  have "\<forall>(oid, name, first, cs) \<in> set [example_info]. \<forall>c \<in> set cs. \<not> hasIndex c" by (simp add: example_info_def NewColumn_def)
  then show ?thesis using catalog_recovered [OF a(1-3) _ a(5-7), of "[example_info]" False] a(4,8) by (auto simp: example_info_def)
qed

end
