(* ===== verification/Delete_Spec.thy ===== *)
theory Delete_Spec
  imports Query_Spec Transaction_Spec
begin

text \<open>
  DELETE.  The executor marks the selected records while it walks over the table; the iterator goes on from a marked
  record.  Committing then leaves the rows that were not selected, aborting all of them.
\<close>

subsection \<open>The order of the records\<close>

lemma page_rids_removed:
  assumes d: "tp_inv d" "tp_inv d'" and v: "\<And>r. PageId r = p \<Longrightarrow> used d' (unat (SlotNum r)) \<longleftrightarrow> used d (unat (SlotNum r)) \<and> r \<notin> X"
  shows "page_rids p d' k = filter (\<lambda>r. r \<notin> X) (page_rids p d k)"
proof -
  let ?L = "filter (\<lambda>j. rid_at p j \<notin> X) (filter (used d) [k..<cnt d])" and ?R = "filter (used d') [k..<cnt d']"
  have w: "unat (SlotNum (rid_at p j)) = j" if "j < cnt d \<or> j < cnt d'" for j
    using that slot_word [OF d(1), of j] slot_word [OF d(2), of j] by (auto simp: rid_at_def)
  have u: "used d' j \<longleftrightarrow> used d j \<and> rid_at p j \<notin> X" if "j < cnt d \<or> j < cnt d'" for j
    using v [of "rid_at p j"] w [OF that] by (simp add: rid_at_def)
  have "?R = ?L"
  proof (rule sorted_distinct_set_unique)
    show "set ?R = set ?L" using u by (auto simp: used_def)
  qed (simp_all add: sorted_wrt_filter)
  then show ?thesis by (simp add: page_rids_def filter_map comp_def)
qed

lemma chain_rids_removed:
  assumes c: "page_chain v ps" "page_chain v' ps" and X: "\<And>r. heap_view v' ps r \<noteq> None \<longleftrightarrow> heap_view v ps r \<noteq> None \<and> r \<notin> X"
    and p: "p \<in> set ps"
  shows "page_rids p (the (v' p)) k = filter (\<lambda>r. r \<notin> X) (page_rids p (the (v p)) k)"
proof -
  obtain d where d: "v p = Some d" "tp_inv d" by (rule chain_page [OF c(1) p])
  obtain d' where d': "v' p = Some d'" "tp_inv d'" by (rule chain_page [OF c(2) p])
  have "heap_view v ps r \<noteq> None \<longleftrightarrow> used d (unat (SlotNum r))" "heap_view v' ps r \<noteq> None \<longleftrightarrow> used d' (unat (SlotNum r))" if "PageId r = p" for r
    using that p d(1) d'(1) by (simp_all add: heap_view_def tp_view_def)
  then have "used d' (unat (SlotNum r)) \<longleftrightarrow> used d (unat (SlotNum r)) \<and> r \<notin> X" if "PageId r = p" for r
    using X [of r] that by blast
  then show ?thesis using page_rids_removed [OF d(2) d'(2)] d(1) d'(1) by simp
qed

lemma table_rids_removed:
  assumes "page_chain v ps" "page_chain v' ps" "\<And>r. heap_view v' ps r \<noteq> None \<longleftrightarrow> heap_view v ps r \<noteq> None \<and> r \<notin> X" and "set qs \<subseteq> set ps"
  shows "table_rids v' qs = filter (\<lambda>r. r \<notin> X) (table_rids v qs)"
  using assms(4)
proof (induction qs)
  case (Cons p qs)
  then show ?case using chain_rids_removed [OF assms(1-3), of p 0] by (simp add: table_rids_def)
qed (simp add: table_rids_def)

lemma rids_after_dom:
  assumes "page_chain v ps" "page_chain v' ps" "dom (heap_view v' ps) = dom (heap_view v ps)" and "i < length ps"
  shows "rids_after v' ps i r = rids_after v ps i r"
proof -
  have X: "heap_view v' ps r \<noteq> None \<longleftrightarrow> heap_view v ps r \<noteq> None \<and> r \<notin> {}" for r using assms(3) by blast
  show ?thesis
    using chain_rids_removed [OF assms(1,2) X, of "ps ! i" "Suc (unat (SlotNum r))"] assms(4) set_drop_subset [of "Suc i" ps]
      table_rids_removed [OF assms(1,2) X, of "drop (Suc i) ps"] by (simp add: rids_after_def)
qed

subsection \<open>Marking records\<close>

definition marked :: "rid set \<Rightarrow> (rid \<Rightarrow> (bool \<times> bytes) option) \<Rightarrow> rid \<Rightarrow> (bool \<times> bytes) option" where
  "marked X v r = (if r \<in> X then map_option (\<lambda>(_, bs). (True, bs)) (v r) else v r)"

lemma MarkDelete_nolog: "MarkDelete False r d x = Some (m, d', x') \<Longrightarrow> m \<Longrightarrow> x' = x"
  by (auto simp: MarkDelete_def lock_for_write_def log_write_def Let_def bind_Some_iff split: if_splits)

lemma MarkDelete_locks:
  assumes "TH_MarkDelete False p r s = Some (True, s')"
  shows "db_locks s' = db_locks s \<and> txn_id (db_txn s') = txn_id (db_txn s)"
proof -
  obtain f bp s1 d s2 where a: "on_page f (MarkDelete False r) (s\<lparr>db_bpm := bp\<rparr>) = Some (True, s1)" "unpin (GetTablePageId d) True s1 = Some s2"
      "s' = add_write r W_DELETE tuple_zero p s2"
    using assms by (auto simp: TH_MarkDelete_def bind_Some_iff Let_def split: option.splits)
  have "db_locks s1 = db_locks s \<and> db_txn s1 = db_txn s"
    using a(1) MarkDelete_nolog by (clarsimp simp: on_page_def bind_Some_iff put_ctx_def db_ctx_def Let_def) fastforce
  then show ?thesis using frame_locks(2) [OF a(2)] a(3) by (simp add: add_write_def AddIntoWriteSet_def)
qed

text \<open>Without logging a live record of the table is always marked.\<close>

lemma mark_live:
  assumes ok: "heap_ok nf ps s" and live: "tbl ps s r = Some (False, bs)"
  shows "\<exists>s'. TH_MarkDelete False first r s = Some (True, s') \<and> heap_ok nf ps s' \<and> tbl ps s' = (tbl ps s)(r \<mapsto> (True, bs)) \<and>
    txn_adds [wrote W_DELETE r tuple_zero first] (db_txn s) (db_txn s') \<and> db_locks s' = db_locks s \<and> owns False r s'"
proof -
  have "PageId r \<in> set ps" using live by (auto simp: heap_view_def split: if_splits)
  from TH_MarkDelete_spec [OF ok this, of False first] obtain m s' where m: "TH_MarkDelete False first r s = Some (m, s')" "heap_ok nf ps s'"
      "if m then \<exists>bs. tbl ps s r = Some (False, bs) \<and> tbl ps s' = (tbl ps s)(r \<mapsto> (True, bs)) \<and>
        txn_adds [wrote W_DELETE r tuple_zero first] (db_txn s) (db_txn s') \<and> owns False r s'
       else tbl ps s' = tbl ps s \<and> txn_adds [] (db_txn s) (db_txn s') \<and> (False \<or> (\<forall>bs. tbl ps s r \<noteq> Some (False, bs)))" by blast
  then show ?thesis using live MarkDelete_locks [of first r s s'] by (auto split: if_splits)
qed

subsection \<open>The executor\<close>

abbreviation selected :: "schema \<Rightarrow> Expression option \<Rightarrow> (rid \<Rightarrow> (bool \<times> bytes) option) \<Rightarrow> rid \<Rightarrow> bool" where
  "selected sch p v r \<equiv> selects (tuple_of v r) p sch = Some True"

text \<open>The executor still has to delete the tuples \<open>ts\<close>; then the table is \<open>F\<close> and the write set \<open>W\<close>.\<close>

definition del_src :: "ExecEnv \<Rightarrow> Expression option \<Rightarrow> u32 \<Rightarrow> nat \<Rightarrow> pageID list \<Rightarrow> tview \<Rightarrow> tview \<Rightarrow> WriteRecord list \<Rightarrow> tuple list \<Rightarrow> exec_state \<Rightarrow> db \<Rightarrow> bool" where
  "del_src env p oid nf ps v0 F W ts c s \<longleftrightarrow> (\<exists>tm cur rs s0. GetTableByOID (env_catalog env) oid = Some tm \<and>
     (\<forall>i \<in> set (column_numbers tm). i < length (tm_indexes tm)) \<and> set (tm_indexes tm) \<subseteq> {None} \<and> \<not> env_logging env \<and>
     c = Iterating cur \<and> cursor nf ps s0 rs cur s \<and> alone s \<and> distinct rs \<and> txn_inv False ps v0 s \<and>
     (\<forall>r \<in> set rs. selects (tuple_of (tbl ps s0) r) p (tm_schema tm) \<noteq> None) \<and>
     (let sel = filter (selected (tm_schema tm) p (tbl ps s0)) rs in
        ts = map (tuple_of (tbl ps s0)) sel \<and> F = marked (set sel) (tbl ps s0) \<and>
        W = write_set (db_txn s) @ map (\<lambda>r. wrote W_DELETE r tuple_zero (tm_table tm)) sel))"

definition deleted :: "nat \<Rightarrow> pageID list \<Rightarrow> tview \<Rightarrow> tview \<Rightarrow> WriteRecord list \<Rightarrow> db \<Rightarrow> bool" where
  "deleted nf ps v0 F W s \<longleftrightarrow> heap_ok nf ps s \<and> alone s \<and> tbl ps s = F \<and> write_set (db_txn s) = W \<and> txn_inv False ps v0 s"

lemma reads_alone: "reads nf s s' \<Longrightarrow> alone s \<Longrightarrow> alone s'"
  by (simp add: reads_def alone_def holds_exclusive_def)

lemma reads_txn_inv: "reads nf s s' \<Longrightarrow> heap_ok nf ps s \<Longrightarrow> txn_inv False ps v0 s \<Longrightarrow> txn_inv False ps v0 s'"
  using reads_heap(2) [of nf s s' ps] by (simp add: txn_inv_def reads_def assert_exclusive_def Let_def)

lemma reads_cursor: "cursor nf ps s0 rs cur s \<Longrightarrow> heap_ok nf ps s0 \<and> reads nf s0 s \<and> heap_ok nf ps s \<and> tbl ps s = tbl ps s0"
  using reads_heap(1,2) [of nf s0 s ps] by (simp add: cursor_def)

lemma filter_dropWhile: "filter P xs = filter P (dropWhile (\<lambda>x. \<not> P x) xs)"
  by (induction xs) auto

text \<open>The iterator goes on from a record that has changed.\<close>

lemma changed_next:
  assumes c: "cursor nf ps s0 (r # ys) (Some t) s" and al: "alone s" and d: "r \<notin> set ys" and ok: "heap_ok nf ps s1" and ch: "tbl ps s1 = (tbl ps s)(r \<mapsto> x)"
    and l: "db_locks s1 = db_locks s" "txn_id (db_txn s1) = txn_id (db_txn s)"
  shows "\<exists>nxt s'. it_Next False t s1 = Some (nxt, s') \<and> cursor nf ps s1 ys nxt s' \<and> alone s' \<and> reads nf s1 s'"
proof -
  note R = reads_cursor [OF c]
  obtain i where C: "t = tuple_of (tbl ps s0) r" "i < length ps" "PageId r = ps ! i" "rids_after (db_view s0) ps i r = ys" "tbl ps s r \<noteq> None"
      "\<forall>q \<in> set ys. live ps s0 q"
    using c R by (auto simp: cursor_def live_def)
  have p: "page_chain (db_view s0) ps" "page_chain (db_view s1) ps" using R ok by (simp_all add: heap_ok_def)
  have al1: "alone s1" using al l by (simp add: alone_def)
  have t: "t_rid t = Some r" by (simp add: C(1) tuple_of_def NewTuple_def Let_def)
  have "dom (tbl ps s1) = dom (tbl ps s0)" using ch C(5) R by auto
  then have ys: "rids_after (db_view s1) ps i r = ys" using rids_after_dom [OF p _ C(2)] C(4) by simp
  have lv: "live ps s1 q" if "q \<in> set ys" for q
    using C(6) that d ch R al1 by (auto simp: live_def alone_def)
  obtain nxt s' where n: "it_Next False t s1 = Some (nxt, s')" "cursor nf ps s1 ys nxt s'"
    using next_from [OF ok C(2,3) t _ ys, of False] lv ch by auto
  then show ?thesis using reads_alone [OF _ al1] by (auto simp: cursor_def)
qed

text \<open>Marking the current record and moving on.\<close>

lemma mark_next:
  assumes c: "cursor nf ps s0 (r # ys) (Some t) s" and al: "alone s" and d: "r \<notin> set ys" and inv: "txn_inv False ps v0 s"
  shows "\<exists>s1 nxt s'. TH_MarkDelete False first r s = Some (True, s1) \<and> it_Next False t s1 = Some (nxt, s') \<and> cursor nf ps s1 ys nxt s' \<and> alone s' \<and>
    txn_inv False ps v0 s' \<and> tbl ps s1 = marked {r} (tbl ps s0) \<and> write_set (db_txn s') = write_set (db_txn s) @ [wrote W_DELETE r tuple_zero first]"
proof -
  note R = reads_cursor [OF c]
  obtain bs where bs: "tbl ps s r = Some (False, bs)" using c R by (auto simp: cursor_def live_def)
  obtain s1 where m: "TH_MarkDelete False first r s = Some (True, s1)" "heap_ok nf ps s1" "tbl ps s1 = (tbl ps s)(r \<mapsto> (True, bs))"
      "txn_adds [wrote W_DELETE r tuple_zero first] (db_txn s) (db_txn s1)" "db_locks s1 = db_locks s" "owns False r s1"
    using mark_live [OF _ bs] R by blast
  have id: "txn_id (db_txn s1) = txn_id (db_txn s)" using m(4) by (simp add: txn_adds_def)
  have inv1: "txn_inv False ps v0 s1" by (rule txn_inv_delete [OF inv m(4,6) bs m(3)])
  obtain nxt s' where n: "it_Next False t s1 = Some (nxt, s')" "cursor nf ps s1 ys nxt s'" "alone s'" "reads nf s1 s'"
    using changed_next [OF c al d m(2,3,5) id] by blast
  have "write_set (db_txn s') = write_set (db_txn s) @ [wrote W_DELETE r tuple_zero first]" using n(4) m(4) by (simp add: reads_def txn_adds_def)
  moreover have "tbl ps s1 = marked {r} (tbl ps s0)" using m(3) bs R by (auto simp: marked_def fun_eq_iff)
  ultimately show ?thesis using m(1) n reads_txn_inv [OF n(4) m(2) inv1] by blast
qed

lemma marked_marked: "marked X (marked Y v) = marked (X \<union> Y) v"
  by (auto simp: marked_def fun_eq_iff option.map_comp comp_def split_def)

lemma marked_Nil [simp]: "marked {} v = v"
  by (simp add: marked_def fun_eq_iff)

lemma delete_step:
  assumes "del_src env p oid nf ps v0 F W ts c s"
  obtains (stop) s' where "ts = []" "Exec_Next (DeletePlanNode p oid) env c s = Some ((None, True, False), Iterating None, s')" "deleted nf ps v0 F W s'"
    | (give) t ts' c' s' where "ts = t # ts'" "Exec_Next (DeletePlanNode p oid) env c s = Some ((Some t, False, False), c', s')"
        "del_src env p oid nf ps v0 F W ts' c' s'"
proof -
  obtain tm cur rs s0 where tm: "GetTableByOID (env_catalog env) oid = Some tm" "\<forall>i \<in> set (column_numbers tm). i < length (tm_indexes tm)"
      "set (tm_indexes tm) \<subseteq> {None}" "\<not> env_logging env"
    and A: "c = Iterating cur" "cursor nf ps s0 rs cur s" "alone s" "distinct rs" "txn_inv False ps v0 s"
      "\<forall>r \<in> set rs. selects (tuple_of (tbl ps s0) r) p (tm_schema tm) \<noteq> None"
    and sel: "ts = map (tuple_of (tbl ps s0)) (filter (selected (tm_schema tm) p (tbl ps s0)) rs)"
      "F = marked (set (filter (selected (tm_schema tm) p (tbl ps s0)) rs)) (tbl ps s0)"
      "W = write_set (db_txn s) @ map (\<lambda>r. wrote W_DELETE r tuple_zero (tm_table tm)) (filter (selected (tm_schema tm) p (tbl ps s0)) rs)"
    using assms unfolding del_src_def Let_def by blast
  let ?sel = "selected (tm_schema tm) p (tbl ps s0)"
  let ?rs = "dropWhile (\<lambda>r. \<not> ?sel r) rs"
  note S = sel [unfolded filter_dropWhile [of ?sel rs]]
  obtain cur1 s1 where f: "find_selected False p (tm_schema tm) cur s = Some (cur1, s1)" "cursor nf ps s0 ?rs cur1 s1"
    using find_selected_spec [OF A(2,6)] by blast
  note R0 = reads_cursor [OF A(2)] and R1 = reads_cursor [OF f(2)]
  have s1: "alone s1" "txn_inv False ps v0 s1" "write_set (db_txn s1) = write_set (db_txn s)"
  proof -
    have "exclusive_lock_table (db_locks s1) = exclusive_lock_table (db_locks s)" "txn_id (db_txn s1) = txn_id (db_txn s)"
      and w: "write_set (db_txn s1) = write_set (db_txn s)" using R0 R1 by (simp_all add: reads_def)
    then show "alone s1" "txn_inv False ps v0 s1" "write_set (db_txn s1) = write_set (db_txn s)"
      using A(3,5) R0 R1 by (simp_all add: alone_def holds_exclusive_def txn_inv_def assert_exclusive_def)
  qed
  show thesis
  proof (cases ?rs)
    case Nil
    have "cur1 = None" using f(2) unfolding Nil by (simp add: cursor_def)
    moreover have "deleted nf ps v0 F W s1" "ts = []" using S R1 s1 unfolding Nil by (simp_all add: deleted_def)
    ultimately show thesis using stop [of s1] f(1) A(1) tm(1,4) by (simp add: Delete_Next_def)
  next
    case (Cons r ys)
    let ?t = "tuple_of (tbl ps s0) r"
    have r: "?sel r" using hd_dropWhile [of "\<lambda>r. \<not> ?sel r" rs] Cons by auto
    have d: "r \<notin> set ys" "distinct ys" using distinct_dropWhile [OF A(4), of "\<lambda>r. \<not> ?sel r"] Cons by simp_all
    have sub: "set ys \<subseteq> set rs" using set_dropWhileD [of _ "\<lambda>r. \<not> ?sel r" rs] Cons by auto
    have cur1: "cur1 = Some ?t" using f(2) Cons by (simp add: cursor_def)
    obtain s2 nxt s3 where m: "TH_MarkDelete False (tm_table tm) r s1 = Some (True, s2)" "it_Next False ?t s2 = Some (nxt, s3)" "cursor nf ps s2 ys nxt s3"
        "alone s3" "txn_inv False ps v0 s3" "tbl ps s2 = marked {r} (tbl ps s0)"
        "write_set (db_txn s3) = write_set (db_txn s1) @ [wrote W_DELETE r tuple_zero (tm_table tm)]"
      using mark_next [OF _ s1(1) d(1) s1(2)] f(2) Cons cur1 by metis
    have same: "tuple_of (tbl ps s2) q = tuple_of (tbl ps s0) q" if "q \<in> set ys" for q using that d(1) m(6) by (auto simp: tuple_of_def marked_def)
    have fl: "filter (selected (tm_schema tm) p (tbl ps s2)) ys = filter ?sel ys" using same by (auto intro!: filter_cong)
    have ix: "each_index g tm (column_numbers tm) s2 = Some s2" for g by (rule no_indexes [OF tm(2,3)])
    have "Exec_Next (DeletePlanNode p oid) env c s = Some ((Some ?t, False, False), Iterating nxt, s3)"
      using A(1) tm(1,4) f(1) cur1 m(1,2) ix by (simp add: Delete_Next_def) (simp add: tuple_of_def NewTuple_def Let_def)
    moreover have ts: "ts = ?t # map (tuple_of (tbl ps s2)) (filter ?sel ys)" using S(1) same r unfolding Cons by simp
    moreover have "del_src env p oid nf ps v0 F W (map (tuple_of (tbl ps s2)) (filter ?sel ys)) (Iterating nxt) s3"
      unfolding del_src_def Let_def
    proof (intro exI conjI)
      show "F = marked (set (filter (selected (tm_schema tm) p (tbl ps s2)) ys)) (tbl ps s2)"
        unfolding fl unfolding m(6) marked_marked using S(2) r unfolding Cons by simp
      show "W = write_set (db_txn s3) @ map (\<lambda>r. wrote W_DELETE r tuple_zero (tm_table tm)) (filter (selected (tm_schema tm) p (tbl ps s2)) ys)"
        unfolding fl using S(3) r m(7) s1(3) unfolding Cons by simp
      show "\<forall>q \<in> set ys. selects (tuple_of (tbl ps s2) q) p (tm_schema tm) \<noteq> None" using A(6) sub same by auto
    qed (use tm m(3-5) d(2) fl in simp_all)
    ultimately show thesis using give by blast
  qed
qed

interpretation del: tuple_stream "Exec_Next (DeletePlanNode p oid) env" "del_src env p oid nf ps v0 F W" "deleted nf ps v0 F W"
proof
  show "\<exists>c' s'. Exec_Next (DeletePlanNode p oid) env c s = Some ((None, True, False), c', s') \<and> deleted nf ps v0 F W s'"
    if "del_src env p oid nf ps v0 F W [] c s" for c s
    using that by (rule delete_step) simp_all
  show "\<exists>c' s'. Exec_Next (DeletePlanNode p oid) env c s = Some ((Some t, False, False), c', s') \<and> del_src env p oid nf ps v0 F W ts c' s'"
    if "del_src env p oid nf ps v0 F W (t # ts) c s" for t ts c s
    using that by (rule delete_step) simp_all
qed

subsection \<open>The rows that are left\<close>

lemma list_all2_filter:
  "list_all2 P xs ys \<Longrightarrow> (\<And>x y. x \<in> set xs \<Longrightarrow> P x y \<Longrightarrow> f x = g y) \<Longrightarrow> list_all2 P (filter f xs) (filter g ys)"
  by (induction rule: list_all2_induct) auto

text \<open>Removing records: the table then stores the rows of the others.\<close>

lemma stored_removed:
  assumes c: "page_chain (db_view s) ps" "page_chain (db_view s') ps" and st: "stored cs ps s rows"
    and t: "tbl ps s' = (\<lambda>r. if r \<in> X then None else tbl ps s r)"
    and g: "\<And>r vs. r \<in> set (table_rids (db_view s) ps) \<Longrightarrow> fits cs vs \<Longrightarrow> decode_row cs (tuple_of (tbl ps s) r) = Some vs \<Longrightarrow> r \<notin> X \<longleftrightarrow> g vs"
  shows "stored cs ps s' (filter g rows)"
proof -
  let ?rs = "table_rids (db_view s) ps"
  have r: "table_rids (db_view s') ps = filter (\<lambda>r. r \<notin> X) ?rs" by (rule table_rids_removed [OF c]) (simp_all add: t)
  have "list_all2 (\<lambda>r vs. fits cs vs \<and> decode_row cs (tuple_of (tbl ps s) r) = Some vs) (filter (\<lambda>r. r \<notin> X) ?rs) (filter g rows)"
    using st g unfolding stored_def by (intro list_all2_filter) auto
  moreover have "tuple_of (tbl ps s') r = tuple_of (tbl ps s) r" if "r \<notin> X" for r using that by (simp add: t tuple_of_def)
  ultimately show ?thesis unfolding stored_def r by (auto elim!: list.rel_mono_strong)
qed

lemma delete_exec:
  assumes t: "table_ok env oid cs nf ps s rows" and tm: "GetTableByOID (env_catalog env) oid = Some tm" "tm_indexes tm = replicate (length cs) None"
    and env: "\<not> env_logging env" "alone s" and p: "well_typed cs p" and inv: "txn_inv False ps v0 s"
  defines "sel \<equiv> filter (selected (NewSchema cs) p (tbl ps s)) (table_rids (db_view s) ps)"
  shows "\<exists>ts s'. Execute env (DeletePlanNode p oid) s = Some (ts, s') \<and> list_all2 (\<lambda>t vs. decode_row cs t = Some vs) ts (filter (row_selects p) rows) \<and>
    deleted nf ps v0 (marked (set sel) (tbl ps s)) (write_set (db_txn s) @ map (\<lambda>r. wrote W_DELETE r tuple_zero (tm_table tm)) sel) s' \<and>
    length sel = length (filter (row_selects p) rows)"
proof -
  let ?rs = "table_rids (db_view s) ps"
  have T: "heap_ok nf ps s" "readable ps s" "stored cs ps s rows" "tm_schema tm = NewSchema cs" "tm_table tm = hd ps"
    using t tm(1) by (auto simp: table_ok_def)
  have ch: "page_chain (db_view s) ps" using T(1) by (simp add: heap_ok_def)
  have s: "selects (tuple_of (tbl ps s) r) p (NewSchema cs) = Some (row_selects p vs)" if "fits cs vs" "decode_row cs (tuple_of (tbl ps s) r) = Some vs" for r vs
    by (rule selects_row [OF that(2,1) p])
  have tot: "\<forall>r \<in> set ?rs. selects (tuple_of (tbl ps s) r) p (tm_schema tm) \<noteq> None"
    using T(3,4) s by (fastforce simp: stored_def list_all2_conv_all_nth in_set_conv_nth)
  have all: "list_all2 (\<lambda>r vs. fits cs vs \<and> decode_row cs (tuple_of (tbl ps s) r) = Some vs) sel (filter (row_selects p) rows)"
    unfolding sel_def by (rule list_all2_filter [OF T(3) [unfolded stored_def]]) (use s in auto)
  obtain cur s1 where i: "GetFirstTuple False (hd ps) s = Some (cur, s1)" "cursor nf ps s ?rs cur s1" using cursor_first [OF T(1,2)] by blast
  have rd: "reads nf s s1" using i(2) by (simp add: cursor_def)
  have ix: "\<forall>i \<in> set (column_numbers tm). i < length (tm_indexes tm)" "set (tm_indexes tm) \<subseteq> {None}"
    using tm(2) T(4) by (auto simp: GetColumnNum_def GetColumnCount_def NewSchema_eq unat_of_nat)
  have ws: "write_set (db_txn s1) = write_set (db_txn s)" using rd by (simp add: reads_def)
  have "del_src env p oid nf ps v0 (marked (set sel) (tbl ps s)) (write_set (db_txn s) @ map (\<lambda>r. wrote W_DELETE r tuple_zero (tm_table tm)) sel)
      (map (tuple_of (tbl ps s)) sel) (Iterating cur) s1"
    unfolding del_src_def Let_def
    by (rule exI [of _ tm], rule exI [of _ cur], rule exI [of _ ?rs], rule exI [of _ s])
      (simp add: tm(1) ix env(1) i(2) ws reads_alone [OF rd env(2)] reads_txn_inv [OF rd T(1) inv] table_rids_distinct [OF ch] tot [unfolded T(4), simplified] T(4) sel_def [symmetric])
  from del.run_executor_src [OF this, of "[]"] obtain s' where "run_executor (Exec_Next (DeletePlanNode p oid) env) [] (Iterating cur) s1 = Some (map (tuple_of (tbl ps s)) sel, s')"
      "deleted nf ps v0 (marked (set sel) (tbl ps s)) (write_set (db_txn s) @ map (\<lambda>r. wrote W_DELETE r tuple_zero (tm_table tm)) sel) s'" by auto
  then show ?thesis
    using i(1) env(1) tm(1) T(5) all list_all2_lengthD [OF all] by (auto simp: Execute_def Scan_Init_def list_all2_map1 elim!: list.rel_mono_strong)
qed

subsection \<open>Properties\<close>

text \<open>C15: executing a DELETE with a well-typed predicate on a table without indexes (no logging, no other writer, nothing
  written before in the transaction) ends without a panic and returns exactly the selected rows.  Committing the transaction
  then ends and leaves the table with exactly the rows that were not selected, in their order; aborting it instead
  ends and leaves all rows.  Both need a frame of the buffer pool for each deleted row, since the commit never gives them back.\<close>

theorem delete_rows:
  assumes t: "table_ok env oid cs nf ps s rows" and tm: "GetTableByOID (env_catalog env) oid = Some tm" "tm_indexes tm = replicate (length cs) None"
    and env: "\<not> env_logging env" "alone s" "write_set (db_txn s) = []" and p: "well_typed cs p" and nf: "length (filter (row_selects p) rows) + 2 \<le> nf"
    and mgr: "latch_readers mgr \<noteq> 0"
  shows "\<exists>ts s1. Execute env (DeletePlanNode p oid) s = Some (ts, s1) \<and> list_all2 (\<lambda>t vs. decode_row cs t = Some vs) ts (filter (row_selects p) rows) \<and>
    (\<exists>mgr' s'. Commit False mgr s1 = Some (mgr', s') \<and> page_chain (db_view s') ps \<and> stored cs ps s' (filter (\<lambda>vs. \<not> row_selects p vs) rows)) \<and>
    (\<exists>mgr' s'. Abort False mgr s1 = Some (mgr', s') \<and> page_chain (db_view s') ps \<and> stored cs ps s' rows)"
proof -
  let ?sel = "filter (selected (NewSchema cs) p (tbl ps s)) (table_rids (db_view s) ps)"
  let ?W = "map (\<lambda>r. wrote W_DELETE r tuple_zero (tm_table tm)) ?sel"
  have T: "heap_ok nf ps s" "stored cs ps s rows" using t by (simp_all add: table_ok_def)
  have ch: "page_chain (db_view s) ps" using T(1) by (simp add: heap_ok_def)
  have inv: "txn_inv False ps (tbl ps s) s" using env(3) by (simp add: txn_inv_def dels_def)
  obtain ts s1 where d: "Execute env (DeletePlanNode p oid) s = Some (ts, s1)" "list_all2 (\<lambda>t vs. decode_row cs t = Some vs) ts (filter (row_selects p) rows)"
      "deleted nf ps (tbl ps s) (marked (set ?sel) (tbl ps s)) ?W s1" "length ?sel = length (filter (row_selects p) rows)"
    using delete_exec [OF t tm env(1,2) p inv] env(3) by auto
  have D: "heap_ok nf ps s1" "txn_inv False ps (tbl ps s) s1" "tbl ps s1 = marked (set ?sel) (tbl ps s)" and W: "write_set (db_txn s1) = ?W"
    using d(3) by (simp_all add: deleted_def)
  have w: "dels ?W = ?sel" "inserts ?W = 0" by (simp_all add: dels_def inserts_def filter_map comp_def)
  obtain s' where c: "Commit False mgr s1 = Some (mgr\<lparr>latch_readers := latch_readers mgr - 1\<rparr>, s')" "page_chain (db_view s') ps"
      "tbl ps s' = (\<lambda>r. if r \<in> set ?sel then None else tbl ps s1 r)"
    using Commit_spec [OF D(1,2) _ mgr] nf d(4) W w(1) by (auto simp: table_store_def)
  obtain s'' where a: "Abort False mgr s1 = Some (mgr\<lparr>latch_readers := latch_readers mgr - 1\<rparr>, s'')" "page_chain (db_view s'') ps" "tbl ps s'' = tbl ps s"
    using Abort_spec [OF D(1,2) _ mgr] nf W w(2) by (auto simp: table_store_def)
  have "stored cs ps s' (filter (\<lambda>vs. \<not> row_selects p vs) rows)"
    by (rule stored_removed [OF ch c(2) T(2), where X = "set ?sel"]) (use selects_row [OF _ _ p] in \<open>auto simp: c(3) D(3) marked_def\<close>)
  moreover have "stored cs ps s'' (filter (\<lambda>_. True) rows)" by (rule stored_removed [OF ch a(2) T(2), where X = "{}"]) (simp_all add: a(3))
  ultimately show ?thesis using d(1,2) c(1,2) a(1,2) by auto
qed

lemma emptied_write_set:
  "table_ok env oid cs nf ps (SetWriteSet ws s) rows \<longleftrightarrow> table_ok env oid cs nf ps s rows" "alone (SetWriteSet ws s) \<longleftrightarrow> alone s"
  "write_set (db_txn (SetWriteSet ws s)) = ws"
  by (simp_all add: table_ok_def heap_ok_def readable_def stored_def SetWriteSet_def locks_in_sync_def db_ctx_def IsExclusiveLocked_def alone_def)

theorem delete_rows_witness:
  "\<exists>s t s1 mgr' s' ps. Execute example_env (InsertPlanNode example_rows 1) example_heap = Some ([], s) \<and>
     Execute example_env (DeletePlanNode (Some example_pred) 1) (SetWriteSet [] s) = Some ([t], s1) \<and>
     decode_row example_columns t = Some [NewInteger 7, NewVarchar [1, 2, 3]] \<and>
     Commit False example_tm s1 = Some (mgr', s') \<and> stored example_columns ps s' [[NewInteger 3, NewVarchar [4]]]"
proof (rule example_loaded)
  fix s ps rows
  assume a: "Execute example_env (InsertPlanNode example_rows 1) example_heap = Some ([], s)" "table_ok example_env 1 example_columns 8 ps s rows"
    "mset rows = mset example_rows" "alone s"
  let ?s = "SetWriteSet [] s"
  have t: "table_ok example_env 1 example_columns 8 ps ?s rows" "alone ?s" "write_set (db_txn ?s) = []" using a(2,4) by (simp_all add: emptied_write_set)
  note F = example_filter [OF a(3)]
  have "length (filter (row_selects (Some example_pred)) rows) + 2 \<le> 8" "latch_readers example_tm \<noteq> 0" by (simp_all add: F(1) example_tm_def)
  from delete_rows [OF t(1) example_insert_hyps(1-3) t(2,3) example_typed(1) this] a(1) show ?thesis
    unfolding F by (fastforce simp: list_all2_Cons2)
qed

end
