(* ===== verification/Update_Spec.thy ===== *)
theory Update_Spec
  imports Delete_Spec
begin

text \<open>
  UPDATE.  The new values of all columns, or of the listed ones, replace those of the selected rows.  An update that
  does not make a record longer is done in place, so the walk over the table meets every record once.
\<close>

subsection \<open>The updated row\<close>

definition updated_row :: "int list option \<Rightarrow> sql_value list \<Rightarrow> sql_value list \<Rightarrow> sql_value list" where
  "updated_row idxs vals vs = (case idxs of None \<Rightarrow> vals | Some js \<Rightarrow> map (\<lambda>i. if int i \<in> set js then vals ! i else vs ! i) [0..<length vs])"

text \<open>The columns are listed in ascending order: the program compares them with the next column number one after the other.\<close>

definition idxs_ok :: "int list option \<Rightarrow> bool" where
  "idxs_ok idxs \<longleftrightarrow> (case idxs of None \<Rightarrow> True | Some js \<Rightarrow> sorted_wrt (<) js \<and> (\<forall>j \<in> set js. 0 \<le> j))"

lemma merge_values_row:
  assumes new: "decode_row cs new = Some vals" and old: "decode_row cs old = Some vs"
  shows "idx + length xs = length cs \<Longrightarrow> sorted_wrt (<) js \<Longrightarrow> \<forall>j \<in> set js. int idx \<le> j \<Longrightarrow>
    merge_values idx js xs (NewSchema cs) new old = Some (map (\<lambda>i. if int i \<in> set js then vals ! i else vs ! i) [idx..<length cs])"
proof (induction xs arbitrary: idx js)
  case (Cons x xs)
  have i: "idx < length cs" "Suc idx + length xs = length cs" using Cons.prems(1) by simp_all
  have v: "GetValue new (NewSchema cs) (of_nat idx) = Some (vals ! idx)" "GetValue old (NewSchema cs) (of_nat idx) = Some (vs ! idx)"
    using new old i(1) unfolding decode_row_iff by blast+
  have u: "[idx..<length cs] = idx # [Suc idx..<length cs]" using i(1) by (simp add: upt_conv_Cons)
  show ?case
  proof (cases "js \<noteq> [] \<and> int idx = hd js")
    case True
    then obtain ks where js: "js = int idx # ks" by (cases js) auto
    have k: "sorted_wrt (<) ks" "\<forall>j \<in> set ks. int (Suc idx) \<le> j" using Cons.prems(2) js by auto
    have "map (\<lambda>i. if int i \<in> set ks then vals ! i else vs ! i) [Suc idx..<length cs] = map (\<lambda>i. if int i \<in> set js then vals ! i else vs ! i) [Suc idx..<length cs]"
      using js by (auto intro!: map_cong)
    then show ?thesis using Cons.IH [OF i(2) k] v(1) js u by simp
  next
    case False
    have k: "\<forall>j \<in> set js. int (Suc idx) \<le> j" using Cons.prems(2,3) False by (cases js) auto
    then have "int idx \<notin> set js" by auto
    then show ?thesis using Cons.IH [OF i(2) Cons.prems(2) k] v(2) u False by auto
  qed
qed simp

text \<open>The loop never comes back to a column it has passed: when the second listed column is smaller than the first, all
  listed columns but the first keep their old values.\<close>

lemma merge_values_passed:
  assumes old: "decode_row cs old = Some vs"
  shows "idx + length xs = length cs \<Longrightarrow> k < int idx \<Longrightarrow>
    merge_values idx (k # ks) xs (NewSchema cs) new old = Some (map ((!) vs) [idx..<length cs])"
proof (induction xs arbitrary: idx)
  case (Cons x xs)
  have i: "idx < length cs" "Suc idx + length xs = length cs" "k < int (Suc idx)" using Cons.prems by simp_all
  then have "GetValue old (NewSchema cs) (of_nat idx) = Some (vs ! idx)" using old unfolding decode_row_iff by blast
  moreover have "[idx..<length cs] = idx # [Suc idx..<length cs]" using i(1) by (simp add: upt_conv_Cons)
  ultimately show ?case using Cons.IH [OF i(2,3)] Cons.prems(2) by simp
qed simp

lemma merge_values_unordered:
  assumes new: "decode_row cs new = Some vals" and old: "decode_row cs old = Some vs" and k: "k < j"
  shows "idx + length xs = length cs \<Longrightarrow> int idx \<le> j \<Longrightarrow>
    merge_values idx (j # k # ks) xs (NewSchema cs) new old = Some (map (\<lambda>i. if int i = j then vals ! i else vs ! i) [idx..<length cs])"
proof (induction xs arbitrary: idx)
  case (Cons x xs)
  have i: "idx < length cs" "Suc idx + length xs = length cs" using Cons.prems(1) by simp_all
  have v: "GetValue new (NewSchema cs) (of_nat idx) = Some (vals ! idx)" "GetValue old (NewSchema cs) (of_nat idx) = Some (vs ! idx)"
    using new old i(1) unfolding decode_row_iff by blast+
  have u: "[idx..<length cs] = idx # [Suc idx..<length cs]" using i(1) by (simp add: upt_conv_Cons)
  show ?case
  proof (cases "int idx = j")
    case True
    have "map ((!) vs) [Suc idx..<length cs] = map (\<lambda>i. if int i = j then vals ! i else vs ! i) [Suc idx..<length cs]" using True by auto
    then show ?thesis using merge_values_passed [OF old i(2), of k ks new] k True v(1) u by simp
  next
    case False
    then show ?thesis using Cons.IH [OF i(2)] Cons.prems(2) v(2) u by simp
  qed
qed simp

theorem update_unordered_columns_lost:
  assumes "decode_row cs new = Some vals" and "decode_row cs old = Some vs" and "k < j" and "0 \<le> j"
  shows "merge_values 0 (j # k # ks) (columns (NewSchema cs)) (NewSchema cs) new old = Some (map (\<lambda>i. if int i = j then vals ! i else vs ! i) [0..<length cs])"
  using merge_values_unordered [OF assms(1-3), of 0 "columns (NewSchema cs)"] assms(4) by (simp add: NewSchema_eq)

lemma update_row_values:
  assumes new: "NewTupleFromSchema vals (NewSchema cs) = Some new" "fits cs vals" and old: "decode_row cs old = Some vs" and idxs: "idxs_ok idxs"
    and fit: "fits cs (updated_row idxs vals vs)"
  shows "\<exists>u. update_row idxs (case idxs of None \<Rightarrow> None | Some _ \<Rightarrow> Some (NewSchema cs)) new old = Some u \<and> wf_tuple u \<and>
    length (t_data u) = cells cs + vars cs (updated_row idxs vals vs) \<and> decode_row cs u = Some (updated_row idxs vals vs)"
proof -
  obtain t where t: "NewTupleFromSchema vals (NewSchema cs) = Some t" "wf_tuple t" "length (t_data t) = cells cs + vars cs vals" "decode_row cs t = Some vals"
    by (rule row_tuple [OF new(2)])
  obtain u where u: "NewTupleFromSchema (updated_row idxs vals vs) (NewSchema cs) = Some u" "wf_tuple u"
      "length (t_data u) = cells cs + vars cs (updated_row idxs vals vs)" "decode_row cs u = Some (updated_row idxs vals vs)"
    by (rule row_tuple [OF fit])
  show ?thesis
  proof (cases idxs)
    case None
    then show ?thesis using t new(1) by (simp add: update_row_def updated_row_def)
  next
    case (Some js)
    have js: "sorted_wrt (<) js" "\<forall>j \<in> set js. int 0 \<le> j" using idxs Some by (simp_all add: idxs_ok_def)
    have l: "length (columns (NewSchema cs)) = length cs" "length vs = length cs" using old by (simp_all add: NewSchema_eq decode_row_iff)
    have "decode_row cs new = Some vals" using t(1,4) new(1) by simp
    from merge_values_row [OF this old _ js, of "columns (NewSchema cs)"]
    have "merge_values 0 js (columns (NewSchema cs)) (NewSchema cs) new old = Some (updated_row idxs vals vs)"
      using Some l by (simp add: updated_row_def)
    then show ?thesis using u Some by (simp add: update_row_def)
  qed
qed

subsection \<open>Updating in place\<close>

lemma update_page_nolog: "update_page False new idxs sch r d x = Some (((ok, err, follow), old), d', x') \<Longrightarrow> x' = x"
  by (auto simp: update_page_def UpdateTuple_def lock_for_write_def log_write_def abort_txn_def Let_def bind_Some_iff split: if_splits)

lemma update_in_place:
  assumes ok: "heap_ok nf ps s" and live: "tbl ps s r = Some (False, bs)" and new: "t_size new \<noteq> 0"
    and upd: "update_row idxs sch new (NewTuple (Some r) (of_nat (length bs)) bs) = Some u" and u: "wf_tuple u" "t_size u \<noteq> 0" and len: "length (t_data u) \<le> length bs"
  shows "\<exists>s'. TH_UpdateTuple False first new idxs sch r s = Some ((True, None), s') \<and> heap_ok nf ps s' \<and> tbl ps s' = (tbl ps s)(r \<mapsto> (False, t_data u)) \<and>
    db_locks s' = db_locks s \<and> txn_id (db_txn s') = txn_id (db_txn s)"
proof -
  define old where "old = NewTuple (Some r) (of_nat (length bs)) bs"
  obtain f bp s1 d' s2 b err follow where a: "FetchPage (GetPageId r) (db_bpm s) = Some (Some f, bp)"
      "on_page f (update_page False new idxs sch r) (s\<lparr>db_bpm := bp\<rparr>) = Some (((b, err, follow), old), s1)" "page_bytes f s1 = Some d'"
      "unpin (GetTablePageId d') b s1 = Some s2" "heap_ok nf ps s2" "txn_adds [] (db_txn s) (db_txn s2)" "npid s2 = npid s"
      "if b then err = None \<and> tbl ps s2 = (tbl ps s)(r \<mapsto> (False, t_data u)) \<and> owns False r s2 \<and> tx_state (db_txn s2) = tx_state (db_txn s)
       else tbl ps s2 = tbl ps s \<and> (err = Some ErrNotEnoughSpace \<and> follow = Some u \<and> length bs < unat (t_size u) \<or>
         err = None \<and> False \<and> assert_exclusive False r (Some (db_ctx s)) = None)"
    using update_access [OF ok live new upd u, of False] unfolding old_def by blast
  have b: "b" using a(8) len u(1) by (auto simp: wf_tuple_def split: if_splits)
  define s3 where "s3 = (if tx_state (db_txn s2) \<noteq> ABORTED then add_write r W_UPDATE old first s2 else s2)"
  have "TH_UpdateTuple False first new idxs sch r s = Some ((True, None), s3)" using a(1-4,8) b by (simp add: TH_UpdateTuple_def Let_def s3_def)
  moreover have "db_locks s1 = db_locks s \<and> db_txn s1 = db_txn s" using on_page_locks [OF a(2)] update_page_nolog by fastforce
  then have "db_locks s3 = db_locks s" "txn_id (db_txn s3) = txn_id (db_txn s)" using frame_locks(2) [OF a(4)] by (simp_all add: s3_def add_write_def AddIntoWriteSet_def)
  moreover have "heap_ok nf ps s3" "db_bpm s3 = db_bpm s2" using a(5) by (simp_all add: s3_def)
  ultimately show ?thesis using a(8) b by auto
qed

subsection \<open>The executor\<close>

definition rewritten :: "(tuple \<Rightarrow> tuple) \<Rightarrow> rid set \<Rightarrow> tview \<Rightarrow> tview" where
  "rewritten f X v r = (if r \<in> X then Some (False, t_data (f (tuple_of v r))) else v r)"

text \<open>How a record changes, and that it changes in place.\<close>

definition new_record :: "schema \<Rightarrow> int list option \<Rightarrow> tuple \<Rightarrow> tuple \<Rightarrow> tuple option" where
  "new_record sch idxs new old = update_row idxs (case idxs of None \<Rightarrow> None | Some _ \<Rightarrow> Some sch) new old"

definition in_place :: "schema \<Rightarrow> int list option \<Rightarrow> tuple \<Rightarrow> tuple \<Rightarrow> bool" where
  "in_place sch idxs new old \<longleftrightarrow> (case new_record sch idxs new old of Some u \<Rightarrow> wf_tuple u \<and> t_size u \<noteq> 0 \<and> length (t_data u) \<le> length (t_data old) | None \<Rightarrow> False)"

text \<open>The executor still has to update the selected ones of the records that are left; then the table is \<open>F\<close>.\<close>

definition upd_src :: "ExecEnv \<Rightarrow> sql_value list \<Rightarrow> int list option \<Rightarrow> Expression option \<Rightarrow> u32 \<Rightarrow> nat \<Rightarrow> pageID list \<Rightarrow> tview \<Rightarrow> tuple list \<Rightarrow> exec_state \<Rightarrow> db \<Rightarrow> bool" where
  "upd_src env vals idxs p oid nf ps F ts c s \<longleftrightarrow> (\<exists>tm cur rs s0 new. GetTableByOID (env_catalog env) oid = Some tm \<and>
     (\<forall>i \<in> set (column_numbers tm). i < length (tm_indexes tm)) \<and> set (tm_indexes tm) \<subseteq> {None} \<and> \<not> env_logging env \<and>
     c = Iterating cur \<and> cursor nf ps s0 rs cur s \<and> alone s \<and> distinct rs \<and> NewTupleFromSchema vals (tm_schema tm) = Some new \<and> t_size new \<noteq> 0 \<and>
     (\<forall>r \<in> set rs. selects (tuple_of (tbl ps s0) r) p (tm_schema tm) \<noteq> None) \<and>
     (let sel = filter (selected (tm_schema tm) p (tbl ps s0)) rs in
        (\<forall>r \<in> set sel. in_place (tm_schema tm) idxs new (tuple_of (tbl ps s0) r)) \<and>
        ts = map (\<lambda>_. new) sel \<and> F = rewritten (\<lambda>t. the (new_record (tm_schema tm) idxs new t)) (set sel) (tbl ps s0)))"

definition all_updated :: "nat \<Rightarrow> pageID list \<Rightarrow> tview \<Rightarrow> db \<Rightarrow> bool" where
  "all_updated nf ps F s \<longleftrightarrow> heap_ok nf ps s \<and> alone s \<and> tbl ps s = F"

text \<open>Updating the current record and moving on.\<close>

lemma update_next:
  assumes c: "cursor nf ps s0 (r # ys) (Some t) s" and al: "alone s" and d: "r \<notin> set ys" and new: "t_size new \<noteq> 0"
    and ip: "in_place sch idxs new (tuple_of (tbl ps s0) r)"
  shows "\<exists>s1 nxt s'. TH_UpdateTuple False first new idxs (case idxs of None \<Rightarrow> None | Some _ \<Rightarrow> Some sch) r s = Some ((True, None), s1) \<and>
    it_Next False t s1 = Some (nxt, s') \<and> cursor nf ps s1 ys nxt s' \<and> alone s' \<and> tbl ps s1 = rewritten (\<lambda>t. the (new_record sch idxs new t)) {r} (tbl ps s0)"
proof -
  note R = reads_cursor [OF c]
  obtain bs where bs: "tbl ps s r = Some (False, bs)" using c R by (auto simp: cursor_def live_def)
  have t0: "tuple_of (tbl ps s0) r = NewTuple (Some r) (of_nat (length bs)) bs" using bs R by (simp add: tuple_of_def)
  obtain u where u: "update_row idxs (case idxs of None \<Rightarrow> None | Some _ \<Rightarrow> Some sch) new (NewTuple (Some r) (of_nat (length bs)) bs) = Some u" "wf_tuple u" "t_size u \<noteq> 0"
      "length (t_data u) \<le> length bs"
    using ip unfolding in_place_def t0 new_record_def by (auto simp: NewTuple_def split: option.splits)
  obtain s1 where m: "TH_UpdateTuple False first new idxs (case idxs of None \<Rightarrow> None | Some _ \<Rightarrow> Some sch) r s = Some ((True, None), s1)" "heap_ok nf ps s1"
      "tbl ps s1 = (tbl ps s)(r \<mapsto> (False, t_data u))" "db_locks s1 = db_locks s" "txn_id (db_txn s1) = txn_id (db_txn s)"
    using update_in_place [OF _ bs new u] R by blast
  have "tbl ps s1 = rewritten (\<lambda>t. the (new_record sch idxs new t)) {r} (tbl ps s0)"
    using m(3) R u(1) t0 by (auto simp: rewritten_def new_record_def fun_eq_iff)
  then show ?thesis using m(1) changed_next [OF c al d m(2-5)] by blast
qed

lemma rewritten_Nil [simp]: "rewritten f {} v = v"
  by (simp add: rewritten_def fun_eq_iff)

lemma rewritten_rewritten: "r \<notin> X \<Longrightarrow> rewritten f X (rewritten f {r} v) = rewritten f (insert r X) v"
  by (auto simp: rewritten_def tuple_of_def fun_eq_iff)

lemma update_step:
  assumes "upd_src env vals idxs p oid nf ps F ts c s"
  obtains (stop) s' where "ts = []" "Exec_Next (UpdatePlanNode vals idxs p oid) env c s = Some ((None, True, False), Iterating None, s')" "all_updated nf ps F s'"
    | (give) t ts' c' s' where "ts = t # ts'" "Exec_Next (UpdatePlanNode vals idxs p oid) env c s = Some ((Some t, False, False), c', s')"
        "upd_src env vals idxs p oid nf ps F ts' c' s'"
proof -
  obtain tm cur rs s0 new where tm: "GetTableByOID (env_catalog env) oid = Some tm" "\<forall>i \<in> set (column_numbers tm). i < length (tm_indexes tm)"
      "set (tm_indexes tm) \<subseteq> {None}" "\<not> env_logging env"
    and A: "c = Iterating cur" "cursor nf ps s0 rs cur s" "alone s" "distinct rs" "\<forall>r \<in> set rs. selects (tuple_of (tbl ps s0) r) p (tm_schema tm) \<noteq> None"
    and new: "NewTupleFromSchema vals (tm_schema tm) = Some new" "t_size new \<noteq> 0"
    and sel: "\<forall>r \<in> set (filter (selected (tm_schema tm) p (tbl ps s0)) rs). in_place (tm_schema tm) idxs new (tuple_of (tbl ps s0) r)"
      "ts = map (\<lambda>_. new) (filter (selected (tm_schema tm) p (tbl ps s0)) rs)"
      "F = rewritten (\<lambda>t. the (new_record (tm_schema tm) idxs new t)) (set (filter (selected (tm_schema tm) p (tbl ps s0)) rs)) (tbl ps s0)"
    using assms unfolding upd_src_def Let_def by blast
  let ?sel = "selected (tm_schema tm) p (tbl ps s0)" and ?f = "\<lambda>t. the (new_record (tm_schema tm) idxs new t)"
  let ?rs = "dropWhile (\<lambda>r. \<not> ?sel r) rs"
  note S = sel [unfolded filter_dropWhile [of ?sel rs]]
  obtain cur1 s1 where f: "find_selected False p (tm_schema tm) cur s = Some (cur1, s1)" "cursor nf ps s0 ?rs cur1 s1"
    using find_selected_spec [OF A(2,5)] by blast
  note R0 = reads_cursor [OF A(2)] and R1 = reads_cursor [OF f(2)]
  have s1: "alone s1" using A(3) R0 R1 by (simp add: alone_def holds_exclusive_def reads_def)
  show thesis
  proof (cases ?rs)
    case Nil
    have "cur1 = None" using f(2) unfolding Nil by (simp add: cursor_def)
    moreover have "all_updated nf ps F s1" "ts = []" using S R1 s1 unfolding Nil by (simp_all add: all_updated_def)
    ultimately show thesis using stop [of s1] f(1) A(1) tm(1,4) by (simp add: Update_Next_def)
  next
    case (Cons r ys)
    let ?t = "tuple_of (tbl ps s0) r"
    have r: "?sel r" using hd_dropWhile [of "\<lambda>r. \<not> ?sel r" rs] Cons by auto
    have d: "r \<notin> set ys" "distinct ys" using distinct_dropWhile [OF A(4), of "\<lambda>r. \<not> ?sel r"] Cons by simp_all
    have sub: "set ys \<subseteq> set rs" using set_dropWhileD [of _ "\<lambda>r. \<not> ?sel r" rs] Cons by auto
    have ip: "in_place (tm_schema tm) idxs new ?t" using S(1) r unfolding Cons by simp
    have cur1: "cur1 = Some ?t" using f(2) Cons by (simp add: cursor_def)
    obtain s2 nxt s3 where m: "TH_UpdateTuple False (tm_table tm) new idxs (case idxs of None \<Rightarrow> None | Some _ \<Rightarrow> Some (tm_schema tm)) r s1 = Some ((True, None), s2)"
        "it_Next False ?t s2 = Some (nxt, s3)" "cursor nf ps s2 ys nxt s3" "alone s3" "tbl ps s2 = rewritten ?f {r} (tbl ps s0)"
      using update_next [OF _ s1 d(1) new(2) ip] f(2) Cons cur1 by metis
    have same: "tuple_of (tbl ps s2) q = tuple_of (tbl ps s0) q" if "q \<in> set ys" for q using that d(1) m(5) by (auto simp: tuple_of_def rewritten_def)
    have fl: "filter (selected (tm_schema tm) p (tbl ps s2)) ys = filter ?sel ys" using same by (auto intro!: filter_cong)
    have ix: "each_index g tm (column_numbers tm) s2 = Some s2" for g by (rule no_indexes [OF tm(2,3)])
    have up: "(case idxs of None \<Rightarrow> TH_UpdateTuple (env_logging env) (tm_table tm) new None None r s1
        | Some js \<Rightarrow> TH_UpdateTuple (env_logging env) (tm_table tm) new (Some js) (Some (tm_schema tm)) r s1) = Some ((True, None), s2)"
      using m(1) tm(4) by (cases idxs) simp_all
    have "t_rid ?t = Some r" by (simp add: tuple_of_def NewTuple_def Let_def)
    then have "Exec_Next (UpdatePlanNode vals idxs p oid) env c s = Some ((Some new, False, False), Iterating nxt, s3)"
      using A(1) tm(1,4) f(1) cur1 new(1) up m(2) ix by (simp add: Update_Next_def)
    moreover have "ts = new # map (\<lambda>_. new) (filter ?sel ys)" using S(2) r unfolding Cons by simp
    moreover have "upd_src env vals idxs p oid nf ps F (map (\<lambda>_. new) (filter ?sel ys)) (Iterating nxt) s3"
      unfolding upd_src_def Let_def
    proof (intro exI conjI)
      show "F = rewritten ?f (set (filter (selected (tm_schema tm) p (tbl ps s2)) ys)) (tbl ps s2)"
        unfolding fl unfolding m(5) using S(3) r d(1) unfolding Cons by (simp add: rewritten_rewritten)
      show "\<forall>q \<in> set ys. selects (tuple_of (tbl ps s2) q) p (tm_schema tm) \<noteq> None" using A(5) sub same by auto
      show "\<forall>q \<in> set (filter (selected (tm_schema tm) p (tbl ps s2)) ys). in_place (tm_schema tm) idxs new (tuple_of (tbl ps s2) q)"
        unfolding fl using S(1) same unfolding Cons by auto
    qed (use tm m(3,4) d(2) fl new in simp_all)
    ultimately show thesis using give by blast
  qed
qed

interpretation upd: tuple_stream "Exec_Next (UpdatePlanNode vals idxs p oid) env" "upd_src env vals idxs p oid nf ps F" "all_updated nf ps F"
proof
  show "\<exists>c' s'. Exec_Next (UpdatePlanNode vals idxs p oid) env c s = Some ((None, True, False), c', s') \<and> all_updated nf ps F s'"
    if "upd_src env vals idxs p oid nf ps F [] c s" for c s
    using that by (rule update_step) simp_all
  show "\<exists>c' s'. Exec_Next (UpdatePlanNode vals idxs p oid) env c s = Some ((Some t, False, False), c', s') \<and> upd_src env vals idxs p oid nf ps F ts c' s'"
    if "upd_src env vals idxs p oid nf ps F (t # ts) c s" for t ts c s
    using that by (rule update_step) simp_all
qed

subsection \<open>The rows afterwards\<close>

lemma stored_rewritten:
  assumes c: "page_chain (db_view s) ps" "page_chain (db_view s') ps" and st: "stored cs ps s rows" and t: "tbl ps s' = rewritten f X (tbl ps s)"
    and X: "\<And>r vs. r \<in> set (table_rids (db_view s) ps) \<Longrightarrow> fits cs vs \<Longrightarrow> decode_row cs (tuple_of (tbl ps s) r) = Some vs \<Longrightarrow>
      (r \<in> X \<longleftrightarrow> g vs) \<and> (g vs \<longrightarrow> fits cs (h vs) \<and> decode_row cs (f (tuple_of (tbl ps s) r)) = Some (h vs))"
    and sub: "X \<subseteq> set (table_rids (db_view s) ps)"
  shows "stored cs ps s' (map (\<lambda>vs. if g vs then h vs else vs) rows)"
proof -
  have "tbl ps s' r \<noteq> None \<longleftrightarrow> tbl ps s r \<noteq> None \<and> r \<notin> {}" for r using table_rids_mem [OF c(1), of r] sub by (auto simp: t rewritten_def)
  then have rids: "table_rids (db_view s') ps = table_rids (db_view s) ps" using table_rids_removed [OF c, of "{}" ps] by simp
  have data: "t_data (tuple_of v r) = snd (the (v r))" for v :: tview and r by (simp add: tuple_of_def NewTuple_def Let_def)
  have d: "decode_row cs (tuple_of (tbl ps s') r) = decode_row cs (if r \<in> X then f (tuple_of (tbl ps s) r) else tuple_of (tbl ps s) r)" for r
    by (rule decode_row_bytes) (simp add: t data rewritten_def)
  show ?thesis
    unfolding stored_def rids list_all2_map2 by (rule list.rel_mono_strong [OF st [unfolded stored_def]]) (use X d in auto)
qed

lemma update_exec:
  assumes T: "heap_ok nf ps s" "readable ps s" "tm_table tm = hd ps" and tm: "GetTableByOID (env_catalog env) oid = Some tm" "tm_schema tm = NewSchema cs"
      "tm_indexes tm = replicate (length cs) None"
    and env: "\<not> env_logging env" "alone s" and new: "NewTupleFromSchema vals (NewSchema cs) = Some new" "t_size new \<noteq> 0"
    and tot: "\<forall>r \<in> set (table_rids (db_view s) ps). selects (tuple_of (tbl ps s) r) p (NewSchema cs) \<noteq> None"
  defines "sel \<equiv> filter (selected (NewSchema cs) p (tbl ps s)) (table_rids (db_view s) ps)"
  assumes ip: "\<forall>r \<in> set sel. in_place (NewSchema cs) idxs new (tuple_of (tbl ps s) r)"
  shows "\<exists>s'. Execute env (UpdatePlanNode vals idxs p oid) s = Some (map (\<lambda>_. new) sel, s') \<and>
    all_updated nf ps (rewritten (\<lambda>t. the (new_record (NewSchema cs) idxs new t)) (set sel) (tbl ps s)) s'"
proof -
  let ?rs = "table_rids (db_view s) ps" and ?F = "rewritten (\<lambda>t. the (new_record (NewSchema cs) idxs new t)) (set sel) (tbl ps s)"
  have ch: "page_chain (db_view s) ps" using T(1) by (simp add: heap_ok_def)
  obtain cur s1 where i: "GetFirstTuple False (hd ps) s = Some (cur, s1)" "cursor nf ps s ?rs cur s1" using cursor_first [OF T(1,2)] by blast
  have rd: "reads nf s s1" using i(2) by (simp add: cursor_def)
  have ix: "\<forall>i \<in> set (column_numbers tm). i < length (tm_indexes tm)" "set (tm_indexes tm) \<subseteq> {None}"
    using tm(2,3) by (auto simp: GetColumnNum_def GetColumnCount_def NewSchema_eq unat_of_nat)
  have "upd_src env vals idxs p oid nf ps ?F (map (\<lambda>_. new) sel) (Iterating cur) s1"
    unfolding upd_src_def Let_def
    by (rule exI [of _ tm], rule exI [of _ cur], rule exI [of _ ?rs], rule exI [of _ s], rule exI [of _ new])
      (use tm(1,2) ix env(1) i(2) reads_alone [OF rd env(2)] table_rids_distinct [OF ch] tot new ip in \<open>simp only: simp_thms sel_def\<close>)
  from upd.run_executor_src [OF this, of "[]"] obtain s' where
      "run_executor (Exec_Next (UpdatePlanNode vals idxs p oid) env) [] (Iterating cur) s1 = Some (map (\<lambda>_. new) sel, s')" "all_updated nf ps ?F s'" by auto
  then show ?thesis using i(1) env(1) tm(1) T(3) by (auto simp: Execute_def Scan_Init_def)
qed

text \<open>The updated rows fit the columns and none of the selected records gets longer.\<close>

definition update_ok :: "column list \<Rightarrow> pageID list \<Rightarrow> db \<Rightarrow> sql_value list \<Rightarrow> int list option \<Rightarrow> Expression option \<Rightarrow> bool" where
  "update_ok cs ps s vals idxs p \<longleftrightarrow> fits cs vals \<and> 0 < cells cs + vars cs vals \<and>
     (\<forall>r \<in> set (table_rids (db_view s) ps). case decode_row cs (tuple_of (tbl ps s) r) of
        Some vs \<Rightarrow> row_selects p vs \<longrightarrow> fits cs (updated_row idxs vals vs) \<and> 0 < cells cs + vars cs (updated_row idxs vals vs) \<and>
          cells cs + vars cs (updated_row idxs vals vs) \<le> length (t_data (tuple_of (tbl ps s) r))
      | None \<Rightarrow> False)"

lemma update_tuple:
  assumes "update_ok cs ps s vals idxs p"
  obtains new where "NewTupleFromSchema vals (NewSchema cs) = Some new" "decode_row cs new = Some vals" "t_size new \<noteq> 0"
proof -
  have U: "fits cs vals" "0 < cells cs + vars cs vals" using assms by (simp_all add: update_ok_def)
  obtain new where new: "NewTupleFromSchema vals (NewSchema cs) = Some new" "wf_tuple new" "length (t_data new) = cells cs + vars cs vals" "decode_row cs new = Some vals"
    by (rule row_tuple [OF U(1)])
  then have "t_size new \<noteq> 0" using U(2) by (auto simp: wf_tuple_def)
  then show thesis using that new by blast
qed

lemma update_record:
  assumes u: "update_ok cs ps s vals idxs p" "idxs_ok idxs" and new: "NewTupleFromSchema vals (NewSchema cs) = Some new"
    and r: "r \<in> set (table_rids (db_view s) ps)" "decode_row cs (tuple_of (tbl ps s) r) = Some vs" "row_selects p vs"
  shows "in_place (NewSchema cs) idxs new (tuple_of (tbl ps s) r)" "fits cs (updated_row idxs vals vs)"
    "decode_row cs (the (new_record (NewSchema cs) idxs new (tuple_of (tbl ps s) r))) = Some (updated_row idxs vals vs)"
proof -
  have U: "fits cs vals" "idxs_ok idxs" using u by (simp_all add: update_ok_def)
  show k: "fits cs (updated_row idxs vals vs)" using u(1) r unfolding update_ok_def by fastforce
  have l: "0 < cells cs + vars cs (updated_row idxs vals vs)" "cells cs + vars cs (updated_row idxs vals vs) \<le> length (t_data (tuple_of (tbl ps s) r))"
    using u(1) r unfolding update_ok_def by fastforce+
  from update_row_values [OF new U(1) r(2) U(2) k] obtain x where "new_record (NewSchema cs) idxs new (tuple_of (tbl ps s) r) = Some x" "wf_tuple x"
      "length (t_data x) = cells cs + vars cs (updated_row idxs vals vs)" "decode_row cs x = Some (updated_row idxs vals vs)" by (auto simp: new_record_def)
  then show "in_place (NewSchema cs) idxs new (tuple_of (tbl ps s) r)"
      "decode_row cs (the (new_record (NewSchema cs) idxs new (tuple_of (tbl ps s) r))) = Some (updated_row idxs vals vs)"
    using l by (auto simp: in_place_def wf_tuple_def)
qed

subsection \<open>Properties\<close>

text \<open>C16: an UPDATE in place on a table without indexes (no logging, no other writer, a well-typed predicate): when the listed
  columns are in ascending order (\<open>idxs_ok\<close>) and the new values make no record longer (\<open>update_ok\<close>), the execution ends
  without a panic; every selected row, and no other, then has the new values in the listed columns (in all columns, when none are
  listed), and the rows keep their order.  Both conditions are needed: of columns listed out of order only the first
  ones are updated (\<^verbatim>\<open>update_unordered_columns_lost\<close>), and a record that grows may move to where the walk meets it again.\<close>

theorem update_rows:
  assumes t: "table_ok env oid cs nf ps s rows" and tm: "GetTableByOID (env_catalog env) oid = Some tm" "tm_indexes tm = replicate (length cs) None"
    and env: "\<not> env_logging env" "alone s" and p: "well_typed cs p" and idx: "idxs_ok idxs" and u: "update_ok cs ps s vals idxs p"
  shows "\<exists>ts s'. Execute env (UpdatePlanNode vals idxs p oid) s = Some (ts, s') \<and> length ts = length (filter (row_selects p) rows) \<and>
    (\<forall>t \<in> set ts. decode_row cs t = Some vals) \<and> alone s' \<and>
    table_ok env oid cs nf ps s' (map (\<lambda>vs. if row_selects p vs then updated_row idxs vals vs else vs) rows)"
proof -
  let ?rs = "table_rids (db_view s) ps" and ?v = "tbl ps s" and ?sch = "NewSchema cs"
  let ?sel = "filter (selected ?sch p ?v) ?rs"
  have T: "heap_ok nf ps s" "readable ps s" "stored cs ps s rows" "tm_schema tm = ?sch" "tm_table tm = hd ps"
    using t tm(1) by (auto simp: table_ok_def)
  have ch: "page_chain (db_view s) ps" using T(1) by (simp add: heap_ok_def)
  obtain new where new: "NewTupleFromSchema vals ?sch = Some new" "decode_row cs new = Some vals" "t_size new \<noteq> 0"
    by (rule update_tuple [OF u])
  let ?f = "\<lambda>t. the (new_record ?sch idxs new t)"
  have all: "list_all2 (\<lambda>r vs. fits cs vs \<and> decode_row cs (tuple_of ?v r) = Some vs) ?rs rows" using T(3) by (simp add: stored_def)
  have s: "selects (tuple_of ?v r) p ?sch = Some (row_selects p vs)" if "fits cs vs" "decode_row cs (tuple_of ?v r) = Some vs" for r vs
    by (rule selects_row [OF that(2,1) p])
  have row: "\<exists>vs. fits cs vs \<and> decode_row cs (tuple_of ?v r) = Some vs" if "r \<in> set ?rs" for r
    using that all by (auto simp: list_all2_conv_all_nth in_set_conv_nth)
  have tot: "\<forall>r \<in> set ?rs. selects (tuple_of ?v r) p ?sch \<noteq> None" using row s by fastforce
  note rec = update_record [OF u idx new(1)]
  have ip: "\<forall>r \<in> set ?sel. in_place ?sch idxs new (tuple_of ?v r)" using row s rec(1) by fastforce
  obtain s' where e: "Execute env (UpdatePlanNode vals idxs p oid) s = Some (map (\<lambda>_. new) ?sel, s')" "heap_ok nf ps s'" "alone s'"
      "tbl ps s' = rewritten ?f (set ?sel) ?v"
    using update_exec [OF T(1,2,5) tm(1) T(4) tm(2) env new(1,3) tot ip] by (auto simp: all_updated_def)
  have ch': "page_chain (db_view s') ps" using e(2) by (simp add: heap_ok_def)
  have st: "stored cs ps s' (map (\<lambda>vs. if row_selects p vs then updated_row idxs vals vs else vs) rows)"
    by (rule stored_rewritten [OF ch ch' T(3) e(4)]) (use s rec(2,3) in auto)
  have "readable ps s'" using T(2) e(3) unfolding readable_def alone_def e(4) rewritten_def by auto
  moreover have "length ?sel = length (filter (row_selects p) rows)" by (rule list_all2_lengthD [OF list_all2_filter [OF all]]) (use s in auto)
  ultimately show ?thesis using e(1-3) st tm(1) T(4,5) new(2) by (auto simp: table_ok_def)
qed

text \<open>On the example table with one row: its first column is set to 9.\<close>

lemma example_row_table:
  fixes vs :: "sql_value list"
  defines "vs \<equiv> [NewInteger 7, NewVarchar [1, 2, 3]]"
  obtains s ps where "table_ok example_env 1 example_columns 8 ps s [vs]" "alone s"
    "\<forall>r \<in> set (table_rids (db_view s) ps). decode_row example_columns (tuple_of (tbl ps s) r) = Some vs \<and>
      length (t_data (tuple_of (tbl ps s) r)) = cells example_columns + vars example_columns vs"
proof -
  have v: "insertable_row example_columns vs" "fits example_columns vs" using example_rows_ok by (simp_all add: example_rows_def vs_def insertable_row_def fits_def)
  have np: "unat (npid example_heap) < 524288" by (simp add: example_heap_ok(4))
  obtain t :: tuple and r s ps where i: "NewTupleFromSchema vs (NewSchema example_columns) = Some t" "heap_ok 8 ps s" "hd ps = 0" "db_locks s = db_locks example_heap"
      "txn_id (db_txn s) = txn_id (db_txn example_heap)" "tbl ps s = [r \<mapsto> (False, t_data t)]" "row_mset example_columns (tbl ps s) = {#Some vs#}"
    using insert_one [OF example_heap_ok(2) v(1) np] unfolding example_heap_ok(3) by (auto simp: row_mset_def)
  obtain t' where t: "NewTupleFromSchema vs (NewSchema example_columns) = Some t'" "length (t_data t') = cells example_columns + vars example_columns vs"
      "decode_row example_columns t' = Some vs" by (rule row_tuple [OF v(2)])
  have al: "alone s" using example_heap_table(2) i(4,5) by (simp add: alone_def)
  have "table_ok example_env 1 example_columns 8 ps s [vs]"
    using one_row [OF i(2) al i(6) _ v(2)] i(2,3,6,7) example_insert_hyps(1) by (simp add: table_ok_def example_table_def)
  moreover have "page_chain (db_view s) ps" using i(2) by (simp add: heap_ok_def)
  then have "q = r" if "q \<in> set (table_rids (db_view s) ps)" for q using that table_rids_mem i(6) by (auto split: if_splits)
  moreover have "t_data (tuple_of (tbl ps s) r) = t_data t'" using i(1,6) t(1) by (simp add: tuple_of_def NewTuple_def Let_def)
  ultimately show thesis using that al t(2,3) decode_row_bytes by metis
qed

theorem update_rows_witness:
  "\<exists>s ps ts s'. Execute example_env (UpdatePlanNode [NewInteger 9, NewVarchar []] (Some [0]) (Some example_pred) 1) s = Some (ts, s') \<and> length ts = 1 \<and>
     table_ok example_env 1 example_columns 8 ps s' [[NewInteger 9, NewVarchar [1, 2, 3]]]"
proof (rule example_row_table)
  fix s ps
  let ?vs = "[NewInteger 7, NewVarchar [1, 2, 3]]" and ?vals = "[NewInteger 9, NewVarchar []]"
  assume a: "table_ok example_env 1 example_columns 8 ps s [?vs]" "alone s" "\<forall>r \<in> set (table_rids (db_view s) ps).
      decode_row example_columns (tuple_of (tbl ps s) r) = Some ?vs \<and> length (t_data (tuple_of (tbl ps s) r)) = cells example_columns + vars example_columns ?vs"
  have row: "updated_row (Some [0]) ?vals ?vs = [NewInteger 9, NewVarchar [1, 2, 3]]" by (simp add: updated_row_def upt_rec)
  note D = fits_def row_ok_def example_defs wf_column_def storable_def wf_value_def var_size_def IsInlined_def
  have f: "fits example_columns ?vals" "fits example_columns [NewInteger 9, NewVarchar [1, 2, 3]]" "0 < cells example_columns"
      "vars example_columns [NewInteger 9, NewVarchar [1, 2, 3]] = vars example_columns ?vs" by (simp_all add: D)
  have "update_ok example_columns ps s ?vals (Some [0]) (Some example_pred)"
    unfolding update_ok_def using a(3) f by (simp add: row idxs_ok_def)
  moreover have "row_selects (Some example_pred) ?vs" using example_filter(1) [of example_rows] by (simp add: example_rows_def split: if_splits)
  ultimately show ?thesis
    using update_rows [OF a(1) example_insert_hyps(1-3) a(2) example_typed(1), of "Some [0]" ?vals] row by (auto simp: idxs_ok_def)
qed

end
