(* ===== verification/Aggregation_Spec.thy ===== *)
theory Aggregation_Spec
  imports Query_Spec
begin

text \<open>
  Aggregation.  The reference semantics groups rows of values by their keys and takes counts, sums, minima and maxima of
  each group; the executor's hash table, which combines one row after the other, holds exactly these.
\<close>

subsection \<open>Aggregates of a list of values\<close>

text \<open>NULL is counted, but does not take part in sums, minima and maxima.\<close>

definition ints_of :: "sql_value list \<Rightarrow> i32 list" where
  "ints_of vs = map (\<lambda>v. the (v_integer v)) (filter (\<lambda>v. \<not> isNull v) vs)"

definition aggregate_of :: "AggregationType \<Rightarrow> sql_value list \<Rightarrow> sql_value" where
  "aggregate_of ty vs = NewInteger (case ty of
     COUNT_AGGREGATE \<Rightarrow> of_nat (length vs)
   | SUM_AGGREGATE \<Rightarrow> sum_list (ints_of vs)
   | MIN_AGGREGATE \<Rightarrow> word_of_int (Min (insert 2147483647 (sint ` set (ints_of vs))))
   | MAX_AGGREGATE \<Rightarrow> word_of_int (Max (insert (- 2147483648) (sint ` set (ints_of vs))))
   | OtherAggregate _ \<Rightarrow> 0)"

definition known_aggregate :: "AggregationType \<Rightarrow> bool" where
  "known_aggregate ty \<longleftrightarrow> (case ty of OtherAggregate _ \<Rightarrow> False | _ \<Rightarrow> True)"

lemma sint_word_of_Min:
  assumes "finite A" and "A \<noteq> {}" and "\<forall>x \<in> A. - 2147483648 \<le> x \<and> x \<le> 2147483647"
  shows "sint (word_of_int (Min A) :: i32) = Min A" "sint (word_of_int (Max A) :: i32) = Max A"
  using Min_in [OF assms(1,2)] Max_in [OF assms(1,2)] assms(3) by (auto intro!: signed_take_bit_int_eq_self simp: sint_sbintrunc')

lemma sint32_range: "- 2147483648 \<le> sint (x :: i32)" "sint (x :: i32) \<le> 2147483647"
  using sint_ge [of x] sint_lt [of x] by simp_all

lemma minus_min_int: "- (0x80000000 :: i32) = 0x80000000"
  by (rule minus_unique) simp

lemma aggregate_Nil:
  "\<forall>ty \<in> set tys. known_aggregate ty \<Longrightarrow> GenerateInitialAggregateValue tys = map (\<lambda>ty. aggregate_of ty []) tys"
  by (induction tys) (auto simp: aggregate_of_def known_aggregate_def ints_of_def minus_min_int split: AggregationType.splits)

lemma Min_Max_insert:
  fixes a :: "'a :: linorder"
  assumes "finite A" and "A \<noteq> {}"
  shows "Min (insert a A) = (if Min A \<le> a then Min A else a)" "Max (insert a A) = (if a \<le> Max A then Max A else a)"
  using Min_insert [OF assms, of a] Max_insert [OF assms, of a] by (auto simp: min_def max_def)

text \<open>Combining one more value.\<close>

lemma combine_snoc:
  assumes "known_aggregate ty" and "wf_value v" and "valueType v = Integer"
  shows "combine_one ty (aggregate_of ty vs) v = Some (aggregate_of ty (vs @ [v]))"
proof -
  obtain x n where v: "v = (NewInteger x)\<lparr>isNull := n\<rparr>" using assms(2,3) by (cases rule: wf_value_cases) (auto simp: value_defs)
  let ?A = "insert 2147483647 (sint ` set (ints_of vs))" and ?B = "insert (- 2147483648) (sint ` set (ints_of vs))"
  have m: "sint (word_of_int (Min ?A) :: i32) = Min ?A" "sint (word_of_int (Max ?B) :: i32) = Max ?B"
    by (rule sint_word_of_Min; use sint32_range in auto)+
  have M: "Min (insert 2147483647 (insert (sint x) (sint ` set (ints_of vs)))) = (if Min ?A \<le> sint x then Min ?A else sint x)"
    "Max (insert (- 2147483648) (insert (sint x) (sint ` set (ints_of vs)))) = (if sint x \<le> Max ?B then Max ?B else sint x)"
    unfolding insert_commute [of _ "sint x"] by (rule Min_Max_insert; simp)+
  have e: "ints_of (vs @ [v]) = (if n then ints_of vs else ints_of vs @ [x])" by (simp add: ints_of_def v NewInteger_def)
  show ?thesis
    using assms(1) unfolding aggregate_of_def combine_one_def e
    by (cases ty) (simp_all add: known_aggregate_def Value_Add_def Value_Min_def Value_Max_def v NewInteger_def m M del: Min_insert Max_insert)
qed

text \<open>Combining a row of values, index by index.\<close>

lemma CombineAggregateValues_each:
  assumes "distinct is" and "\<forall>i \<in> set is. i < length tys \<and> i < length r \<and> i < length x \<and> known_aggregate (tys ! i) \<and> combine_one (tys ! i) (r ! i) (x ! i) = Some (g i)"
  shows "CombineAggregateValues tys is r x = Some (map (\<lambda>j. if j \<in> set is then g j else r ! j) [0..<length r])"
  using assms
proof (induction "is" arbitrary: r)
  case Nil
  then show ?case by (simp add: map_nth)
next
  case (Cons i "is")
  have i: "i < length tys" "i < length r" "i < length x" "known_aggregate (tys ! i)" "combine_one (tys ! i) (r ! i) (x ! i) = Some (g i)" "i \<notin> set is"
    using Cons.prems by auto
  have c: "combine_one COUNT_AGGREGATE v w = combine_one COUNT_AGGREGATE v w'" for v w w' by (simp add: combine_one_def)
  have "CombineAggregateValues tys (i # is) r x = CombineAggregateValues tys is (r[i := g i]) x"
    using i c [of "r ! i" "x ! i" "NewInteger 1"] by (cases "tys ! i") (auto simp: go_nth_def known_aggregate_def)
  also have "\<dots> = Some (map (\<lambda>j. if j \<in> set is then g j else r[i := g i] ! j) [0..<length (r[i := g i])])"
    by (rule Cons.IH) (use Cons.prems i(6) in \<open>auto simp: nth_list_update\<close>)
  also have "\<dots> = Some (map (\<lambda>j. if j \<in> set (i # is) then g j else r ! j) [0..<length r])"
    using i(2) by (auto simp: nth_list_update intro!: map_cong)
  finally show ?case .
qed

subsection \<open>The hash table\<close>

text \<open>After the rows \<open>kvs\<close> of keys and values: one entry for each hash, with the first key that has it and the aggregates of
  all values whose key has it.\<close>

definition key_hash :: "(bytes \<Rightarrow> bytes) \<Rightarrow> sql_value list \<Rightarrow> u32" where
  "key_hash murmur3 k = the (HashValuesOnAggregateKey murmur3 k)"

definition aht_ok :: "(bytes \<Rightarrow> bytes) \<Rightarrow> AggregationType list \<Rightarrow> (sql_value list \<times> sql_value list) list \<Rightarrow> SimpleAggregationHashTable \<Rightarrow> bool" where
  "aht_ok murmur3 tys kvs aht \<longleftrightarrow> distinct (ht_keys aht) \<and> set (ht_keys aht) = (key_hash murmur3 \<circ> fst) ` set kvs \<and>
     (\<forall>h. ht_key aht h = map_option fst (List.find (\<lambda>kv. key_hash murmur3 (fst kv) = h) kvs)) \<and>
     (\<forall>h. ht_val aht h = (if h \<in> set (ht_keys aht)
        then Some (map (\<lambda>i. aggregate_of (tys ! i) (map (\<lambda>kv. snd kv ! i) (filter (\<lambda>kv. key_hash murmur3 (fst kv) = h) kvs))) [0..<length tys]) else None))"

definition agg_values :: "nat \<Rightarrow> sql_value list \<Rightarrow> bool" where
  "agg_values n vs \<longleftrightarrow> length vs = n \<and> list_all (\<lambda>v. wf_value v \<and> valueType v = Integer) vs"

lemma aht_ok_New: "aht_ok murmur3 tys [] NewSimpleAggregationHashTable"
  by (simp add: aht_ok_def NewSimpleAggregationHashTable_def)

lemma find_snoc: "List.find P (xs @ [x]) = (case List.find P xs of None \<Rightarrow> if P x then Some x else None | Some y \<Rightarrow> Some y)"
  by (induction xs) auto

lemma find_image: "List.find (\<lambda>x. f x = h) xs \<noteq> None \<longleftrightarrow> h \<in> f ` set xs"
  by (auto simp: find_None_iff)

lemma InsertCombine_ok:
  assumes ok: "aht_ok murmur3 tys kvs aht" and k: "HashValuesOnAggregateKey murmur3 k \<noteq> None" and v: "agg_values (length tys) v"
    and tys: "\<forall>ty \<in> set tys. known_aggregate ty"
  shows "\<exists>aht'. InsertCombine murmur3 (length tys) tys k v aht = Some aht' \<and> aht_ok murmur3 tys (kvs @ [(k, v)]) aht'"
proof -
  let ?h = "key_hash murmur3 k" and ?n = "length tys"
  let ?vals = "\<lambda>h kvs i. map (\<lambda>kv. snd kv ! i) (filter (\<lambda>kv. key_hash murmur3 (fst kv) = h) kvs)"
  have hk: "HashValuesOnAggregateKey murmur3 k = Some ?h" using k by (auto simp: key_hash_def)
  have A: "distinct (ht_keys aht)" "set (ht_keys aht) = (key_hash murmur3 \<circ> fst) ` set kvs"
      "\<And>h. ht_key aht h = map_option fst (List.find (\<lambda>kv. key_hash murmur3 (fst kv) = h) kvs)"
      "\<And>h. ht_val aht h = (if h \<in> set (ht_keys aht) then Some (map (\<lambda>i. aggregate_of (tys ! i) (?vals h kvs i)) [0..<?n]) else None)"
    using ok unfolding aht_ok_def by blast+
  have empty: "?vals ?h kvs i = []" if "?h \<notin> set (ht_keys aht)" for i using that A(2) by (force simp: filter_empty_conv)
  define aht1 where "aht1 = (if ht_val aht ?h = None then aht\<lparr>ht_keys := ht_keys aht @ [?h], ht_val := (ht_val aht)(?h \<mapsto> GenerateInitialAggregateValue tys)\<rparr> else aht)"
  let ?r = "map (\<lambda>i. aggregate_of (tys ! i) (?vals ?h kvs i)) [0..<?n]"
  have "map (\<lambda>ty. aggregate_of ty []) tys = map (\<lambda>i. aggregate_of (tys ! i) []) [0..<?n]" by (auto intro: nth_equalityI)
  then have r: "ht_val aht1 ?h = Some ?r" using A(4) [of ?h] aggregate_Nil [OF tys] empty by (simp add: aht1_def cong: map_cong)
  let ?r' = "map (\<lambda>i. aggregate_of (tys ! i) (?vals ?h (kvs @ [(k, v)]) i)) [0..<?n]"
  have len: "length v = ?n" "\<And>i. i < ?n \<Longrightarrow> wf_value (v ! i) \<and> valueType (v ! i) = Integer" using v by (auto simp: agg_values_def list_all_length)
  have "CombineAggregateValues tys [0..<?n] ?r v = Some (map (\<lambda>j. if j \<in> set [0..<?n] then aggregate_of (tys ! j) (?vals ?h (kvs @ [(k, v)]) j) else ?r ! j) [0..<length ?r])"
    by (rule CombineAggregateValues_each) (use len tys combine_snoc in auto)
  also have "\<dots> = Some ?r'" by (auto intro!: map_cong)
  finally have c: "CombineAggregateValues tys [0..<?n] ?r v = Some ?r'" .
  define aht2 where "aht2 = aht1\<lparr>ht_val := (ht_val aht1)(?h \<mapsto> ?r')\<rparr>"
  let ?aht' = "if ht_key aht2 ?h = None then aht2\<lparr>ht_key := (ht_key aht2)(?h \<mapsto> k)\<rparr> else aht2"
  have "InsertCombine murmur3 ?n tys k v aht = Some ?aht'"
    using hk r c by (simp add: InsertCombine_def aht1_def [symmetric] aht2_def Let_def)
  moreover have "aht_ok murmur3 tys (kvs @ [(k, v)]) ?aht'"
    unfolding aht_ok_def
  proof (intro conjI allI)
    show "distinct (ht_keys ?aht')" "set (ht_keys ?aht') = (key_hash murmur3 \<circ> fst) ` set (kvs @ [(k, v)])"
      using A(1,2) A(4) [of ?h] by (auto simp: aht2_def aht1_def split: if_splits)
    fix h
    show "ht_key ?aht' h = map_option fst (List.find (\<lambda>kv. key_hash murmur3 (fst kv) = h) (kvs @ [(k, v)]))"
      using A(3) by (auto simp: aht2_def aht1_def find_snoc split: option.splits)
    show "ht_val ?aht' h = (if h \<in> set (ht_keys ?aht') then Some (map (\<lambda>i. aggregate_of (tys ! i) (?vals h (kvs @ [(k, v)]) i)) [0..<?n]) else None)"
      using A(4) by (auto simp: aht2_def aht1_def)
  qed
  ultimately show ?thesis by blast
qed

lemma wf_Serialize: "wf_value v \<Longrightarrow> \<exists>bs. Value_Serialize v = Some bs"
  by (cases rule: wf_value_cases) (auto simp: Value_Serialize_def value_defs)

lemma wf_hash: "list_all wf_value k \<Longrightarrow> HashValuesOnAggregateKey murmur3 k \<noteq> None"
proof -
  assume "list_all wf_value k"
  then have "\<exists>bss. map_option_list Value_Serialize k = Some bss" by (induction k) (auto dest: wf_Serialize)
  then show ?thesis by (auto simp: HashValuesOnAggregateKey_def)
qed

subsection \<open>Groups of rows\<close>

definition row_values :: "Expression list \<Rightarrow> sql_value list \<Rightarrow> sql_value list" where
  "row_values es vs = map (\<lambda>e. the (row_value vs e)) es"

text \<open>The reference query: for each key of a row one output row, made of the key and the aggregates of the group.\<close>

definition group_aggregates :: "Expression list \<Rightarrow> Expression list \<Rightarrow> AggregationType list \<Rightarrow> sql_value list list \<Rightarrow> sql_value list \<Rightarrow> sql_value list" where
  "group_aggregates gbs aggs tys rows k =
     map (\<lambda>i. aggregate_of (tys ! i) (map (\<lambda>vs. row_values aggs vs ! i) (filter (\<lambda>vs. row_values gbs vs = k) rows))) [0..<length tys]"

definition out_value :: "sql_value list \<Rightarrow> sql_value list \<Rightarrow> Expression \<Rightarrow> sql_value" where
  "out_value k a e = (case e of AggregateValueExpression g i \<Rightarrow> (if g then k else a) ! unat i | _ \<Rightarrow> NewNull)"

definition group_row :: "Expression list \<Rightarrow> Expression list \<Rightarrow> AggregationType list \<Rightarrow> Expression list \<Rightarrow> sql_value list list \<Rightarrow> sql_value list \<Rightarrow> sql_value list" where
  "group_row gbs aggs tys exprs rows k = map (out_value k (group_aggregates gbs aggs tys rows k)) exprs"

definition group_rows :: "Expression list \<Rightarrow> Expression list \<Rightarrow> AggregationType list \<Rightarrow> Expression list \<Rightarrow> sql_value list list \<Rightarrow> sql_value list multiset" where
  "group_rows gbs aggs tys exprs rows = image_mset (group_row gbs aggs tys exprs rows) (mset_set (row_values gbs ` set rows))"

text \<open>Typed grouping and aggregate expressions (over integers), output columns that exist, results that fit, and no two groups with the same hash.\<close>

definition agg_ok :: "(bytes \<Rightarrow> bytes) \<Rightarrow> column list \<Rightarrow> Expression list \<Rightarrow> Expression list \<Rightarrow> AggregationType list \<Rightarrow> Expression list \<Rightarrow> column list \<Rightarrow> sql_value list list \<Rightarrow> bool" where
  "agg_ok murmur3 cols gbs aggs tys exprs out rows \<longleftrightarrow>
     (\<forall>e \<in> set gbs. expr_type (map columnType cols) e \<noteq> None) \<and> (\<forall>e \<in> set aggs. expr_type (map columnType cols) e = Some Integer) \<and>
     length tys = length aggs \<and> (\<forall>ty \<in> set tys. known_aggregate ty) \<and>
     (\<forall>e \<in> set exprs. case e of AggregateValueExpression g i \<Rightarrow> unat i < (if g then length gbs else length aggs) | _ \<Rightarrow> False) \<and>
     (\<forall>vs \<in> set rows. fits out (group_row gbs aggs tys exprs rows (row_values gbs vs))) \<and> inj_on (key_hash murmur3) (row_values gbs ` set rows)"

lemma MakeVals_row:
  assumes "decode_row cols t = Some vs" and "fits cols vs" and "\<forall>e \<in> set es. expr_type (map columnType cols) e \<noteq> None"
  shows "MakeVals es t (Some (NewSchema cols)) = Some (row_values es vs)" "list_all wf_value (row_values es vs)"
    "\<forall>e \<in> set es. expr_type (map columnType cols) e = Some Integer \<Longrightarrow> agg_values (length es) (row_values es vs)"
proof -
  have v: "\<exists>v. row_value vs e = Some v \<and> wf_value v \<and> valueType v = ty" if "expr_type (map columnType cols) e = Some ty" for e ty
    using row_value_typed [OF _ that] assms(2) by (auto simp: fits_def)
  have s: "row_value vs e = Some (the (row_value vs e)) \<and> wf_value (the (row_value vs e))" if "e \<in> set es" for e
    using v [of e] assms(3) that by fastforce
  have "Evaluate e (Some t) (Some (NewSchema cols)) = Some (the (row_value vs e))" if "e \<in> set es" for e
    using s [OF that] Evaluate_row [OF assms(1) fits_lengths(3) [OF assms(2)], of e] by simp
  then show "MakeVals es t (Some (NewSchema cols)) = Some (row_values es vs)"
    unfolding MakeVals_def map_option_list_Some row_values_def list_all2_map2 by (intro list.rel_refl_strong) auto
  show "list_all wf_value (row_values es vs)" using s by (auto simp: row_values_def list_all_iff)
  show "agg_values (length es) (row_values es vs)" if "\<forall>e \<in> set es. expr_type (map columnType cols) e = Some Integer"
    using that v by (fastforce simp: agg_values_def row_values_def list_all_iff)
qed

lemma aggregate_all:
  assumes "list_all2 (\<lambda>t vs. decode_row cols t = Some vs \<and> fits cols vs) ts rows" and "aht_ok (env_murmur3 env) tys kvs aht"
    and q: "\<forall>e \<in> set gbs. expr_type (map columnType cols) e \<noteq> None" "\<forall>e \<in> set aggs. expr_type (map columnType cols) e = Some Integer" "length tys = length aggs"
      "\<forall>ty \<in> set tys. known_aggregate ty"
  shows "\<exists>aht'. put_all (aggregate_tuple env (Some (NewSchema cols)) gbs aggs tys) ts aht = Some aht' \<and>
    aht_ok (env_murmur3 env) tys (kvs @ map (\<lambda>vs. (row_values gbs vs, row_values aggs vs)) rows) aht'"
  using assms(1,2)
proof (induction arbitrary: aht kvs rule: list_all2_induct)
  case (Cons t ts vs rows)
  have t: "decode_row cols t = Some vs" "fits cols vs" using Cons(1) by auto
  note G = MakeVals_row [OF t q(1)]
  have a: "\<forall>e \<in> set aggs. expr_type (map columnType cols) e \<noteq> None" using q(2) by simp
  note V = MakeVals_row [OF t a]
  obtain aht1 where i: "InsertCombine (env_murmur3 env) (length tys) tys (row_values gbs vs) (row_values aggs vs) aht = Some aht1"
      "aht_ok (env_murmur3 env) tys (kvs @ [(row_values gbs vs, row_values aggs vs)]) aht1"
    using InsertCombine_ok [OF Cons.prems wf_hash [OF G(2)] _ q(4)] V(3) [OF q(2)] q(3) by auto
  have "aggregate_tuple env (Some (NewSchema cols)) gbs aggs tys t aht = Some aht1" using i(1) G(1) V(1) q(3) by (simp add: aggregate_tuple_def)
  then show ?case using Cons.IH [OF i(2)] by simp
qed simp

lemma group_entry:
  assumes ok: "aht_ok murmur3 tys (map (\<lambda>vs. (row_values gbs vs, row_values aggs vs)) rows) aht" and inj: "inj_on (key_hash murmur3) (row_values gbs ` set rows)"
    and k: "k \<in> row_values gbs ` set rows"
  shows "ht_key aht (key_hash murmur3 k) = Some k" "ht_val aht (key_hash murmur3 k) = Some (group_aggregates gbs aggs tys rows k)"
proof -
  let ?kvs = "map (\<lambda>vs. (row_values gbs vs, row_values aggs vs)) rows" and ?h = "key_hash murmur3 k"
  have e: "key_hash murmur3 (row_values gbs vs) = ?h \<longleftrightarrow> row_values gbs vs = k" if "vs \<in> set rows" for vs using inj_on_eq_iff [OF inj] k that by blast
  have mem: "?h \<in> (key_hash murmur3 \<circ> fst) ` set ?kvs" using k by force
  then have "List.find (\<lambda>kv. key_hash murmur3 (fst kv) = ?h) ?kvs \<noteq> None" using find_image [of "key_hash murmur3 \<circ> fst" ?h ?kvs] by simp
  then obtain kv where kv: "List.find (\<lambda>kv. key_hash murmur3 (fst kv) = ?h) ?kvs = Some kv" by blast
  then have "kv \<in> set ?kvs" "key_hash murmur3 (fst kv) = ?h" by (auto simp: find_Some_iff)
  then have "fst kv = k" using e by auto
  then show "ht_key aht ?h = Some k" using ok kv by (simp add: aht_ok_def)
  have "filter ((\<lambda>kv. key_hash murmur3 (fst kv) = ?h) \<circ> (\<lambda>vs. (row_values gbs vs, row_values aggs vs))) rows = filter (\<lambda>vs. row_values gbs vs = k) rows"
    using e by (intro filter_cong) auto
  then show "ht_val aht ?h = Some (group_aggregates gbs aggs tys rows k)"
    using ok mem by (simp add: aht_ok_def group_aggregates_def filter_map comp_def)
qed

subsection \<open>The executor\<close>

text \<open>The tuple an entry gives.\<close>

definition entry_tuple :: "schema \<Rightarrow> Expression list \<Rightarrow> sql_value list option \<times> sql_value list option \<Rightarrow> tuple \<Rightarrow> bool" where
  "entry_tuple out exprs ent t \<longleftrightarrow> (\<exists>k a vs. ent = (Some k, Some a) \<and> map_option_list (\<lambda>e. EvaluateAggregate e k a) exprs = Some vs \<and>
     NewTupleFromSchema vs out = Some t)"

definition agg_src :: "schema \<Rightarrow> nat \<Rightarrow> db \<Rightarrow> tuple list \<Rightarrow> exec_state \<Rightarrow> db \<Rightarrow> bool" where
  "agg_src out nf s0 ts c s \<longleftrightarrow> (\<exists>c' exprs it. c = Grouped c' exprs it \<and> list_all2 (entry_tuple out exprs) it ts \<and> reads nf s0 s)"

lemma skip_no_having [simp]: "skip_having None it = Some it"
  by (cases it rule: skip_having.cases [of "(None, it)" for it]) (auto split: list.splits)

interpretation grp: tuple_source "Exec_Next (AggregationPlanNode out child None gbs aggs tys) env" "agg_src out nf s0" "reads nf s0"
proof
  show "\<exists>c' s'. Exec_Next (AggregationPlanNode out child None gbs aggs tys) env c s = Some ((None, True, False), c', s') \<and> reads nf s0 s'"
    if "agg_src out nf s0 [] c s" for c s
    using that by (auto simp: agg_src_def Aggregation_Next_def)
  show "\<exists>c' s'. Exec_Next (AggregationPlanNode out child None gbs aggs tys) env c s = Some ((Some t, False, False), c', s') \<and> agg_src out nf s0 ts c' s'"
    if "agg_src out nf s0 (t # ts) c s" for t ts c s
    using that by (auto simp: agg_src_def Aggregation_Next_def entry_tuple_def list_all2_Cons2)
  show "reads nf s0 s" if "agg_src out nf s0 ts c s" for ts c s using that by (auto simp: agg_src_def)
qed

lemma group_tuple:
  assumes q: "agg_ok murmur3 cols gbs aggs tys exprs out rows" and k: "k \<in> row_values gbs ` set rows"
  shows "\<exists>t. entry_tuple (NewSchema out) exprs (Some k, Some (group_aggregates gbs aggs tys rows k)) t \<and> decode_row out t = Some (group_row gbs aggs tys exprs rows k)"
proof -
  let ?a = "group_aggregates gbs aggs tys rows k"
  have lk: "length k = length gbs" "length ?a = length aggs" using k q by (auto simp: row_values_def group_aggregates_def agg_ok_def)
  have "EvaluateAggregate e k ?a = Some (out_value k ?a e)" if "e \<in> set exprs" for e
    using q that lk by (cases e) (auto simp: agg_ok_def EvaluateAggregate_def out_value_def go_nth_def)
  then have e: "map_option_list (\<lambda>e. EvaluateAggregate e k ?a) exprs = Some (group_row gbs aggs tys exprs rows k)"
    unfolding map_option_list_Some group_row_def list_all2_map2 by (intro list.rel_refl_strong) auto
  have "fits out (group_row gbs aggs tys exprs rows k)" using q k by (auto simp: agg_ok_def)
  then obtain t where "NewTupleFromSchema (group_row gbs aggs tys exprs rows k) (NewSchema out) = Some t" "decode_row out t = Some (group_row gbs aggs tys exprs rows k)"
    by (rule row_tuple)
  then show ?thesis using e by (auto simp: entry_tuple_def)
qed

lemma group_tuples:
  assumes q: "agg_ok murmur3 cols gbs aggs tys exprs out rows" and ok: "aht_ok murmur3 tys (map (\<lambda>vs. (row_values gbs vs, row_values aggs vs)) rows) aht"
    and ord: "mset (order (ht_keys aht)) = mset (ht_keys aht)"
  shows "\<exists>ts. list_all2 (entry_tuple (NewSchema out) exprs) (AHT_Begin order aht) ts \<and>
    mset (map (decode_row out) ts) = image_mset Some (group_rows gbs aggs tys exprs rows)"
proof -
  let ?K = "row_values gbs ` set rows" and ?H = "key_hash murmur3"
  have inj: "inj_on ?H ?K" using q by (simp add: agg_ok_def)
  define tup where "tup k = (SOME t. entry_tuple (NewSchema out) exprs (Some k, Some (group_aggregates gbs aggs tys rows k)) t \<and>
    decode_row out t = Some (group_row gbs aggs tys exprs rows k))" for k
  have tup: "entry_tuple (NewSchema out) exprs (Some k, Some (group_aggregates gbs aggs tys rows k)) (tup k)"
      "decode_row out (tup k) = Some (group_row gbs aggs tys exprs rows k)" if "k \<in> ?K" for k
    using someI_ex [OF group_tuple [OF q that]] by (simp_all add: tup_def)
  have sk: "set (ht_keys aht) = ?H ` ?K" "distinct (ht_keys aht)" using ok by (auto simp: aht_ok_def image_image)
  let ?inv = "the_inv_into ?K ?H" and ?hs = "order (ht_keys aht)"
  have hs: "set ?hs = ?H ` ?K" using mset_eq_setD [OF ord] sk(1) by simp
  have ent: "entry_tuple (NewSchema out) exprs (ht_key aht h, ht_val aht h) (tup (?inv h))" if h: "h \<in> set ?hs" for h
  proof -
    obtain k where k: "h = ?H k" "k \<in> ?K" using h unfolding hs by (rule imageE)
    show ?thesis unfolding k(1) group_entry [OF ok inj k(2)] the_inv_into_f_f [OF inj k(2)] by (rule tup(1) [OF k(2)])
  qed
  have "list_all2 (entry_tuple (NewSchema out) exprs) (AHT_Begin order aht) (map (\<lambda>h. tup (?inv h)) ?hs)"
    unfolding AHT_Begin_def list_all2_map1 list_all2_map2 by (rule list.rel_refl_strong) (rule ent)
  moreover have "mset (map (decode_row out) (map (\<lambda>h. tup (?inv h)) ?hs)) = image_mset Some (group_rows gbs aggs tys exprs rows)"
  proof -
    have "mset ?hs = image_mset ?H (mset_set ?K)" using ord mset_set_set [OF sk(2)] sk(1) image_mset_mset_set [OF inj] by simp
    then have "mset (map (decode_row out) (map (\<lambda>h. tup (?inv h)) ?hs)) = image_mset (\<lambda>k. decode_row out (tup (?inv (?H k)))) (mset_set ?K)"
      by (simp add: image_mset.compositionality comp_def)
    also have "\<dots> = image_mset (\<lambda>k. Some (group_row gbs aggs tys exprs rows k)) (mset_set ?K)"
      using tup(2) the_inv_into_f_f [OF inj] by (intro image_mset_cong) auto
    finally show ?thesis by (simp add: group_rows_def image_mset.compositionality comp_def)
  qed
  ultimately show ?thesis by blast
qed

subsection \<open>Properties\<close>

text \<open>C17: executing an aggregation without HAVING over a scan ends without a panic and returns, in some order, exactly one
  row for each group of the rows the scan selects: the key and the count, sum, minimum and maximum of the group, as the reference
  query computes them (no two groups have the same hash, the program keeps groups by their hash alone); the table keeps its rows.\<close>

theorem aggregation_select:
  assumes t: "table_ok env oid cs nf ps s rows" and q: "query_ok cs cols p rows"
    and a: "agg_ok (env_murmur3 env) cols gbs aggs tys exprs out (select_rows cs cols p rows)" and ex: "agg_exprs (env_exprs env) (NewSchema out) = Some exprs"
    and ord: "\<forall>hs. mset (env_range env hs) = mset hs"
  shows "\<exists>ts s'. Execute env (AggregationPlanNode (NewSchema out) (SeqScanPlanNode (NewSchema cols) p oid) None gbs aggs tys) s = Some (ts, s') \<and>
    mset (map (decode_row out) ts) = image_mset Some (group_rows gbs aggs tys exprs (select_rows cs cols p rows)) \<and> table_ok env oid cs nf ps s' rows"
proof -
  let ?child = "SeqScanPlanNode (NewSchema cols) p oid" and ?sel = "select_rows cs cols p rows"
  let ?plan = "AggregationPlanNode (NewSchema out) ?child None gbs aggs tys"
  obtain us c s1 where i: "Exec_Init ?child env s = Some (c, s1)" "scan_src env (NewSchema cols) p oid nf ps s us c s1"
      "list_all2 (\<lambda>u vs. decode_row cols u = Some vs) us ?sel" using select_init [OF t q] by blast
  have "\<forall>vs \<in> set ?sel. fits cols vs" using q by (auto simp: select_rows_def query_ok_def)
  then have us: "list_all2 (\<lambda>u vs. decode_row cols u = Some vs \<and> fits cols vs) us ?sel" using i(3) by (auto simp: list_all2_conv_all_nth)
  have A: "\<forall>e \<in> set gbs. expr_type (map columnType cols) e \<noteq> None" "\<forall>e \<in> set aggs. expr_type (map columnType cols) e = Some Integer"
      "length tys = length aggs" "\<forall>ty \<in> set tys. known_aggregate ty" using a by (simp_all add: agg_ok_def)
  obtain aht where p: "put_all (aggregate_tuple env (Some (NewSchema cols)) gbs aggs tys) us NewSimpleAggregationHashTable = Some aht"
      "aht_ok (env_murmur3 env) tys (map (\<lambda>vs. (row_values gbs vs, row_values aggs vs)) ?sel) aht"
    using aggregate_all [OF us aht_ok_New A, of env] by auto
  obtain c' s2 where l: "aggregate_loop (Exec_Next ?child env) (aggregate_tuple env (Some (NewSchema cols)) gbs aggs tys) NewSimpleAggregationHashTable c s1 = Some (aht, c', s2)"
      "reads nf s s2" using seq.aggregate_loop_src [OF i(2) p(1)] by blast
  have o: "mset (env_range env (ht_keys aht)) = mset (ht_keys aht)" using ord by blast
  obtain ts where ts: "list_all2 (entry_tuple (NewSchema out) exprs) (AHT_Begin (env_range env) aht) ts"
      "mset (map (decode_row out) ts) = image_mset Some (group_rows gbs aggs tys exprs ?sel)" using group_tuples [OF a p(2), of "env_range env"] o by blast
  have "Exec_Init ?plan env s = Some (Grouped c' exprs (AHT_Begin (env_range env) aht), s2)" using i(1) l(1) ex by (simp add: Aggregation_Init_def OutputSchema_def)
  moreover have "agg_src (NewSchema out) nf s ts (Grouped c' exprs (AHT_Begin (env_range env) aht)) s2" using ts(1) l(2) by (simp add: agg_src_def)
  from grp.run_executor_src [OF this, of ?child gbs aggs tys env "[]"] obtain s' where
      "run_executor (Exec_Next ?plan env) [] (Grouped c' exprs (AHT_Begin (env_range env) aht)) s2 = Some (ts, s')" "reads nf s s'" by auto
  ultimately show ?thesis using ts(2) table_ok_reads [OF _ t] by (auto simp: Execute_def)
qed

text \<open>On the example table: the key, the number of rows and the sum of the first column for the rows where it exceeds 5.\<close>

definition example_groups :: "column list" where
  "example_groups = map (\<lambda>n. NewColumn [of_nat n] Integer False (Some n)) [0..<3]"

abbreviation example_gbs :: "Expression list" where "example_gbs \<equiv> [ColumnValue 0 0]"
abbreviation example_aggs :: "Expression list" where "example_aggs \<equiv> [ColumnValue 0 0, ColumnValue 0 0]"
abbreviation example_tys :: "AggregationType list" where "example_tys \<equiv> [COUNT_AGGREGATE, SUM_AGGREGATE]"
abbreviation example_exprs :: "Expression list" where
  "example_exprs \<equiv> [AggregateValueExpression True 0, AggregateValueExpression False 0, AggregateValueExpression False 1]"

lemma example_grouped:
  "group_row example_gbs example_aggs example_tys example_exprs [[NewInteger 7, NewVarchar [1, 2, 3]]] [NewInteger 7] = [NewInteger 7, NewInteger 1, NewInteger 7]"
  by (simp add: group_row_def out_value_def group_aggregates_def row_values_def row_value_def go_nth_def aggregate_of_def ints_of_def value_defs upt_rec)

lemma example_agg_ok:
  "agg_ok id example_columns example_gbs example_aggs example_tys example_exprs example_groups [[NewInteger 7, NewVarchar [1, 2, 3]]]"
  "agg_exprs (env_exprs example_env) (NewSchema example_groups) = Some example_exprs"
proof -
  have "fits example_groups [NewInteger 7, NewInteger 1, NewInteger 7]"
    by (simp add: example_groups_def fits_def row_ok_def NewColumn_def wf_column_def storable_def wf_value_def var_size_def IsInlined_def TypeID_Size_def value_defs upt_rec)
  moreover have "row_values example_gbs [NewInteger 7, NewVarchar [1, 2, 3]] = [NewInteger 7]" by (simp add: row_values_def row_value_def go_nth_def)
  ultimately show "agg_ok id example_columns example_gbs example_aggs example_tys example_exprs example_groups [[NewInteger 7, NewVarchar [1, 2, 3]]]"
    using example_grouped by (simp add: agg_ok_def go_nth_def example_columns_def NewColumn_def known_aggregate_def)
  show "agg_exprs (env_exprs example_env) (NewSchema example_groups) = Some example_exprs"
    by (simp add: agg_exprs_def example_env_def example_groups_def NewSchema_eq NewColumn_def SetOffset_def upt_rec)
qed

theorem aggregation_select_witness:
  "\<exists>s t s'. Execute example_env (InsertPlanNode example_rows 1) example_heap = Some ([], s) \<and>
     Execute example_env (AggregationPlanNode (NewSchema example_groups) (SeqScanPlanNode (NewSchema example_columns) (Some example_pred) 1) None
       example_gbs example_aggs example_tys) s = Some ([t], s') \<and> decode_row example_groups t = Some [NewInteger 7, NewInteger 1, NewInteger 7]"
proof (rule example_loaded)
  fix s ps rows
  assume a: "Execute example_env (InsertPlanNode example_rows 1) example_heap = Some ([], s)" "table_ok example_env 1 example_columns 8 ps s rows"
    "mset rows = mset example_rows" "query_ok example_columns example_columns None rows"
  have q: "query_ok example_columns example_columns (Some example_pred) rows" using a(4) example_typed(1) by (simp add: query_ok_def)
  have sel: "select_rows example_columns example_columns (Some example_pred) rows = [[NewInteger 7, NewVarchar [1, 2, 3]]]"
    using example_filter(1) [OF a(3)] by (simp add: select_rows_def project_row_def example_columns_def NewColumn_def col_pos_def)
  have m: "env_murmur3 example_env = id" "\<forall>hs. mset (env_range example_env hs) = mset hs" by (simp_all add: example_env_def)
  have k: "row_values example_gbs [NewInteger 7, NewVarchar [1, 2, 3]] = [NewInteger 7]" by (simp add: row_values_def row_value_def go_nth_def)
  obtain ts s' where "Execute example_env (AggregationPlanNode (NewSchema example_groups) (SeqScanPlanNode (NewSchema example_columns) (Some example_pred) 1) None
       example_gbs example_aggs example_tys) s = Some (ts, s')" "mset (map (decode_row example_groups) ts) = {#Some [NewInteger 7, NewInteger 1, NewInteger 7]#}"
    using aggregation_select [OF a(2) q _ example_agg_ok(2) m(2), of example_gbs example_aggs example_tys] example_agg_ok(1) example_grouped k
    unfolding sel m(1) by (auto simp: group_rows_def)
  moreover from this(2) have "map (decode_row example_groups) ts = [Some [NewInteger 7, NewInteger 1, NewInteger 7]]" by (simp del: mset_map)
  ultimately show ?thesis using a(1) by (auto simp: map_eq_Cons_conv)
qed

end
