(* ===== verification/Spec2Isabelle.thy ===== *)
theory Spec2Isabelle
  imports Crash_Recovery Orderby_Spec Catalog_Spec Update_Spec Aggregation_Spec
begin

text \<open>
  Verification of SamehadaDB, a relational database in Go (\<^verbatim>\<open>src/\<close>).

  \<^bold>\<open>The program.\<close>  Rows of SQL values are laid out as tuples (\<^verbatim>\<open>types\<close>, \<^verbatim>\<open>storage/table\<close>, \<^verbatim>\<open>storage/tuple\<close>) and kept in slotted pages,
  chained into table heaps (\<^verbatim>\<open>storage/access\<close>).  Pages live in the frames of a buffer pool with a replacer (\<^verbatim>\<open>storage/buffer\<close>)
  over a disk manager (\<^verbatim>\<open>storage/disk\<close>).  Every change of a page is locked (\<^verbatim>\<open>lock_manager.go\<close>) and, when logging is on, logged
  (\<^verbatim>\<open>recovery\<close>); transactions commit or abort through their write set (\<^verbatim>\<open>transaction_manager.go\<close>), checkpoints flush pages and log
  (\<^verbatim>\<open>concurrency\<close>), and after a crash \<^verbatim>\<open>recovery/log_recovery\<close> redoes and undoes the log.  On top, a catalog (\<^verbatim>\<open>catalog\<close>) knows the
  tables and their hash indexes (\<^verbatim>\<open>container/hash\<close>, \<^verbatim>\<open>storage/index\<close>), and an engine runs trees of executors (\<^verbatim>\<open>execution\<close>).

  \<^bold>\<open>How it is modelled.\<close>  Definitions keep the names of the source.  A pointer that may be \<^verbatim>\<open>nil\<close>, an index out of range and a
  type assertion that fails are an \<open>option\<close>: a Go function that may panic or not return is \<open>... \<Rightarrow> 'a option\<close>, and \<open>None\<close> is the panic.
  Errors the program handles are values (\<open>tp_error + 'a\<close>, flags, inner options).  Integers are words of their width; page
  contents, log buffers and files are byte lists, so that offsets, little-endian fields and wrap-around are those of the code.
  State is passed explicitly: a page operation takes the bytes and the context of the transaction, a heap operation the record
  \<open>db\<close> (pool, lock tables, transaction).  Loops without an evident measure are \<open>partial_function (option)\<close>; the properties show that they
  return.  The model is sequential: latches and mutexes are left out, except the global latch of the transaction manager.

  \<^bold>\<open>Theories.\<close>
  \<^item> \<open>Prelude\<close>: byte codecs (locale \<open>byte_codec\<close>), Go slices, list and word lemmas.  \<open>Float32\<close>: 32-bit floats.
  \<^item> \<open>Sql_Types\<close> (\<^verbatim>\<open>types/*.go\<close>): identifiers, values, comparisons, encodings; round trips, the total order of the
    comparable values (non-NULL, no Boolean, no NaN) by their \<open>rank\<close>, and where both fail.
  \<^item> \<open>Page\<close>, \<open>Tuple_Schema\<close> (\<^verbatim>\<open>storage/page\<close>, \<^verbatim>\<open>storage/table\<close>, \<^verbatim>\<open>storage/tuple\<close>): frames, record ids, schemas and tuples; \<open>Tuple_roundtrip\<close>.
  \<^item> \<open>Disk_Manager\<close> (\<^verbatim>\<open>disk_manager_impl.go\<close>): files as bytes; locale \<open>page_store\<close>.
  \<^item> \<open>Log_Manager\<close> (\<^verbatim>\<open>log_record.go\<close>, \<^verbatim>\<open>log_manager.go\<close>): records and the log buffer; locale \<open>write_ahead_log\<close>.
  \<^item> \<open>Circular_List\<close>, \<open>Clock_Replacer\<close>: the replacer refines a queue (locale \<open>replacer\<close>).
  \<^item> \<open>Buffer_Pool\<close> (\<^verbatim>\<open>buffer_pool_manager.go\<close>): invariant \<open>bp_inv\<close> and the abstract contents \<open>bp_view\<close> of every page; a fetch gives the
    current contents whatever is evicted.  \<open>Pool_Client\<close>, \<open>Page_Access\<close>: what a client that pins and unpins pages may rely on.
  \<^item> \<open>Lock_Manager\<close> (\<^verbatim>\<open>transaction.go\<close>, \<^verbatim>\<open>lock_manager.go\<close>): lock tables, runs of lock requests; an exclusive lock excludes
    sharers except those a granted \<^verbatim>\<open>LockUpgrade\<close> ignored.
  \<^item> \<open>Table_Page\<close>, \<open>_Laws\<close>, \<open>_Spec\<close> (\<^verbatim>\<open>table_page.go\<close>): slotted pages, invariant \<open>tp_inv\<close>, abstract view \<open>tp_view\<close>, locale \<open>slot_store\<close>.
  \<^item> \<open>Table_Heap\<close>, \<open>_Laws\<close>, \<open>_Insert\<close>, \<open>_Scan\<close>, \<open>_Spec\<close>, \<open>_Update\<close> (\<^verbatim>\<open>table_heap.go\<close>, \<^verbatim>\<open>table_heap_iterator.go\<close>): the chain of pages (\<open>heap_ok\<close>) and the
    table as a map from record ids to bytes (\<open>tbl\<close>); insert, update, two-phase delete and iteration refine operations of this map.
  \<^item> \<open>Transaction_Manager\<close>, \<open>Transaction_Spec\<close>, \<open>Checkpoint\<close>: begin, commit, abort, checkpoints; abort restores the table.
  \<^item> \<open>Log_Recovery\<close>, \<open>Recovery_Laws\<close>, \<open>_History\<close>, \<open>_Pool\<close>, \<open>_Spec\<close>, \<open>Crash_Recovery\<close> (\<^verbatim>\<open>log_recovery.go\<close>): redo repeats history byte for byte, undo
    restores, and the two passes over a log of whole records end with the replayed and undone pages.
  \<^item> \<open>Expression\<close> (\<^verbatim>\<open>execution/expression\<close>): the evaluations of an expression.
  \<^item> \<open>Hash_Table\<close>, \<open>_Laws\<close>, \<open>_Spec\<close> (\<^verbatim>\<open>hash_table_*_page.go\<close>, \<^verbatim>\<open>container/hash\<close>): linear probing over pages of the pool refines a multimap
    (locale \<open>multimap_store\<close>) as long as no value is inserted twice.  \<open>Hash_Index\<close> (\<^verbatim>\<open>storage/index\<close>): the index of a column.
  \<^item> \<open>Catalog\<close> (\<^verbatim>\<open>catalog\<close>): table metadata, creating tables, reading the catalog tables back.  \<open>Catalog_Spec\<close>: from the
    rows the catalog tables hold, recovery builds every table again under its id and its name, with its first page and schema.
  \<^item> \<open>Executors\<close> (\<^verbatim>\<open>execution/plans\<close>, \<^verbatim>\<open>execution/executors\<close>): \<open>Exec_Init\<close> and \<open>Exec_Next\<close> over the plan tree, the engine \<open>Execute\<close>.
    \<open>Executors_Laws\<close>: the contract of an executor (locales \<open>tuple_stream\<close>, \<open>tuple_source\<close>) and the scan of a table as an instance.
    \<open>Query_Spec\<close>: queries over rows of values; well-typed expressions do not panic; scan, limit and insert implement the
    queries.  \<open>Orderby_Spec\<close>: ORDER BY on comparable columns returns a permutation sorted by an order
    (\<open>keys_before\<close>) that is written without the comparison of the program.
    \<open>Delete_Spec\<close>: DELETE marks the selected rows while the iterator walks over them; commit removes, abort restores them.
    \<open>Update_Spec\<close>: UPDATE with the columns listed in ascending order changes them in the selected rows, in place when no
    record gets longer; out of order, columns keep their old values.
    \<open>Aggregation_Spec\<close>: the table of an aggregation holds the counts, sums, minima and maxima of the groups.

  \<^bold>\<open>Parameters.\<close>  Code outside the repository is an argument: murmur3 (any function on bytes), \<^verbatim>\<open>sort.Slice\<close> (any function; the
  property of ORDER BY assumes its documented behaviour, \<open>sort_Slice_ok\<close>, and insertion sort has it), the order in which Go ranges over a map
  (\<open>FlushAllPages\<close>, the undo of transactions and the groups of an aggregation take the order as an argument).

  \<^bold>\<open>Bounds.\<close>  Page numbers stay below \<open>524288 = 2 ^ 19\<close>, since byte offsets are computed in 32 signed bits; tuples have at most 4064 bytes,
  the space of an empty page; varchars at most 32764 bytes.  These are the limits from which the code fails (see \<open>page_number_wraps\<close>,
  \<open>Varchar_long_panics\<close>).  A pool needs two free frames for a table operation.  The only fuel is that of \<open>scan\<close>, the loop of a client
  of the iterator: one more than the number of records is enough.

  \<^bold>\<open>Not modelled.\<close>  The SQL parser, whose input is the syntax tree of a third-party package and whose result nothing consumes; file
  creation, closing and removal; latches and the interleaving of threads; the helpers of the unit tests; the empty main program.
  Index scan and hash join are modelled as executors; the properties are about their parts (heap,
  hash table, index, expressions) and not about these executors.
\<close>

end
